(* ===== verification/Prelude.thy ===== *)
theory Prelude
  imports "HOL-Library.Word"
begin

text \<open>
  Shared vocabulary of the development: bytes and memory, the state-and-exception
  operations that model the C++ methods, little- and big-endian byte strings of
  machine words, and the generic lemmas (on lists, options and memory) that the
  component theories use.

  A C++ method that may throw is a function \<^typ>\<open>'s\<close> to a result and the state it leaves
  behind: \<^verbatim>\<open>Inl e\<close> is a thrown exception, and the state next to it is the state the
  exception leaves, because the destructors and handlers of the callers see it.
\<close>

unbundle bit_operations_syntax

section \<open>Collections of facts\<close>

named_theorems run_simps \<open>evaluation of the state and exception operations\<close>
named_theorems mem_simps \<open>reading back what was stored in memory\<close>
named_theorems layout_defs \<open>sizes and constants of the wire formats\<close>

section \<open>Exceptions and operations\<close>

text \<open>The exceptions the modelled code throws. The message texts are formatted with values in
  the source; a short tag stands for them. \<open>Undefined\<close> is not an exception of the code: it
  marks an execution that C++ leaves undefined, such as a copy of negative length.\<close>

datatype exn =
    RuntimeError string
  | LogicError string
  | InvalidArgument string
  | OutOfRange string
  | EndOfStream
  | Disconnected string
  | IOError string
  | LoaderError string
  | LoaderClosed string
  | LoaderInterrupted string
  | CursorError string
  | CursorClosed string
  | CursorInterrupted string
  | ServerError string
  | Undefined string

type_synonym ('s, 'a) op = "'s \<Rightarrow> (exn + 'a) \<times> 's"

definition ret :: "'a \<Rightarrow> ('s, 'a) op" where
  "ret x = (\<lambda>s. (Inr x, s))"

definition throw :: "exn \<Rightarrow> ('s, 'a) op" where
  "throw e = (\<lambda>s. (Inl e, s))"

definition bnd :: "('s, 'a) op \<Rightarrow> ('a \<Rightarrow> ('s, 'b) op) \<Rightarrow> ('s, 'b) op" where
  "bnd m f = (\<lambda>s. case m s of (Inl e, s') \<Rightarrow> (Inl e, s') | (Inr x, s') \<Rightarrow> f x s')"

definition andthen :: "('s, 'a) op \<Rightarrow> ('s, 'b) op \<Rightarrow> ('s, 'b) op" where
  "andthen m n = bnd m (\<lambda>_. n)"

definition gets :: "('s \<Rightarrow> 'a) \<Rightarrow> ('s, 'a) op" where
  "gets f = (\<lambda>s. (Inr (f s), s))"

definition modify :: "('s \<Rightarrow> 's) \<Rightarrow> ('s, unit) op" where
  "modify f = (\<lambda>s. (Inr (), f s))"

definition guard :: "bool \<Rightarrow> exn \<Rightarrow> ('s, unit) op" where
  "guard b e = (if b then ret () else throw e)"

definition whenM :: "bool \<Rightarrow> ('s, unit) op \<Rightarrow> ('s, unit) op" where
  "whenM b m = (if b then m else ret ())"

fun seqs :: "('s, unit) op list \<Rightarrow> ('s, unit) op" where
  "seqs [] = ret ()"
| "seqs [m] = m"
| "seqs (m # n # ms) = andthen m (seqs (n # ms))"

fun mapM :: "('a \<Rightarrow> ('s, unit) op) \<Rightarrow> 'a list \<Rightarrow> ('s, unit) op" where
  "mapM f [] = ret ()"
| "mapM f (x # xs) = andthen (f x) (mapM f xs)"

lemma ret_run [simp, run_simps]: "ret x s = (Inr x, s)"
  by (simp add: ret_def)

lemma throw_run [simp, run_simps]: "throw e s = (Inl e, s)"
  by (simp add: throw_def)

lemma gets_run [simp, run_simps]: "gets f s = (Inr (f s), s)"
  by (simp add: gets_def)

lemma modify_run [simp, run_simps]: "modify f s = (Inr (), f s)"
  by (simp add: modify_def)

lemma guard_run [simp, run_simps]: "guard b e s = (if b then Inr () else Inl e, s)"
  by (simp add: guard_def)

lemma whenM_run [simp, run_simps]: "whenM b m s = (if b then m s else (Inr (), s))"
  by (simp add: whenM_def)

lemma bnd_ok [run_simps]: "m s = (Inr x, s') \<Longrightarrow> bnd m f s = f x s'"
  by (simp add: bnd_def)

lemma bnd_err [run_simps]: "m s = (Inl e, s') \<Longrightarrow> bnd m f s = (Inl e, s')"
  by (simp add: bnd_def)

lemma andthen_ok [run_simps]: "m s = (Inr x, s') \<Longrightarrow> andthen m n s = n s'"
  by (simp add: andthen_def bnd_ok)

lemma andthen_err [run_simps]: "m s = (Inl e, s') \<Longrightarrow> andthen m n s = (Inl e, s')"
  by (simp add: andthen_def bnd_err)

lemma bnd_ret [simp]: "bnd (ret x) f = f x"
  by (rule ext) (simp add: bnd_def)

lemma andthen_ret [simp]: "andthen (ret x) n = n"
  by (simp add: andthen_def)

lemma guard_True [simp]: "guard True e = ret ()"
  by (simp add: guard_def)

lemma whenM_simps [simp]: "whenM True m = m" "whenM False m = ret ()"
  by (simp_all add: whenM_def)

lemma bnd_assoc: "bnd (bnd m f) g = bnd m (\<lambda>x. bnd (f x) g)"
  by (rule ext) (simp add: bnd_def split: prod.splits sum.splits)

lemma bnd_cases:
  assumes "bnd m f s = (r, s'')"
  obtains (err) e where "m s = (Inl e, s'')" "r = Inl e"
    | (ok) x s' where "m s = (Inr x, s')" "f x s' = (r, s'')"
  using assms by (auto simp: bnd_def split: prod.splits sum.splits)

lemma andthen_cases:
  assumes "andthen m n s = (r, s'')"
  obtains (err) e where "m s = (Inl e, s'')" "r = Inl e"
    | (ok) x s' where "m s = (Inr x, s')" "n s' = (r, s'')"
  using assms unfolding andthen_def by (rule bnd_cases) blast+

text \<open>An operation keeps a predicate of the state when it does so whether it returns or throws.\<close>

definition keeps :: "('s \<Rightarrow> bool) \<Rightarrow> ('s, 'a) op \<Rightarrow> bool" where
  "keeps P m \<longleftrightarrow> (\<forall>s. P s \<longrightarrow> P (snd (m s)))"

lemma keepsI [intro?]: "(\<And>s. P s \<Longrightarrow> P (snd (m s))) \<Longrightarrow> keeps P m"
  by (simp add: keeps_def)

lemma keepsD: "keeps P m \<Longrightarrow> P s \<Longrightarrow> P (snd (m s))"
  by (simp add: keeps_def)

lemma keeps_ret [simp, intro]: "keeps P (ret x)"
  by (simp add: keeps_def)

lemma keeps_throw [simp, intro]: "keeps P (throw e)"
  by (simp add: keeps_def)

lemma keeps_gets [simp, intro]: "keeps P (gets f)"
  by (simp add: keeps_def)

lemma keeps_guard [simp, intro]: "keeps P (guard b e)"
  by (simp add: keeps_def)

lemma keeps_bnd [intro]:
  assumes "keeps P m" "\<And>x. keeps P (f x)"
  shows "keeps P (bnd m f)"
proof
  fix s assume "P s"
  then have "P (snd (m s))" by (rule keepsD [OF assms(1)])
  then show "P (snd (bnd m f s))"
    using keepsD [OF assms(2)] by (auto simp: bnd_def split: prod.splits sum.splits)
qed

lemma keeps_andthen [intro]: "keeps P m \<Longrightarrow> keeps P n \<Longrightarrow> keeps P (andthen m n)"
  unfolding andthen_def by (rule keeps_bnd)

lemma keeps_whenM [intro]: "keeps P m \<Longrightarrow> keeps P (whenM b m)"
  by (simp add: whenM_def)

lemma keeps_modify [intro]: "(\<And>s. P s \<Longrightarrow> P (f s)) \<Longrightarrow> keeps P (modify f)"
  by (simp add: keeps_def)

lemma keeps_seqs [intro]: "(\<And>m. m \<in> set ms \<Longrightarrow> keeps P m) \<Longrightarrow> keeps P (seqs ms)"
  by (induction ms rule: seqs.induct) auto

lemma keeps_mapM [intro]: "(\<And>x. keeps P (f x)) \<Longrightarrow> keeps P (mapM f xs)"
  by (induction xs) auto

section \<open>Bytes and memory\<close>

type_synonym byte = "8 word"

text \<open>An address is a natural number and a memory gives the byte at every address.\<close>

type_synonym memory = "nat \<Rightarrow> byte"

definition load_bytes :: "memory \<Rightarrow> nat \<Rightarrow> nat \<Rightarrow> byte list" where
  "load_bytes m a n = map m [a..<a + n]"

definition store_bytes :: "nat \<Rightarrow> byte list \<Rightarrow> memory \<Rightarrow> memory" where
  "store_bytes a bs m = (\<lambda>i. if a \<le> i \<and> i < a + length bs then bs ! (i - a) else m i)"

lemma length_load_bytes [simp]: "length (load_bytes m a n) = n"
  by (simp add: load_bytes_def)

lemma nth_load_bytes [simp]: "i < n \<Longrightarrow> load_bytes m a n ! i = m (a + i)"
  by (simp add: load_bytes_def)

lemma load_bytes_0 [simp]: "load_bytes m a 0 = []"
  by (simp add: load_bytes_def)

lemma load_bytes_append: "load_bytes m a (k + n) = load_bytes m a k @ load_bytes m (a + k) n"
  by (rule nth_equalityI) (auto simp: nth_append)

lemma load_bytes_Suc: "load_bytes m a (Suc n) = m a # load_bytes m (Suc a) n"
  by (rule nth_equalityI) (auto simp: nth_Cons split: nat.splits)

lemma load_bytes_cong: "(\<And>i. i < n \<Longrightarrow> m (a + i) = m' (a + i)) \<Longrightarrow> load_bytes m a n = load_bytes m' a n"
  by (rule nth_equalityI) auto

lemma take_load_bytes [simp]: "k \<le> n \<Longrightarrow> take k (load_bytes m a n) = load_bytes m a k"
  by (rule nth_equalityI) auto

lemma drop_load_bytes [simp]: "k \<le> n \<Longrightarrow> drop k (load_bytes m a n) = load_bytes m (a + k) (n - k)"
  by (rule nth_equalityI) (auto simp: add.assoc)

lemma store_bytes_Nil [simp]: "store_bytes a [] m = m"
  by (rule ext) (auto simp: store_bytes_def)

lemma store_bytes_outside [mem_simps]: "i < a \<or> a + length bs \<le> i \<Longrightarrow> store_bytes a bs m i = m i"
  by (auto simp: store_bytes_def)

lemma store_bytes_inside [mem_simps]: "i < length bs \<Longrightarrow> store_bytes a bs m (a + i) = bs ! i"
  by (simp add: store_bytes_def)

lemma load_store_same [mem_simps]: "n = length bs \<Longrightarrow> load_bytes (store_bytes a bs m) a n = bs"
  by (rule nth_equalityI) (simp_all add: store_bytes_inside)

lemma load_store_take: "n \<le> length bs \<Longrightarrow> load_bytes (store_bytes a bs m) a n = take n bs"
  by (rule nth_equalityI) (simp_all add: store_bytes_inside)

lemma load_store_below [mem_simps]: "b + n \<le> a \<Longrightarrow> load_bytes (store_bytes a bs m) b n = load_bytes m b n"
  by (rule load_bytes_cong) (simp add: store_bytes_outside)

lemma load_store_above [mem_simps]:
  "a + length bs \<le> b \<Longrightarrow> load_bytes (store_bytes a bs m) b n = load_bytes m b n"
  by (rule load_bytes_cong) (simp add: store_bytes_outside)

lemma store_bytes_append:
  "store_bytes a (bs @ cs) m = store_bytes (a + length bs) cs (store_bytes a bs m)"
  by (rule ext) (auto simp: store_bytes_def nth_append add.assoc)

section \<open>Byte strings of machine words\<close>

text \<open>The bytes of a word, lowest first, and the word of a byte string.\<close>

definition le_bytes :: "nat \<Rightarrow> 'a::len word \<Rightarrow> byte list" where
  "le_bytes n w = map (\<lambda>i. ucast (drop_bit (8 * i) w)) [0..<n]"

definition be_bytes :: "nat \<Rightarrow> 'a::len word \<Rightarrow> byte list" where
  "be_bytes n w = rev (le_bytes n w)"

fun le_word :: "byte list \<Rightarrow> 'a::len word" where
  "le_word [] = 0"
| "le_word (b # bs) = ucast b OR push_bit 8 (le_word bs)"

definition be_word :: "byte list \<Rightarrow> 'a::len word" where
  "be_word bs = le_word (rev bs)"

lemma length_le_bytes [simp]: "length (le_bytes n w) = n"
  by (simp add: le_bytes_def)

lemma length_be_bytes [simp]: "length (be_bytes n w) = n"
  by (simp add: be_bytes_def)

lemma be_bytes_Nil_iff [simp]: "be_bytes n w = [] \<longleftrightarrow> n = 0"
  using length_be_bytes [of n w] by (metis length_0_conv)

lemma nth_le_bytes [simp]: "i < n \<Longrightarrow> le_bytes n w ! i = ucast (drop_bit (8 * i) w)"
  by (simp add: le_bytes_def)

lemma bit_le_word:
  "bit (le_word bs :: 'a::len word) n \<longleftrightarrow>
     n < LENGTH('a) \<and> n div 8 < length bs \<and> bit (bs ! (n div 8)) (n mod 8)"
proof (induction bs arbitrary: n)
  case Nil
  then show ?case by simp
next
  case (Cons b bs)
  show ?case
  proof (cases "n < 8")
    case True
    then show ?thesis by (auto simp: bit_simps)
  next
    case False
    then obtain k where k: "n = k + 8" by (metis add.commute le_Suc_ex not_le)
    have "\<not> bit b n" using False by (auto dest: bit_imp_le_length)
    moreover have "n div 8 = Suc (k div 8)" "n mod 8 = k mod 8" using k by simp_all
    ultimately show ?thesis using k Cons.IH [of k] by (auto simp: bit_simps)
  qed
qed

lemma bit_nth_le_bytes:
  "i < n \<Longrightarrow> bit (le_bytes n (w :: 'a::len word) ! i) j \<longleftrightarrow> j < 8 \<and> bit w (8 * i + j)"
  by (auto simp: bit_simps add.commute dest: bit_imp_le_length)

lemma le_word_le_bytes [simp]:
  "le_word (le_bytes n (w :: 'a::len word)) = take_bit (8 * n) w"
proof (rule bit_word_eqI)
  fix k assume "k < LENGTH('a)"
  then show "bit (le_word (le_bytes n w) :: 'a word) k = bit (take_bit (8 * n) w) k"
    by (auto simp: bit_le_word bit_nth_le_bytes bit_take_bit_iff simp del: nth_le_bytes)
qed

lemma be_word_be_bytes [simp]:
  "be_word (be_bytes n (w :: 'a::len word)) = take_bit (8 * n) w"
  by (simp add: be_word_def be_bytes_def)

section \<open>Words and their values\<close>

lemma unat_drop_bit: "unat (drop_bit k (v :: 'a::len word)) = unat v div 2 ^ k"
proof -
  have "unat (drop_bit k v) = drop_bit k (unat v)"
    by (simp only: unsigned_drop_bit_eq take_bit_nat_eq_self unsigned_less)
  also have "\<dots> = unat v div 2 ^ k" by (rule drop_bit_eq_div)
  finally show ?thesis .
qed

lemma unat_take_bit: "unat (take_bit k (v :: 'a::len word)) = unat v mod 2 ^ k"
proof -
  have "unat (take_bit k v) = take_bit k (unat v)" by (rule unsigned_take_bit_eq)
  also have "\<dots> = unat v mod 2 ^ k" by (rule take_bit_eq_mod)
  finally show ?thesis .
qed

lemma word_take_bit_self: "unat (v :: 'a::len word) < 2 ^ k \<Longrightarrow> take_bit k v = v"
  by (simp only: word_unat_eq_iff unat_take_bit mod_less)

lemma unat_exp: "k < LENGTH('a) \<Longrightarrow> unat (2 ^ k :: 'a::len word) = 2 ^ k"
proof -
  assume k: "k < LENGTH('a)"
  have "unat (of_nat (2 ^ k) :: 'a word) = take_bit LENGTH('a) (2 ^ k)" by (simp only: unsigned_of_nat of_nat_id)
  also have "\<dots> = 2 ^ k" using k by (simp add: take_bit_nat_eq_self)
  finally show ?thesis by simp
qed

lemma unat_ucast_up: "LENGTH('b) \<le> LENGTH('a) \<Longrightarrow> unat (ucast (v :: 'b::len word) :: 'a::len word) = unat v"
proof -
  assume le: "LENGTH('b) \<le> LENGTH('a)"
  have "(ucast v :: 'a word) = of_nat (unat v)" by simp
  then have "unat (ucast v :: 'a word) = take_bit LENGTH('a) (unat v)" by (simp only: unsigned_of_nat of_nat_id)
  moreover have "unat v < 2 ^ LENGTH('a)"
    by (rule less_le_trans [OF unsigned_less]) (use le in simp)
  ultimately show ?thesis by (simp add: take_bit_nat_eq_self)
qed

lemma and_exp_take: "v AND (2 ^ k - 1) = take_bit k (v :: 'a::len word)"
  by (simp add: take_bit_eq_mask mask_eq_exp_minus_1)

lemma take_bit_full [simp]:
  "take_bit 8 (a :: 8 word) = a" "take_bit 16 (b :: 16 word) = b"
  "take_bit 32 (c :: 32 word) = c" "take_bit 64 (d :: 64 word) = d"
  using unsigned_less [of a, where ?'a = nat] unsigned_less [of b, where ?'a = nat]
    unsigned_less [of c, where ?'a = nat] unsigned_less [of d, where ?'a = nat]
  by (auto intro!: word_take_bit_self)

end
