(* ===== verification/Platform.thy ===== *)
theory Platform
  imports Prelude
begin

text \<open>
  The platform layer: byte swapping and unaligned loads and stores
  (\<^verbatim>\<open>include/native/dxapi/dxplatform.h\<close>), the bit scans of \<^verbatim>\<open>platform/platform.h\<close>,
  the helpers of \<^verbatim>\<open>tickdb/common.h\<close> (range checks, division of signed integers by
  unsigned constants, scrambling, byte comparison) and those of
  \<^verbatim>\<open>platform/platform.cpp\<close> (prefix test, CRC-32, splitting, replacing).
\<close>

section \<open>Byte order\<close>

text \<open>The number of bytes of a machine word type, C++'s \<^verbatim>\<open>sizeof\<close>.\<close>

abbreviation wbytes :: "'a::len word \<Rightarrow> nat" where
  "wbytes (x :: 'a word) \<equiv> LENGTH('a) div 8"

definition bswap :: "'a::len word \<Rightarrow> 'a word" where
  "bswap x = le_word (rev (le_bytes (wbytes x) x))"

text \<open>The plain store of a little-endian machine, and the store with swapped bytes.\<close>

definition storeLE :: "nat \<Rightarrow> 'a::len word \<Rightarrow> memory \<Rightarrow> memory" where
  "storeLE p x m = store_bytes p (le_bytes (wbytes x) x) m"

definition storeBE :: "nat \<Rightarrow> 'a::len word \<Rightarrow> memory \<Rightarrow> memory" where
  "storeBE p x m = storeLE p (bswap x) m"

definition loadLE :: "memory \<Rightarrow> nat \<Rightarrow> 'a::len word" where
  "loadLE m p = le_word (load_bytes m p (LENGTH('a) div 8))"

definition loadBE :: "memory \<Rightarrow> nat \<Rightarrow> 'a::len word" where
  "loadBE m p = bswap (loadLE m p)"

text \<open>The number of the highest and of the lowest set bit, counted from 1, and 0 for no bit.\<close>

fun bit_length :: "nat \<Rightarrow> nat" where
  "bit_length n = (if n = 0 then 0 else Suc (bit_length (n div 2)))"

fun lowest_bit :: "nat \<Rightarrow> nat" where
  "lowest_bit n = (if n = 0 then 0 else if odd n then 1 else Suc (lowest_bit (n div 2)))"

definition bsr :: "'a::len word \<Rightarrow> nat" where
  "bsr x = bit_length (unat x)"

definition bsf :: "'a::len word \<Rightarrow> nat" where
  "bsf x = lowest_bit (unat x)"

declare bit_length.simps [simp del] lowest_bit.simps [simp del]

section \<open>Helpers of common.h\<close>

definition in_range :: "'a::len word \<Rightarrow> 'a word \<Rightarrow> 'a word \<Rightarrow> bool" where
  "in_range x a b = (x - a < b - a)"

definition half_range_div :: "64 word \<Rightarrow> 64 word" where
  "half_range_div d = (((- 1 :: 64 word) div 2) div d)"

definition fast_divisible_by :: "64 word \<Rightarrow> 64 word \<Rightarrow> bool" where
  "fast_divisible_by x d = ((x + half_range_div d * d) mod d = 0)"

definition fast_divide_by :: "64 word \<Rightarrow> 64 word \<Rightarrow> 64 word" where
  "fast_divide_by x d = (x + half_range_div d * d) div d - half_range_div d"

fun lex_cmp :: "byte list \<Rightarrow> byte list \<Rightarrow> int" where
  "lex_cmp (a # as) (b # bs) = (if a < b then - 1 else if b < a then 1 else lex_cmp as bs)"
| "lex_cmp _ _ = 0"

definition memcmp_impl :: "byte list \<Rightarrow> byte list \<Rightarrow> int" where
  "memcmp_impl a b =
     (if length a < length b then - 1
      else if length b < length a then 1
      else if length a = 0 then 0
      else lex_cmp a b)"

fun scramble_from :: "32 word \<Rightarrow> byte list \<Rightarrow> byte list" where
  "scramble_from x [] = []"
| "scramble_from x (v # vs) =
     (let x' = x * 1664525 + 1013904223
      in (v XOR ucast (drop_bit 16 x')) # scramble_from x' vs)"

definition scramble :: "byte list \<Rightarrow> byte list" where
  "scramble v = scramble_from (of_nat (length v * 9 + 103)) v"

section \<open>Helpers of platform.cpp\<close>

text \<open>\<^verbatim>\<open>None\<close> is the null pointer.\<close>

definition strhasprefix :: "byte list option \<Rightarrow> byte list option \<Rightarrow> bool" where
  "strhasprefix s prefix =
     (case (s, prefix) of
        (Some s, Some p) \<Rightarrow>
          if length s < length p then False else lex_cmp (take (length p) s) p = 0
      | _ \<Rightarrow> False)"

text \<open>One step of the CRC table's inner loop, and the table the first call fills; the table is
  a static variable, all zero before the first call.\<close>

definition crc_step :: "32 word \<Rightarrow> 32 word" where
  "crc_step crc = drop_bit 1 crc XOR (if crc AND 1 \<noteq> 0 then 0xEDB88320 else 0)"

definition crc_entry :: "nat \<Rightarrow> 32 word" where
  "crc_entry i = (crc_step ^^ 8) (of_nat i)"

definition crc_table_init :: "32 word list \<Rightarrow> 32 word list" where
  "crc_table_init tbl = (if tbl ! 1 = 0 then map crc_entry [0..<256] else tbl)"

definition crc_update :: "32 word list \<Rightarrow> byte \<Rightarrow> 32 word \<Rightarrow> 32 word" where
  "crc_update tbl b crc = drop_bit 8 crc XOR tbl ! unat (ucast b XOR (crc AND 0xFF))"

definition crc32 :: "byte list \<Rightarrow> 32 word list \<Rightarrow> 32 word \<times> 32 word list" where
  "crc32 buffer tbl =
     (let tbl' = crc_table_init tbl
      in (NOT (fold (crc_update tbl') buffer (NOT 0)), tbl'))"

text \<open>\<^verbatim>\<open>split\<close> cuts the source at the first \<open>n - 1\<close> separators.\<close>

fun split_at :: "char \<Rightarrow> nat \<Rightarrow> string \<Rightarrow> string list" where
  "split_at c 0 s = []"
| "split_at c (Suc 0) s = [s]"
| "split_at c (Suc (Suc n)) s =
     (if c \<in> set s
      then takeWhile (\<lambda>x. x \<noteq> c) s # split_at c (Suc n) (tl (dropWhile (\<lambda>x. x \<noteq> c) s))
      else [s])"

text \<open>The copying \<^verbatim>\<open>replace_all\<close>; an empty \<^verbatim>\<open>from\<close> matches everywhere without advancing, so
  the loop of the source does not end then and the model returns None.\<close>

function replace_copy :: "string \<Rightarrow> string \<Rightarrow> string \<Rightarrow> string" where
  "replace_copy [] from to = []"
| "replace_copy (c # s) from to =
     (if from \<noteq> [] \<and> take (length from) (c # s) = from
      then to @ replace_copy (drop (length from) (c # s)) from to
      else c # replace_copy s from to)"
  by pat_completeness auto
termination
  by (relation "measure (\<lambda>(s, from, to). length s)") (auto simp: neq_Nil_conv)

definition replace_all :: "string \<Rightarrow> string \<Rightarrow> string \<Rightarrow> string option" where
  "replace_all src from to =
     (if from = [] \<and> src \<noteq> [] then None else Some (replace_copy src from to))"

section \<open>Loads and stores\<close>

lemma bswap_bytes:
  assumes "8 dvd LENGTH('a::len)"
  shows "le_bytes (wbytes x) (bswap x) = be_bytes (wbytes x) (x :: 'a word)"
proof (rule nth_equalityI)
  fix i assume i: "i < length (le_bytes (wbytes x) (bswap x))"
  let ?n = "wbytes x"
  have n: "8 * ?n = LENGTH('a)" using assms by simp
  from i have i': "i < ?n" by simp
  show "le_bytes ?n (bswap x) ! i = be_bytes ?n x ! i"
  proof (rule bit_word_eqI)
    fix j assume "j < LENGTH(8)"
    then have j: "j < 8" by simp
    have "8 * i + j < LENGTH('a)" using i' j n by linarith
    moreover have "(8 * i + j) div 8 = i" "(8 * i + j) mod 8 = j" using j by simp_all
    ultimately show "bit (le_bytes ?n (bswap x) ! i) j = bit (be_bytes ?n x ! i) j"
      using i' j by (simp only: bit_nth_le_bytes) (simp add: bswap_def bit_le_word be_bytes_def)
  qed
qed simp

lemma storeBE_bytes:
  "8 dvd LENGTH('a::len) \<Longrightarrow> storeBE p (x :: 'a word) m = store_bytes p (be_bytes (wbytes x) x) m"
  by (simp add: storeBE_def storeLE_def bswap_bytes)

lemma bswap_bswap:
  assumes "8 dvd LENGTH('a::len)"
  shows "bswap (bswap (x :: 'a word)) = x"
proof -
  have "bswap (bswap x) = le_word (rev (be_bytes (wbytes x) x))"
    by (subst bswap_def) (simp add: bswap_bytes [OF assms])
  also have "\<dots> = take_bit (8 * wbytes x) x" by (simp add: be_bytes_def)
  finally show ?thesis using assms by simp
qed

lemma loadBE_be_word: "loadBE m p = (be_word (load_bytes m p (LENGTH('a::len) div 8)) :: 'a word)"
  if "8 dvd LENGTH('a)"
proof -
  let ?bs = "load_bytes m p (LENGTH('a) div 8)"
  have "le_bytes (LENGTH('a) div 8) (le_word ?bs :: 'a word) = ?bs"
  proof (rule nth_equalityI)
    fix i assume "i < length (le_bytes (LENGTH('a) div 8) (le_word ?bs :: 'a word))"
    then have i: "i < LENGTH('a) div 8" by simp
    show "le_bytes (LENGTH('a) div 8) (le_word ?bs :: 'a word) ! i = ?bs ! i"
    proof (rule bit_word_eqI)
      fix j assume "j < LENGTH(8)"
      then have j: "j < 8" by simp
      have "8 * i + j < LENGTH('a)" using i j that by (auto elim!: dvdE)
      moreover have "(8 * i + j) div 8 = i" "(8 * i + j) mod 8 = j" using j by simp_all
      ultimately show "bit (le_bytes (LENGTH('a) div 8) (le_word ?bs :: 'a word) ! i) j = bit (?bs ! i) j"
        using i j by (simp only: bit_nth_le_bytes) (simp add: bit_le_word)
    qed
  qed simp
  then show ?thesis by (simp add: loadBE_def bswap_def loadLE_def be_word_def)
qed

lemma storeBE_loadBE:
  assumes "8 dvd LENGTH('a::len)"
  shows "loadBE (storeBE p (x :: 'a word) m) p = x"
  using assms by (simp add: loadBE_be_word storeBE_bytes load_store_same)

section \<open>Bit scans\<close>

lemma bit_length_0 [simp]: "bit_length 0 = 0"
  by (simp add: bit_length.simps)

lemma bit_length_le_iff: "bit_length n \<le> k \<longleftrightarrow> n < 2 ^ k"
proof (induction n arbitrary: k rule: bit_length.induct)
  case (1 n)
  show ?case
  proof (cases "n = 0")
    case False
    then have *: "bit_length n = Suc (bit_length (n div 2))" by (simp add: bit_length.simps)
    show ?thesis
    proof (cases k)
      case 0 then show ?thesis using * False by simp
    next
      case (Suc j)
      have "n div 2 < 2 ^ j \<longleftrightarrow> n < 2 ^ Suc j"
        by (simp add: div_less_iff_less_mult mult.commute)
      then show ?thesis using Suc * "1.IH" [OF False, of j] by simp
    qed
  qed simp
qed

lemma bit_length_upper: "n < 2 ^ bit_length n"
  using bit_length_le_iff by blast

lemma bit_length_lower: "0 < n \<Longrightarrow> 2 ^ (bit_length n - 1) \<le> n"
  using bit_length_le_iff [of n "bit_length n - 1"]
  by (cases "bit_length n") (auto simp: not_less bit_length.simps split: if_splits)

lemma bit_length_mono: "m \<le> n \<Longrightarrow> bit_length m \<le> bit_length n"
  using bit_length_upper [of n] by (simp add: bit_length_le_iff)

lemma bit_length_pos: "0 < n \<Longrightarrow> 0 < bit_length n"
  by (subst bit_length.simps) simp

lemma bsr_le: "bsr (x :: 'a::len word) \<le> LENGTH('a)"
  by (simp add: bsr_def bit_length_le_iff)

lemma bsr_bounds: "x \<noteq> 0 \<Longrightarrow> 2 ^ (bsr x - 1) \<le> unat x \<and> unat x < 2 ^ bsr x"
  using bit_length_lower [of "unat x"] by (simp add: bsr_def bit_length_upper unat_gt_0)

lemma bsr_0_iff [simp]: "bsr x = 0 \<longleftrightarrow> x = 0"
  using bit_length_pos [of "unat x"] by (cases "x = 0") (auto simp: bsr_def unat_gt_0)

lemma lowest_bit_spec:
  "0 < n \<Longrightarrow> 2 ^ (lowest_bit n - 1) dvd n \<and> odd (n div 2 ^ (lowest_bit n - 1)) \<and> 0 < lowest_bit n"
proof (induction n rule: lowest_bit.induct)
  case (1 n)
  show ?case
  proof (cases "odd n")
    case True
    then have "lowest_bit n = 1" using 1 by (subst lowest_bit.simps) auto
    then show ?thesis using True by simp
  next
    case False
    then obtain m where m: "n = 2 * m" by (auto elim: evenE)
    with 1 have "0 < m" by simp
    with "1.IH" "1.prems" False m
    have IH: "2 ^ (lowest_bit m - 1) dvd m" "odd (m div 2 ^ (lowest_bit m - 1))" "0 < lowest_bit m"
      by auto
    have "lowest_bit n = Suc (lowest_bit m)"
      using False 1 m by (subst lowest_bit.simps) auto
    moreover have "(2::nat) ^ lowest_bit m = 2 * 2 ^ (lowest_bit m - 1)"
      using IH(3) by (cases "lowest_bit m") auto
    ultimately show ?thesis using IH m by auto
  qed
qed

section \<open>Ranges and division\<close>

lemma in_range_unsigned:
  fixes x a b :: "'a::len word"
  assumes "a \<le> b"
  shows "in_range x a b \<longleftrightarrow> a \<le> x \<and> x < b"
proof -
  have "unat b < 2 ^ LENGTH('a)" by (rule unsigned_less)
  with assms show ?thesis
    unfolding in_range_def word_less_nat_alt word_le_nat_alt unat_sub_if' by (auto; linarith)
qed

lemma uint_sub_sint: "uint (x - a) = (sint x - sint (a :: 'a::len word)) mod 2 ^ LENGTH('a)"
proof -
  have "word_of_int (sint x - sint a) = x - a" by simp
  then have "uint (x - a) = take_bit LENGTH('a) (sint x - sint a)"
    by (metis uint_word_of_int_eq)
  then show ?thesis by (simp add: take_bit_eq_mod)
qed

lemma sint_bounds: "- (2 ^ (LENGTH('a) - 1)) \<le> sint (x :: 'a::len word) \<and> sint x < 2 ^ (LENGTH('a) - 1)"
  by (simp add: sint_greater_eq sint_less)

lemma in_range_signed:
  fixes x a b :: "'a::len word"
  assumes "sint a \<le> sint b"
  shows "in_range x a b \<longleftrightarrow> sint a \<le> sint x \<and> sint x < sint b"
proof -
  let ?M = "2 ^ (LENGTH('a) - 1) :: int"
  have M: "2 ^ LENGTH('a) = 2 * ?M" by (cases "LENGTH('a)") auto
  have bd: "- ?M \<le> sint x" "sint x < ?M" "- ?M \<le> sint a" "sint b < ?M"
    using sint_bounds by blast+
  have ub: "uint (b - a) = sint b - sint a"
    unfolding uint_sub_sint M using bd assms by (intro mod_pos_pos_trivial) linarith+
  show ?thesis
  proof (cases "sint a \<le> sint x")
    case True
    then have "uint (x - a) = sint x - sint a"
      unfolding uint_sub_sint M using bd by (intro mod_pos_pos_trivial) linarith+
    then show ?thesis using True ub by (simp add: in_range_def word_less_alt)
  next
    case False
    have "(sint x - sint a) mod (2 * ?M) = (sint x - sint a + 2 * ?M) mod (2 * ?M)" by simp
    also have "\<dots> = sint x - sint a + 2 * ?M"
      using bd False assms by (intro mod_pos_pos_trivial) linarith+
    finally have "uint (x - a) = sint x - sint a + 2 * ?M" by (simp add: uint_sub_sint M)
    then show ?thesis using False ub bd by (simp add: in_range_def word_less_alt)
  qed
qed

text \<open>\<open>half_range_div d * d\<close> is the largest multiple of the divisor in the signed range; adding it
  makes the dividend non-negative without changing its residue, from \<open>- half_range_div d * d\<close> up.\<close>

lemma half_range_div_nat: "unat (half_range_div d) = (2 ^ 63 - 1) div unat d"
  by (simp add: half_range_div_def unat_div)

lemma uint_half_range: "uint (half_range_div d) = (2 ^ 63 - 1) div uint d"
  by (simp add: half_range_div_def uint_div)

lemma shifted_dividend:
  assumes "0 < d" "- ((2 ^ 63 - 1) div uint d * uint d) \<le> sint x"
  shows "uint (x + half_range_div d * d) = sint x + (2 ^ 63 - 1) div uint d * uint d"
proof -
  let ?K = "(2 ^ 63 - 1) div uint d"
  have d: "0 < uint d" using assms(1) by (simp add: word_less_alt)
  have "?K * uint d = (2 ^ 63 - 1) - (2 ^ 63 - 1) mod uint d" by (simp only: minus_mod_eq_div_mult)
  then have K: "?K * uint d \<le> 2 ^ 63 - 1" using pos_mod_sign [OF d, of "2 ^ 63 - 1"] by linarith
  have s: "sint x < 2 ^ 63" using sint_bounds [of x] by simp
  have "word_of_int (sint x + uint (half_range_div d) * uint d) = x + half_range_div d * d" by simp
  then have "x + half_range_div d * d = word_of_int (sint x + ?K * uint d)"
    by (simp only: uint_half_range)
  then have "uint (x + half_range_div d * d) = take_bit 64 (sint x + ?K * uint d)"
    by (simp only: uint_word_of_int_eq len_num1 len_bit0) simp
  also have "\<dots> = sint x + ?K * uint d"
  proof -
    have *: "take_bit 64 (i + j) = i + j"
      if "- j \<le> i" "j \<le> 2 ^ 63 - 1" "i < 2 ^ 63" for i j :: int
      using that by (intro take_bit_int_eq_self) auto
    show ?thesis by (rule * [OF assms(2) K s])
  qed
  finally show ?thesis .
qed

lemma fast_divisible_by_correct:
  assumes "0 < d" "- ((2 ^ 63 - 1) div uint d * uint d) \<le> sint x"
  shows "fast_divisible_by x d \<longleftrightarrow> uint d dvd sint x"
proof -
  have "fast_divisible_by x d \<longleftrightarrow> uint ((x + half_range_div d * d) mod d) = 0"
    by (simp add: fast_divisible_by_def uint_0_iff)
  also have "\<dots> \<longleftrightarrow> (sint x + (2 ^ 63 - 1) div uint d * uint d) mod uint d = 0"
    by (simp only: uint_mod shifted_dividend [OF assms])
  finally show ?thesis by (simp add: dvd_eq_mod_eq_0)
qed

lemma fast_divide_by_correct:
  assumes "0 < d" "- ((2 ^ 63 - 1) div uint d * uint d) \<le> sint x"
  shows "fast_divide_by x d = word_of_int (sint x div uint d)"
proof -
  let ?K = "(2 ^ 63 - 1) div uint d"
  have d: "0 < uint d" using assms(1) by (simp add: word_less_alt)
  have "uint ((x + half_range_div d * d) div d) = (sint x + ?K * uint d) div uint d"
    by (simp only: uint_div shifted_dividend [OF assms])
  also have "\<dots> = sint x div uint d + ?K" using d by simp
  finally have "word_of_int (uint ((x + half_range_div d * d) div d)) = (word_of_int (sint x div uint d + ?K) :: 64 word)"
    by simp
  moreover have "word_of_int (uint (half_range_div d)) = (word_of_int ?K :: 64 word)"
    by (simp only: uint_half_range)
  ultimately show ?thesis by (simp add: fast_divide_by_def)
qed

section \<open>Scrambling\<close>

lemma scramble_from_involution: "scramble_from x (scramble_from x v) = v"
  by (induction x v rule: scramble_from.induct) (auto simp: Let_def xor.assoc)

lemma length_scramble_from [simp]: "length (scramble_from x v) = length v"
  by (induction x v rule: scramble_from.induct) (auto simp: Let_def)

lemma scramble_involution: "scramble (scramble v) = v"
  by (simp add: scramble_def scramble_from_involution)

section \<open>CRC-32\<close>

text \<open>The reference: each byte is XORed into the low bits and shifted out bit by bit.\<close>

definition crc_reference :: "byte list \<Rightarrow> 32 word" where
  "crc_reference bs = NOT (fold (\<lambda>b crc. (crc_step ^^ 8) (crc XOR ucast b)) bs (NOT 0))"

lemma crc_step_xor: "crc_step (x XOR y) = crc_step x XOR crc_step y"
proof -
  have *: "(z AND 1 \<noteq> 0) = odd z" for z :: "32 word"
    by (simp add: and_one_eq odd_iff_mod_2_eq_one)
  have "drop_bit 1 (x XOR y) = drop_bit 1 x XOR drop_bit 1 y" by (simp add: drop_bit_xor)
  moreover have "odd (x XOR y) = (odd x \<noteq> odd y)" by (simp add: even_xor_iff)
  ultimately show ?thesis
    unfolding crc_step_def * by (auto simp: ac_simps)
qed

lemma crc_steps_xor: "(crc_step ^^ n) (x XOR y) = (crc_step ^^ n) x XOR (crc_step ^^ n) y"
  by (induction n) (simp_all add: crc_step_xor)

lemma crc_steps_shift: "take_bit n x = 0 \<Longrightarrow> (crc_step ^^ n) x = drop_bit n x"
proof (induction n arbitrary: x)
  case (Suc n)
  have "even x" using Suc.prems
    by (metis even_take_bit_eq even_zero nat.distinct(1))
  then have "crc_step x = drop_bit 1 x"
    by (simp add: crc_step_def and_one_eq even_iff_mod_2_eq_zero)
  moreover have "take_bit n (drop_bit 1 x) = 0"
    using Suc.prems by (simp add: take_bit_drop_bit)
  ultimately show ?case
    using Suc.IH [of "drop_bit 1 x"] by (simp add: funpow_swap1 del: funpow.simps add: funpow_Suc_right)
qed simp

lemma crc_update_reference:
  assumes "tbl = map crc_entry [0..<256]"
  shows "crc_update tbl b crc = (crc_step ^^ 8) (crc XOR ucast b)"
proof -
  let ?x = "crc XOR ucast b" and ?lo = "ucast b XOR (crc AND 0xFF)"
  have mask: "crc AND 0xFF = take_bit 8 crc"
    by (simp add: take_bit_eq_mask mask_eq_exp_minus_1)
  have lo: "?lo = take_bit 8 ?x"
    by (rule bit_word_eqI) (auto simp: mask bit_simps dest: bit_imp_le_length)
  have "unat ?lo < 256"
    unfolding lo unsigned_take_bit_eq using take_bit_nat_less_exp [of 8] by simp
  then have "tbl ! unat ?lo = (crc_step ^^ 8) ?lo"
    by (simp add: assms crc_entry_def)
  moreover have "drop_bit 8 crc = (crc_step ^^ 8) (?x XOR ?lo)"
  proof -
    have "take_bit 8 (?x XOR ?lo) = 0" by (simp add: lo take_bit_xor)
    moreover have "drop_bit 8 (?x XOR ?lo) = drop_bit 8 crc"
      by (rule bit_word_eqI) (auto simp: lo bit_simps dest: bit_imp_le_length)
    ultimately show ?thesis using crc_steps_shift by metis
  qed
  ultimately have "crc_update tbl b crc = (crc_step ^^ 8) ((?x XOR ?lo) XOR ?lo)"
    by (simp add: crc_update_def crc_steps_xor)
  moreover have "(?x XOR ?lo) XOR ?lo = ?x" by (simp only: xor.assoc xor_self_eq xor.right_neutral)
  ultimately show ?thesis by metis
qed

definition crc_table_ok :: "32 word list \<Rightarrow> bool" where
  "crc_table_ok tbl \<longleftrightarrow> tbl = replicate 256 0 \<or> tbl = map crc_entry [0..<256]"

lemma crc_table_init_ok: "crc_table_ok tbl \<Longrightarrow> crc_table_init tbl = map crc_entry [0..<256]"
  by (auto simp: crc_table_ok_def crc_table_init_def)

lemma crc32_is_reference:
  assumes "crc_table_ok tbl"
  shows "fst (crc32 buf tbl) = crc_reference buf \<and> crc_table_ok (snd (crc32 buf tbl))"
proof -
  let ?t = "map crc_entry [0..<256]"
  have "crc_update ?t = (\<lambda>b crc. (crc_step ^^ 8) (crc XOR ucast b))"
    by (intro ext crc_update_reference) simp
  then show ?thesis
    using crc_table_init_ok [OF assms]
    by (simp add: crc32_def crc_reference_def crc_table_ok_def)
qed

section \<open>Splitting\<close>

fun join_with :: "char \<Rightarrow> string list \<Rightarrow> string" where
  "join_with c [] = []"
| "join_with c [s] = s"
| "join_with c (s # t # ts) = s @ c # join_with c (t # ts)"

lemma split_at_nonempty: "0 < n \<Longrightarrow> split_at c n s \<noteq> []"
  by (induction c n s rule: split_at.induct) auto

lemma split_at_join: "0 < n \<Longrightarrow> join_with c (split_at c n s) = s"
proof (induction c n s rule: split_at.induct)
  case (3 c n s)
  show ?case
  proof (cases "c \<in> set s")
    case True
    let ?a = "takeWhile (\<lambda>x. x \<noteq> c) s" and ?d = "dropWhile (\<lambda>x. x \<noteq> c) s"
    have ne: "?d \<noteq> []" using True by (simp add: dropWhile_eq_Nil_conv)
    have "s = ?a @ ?d" by simp
    also have "?d = hd ?d # tl ?d" using ne by simp
    also have "hd ?d = c" using hd_dropWhile [OF ne] by simp
    finally have s: "?a @ c # tl ?d = s" by simp
    obtain t ts where tt: "split_at c (Suc n) (tl ?d) = t # ts"
      using split_at_nonempty [of "Suc n" c "tl ?d"] by (cases "split_at c (Suc n) (tl ?d)") auto
    show ?thesis using "3.IH" [OF True] s tt True by simp
  qed simp
qed simp_all

lemma split_at_parts:
  "i < length (split_at c n s) \<Longrightarrow> i < n - 1 \<Longrightarrow> c \<notin> set (split_at c n s ! i)"
  by (induction c n s arbitrary: i rule: split_at.induct)
     (auto simp: nth_Cons split: nat.splits dest: set_takeWhileD)

end
