(* ===== verification/Protocol.thy ===== *)
theory Protocol
  imports Platform
begin

text \<open>
  The constants of the data model (\<^verbatim>\<open>include/native/dxapi/dxconstants.h\<close>) and of the wire
  protocol (\<^verbatim>\<open>tickdb/protocol.h\<close>, \<^verbatim>\<open>tickdb/common.h\<close>) that the components use.
  Signed constants are given as the word with that two's complement reading.
\<close>

section \<open>Null values\<close>

definition INT8_NULL :: "8 word" where [layout_defs]: "INT8_NULL = 0x80"
definition INT16_NULL :: "16 word" where [layout_defs]: "INT16_NULL = 0x8000"
definition INT32_NULL :: "32 word" where [layout_defs]: "INT32_NULL = 0x80000000"
definition INT48_NULL :: "64 word" where [layout_defs]: "INT48_NULL = 0xFFFF800000000000"
definition INT64_NULL :: "64 word" where [layout_defs]: "INT64_NULL = 0x8000000000000000"
definition UINT30_NULL :: "32 word" where [layout_defs]: "UINT30_NULL = 0x7FFFFFFF"
definition UINT61_NULL :: "64 word" where [layout_defs]: "UINT61_NULL = 0x7FFFFFFFFFFFFFFF"
definition TIMESTAMP_NULL :: "64 word" where [layout_defs]: "TIMESTAMP_NULL = INT64_NULL"
definition ENUM_NULL :: "'a::len word" where [layout_defs]: "ENUM_NULL = - 1"
definition CHAR_NULL :: "'a::len word" where [layout_defs]: "CHAR_NULL = 0"
definition BOOL_NULL :: "8 word" where [layout_defs]: "BOOL_NULL = 0xFF"
definition INTERVAL_NULL :: "32 word" where [layout_defs]: "INTERVAL_NULL = 0"
definition TIMEOFDAY_NULL :: "32 word" where [layout_defs]: "TIMEOFDAY_NULL = - 1"

text \<open>Floating point values are their bit patterns.\<close>

definition float32null :: "32 word" where [layout_defs]: "float32null = 0x7FC00000"
definition float64null :: "64 word" where [layout_defs]: "float64null = 0x7FF8000000000000"
definition float64posinf :: "64 word" where [layout_defs]: "float64posinf = 0x7FF0000000000000"
definition float64neginf :: "64 word" where [layout_defs]: "float64neginf = 0xFFF0000000000000"

definition isnan64 :: "64 word \<Rightarrow> bool" where
  "isnan64 v \<longleftrightarrow> take_bit 11 (drop_bit 52 v) = 0x7FF \<and> take_bit 52 v \<noteq> 0"

definition isnan32 :: "32 word \<Rightarrow> bool" where
  "isnan32 v \<longleftrightarrow> take_bit 8 (drop_bit 23 v) = 0xFF \<and> take_bit 23 v \<noteq> 0"

section \<open>Headers of the compressed encodings\<close>

datatype interval_granularity = IG_SECONDS | IG_MINUTES | IG_HOURS | IG_OTHER

fun ig_code :: "interval_granularity \<Rightarrow> 32 word" where
  "ig_code IG_SECONDS = 0"
| "ig_code IG_MINUTES = 1"
| "ig_code IG_HOURS = 2"
| "ig_code IG_OTHER = 3"

definition interval_header :: "interval_granularity \<Rightarrow> 32 word" where
  "interval_header g = push_bit 6 (ig_code g)"

datatype timestamp_granularity =
    TG_INVALID | TG_MILLIS | TG_SECONDS | TG_TEN_SECONDS | TG_HOURS | TG_SPECIAL | TG_NANOS | TG_LONG_NANOS

fun tg_code :: "timestamp_granularity \<Rightarrow> nat" where
  "tg_code TG_INVALID = 0"
| "tg_code TG_MILLIS = 1"
| "tg_code TG_SECONDS = 2"
| "tg_code TG_TEN_SECONDS = 3"
| "tg_code TG_HOURS = 4"
| "tg_code TG_SPECIAL = 5"
| "tg_code TG_NANOS = 6"
| "tg_code TG_LONG_NANOS = 7"

definition timestamp_header :: "timestamp_granularity \<Rightarrow> 'a::len word" where
  "timestamp_header g = push_bit 5 (of_nat (tg_code g))"

definition TIME_NANOS_PER_MILLISECOND :: "64 word" where
  [layout_defs]: "TIME_NANOS_PER_MILLISECOND = 1000000"

definition COMPRESSED_TIMESTAMP_BASE_NS :: "64 word" where
  [layout_defs]: "COMPRESSED_TIMESTAMP_BASE_NS = - (70 * 366 * 24 * 3600000 * 1000000)"

definition COMPRESSED_TIMESTAMP_BASE_MS :: "64 word" where
  [layout_defs]: "COMPRESSED_TIMESTAMP_BASE_MS = - (70 * 366 * 24 * 3600000)"

definition compressed_timestamp_size :: "nat list" where
  "compressed_timestamp_size = [0, 5, 4, 3, 2, 0, 7, 8]"

section \<open>Limits\<close>

definition MAX_MESSAGE_SIZE :: nat where [layout_defs]: "MAX_MESSAGE_SIZE = 0x400000"
definition LOADER_MAX_NESTED_OBJECTS :: nat where [layout_defs]: "LOADER_MAX_NESTED_OBJECTS = 16"
definition READER_MAX_NESTED_OBJECTS :: nat where [layout_defs]: "READER_MAX_NESTED_OBJECTS = 16"
definition READ_BUFFER_SIZE :: nat where [layout_defs]: "READ_BUFFER_SIZE = 0x4000 - 16"

end
