(* ===== verification/Streams.thy ===== *)
theory Streams
  imports Prelude
begin

text \<open>
  The input streams (\<^verbatim>\<open>io/streams.h\<close>, \<^verbatim>\<open>io/tcp.cpp\<close>, \<^verbatim>\<open>io/streams.cpp\<close>): the blocking read of a TCP
  socket and the preloading wrapper. The operating system is the environment: the list of
  events that the successive calls of \<^verbatim>\<open>recv\<close> report. Every stream satisfies the contract
  \<open>input_stream_spec\<close>, which is all the message reader relies on.
\<close>

section \<open>The TCP stream\<close>

text \<open>What \<^verbatim>\<open>recv\<close> reports: bytes, an orderly close, the error \<^verbatim>\<open>WSAESHUTDOWN\<close> or another error.
  An empty event list is a closed connection too.\<close>

datatype recv_event = Received "byte list" | PeerClosed | ShutdownError | SocketError

record tcp_state =
  incoming :: "recv_event list"
  tcpBytesRead :: nat
  tcpBytesWritten :: nat
  sent :: "byte list"
  isClosed :: bool
  inputClosed :: bool
  outputClosed :: bool

text \<open>The read loop. The counter is kept apart from the bytes because an error that is not
  reported adds \<^verbatim>\<open>(unsigned)-1\<close> to it.\<close>

fun recv_loop :: "nat \<Rightarrow> nat \<Rightarrow> nat \<Rightarrow> byte list \<Rightarrow> recv_event list \<Rightarrow> (exn + nat \<times> byte list) \<times> recv_event list" where
  "recv_loop minSize maxSize bytesRead acc [] =
     (if minSize \<le> bytesRead then (Inr (bytesRead, acc), [])
      else (Inl (Disconnected ''Input Stream disconnected by server''), []))"
| "recv_loop minSize maxSize bytesRead acc (ev # evs) =
     (if minSize \<le> bytesRead then (Inr (bytesRead, acc), ev # evs)
      else case ev of
        Received bs \<Rightarrow>
          let readSize = maxSize - bytesRead;
              got = take readSize bs
          in if got = [] then (Inl (Disconnected ''Input Stream disconnected by server''), evs)
             else if length bs \<le> readSize
                  then recv_loop minSize maxSize (bytesRead + length got) (acc @ got) evs
                  else (if minSize \<le> bytesRead + length got
                        then (Inr (bytesRead + length got, acc @ got), Received (drop readSize bs) # evs)
                        else (Inl (Disconnected ''Input Stream disconnected by server''), Received (drop readSize bs) # evs))
      | PeerClosed \<Rightarrow> (Inl (Disconnected ''Input Stream disconnected by server''), evs)
      | ShutdownError \<Rightarrow> recv_loop minSize maxSize (bytesRead + (2 ^ 32 - 1)) acc evs
      | SocketError \<Rightarrow> (Inl (IOError ''IOStreamTCP::read()''), evs))"

definition tcp_read :: "nat \<Rightarrow> nat \<Rightarrow> tcp_state \<Rightarrow> (exn + nat \<times> byte list) \<times> tcp_state" where
  "tcp_read minSize maxSize t =
     (if inputClosed t then (Inl (IOError ''IOStreamTCP::read(): ERR: closed''), t)
      else case recv_loop minSize maxSize 0 [] (incoming t) of
        (Inl e, evs) \<Rightarrow> (Inl e, t\<lparr>incoming := evs\<rparr>)
      | (Inr (n, bs), evs) \<Rightarrow> (Inr (n, bs), t\<lparr>incoming := evs, tcpBytesRead := tcpBytesRead t + n\<rparr>))"

text \<open>\<^verbatim>\<open>tryRead\<close>: \<^verbatim>\<open>select\<close> with a zero timeout reports the socket readable exactly if an event is
  pending.\<close>

definition tcp_tryRead :: "nat \<Rightarrow> tcp_state \<Rightarrow> (exn + nat \<times> byte list) \<times> tcp_state" where
  "tcp_tryRead maxSize t =
     (if inputClosed t then (Inl (IOError ''IOStreamTCP::tryRead(): ERR: closed''), t)
      else if incoming t = [] then (Inr (0, []), t)
      else if maxSize = 0 then
        (if List.hd (incoming t) \<in> {PeerClosed, Received []}
         then (Inl (Disconnected ''Input Stream disconnected by server''), t) else (Inr (0, []), t))
      else tcp_read 1 maxSize t)"

text \<open>\<^verbatim>\<open>send\<close> takes a prefix of the bytes (the environment's answer) or fails.\<close>

definition tcp_write :: "nat option \<Rightarrow> byte list \<Rightarrow> (tcp_state, nat) op" where
  "tcp_write sendResult bs t =
     (if outputClosed t then (Inl (IOError ''IOStreamTCP::write(): ERR: closed''), t)
      else case sendResult of
        None \<Rightarrow> (Inl (IOError ''IOStreamTCP::write()''), t)
      | Some n \<Rightarrow> (Inr (min n (length bs)),
           t\<lparr>sent := sent t @ take n bs, tcpBytesWritten := tcpBytesWritten t + min n (length bs)\<rparr>))"

definition tcp_closeInput :: "(tcp_state, unit) op" where
  "tcp_closeInput = modify (\<lambda>t. t\<lparr>inputClosed := True\<rparr>)"

definition tcp_closeOutput :: "(tcp_state, unit) op" where
  "tcp_closeOutput = modify (\<lambda>t. t\<lparr>outputClosed := True\<rparr>)"

definition tcp_close :: "(tcp_state, unit) op" where
  "tcp_close = modify (\<lambda>t. t\<lparr>isClosed := True, inputClosed := True, outputClosed := True\<rparr>)"

section \<open>The preloader\<close>

record preload_buffer =
  preloaded :: "byte list"
  readPtr :: nat
  preloadedSize :: nat
  readBlockSize :: nat
  preBytesRead :: nat
  preClosed :: bool

text \<open>The dynamic type of an \<^verbatim>\<open>InputStream\<close>; a preloader's source may be null.\<close>

datatype input_stream = TcpStream tcp_state | Preloader preload_buffer "input_stream option"

fun stream_read :: "nat \<Rightarrow> nat \<Rightarrow> input_stream \<Rightarrow> (exn + nat \<times> byte list) \<times> input_stream" where
  "stream_read minSize maxSize (TcpStream t) =
     (case tcp_read minSize maxSize t of (r, t') \<Rightarrow> (r, TcpStream t'))"
| "stream_read minSize maxSize (Preloader b src) =
     (if preClosed b then (Inl (IOError ''InputStreamPreloader::read(): ERR: closed''), Preloader b src)
      else
        let remaining = preloadedSize b - readPtr b;
            sizeRead = min remaining maxSize;
            bs = take sizeRead (drop (readPtr b) (preloaded b));
            b' = b\<lparr>readPtr := readPtr b + sizeRead\<rparr>
        in if sizeRead < minSize
           then (case src of
               None \<Rightarrow> (Inl (Disconnected ''Input Stream disconnected by server''), Preloader b' src)
             | Some s \<Rightarrow>
                 (case stream_read (minSize - sizeRead) (maxSize - sizeRead) s of
                    (Inl e, s') \<Rightarrow> (Inl e, Preloader b' (Some s'))
                  | (Inr (n, cs), s') \<Rightarrow>
                      (Inr (sizeRead + n, bs @ cs),
                       Preloader (b'\<lparr>preBytesRead := preBytesRead b + (sizeRead + n)\<rparr>) (Some s'))))
           else (Inr (sizeRead, bs), Preloader (b'\<lparr>preBytesRead := preBytesRead b + sizeRead\<rparr>) src))"

definition preloader_tryRead :: "nat \<Rightarrow> bool \<Rightarrow> input_stream option \<Rightarrow> preload_buffer
    \<Rightarrow> (exn + byte list) \<times> preload_buffer" where
  "preloader_tryRead maxSize toIsNull src b =
     (let remaining = preloadedSize b - readPtr b in
      if preClosed b then (Inl (IOError ''InputStreamPreloader::tryRead(): ERR: closed''), b)
      else if remaining \<noteq> 0
      then (if maxSize = 0 then (Inr [], b)
            else if toIsNull then (Inl (RuntimeError ''InputStreamPreloader::tryRead(): 'to' parameter is NULL''), b)
            else let sizeRead = min remaining maxSize
                 in (Inr (take sizeRead (drop (readPtr b) (preloaded b))), b\<lparr>readPtr := readPtr b + sizeRead\<rparr>))
      else (case src of
              None \<Rightarrow> (Inl (Disconnected ''Input Stream disconnected by server''), b)
            | Some _ \<Rightarrow> (Inl (RuntimeError ''InputStreamPreloader::tryRead(): 'to' parameter is NULL''), b)))"

definition preloader_cleanup :: "preload_buffer \<Rightarrow> preload_buffer" where
  "preloader_cleanup b =
     (if readPtr b \<noteq> 0
      then let newSize = length (preloaded b) - readPtr b
           in b\<lparr>preloaded := take newSize (drop (readPtr b) (preloaded b)), readPtr := 0, preloadedSize := newSize\<rparr>
      else b)"

text \<open>The constructor, \<^verbatim>\<open>set\<close> and \<^verbatim>\<open>closeInput\<close>.\<close>

definition new_preloader :: "nat \<Rightarrow> nat \<Rightarrow> preload_buffer" where
  "new_preloader blockSize sourceBytesRead =
     \<lparr>preloaded = [], readPtr = 0, preloadedSize = 0,
      readBlockSize = (if blockSize = 0 then 0x2000 else blockSize), preBytesRead = sourceBytesRead, preClosed = False\<rparr>"

definition preloader_set :: "nat \<Rightarrow> byte list \<Rightarrow> preload_buffer \<Rightarrow> preload_buffer" where
  "preloader_set startOffset src b =
     b\<lparr>preloaded := take startOffset (preloaded b) @ replicate (startOffset - length (preloaded b)) 0 @ src,
       preloadedSize := startOffset + length src\<rparr>"

fun stream_closeInput :: "input_stream \<Rightarrow> input_stream" where
  "stream_closeInput (TcpStream t) = TcpStream (snd (tcp_closeInput t))"
| "stream_closeInput (Preloader b src) =
     Preloader (b\<lparr>preClosed := True, readPtr := preloadedSize b\<rparr>) (map_option stream_closeInput src)"

text \<open>\<^verbatim>\<open>preload\<close> appends up to \<open>n\<close> bytes of the source to the buffer; the buffer is first grown by
  \<open>n\<close> zero bytes, and a disconnection truncates it to the number of bytes that were read.\<close>

function preload_loop :: "nat \<Rightarrow> nat \<Rightarrow> byte list \<Rightarrow> input_stream \<Rightarrow> (exn + byte list \<times> bool) \<times> input_stream" where
  "preload_loop nBytesLeft blockSize acc s =
     (if nBytesLeft = 0 then (Inr (acc, False), s)
      else case stream_read 1 (min nBytesLeft blockSize) s of
        (Inl (Disconnected e), s') \<Rightarrow> (Inr (acc, True), s')
      | (Inl e, s') \<Rightarrow> (Inl e, s')
      | (Inr (n, bs), s') \<Rightarrow>
          if n = 0 then (Inl (Undefined ''endless loop''), s')
          else preload_loop (nBytesLeft - n) blockSize (acc @ bs) s')"
  by pat_completeness auto
termination
  by (relation "measure fst") auto

definition preload :: "nat \<Rightarrow> preload_buffer \<Rightarrow> input_stream option
    \<Rightarrow> (exn + nat) \<times> preload_buffer \<times> input_stream option" where
  "preload nBytesToPreload b src =
     (let b1 = preloader_cleanup b; sizeBefore = length (preloaded b1) in
      case src of
        None \<Rightarrow> (Inr 0, b1, None)
      | Some s \<Rightarrow>
          (case preload_loop nBytesToPreload (readBlockSize b1) [] s of
             (Inl e, s') \<Rightarrow> (Inl e, b1\<lparr>preloadedSize := sizeBefore + nBytesToPreload\<rparr>, Some s')
           | (Inr (bs, disconnected), s') \<Rightarrow>
               let grown = preloaded b1 @ bs @ replicate (nBytesToPreload - length bs) 0;
                   newSize = (if disconnected then length bs else sizeBefore + nBytesToPreload)
               in (Inr (length bs), b1\<lparr>preloaded := take newSize grown, preloadedSize := newSize\<rparr>, Some s')))"

section \<open>The contract of an input stream\<close>

text \<open>A stream has bytes still to be delivered. A read of at least \<open>mn\<close> and at most \<open>mx\<close> bytes
  takes that many of them from the front when there are enough, and throws otherwise.\<close>

locale input_stream_spec =
  fixes read :: "nat \<Rightarrow> nat \<Rightarrow> 's \<Rightarrow> (exn + nat \<times> byte list) \<times> 's"
    and avail :: "'s \<Rightarrow> byte list"
    and ok :: "'s \<Rightarrow> bool"
  assumes read_enough: "ok s \<Longrightarrow> mn \<le> mx \<Longrightarrow> mn \<le> length (avail s) \<Longrightarrow>
      \<exists>k s'. read mn mx s = (Inr (k, take k (avail s)), s') \<and> mn \<le> k \<and> k \<le> mx \<and>
             k \<le> length (avail s) \<and> avail s' = drop k (avail s) \<and> ok s'"
    and read_short: "ok s \<Longrightarrow> mn \<le> mx \<Longrightarrow> length (avail s) < mn \<Longrightarrow> \<exists>e s'. read mn mx s = (Inl e, s') \<and> ok s'"
begin

lemma read_returns_iff:
  "ok s \<Longrightarrow> mn \<le> mx \<Longrightarrow> (\<exists>x s'. read mn mx s = (Inr x, s')) \<longleftrightarrow> mn \<le> length (avail s)"
  using read_enough [of s mn mx] read_short [of s mn mx] by (cases "mn \<le> length (avail s)") auto

lemma read_conserves:
  assumes "ok s" "mn \<le> mx" "read mn mx s = (Inr (k, bs), s')"
  shows "bs @ avail s' = avail s \<and> length bs = k \<and> mn \<le> k \<and> k \<le> mx \<and> ok s'"
proof -
  have "mn \<le> length (avail s)" using read_returns_iff [OF assms(1,2)] assms(3) by blast
  from read_enough [OF assms(1,2) this] assms(3) show ?thesis by auto
qed

end

text \<open>The bytes a socket delivers before it is closed or fails. The contract leaves out the
  unreported error, see \<open>recv_shutdown_counts\<close>.\<close>

fun delivered :: "recv_event list \<Rightarrow> byte list" where
  "delivered [] = []"
| "delivered (Received [] # evs) = []"
| "delivered (Received (b # bs) # evs) = (b # bs) @ delivered evs"
| "delivered (_ # evs) = []"

lemma delivered_Received: "bs \<noteq> [] \<Longrightarrow> delivered (Received bs # evs) = bs @ delivered evs"
  by (cases bs) auto

lemma recv_loop_enough:
  assumes "minSize \<le> maxSize" "bytesRead \<le> maxSize" "minSize \<le> bytesRead + length (delivered evs)"
  shows "\<exists>k evs'. recv_loop minSize maxSize bytesRead acc evs =
           (Inr (bytesRead + k, acc @ take k (delivered evs)), evs') \<and>
         minSize \<le> bytesRead + k \<and> bytesRead + k \<le> maxSize \<and> k \<le> length (delivered evs) \<and>
         delivered evs' = drop k (delivered evs)"
  using assms
proof (induction minSize maxSize bytesRead acc evs rule: recv_loop.induct)
  case (1 minSize maxSize bytesRead acc)
  then show ?case by (intro exI [of _ 0]) auto
next
  case (2 minSize maxSize bytesRead acc ev evs)
  show ?case
  proof (cases "minSize \<le> bytesRead")
    case True
    then show ?thesis using 2 by (intro exI [of _ 0] exI [of _ "ev # evs"]) auto
  next
    case False
    then have "delivered (ev # evs) \<noteq> []" using "2.prems" by auto
    then obtain b bs where ev: "ev = Received (b # bs)"
      by (cases "(ev # evs)" rule: delivered.cases) auto
    let ?bs = "b # bs" and ?sz = "maxSize - bytesRead"
    have ne: "take ?sz ?bs \<noteq> []" using False "2.prems" by simp
    have d: "delivered (ev # evs) = ?bs @ delivered evs" by (simp add: ev)
    show ?thesis
    proof (cases "length ?bs \<le> ?sz")
      case True
      have "\<exists>k evs'. recv_loop minSize maxSize (bytesRead + length ?bs) (acc @ ?bs) evs =
           (Inr (bytesRead + length ?bs + k, (acc @ ?bs) @ take k (delivered evs)), evs') \<and>
         minSize \<le> bytesRead + length ?bs + k \<and> bytesRead + length ?bs + k \<le> maxSize \<and>
         k \<le> length (delivered evs) \<and> delivered evs' = drop k (delivered evs)"
        using "2.IH"(1) [OF False ev refl refl ne] True "2.prems" d by simp
      then obtain k evs' where k: "recv_loop minSize maxSize (bytesRead + length ?bs) (acc @ ?bs) evs =
           (Inr (bytesRead + length ?bs + k, (acc @ ?bs) @ take k (delivered evs)), evs')"
          "minSize \<le> bytesRead + length ?bs + k" "bytesRead + length ?bs + k \<le> maxSize"
          "k \<le> length (delivered evs)" "delivered evs' = drop k (delivered evs)" by blast
      have "recv_loop minSize maxSize bytesRead acc (ev # evs) =
          recv_loop minSize maxSize (bytesRead + length ?bs) (acc @ ?bs) evs"
        using True False ne "2.prems" by (simp add: ev Let_def)
      then show ?thesis using k d by (intro exI [of _ "length ?bs + k"] exI [of _ evs']) simp
    next
      case nle: False
      have "take ?sz (?bs @ delivered evs) = take ?sz ?bs"
           "drop ?sz (?bs @ delivered evs) = drop ?sz ?bs @ delivered evs"
        using nle by (simp_all del: append_Cons)
      then show ?thesis using nle False "2.prems" ne d
        by (intro exI [of _ ?sz] exI [of _ "Received (drop ?sz ?bs) # evs"])
           (auto simp: ev Let_def delivered_Received)
    qed
  qed
qed

fun no_shutdown_error :: "recv_event list \<Rightarrow> bool" where
  "no_shutdown_error [] = True"
| "no_shutdown_error (ShutdownError # evs) = False"
| "no_shutdown_error (_ # evs) = no_shutdown_error evs"

lemma recv_loop_short:
  assumes "minSize \<le> maxSize" "bytesRead + length (delivered evs) < minSize" "no_shutdown_error evs"
  shows "\<exists>e evs'. recv_loop minSize maxSize bytesRead acc evs = (Inl e, evs') \<and> no_shutdown_error evs'"
  using assms
proof (induction minSize maxSize bytesRead acc evs rule: recv_loop.induct)
  case (2 minSize maxSize bytesRead acc ev evs)
  have lt: "\<not> minSize \<le> bytesRead" using "2.prems" by simp
  show ?case
  proof (cases ev)
    case (Received bs)
    show ?thesis
    proof (cases "bs = []")
      case True
      then show ?thesis using Received lt "2.prems" by (simp add: Let_def)
    next
      case False
      let ?sz = "maxSize - bytesRead"
      have le: "length bs \<le> ?sz" "take ?sz bs \<noteq> []"
        using Received False lt "2.prems" by (auto simp: delivered_Received)
      then show ?thesis
        using "2.IH"(1) [OF lt Received refl refl le(2) le(1)] Received lt "2.prems"
        by (simp add: Let_def delivered_Received False)
    qed
  qed (use lt "2.prems" in simp_all)
qed simp

lemma recv_loop_no_shutdown:
  "no_shutdown_error evs \<Longrightarrow> recv_loop mn mx c acc evs = (r, evs') \<Longrightarrow> no_shutdown_error evs'"
proof (induction mn mx c acc evs rule: recv_loop.induct)
  case (2 mn mx c acc ev evs)
  then show ?case by (cases ev) (auto simp: Let_def split: if_splits)
qed (auto split: if_splits)

text \<open>The unreported error of the socket counts as \<open>2 ^ 32 - 1\<close> received bytes, none of which
  is in the buffer.\<close>

lemma recv_shutdown_counts:
  "0 < mn \<Longrightarrow> mn \<le> 2 ^ 32 - 1 \<Longrightarrow> recv_loop mn mx 0 [] (ShutdownError # evs) = (Inr (2 ^ 32 - 1, []), evs)"
  by (cases evs) auto

definition tcp_avail :: "tcp_state \<Rightarrow> byte list" where
  "tcp_avail t = (if inputClosed t then [] else delivered (incoming t))"

definition tcp_ok :: "tcp_state \<Rightarrow> bool" where
  "tcp_ok t \<longleftrightarrow> no_shutdown_error (incoming t) \<and> \<not> inputClosed t"

lemma tcp_read_enough:
  assumes "tcp_ok t" "mn \<le> mx" "mn \<le> length (tcp_avail t)"
  shows "\<exists>k t'. tcp_read mn mx t = (Inr (k, take k (tcp_avail t)), t') \<and> mn \<le> k \<and> k \<le> mx \<and>
           k \<le> length (tcp_avail t) \<and> tcp_avail t' = drop k (tcp_avail t) \<and> tcp_ok t'"
proof -
  from assms have "mn \<le> 0 + length (delivered (incoming t))" by (simp add: tcp_ok_def tcp_avail_def)
  from recv_loop_enough [OF assms(2) _ this, of "[]"] obtain k evs' where
    k: "recv_loop mn mx 0 [] (incoming t) = (Inr (k, take k (delivered (incoming t))), evs')"
      "mn \<le> k" "k \<le> mx" "k \<le> length (delivered (incoming t))" "delivered evs' = drop k (delivered (incoming t))"
    by auto
  from recv_loop_no_shutdown [OF _ k(1)] assms(1) have "no_shutdown_error evs'" by (simp add: tcp_ok_def)
  then show ?thesis using assms(1) k by (auto simp: tcp_read_def tcp_ok_def tcp_avail_def)
qed

lemma tcp_read_short:
  assumes "tcp_ok t" "mn \<le> mx" "length (tcp_avail t) < mn"
  shows "\<exists>e t'. tcp_read mn mx t = (Inl e, t') \<and> tcp_ok t'"
  using recv_loop_short [of mn mx 0 "incoming t" "[]"] assms
  by (auto simp: tcp_read_def tcp_ok_def tcp_avail_def)

interpretation tcp: input_stream_spec tcp_read tcp_avail tcp_ok
  by unfold_locales (fact tcp_read_enough, fact tcp_read_short)

section \<open>Preloaded streams satisfy the contract\<close>

definition preload_rest :: "preload_buffer \<Rightarrow> byte list" where
  "preload_rest b = take (preloadedSize b - readPtr b) (drop (readPtr b) (preloaded b))"

definition preload_ok :: "preload_buffer \<Rightarrow> bool" where
  "preload_ok b \<longleftrightarrow> \<not> preClosed b \<and> readPtr b \<le> preloadedSize b \<and> preloadedSize b = length (preloaded b)"

fun stream_avail :: "input_stream \<Rightarrow> byte list" where
  "stream_avail (TcpStream t) = tcp_avail t"
| "stream_avail (Preloader b src) =
     preload_rest b @ (case src of None \<Rightarrow> [] | Some s \<Rightarrow> stream_avail s)"

fun stream_ok :: "input_stream \<Rightarrow> bool" where
  "stream_ok (TcpStream t) = tcp_ok t"
| "stream_ok (Preloader b src) = (preload_ok b \<and> (case src of None \<Rightarrow> True | Some s \<Rightarrow> stream_ok s))"

lemma preload_rest_drop: "preload_ok b \<Longrightarrow> preload_rest b = drop (readPtr b) (preloaded b)"
  by (simp add: preload_rest_def preload_ok_def)

lemma preload_rest_advance:
  "preload_ok b \<Longrightarrow> k \<le> length (preload_rest b) \<Longrightarrow>
     preload_rest (b\<lparr>readPtr := readPtr b + k\<rparr>) = drop k (preload_rest b) \<and>
     preload_ok (b\<lparr>readPtr := readPtr b + k\<rparr>)"
  by (auto simp: preload_rest_def preload_ok_def min_def add.commute)

lemma preload_marks [simp]:
  "preload_rest (b\<lparr>preBytesRead := n\<rparr>) = preload_rest b"
  "preload_ok (b\<lparr>preBytesRead := n\<rparr>) = preload_ok b"
  by (simp_all add: preload_rest_def preload_ok_def)

lemma length_preload_rest: "preload_ok b \<Longrightarrow> preloadedSize b - readPtr b = length (preload_rest b)"
  by (simp add: preload_rest_def preload_ok_def)

lemma stream_read_contract:
  assumes "stream_ok s" "mn \<le> mx"
  shows "if mn \<le> length (stream_avail s)
         then \<exists>k s'. stream_read mn mx s = (Inr (k, take k (stream_avail s)), s') \<and> mn \<le> k \<and> k \<le> mx \<and>
             k \<le> length (stream_avail s) \<and> stream_avail s' = drop k (stream_avail s) \<and> stream_ok s'
         else \<exists>e s'. stream_read mn mx s = (Inl e, s') \<and> stream_ok s'"
  using assms
proof (induction mn mx s rule: stream_read.induct)
  case (1 mn mx t)
  then show ?case using tcp_read_enough [of t mn mx] tcp_read_short [of t mn mx] by auto
next
  case (2 mn mx b src)
  let ?rest = "preload_rest b" and ?k = "min (length (preload_rest b)) mx"
  let ?b = "b\<lparr>readPtr := readPtr b + ?k\<rparr>"
  have b: "preload_ok b" using "2.prems" by simp
  have adv: "preload_rest ?b = drop ?k ?rest" "preload_ok ?b"
    using preload_rest_advance [OF b, of ?k] by auto
  have nc: "\<not> preClosed b" using b by (simp add: preload_ok_def)
  show ?case
  proof (cases "?k < mn")
    case False
    then show ?thesis using "2.prems" adv nc
      by (auto simp: Let_def length_preload_rest [OF b] preload_rest_drop [OF b, symmetric])
  next
    case True
    then have k: "?k = length ?rest" using "2.prems" by simp
    have rest0: "preload_rest ?b = []" using adv k by simp
    show ?thesis
    proof (cases src)
      case None
      then show ?thesis using True adv nc k
        by (auto simp: Let_def length_preload_rest [OF b] preload_rest_drop [OF b, symmetric])
    next
      case (Some s)
      have IH: "if mn - ?k \<le> length (stream_avail s)
         then \<exists>j s'. stream_read (mn - ?k) (mx - ?k) s = (Inr (j, take j (stream_avail s)), s') \<and>
             mn - ?k \<le> j \<and> j \<le> mx - ?k \<and>
             j \<le> length (stream_avail s) \<and> stream_avail s' = drop j (stream_avail s) \<and> stream_ok s'
         else \<exists>e s'. stream_read (mn - ?k) (mx - ?k) s = (Inl e, s') \<and> stream_ok s'"
      proof -
        have lt: "min (preloadedSize b - readPtr b) mx < mn"
          using True unfolding length_preload_rest [OF b] .
        have "stream_ok s" "mn - ?k \<le> mx - ?k" using "2.prems" Some by auto
        then show ?thesis
          using "2.IH" [OF nc refl refl refl refl lt Some] unfolding length_preload_rest [OF b] by metis
      qed
      have run: "stream_read mn mx (Preloader b src) =
          (case stream_read (mn - ?k) (mx - ?k) s of
             (Inl e, s') \<Rightarrow> (Inl e, Preloader ?b (Some s'))
           | (Inr (n, cs), s') \<Rightarrow>
               (Inr (?k + n, ?rest @ cs), Preloader (?b\<lparr>preBytesRead := preBytesRead b + (?k + n)\<rparr>) (Some s')))"
        using True nc Some k
        by (simp add: Let_def length_preload_rest [OF b] preload_rest_drop [OF b, symmetric]
            split: prod.splits sum.splits)
      show ?thesis
      proof (cases "mn - ?k \<le> length (stream_avail s)")
        case True
        with IH obtain j s' where j: "stream_read (mn - ?k) (mx - ?k) s = (Inr (j, take j (stream_avail s)), s')"
          "mn - ?k \<le> j" "j \<le> mx - ?k" "j \<le> length (stream_avail s)"
          "stream_avail s' = drop j (stream_avail s)" "stream_ok s'" by auto
        have "stream_read mn mx (Preloader b src) = (Inr (?k + j, ?rest @ take j (stream_avail s)),
            Preloader (?b\<lparr>preBytesRead := preBytesRead b + (?k + j)\<rparr>) (Some s'))"
          by (simp only: run j(1) prod.case sum.case)
        moreover have "mn \<le> length (stream_avail (Preloader b src))" using True Some k by simp
        moreover have "stream_ok (Preloader (?b\<lparr>preBytesRead := preBytesRead b + (?k + j)\<rparr>) (Some s'))"
          using j adv by simp
        moreover have "?rest @ take j (stream_avail s) = take (?k + j) (stream_avail (Preloader b src))"
          "stream_avail (Preloader (?b\<lparr>preBytesRead := preBytesRead b + (?k + j)\<rparr>) (Some s')) =
           drop (?k + j) (stream_avail (Preloader b src))"
          using j rest0 Some k by simp_all
        moreover have "mn \<le> ?k + j" "?k + j \<le> mx" "?k + j \<le> length (stream_avail (Preloader b src))"
          using j k Some by auto
        ultimately show ?thesis by (auto simp only: if_True)
      next
        case False
        with IH obtain e s' where "stream_read (mn - ?k) (mx - ?k) s = (Inl e, s')" "stream_ok s'" by auto
        moreover from this have "stream_read mn mx (Preloader b src) = (Inl e, Preloader ?b (Some s'))"
          by (simp only: run prod.case sum.case)
        moreover have "\<not> mn \<le> length (stream_avail (Preloader b src))" using False Some k by auto
        moreover have "stream_ok (Preloader ?b (Some s'))" using adv calculation by simp
        ultimately show ?thesis by (auto simp only: if_False)
      qed
    qed
  qed
qed

interpretation ist: input_stream_spec stream_read stream_avail stream_ok
  by unfold_locales (use stream_read_contract in fastforce)+

end
