(* ===== verification/DataReader.thy ===== *)
theory DataReader
  imports Protocol Streams
begin

text \<open>
  The reader's buffer layer: \<^verbatim>\<open>DataReaderBaseImpl\<close> and \<^verbatim>\<open>DataReaderMsg\<close>
  (\<^verbatim>\<open>tickdb/data_reader_impl.h\<close>, \<^verbatim>\<open>tickdb/data_reader.cpp\<close>,
  \<^verbatim>\<open>tickdb/http/data_reader_http.cpp\<close>) with the inline methods of \<^verbatim>\<open>DxApi::DataReader\<close>. The
  virtual methods \<^verbatim>\<open>get\<close> and \<^verbatim>\<open>skip\<close> dispatch on the object's class. The contract
  \<open>byte_source\<close> is what the field codecs rely on: a reader has bytes still to be read, and
  \<^verbatim>\<open>bytes(n)\<close> gives the address of the next \<open>n\<close> of them.
\<close>

section \<open>State\<close>

datatype reader_class = BaseReader | MsgReader

record reader =
  rclass :: reader_class
  rmem :: memory
  rdataPtr :: nat
  rdataEnd :: nat
  contentEnd :: nat
  bufStart :: nat
  bufEnd :: nat
  streamDataEnd :: nat
  source :: input_stream
  dataEnd0 :: nat
  rdepth :: nat
  eOfs :: "nat list"
  rcontainerIsArray :: "bool list"

text \<open>The content end of a reader that is not inside a message, \<^verbatim>\<open>UINTPTR_MAX -
  READ_BUFFER_ALLOC_SIZE\<close>.\<close>

definition no_content_end :: nat where
  [layout_defs]: "no_content_end = 2 ^ 64 - 1 - (READ_BUFFER_SIZE + 16 + 0xFFF + 128)"

definition new_reader :: "reader_class \<Rightarrow> nat \<Rightarrow> nat \<Rightarrow> nat \<Rightarrow> input_stream \<Rightarrow> memory \<Rightarrow> reader" where
  "new_reader cls buffer bufferSize dataSize src m =
     \<lparr>rclass = cls, rmem = m, rdataPtr = buffer, rdataEnd = buffer + dataSize, contentEnd = no_content_end,
      bufStart = buffer, bufEnd = buffer + bufferSize, streamDataEnd = buffer + dataSize, source = src,
      dataEnd0 = buffer + dataSize, rdepth = 0, eOfs = replicate READER_MAX_NESTED_OBJECTS 0,
      rcontainerIsArray = replicate READER_MAX_NESTED_OBJECTS False\<rparr>"

section \<open>The buffer layer\<close>

text \<open>Moving the unread bytes to the start of the buffer: the first eight bytes by one load and
  store, the others by \<^verbatim>\<open>memmove\<close>.\<close>

definition compact :: "nat \<Rightarrow> nat \<Rightarrow> nat \<Rightarrow> memory \<Rightarrow> memory" where
  "compact dest src n m =
     (let m1 = store_bytes dest (load_bytes m src 8) m
      in if 8 < n then store_bytes (dest + 8) (load_bytes m1 (src + 8) (n - 8)) m1 else m1)"

definition getFromStream :: "nat \<Rightarrow> nat \<Rightarrow> (reader, nat) op" where
  "getFromStream p sizeNeeded r =
     (let nBytesRemaining = streamDataEnd r - p in
      if sizeNeeded \<le> nBytesRemaining then (Inr p, r)
      else
        let needed = sizeNeeded - nBytesRemaining;
            b = bufStart r;
            (r1, p1, dend) =
              (if nBytesRemaining = 0 then (r\<lparr>rdataPtr := b\<rparr>, b, b)
               else if bufEnd r - streamDataEnd r < needed
               then (r\<lparr>rmem := compact b p nBytesRemaining (rmem r), rdataPtr := b\<rparr>, b, b + nBytesRemaining)
               else (r, p, streamDataEnd r));
            nFree = bufEnd r - dend
        in case stream_read needed nFree (source r1) of
             (Inl e, s') \<Rightarrow> (Inl e, r1\<lparr>source := s'\<rparr>)
           | (Inr (n, bs), s') \<Rightarrow>
               (Inr p1, r1\<lparr>rmem := store_bytes (dend + n) [0] (store_bytes dend bs (rmem r1)),
                           streamDataEnd := dend + n, source := s'\<rparr>))"

text \<open>Skipping reads whole buffers and drops them.\<close>

function skip_blocks :: "nat \<Rightarrow> nat \<Rightarrow> (reader, nat) op" where
  "skip_blocks sz bufferSize r =
     (if bufferSize < sz \<and> bufferSize \<noteq> 0
      then (case stream_read bufferSize bufferSize (source r) of
              (Inl e, s') \<Rightarrow> (Inl e, r\<lparr>source := s'\<rparr>)
            | (Inr (n, bs), s') \<Rightarrow>
                skip_blocks (sz - bufferSize) bufferSize
                  (r\<lparr>rmem := store_bytes (bufStart r) bs (rmem r), source := s'\<rparr>))
      else (Inr sz, r))"
  by pat_completeness auto
termination
  by (relation "measure (\<lambda>(sz, _). sz)") auto

declare skip_blocks.simps [simp del]

definition skipStream :: "nat \<Rightarrow> nat \<Rightarrow> (reader, unit) op" where
  "skipStream p sz r =
     (let nBytesRemaining = streamDataEnd r - p in
      if sz \<le> nBytesRemaining then (Inr (), r\<lparr>rdataPtr := p + sz\<rparr>)
      else
        let b = bufStart r; bufferSize = bufEnd r - b
        in (case skip_blocks (sz - nBytesRemaining) bufferSize r of
              (Inl e, r1) \<Rightarrow> (Inl e, r1)
            | (Inr rem, r1) \<Rightarrow>
                (case stream_read rem bufferSize (source r1) of
                   (Inl e, s') \<Rightarrow> (Inl e, r1\<lparr>source := s'\<rparr>)
                 | (Inr (n, bs), s') \<Rightarrow>
                     (Inr (), r1\<lparr>rmem := store_bytes (b + n) [0] (store_bytes b bs (rmem r1)),
                                 rdataPtr := b + rem, streamDataEnd := b + n, source := s'\<rparr>))))"

section \<open>The virtual methods get and skip\<close>

definition get_inl :: "nat \<Rightarrow> nat \<Rightarrow> (reader, nat) op" where
  "get_inl p sz = bnd (getFromStream p sz)
     (\<lambda>p'. andthen (modify (\<lambda>r. r\<lparr>rdataEnd := streamDataEnd r\<rparr>)) (ret p'))"

definition skip_inl :: "nat \<Rightarrow> nat \<Rightarrow> (reader, unit) op" where
  "skip_inl p sz = seqs [skipStream p sz, modify (\<lambda>r. r\<lparr>rdataEnd := streamDataEnd r\<rparr>)]"

definition DataReaderMsg_get :: "nat \<Rightarrow> nat \<Rightarrow> (reader, nat) op" where
  "DataReaderMsg_get pData sz =
     bnd (gets contentEnd) (\<lambda>e.
     if pData + sz \<le> e
     then bnd (get_inl pData sz) (\<lambda>pDataNew.
          andthen (modify (\<lambda>r. r\<lparr>contentEnd := contentEnd r + pDataNew - pData\<rparr>))
          (andthen (modify (\<lambda>r. r\<lparr>dataEnd0 := rdataEnd r, rdataEnd := min (contentEnd r) (rdataEnd r)\<rparr>))
          (ret pDataNew)))
     else throw (RuntimeError ''Read beyond end of a content block''))"

definition DataReaderMsg_skip :: "nat \<Rightarrow> nat \<Rightarrow> (reader, unit) op" where
  "DataReaderMsg_skip pData sz =
     bnd (gets contentEnd) (\<lambda>e.
     if pData + sz \<le> e
     then (let remaining = e - pData - sz in
       seqs [skip_inl pData sz,
             modify (\<lambda>r. r\<lparr>contentEnd := rdataPtr r + remaining\<rparr>),
             modify (\<lambda>r. r\<lparr>dataEnd0 := rdataEnd r, rdataEnd := min (contentEnd r) (rdataEnd r)\<rparr>)])
     else throw (RuntimeError ''Attempt to skip data beyond the end of a content block''))"

definition vget :: "nat \<Rightarrow> nat \<Rightarrow> (reader, nat) op" where
  "vget p sz = bnd (gets rclass) (\<lambda>c. case c of BaseReader \<Rightarrow> get_inl p sz | MsgReader \<Rightarrow> DataReaderMsg_get p sz)"

definition vskip :: "nat \<Rightarrow> nat \<Rightarrow> (reader, unit) op" where
  "vskip p sz = bnd (gets rclass) (\<lambda>c. case c of BaseReader \<Rightarrow> skip_inl p sz | MsgReader \<Rightarrow> DataReaderMsg_skip p sz)"

section \<open>bytes, skip and peek\<close>

definition onReadBarrier :: "nat \<Rightarrow> nat \<Rightarrow> (reader, nat) op" where
  "onReadBarrier p sz = bnd (vget p sz) (\<lambda>p'. andthen (modify (\<lambda>r. r\<lparr>rdataPtr := p' + sz\<rparr>)) (ret p'))"

definition onSkipBarrier :: "nat \<Rightarrow> nat \<Rightarrow> (reader, unit) op" where
  "onSkipBarrier p sz = vskip p sz"

definition onPeekBarrier :: "nat \<Rightarrow> nat \<Rightarrow> (reader, nat) op" where
  "onPeekBarrier p sz = bnd (vget p sz) (\<lambda>p'. andthen (modify (\<lambda>r. r\<lparr>rdataPtr := p'\<rparr>)) (ret p'))"

definition bytes :: "nat \<Rightarrow> (reader, nat) op" where
  "bytes sz =
     bnd (gets rdataPtr) (\<lambda>p.
     andthen (modify (\<lambda>r. r\<lparr>rdataPtr := p + sz\<rparr>))
     (bnd (gets rdataEnd) (\<lambda>e. if e < p + sz then onReadBarrier p sz else ret p)))"

definition skip :: "nat \<Rightarrow> (reader, unit) op" where
  "skip sz =
     bnd (gets rdataPtr) (\<lambda>p.
     andthen (modify (\<lambda>r. r\<lparr>rdataPtr := p + sz\<rparr>))
     (bnd (gets rdataEnd) (\<lambda>e. if e < p + sz then onSkipBarrier p sz else ret ())))"

definition peek :: "nat \<Rightarrow> (reader, nat) op" where
  "peek sz =
     bnd (gets rdataPtr) (\<lambda>p. bnd (gets rdataEnd) (\<lambda>e.
     if e < p + sz then onPeekBarrier p sz else ret p))"

definition endOfContent :: "reader \<Rightarrow> bool" where
  "endOfContent r \<longleftrightarrow> rdataPtr r = contentEnd r"

definition nBytesAvailable :: "reader \<Rightarrow> nat" where
  "nBytesAvailable r = rdataEnd r - rdataPtr r"

section \<open>Message boundaries\<close>

definition resetMessageSize :: "(reader, unit) op" where
  "resetMessageSize = modify (\<lambda>r. r\<lparr>contentEnd := no_content_end, rdataEnd := dataEnd0 r\<rparr>)"

definition setMessageSize :: "nat \<Rightarrow> (reader, unit) op" where
  "setMessageSize sz = modify (\<lambda>r.
     let e = rdataPtr r + sz
     in r\<lparr>contentEnd := e, dataEnd0 := rdataEnd r, rdataEnd := min (rdataEnd r) e, rdepth := 0\<rparr>)"

text \<open>The unwinding loop reads \<^verbatim>\<open>eOfs[depth]\<close> down to \<^verbatim>\<open>eOfs[1]\<close>; the last element of a full
  stack is outside the array.\<close>

fun unwind :: "nat \<Rightarrow> nat list \<Rightarrow> nat \<Rightarrow> nat option" where
  "unwind 0 ofs e = Some e"
| "unwind (Suc d) ofs e = (if Suc d < length ofs then unwind d ofs (e + ofs ! Suc d) else None)"

definition skipUnreadMessageBody :: "(reader, unit) op" where
  "skipUnreadMessageBody =
     bnd (gets (\<lambda>r. unwind (rdepth r) (eOfs r) (contentEnd r))) (\<lambda>u. case u of
       None \<Rightarrow> throw (Undefined ''eOfs'')
     | Some e \<Rightarrow>
         andthen (modify (\<lambda>r. r\<lparr>contentEnd := e, rdepth := 0\<rparr>))
         (bnd (gets (\<lambda>r. contentEnd r - rdataPtr r)) (\<lambda>n. andthen resetMessageSize (skip n))))"

definition nextMessage :: "(reader, unit) op" where
  "nextMessage =
     andthen (bnd (gets (\<lambda>r. contentEnd r - rdataPtr r \<noteq> 0 \<or> rdepth r \<noteq> 0))
                  (\<lambda>b. whenM b skipUnreadMessageBody))
     resetMessageSize"

section \<open>The buffer layer delivers the stream\<close>

text \<open>The unread bytes: those in the buffer from an address on, then those of the stream.\<close>

definition view :: "nat \<Rightarrow> reader \<Rightarrow> byte list" where
  "view p r = load_bytes (rmem r) p (streamDataEnd r - p) @ stream_avail (source r)"

definition buffer_ok :: "nat \<Rightarrow> reader \<Rightarrow> bool" where
  "buffer_ok p r \<longleftrightarrow> bufStart r \<le> p \<and> p \<le> streamDataEnd r \<and> streamDataEnd r \<le> bufEnd r \<and>
     bufEnd r < no_content_end \<and> stream_ok (source r)"

text \<open>The fields the buffer layer changes.\<close>

definition buffer_frame :: "reader \<Rightarrow> reader \<Rightarrow> bool" where
  "buffer_frame r r' \<longleftrightarrow>
     rclass r' = rclass r \<and> rdataEnd r' = rdataEnd r \<and> contentEnd r' = contentEnd r \<and>
     bufStart r' = bufStart r \<and> bufEnd r' = bufEnd r \<and> dataEnd0 r' = dataEnd0 r \<and> rdepth r' = rdepth r \<and>
     eOfs r' = eOfs r \<and> rcontainerIsArray r' = rcontainerIsArray r"

lemma buffer_frameD:
  assumes "buffer_frame r r'"
  shows "rclass r' = rclass r" "rdataEnd r' = rdataEnd r" "contentEnd r' = contentEnd r"
    "bufStart r' = bufStart r" "bufEnd r' = bufEnd r" "dataEnd0 r' = dataEnd0 r" "rdepth r' = rdepth r"
    "eOfs r' = eOfs r" "rcontainerIsArray r' = rcontainerIsArray r"
  using assms by (auto simp: buffer_frame_def)

lemma buffer_frame_refl [simp]: "buffer_frame r r"
  by (simp add: buffer_frame_def)

lemma load_compact:
  assumes "dest \<le> src"
  shows "load_bytes (compact dest src n m) dest n = load_bytes m src n"
proof (cases "8 < n")
  case True
  let ?m1 = "store_bytes dest (load_bytes m src 8) m"
  let ?m2 = "store_bytes (dest + 8) (load_bytes ?m1 (src + 8) (n - 8)) ?m1"
  have rest: "load_bytes ?m1 (src + 8) (n - 8) = load_bytes m (src + 8) (n - 8)"
    using assms by (intro load_bytes_cong store_bytes_outside) simp
  have "load_bytes ?m2 dest (8 + (n - 8)) = load_bytes ?m2 dest 8 @ load_bytes ?m2 (dest + 8) (n - 8)"
    by (rule load_bytes_append)
  also have "load_bytes ?m2 dest 8 = load_bytes m src 8"
    by (simp add: load_store_below load_store_same)
  also have "load_bytes ?m2 (dest + 8) (n - 8) = load_bytes m (src + 8) (n - 8)"
    by (simp add: load_store_same rest)
  also have "load_bytes m src 8 @ load_bytes m (src + 8) (n - 8) = load_bytes m src (8 + (n - 8))"
    by (rule load_bytes_append [symmetric])
  finally show ?thesis using True by (simp add: compact_def Let_def)
next
  case False
  then show ?thesis by (simp add: compact_def Let_def load_store_take)
qed

lemma view_after_read:
  assumes "load_bytes (rmem r1) p1 k = load_bytes m p k" "bs = take n (stream_avail s)"
    "stream_avail s' = drop n (stream_avail s)" "length bs = n"
  shows "view p1 (r1\<lparr>rmem := store_bytes (p1 + k + n) [0] (store_bytes (p1 + k) bs (rmem r1)),
                     streamDataEnd := p1 + k + n, source := s'\<rparr>)
       = load_bytes m p k @ stream_avail s"
proof -
  let ?m = "store_bytes (p1 + k + n) [0] (store_bytes (p1 + k) bs (rmem r1))"
  have "load_bytes ?m p1 (k + n) = load_bytes ?m p1 k @ load_bytes ?m (p1 + k) n"
    by (rule load_bytes_append)
  also have "load_bytes ?m p1 k = load_bytes m p k"
    using assms(1) by (simp add: load_store_below)
  also have "load_bytes ?m (p1 + k) n = bs"
    using assms(4) by (simp add: load_store_below load_store_same)
  finally show ?thesis using assms(2,3) by (simp add: view_def add.assoc)
qed

lemma getFromStream_spec:
  assumes ok: "buffer_ok p r" and sz: "sz \<le> bufEnd r - bufStart r"
  shows "if sz \<le> length (view p r)
         then \<exists>q r'. getFromStream p sz r = (Inr q, r') \<and> q + sz \<le> streamDataEnd r' \<and>
                buffer_ok q r' \<and> view q r' = view p r \<and> buffer_frame r r'
         else \<exists>e r'. getFromStream p sz r = (Inl e, r')"
proof -
  let ?k = "streamDataEnd r - p" and ?b = "bufStart r"
  have b: "?b \<le> p" "p \<le> streamDataEnd r" "streamDataEnd r \<le> bufEnd r" "stream_ok (source r)"
    using ok by (auto simp: buffer_ok_def)
  show ?thesis
  proof (cases "sz \<le> ?k")
    case True
    then have "getFromStream p sz r = (Inr p, r)" by (simp add: getFromStream_def)
    moreover have "sz \<le> length (view p r)" using True by (simp add: view_def)
    ultimately show ?thesis using True ok b by auto
  next
    case False
    define x where "x = (if ?k = 0 then (r\<lparr>rdataPtr := ?b\<rparr>, ?b, ?b)
               else if bufEnd r - streamDataEnd r < sz - ?k
               then (r\<lparr>rmem := compact ?b p ?k (rmem r), rdataPtr := ?b\<rparr>, ?b, ?b + ?k)
               else (r, p, streamDataEnd r))"
    obtain r1 p1 dend where x: "x = (r1, p1, dend)" by (cases x)
    have x1: "?b \<le> p1" "dend = p1 + ?k" "p1 + ?k \<le> bufEnd r" "sz - ?k \<le> bufEnd r - dend"
      "load_bytes (rmem r1) p1 ?k = load_bytes (rmem r) p ?k" "source r1 = source r" "buffer_frame r r1"
      using x b sz False unfolding x_def
      by (auto simp: load_compact buffer_frame_def split: if_splits)
    have run: "getFromStream p sz r =
        (case stream_read (sz - ?k) (bufEnd r - dend) (source r) of
           (Inl e, s') \<Rightarrow> (Inl e, r1\<lparr>source := s'\<rparr>)
         | (Inr (n, bs), s') \<Rightarrow>
             (Inr p1, r1\<lparr>rmem := store_bytes (dend + n) [0] (store_bytes dend bs (rmem r1)),
                         streamDataEnd := dend + n, source := s'\<rparr>))"
      by (simp only: getFromStream_def Let_def False if_False x_def [symmetric] x prod.case x1(6))
    show ?thesis
    proof (cases "sz - ?k \<le> length (stream_avail (source r))")
      case True
      then obtain n s' where n: "stream_read (sz - ?k) (bufEnd r - dend) (source r) = (Inr (n, take n (stream_avail (source r))), s')"
        "sz - ?k \<le> n" "n \<le> bufEnd r - dend" "n \<le> length (stream_avail (source r))"
        "stream_avail s' = drop n (stream_avail (source r))" "stream_ok s'"
        using ist.read_enough [OF b(4) x1(4) True] by blast
      let ?r = "r1\<lparr>rmem := store_bytes (p1 + ?k + n) [0] (store_bytes (p1 + ?k) (take n (stream_avail (source r))) (rmem r1)),
                   streamDataEnd := p1 + ?k + n, source := s'\<rparr>"
      have "getFromStream p sz r = (Inr p1, ?r)" using run n(1) x1(2) by simp
      moreover have "view p1 ?r = view p r"
        using view_after_read [OF x1(5) refl n(5)] n(4) by (simp add: view_def)
      moreover have "buffer_frame r ?r" using x1(7) unfolding buffer_frame_def by auto
      moreover have "buffer_ok p1 ?r" "p1 + sz \<le> streamDataEnd ?r"
        using n x1 ok False buffer_frameD [OF x1(7)] by (auto simp: buffer_ok_def)
      moreover have "sz \<le> length (view p r)" using True False by (simp add: view_def)
      ultimately show ?thesis by auto
    next
      case short: False
      then obtain e s' where "stream_read (sz - ?k) (bufEnd r - dend) (source r) = (Inl e, s')"
        using ist.read_short [OF b(4) x1(4)] by auto
      then show ?thesis using run short False by (auto simp: view_def)
    qed
  qed
qed

text \<open>Skipping drops bytes from the front of the view.\<close>

lemma skip_blocks_spec:
  assumes "stream_ok (source r)" "0 < n" "sz \<le> length (stream_avail (source r))"
  shows "\<exists>k r'. skip_blocks sz n r = (Inr k, r') \<and> k \<le> n \<and> k \<le> sz \<and> (0 < sz \<longrightarrow> 0 < k) \<and> buffer_frame r r' \<and>
           stream_ok (source r') \<and> stream_avail (source r') = drop (sz - k) (stream_avail (source r))"
  using assms
proof (induction sz n r rule: skip_blocks.induct)
  case (1 sz n r)
  show ?case
  proof (cases "n < sz")
    case False
    then show ?thesis using "1.prems" by (subst skip_blocks.simps) (intro exI [of _ sz] exI [of _ r], simp)
  next
    case True
    then have "n \<le> length (stream_avail (source r))" using "1.prems" by simp
    from ist.read_enough [OF "1.prems"(1) order_refl this] obtain s' where
      s': "stream_read n n (source r) = (Inr (n, take n (stream_avail (source r))), s')"
        "stream_avail s' = drop n (stream_avail (source r))" "stream_ok s'" by auto
    let ?r = "r\<lparr>rmem := store_bytes (bufStart r) (take n (stream_avail (source r))) (rmem r), source := s'\<rparr>"
    have step: "skip_blocks sz n r = skip_blocks (sz - n) n ?r"
      using True "1.prems" s'(1) by (subst skip_blocks.simps) simp
    have c: "n < sz \<and> n \<noteq> 0" using True "1.prems" by simp
    have "\<exists>k r'. skip_blocks (sz - n) n ?r = (Inr k, r') \<and> k \<le> n \<and> k \<le> sz - n \<and> (0 < sz - n \<longrightarrow> 0 < k) \<and> buffer_frame ?r r' \<and>
           stream_ok (source r') \<and> stream_avail (source r') = drop (sz - n - k) (stream_avail (source ?r))"
      by (rule "1.IH" [OF c s'(1) [symmetric] refl refl]) (use s' "1.prems" in auto)
    then obtain k r' where k: "skip_blocks (sz - n) n ?r = (Inr k, r')" "k \<le> n" "k \<le> sz - n" "0 < k"
      "buffer_frame ?r r'" "stream_ok (source r')"
      "stream_avail (source r') = drop (sz - n - k) (drop n (stream_avail (source r)))"
      using True s' by auto
    have "sz - n - k + n = sz - k" using k(3) True by simp
    then show ?thesis using step k by (auto simp: buffer_frame_def intro!: exI [of _ k] exI [of _ r'])
  qed
qed

lemma skip_blocks_short:
  assumes "stream_ok (source r)" "0 < n" "length (stream_avail (source r)) < sz"
  shows "(\<exists>e r'. skip_blocks sz n r = (Inl e, r')) \<or>
         (\<exists>k r'. skip_blocks sz n r = (Inr k, r') \<and> k \<le> n \<and> length (stream_avail (source r')) < k \<and>
            stream_ok (source r'))"
  using assms
proof (induction sz n r rule: skip_blocks.induct)
  case (1 sz n r)
  show ?case
  proof (cases "n < sz")
    case False
    then show ?thesis using "1.prems" by (subst (1 2) skip_blocks.simps) simp
  next
    case True
    then have c: "n < sz \<and> n \<noteq> 0" using "1.prems" by simp
    show ?thesis
    proof (cases "n \<le> length (stream_avail (source r))")
      case False
      then obtain e s' where "stream_read n n (source r) = (Inl e, s')"
        using ist.read_short [OF "1.prems"(1) order_refl, of n] by (metis not_le)
      then show ?thesis using c by (subst skip_blocks.simps) simp
    next
      case n: True
      from ist.read_enough [OF "1.prems"(1) order_refl this] obtain s' where
        s': "stream_read n n (source r) = (Inr (n, take n (stream_avail (source r))), s')"
          "stream_avail s' = drop n (stream_avail (source r))" "stream_ok s'" by auto
      let ?r = "r\<lparr>rmem := store_bytes (bufStart r) (take n (stream_avail (source r))) (rmem r), source := s'\<rparr>"
      have step: "skip_blocks sz n r = skip_blocks (sz - n) n ?r"
        using c s'(1) by (subst skip_blocks.simps) simp
      show ?thesis unfolding step
        by (rule "1.IH" [OF c s'(1) [symmetric] refl refl]) (use s' "1.prems" n in auto)
    qed
  qed
qed

lemma skipStream_spec:
  assumes ok: "buffer_ok p r" and b: "bufStart r < bufEnd r"
  shows "if sz \<le> length (view p r)
         then \<exists>r'. skipStream p sz r = (Inr (), r') \<and> buffer_ok (rdataPtr r') r' \<and>
                view (rdataPtr r') r' = drop sz (view p r) \<and> buffer_frame r r'
         else \<exists>e r'. skipStream p sz r = (Inl e, r')"
proof -
  let ?k = "streamDataEnd r - p" and ?b = "bufStart r" and ?n = "bufEnd r - bufStart r"
  have src: "stream_ok (source r)" using ok by (simp add: buffer_ok_def)
  have n: "0 < ?n" using b by simp
  show ?thesis
  proof (cases "sz \<le> ?k")
    case True
    let ?r = "r\<lparr>rdataPtr := p + sz\<rparr>"
    have "skipStream p sz r = (Inr (), ?r)" using True by (simp add: skipStream_def)
    moreover have "view (p + sz) ?r = drop sz (view p r)" using True by (simp add: view_def)
    moreover have "buffer_ok (p + sz) ?r" "buffer_frame r ?r" "sz \<le> length (view p r)"
      using True ok by (auto simp: buffer_ok_def buffer_frame_def view_def)
    ultimately show ?thesis by auto
  next
    case False
    have run: "skipStream p sz r =
        (case skip_blocks (sz - ?k) ?n r of
           (Inl e, r1) \<Rightarrow> (Inl e, r1)
         | (Inr rem, r1) \<Rightarrow>
             (case stream_read rem ?n (source r1) of
                (Inl e, s') \<Rightarrow> (Inl e, r1\<lparr>source := s'\<rparr>)
              | (Inr (n, bs), s') \<Rightarrow>
                  (Inr (), r1\<lparr>rmem := store_bytes (?b + n) [0] (store_bytes ?b bs (rmem r1)),
                              rdataPtr := ?b + rem, streamDataEnd := ?b + n, source := s'\<rparr>)))"
      using False by (simp only: skipStream_def Let_def if_False)
    show ?thesis
    proof (cases "sz - ?k \<le> length (stream_avail (source r))")
      case True
      from skip_blocks_spec [OF src n True] obtain j r1 where
        j: "skip_blocks (sz - ?k) ?n r = (Inr j, r1)" "j \<le> ?n" "j \<le> sz - ?k" "0 < j" "buffer_frame r r1"
          "stream_ok (source r1)" "stream_avail (source r1) = drop (sz - ?k - j) (stream_avail (source r))"
        using False by auto
      have "j \<le> length (stream_avail (source r1))" using j(3,7) True by simp
      from ist.read_enough [OF j(6) j(2) this] obtain m s' where
        m: "stream_read j ?n (source r1) = (Inr (m, take m (stream_avail (source r1))), s')" "j \<le> m" "m \<le> ?n"
          "m \<le> length (stream_avail (source r1))" "stream_avail s' = drop m (stream_avail (source r1))" "stream_ok s'"
        by blast
      let ?bs = "take m (stream_avail (source r1))"
      let ?r = "r1\<lparr>rmem := store_bytes (?b + m) [0] (store_bytes ?b ?bs (rmem r1)),
                              rdataPtr := ?b + j, streamDataEnd := ?b + m, source := s'\<rparr>"
      have "skipStream p sz r = (Inr (), ?r)" by (simp add: run j(1) m(1))
      moreover have "view (?b + j) ?r = drop sz (view p r)"
      proof -
        have "view ?b ?r = stream_avail (source r1)"
          using view_after_read [of r1 ?b 0 "rmem r" p ?bs m "source r1" s'] m by (simp add: view_def)
        moreover have "view (?b + j) ?r = drop j (view ?b ?r)"
          using m(2) by (simp add: view_def)
        moreover have "sz - ?k - j + j = sz - ?k" using j(3) by simp
        ultimately show ?thesis using j(7) False by (simp add: view_def)
      qed
      moreover have "buffer_ok (?b + j) ?r"
        using ok m buffer_frameD [OF j(5)] by (auto simp: buffer_ok_def)
      moreover have "buffer_frame r ?r" using j(5) by (simp add: buffer_frame_def)
      moreover have "sz \<le> length (view p r)" using True False by (simp add: view_def)
      ultimately show ?thesis by auto
    next
      case short: False
      then have "length (stream_avail (source r)) < sz - ?k" by simp
      from skip_blocks_short [OF src n this] have "\<exists>e r'. skipStream p sz r = (Inl e, r')"
      proof
        assume "\<exists>e r'. skip_blocks (sz - ?k) ?n r = (Inl e, r')"
        then show ?thesis using run by auto
      next
        assume "\<exists>k r'. skip_blocks (sz - ?k) ?n r = (Inr k, r') \<and> k \<le> ?n \<and>
            length (stream_avail (source r')) < k \<and> stream_ok (source r')"
        then obtain k r' where k: "skip_blocks (sz - ?k) ?n r = (Inr k, r')" "k \<le> ?n"
            "length (stream_avail (source r')) < k" "stream_ok (source r')" by blast
        from ist.read_short [OF k(4) k(2) k(3)] show ?thesis using run k by auto
      qed
      moreover have "\<not> sz \<le> length (view p r)" using short False by (simp add: view_def)
      ultimately show ?thesis by simp
    qed
  qed
qed

section \<open>The contract of the field codecs\<close>

text \<open>\<open>pend\<close> are the bytes a reader can still deliver. A request that they satisfy takes them
  from the front; a request beyond them throws.\<close>

locale byte_source =
  fixes inv :: "reader \<Rightarrow> bool"
    and pend :: "reader \<Rightarrow> byte list"
  assumes bytes_enough: "inv r \<Longrightarrow> n \<le> READ_BUFFER_SIZE \<Longrightarrow> n \<le> length (pend r) \<Longrightarrow>
      \<exists>p r'. bytes n r = (Inr p, r') \<and> load_bytes (rmem r') p n = take n (pend r) \<and>
             pend r' = drop n (pend r) \<and> inv r'"
    and bytes_short: "inv r \<Longrightarrow> n \<le> READ_BUFFER_SIZE \<Longrightarrow> length (pend r) < n \<Longrightarrow> \<exists>e r'. bytes n r = (Inl e, r')"
    and peek_enough: "inv r \<Longrightarrow> n \<le> READ_BUFFER_SIZE \<Longrightarrow> n \<le> length (pend r) \<Longrightarrow>
      \<exists>p r'. peek n r = (Inr p, r') \<and> load_bytes (rmem r') p n = take n (pend r) \<and> pend r' = pend r \<and> inv r'"
    and skip_enough: "inv r \<Longrightarrow> n \<le> length (pend r) \<Longrightarrow>
      \<exists>r'. skip n r = (Inr (), r') \<and> pend r' = drop n (pend r) \<and> inv r'"
    and skip_short: "inv r \<Longrightarrow> length (pend r) < n \<Longrightarrow> \<exists>e r'. skip n r = (Inl e, r')"
    and pending_not_end: "inv r \<Longrightarrow> pend r \<noteq> [] \<Longrightarrow> \<not> endOfContent r"

section \<open>The stream reader satisfies the contract\<close>

text \<open>A reader that is not limited to a message.\<close>

definition base_ok :: "reader \<Rightarrow> bool" where
  "base_ok r \<longleftrightarrow> rclass r = BaseReader \<and> buffer_ok (rdataPtr r) r \<and> rdataEnd r = streamDataEnd r \<and>
     contentEnd r = no_content_end \<and> READ_BUFFER_SIZE \<le> bufEnd r - bufStart r"

definition pend_base :: "reader \<Rightarrow> byte list" where
  "pend_base r = view (rdataPtr r) r"

lemma view_cong: "rmem r' = rmem r \<Longrightarrow> streamDataEnd r' = streamDataEnd r \<Longrightarrow> source r' = source r \<Longrightarrow> view p r' = view p r"
  by (simp add: view_def)

lemma buffer_ok_cong:
  "bufStart r' = bufStart r \<Longrightarrow> bufEnd r' = bufEnd r \<Longrightarrow> streamDataEnd r' = streamDataEnd r \<Longrightarrow>
   source r' = source r \<Longrightarrow> buffer_ok p r' = buffer_ok p r"
  by (simp add: buffer_ok_def)

lemma view_advance: "p + n \<le> streamDataEnd r \<Longrightarrow> view (p + n) r = drop n (view p r)"
  by (simp add: view_def)

lemma load_view: "p + n \<le> streamDataEnd r \<Longrightarrow> load_bytes (rmem r) p n = take n (view p r)"
  by (simp add: view_def)

lemma length_view: "p \<le> streamDataEnd r \<Longrightarrow> length (view p r) = streamDataEnd r - p + length (stream_avail (source r))"
  by (simp add: view_def)

text \<open>What a request beyond the barrier does, for both uses of the buffer layer.\<close>

lemma get_inl_spec:
  assumes "buffer_ok p r" "sz \<le> bufEnd r - bufStart r"
  shows "if sz \<le> length (view p r)
         then \<exists>q r'. get_inl p sz r = (Inr q, r') \<and> q + sz \<le> streamDataEnd r' \<and> buffer_ok q r' \<and>
                view q r' = view p r \<and> rdataEnd r' = streamDataEnd r' \<and> buffer_frame (r\<lparr>rdataEnd := rdataEnd r'\<rparr>) r'
         else \<exists>e r'. get_inl p sz r = (Inl e, r')"
proof (cases "sz \<le> length (view p r)")
  case True
  with getFromStream_spec [OF assms] obtain q r' where q: "getFromStream p sz r = (Inr q, r')"
    "q + sz \<le> streamDataEnd r'" "buffer_ok q r'" "view q r' = view p r" "buffer_frame r r'" by auto
  let ?r = "r'\<lparr>rdataEnd := streamDataEnd r'\<rparr>"
  have "get_inl p sz r = (Inr q, ?r)" using q by (simp add: get_inl_def bnd_def andthen_def)
  moreover have "buffer_ok q ?r" "view q ?r = view p r"
    using q buffer_ok_cong [of ?r r' q] view_cong [of ?r r' q] by auto
  ultimately show ?thesis using True q by (auto simp: buffer_frame_def)
next
  case False
  with getFromStream_spec [OF assms] obtain e r' where "getFromStream p sz r = (Inl e, r')" by auto
  then show ?thesis using False by (simp add: get_inl_def bnd_def)
qed

lemma skip_inl_spec:
  assumes "buffer_ok p r" "bufStart r < bufEnd r"
  shows "if sz \<le> length (view p r)
         then \<exists>r'. skip_inl p sz r = (Inr (), r') \<and> buffer_ok (rdataPtr r') r' \<and>
                view (rdataPtr r') r' = drop sz (view p r) \<and> rdataEnd r' = streamDataEnd r' \<and>
                buffer_frame (r\<lparr>rdataEnd := rdataEnd r'\<rparr>) r'
         else \<exists>e r'. skip_inl p sz r = (Inl e, r')"
proof (cases "sz \<le> length (view p r)")
  case True
  with skipStream_spec [OF assms, of sz] obtain r' where q: "skipStream p sz r = (Inr (), r')"
    "buffer_ok (rdataPtr r') r'" "view (rdataPtr r') r' = drop sz (view p r)" "buffer_frame r r'" by auto
  let ?r = "r'\<lparr>rdataEnd := streamDataEnd r'\<rparr>"
  have "skip_inl p sz r = (Inr (), ?r)" using q by (simp add: skip_inl_def bnd_def andthen_def)
  moreover have "buffer_ok (rdataPtr ?r) ?r" "view (rdataPtr ?r) ?r = drop sz (view p r)"
    using q buffer_ok_cong [of ?r r' "rdataPtr r'"] view_cong [of ?r r' "rdataPtr r'"] by auto
  ultimately show ?thesis using True q by (auto simp: buffer_frame_def)
next
  case False
  with skipStream_spec [OF assms, of sz] obtain e r' where "skipStream p sz r = (Inl e, r')" by auto
  then show ?thesis using False by (simp add: skip_inl_def bnd_def andthen_def)
qed

lemma bytes_run:
  "bytes n r = (let r1 = r\<lparr>rdataPtr := rdataPtr r + n\<rparr> in
     if rdataEnd r < rdataPtr r + n
     then (case vget (rdataPtr r) n r1 of
             (Inl e, r') \<Rightarrow> (Inl e, r')
           | (Inr p, r') \<Rightarrow> (Inr p, r'\<lparr>rdataPtr := p + n\<rparr>))
     else (Inr (rdataPtr r), r1))"
  by (simp add: bytes_def bnd_def andthen_def onReadBarrier_def split: prod.splits sum.splits)

lemma peek_run:
  "peek n r =
     (if rdataEnd r < rdataPtr r + n
      then (case vget (rdataPtr r) n r of
              (Inl e, r') \<Rightarrow> (Inl e, r')
            | (Inr p, r') \<Rightarrow> (Inr p, r'\<lparr>rdataPtr := p\<rparr>))
      else (Inr (rdataPtr r), r))"
  by (simp add: peek_def bnd_def andthen_def onPeekBarrier_def split: prod.splits sum.splits)

lemma skip_run:
  "skip n r = (let r1 = r\<lparr>rdataPtr := rdataPtr r + n\<rparr> in
     if rdataEnd r < rdataPtr r + n then vskip (rdataPtr r) n r1 else (Inr (), r1))"
  by (simp add: skip_def bnd_def andthen_def onSkipBarrier_def split: prod.splits sum.splits)

lemma pend_base_upd: "pend_base (r\<lparr>rdataPtr := x\<rparr>) = view x r"
  by (simp add: pend_base_def view_def)

lemma vget_base: "rclass r = BaseReader \<Longrightarrow> vget p n r = get_inl p n r"
  by (simp add: vget_def bnd_def)

lemma vskip_base: "rclass r = BaseReader \<Longrightarrow> vskip p n r = skip_inl p n r"
  by (simp add: vskip_def bnd_def)

lemma base_get:
  assumes ok: "base_ok r" and n: "n \<le> READ_BUFFER_SIZE"
    and r1: "r1 = r \<or> r1 = r\<lparr>rdataPtr := rdataPtr r + n\<rparr>"
  shows "if n \<le> length (pend_base r)
         then \<exists>q r'. vget (rdataPtr r) n r1 = (Inr q, r') \<and> q + n \<le> streamDataEnd r' \<and> view q r' = pend_base r \<and>
                (\<forall>k \<le> n. base_ok (r'\<lparr>rdataPtr := q + k\<rparr>))
         else \<exists>e r'. vget (rdataPtr r) n r1 = (Inl e, r')"
proof -
  let ?p = "rdataPtr r"
  have v: "view ?p r1 = pend_base r" "buffer_ok ?p r1" "rclass r1 = BaseReader" "contentEnd r1 = no_content_end"
    "READ_BUFFER_SIZE \<le> bufEnd r1 - bufStart r1"
    using ok r1 by (auto simp: base_ok_def pend_base_def view_def buffer_ok_def)
  note g = get_inl_spec [OF v(2), of n]
  show ?thesis
  proof (cases "n \<le> length (pend_base r)")
    case True
    with g v n obtain q r' where q: "get_inl ?p n r1 = (Inr q, r')" "q + n \<le> streamDataEnd r'" "buffer_ok q r'"
        "view q r' = pend_base r" "rdataEnd r' = streamDataEnd r'" "buffer_frame (r1\<lparr>rdataEnd := rdataEnd r'\<rparr>) r'"
      by auto
    then have "base_ok (r'\<lparr>rdataPtr := q + k\<rparr>)" if "k \<le> n" for k
      using v that by (auto simp: base_ok_def buffer_ok_def buffer_frame_def)
    then show ?thesis using q True v by (auto simp: vget_base)
  next
    case False
    with g v n show ?thesis by (auto simp: vget_base)
  qed
qed

interpretation bsrc: byte_source base_ok pend_base
proof unfold_locales
  fix r n assume ok: "base_ok r" and n: "n \<le> READ_BUFFER_SIZE" "n \<le> length (pend_base r)"
  let ?p = "rdataPtr r" and ?r1 = "r\<lparr>rdataPtr := rdataPtr r + n\<rparr>"
  have e: "rdataEnd r = streamDataEnd r" "view ?p r = pend_base r"
    using ok by (auto simp: base_ok_def pend_base_def)
  from base_get [OF ok n(1), of ?r1] base_get [OF ok n(1), of r] n(2)
  obtain q r' q2 r2 where q: "vget ?p n ?r1 = (Inr q, r')" "q + n \<le> streamDataEnd r'" "view q r' = pend_base r"
      "\<And>k. k \<le> n \<Longrightarrow> base_ok (r'\<lparr>rdataPtr := q + k\<rparr>)"
    and q2: "vget ?p n r = (Inr q2, r2)" "q2 + n \<le> streamDataEnd r2" "view q2 r2 = pend_base r"
      "\<And>k. k \<le> n \<Longrightarrow> base_ok (r2\<lparr>rdataPtr := q2 + k\<rparr>)"
    by (auto 0 3)
  have vq: "view (q + n) r' = drop n (pend_base r)" using view_advance [OF q(2)] q(3) by simp
  show "\<exists>p r'. bytes n r = (Inr p, r') \<and> load_bytes (rmem r') p n = take n (pend_base r) \<and>
      pend_base r' = drop n (pend_base r) \<and> base_ok r'"
  proof (cases "streamDataEnd r < ?p + n")
    case True
    then show ?thesis
      using q(1) q(4) [of n] vq load_view [OF q(2), unfolded q(3)] e
      by (simp add: bytes_run pend_base_upd)
  next
    case False
    then have "base_ok ?r1" using ok by (auto simp: base_ok_def buffer_ok_def)
    moreover have "pend_base ?r1 = drop n (pend_base r)"
      using False view_advance [of ?p n r] by (simp add: pend_base_def view_def)
    ultimately show ?thesis using False e load_view [of ?p n r] by (simp add: bytes_run)
  qed
  show "\<exists>p r'. peek n r = (Inr p, r') \<and> load_bytes (rmem r') p n = take n (pend_base r) \<and>
      pend_base r' = pend_base r \<and> base_ok r'"
  proof (cases "streamDataEnd r < ?p + n")
    case True
    then show ?thesis
      using q2(1) q2(4) [of 0] q2(3) load_view [OF q2(2), unfolded q2(3)] e
      by (simp add: peek_run pend_base_upd)
  next
    case False
    then show ?thesis using ok e load_view [of ?p n r] by (simp add: peek_run)
  qed
next
  fix r n assume ok: "base_ok r" and n: "n \<le> READ_BUFFER_SIZE" "length (pend_base r) < n"
  have "rdataEnd r < rdataPtr r + n"
    using ok n(2) by (auto simp: base_ok_def buffer_ok_def pend_base_def view_def)
  moreover from base_get [OF ok n(1), of "r\<lparr>rdataPtr := rdataPtr r + n\<rparr>"] n(2)
  obtain e r' where "vget (rdataPtr r) n (r\<lparr>rdataPtr := rdataPtr r + n\<rparr>) = (Inl e, r')" by auto
  ultimately show "\<exists>e r'. bytes n r = (Inl e, r')" by (simp add: bytes_run)
next
  fix r n assume ok: "base_ok r"
  let ?p = "rdataPtr r" and ?r1 = "r\<lparr>rdataPtr := rdataPtr r + n\<rparr>"
  have b: "buffer_ok ?p ?r1" "bufStart ?r1 < bufEnd ?r1" "view ?p ?r1 = pend_base r" "rclass ?r1 = BaseReader"
    using ok by (auto simp: base_ok_def buffer_ok_def pend_base_def view_def READ_BUFFER_SIZE_def)
  note g = skip_inl_spec [OF b(1,2), of n]
  show "\<exists>r'. skip n r = (Inr (), r') \<and> pend_base r' = drop n (pend_base r) \<and> base_ok r'"
    if n: "n \<le> length (pend_base r)"
  proof (cases "rdataEnd r < ?p + n")
    case True
    from g n b obtain r' where r': "skip_inl ?p n ?r1 = (Inr (), r')" "buffer_ok (rdataPtr r') r'"
        "view (rdataPtr r') r' = drop n (pend_base r)" "rdataEnd r' = streamDataEnd r'"
        "buffer_frame (?r1\<lparr>rdataEnd := rdataEnd r'\<rparr>) r'" by auto
    then have "base_ok r'" using ok by (auto simp: base_ok_def buffer_frame_def)
    then show ?thesis using True r' b by (simp add: skip_run vskip_base pend_base_def)
  next
    case False
    then have "base_ok ?r1" using ok by (auto simp: base_ok_def buffer_ok_def)
    moreover have "pend_base ?r1 = drop n (pend_base r)"
      using False ok view_advance [of ?p n r] by (simp add: pend_base_def view_def base_ok_def)
    ultimately show ?thesis using False by (simp add: skip_run)
  qed
  show "\<exists>e r'. skip n r = (Inl e, r')" if n: "length (pend_base r) < n"
  proof -
    have "rdataEnd r < ?p + n"
      using ok n by (auto simp: base_ok_def buffer_ok_def pend_base_def view_def)
    then show ?thesis using g n b by (auto simp: skip_run vskip_base)
  qed
next
  fix r assume "base_ok r" "pend_base r \<noteq> []"
  then show "\<not> endOfContent r" by (auto simp: base_ok_def buffer_ok_def endOfContent_def)
qed

section \<open>The message reader satisfies the contract\<close>

definition msg_ok :: "reader \<Rightarrow> bool" where
  "msg_ok r \<longleftrightarrow> rclass r = MsgReader \<and> buffer_ok (rdataPtr r) r \<and> rdataPtr r \<le> contentEnd r \<and>
     rdataEnd r = min (contentEnd r) (streamDataEnd r) \<and> dataEnd0 r = streamDataEnd r \<and>
     READ_BUFFER_SIZE \<le> bufEnd r - bufStart r"

definition content_left :: "reader \<Rightarrow> nat" where
  "content_left r = contentEnd r - rdataPtr r"

definition stream_left :: "reader \<Rightarrow> byte list" where
  "stream_left r = view (rdataPtr r) r"

text \<open>The bytes of the current message or container that are still to be read.\<close>

definition pend_msg :: "reader \<Rightarrow> byte list" where
  "pend_msg r = take (content_left r) (stream_left r)"

text \<open>The container stack is not touched by reads.\<close>

definition nest_frame :: "reader \<Rightarrow> reader \<Rightarrow> bool" where
  "nest_frame r r' \<longleftrightarrow> rdepth r' = rdepth r \<and> eOfs r' = eOfs r \<and> rcontainerIsArray r' = rcontainerIsArray r"

text \<open>One request: \<open>n\<close> bytes are consumed from the content and from the stream.\<close>

definition consumes :: "nat \<Rightarrow> reader \<Rightarrow> reader \<Rightarrow> bool" where
  "consumes n r r' \<longleftrightarrow> msg_ok r' \<and> nest_frame r r' \<and> stream_left r' = drop n (stream_left r) \<and>
     content_left r' + n = content_left r"

lemma consumes_trans: "consumes n r r' \<Longrightarrow> consumes k r' r'' \<Longrightarrow> consumes (n + k) r r''"
  by (auto simp: consumes_def nest_frame_def add.commute)

lemma consumes_0 [simp]: "consumes 0 r r \<longleftrightarrow> msg_ok r"
  by (simp add: consumes_def nest_frame_def)

lemma consumes_pend: "consumes n r r' \<Longrightarrow> pend_msg r' = drop n (pend_msg r)"
  unfolding consumes_def pend_msg_def by (metis add_diff_cancel_right' drop_take)

lemma length_pend_msg: "length (pend_msg r) = min (content_left r) (length (stream_left r))"
  by (simp add: pend_msg_def min.commute)

lemma vget_msg: "rclass r = MsgReader \<Longrightarrow> vget p n r = DataReaderMsg_get p n r"
  by (simp add: vget_def bnd_def)

lemma vskip_msg: "rclass r = MsgReader \<Longrightarrow> vskip p n r = DataReaderMsg_skip p n r"
  by (simp add: vskip_def bnd_def)

lemma stream_left_upd: "stream_left (r\<lparr>rdataPtr := x\<rparr>) = view x r"
  by (simp add: stream_left_def view_def)

lemma msg_get_any:
  assumes ok: "msg_ok r" and n: "n \<le> READ_BUFFER_SIZE" and beyond: "rdataEnd r < rdataPtr r + n"
    and r1: "r1 = r\<lparr>rdataPtr := x\<rparr>"
  shows "if n \<le> content_left r \<and> n \<le> length (stream_left r)
         then \<exists>q r'. vget (rdataPtr r) n r1 = (Inr q, r') \<and> load_bytes (rmem r') q n = take n (stream_left r) \<and>
                (\<forall>k \<le> n. consumes k r (r'\<lparr>rdataPtr := q + k\<rparr>))
         else \<exists>e r'. vget (rdataPtr r) n r1 = (Inl e, r')"
proof -
  let ?p = "rdataPtr r"
  have v: "view ?p r1 = stream_left r" "buffer_ok ?p r1" "rclass r1 = MsgReader" "contentEnd r1 = contentEnd r"
    "READ_BUFFER_SIZE \<le> bufEnd r1 - bufStart r1" "nest_frame r r1" "?p \<le> contentEnd r"
    "?p + n \<le> contentEnd r \<longleftrightarrow> n \<le> content_left r"
    using ok r1 by (auto simp: msg_ok_def stream_left_def view_def buffer_ok_def nest_frame_def content_left_def)
  note g = get_inl_spec [OF v(2), of n]
  show ?thesis
  proof (cases "n \<le> content_left r \<and> n \<le> length (stream_left r)")
    case True
    with g v n obtain q r' where q: "get_inl ?p n r1 = (Inr q, r')" "q + n \<le> streamDataEnd r'" "buffer_ok q r'"
        "view q r' = stream_left r" "rdataEnd r' = streamDataEnd r'" "buffer_frame (r1\<lparr>rdataEnd := rdataEnd r'\<rparr>) r'"
      by auto
    let ?c = "contentEnd r + q - ?p"
    let ?r = "r'\<lparr>contentEnd := ?c, dataEnd0 := streamDataEnd r', rdataEnd := min ?c (streamDataEnd r')\<rparr>"
    have f: "contentEnd r' = contentEnd r" "rclass r' = MsgReader" "bufStart r' = bufStart r1" "bufEnd r' = bufEnd r1"
      "nest_frame r r'"
      using q(6) v by (auto simp: buffer_frame_def nest_frame_def)
    have run: "vget ?p n r1 = (Inr q, ?r)"
      using q v True f by (simp add: vget_msg DataReaderMsg_get_def bnd_def andthen_def)
    have vw: "view x ?r = view x r'" for x by (simp add: view_def)
    have cl: "?c - (q + k) + k = content_left r" if "k \<le> n" for k
      using True v(7) that by (auto simp: content_left_def)
    have "consumes k r (?r\<lparr>rdataPtr := q + k\<rparr>)" if k: "k \<le> n" for k
    proof -
      have "view (q + k) r' = drop k (stream_left r)" using view_advance [of q k r'] q k by simp
      moreover have "msg_ok (?r\<lparr>rdataPtr := q + k\<rparr>)"
        using q f v k True by (auto simp: msg_ok_def buffer_ok_def content_left_def)
      ultimately show ?thesis
        using f cl [OF k] by (simp add: consumes_def stream_left_upd vw nest_frame_def content_left_def)
    qed
    moreover have "load_bytes (rmem ?r) q n = take n (stream_left r)" using load_view [OF q(2)] q(4) by simp
    ultimately show ?thesis using True run by auto
  next
    case False
    have "\<exists>e r'. vget ?p n r1 = (Inl e, r')"
    proof (cases "n \<le> content_left r")
      case True
      with g v n False obtain e r' where "get_inl ?p n r1 = (Inl e, r')" by auto
      then show ?thesis using v True by (simp add: vget_msg DataReaderMsg_get_def bnd_def)
    next
      case False
      then show ?thesis using v by (simp add: vget_msg DataReaderMsg_get_def bnd_def)
    qed
    then show ?thesis using False by (simp only: if_False)
  qed
qed

lemma msg_get:
  assumes "msg_ok r" "n \<le> READ_BUFFER_SIZE" "rdataEnd r < rdataPtr r + n"
    and r1: "r1 = r \<or> r1 = r\<lparr>rdataPtr := rdataPtr r + n\<rparr>"
  shows "if n \<le> content_left r \<and> n \<le> length (stream_left r)
         then \<exists>q r'. vget (rdataPtr r) n r1 = (Inr q, r') \<and> load_bytes (rmem r') q n = take n (stream_left r) \<and>
                (\<forall>k \<le> n. consumes k r (r'\<lparr>rdataPtr := q + k\<rparr>))
         else \<exists>e r'. vget (rdataPtr r) n r1 = (Inl e, r')"
proof -
  have "r = r\<lparr>rdataPtr := rdataPtr r\<rparr>" by simp
  with r1 obtain x where "r1 = r\<lparr>rdataPtr := x\<rparr>" by metis
  from msg_get_any [OF assms(1-3) this] show ?thesis .
qed

lemma msg_step:
  assumes ok: "msg_ok r" and n: "\<not> rdataEnd r < rdataPtr r + n"
  shows "consumes n r (r\<lparr>rdataPtr := rdataPtr r + n\<rparr>)" "load_bytes (rmem r) (rdataPtr r) n = take n (stream_left r)"
    "n \<le> content_left r" "n \<le> length (stream_left r)"
proof -
  have p: "rdataPtr r + n \<le> streamDataEnd r" "rdataPtr r + n \<le> contentEnd r"
    using ok n by (auto simp: msg_ok_def)
  show "consumes n r (r\<lparr>rdataPtr := rdataPtr r + n\<rparr>)"
    using ok p view_advance [OF p(1)]
    by (auto simp: consumes_def msg_ok_def buffer_ok_def nest_frame_def stream_left_upd content_left_def)
       (simp add: stream_left_def)
  show "load_bytes (rmem r) (rdataPtr r) n = take n (stream_left r)"
    using load_view [OF p(1)] by (simp add: stream_left_def)
  show "n \<le> content_left r" "n \<le> length (stream_left r)"
    using p by (auto simp: content_left_def stream_left_def view_def)
qed

lemma msg_bytes:
  assumes ok: "msg_ok r" and n: "n \<le> READ_BUFFER_SIZE"
  shows "if n \<le> content_left r \<and> n \<le> length (stream_left r)
         then \<exists>q r'. bytes n r = (Inr q, r') \<and> load_bytes (rmem r') q n = take n (stream_left r) \<and> consumes n r r'
         else \<exists>e r'. bytes n r = (Inl e, r')"
proof (cases "rdataEnd r < rdataPtr r + n")
  case True
  with msg_get [OF ok n, of "r\<lparr>rdataPtr := rdataPtr r + n\<rparr>"] show ?thesis
    by (auto simp: bytes_run split: if_splits)
next
  case False
  with msg_step [OF ok False] show ?thesis by (auto simp: bytes_run)
qed

lemma msg_peek:
  assumes ok: "msg_ok r" and n: "n \<le> READ_BUFFER_SIZE"
  shows "if n \<le> content_left r \<and> n \<le> length (stream_left r)
         then \<exists>q r'. peek n r = (Inr q, r') \<and> load_bytes (rmem r') q n = take n (stream_left r) \<and> consumes 0 r r'
         else \<exists>e r'. peek n r = (Inl e, r')"
proof (cases "rdataEnd r < rdataPtr r + n")
  case True
  show ?thesis
  proof (cases "n \<le> content_left r \<and> n \<le> length (stream_left r)")
    case c: True
    with msg_get [OF ok n True, of r] obtain q r' where q: "vget (rdataPtr r) n r = (Inr q, r')"
        "load_bytes (rmem r') q n = take n (stream_left r)" "\<forall>k \<le> n. consumes k r (r'\<lparr>rdataPtr := q + k\<rparr>)"
      by auto
    from q(3) have "consumes 0 r (r'\<lparr>rdataPtr := q + 0\<rparr>)" by blast
    then show ?thesis using c True q by (simp add: peek_run)
  next
    case c: False
    with msg_get [OF ok n True, of r] True show ?thesis by (auto simp: peek_run)
  qed
next
  case False
  with msg_step [OF ok False] ok show ?thesis by (auto simp: peek_run)
qed

lemma msg_skip:
  assumes ok: "msg_ok r"
  shows "if n \<le> content_left r \<and> n \<le> length (stream_left r)
         then \<exists>r'. skip n r = (Inr (), r') \<and> consumes n r r'
         else \<exists>e r'. skip n r = (Inl e, r')"
proof (cases "rdataEnd r < rdataPtr r + n")
  case True
  let ?p = "rdataPtr r" and ?r1 = "r\<lparr>rdataPtr := rdataPtr r + n\<rparr>"
  have v: "view ?p ?r1 = stream_left r" "buffer_ok ?p ?r1" "bufStart ?r1 < bufEnd ?r1" "rclass ?r1 = MsgReader"
    "?p \<le> contentEnd r" "?p + n \<le> contentEnd r \<longleftrightarrow> n \<le> content_left r"
    using ok by (auto simp: msg_ok_def stream_left_def view_def buffer_ok_def content_left_def READ_BUFFER_SIZE_def)
  note g = skip_inl_spec [OF v(2,3), of n]
  have run: "skip n r = DataReaderMsg_skip ?p n ?r1" using True v by (simp add: skip_run vskip_msg)
  show ?thesis
  proof (cases "n \<le> content_left r \<and> n \<le> length (stream_left r)")
    case c: True
    with g v obtain r' where q: "skip_inl ?p n ?r1 = (Inr (), r')" "buffer_ok (rdataPtr r') r'"
        "view (rdataPtr r') r' = drop n (stream_left r)" "rdataEnd r' = streamDataEnd r'"
        "buffer_frame (?r1\<lparr>rdataEnd := rdataEnd r'\<rparr>) r'" by auto
    let ?c = "rdataPtr r' + (content_left r - n)"
    let ?r = "r'\<lparr>contentEnd := ?c, dataEnd0 := streamDataEnd r', rdataEnd := min ?c (streamDataEnd r')\<rparr>"
    have "DataReaderMsg_skip ?p n ?r1 = (Inr (), ?r)"
      using q v c by (simp add: DataReaderMsg_skip_def bnd_def andthen_def content_left_def Let_def)
    moreover have "stream_left ?r = drop n (stream_left r)" using q by (simp add: stream_left_def view_def)
    moreover have "msg_ok ?r" using q ok by (auto simp: msg_ok_def buffer_ok_def buffer_frame_def)
    ultimately have "skip n r = (Inr (), ?r)" "consumes n r ?r"
      using q c run by (auto simp: consumes_def nest_frame_def content_left_def buffer_frame_def)
    then show ?thesis using c by auto
  next
    case c: False
    have "\<exists>e r'. DataReaderMsg_skip ?p n ?r1 = (Inl e, r')"
    proof (cases "n \<le> content_left r")
      case True
      with g v c obtain e r' where "skip_inl ?p n ?r1 = (Inl e, r')" by auto
      then show ?thesis using v True by (simp add: DataReaderMsg_skip_def bnd_def andthen_def Let_def)
    next
      case False
      then show ?thesis using v by (simp add: DataReaderMsg_skip_def bnd_def)
    qed
    then show ?thesis using c run by (simp only: if_False)
  qed
next
  case False
  with msg_step [OF ok False] show ?thesis by (auto simp: skip_run)
qed

interpretation msrc: byte_source msg_ok pend_msg
proof unfold_locales
  fix r n assume ok: "msg_ok r" and n: "n \<le> READ_BUFFER_SIZE" "n \<le> length (pend_msg r)"
  have c: "n \<le> content_left r \<and> n \<le> length (stream_left r)" using n(2) by (simp add: length_pend_msg)
  then have t: "take n (pend_msg r) = take n (stream_left r)" by (simp add: pend_msg_def min_def)
  show "\<exists>p r'. bytes n r = (Inr p, r') \<and> load_bytes (rmem r') p n = take n (pend_msg r) \<and>
      pend_msg r' = drop n (pend_msg r) \<and> msg_ok r'"
    using msg_bytes [OF ok n(1)] c unfolding t by (auto simp: consumes_pend) (auto simp: consumes_def)
  show "\<exists>p r'. peek n r = (Inr p, r') \<and> load_bytes (rmem r') p n = take n (pend_msg r) \<and>
      pend_msg r' = pend_msg r \<and> msg_ok r'"
  proof -
    from msg_peek [OF ok n(1)] c obtain q r' where "peek n r = (Inr q, r')"
        "load_bytes (rmem r') q n = take n (stream_left r)" "consumes 0 r r'" by auto
    then show ?thesis unfolding t using consumes_pend [of 0 r r'] by (auto simp: consumes_def)
  qed
next
  fix r n assume ok: "msg_ok r" and n: "n \<le> READ_BUFFER_SIZE" "length (pend_msg r) < n"
  have "\<not> (n \<le> content_left r \<and> n \<le> length (stream_left r))" using n(2) by (auto simp: length_pend_msg)
  with msg_bytes [OF ok n(1)] show "\<exists>e r'. bytes n r = (Inl e, r')" by (simp only: if_False)
next
  fix r n assume ok: "msg_ok r" and n: "n \<le> length (pend_msg r)"
  then show "\<exists>r'. skip n r = (Inr (), r') \<and> pend_msg r' = drop n (pend_msg r) \<and> msg_ok r'"
    using msg_skip [OF ok, of n] by (auto simp: length_pend_msg consumes_pend) (auto simp: consumes_def)
next
  fix r n assume ok: "msg_ok r" and n: "length (pend_msg r) < n"
  have "\<not> (n \<le> content_left r \<and> n \<le> length (stream_left r))" using n by (auto simp: length_pend_msg)
  with msg_skip [OF ok, of n] show "\<exists>e r'. skip n r = (Inl e, r')" by (simp only: if_False)
next
  fix r assume "msg_ok r" "pend_msg r \<noteq> []"
  then show "\<not> endOfContent r" by (auto simp: endOfContent_def pend_msg_def content_left_def)
qed

end
