(* ===== verification/FieldReader.thy ===== *)
theory FieldReader
  imports DataReader
begin

text \<open>
  The field decoders of the reader: the inline methods of \<^verbatim>\<open>include/native/dxapi/data_reader.h\<close>
  and \<^verbatim>\<open>tickdb/data_reader_impl.h\<close>, and the compressed encodings of
  \<^verbatim>\<open>tickdb/data_reader.cpp\<close>. Each decoder is proved once against the contract
  \<open>byte_source\<close>: on a reader whose pending bytes start with an encoding, it returns the value
  and leaves the rest.
\<close>

section \<open>Fixed size fields\<close>

definition loadBE_next :: "(reader, 'a::len word) op" where
  "loadBE_next = bnd (bytes (LENGTH('a) div 8)) (\<lambda>p. gets (\<lambda>r. loadBE (rmem r) p))"

text \<open>A little-endian word at the address of the next \<open>n\<close> bytes; the callers mask what is behind them.\<close>

definition loadLE_bytes :: "nat \<Rightarrow> (reader, 'a::len word) op" where
  "loadLE_bytes n = bnd (bytes n) (\<lambda>p. gets (\<lambda>r. loadLE (rmem r) p))"

text \<open>The versions with a bit count read fewer bytes and shift the word right, arithmetically for
  a signed type.\<close>

definition loadBE_uint40 :: "(reader, 64 word) op" where
  "loadBE_uint40 = bnd (bytes 5) (\<lambda>p. gets (\<lambda>r. drop_bit (64 - 40) (loadBE (rmem r) p :: 64 word)))"

definition loadBE_int48 :: "(reader, 64 word) op" where
  "loadBE_int48 = bnd (bytes 6) (\<lambda>p. gets (\<lambda>r. signed_drop_bit (64 - 48) (loadBE (rmem r) p :: 64 word)))"

definition getByte :: "(reader, 8 word) op" where "getByte = loadBE_next"
definition getUInt16 :: "(reader, 16 word) op" where "getUInt16 = loadBE_next"
definition getUInt32 :: "(reader, 32 word) op" where "getUInt32 = loadBE_next"
definition getUInt64 :: "(reader, 64 word) op" where "getUInt64 = loadBE_next"
definition getFloat64 :: "(reader, 64 word) op" where "getFloat64 = loadBE_next"
definition getFloat32 :: "(reader, 32 word) op" where "getFloat32 = loadBE_next"

definition orNull :: "'a \<Rightarrow> (reader, 'a) op \<Rightarrow> (reader, 'a) op" where
  "orNull null m = bnd (gets endOfContent) (\<lambda>e. if e then ret null else m)"

definition readUInt8 :: "(reader, 8 word) op" where "readUInt8 = orNull INT8_NULL getByte"
definition readInt8 :: "(reader, 8 word) op" where "readInt8 = orNull INT8_NULL getByte"
definition readInt16 :: "(reader, 16 word) op" where "readInt16 = orNull INT16_NULL getUInt16"
definition readInt32 :: "(reader, 32 word) op" where "readInt32 = orNull INT32_NULL getUInt32"
definition readUInt40 :: "(reader, 64 word) op" where "readUInt40 = loadBE_uint40"
definition readInt48 :: "(reader, 64 word) op" where "readInt48 = orNull INT48_NULL loadBE_int48"
definition readInt64 :: "(reader, 64 word) op" where "readInt64 = orNull INT64_NULL getUInt64"
definition readFloat64 :: "(reader, 64 word) op" where "readFloat64 = orNull float64null loadBE_next"
definition readFloat32 :: "(reader, 32 word) op" where "readFloat32 = orNull float32null loadBE_next"
definition readTimestamp :: "(reader, 64 word) op" where "readTimestamp = orNull TIMESTAMP_NULL getUInt64"
definition readTimeOfDay :: "(reader, 32 word) op" where "readTimeOfDay = orNull TIMEOFDAY_NULL getUInt32"
definition readEnum8 :: "(reader, 32 word) op" where
  "readEnum8 = orNull ENUM_NULL (bnd loadBE_next (\<lambda>x :: 8 word. ret (scast x)))"
definition readEnum16 :: "(reader, 32 word) op" where
  "readEnum16 = orNull ENUM_NULL (bnd loadBE_next (\<lambda>x :: 16 word. ret (scast x)))"
definition readEnum32 :: "(reader, 32 word) op" where "readEnum32 = orNull ENUM_NULL loadBE_next"
definition readEnum64 :: "(reader, 64 word) op" where "readEnum64 = orNull ENUM_NULL loadBE_next"
definition readBoolean :: "(reader, bool) op" where "readBoolean = bnd getByte (\<lambda>b. ret (b = 1))"
definition readNullableBooleanInt8 :: "(reader, 8 word) op" where
  "readNullableBooleanInt8 = orNull BOOL_NULL getByte"
definition readWChar :: "(reader, 32 word) op" where
  "readWChar = orNull CHAR_NULL (bnd getUInt16 (\<lambda>x. ret (ucast x)))"

text \<open>The overloads with an output parameter return whether there is a value; \<open>None\<close> in the
  second component is a parameter left as it was.\<close>

definition readNullable :: "(reader, 'a) op \<Rightarrow> ('a \<Rightarrow> bool) \<Rightarrow> (reader, bool \<times> 'a option) op" where
  "readNullable m notNull =
     bnd (gets endOfContent) (\<lambda>e. if e then ret (False, None) else bnd m (\<lambda>x. ret (notNull x, Some x)))"

definition readInt8_nullable :: "(reader, bool \<times> 8 word option) op" where
  "readInt8_nullable = readNullable getByte (\<lambda>x. INT8_NULL \<noteq> x)"
definition readInt16_nullable :: "(reader, bool \<times> 16 word option) op" where
  "readInt16_nullable = readNullable loadBE_next (\<lambda>x. INT16_NULL \<noteq> x)"
definition readInt32_nullable :: "(reader, bool \<times> 32 word option) op" where
  "readInt32_nullable = readNullable loadBE_next (\<lambda>x. INT32_NULL \<noteq> x)"
definition readInt48_nullable :: "(reader, bool \<times> 64 word option) op" where
  "readInt48_nullable = readNullable loadBE_int48 (\<lambda>x. INT48_NULL \<noteq> x)"
definition readInt64_nullable :: "(reader, bool \<times> 64 word option) op" where
  "readInt64_nullable = readNullable loadBE_next (\<lambda>x. INT64_NULL \<noteq> x)"
definition readFloat64_nullable :: "(reader, bool \<times> 64 word option) op" where
  "readFloat64_nullable = readNullable getUInt64 (\<lambda>x. float64null = x)"
definition readFloat32_nullable :: "(reader, bool \<times> 32 word option) op" where
  "readFloat32_nullable = readNullable getUInt32 (\<lambda>x. float32null = x)"
definition readEnum8_nullable :: "(reader, bool \<times> 32 word option) op" where
  "readEnum8_nullable = readNullable (bnd loadBE_next (\<lambda>x :: 8 word. ret (scast x))) (\<lambda>x. x \<noteq> ENUM_NULL)"
definition readEnum16_nullable :: "(reader, bool \<times> 32 word option) op" where
  "readEnum16_nullable = readNullable (bnd loadBE_next (\<lambda>x :: 16 word. ret (scast x))) (\<lambda>x. x \<noteq> ENUM_NULL)"
definition readEnum32_nullable :: "(reader, bool \<times> 32 word option) op" where
  "readEnum32_nullable = readNullable loadBE_next (\<lambda>x. x \<noteq> ENUM_NULL)"
definition readEnum64_nullable :: "(reader, bool \<times> 64 word option) op" where
  "readEnum64_nullable = readNullable loadBE_next (\<lambda>x. x \<noteq> ENUM_NULL)"
definition readTimestamp_nullable :: "(reader, bool \<times> 64 word option) op" where
  "readTimestamp_nullable = readNullable readInt64 (\<lambda>x. TIMESTAMP_NULL \<noteq> x)"
definition readWChar_nullable :: "(reader, bool \<times> 32 word option) op" where
  "readWChar_nullable = readNullable (bnd getUInt16 (\<lambda>x. ret (ucast x))) (\<lambda>x. CHAR_NULL \<noteq> x)"
definition readNullableBoolean :: "(reader, bool \<times> bool option) op" where
  "readNullableBoolean =
     bnd (gets endOfContent) (\<lambda>e. if e then ret (False, None)
       else bnd getByte (\<lambda>x. ret (BOOL_NULL \<noteq> x, Some (x = 1))))"

definition skipField :: "(reader, nat) op \<Rightarrow> (reader, unit) op" where
  "skipField m = bnd (gets endOfContent) (\<lambda>e. if e then ret () else bnd m skip)"

definition skipInt8 :: "(reader, unit) op" where "skipInt8 = skipField (ret 1)"
definition skipInt16 :: "(reader, unit) op" where "skipInt16 = skipField (ret 2)"
definition skipInt32 :: "(reader, unit) op" where "skipInt32 = skipField (ret 4)"
definition skipInt48 :: "(reader, unit) op" where "skipInt48 = skipField (ret 6)"
definition skipInt64 :: "(reader, unit) op" where "skipInt64 = skipField (ret 8)"

section \<open>Packed integers\<close>

definition lowbytemask64LUT :: "64 word list" where
  "lowbytemask64LUT = [0, 0xFF, 0xFFFF, 0xFFFFFF, 0xFFFFFFFF, 0xFFFFFFFFFF, 0xFFFFFFFFFFFF, 0xFFFFFFFFFFFFFF, 0xFFFFFFFFFFFFFFFF]"

definition lowbytemask32LUT :: "32 word list" where
  "lowbytemask32LUT = [0, 0xFF, 0xFFFF, 0xFFFFFF, 0xFFFFFFFF]"

definition getPackedUInt61 :: "(reader, 64 word) op" where
  "getPackedUInt61 =
     bnd getByte (\<lambda>header.
     let numBytes = unat (drop_bit 5 header); val = ucast (header AND 0x1F)
     in bnd (loadLE_bytes numBytes) (\<lambda>x.
        ret (val OR push_bit 5 (x AND lowbytemask64LUT ! numBytes))))"

definition getPackedUInt30 :: "(reader, 32 word) op" where
  "getPackedUInt30 =
     bnd getByte (\<lambda>header.
     let numBytes = unat (drop_bit 6 header); val = ucast (header AND 0x3F)
     in bnd (loadLE_bytes numBytes) (\<lambda>x.
        ret (val OR push_bit 6 (x AND lowbytemask32LUT ! numBytes))))"

definition getPackedUInt22 :: "(reader, 32 word) op" where
  "getPackedUInt22 =
     bnd getByte (\<lambda>header.
     if header AND 0x80 = 0 then ret (ucast header)
     else (let numBytes = unat (drop_bit 6 header) - 1
           in bnd (loadLE_bytes numBytes) (\<lambda>x.
              ret (ucast (header AND 0x3F) OR push_bit 6 (x AND lowbytemask32LUT ! numBytes)))))"

text \<open>A one-byte header gives \<^verbatim>\<open>(size_t)-1\<close> here, so the read pointer moves back by one byte when
  the sum wraps around; a header of the form \<^verbatim>\<open>01xxxxxx\<close> skips nothing.\<close>

definition skip_wrapped :: "nat \<Rightarrow> (reader, unit) op" where
  "skip_wrapped n =
     bnd (gets rdataPtr) (\<lambda>p. bnd (gets rdataEnd) (\<lambda>e.
     let p' = (p + n) mod 2 ^ 64
     in andthen (modify (\<lambda>r. r\<lparr>rdataPtr := p'\<rparr>)) (if e < p' then onSkipBarrier p n else ret ())))"

definition skipPackedUInt22 :: "(reader, unit) op" where
  "skipPackedUInt22 =
     bnd getByte (\<lambda>header.
     skip_wrapped ((unat (drop_bit 6 header) + (2 ^ 64 - 1)) mod 2 ^ 64))"

definition readPUInt30 :: "(reader, 32 word) op" where
  "readPUInt30 = orNull UINT30_NULL (bnd getPackedUInt30 (\<lambda>v. ret (0x7FFFFFFF AND (v - 1))))"

definition readPUInt61 :: "(reader, 64 word) op" where
  "readPUInt61 = orNull UINT61_NULL (bnd getPackedUInt61 (\<lambda>v. ret (0x7FFFFFFFFFFFFFFF AND (v - 1))))"

definition readPUInt30_nullable :: "(reader, bool \<times> 32 word option) op" where
  "readPUInt30_nullable = readNullable readPUInt30 (\<lambda>x. UINT30_NULL \<noteq> x)"

definition readPUInt61_nullable :: "(reader, bool \<times> 64 word option) op" where
  "readPUInt61_nullable = readNullable readPUInt61 (\<lambda>x. UINT61_NULL \<noteq> x)"

definition skipPUInt61 :: "(reader, unit) op" where
  "skipPUInt61 = skipField (bnd getByte (\<lambda>h. ret (unat (drop_bit 5 h))))"

definition skipPUInt30 :: "(reader, unit) op" where
  "skipPUInt30 = skipField (bnd getByte (\<lambda>h. ret (unat (drop_bit 6 h))))"

section \<open>Intervals and compressed times\<close>

definition getInterval :: "(reader, 32 word) op" where
  "getInterval =
     bnd getByte (\<lambda>header.
     let x = (ucast (header AND 0x3F) :: 32 word); g = drop_bit 6 (ucast header :: 32 word)
     in if g = ig_code IG_SECONDS then ret (x * 1000)
        else if g = ig_code IG_MINUTES then ret (x * 60000)
        else if g = ig_code IG_HOURS then ret (x * 3600000)
        else if g = ig_code IG_OTHER then getUInt32
        else throw (LogicError ''getInterval() : This code should NEVER be called''))"

definition readInterval :: "(reader, 32 word) op" where
  "readInterval = orNull INTERVAL_NULL getInterval"

definition readInterval_nullable :: "(reader, bool \<times> 32 word option) op" where
  "readInterval_nullable = readNullable readInterval (\<lambda>x. INTERVAL_NULL \<noteq> x)"

definition skipInterval :: "(reader, unit) op" where
  "skipInterval = skipField (bnd getByte (\<lambda>h. ret (if 0xC0 = 0xC0 AND h then 4 else 0)))"

text \<open>\<^verbatim>\<open>BYTEMASK_L(n)\<close>, and the quotient of a signed constant by the template parameter.\<close>

definition BYTEMASK_L :: "nat \<Rightarrow> 64 word" where
  "BYTEMASK_L n = drop_bit (64 - 8 * n) (- 1)"

definition invalid_timestamp :: exn where
  "invalid_timestamp = RuntimeError ''getCompressedTimestamp() : Invalid timestamp data''"

text \<open>The template parameter \<open>N\<close> is 1 or \<open>10 ^ 6\<close>. The seconds are shifted in 32 bits, the
  nanoseconds are divided as unsigned 64-bit numbers.\<close>

definition getCompressedNanoTimeDividedBy :: "64 word \<Rightarrow> (reader, 64 word) op" where
  "getCompressedNanoTimeDividedBy N =
     bnd getByte (\<lambda>header.
     let lowBits = (ucast (header AND 0x1F) :: 64 word);
         g = unat (drop_bit 5 header);
         base = (if N = 1 then COMPRESSED_TIMESTAMP_BASE_NS else COMPRESSED_TIMESTAMP_BASE_MS)
     in if g = tg_code TG_MILLIS then
          bnd (loadLE_bytes 5) (\<lambda>x :: 64 word.
          ret ((push_bit 5 (x AND BYTEMASK_L 5) + lowBits) * (1000000 div N) + base))
        else if g = tg_code TG_SECONDS then
          bnd (loadLE_bytes 4) (\<lambda>x :: 32 word.
          ret ((ucast (push_bit 5 x) + lowBits) * (1000000000 div N) + base))
        else if g = tg_code TG_TEN_SECONDS then
          bnd (loadLE_bytes 3) (\<lambda>x :: 32 word.
          ret ((push_bit 5 (ucast x AND BYTEMASK_L 3) + lowBits) * (10000000000 div N) + base))
        else if g = tg_code TG_HOURS then
          bnd (loadLE_bytes 2) (\<lambda>x :: 16 word.
          ret ((push_bit 5 (ucast x) + lowBits) * (3600000000000 div N) + base))
        else if g = tg_code TG_NANOS then
          bnd (loadLE_bytes 7) (\<lambda>x.
          ret (((push_bit 5 (x AND BYTEMASK_L 7) + lowBits) + COMPRESSED_TIMESTAMP_BASE_MS) div N))
        else if g = tg_code TG_LONG_NANOS then
          bnd (loadLE_bytes 8) (\<lambda>x.
          ret (((push_bit 5 x + lowBits) + COMPRESSED_TIMESTAMP_BASE_MS) div N))
        else if g = tg_code TG_SPECIAL \<and> lowBits = 0 then ret TIMESTAMP_NULL
        else throw invalid_timestamp)"

definition readDateTimeNs :: "(reader, 64 word) op" where
  "readDateTimeNs = orNull TIMESTAMP_NULL (getCompressedNanoTimeDividedBy 1)"

definition readDateTimeMs :: "(reader, 64 word) op" where
  "readDateTimeMs = orNull TIMESTAMP_NULL (getCompressedNanoTimeDividedBy TIME_NANOS_PER_MILLISECOND)"

definition skipDateTime :: "(reader, unit) op" where
  "skipDateTime =
     bnd (gets endOfContent) (\<lambda>e. if e then ret ()
     else bnd getByte (\<lambda>header.
       let g = unat (drop_bit 5 header)
       in andthen (skip (compressed_timestamp_size ! g))
          (if g = tg_code TG_INVALID \<or> (g = tg_code TG_SPECIAL \<and> header \<noteq> timestamp_header TG_SPECIAL)
           then throw invalid_timestamp else ret ())))"

section \<open>Decoding what was encoded\<close>

text \<open>\<open>reads\<close>: on pending bytes that start with \<open>bs\<close> the operation returns \<open>x\<close> and leaves the rest.\<close>

definition reads :: "(reader \<Rightarrow> bool) \<Rightarrow> (reader \<Rightarrow> byte list) \<Rightarrow> (reader, 'a) op \<Rightarrow> byte list \<Rightarrow> 'a \<Rightarrow> bool" where
  "reads ok pend m bs x \<longleftrightarrow>
     (\<forall>r rest. ok r \<and> pend r = bs @ rest \<longrightarrow> (\<exists>r'. m r = (Inr x, r') \<and> pend r' = rest \<and> ok r'))"

lemma readsD: "reads ok pend m bs x \<Longrightarrow> ok r \<Longrightarrow> pend r = bs @ rest \<Longrightarrow>
    \<exists>r'. m r = (Inr x, r') \<and> pend r' = rest \<and> ok r'"
  by (simp add: reads_def)

lemma reads_ret [simp]: "reads ok pend (ret x) [] x"
  by (simp add: reads_def)

lemma reads_bnd:
  assumes "reads ok pend m bs x" "reads ok pend (f x) cs y"
  shows "reads ok pend (bnd m f) (bs @ cs) y"
  unfolding reads_def
proof (intro allI impI)
  fix r rest assume "ok r \<and> pend r = (bs @ cs) @ rest"
  then obtain r' where "m r = (Inr x, r')" "pend r' = cs @ rest" "ok r'"
    using readsD [OF assms(1), of r "cs @ rest"] by auto
  moreover from this obtain r'' where "f x r' = (Inr y, r'')" "pend r'' = rest" "ok r''"
    using readsD [OF assms(2), of r' rest] by auto
  ultimately show "\<exists>r'. bnd m f r = (Inr y, r') \<and> pend r' = rest \<and> ok r'" by (simp add: bnd_ok)
qed

lemma reads_bnd_Cons: "reads ok pend m [b] x \<Longrightarrow> reads ok pend (f x) cs y \<Longrightarrow> reads ok pend (bnd m f) (b # cs) y"
  using reads_bnd [of ok pend m "[b]" x f cs y] by simp

lemma reads_bnd_ret: "reads ok pend m bs x \<Longrightarrow> reads ok pend (bnd m (\<lambda>x. ret (g x))) bs (g x)"
  using reads_bnd [of ok pend m bs x "\<lambda>x. ret (g x)" "[]"] by simp

text \<open>The low bytes of a little-endian load do not depend on the memory behind them.\<close>

lemma le_word_take:
  assumes "n \<le> length bs"
  shows "take_bit (8 * n) (le_word bs :: 'a::len word) = le_word (take n bs)"
proof (rule bit_word_eqI)
  fix k
  have "k < 8 * n \<longleftrightarrow> k div 8 < n" by (simp add: div_less_iff_less_mult mult.commute)
  then show "bit (take_bit (8 * n) (le_word bs :: 'a word)) k = bit (le_word (take n bs) :: 'a word) k"
    using assms by (auto simp: bit_take_bit_iff bit_le_word)
qed

lemma be_word_high:
  assumes "length bs = LENGTH('a) div 8" "n \<le> length bs" "8 dvd LENGTH('a::len)"
  shows "drop_bit (LENGTH('a) - 8 * n) (be_word bs :: 'a word) = be_word (take n bs)"
proof (rule bit_word_eqI)
  fix k assume k: "k < LENGTH('a)"
  let ?m = "LENGTH('a) div 8"
  have m: "LENGTH('a) = 8 * ?m" "length bs = ?m" "n \<le> ?m" using assms by auto
  have "(LENGTH('a) - 8 * n + k) div 8 = ?m - n + k div 8" "(LENGTH('a) - 8 * n + k) mod 8 = k mod 8"
  proof -
    have "8 * (?m - n) = LENGTH('a) - 8 * n" using m(1) by (simp only: diff_mult_distrib2)
    then have e: "LENGTH('a) - 8 * n + k = k + 8 * (?m - n)" by simp
    show "(LENGTH('a) - 8 * n + k) div 8 = ?m - n + k div 8" "(LENGTH('a) - 8 * n + k) mod 8 = k mod 8"
      unfolding e by simp_all
  qed
  moreover have "rev bs ! (?m - n + k div 8) = rev (take n bs) ! (k div 8)" if "k div 8 < n"
    using m that by (simp add: rev_nth)
  moreover have "LENGTH('a) - 8 * n + k < LENGTH('a) \<longleftrightarrow> k div 8 < n"
  proof -
    have "LENGTH('a) - 8 * n + k < LENGTH('a) \<longleftrightarrow> k < 8 * n" using m by linarith
    also have "\<dots> \<longleftrightarrow> k div 8 < n" by (simp add: div_less_iff_less_mult mult.commute)
    finally show ?thesis .
  qed
  moreover have "?m - n + k div 8 < ?m \<longleftrightarrow> k div 8 < n" using m by linarith
  ultimately show "bit (drop_bit (LENGTH('a) - 8 * n) (be_word bs :: 'a word)) k = bit (be_word (take n bs) :: 'a word) k"
    using k m(2,3) by (cases "k div 8 < n")
      (simp_all only: bit_drop_bit_eq comp_apply bit_le_word be_word_def length_rev length_take min.absorb2 simp_thms)
qed

context byte_source begin

lemma reads_bytes:
  assumes "length bs = n" "n \<le> READ_BUFFER_SIZE" "\<And>m p. load_bytes m p n = bs \<Longrightarrow> f m p = x"
  shows "reads inv pend (bnd (bytes n) (\<lambda>p. gets (\<lambda>r. f (rmem r) p))) bs x"
  unfolding reads_def
proof (intro allI impI)
  fix r rest assume a: "inv r \<and> pend r = bs @ rest"
  then obtain p r' where r': "bytes n r = (Inr p, r')" "load_bytes (rmem r') p n = bs" "pend r' = rest" "inv r'"
    using bytes_enough [of r n] assms(1,2) by auto
  then show "\<exists>r'. bnd (bytes n) (\<lambda>p. gets (\<lambda>r. f (rmem r) p)) r = (Inr x, r') \<and> pend r' = rest \<and> inv r'"
    using assms(3) [OF r'(2)] by (simp add: bnd_ok)
qed

lemma reads_loadBE:
  assumes "length bs = LENGTH('a) div 8" "8 dvd LENGTH('a::len)" "LENGTH('a) \<le> 64"
  shows "reads inv pend (loadBE_next :: (reader, 'a word) op) bs (be_word bs)"
  unfolding loadBE_next_def
  by (rule reads_bytes) (use assms in \<open>auto simp: loadBE_be_word READ_BUFFER_SIZE_def\<close>)

lemma reads_getByte: "reads inv pend getByte [b] b"
  using reads_loadBE [of "[b]", where ?'a = 8] by (simp add: getByte_def be_word_def)

lemma reads_loadBE_bits:
  assumes "length bs = n" "0 < n" "n \<le> 8"
  shows "reads inv pend (bnd (bytes n) (\<lambda>p. gets (\<lambda>r. drop_bit (64 - 8 * n) (loadBE (rmem r) p :: 64 word))))
           bs (be_word bs)"
proof (rule reads_bytes)
  fix m p assume l: "load_bytes m p n = bs"
  have "(loadBE m p :: 64 word) = be_word (load_bytes m p 8)" by (simp add: loadBE_be_word)
  moreover have "take n (load_bytes m p 8) = bs" using l assms by simp
  ultimately show "drop_bit (64 - 8 * n) (loadBE m p :: 64 word) = be_word bs"
    using be_word_high [of "load_bytes m p 8" n, where ?'a = 64] assms by simp
qed (use assms in \<open>auto simp: READ_BUFFER_SIZE_def\<close>)

lemma reads_loadLE:
  assumes "length bs = n" "n \<le> LENGTH('a) div 8" "LENGTH('a::len) \<le> 64"
    and "\<And>x :: 'a word. take_bit (8 * n) x = le_word bs \<Longrightarrow> g x = y"
  shows "reads inv pend (bnd (loadLE_bytes n) (\<lambda>x. ret (g x))) bs y"
proof -
  have "bnd (loadLE_bytes n) (\<lambda>x. ret (g x)) = bnd (bytes n) (\<lambda>p. gets (\<lambda>r. g (loadLE (rmem r) p)))"
    by (rule ext) (simp add: loadLE_bytes_def bnd_def split: prod.splits sum.splits)
  moreover have "reads inv pend (bnd (bytes n) (\<lambda>p. gets (\<lambda>r. g (loadLE (rmem r) p)))) bs y"
  proof (rule reads_bytes)
    fix m p assume l: "load_bytes m p n = bs"
    have "take n (load_bytes m p (LENGTH('a) div 8)) = bs" using l assms(2) by simp
    then have "take_bit (8 * n) (loadLE m p :: 'a word) = le_word bs"
      unfolding loadLE_def using assms(2) by (subst le_word_take) auto
    then show "g (loadLE m p) = y" by (rule assms(4))
  qed (use assms in \<open>auto simp: READ_BUFFER_SIZE_def\<close>)
  ultimately show ?thesis by simp
qed

text \<open>A decoder of a field that has at least one byte does not take the null branch.\<close>

lemma reads_orNull:
  assumes "reads inv pend m bs x" "bs \<noteq> []"
  shows "reads inv pend (orNull null m) bs x"
  unfolding reads_def
proof (intro allI impI)
  fix r rest assume a: "inv r \<and> pend r = bs @ rest"
  then have "\<not> endOfContent r" using pending_not_end [of r] assms(2) by auto
  then show "\<exists>r'. orNull null m r = (Inr x, r') \<and> pend r' = rest \<and> inv r'"
    using readsD [OF assms(1), of r rest] a by (simp add: orNull_def bnd_def)
qed

lemma reads_nullable:
  assumes "reads inv pend m bs x" "bs \<noteq> []"
  shows "reads inv pend (readNullable m notNull) bs (notNull x, Some x)"
  unfolding reads_def
proof (intro allI impI)
  fix r rest assume a: "inv r \<and> pend r = bs @ rest"
  then have "\<not> endOfContent r" using pending_not_end [of r] assms(2) by auto
  then show "\<exists>r'. readNullable m notNull r = (Inr (notNull x, Some x), r') \<and> pend r' = rest \<and> inv r'"
    using readsD [OF assms(1), of r rest] a by (auto simp: readNullable_def bnd_def)
qed

end

text \<open>A field beyond the end of the content is null and nothing is consumed.\<close>

lemma orNull_at_end: "endOfContent r \<Longrightarrow> orNull null m r = (Inr null, r)"
  by (simp add: orNull_def bnd_def)

end
