(* ===== verification/DataWriter.thy ===== *)
theory DataWriter
  imports Protocol
begin

text \<open>
  The message writer: \<^verbatim>\<open>DxApi::DataWriter\<close> (\<^verbatim>\<open>include/native/dxapi/data_writer.h\<close>) and
  \<^verbatim>\<open>DataWriterInternal\<close> (\<^verbatim>\<open>tickdb/data_writer_impl.h\<close>, \<^verbatim>\<open>tickdb/data_writer.cpp\<close>). The state
  is the object's fields with the buffer's memory; every method is an operation that returns
  or throws and leaves a state. \<open>grows\<close> says which bytes an operation appended; \<open>emits\<close>
  says that an operation appends these bytes when they fit and throws otherwise, and that it
  writes nowhere before its start and nowhere beyond the guard area behind \<^verbatim>\<open>dataEnd\<close>.
\<close>

section \<open>State\<close>

record expansion_point =
  blockOffset :: "32 word"
  headerLength :: "32 word"

record writer =
  wmem :: memory
  bufferAllocPtr :: nat
  bufferStart :: nat
  dataPtr :: nat
  dataEnd :: nat
  dataEndNotNull :: nat
  headerSize :: nat
  depth :: nat
  containerHeader :: "nat list"
  containerIsArray :: "bool list"
  containerContentsExtraSize :: "32 word list"
  expansionPoints :: "expansion_point list"

definition setBuffer :: "nat \<Rightarrow> nat \<Rightarrow> nat \<Rightarrow> (writer, unit) op" where
  "setBuffer allocPtr startPtr endPtr =
     modify (\<lambda>w. w\<lparr>bufferAllocPtr := allocPtr, bufferStart := startPtr, dataEnd := endPtr\<rparr>)"

definition remaining :: "writer \<Rightarrow> nat" where
  "remaining w = dataEnd w - dataPtr w"

definition dataSize :: "writer \<Rightarrow> nat" where
  "dataSize w = dataPtr w - bufferStart w"

definition nestingDepth :: "writer \<Rightarrow> nat" where
  "nestingDepth w = depth w"

definition resetPointer :: "(writer, unit) op" where
  "resetPointer = modify (\<lambda>w. w\<lparr>dataPtr := bufferStart w\<rparr>)"

section \<open>Low level puts\<close>

definition overflow :: exn where
  "overflow = RuntimeError ''Buffer overflow while writing a message''"

definition onOverflow :: "(writer, 'a) op" where
  "onOverflow = throw overflow"

definition checkOverflow :: "(writer, unit) op" where
  "checkOverflow = bnd (gets (\<lambda>w. dataEnd w < dataPtr w)) (\<lambda>b. if b then onOverflow else ret ())"

definition putBE :: "'a::len word \<Rightarrow> nat \<Rightarrow> (writer, unit) op" where
  "putBE value sz = seqs
     [modify (\<lambda>w. w\<lparr>wmem := storeBE (dataPtr w) value (wmem w), dataPtr := dataPtr w + sz\<rparr>),
      checkOverflow]"

definition putLE :: "'a::len word \<Rightarrow> nat \<Rightarrow> (writer, unit) op" where
  "putLE value sz = seqs
     [modify (\<lambda>w. w\<lparr>wmem := storeLE (dataPtr w) value (wmem w), dataPtr := dataPtr w + sz\<rparr>),
      checkOverflow]"

text \<open>The copy of the part that fits has a negative length when \<^verbatim>\<open>dataPtr\<close> is already behind
  \<^verbatim>\<open>dataEnd\<close>, which only an operation that went on after an overflow could see.\<close>

definition putBytes :: "byte list \<Rightarrow> (writer, unit) op" where
  "putBytes data =
     bnd (gets dataPtr) (\<lambda>p. bnd (gets dataEnd) (\<lambda>e.
     andthen (modify (\<lambda>w. w\<lparr>dataPtr := p + length data\<rparr>))
     (if e < p + length data
      then if e < p then throw (Undefined ''memcpy'')
           else andthen (modify (\<lambda>w. w\<lparr>wmem := store_bytes p (take (e - p) data) (wmem w)\<rparr>)) onOverflow
      else modify (\<lambda>w. w\<lparr>wmem := store_bytes p data (wmem w)\<rparr>))))"

definition advance :: "nat \<Rightarrow> (writer, unit) op" where
  "advance amount = seqs [modify (\<lambda>w. w\<lparr>dataPtr := dataPtr w + amount\<rparr>), checkOverflow]"

definition putByte :: "8 word \<Rightarrow> (writer, unit) op" where "putByte value = putBE value 1"
definition putUInt16 :: "16 word \<Rightarrow> (writer, unit) op" where "putUInt16 value = putBE value 2"
definition putUInt32 :: "32 word \<Rightarrow> (writer, unit) op" where "putUInt32 value = putBE value 4"
definition putUInt64 :: "64 word \<Rightarrow> (writer, unit) op" where "putUInt64 value = putBE value 8"
definition putFloat64 :: "64 word \<Rightarrow> (writer, unit) op" where "putFloat64 value = putBE value 8"
definition putFloat32 :: "32 word \<Rightarrow> (writer, unit) op" where "putFloat32 value = putBE value 4"

definition checkNull :: "bool \<Rightarrow> (writer, unit) op" where
  "checkNull isNull = modify (\<lambda>w. w\<lparr>dataEndNotNull := if isNull then dataEndNotNull w else dataPtr w\<rparr>)"

definition setNotNull :: "(writer, unit) op" where
  "setNotNull = modify (\<lambda>w. w\<lparr>dataEndNotNull := dataPtr w\<rparr>)"

definition wroteNull :: "(writer, unit) op" where
  "wroteNull = ret ()"

section \<open>Fixed size fields\<close>

definition writeByte :: "8 word \<Rightarrow> (writer, unit) op" where
  "writeByte value = putByte value"
definition writeInt8 :: "8 word \<Rightarrow> (writer, unit) op" where
  "writeInt8 value = seqs [putByte value, checkNull (INT8_NULL = value)]"
definition writeUInt16 :: "16 word \<Rightarrow> (writer, unit) op" where
  "writeUInt16 value = putUInt16 value"
definition writeInt16 :: "16 word \<Rightarrow> (writer, unit) op" where
  "writeInt16 value = seqs [putUInt16 value, checkNull (INT16_NULL = value)]"
definition writeUInt32 :: "32 word \<Rightarrow> (writer, unit) op" where
  "writeUInt32 value = putUInt32 value"
definition writeInt32 :: "32 word \<Rightarrow> (writer, unit) op" where
  "writeInt32 value = seqs [putUInt32 value, checkNull (INT32_NULL = value)]"
definition writeUInt40 :: "64 word \<Rightarrow> (writer, unit) op" where
  "writeUInt40 value = putBE (push_bit 24 value) 5"
definition writeInt48 :: "64 word \<Rightarrow> (writer, unit) op" where
  "writeInt48 value = seqs [putBE (push_bit 16 value) 6, checkNull (INT48_NULL = value)]"
definition writeUInt64 :: "64 word \<Rightarrow> (writer, unit) op" where
  "writeUInt64 value = putUInt64 value"
definition writeInt64 :: "64 word \<Rightarrow> (writer, unit) op" where
  "writeInt64 value = seqs [putUInt64 value, checkNull (INT64_NULL = value)]"
definition writeFloat64 :: "64 word \<Rightarrow> (writer, unit) op" where
  "writeFloat64 value = seqs [putFloat64 value, checkNull (isnan64 value)]"
definition writeFloat32 :: "32 word \<Rightarrow> (writer, unit) op" where
  "writeFloat32 value = seqs [putFloat32 value, checkNull (isnan32 value)]"
definition writeTimestamp :: "64 word \<Rightarrow> (writer, unit) op" where
  "writeTimestamp value = seqs [putUInt64 value, checkNull (TIMESTAMP_NULL = value)]"
definition writeTimeOfDay :: "32 word \<Rightarrow> (writer, unit) op" where
  "writeTimeOfDay value = seqs [putUInt32 value, checkNull (TIMEOFDAY_NULL = value)]"
definition writeEnum8 :: "32 word \<Rightarrow> (writer, unit) op" where
  "writeEnum8 value = seqs [putByte (ucast value), checkNull (ENUM_NULL = value)]"
definition writeEnum16 :: "32 word \<Rightarrow> (writer, unit) op" where
  "writeEnum16 value = seqs [putUInt16 (ucast value), checkNull (ENUM_NULL = value)]"
definition writeEnum32 :: "32 word \<Rightarrow> (writer, unit) op" where
  "writeEnum32 value = seqs [putUInt32 value, checkNull (ENUM_NULL = value)]"
definition writeEnum64 :: "64 word \<Rightarrow> (writer, unit) op" where
  "writeEnum64 value = seqs [putUInt64 value, checkNull (ENUM_NULL = value)]"
definition writeBoolean :: "bool \<Rightarrow> (writer, unit) op" where
  "writeBoolean value = seqs [putByte (of_bool value), setNotNull]"
definition writeWChar :: "'a::len word \<Rightarrow> (writer, unit) op" where
  "writeWChar value = seqs [putUInt16 (ucast value), checkNull (CHAR_NULL = value)]"
definition writeBinaryArrayNull :: "(writer, unit) op" where
  "writeBinaryArrayNull = seqs [putByte 1, wroteNull]"
definition writeArrayNull :: "(writer, unit) op" where
  "writeArrayNull = seqs [putByte 0, wroteNull]"
definition writeObjectNull :: "(writer, unit) op" where
  "writeObjectNull = seqs [putByte 0, wroteNull]"

text \<open>The overloads with an explicit null flag.\<close>

definition writeInt8_nullable :: "8 word \<Rightarrow> bool \<Rightarrow> (writer, unit) op" where
  "writeInt8_nullable value isNull =
     seqs [putByte (if isNull then INT8_NULL else value), checkNull isNull]"
definition writeInt16_nullable :: "16 word \<Rightarrow> bool \<Rightarrow> (writer, unit) op" where
  "writeInt16_nullable value isNull =
     seqs [putUInt16 (if isNull then INT16_NULL else value), checkNull isNull]"
definition writeInt32_nullable :: "32 word \<Rightarrow> bool \<Rightarrow> (writer, unit) op" where
  "writeInt32_nullable value isNull =
     seqs [putUInt32 (if isNull then INT32_NULL else value), checkNull isNull]"
definition writeInt48_nullable :: "64 word \<Rightarrow> bool \<Rightarrow> (writer, unit) op" where
  "writeInt48_nullable value isNull =
     seqs [putBE (if isNull then push_bit 16 INT48_NULL else push_bit 16 value) 6, checkNull isNull]"
definition writeInt64_nullable :: "64 word \<Rightarrow> bool \<Rightarrow> (writer, unit) op" where
  "writeInt64_nullable value isNull =
     seqs [putBE (if isNull then INT64_NULL else value) 8, checkNull isNull]"
definition writeFloat64_nullable :: "64 word \<Rightarrow> bool \<Rightarrow> (writer, unit) op" where
  "writeFloat64_nullable value isNull =
     seqs [putBE (if isNull then float64null else value) 8, checkNull isNull]"
definition writeFloat32_nullable :: "32 word \<Rightarrow> bool \<Rightarrow> (writer, unit) op" where
  "writeFloat32_nullable value isNull =
     seqs [putBE (if isNull then float32null else value) 4, checkNull isNull]"
definition writeEnum8_nullable :: "32 word \<Rightarrow> bool \<Rightarrow> (writer, unit) op" where
  "writeEnum8_nullable value isNull =
     seqs [putByte (if isNull then ENUM_NULL else ucast value), checkNull isNull]"
definition writeEnum16_nullable :: "32 word \<Rightarrow> bool \<Rightarrow> (writer, unit) op" where
  "writeEnum16_nullable value isNull =
     seqs [putUInt16 (if isNull then ENUM_NULL else ucast value), checkNull isNull]"
definition writeEnum32_nullable :: "32 word \<Rightarrow> bool \<Rightarrow> (writer, unit) op" where
  "writeEnum32_nullable value isNull =
     seqs [putUInt32 (if isNull then ENUM_NULL else value), checkNull isNull]"
definition writeEnum64_nullable :: "64 word \<Rightarrow> bool \<Rightarrow> (writer, unit) op" where
  "writeEnum64_nullable value isNull =
     seqs [putUInt64 (if isNull then ENUM_NULL else value), checkNull isNull]"
definition writeTimestamp_nullable :: "64 word \<Rightarrow> bool \<Rightarrow> (writer, unit) op" where
  "writeTimestamp_nullable value isNull =
     seqs [putUInt64 (if isNull then TIMESTAMP_NULL else value), checkNull isNull]"
definition writeNullableBoolean :: "bool \<Rightarrow> bool \<Rightarrow> (writer, unit) op" where
  "writeNullableBoolean value isNull =
     seqs [putByte (if isNull then BOOL_NULL else of_bool value), checkNull isNull]"
definition writeWChar_nullable :: "'a::len word \<Rightarrow> bool \<Rightarrow> (writer, unit) op" where
  "writeWChar_nullable value isNull =
     seqs [putUInt16 (if isNull then CHAR_NULL else ucast value), checkNull isNull]"

section \<open>Variable length integers\<close>

text \<open>The three versions of \<^verbatim>\<open>writeVariableLengthInt\<close>; they return the header's address and the
  number of bytes behind it. The third one is compiled on 64-bit platforms.\<close>

function vli_store_loop :: "nat \<Rightarrow> memory \<Rightarrow> nat \<Rightarrow> nat \<times> memory" where
  "vli_store_loop value m wp =
     (if value = 0 then (wp, m)
      else vli_store_loop (value div 256) (store_bytes (wp + 1) [of_nat value] m) (wp + 1))"
  by pat_completeness auto
termination
  by (relation "measure (\<lambda>(value, m, wp). value)") auto

declare vli_store_loop.simps [simp del]

definition writeVariableLengthInt_v1 :: "'a::len word \<Rightarrow> (writer, nat \<times> nat) op" where
  "writeVariableLengthInt_v1 value =
     bnd (gets dataPtr) (\<lambda>headerPtr.
     bnd (gets (\<lambda>w. vli_store_loop (unat value) (store_bytes headerPtr [0] (wmem w)) headerPtr)) (\<lambda>(wp, m).
     andthen (modify (\<lambda>w. w\<lparr>wmem := m, dataPtr := wp + 1\<rparr>))
     (andthen checkOverflow (ret (headerPtr, wp - headerPtr)))))"

fun vli_length_loop :: "nat \<Rightarrow> nat \<Rightarrow> nat" where
  "vli_length_loop value len = (if value = 0 then len else vli_length_loop (value div 256) (len + 1))"

declare vli_length_loop.simps [simp del]

definition writeVariableLengthInt_v2 :: "'a::len word \<Rightarrow> (writer, nat \<times> nat) op" where
  "writeVariableLengthInt_v2 value =
     bnd (gets dataPtr) (\<lambda>headerPtr.
     andthen (modify (\<lambda>w. w\<lparr>wmem := storeLE (headerPtr + 1) value (store_bytes headerPtr [0] (wmem w))\<rparr>))
     (let len = vli_length_loop (unat value) 0
      in andthen (modify (\<lambda>w. w\<lparr>dataPtr := headerPtr + len + 1\<rparr>))
         (andthen checkOverflow (ret (headerPtr, len)))))"

definition writeVariableLengthInt :: "'a::len word \<Rightarrow> (writer, nat \<times> nat) op" where
  "writeVariableLengthInt value =
     bnd (gets dataPtr) (\<lambda>headerPtr.
     andthen (modify (\<lambda>w. w\<lparr>wmem := storeLE (headerPtr + 1) value (store_bytes headerPtr [0] (wmem w))\<rparr>))
     (let len = (bsr value + 7) div 8
      in andthen (modify (\<lambda>w. w\<lparr>dataPtr := headerPtr + len + 1\<rparr>))
         (andthen checkOverflow (ret (headerPtr, len)))))"

definition patchByte :: "nat \<Rightarrow> byte \<Rightarrow> (writer, unit) op" where
  "patchByte p b = modify (\<lambda>w. w\<lparr>wmem := storeBE p b (wmem w)\<rparr>)"

definition writePackedUInt :: "'a::len word \<Rightarrow> (writer, unit) op" where
  "writePackedUInt value =
     (let scale = 0x100 div wbytes value;
          lowBits = value AND (of_nat scale - 1)
      in bnd (writeVariableLengthInt (value div of_nat scale)) (\<lambda>(headerPtr, numBytes).
         patchByte headerPtr (ucast (lowBits OR of_nat (numBytes * scale)))))"

definition writePackedUInt22 :: "32 word \<Rightarrow> (writer, unit) op" where
  "writePackedUInt22 value =
     (if value < 0x80 then putBE (ucast value :: 8 word) 1
      else
        (let lowBits = value AND 0x3F
         in bnd (writeVariableLengthInt (drop_bit 6 value)) (\<lambda>(headerPtr, numBytes).
            patchByte headerPtr (ucast (lowBits + 0x40 + push_bit 6 (of_nat numBytes))))))"

definition writePUInt30 :: "32 word \<Rightarrow> (writer, unit) op" where
  "writePUInt30 value =
     (if UINT30_NULL = value then putByte 0
      else seqs [guard (\<not> (2 ^ 30 - 2 < value)) (RuntimeError ''putUInt30() : Number is too big''),
                 writePackedUInt (value + 1), setNotNull])"

definition writePUInt61 :: "64 word \<Rightarrow> (writer, unit) op" where
  "writePUInt61 value =
     (if UINT61_NULL = value then putByte 0
      else seqs [guard (\<not> (2 ^ 61 - 2 < value)) (RuntimeError ''putUInt61() : Number is too big''),
                 writePackedUInt (value + 1), setNotNull])"

definition writePUInt30_nullable :: "32 word \<Rightarrow> bool \<Rightarrow> (writer, unit) op" where
  "writePUInt30_nullable value isNull =
     seqs [writePUInt30 (if isNull then UINT30_NULL else value), checkNull isNull]"

definition writePUInt61_nullable :: "64 word \<Rightarrow> bool \<Rightarrow> (writer, unit) op" where
  "writePUInt61_nullable value isNull =
     seqs [writePUInt61 (if isNull then UINT61_NULL else value), checkNull isNull]"

section \<open>What an operation appends\<close>

text \<open>The guard area: the stores of a put are at most 9 bytes wide and start no later than
  \<^verbatim>\<open>dataEnd\<close>.\<close>

definition guard_area :: nat where
  "guard_area = 9"

text \<open>\<open>same_frame\<close>: only memory between the old write pointer and the guard's end, the write
  pointer and the not-null mark may differ.\<close>

definition same_frame :: "writer \<Rightarrow> writer \<Rightarrow> bool" where
  "same_frame w w' \<longleftrightarrow>
     (\<exists>m p e. w' = w\<lparr>wmem := m, dataPtr := p, dataEndNotNull := e\<rparr> \<and>
        dataPtr w \<le> p \<and>
        (\<forall>i. i < dataPtr w \<or> dataEnd w + guard_area \<le> i \<longrightarrow> m i = wmem w i))"

definition grows :: "writer \<Rightarrow> byte list \<Rightarrow> writer \<Rightarrow> bool" where
  "grows w bs w' \<longleftrightarrow>
     same_frame w w' \<and> dataPtr w' = dataPtr w + length bs \<and> dataPtr w' \<le> dataEnd w \<and>
     load_bytes (wmem w') (dataPtr w) (length bs) = bs"

definition emits :: "(writer, 'a) op \<Rightarrow> byte list \<Rightarrow> 'a \<Rightarrow> bool" where
  "emits m bs x \<longleftrightarrow>
     (\<forall>w. dataPtr w \<le> dataEnd w \<longrightarrow>
        (if dataPtr w + length bs \<le> dataEnd w
         then fst (m w) = Inr x \<and> grows w bs (snd (m w))
         else fst (m w) = Inl overflow \<and> same_frame w (snd (m w))))"

lemma same_frame_refl [simp]: "same_frame w w"
  unfolding same_frame_def by (rule exI [of _ "wmem w"], rule exI [of _ "dataPtr w"],
    rule exI [of _ "dataEndNotNull w"]) simp

lemma same_frameD:
  assumes "same_frame w w'"
  shows "bufferAllocPtr w' = bufferAllocPtr w" "bufferStart w' = bufferStart w" "dataEnd w' = dataEnd w"
    "headerSize w' = headerSize w" "depth w' = depth w" "containerHeader w' = containerHeader w"
    "containerIsArray w' = containerIsArray w"
    "containerContentsExtraSize w' = containerContentsExtraSize w"
    "expansionPoints w' = expansionPoints w" "dataPtr w \<le> dataPtr w'"
    "\<And>i. i < dataPtr w \<or> dataEnd w + guard_area \<le> i \<Longrightarrow> wmem w' i = wmem w i"
  using assms unfolding same_frame_def by auto

lemma same_frame_iff:
  "same_frame w w' \<longleftrightarrow>
     bufferAllocPtr w' = bufferAllocPtr w \<and> bufferStart w' = bufferStart w \<and> dataEnd w' = dataEnd w \<and>
     headerSize w' = headerSize w \<and> depth w' = depth w \<and> containerHeader w' = containerHeader w \<and>
     containerIsArray w' = containerIsArray w \<and>
     containerContentsExtraSize w' = containerContentsExtraSize w \<and>
     expansionPoints w' = expansionPoints w \<and> dataPtr w \<le> dataPtr w' \<and> writer.more w' = writer.more w \<and>
     (\<forall>i. i < dataPtr w \<or> dataEnd w + guard_area \<le> i \<longrightarrow> wmem w' i = wmem w i)"
  (is "?l \<longleftrightarrow> ?r")
proof
  assume ?l
  then show ?r unfolding same_frame_def by auto
next
  assume r: ?r
  then have "w' = w\<lparr>wmem := wmem w', dataPtr := dataPtr w', dataEndNotNull := dataEndNotNull w'\<rparr>"
    by (intro writer.equality) auto
  with r show ?l unfolding same_frame_def by blast
qed

lemma same_frame_trans: "same_frame w w' \<Longrightarrow> same_frame w' w'' \<Longrightarrow> same_frame w w''"
  unfolding same_frame_iff by auto

lemma growsD:
  assumes "grows w bs w'"
  shows "same_frame w w'" "dataPtr w' = dataPtr w + length bs" "dataPtr w' \<le> dataEnd w'"
    "dataEnd w' = dataEnd w" "load_bytes (wmem w') (dataPtr w) (length bs) = bs"
  using assms by (auto simp: grows_def dest: same_frameD)

lemma grows_trans:
  assumes "grows w bs w'" "grows w' cs w''"
  shows "grows w (bs @ cs) w''"
proof -
  note a = growsD [OF assms(1)] and b = growsD [OF assms(2)]
  have "load_bytes (wmem w'') (dataPtr w) (length bs) = load_bytes (wmem w') (dataPtr w) (length bs)"
    using same_frameD(11) [OF b(1)] a(2) by (intro load_bytes_cong) simp
  then have "load_bytes (wmem w'') (dataPtr w) (length bs + length cs) = bs @ cs"
    using a b by (simp add: load_bytes_append)
  then show ?thesis
    using a b same_frame_trans [OF a(1) b(1)] unfolding grows_def by simp
qed

text \<open>The bytes of the message under construction, from the buffer's start to the write pointer.\<close>

definition written :: "writer \<Rightarrow> byte list" where
  "written w = load_bytes (wmem w) (bufferStart w) (dataPtr w - bufferStart w)"

lemma grows_written:
  assumes "grows w bs w'" "bufferStart w \<le> dataPtr w"
  shows "written w' = written w @ bs"
proof -
  note a = growsD [OF assms(1)]
  let ?n = "dataPtr w - bufferStart w"
  have "\<forall>i < dataPtr w. wmem w' i = wmem w i" using same_frameD(11) [OF a(1)] by blast
  then have "load_bytes (wmem w') (bufferStart w) ?n = load_bytes (wmem w) (bufferStart w) ?n"
    using assms(2) by (intro load_bytes_cong) auto
  moreover have "dataPtr w' - bufferStart w' = ?n + length bs"
    using a same_frameD(2) [OF a(1)] assms(2) by simp
  ultimately have "written w' = written w @ load_bytes (wmem w') (bufferStart w + ?n) (length bs)"
    using same_frameD(2) [OF a(1)] by (simp only: written_def load_bytes_append)
  then show ?thesis using a(5) assms(2) by simp
qed

section \<open>Composition\<close>

lemma emitsD:
  assumes "emits m bs x" "dataPtr w \<le> dataEnd w"
  shows "dataPtr w + length bs \<le> dataEnd w \<Longrightarrow> \<exists>w'. m w = (Inr x, w') \<and> grows w bs w'"
    and "\<not> dataPtr w + length bs \<le> dataEnd w \<Longrightarrow> \<exists>w'. m w = (Inl overflow, w') \<and> same_frame w w'"
  using assms unfolding emits_def by (metis prod.collapse)+

lemma emits_bnd:
  assumes "emits m bs x" "emits (f x) cs y"
  shows "emits (bnd m f) (bs @ cs) y"
  unfolding emits_def
proof (intro allI impI)
  fix w :: writer assume w: "dataPtr w \<le> dataEnd w"
  show "if dataPtr w + length (bs @ cs) \<le> dataEnd w
        then fst (bnd m f w) = Inr y \<and> grows w (bs @ cs) (snd (bnd m f w))
        else fst (bnd m f w) = Inl overflow \<and> same_frame w (snd (bnd m f w))"
  proof (cases "dataPtr w + length bs \<le> dataEnd w")
    case True
    then obtain w' where w': "m w = (Inr x, w')" "grows w bs w'" using emitsD(1) [OF assms(1) w] by blast
    note g = growsD [OF w'(2)]
    show ?thesis
    proof (cases "dataPtr w' + length cs \<le> dataEnd w'")
      case True
      then obtain w'' where "f x w' = (Inr y, w'')" "grows w' cs w''"
        using emitsD(1) [OF assms(2) g(3)] by blast
      then show ?thesis using w' g True grows_trans [OF w'(2)] by (simp add: bnd_ok)
    next
      case False
      then obtain w'' where "f x w' = (Inl overflow, w'')" "same_frame w' w''"
        using emitsD(2) [OF assms(2) g(3)] by blast
      then show ?thesis using w' g False same_frame_trans [OF g(1)] by (simp add: bnd_ok)
    qed
  next
    case False
    then obtain w' where w': "m w = (Inl overflow, w')" "same_frame w w'"
      using emitsD(2) [OF assms(1) w] by blast
    then show ?thesis using False by (simp add: bnd_err)
  qed
qed

lemma emits_andthen: "emits m bs x \<Longrightarrow> emits n cs y \<Longrightarrow> emits (andthen m n) (bs @ cs) y"
  unfolding andthen_def by (rule emits_bnd)

lemma emits_ret [simp]: "emits (ret x) [] x"
  by (simp add: emits_def grows_def)

lemma emits_mark: "emits (modify (\<lambda>w. w\<lparr>dataEndNotNull := f w\<rparr>)) [] ()"
  unfolding emits_def by (auto simp: grows_def same_frame_iff)

lemma emits_checkNull [simp]: "emits (checkNull b) [] ()"
  unfolding checkNull_def by (rule emits_mark)

lemma emits_setNotNull [simp]: "emits setNotNull [] ()"
  unfolding setNotNull_def by (rule emits_mark)

lemma emits_marked: "emits m bs () \<Longrightarrow> emits (seqs [m, checkNull b]) bs ()"
  "emits m bs () \<Longrightarrow> emits (seqs [m, setNotNull]) bs ()"
  "emits m bs () \<Longrightarrow> emits (seqs [m, wroteNull]) bs ()"
  using emits_andthen [of m bs "()" _ "[]" "()"] by (simp_all add: wroteNull_def)

lemma emits_mapM:
  "(\<And>x. x \<in> set xs \<Longrightarrow> emits (f x) (g x) ()) \<Longrightarrow> emits (mapM f xs) (concat (map g xs)) ()"
  by (induction xs) (auto intro: emits_andthen)

text \<open>A store of at most nine bytes at the write pointer, of which the first few are kept.\<close>

lemma emits_store:
  assumes "length bs \<le> guard_area" "n \<le> length bs"
  shows "emits (seqs [modify (\<lambda>w. w\<lparr>wmem := store_bytes (dataPtr w) bs (wmem w), dataPtr := dataPtr w + n\<rparr>),
                      checkOverflow]) (take n bs) ()"
  unfolding emits_def
proof (intro allI impI)
  fix w :: writer assume w: "dataPtr w \<le> dataEnd w"
  let ?w = "w\<lparr>wmem := store_bytes (dataPtr w) bs (wmem w), dataPtr := dataPtr w + n\<rparr>"
  have "same_frame w ?w"
    using assms w by (auto simp: same_frame_iff store_bytes_outside)
  moreover have "load_bytes (wmem ?w) (dataPtr w) n = take n bs"
    using assms by (simp add: load_store_take)
  ultimately show "if dataPtr w + length (take n bs) \<le> dataEnd w
      then fst (seqs [modify (\<lambda>w. w\<lparr>wmem := store_bytes (dataPtr w) bs (wmem w), dataPtr := dataPtr w + n\<rparr>), checkOverflow] w) = Inr ()
         \<and> grows w (take n bs) (snd (seqs [modify (\<lambda>w. w\<lparr>wmem := store_bytes (dataPtr w) bs (wmem w), dataPtr := dataPtr w + n\<rparr>), checkOverflow] w))
      else fst (seqs [modify (\<lambda>w. w\<lparr>wmem := store_bytes (dataPtr w) bs (wmem w), dataPtr := dataPtr w + n\<rparr>), checkOverflow] w) = Inl overflow
         \<and> same_frame w (snd (seqs [modify (\<lambda>w. w\<lparr>wmem := store_bytes (dataPtr w) bs (wmem w), dataPtr := dataPtr w + n\<rparr>), checkOverflow] w))"
    using assms by (simp add: andthen_def bnd_def checkOverflow_def onOverflow_def grows_def)
qed

lemma emits_putBE:
  assumes "8 dvd LENGTH('a::len)" "n \<le> LENGTH('a) div 8" "LENGTH('a) div 8 \<le> 8"
  shows "emits (putBE (x :: 'a word) n) (take n (be_bytes (wbytes x) x)) ()"
  using emits_store [of "be_bytes (wbytes x) x" n] assms
  by (simp add: putBE_def storeBE_bytes guard_area_def)

lemma emits_putLE:
  assumes "n \<le> LENGTH('a) div 8" "LENGTH('a) div 8 \<le> 8"
  shows "emits (putLE (x :: 'a::len word) n) (take n (le_bytes (wbytes x) x)) ()"
  using emits_store [of "le_bytes (wbytes x) x" n] assms
  by (simp add: putLE_def storeLE_def guard_area_def)

lemma be_bytes_1: "be_bytes (Suc 0) (b :: byte) = [b]"
  by (simp add: be_bytes_def le_bytes_def)

lemma emits_putByte: "emits (putByte b) [b] ()"
  using emits_putBE [of 1 b] by (simp add: putByte_def be_bytes_1)

lemma emits_putUInt16: "emits (putUInt16 x) (be_bytes 2 x) ()"
  using emits_putBE [of 2 x] by (simp add: putUInt16_def)

lemma emits_putUInt32: "emits (putUInt32 x) (be_bytes 4 x) ()"
  using emits_putBE [of 4 x] by (simp add: putUInt32_def)

lemma emits_putUInt64: "emits (putUInt64 x) (be_bytes 8 x) ()"
  using emits_putBE [of 8 x] by (simp add: putUInt64_def)

lemmas emits_puts = emits_putByte emits_putUInt16 emits_putUInt32 emits_putUInt64

lemma emits_putBytes: "emits (putBytes bs) bs ()"
  unfolding emits_def
proof (intro allI impI)
  fix w :: writer assume w: "dataPtr w \<le> dataEnd w"
  show "if dataPtr w + length bs \<le> dataEnd w
        then fst (putBytes bs w) = Inr () \<and> grows w bs (snd (putBytes bs w))
        else fst (putBytes bs w) = Inl overflow \<and> same_frame w (snd (putBytes bs w))"
    using w by (auto simp: putBytes_def bnd_def andthen_def onOverflow_def grows_def same_frame_iff
        load_store_same store_bytes_outside)
qed

text \<open>A byte that was just written is patched in place.\<close>

lemma grows_patch:
  assumes "grows w (b # bs) w'"
  shows "\<exists>w''. patchByte (dataPtr w) c w' = (Inr (), w'') \<and> grows w (c # bs) w''"
proof -
  let ?w = "w'\<lparr>wmem := storeBE (dataPtr w) c (wmem w')\<rparr>"
  have st: "storeBE (dataPtr w) c (wmem w') = store_bytes (dataPtr w) [c] (wmem w')"
    by (simp add: storeBE_bytes be_bytes_1)
  note g = growsD [OF assms]
  have "load_bytes (wmem ?w) (dataPtr w) (Suc (length bs)) = c # load_bytes (wmem w') (Suc (dataPtr w)) (length bs)"
    by (simp add: st load_bytes_Suc load_store_above) (simp add: store_bytes_def)
  moreover have "load_bytes (wmem w') (Suc (dataPtr w)) (length bs) = bs"
    using g(5) by (simp add: load_bytes_Suc)
  moreover have "same_frame w ?w"
    using g by (auto simp: same_frame_iff st store_bytes_outside)
  ultimately have "grows w (c # bs) ?w" using g by (simp add: grows_def)
  then show ?thesis by (auto simp: patchByte_def)
qed

section \<open>Variable length integers append their significant bytes\<close>

text \<open>The significant bytes of a value, lowest first.\<close>

definition vli_bytes :: "'a::len word \<Rightarrow> byte list" where
  "vli_bytes v = le_bytes ((bsr v + 7) div 8) v"

definition vli_length :: "nat \<Rightarrow> nat" where
  "vli_length n = (bit_length n + 7) div 8"

lemma vli_length_0 [simp]: "vli_length 0 = 0"
  by (simp add: vli_length_def)

lemma bit_length_div2: "n \<noteq> 0 \<Longrightarrow> bit_length n = Suc (bit_length (n div 2))"
  by (subst bit_length.simps) simp

lemma bit_length_div256: "256 \<le> n \<Longrightarrow> bit_length n = 8 + bit_length (n div 256)"
proof -
  assume n: "256 \<le> n"
  have "bit_length (n div 2 ^ k) + k = bit_length n" if "k \<le> 8" for k
    using that
  proof (induction k)
    case (Suc k)
    have "(2::nat) ^ k < 2 ^ 8" using Suc.prems by (intro power_strict_increasing) auto
    then have "2 ^ k \<le> n" using n by simp
    then have "n div 2 ^ k \<noteq> 0" by (simp add: div_greater_zero_iff)
    from bit_length_div2 [OF this] Suc show ?case
      by (simp add: div_mult2_eq [symmetric] mult.commute)
  qed simp
  from this [of 8] show ?thesis by simp
qed

lemma vli_length_Suc: "n \<noteq> 0 \<Longrightarrow> vli_length n = Suc (vli_length (n div 256))"
proof (cases "n < 256")
  case True
  assume "n \<noteq> 0"
  then have "0 < bit_length n" by (simp add: bit_length_pos)
  moreover have "bit_length n \<le> 8" using True by (simp add: bit_length_le_iff)
  ultimately show ?thesis using True by (simp add: vli_length_def)
next
  case False
  then show ?thesis by (simp add: vli_length_def bit_length_div256)
qed

lemma vli_length_loop_eq: "vli_length_loop n len = len + vli_length n"
proof (induction n len rule: vli_length_loop.induct)
  case (1 n len)
  then show ?case using vli_length_Suc [of n] by (subst vli_length_loop.simps) auto
qed

lemma vli_length_le: "vli_length (unat (v :: 'a::len word)) \<le> (LENGTH('a) + 7) div 8"
  unfolding vli_length_def by (intro div_le_mono add_right_mono) (simp add: bit_length_le_iff)

lemma vli_length_bound: "n < 256 ^ k \<Longrightarrow> vli_length n \<le> k"
proof -
  assume "n < 256 ^ k"
  then have "n < 2 ^ (8 * k)" by (simp add: power_mult)
  then have "bit_length n \<le> 8 * k" by (simp add: bit_length_le_iff)
  then show ?thesis by (simp add: vli_length_def)
qed

lemma unat_less_vli: "unat v < 2 ^ (8 * vli_length (unat v))"
proof -
  have "bit_length (unat v) \<le> 8 * vli_length (unat v)" by (simp add: vli_length_def)
  then show ?thesis by (simp add: bit_length_le_iff)
qed

lemma vli_bytes_length: "length (vli_bytes v) = vli_length (unat v)"
  by (simp add: vli_bytes_def vli_length_def bsr_def)

lemma le_word_vli_bytes: "le_word (vli_bytes v) = v"
proof -
  have "take_bit (8 * vli_length (unat v)) v = v"
    using unat_less_vli [of v]
    by (metis take_bit_nat_eq_self unsigned_take_bit_eq word_unat_eq_iff)
  then show ?thesis by (simp add: vli_bytes_def vli_length_def bsr_def)
qed

definition nat_bytes :: "nat \<Rightarrow> nat \<Rightarrow> byte list" where
  "nat_bytes k n = map (\<lambda>i. of_nat (n div 256 ^ i)) [0..<k]"

lemma nat_bytes_unat: "nat_bytes k (unat (v :: 'a::len word)) = le_bytes k v"
proof (rule nth_equalityI)
  fix i assume "i < length (nat_bytes k (unat v))"
  moreover have "word_of_nat (unat v div 256 ^ i) = (ucast (drop_bit (8 * i) v) :: byte)"
  proof -
    have "drop_bit (8 * i) (unat v) = unat (drop_bit (8 * i) v)"
      by (simp only: unsigned_drop_bit_eq take_bit_nat_eq_self unsigned_less)
    then have "unat v div 256 ^ i = unat (drop_bit (8 * i) v)"
      by (simp only: drop_bit_eq_div power_mult) simp
    then show ?thesis by (simp only: of_nat_unat)
  qed
  ultimately show "nat_bytes k (unat v) ! i = le_bytes k v ! i" by (simp add: nat_bytes_def)
qed (simp add: nat_bytes_def)

lemma nat_bytes_Suc: "nat_bytes (Suc k) n = of_nat n # nat_bytes k (n div 256)"
proof -
  have u: "[0..<Suc k] = 0 # map Suc [0..<k]"
    by (metis map_Suc_upt upt_conv_Cons zero_less_Suc)
  have d: "n div 256 ^ Suc i = n div 256 div 256 ^ i" for i
    by (simp only: power_Suc div_mult2_eq)
  show ?thesis
    unfolding nat_bytes_def u list.map map_map comp_def d by simp
qed

lemma vli_store_loop_eq:
  "vli_store_loop n m wp = (wp + vli_length n, store_bytes (wp + 1) (nat_bytes (vli_length n) n) m)"
proof (induction n m wp rule: vli_store_loop.induct)
  case (1 n m wp)
  show ?case
  proof (cases "n = 0")
    case True
    then show ?thesis by (simp add: vli_store_loop.simps nat_bytes_def)
  next
    case False
    have "store_bytes (wp + 1) (nat_bytes (vli_length n) n) m =
        store_bytes (wp + 1 + 1) (nat_bytes (vli_length (n div 256)) (n div 256)) (store_bytes (wp + 1) [of_nat n] m)"
    proof -
      have "nat_bytes (vli_length n) n = [of_nat n] @ nat_bytes (vli_length (n div 256)) (n div 256)"
        by (simp only: vli_length_Suc [OF False] nat_bytes_Suc append_Cons append_Nil)
      then show ?thesis by (simp only: store_bytes_append length_Cons list.size One_nat_def)
    qed
    moreover have "wp + vli_length n = wp + 1 + vli_length (n div 256)"
      by (simp add: vli_length_Suc [OF False])
    ultimately show ?thesis
      using "1.IH" [OF False] False by (subst vli_store_loop.simps) simp
  qed
qed

lemma vli_memory:
  assumes "k \<le> LENGTH('a::len) div 8" "i < h + 1 + k"
  shows "storeLE (h + 1) (v :: 'a word) (store_bytes h [0] m) i = store_bytes h (0 # le_bytes k v) m i"
proof -
  have "storeLE (h + 1) v (store_bytes h [0] m) i = store_bytes h (0 # le_bytes (LENGTH('a) div 8) v) m i"
    using store_bytes_append [of h "[0]" "le_bytes (LENGTH('a) div 8) v" m] by (simp add: storeLE_def)
  also have "\<dots> = store_bytes h (0 # le_bytes k v) m i"
    using assms by (auto simp: store_bytes_def nth_Cons' less_diff_conv2)
  finally show ?thesis .
qed

text \<open>One lemma carries every encoding with a header byte: the integer's significant bytes follow
  a header that is patched once their number is known.\<close>

lemma emits_vli_header:
  assumes "LENGTH('a::len) = 8 * s" "s \<le> 8"
  shows "emits (bnd (writeVariableLengthInt (v :: 'a word)) (\<lambda>(headerPtr, n). patchByte headerPtr (f n)))
               (f (vli_length (unat v)) # vli_bytes v) ()"
  unfolding emits_def
proof (intro allI impI)
  fix w :: writer assume w: "dataPtr w \<le> dataEnd w"
  let ?n = "vli_length (unat v)" and ?h = "dataPtr w"
  let ?op = "bnd (writeVariableLengthInt v) (\<lambda>(headerPtr, n). patchByte headerPtr (f n))"
  let ?w = "w\<lparr>wmem := storeLE (?h + 1) v (store_bytes ?h [0] (wmem w)), dataPtr := ?h + ?n + 1\<rparr>"
  have bsr: "(bsr v + 7) div 8 = ?n" by (simp add: vli_length_def bsr_def)
  have n: "?n \<le> s" using vli_length_le [of v] assms by simp
  have st: "storeLE (?h + 1) v (store_bytes ?h [0] (wmem w)) = store_bytes ?h (0 # le_bytes s v) (wmem w)"
    using store_bytes_append [of ?h "[0]" "le_bytes s v" "wmem w"] assms by (simp add: storeLE_def)
  have fr: "same_frame w ?w"
    unfolding st using assms w by (auto simp: same_frame_iff store_bytes_outside guard_area_def)
  have run: "writeVariableLengthInt v w = (if dataEnd w < ?h + ?n + 1 then Inl overflow else Inr (?h, ?n), ?w)"
    by (simp add: writeVariableLengthInt_def bnd_def andthen_def checkOverflow_def onOverflow_def Let_def bsr)
  show "if ?h + length (f ?n # vli_bytes v) \<le> dataEnd w
        then fst (?op w) = Inr () \<and> grows w (f ?n # vli_bytes v) (snd (?op w))
        else fst (?op w) = Inl overflow \<and> same_frame w (snd (?op w))"
  proof (cases "?h + ?n + 1 \<le> dataEnd w")
    case True
    have "load_bytes (wmem ?w) ?h (Suc ?n) = take (Suc ?n) (0 # le_bytes s v)"
    proof -
      have "wmem ?w = store_bytes ?h (0 # le_bytes s v) (wmem w)" using st by simp
      then show ?thesis using n by (simp only: load_store_take length_Cons length_le_bytes Suc_le_mono)
    qed
    also have "\<dots> = 0 # vli_bytes v"
      using n by (auto simp: vli_bytes_def bsr intro: nth_equalityI)
    finally have "grows w (0 # vli_bytes v) ?w"
      using True fr by (simp add: grows_def vli_bytes_length)
    from grows_patch [OF this, of "f ?n"] show ?thesis
      using True run by (auto simp: bnd_def vli_bytes_length)
  next
    case False
    then show ?thesis using run fr by (simp add: bnd_def vli_bytes_length)
  qed
qed

lemma vli_versions_agree:
  assumes "8 dvd LENGTH('a::len)"
  shows "writeVariableLengthInt_v2 (v :: 'a word) w = writeVariableLengthInt v w \<and>
         fst (writeVariableLengthInt_v1 v w) = fst (writeVariableLengthInt v w) \<and>
         written (snd (writeVariableLengthInt_v1 v w)) = written (snd (writeVariableLengthInt v w))"
proof -
  let ?n = "vli_length (unat v)" and ?h = "dataPtr w"
  have bsr: "(bsr v + 7) div 8 = ?n" by (simp add: vli_length_def bsr_def)
  have n: "?n \<le> LENGTH('a) div 8" using vli_length_le [of v] assms by (auto elim!: dvdE)
  let ?m1 = "store_bytes (?h + 1) (le_bytes ?n v) (store_bytes ?h [0] (wmem w))"
  let ?m3 = "storeLE (?h + 1) v (store_bytes ?h [0] (wmem w))"
  have m: "?m1 i = ?m3 i" if "i < ?h + 1 + ?n" for i
    using vli_memory [OF n that] store_bytes_append [of ?h "[0]" "le_bytes ?n v" "wmem w"] by simp
  have v1: "writeVariableLengthInt_v1 v w =
      (if dataEnd w < ?h + ?n + 1 then Inl overflow else Inr (?h, ?n), w\<lparr>wmem := ?m1, dataPtr := ?h + ?n + 1\<rparr>)"
    by (simp add: writeVariableLengthInt_v1_def bnd_def andthen_def checkOverflow_def onOverflow_def
        vli_store_loop_eq nat_bytes_unat)
  have v3: "writeVariableLengthInt v w =
      (if dataEnd w < ?h + ?n + 1 then Inl overflow else Inr (?h, ?n), w\<lparr>wmem := ?m3, dataPtr := ?h + ?n + 1\<rparr>)"
    by (simp add: writeVariableLengthInt_def bnd_def andthen_def checkOverflow_def onOverflow_def Let_def bsr)
  have "load_bytes ?m1 (bufferStart w) (?h + ?n + 1 - bufferStart w) =
        load_bytes ?m3 (bufferStart w) (?h + ?n + 1 - bufferStart w)"
    by (rule load_bytes_cong) (rule m, simp)
  moreover have "writeVariableLengthInt_v2 v w = writeVariableLengthInt v w"
    by (simp add: writeVariableLengthInt_v2_def writeVariableLengthInt_def Let_def vli_length_loop_eq bsr)
  ultimately show ?thesis by (simp add: v1 v3 written_def)
qed

end
