(* ===== verification/FieldWriter.thy ===== *)
theory FieldWriter
  imports DataWriter
begin

text \<open>
  The variable size encodings of the writer (\<^verbatim>\<open>tickdb/data_writer.cpp\<close>): intervals,
  compressed times, strings, alphanumerics and binary arrays, with the bytes each appends.
\<close>

section \<open>Intervals\<close>

definition putInterval :: "32 word \<Rightarrow> (writer, unit) op" where
  "putInterval value =
     (if INTERVAL_NULL = value then putByte (ucast INTERVAL_NULL)
      else if 0x7FFFFFFF < value then throw (RuntimeError ''putInterval() : Intervals greater then 0x7FFFFFFF are not supported'')
      else if value mod 60000 = 0 \<or> value mod 1000 = 0
      then
        (let (v, scale) =
           (if value mod 60000 = 0
            then (if value mod 3600000 = 0 then (value div 3600000, interval_header IG_HOURS)
                  else (value div 60000, interval_header IG_MINUTES))
            else (value div 1000, interval_header IG_SECONDS))
         in andthen
              (if v < 2 ^ 6 then putByte (ucast v)
               else seqs [putByte (ucast (interval_header IG_OTHER)), putUInt32 value])
              setNotNull)
      else seqs [putByte (ucast (interval_header IG_OTHER)), putUInt32 value, setNotNull])"

definition writeInterval :: "32 word \<Rightarrow> (writer, unit) op" where
  "writeInterval value = putInterval value"

definition writeInterval_nullable :: "32 word \<Rightarrow> bool \<Rightarrow> (writer, unit) op" where
  "writeInterval_nullable value isNull =
     seqs [writeInterval (if isNull then INTERVAL_NULL else value), checkNull isNull]"

section \<open>Compressed times\<close>

text \<open>\<^verbatim>\<open>CHECK_TS\<close> and \<^verbatim>\<open>PACK_TIME\<close>.\<close>

definition pack_time :: "timestamp_granularity \<Rightarrow> nat \<Rightarrow> 64 word \<Rightarrow> (writer, unit) op" where
  "pack_time g numBytes q = seqs
     [guard (\<not> 2 ^ (numBytes * 8 - 3) \<le> q) (RuntimeError ''Time too big''),
      putLE ((q AND 0x1F) + push_bit 3 (q XOR (q AND 0x1F)) + timestamp_header g) numBytes]"

definition putCompressedMillisecondTime :: "64 word \<Rightarrow> (writer, unit) op" where
  "putCompressedMillisecondTime value =
     (let t = value - COMPRESSED_TIMESTAMP_BASE_MS in
      if sint t < 0 then throw (RuntimeError ''Time too small'')
      else if t mod 10000 = 0
      then (if t mod 3600000 = 0 then pack_time TG_HOURS 3 (t div 3600000)
            else pack_time TG_TEN_SECONDS 4 (t div 10000))
      else (if t mod 1000 = 0 then pack_time TG_SECONDS 5 (t div 1000)
            else pack_time TG_MILLIS 6 t))"

definition putCompressedNanosecondTime :: "64 word \<Rightarrow> (writer, unit) op" where
  "putCompressedNanosecondTime value =
     (let v = value - COMPRESSED_TIMESTAMP_BASE_MS in
      if sint v < 0 then throw (RuntimeError ''Time too small'')
      else
        let isLong = (2 ^ (64 - 3) \<le> v)
        in seqs [putByte ((if isLong then timestamp_header TG_LONG_NANOS else timestamp_header TG_NANOS) OR ucast (v AND 0x1F)),
                 putLE (drop_bit 5 v) (7 + (if isLong then 1 else 0))])"

definition writeCompressedNanoTime :: "64 word \<Rightarrow> (writer, unit) op" where
  "writeCompressedNanoTime value = andthen
     (if TIMESTAMP_NULL = value then putByte (timestamp_header TG_SPECIAL)
      else if fast_divisible_by value TIME_NANOS_PER_MILLISECOND
      then putCompressedMillisecondTime (fast_divide_by value TIME_NANOS_PER_MILLISECOND)
      else putCompressedNanosecondTime value)
     setNotNull"

definition writeCompressedTime :: "64 word \<Rightarrow> (writer, unit) op" where
  "writeCompressedTime value =
     (if TIMESTAMP_NULL = value then putByte (timestamp_header TG_SPECIAL)
      else seqs [putCompressedMillisecondTime value, setNotNull])"

section \<open>Strings\<close>

definition writeUTF8_bytes :: "byte list \<Rightarrow> (writer, unit) op" where
  "writeUTF8_bytes data = seqs
     [guard (\<not> 0xFFFF \<le> length data) (RuntimeError ''putUTF8(char *): UTF8 string length is too big''),
      putUInt16 (of_nat (length data)),
      whenM (length data \<noteq> 0) (putBytes data)]"

definition writeAscii_bytes :: "byte list \<Rightarrow> (writer, unit) op" where
  "writeAscii_bytes data = seqs
     [guard (\<not> 0xFFFF \<le> length data) (RuntimeError ''putAscii(char *): UTF8 string length is too big''),
      putUInt16 (of_nat (length data)),
      whenM (length data \<noteq> 0) (putBytes data)]"

text \<open>A null pointer is the length 0xFFFF.\<close>

definition writeUTF8_opt :: "byte list option \<Rightarrow> (writer, unit) op" where
  "writeUTF8_opt s = (case s of None \<Rightarrow> putUInt16 0xFFFF | Some data \<Rightarrow> writeUTF8_bytes data)"

definition writeAscii_opt :: "byte list option \<Rightarrow> (writer, unit) op" where
  "writeAscii_opt s = (case s of None \<Rightarrow> putUInt16 0xFFFF | Some data \<Rightarrow> writeAscii_bytes data)"

definition writeAscii_wide :: "32 word list \<Rightarrow> (writer, unit) op" where
  "writeAscii_wide data = seqs
     [guard (\<not> 0xFFFF \<le> length data) (RuntimeError ''putAscii(wchar_t *): UTF8 string length is too big''),
      putUInt16 (of_nat (length data)),
      mapM (\<lambda>c. putByte (ucast c)) data]"

text \<open>UTF-16 to UTF-8, one code unit or one surrogate pair per step. A code unit is a \<^verbatim>\<open>wchar_t\<close>,
  which has 16 bits on Windows and 32 bits elsewhere, read into an \<^verbatim>\<open>unsigned\<close>.\<close>

fun putUTF8_chars :: "32 word list \<Rightarrow> (writer, unit) op" where
  "putUTF8_chars [] = ret ()"
| "putUTF8_chars (u # us) =
     (let c = u in
      if c < 0x80 then andthen (putByte (ucast c)) (putUTF8_chars us)
      else if c < 0x800 then
        andthen (seqs [putByte (ucast (0xC0 OR (drop_bit 6 c AND 0x1F))),
                       putByte (ucast (0x80 OR (c AND 0x3F)))])
                (putUTF8_chars us)
      else if c AND 0xF800 \<noteq> 0xD800 then
        andthen (seqs [putByte (ucast (0xE0 OR (drop_bit 12 c AND 0x0F))),
                       putByte (ucast (0x80 OR (drop_bit 6 c AND 0x3F))),
                       putByte (ucast (0x80 OR (c AND 0x3F)))])
                (putUTF8_chars us)
      else if c AND 0x400 \<noteq> 0 then
        throw (RuntimeError ''putUTF8(wchar *): UTF-16 High surrogate pair encountered before low'')
      else (case us of
          [] \<Rightarrow> throw (RuntimeError ''putUTF8(wchar *): String ends on UTF-16 High surrogate'')
        | u2 # us' \<Rightarrow>
            (let cc = u2;
                 c' = push_bit 10 c + (0x10000 - push_bit 10 0xD800 - 0xDC00)
             in if cc AND 0xFC00 \<noteq> 0xDC00 then
                  throw (RuntimeError ''putUTF8(wchar *): UTF-16 High surrogate is not followed by Low surrogate'')
                else
                  (let d = c' + cc in
                   andthen (seqs [putByte (ucast (0xF0 OR (drop_bit 18 d AND 0x07))),
                                  putByte (ucast (0x80 OR (drop_bit 12 d AND 0x3F))),
                                  putByte (ucast (0x80 OR (drop_bit 6 d AND 0x3F))),
                                  putByte (ucast (0x80 OR (d AND 0x3F)))])
                           (putUTF8_chars us')))))"

definition writeUTF8_wide :: "32 word list \<Rightarrow> (writer, unit) op" where
  "writeUTF8_wide data =
     andthen (guard (\<not> 0xFFFF \<le> length data) (RuntimeError ''putUTF8(wchar_t *): UTF8 string length is too big''))
     (bnd (gets dataPtr) (\<lambda>header.
      andthen (putUInt16 0)
      (if data = [] then setNotNull
       else andthen (putUTF8_chars data)
         (bnd (gets (\<lambda>w. dataPtr w - header - 2)) (\<lambda>len.
          seqs [guard (\<not> 0xFFFF \<le> len) (RuntimeError ''putUTF8(wchar *): after conversion to UTF8, length >= 0xFFFF''),
                modify (\<lambda>w. w\<lparr>wmem := storeBE header (of_nat len :: 16 word) (wmem w)\<rparr>),
                setNotNull])))))"

section \<open>Alphanumerics\<close>

text \<open>\<open>nSizeBits\<close> is the width of the length field of a field with at most \<open>fieldSize\<close> characters;
  the field size is incremented first.\<close>

definition putAlphanumericNull :: "32 word \<Rightarrow> (writer, unit) op" where
  "putAlphanumericNull fieldSize =
     (let n1 = fieldSize + 1; nSizeBits = bsr n1
      in putBE (push_bit (32 - nSizeBits) n1) ((nSizeBits + 7) div 8))"

definition writeAlphanumericNull :: "32 word \<Rightarrow> (writer, unit) op" where
  "writeAlphanumericNull fieldSize = putAlphanumericNull fieldSize"

text \<open>The packing loop with a 64-bit accumulator. When the accumulator is full the code reads the
  variable \<open>ch\<close> of the loop's body before it is assigned, which is undefined.\<close>

fun putAlphanumeric_loop :: "32 word list \<Rightarrow> 64 word \<Rightarrow> int \<Rightarrow> (writer, 64 word \<times> int) op" where
  "putAlphanumeric_loop [] accumulator nBitsFree = ret (accumulator, nBitsFree)"
| "putAlphanumeric_loop (c # cs) accumulator nBitsFree =
     (let free = nBitsFree - 6 in
      if free < 0 then throw (Undefined ''ch is not initialized'')
      else let ch = c - 0x20 in
           if 0x40 \<le> ch then throw (RuntimeError ''writeAlphanumeric(): Invalid character encountered'')
           else putAlphanumeric_loop cs (push_bit 6 accumulator OR ucast ch) free)"

text \<open>The string is the list of its code units as unsigned numbers, or None for a null pointer.\<close>

definition putAlphanumeric :: "32 word \<Rightarrow> 32 word list option \<Rightarrow> nat \<Rightarrow> (writer, unit) op" where
  "putAlphanumeric fieldSize str stringLength =
     (if unat fieldSize < stringLength then throw (RuntimeError ''Alphanumeric field is too long'')
      else
       let n1 = fieldSize + 1; nSizeBits = bsr n1 in
       case str of
         None \<Rightarrow> putBE (push_bit (32 - nSizeBits) n1) ((nSizeBits + 7) div 8)
       | Some cs \<Rightarrow>
           if unat n1 < stringLength then throw (RuntimeError ''writeAlphanumeric(): String is too long!'')
           else if stringLength = 0 then seqs [putLE (0 :: 32 word) ((nSizeBits + 7) div 8), setNotNull]
           else
             bnd (putAlphanumeric_loop (take stringLength cs) (of_nat stringLength) (64 - int nSizeBits))
               (\<lambda>(accumulator, nBitsFree).
                seqs [putBE (push_bit (nat nBitsFree) accumulator) (nat ((64 + 7 - nBitsFree) div 8)), setNotNull]))"

definition writeAlphanumeric :: "32 word \<Rightarrow> byte list \<Rightarrow> (writer, unit) op" where
  "writeAlphanumeric fieldSize str = seqs [putAlphanumeric fieldSize (Some (map ucast str)) (length str), setNotNull]"

definition writeAlphanumeric_opt :: "32 word \<Rightarrow> byte list option \<Rightarrow> (writer, unit) op" where
  "writeAlphanumeric_opt fieldSize value =
     (case value of None \<Rightarrow> writeAlphanumericNull fieldSize
      | Some str \<Rightarrow> seqs [putAlphanumeric fieldSize (Some (map ucast str)) (length str), setNotNull])"

definition writeAlphanumericInt32 :: "32 word \<Rightarrow> 32 word \<Rightarrow> (writer, unit) op" where
  "writeAlphanumericInt32 fieldSize value =
     (let n1 = fieldSize + 1; nSizeBits = bsr n1 in
      if INT32_NULL = value then putBE (push_bit (32 - nSizeBits) n1) ((nSizeBits + 7) div 8)
      else let len = unat (drop_bit (32 - nSizeBits) value)
           in seqs [putBE value ((nSizeBits + 6 * len + 7) div 8), setNotNull])"

definition writeAlphanumericInt64 :: "32 word \<Rightarrow> 64 word \<Rightarrow> (writer, unit) op" where
  "writeAlphanumericInt64 fieldSize value =
     (let n1 = fieldSize + 1; nSizeBits = bsr n1 in
      if INT64_NULL = value then putBE (push_bit (32 - nSizeBits) n1) ((nSizeBits + 7) div 8)
      else let len = unat (drop_bit (64 - nSizeBits) value)
           in seqs [putBE value ((nSizeBits + 6 * len + 7) div 8), setNotNull])"

section \<open>Binary arrays\<close>

definition writeBinaryArrayEx :: "nat \<Rightarrow> (writer, nat) op" where
  "writeBinaryArrayEx sz =
     andthen (seqs [putByte 0, writePackedUInt (of_nat sz :: 32 word)])
     (bnd (gets dataPtr) (\<lambda>pStart.
      andthen (modify (\<lambda>w. w\<lparr>dataPtr := pStart + sz\<rparr>))
      (bnd (gets dataEnd) (\<lambda>e.
       if e < pStart + sz
       then (if 2 * 2 ^ 22 \<le> sz then throw (RuntimeError ''Binary array has illegal size'')
             else throw (RuntimeError ''No space remaining in the message buffer to write binary array''))
       else ret pStart))))"

definition writeBinaryArray :: "byte list \<Rightarrow> (writer, unit) op" where
  "writeBinaryArray data =
     bnd (writeBinaryArrayEx (length data)) (\<lambda>p. modify (\<lambda>w. w\<lparr>wmem := store_bytes p data (wmem w)\<rparr>))"

section \<open>Decimals with a special value\<close>

text \<open>The part of \<^verbatim>\<open>putDecimal\<close> that decides on the bit pattern alone; true when it wrote.\<close>

definition writeSpecialDecimal :: "64 word \<Rightarrow> (writer, bool) op" where
  "writeSpecialDecimal value =
     (if value = 0 \<or> value = 0x8000000000000000 then andthen (seqs [putByte 0, setNotNull]) (ret True)
      else if isnan64 value then andthen (putByte 0x1F) (ret True)
      else if value = float64neginf then andthen (seqs [putByte 0x2F, setNotNull]) (ret True)
      else if value = float64posinf then andthen (seqs [putByte 0x3F, setNotNull]) (ret True)
      else ret False)"

end
