(* ===== verification/Codec.thy ===== *)
theory Codec
  imports FieldReader FieldWriter
begin

text \<open>
  The writer against the reader: the bytes that a writer operation appends, read through any
  reader that satisfies \<open>byte_source\<close>, give back the value. The operations of the writer are
  first shown to append the bytes of a pure encoding, the decoders to invert it.
\<close>

section \<open>Readers and writers at concrete states\<close>

text \<open>A writer on a zeroed buffer, and a message reader positioned on a part of memory that holds
  one message, with nothing more to come from the network.\<close>

definition sample_writer :: writer where
  "sample_writer = \<lparr>wmem = (\<lambda>_. 0), bufferAllocPtr = 0, bufferStart = 8, dataPtr = 8, dataEnd = 200,
     dataEndNotNull = 8, headerSize = 14, depth = 0, containerHeader = replicate 16 0,
     containerIsArray = replicate 16 False, containerContentsExtraSize = replicate 17 0, expansionPoints = []\<rparr>"

definition closed_tcp :: tcp_state where
  "closed_tcp = \<lparr>incoming = [], tcpBytesRead = 0, tcpBytesWritten = 0, sent = [], isClosed = False,
     inputClosed = False, outputClosed = False\<rparr>"

definition reader_over :: "memory \<Rightarrow> nat \<Rightarrow> nat \<Rightarrow> reader" where
  "reader_over m a b = \<lparr>rclass = MsgReader, rmem = m, rdataPtr = a, rdataEnd = b, contentEnd = b, bufStart = 0,
     bufEnd = 2 ^ 20, streamDataEnd = b, source = TcpStream closed_tcp, dataEnd0 = b, rdepth = 0,
     eOfs = replicate 16 0, rcontainerIsArray = replicate 16 False\<rparr>"

lemma reader_over_ok:
  assumes "a \<le> b" "b \<le> 2 ^ 20"
  shows "msg_ok (reader_over m a b)" "pend_msg (reader_over m a b) = load_bytes m a (b - a)"
  using assms
  by (auto simp: msg_ok_def buffer_ok_def reader_over_def no_content_end_def READ_BUFFER_SIZE_def tcp_ok_def
      closed_tcp_def pend_msg_def content_left_def stream_left_def view_def tcp_avail_def)

section \<open>Packed unsigned integers\<close>

text \<open>The header has the low bits of the value and the number of bytes that follow.\<close>

definition packed_uint :: "nat \<Rightarrow> 'a::len word \<Rightarrow> byte list" where
  "packed_uint k v = ucast (take_bit k v OR push_bit k (of_nat (vli_length (unat (drop_bit k v))))) # vli_bytes (drop_bit k v)"

lemma div_exp_drop: "(v :: 'a::len word) div 2 ^ k = drop_bit k v"
  by (simp add: drop_bit_eq_div)

lemma mult_exp_push: "of_nat (n * 2 ^ k) = push_bit k (of_nat n :: 'a::len word)"
  by (simp add: push_bit_eq_mult)

lemma emits_packed32: "emits (writePackedUInt (v :: 32 word)) (packed_uint 6 v) ()"
proof -
  have "writePackedUInt v = bnd (writeVariableLengthInt (drop_bit 6 v))
      (\<lambda>(headerPtr, n). patchByte headerPtr (ucast (take_bit 6 v OR push_bit 6 (of_nat n))))"
    using div_exp_drop [of v 6] mult_exp_push [of _ 6, where ?'a = 32] and_exp_take [of v 6]
    by (simp add: writePackedUInt_def)
  then show ?thesis
    using emits_vli_header [of 4 "drop_bit 6 v" "\<lambda>n. ucast (take_bit 6 v OR push_bit 6 (of_nat n))"]
    by (simp add: packed_uint_def)
qed

lemma emits_packed64: "emits (writePackedUInt (v :: 64 word)) (packed_uint 5 v) ()"
proof -
  have "writePackedUInt v = bnd (writeVariableLengthInt (drop_bit 5 v))
      (\<lambda>(headerPtr, n). patchByte headerPtr (ucast (take_bit 5 v OR push_bit 5 (of_nat n))))"
    using div_exp_drop [of v 5] mult_exp_push [of _ 5, where ?'a = 64] and_exp_take [of v 5]
    by (simp add: writePackedUInt_def)
  then show ?thesis
    using emits_vli_header [of 8 "drop_bit 5 v" "\<lambda>n. ucast (take_bit 5 v OR push_bit 5 (of_nat n))"]
    by (simp add: packed_uint_def)
qed

text \<open>A header byte splits into its two fields.\<close>

lemma header_fields:
  assumes "n < 2 ^ (8 - k)" "k \<le> 8" "8 \<le> LENGTH('a::len)"
    and h: "h = (ucast (take_bit k (v :: 'a word) OR push_bit k (of_nat n)) :: 8 word)"
  shows "unat (drop_bit k h) = n" "ucast (take_bit k h) = take_bit k v"
proof -
  have nb: "bit n i \<Longrightarrow> k + i < 8" for i
  proof -
    assume "bit n i"
    then have "i < 8 - k"
      using assms(1) bit_take_bit_iff [of "8 - k" n i] take_bit_nat_eq_self [of n "8 - k"] by simp
    then show "k + i < 8" by simp
  qed
  have "drop_bit k h = of_nat n"
    by (rule bit_word_eqI) (use assms(2,3) nb in \<open>auto simp: h bit_simps dest: nb\<close>)
  moreover have "n < 2 ^ 8" using assms(1) power_increasing [of "8 - k" 8 "2::nat"] by linarith
  ultimately show "unat (drop_bit k h) = n" by (simp add: unsigned_of_nat take_bit_nat_eq_self)
  show "ucast (take_bit k h) = take_bit k v"
    by (rule bit_word_eqI) (use assms(2,3) in \<open>auto simp: h bit_simps dest: bit_imp_le_length\<close>)
qed

lemma split_low_high: "take_bit k v OR push_bit k (drop_bit k v) = (v :: 'a::len word)"
proof (rule bit_word_eqI)
  fix n assume "n < LENGTH('a)"
  then show "bit (take_bit k v OR push_bit k (drop_bit k v)) n = bit v n"
    by (cases "n < k") (auto simp: bit_simps)
qed

lemma nth_lowbytemask: "n \<le> 8 \<Longrightarrow> lowbytemask64LUT ! n = mask (8 * n)" "n \<le> 4 \<Longrightarrow> lowbytemask32LUT ! n = mask (8 * n)"
  by (auto simp: lowbytemask64LUT_def lowbytemask32LUT_def nth_Cons' mask_eq_exp_minus_1 numeral_eq_Suc le_Suc_eq)

context byte_source begin

lemma reads_getPackedUInt30:
  assumes "v < 2 ^ 30"
  shows "reads inv pend getPackedUInt30 (packed_uint 6 (v :: 32 word)) v"
proof -
  let ?q = "drop_bit 6 v" and ?n = "vli_length (unat (drop_bit 6 v))"
  let ?h = "ucast (take_bit 6 v OR push_bit 6 (of_nat ?n)) :: 8 word"
  have "unat v < 2 ^ 30" using assms by (simp add: word_less_nat_alt)
  then have "unat ?q < 256 ^ 3" unfolding unat_drop_bit by simp
  then have n: "?n \<le> 3" by (rule vli_length_bound)
  have h: "unat (drop_bit 6 ?h) = ?n" "ucast (take_bit 6 ?h) = take_bit 6 v"
    by (rule header_fields [of ?n 6]; use n in simp)+
  have h3f: "?h AND 0x3F = take_bit 6 ?h" using and_exp_take [of ?h 6] by simp
  have "reads inv pend (bnd (loadLE_bytes ?n) (\<lambda>x. ret (take_bit 6 v OR push_bit 6 (x AND lowbytemask32LUT ! ?n))))
      (vli_bytes ?q) v"
  proof (rule reads_loadLE)
    fix x :: "32 word" assume x: "take_bit (8 * ?n) x = le_word (vli_bytes ?q)"
    have "x AND lowbytemask32LUT ! ?n = take_bit (8 * ?n) x"
      using n by (simp add: nth_lowbytemask take_bit_eq_mask)
    then show "take_bit 6 v OR push_bit 6 (x AND lowbytemask32LUT ! ?n) = v"
      by (simp add: x le_word_vli_bytes split_low_high)
  qed (use n in \<open>auto simp: vli_bytes_length\<close>)
  then show ?thesis
    unfolding getPackedUInt30_def packed_uint_def
    by (intro reads_bnd_Cons [OF reads_getByte]) (simp add: Let_def h3f h)
qed

lemma reads_getPackedUInt61:
  assumes "v < 2 ^ 61"
  shows "reads inv pend getPackedUInt61 (packed_uint 5 (v :: 64 word)) v"
proof -
  let ?q = "drop_bit 5 v" and ?n = "vli_length (unat (drop_bit 5 v))"
  let ?h = "ucast (take_bit 5 v OR push_bit 5 (of_nat ?n)) :: 8 word"
  have "unat v < 2 ^ 61" using assms by (simp add: word_less_nat_alt)
  then have "unat ?q < 256 ^ 7" unfolding unat_drop_bit by simp
  then have n: "?n \<le> 7" by (rule vli_length_bound)
  have h: "unat (drop_bit 5 ?h) = ?n" "ucast (take_bit 5 ?h) = take_bit 5 v"
    by (rule header_fields [of ?n 5]; use n in simp)+
  have h1f: "?h AND 0x1F = take_bit 5 ?h" using and_exp_take [of ?h 5] by simp
  have "reads inv pend (bnd (loadLE_bytes ?n) (\<lambda>x. ret (take_bit 5 v OR push_bit 5 (x AND lowbytemask64LUT ! ?n))))
      (vli_bytes ?q) v"
  proof (rule reads_loadLE)
    fix x :: "64 word" assume x: "take_bit (8 * ?n) x = le_word (vli_bytes ?q)"
    have "x AND lowbytemask64LUT ! ?n = take_bit (8 * ?n) x"
      using n by (simp add: nth_lowbytemask take_bit_eq_mask)
    then show "take_bit 5 v OR push_bit 5 (x AND lowbytemask64LUT ! ?n) = v"
      by (simp add: x le_word_vli_bytes split_low_high)
  qed (use n in \<open>auto simp: vli_bytes_length\<close>)
  then show ?thesis
    unfolding getPackedUInt61_def packed_uint_def
    by (intro reads_bnd_Cons [OF reads_getByte]) (simp add: Let_def h1f h)
qed

end

text \<open>The nullable encodings store the value plus one; zero stands for null.\<close>

definition puint30_bytes :: "32 word \<Rightarrow> byte list" where
  "puint30_bytes v = (if v = UINT30_NULL then [0] else packed_uint 6 (v + 1))"

definition puint61_bytes :: "64 word \<Rightarrow> byte list" where
  "puint61_bytes v = (if v = UINT61_NULL then [0] else packed_uint 5 (v + 1))"

lemma emits_writePUInt30: "v = UINT30_NULL \<or> v \<le> 2 ^ 30 - 2 \<Longrightarrow> emits (writePUInt30 v) (puint30_bytes v) ()"
  using emits_marked(2) [OF emits_packed32, of "v + 1"] emits_putByte [of 0]
  by (auto simp: writePUInt30_def puint30_bytes_def not_less)

lemma emits_writePUInt61: "v = UINT61_NULL \<or> v \<le> 2 ^ 61 - 2 \<Longrightarrow> emits (writePUInt61 v) (puint61_bytes v) ()"
  using emits_marked(2) [OF emits_packed64, of "v + 1"] emits_putByte [of 0]
  by (auto simp: writePUInt61_def puint61_bytes_def not_less)

lemma writePUInt30_ok_iff:
  "fst (writePUInt30 v w) = Inr () \<Longrightarrow> v = UINT30_NULL \<or> v \<le> 2 ^ 30 - 2"
  by (auto simp: writePUInt30_def andthen_def bnd_def not_less split: if_splits)

lemma writePUInt61_ok_iff:
  "fst (writePUInt61 v w) = Inr () \<Longrightarrow> v = UINT61_NULL \<or> v \<le> 2 ^ 61 - 2"
  by (auto simp: writePUInt61_def andthen_def bnd_def not_less split: if_splits)

lemma packed_zero: "packed_uint 6 (0 :: 32 word) = [0]" "packed_uint 5 (0 :: 64 word) = [0]"
  by (simp_all add: packed_uint_def vli_bytes_def bsr_def le_bytes_def)

lemma packed_nonempty [simp]: "packed_uint k v \<noteq> []"
  by (simp add: packed_uint_def)

lemma length_packed_uint: "length (packed_uint k (v :: 'a::len word)) \<le> 1 + (LENGTH('a) + 7) div 8"
  using vli_length_le [of "drop_bit k v"] by (simp add: packed_uint_def vli_bytes_length)

lemma length_puint_bytes: "length (puint30_bytes v) \<le> 9" "length (puint61_bytes u) \<le> 9"
  using length_packed_uint [of 6 "v + 1"] length_packed_uint [of 5 "u + 1"]
  by (auto simp: puint30_bytes_def puint61_bytes_def)

context byte_source begin

lemma reads_readPUInt30:
  assumes "v = UINT30_NULL \<or> v \<le> 2 ^ 30 - 2"
  shows "reads inv pend readPUInt30 (puint30_bytes v) v"
proof (cases "v = UINT30_NULL")
  case True
  have "reads inv pend (bnd getPackedUInt30 (\<lambda>v. ret (0x7FFFFFFF AND (v - 1)))) [0] (0x7FFFFFFF AND (0 - 1))"
    using reads_bnd_ret [OF reads_getPackedUInt30 [of 0], of "\<lambda>v. 0x7FFFFFFF AND (v - 1)"]
    unfolding packed_zero by simp
  then show ?thesis
    unfolding readPUInt30_def using True by (intro reads_orNull) (simp_all add: puint30_bytes_def UINT30_NULL_def)
next
  case False
  with assms have v: "v \<le> 2 ^ 30 - 2" by simp
  then have "unat v \<le> 2 ^ 30 - 2" by (simp add: word_le_nat_alt)
  then have "v + 1 < 2 ^ 30" by (simp add: word_less_nat_alt unat_word_ariths)
  from reads_bnd_ret [OF reads_getPackedUInt30 [OF this], of "\<lambda>v. 0x7FFFFFFF AND (v - 1)"]
  have "reads inv pend (bnd getPackedUInt30 (\<lambda>v. ret (0x7FFFFFFF AND (v - 1)))) (packed_uint 6 (v + 1)) (0x7FFFFFFF AND v)"
    by simp
  moreover have "0x7FFFFFFF AND v = v"
  proof -
    have "take_bit 31 v = v" using \<open>unat v \<le> 2 ^ 30 - 2\<close> by (intro word_take_bit_self) simp
    then show ?thesis using and_exp_take [of v 31] by (simp add: and.commute)
  qed
  ultimately show ?thesis
    unfolding readPUInt30_def using False by (intro reads_orNull) (simp_all add: puint30_bytes_def)
qed

lemma reads_readPUInt61:
  assumes "v = UINT61_NULL \<or> v \<le> 2 ^ 61 - 2"
  shows "reads inv pend readPUInt61 (puint61_bytes v) v"
proof (cases "v = UINT61_NULL")
  case True
  have "reads inv pend (bnd getPackedUInt61 (\<lambda>v. ret (0x7FFFFFFFFFFFFFFF AND (v - 1)))) [0] (0x7FFFFFFFFFFFFFFF AND (0 - 1))"
    using reads_bnd_ret [OF reads_getPackedUInt61 [of 0], of "\<lambda>v. 0x7FFFFFFFFFFFFFFF AND (v - 1)"]
    unfolding packed_zero by simp
  then show ?thesis
    unfolding readPUInt61_def using True by (intro reads_orNull) (simp_all add: puint61_bytes_def UINT61_NULL_def)
next
  case False
  with assms have v: "v \<le> 2 ^ 61 - 2" by simp
  then have u: "unat v \<le> 2 ^ 61 - 2" by (simp add: word_le_nat_alt)
  then have "v + 1 < 2 ^ 61" by (simp add: word_less_nat_alt unat_word_ariths)
  from reads_bnd_ret [OF reads_getPackedUInt61 [OF this], of "\<lambda>v. 0x7FFFFFFFFFFFFFFF AND (v - 1)"]
  have "reads inv pend (bnd getPackedUInt61 (\<lambda>v. ret (0x7FFFFFFFFFFFFFFF AND (v - 1)))) (packed_uint 5 (v + 1)) (0x7FFFFFFFFFFFFFFF AND v)"
    by simp
  moreover have "0x7FFFFFFFFFFFFFFF AND v = v"
  proof -
    have "take_bit 63 v = v" using u by (intro word_take_bit_self) simp
    then show ?thesis using and_exp_take [of v 63] by (simp add: and.commute)
  qed
  ultimately show ?thesis
    unfolding readPUInt61_def using False by (intro reads_orNull) (simp_all add: puint61_bytes_def)
qed

end

section \<open>Round trips through memory\<close>

text \<open>What a completed write left in memory, pending in a message reader, is decoded by the matching
  read.\<close>

lemma roundtrip:
  assumes "emits wr bs ()" "reads msg_ok pend_msg rd bs x"
    and "dataPtr w \<le> dataEnd w" "wr w = (Inr (), w')" "msg_ok r"
    and "pend_msg r = load_bytes (wmem w') (dataPtr w) (dataPtr w' - dataPtr w) @ rest"
  shows "\<exists>r'. rd r = (Inr x, r') \<and> pend_msg r' = rest \<and> msg_ok r'"
proof -
  have "dataPtr w + length bs \<le> dataEnd w"
    using emitsD(2) [OF assms(1,3)] assms(4) by (cases "dataPtr w + length bs \<le> dataEnd w") auto
  from emitsD(1) [OF assms(1,3) this] assms(4) have "grows w bs w'" by auto
  from growsD [OF this] assms(6) have "pend_msg r = bs @ rest" by simp
  from readsD [OF assms(2,5) this] show ?thesis by blast
qed

text \<open>A write on the sample writer and the reader over what it wrote.\<close>

lemma sample_roundtrip:
  assumes "emits wr bs ()" "length bs \<le> 100"
  shows "\<exists>w'. wr sample_writer = (Inr (), w') \<and> dataPtr sample_writer \<le> dataEnd sample_writer \<and>
    msg_ok (reader_over (wmem w') 8 (dataPtr w')) \<and>
    pend_msg (reader_over (wmem w') 8 (dataPtr w')) =
      load_bytes (wmem w') (dataPtr sample_writer) (dataPtr w' - dataPtr sample_writer) @ []"
proof -
  have d: "dataPtr sample_writer = 8" "dataEnd sample_writer = 200" by (simp_all add: sample_writer_def)
  from emitsD(1) [OF assms(1), of sample_writer] assms(2) d obtain w' where
    w': "wr sample_writer = (Inr (), w')" "grows sample_writer bs w'" by auto
  then have "dataPtr w' = 8 + length bs" using growsD(2) [OF w'(2)] d by simp
  then show ?thesis using w' d assms(2) reader_over_ok [of 8 "dataPtr w'" "wmem w'"] by auto
qed

text \<open>A value written by \<open>writePUInt30\<close> (null included) is read back by \<open>readPUInt30\<close>, which
  consumes exactly the bytes written, whatever follows and however the reader's buffer is filled.\<close>

theorem puint30_roundtrip:
  assumes "dataPtr w \<le> dataEnd w" "writePUInt30 v w = (Inr (), w')" "msg_ok r"
    and "pend_msg r = load_bytes (wmem w') (dataPtr w) (dataPtr w' - dataPtr w) @ rest"
  shows "\<exists>r'. readPUInt30 r = (Inr v, r') \<and> pend_msg r' = rest \<and> msg_ok r'"
proof -
  have v: "v = UINT30_NULL \<or> v \<le> 2 ^ 30 - 2" using writePUInt30_ok_iff [of v w] assms(2) by simp
  show ?thesis
    by (rule roundtrip [OF emits_writePUInt30 [OF v] msrc.reads_readPUInt30 [OF v] assms])
qed

theorem puint30_roundtrip_witness:
  "\<exists>w' r'. writePUInt30 1000000 sample_writer = (Inr (), w') \<and>
     readPUInt30 (reader_over (wmem w') 8 (dataPtr w')) = (Inr 1000000, r')"
proof -
  have "emits (writePUInt30 1000000) (puint30_bytes 1000000) ()" by (rule emits_writePUInt30) simp
  moreover have "length (puint30_bytes 1000000) \<le> 100" using length_puint_bytes(1) [of 1000000] by simp
  ultimately obtain w' where "writePUInt30 1000000 sample_writer = (Inr (), w')"
    "dataPtr sample_writer \<le> dataEnd sample_writer" "msg_ok (reader_over (wmem w') 8 (dataPtr w'))"
    "pend_msg (reader_over (wmem w') 8 (dataPtr w')) =
      load_bytes (wmem w') (dataPtr sample_writer) (dataPtr w' - dataPtr sample_writer) @ []"
    using sample_roundtrip by blast
  then show ?thesis using puint30_roundtrip by blast
qed

text \<open>The same for \<open>writePUInt61\<close> and \<open>readPUInt61\<close>.\<close>

theorem puint61_roundtrip:
  assumes "dataPtr w \<le> dataEnd w" "writePUInt61 v w = (Inr (), w')" "msg_ok r"
    and "pend_msg r = load_bytes (wmem w') (dataPtr w) (dataPtr w' - dataPtr w) @ rest"
  shows "\<exists>r'. readPUInt61 r = (Inr v, r') \<and> pend_msg r' = rest \<and> msg_ok r'"
proof -
  have v: "v = UINT61_NULL \<or> v \<le> 2 ^ 61 - 2" using writePUInt61_ok_iff [of v w] assms(2) by simp
  show ?thesis
    by (rule roundtrip [OF emits_writePUInt61 [OF v] msrc.reads_readPUInt61 [OF v] assms])
qed

theorem puint61_roundtrip_witness:
  "\<exists>w' r'. writePUInt61 1000000000000 sample_writer = (Inr (), w') \<and>
     readPUInt61 (reader_over (wmem w') 8 (dataPtr w')) = (Inr 1000000000000, r')"
proof -
  have "emits (writePUInt61 1000000000000) (puint61_bytes 1000000000000) ()" by (rule emits_writePUInt61) simp
  moreover have "length (puint61_bytes 1000000000000) \<le> 100" using length_puint_bytes(2) [of 1000000000000] by simp
  ultimately obtain w' where "writePUInt61 1000000000000 sample_writer = (Inr (), w')"
    "dataPtr sample_writer \<le> dataEnd sample_writer" "msg_ok (reader_over (wmem w') 8 (dataPtr w'))"
    "pend_msg (reader_over (wmem w') 8 (dataPtr w')) =
      load_bytes (wmem w') (dataPtr sample_writer) (dataPtr w' - dataPtr sample_writer) @ []"
    using sample_roundtrip by blast
  then show ?thesis using puint61_roundtrip by blast
qed

end
