(* ===== verification/FieldCodec.thy ===== *)
theory FieldCodec
  imports Codec
begin

text \<open>
  Encodings and decoders of intervals, compressed times, fixed size integers, strings and binary
  arrays: what the writer appends is what the reader inverts, with the exact domain on which
  that holds, and the inputs on which the code does not give the value back.
\<close>

section \<open>Packed 22-bit lengths\<close>

definition puint22_bytes :: "32 word \<Rightarrow> byte list" where
  "puint22_bytes v =
     (if v < 0x80 then [ucast v]
      else ucast ((v AND 0x3F) + 0x40 + push_bit 6 (of_nat (vli_length (unat (drop_bit 6 v))))) # vli_bytes (drop_bit 6 v))"

lemma emits_writePackedUInt22: "emits (writePackedUInt22 v) (puint22_bytes v) ()"
proof (cases "v < 0x80")
  case True
  then show ?thesis using emits_putByte [of "ucast v"]
    by (simp add: writePackedUInt22_def puint22_bytes_def putByte_def)
next
  case False
  then show ?thesis
    using emits_vli_header [of 4 "drop_bit 6 v" "\<lambda>n. ucast ((v AND 0x3F) + 0x40 + push_bit 6 (of_nat n))"]
    by (simp add: writePackedUInt22_def puint22_bytes_def Let_def)
qed

text \<open>Above 0x7F the number of bytes behind the header is one or two, so the header is \<^verbatim>\<open>10xxxxxx\<close> or
  \<^verbatim>\<open>11xxxxxx\<close>.\<close>

lemma puint22_extra:
  assumes "0x80 \<le> (v :: 32 word)" "v < 2 ^ 22"
  shows "vli_length (unat (drop_bit 6 v)) = (if v < 0x4000 then 1 else 2)"
proof -
  let ?q = "unat v div 64"
  have q: "unat (drop_bit 6 v) = ?q" unfolding unat_drop_bit by simp
  have v: "0x80 \<le> unat v" "unat v < 2 ^ 22" "v < 0x4000 \<longleftrightarrow> unat v < 0x4000"
    using assms by (simp_all add: word_le_nat_alt word_less_nat_alt)
  then have "0 < ?q" by simp
  then have s: "vli_length ?q = Suc (vli_length (?q div 256))" by (simp add: vli_length_Suc)
  show ?thesis
  proof (cases "unat v < 0x4000")
    case True
    then have "?q div 256 = 0" by simp
    then show ?thesis using True v q s by simp
  next
    case False
    then have "?q div 256 \<noteq> 0" by simp
    moreover have "?q div 256 div 256 = 0" using v by simp
    ultimately have "vli_length (?q div 256) = 1" using vli_length_Suc [of "?q div 256"] by simp
    then show ?thesis using False v q s by simp
  qed
qed

lemma puint22_header:
  assumes "n = 1 \<or> n = 2"
  shows "(v AND 0x3F) + 0x40 + push_bit 6 (of_nat n) = (take_bit 6 v OR push_bit 6 (of_nat (n + 1)) :: 32 word)"
proof -
  have "v AND 0x3F = take_bit 6 v" using and_exp_take [of v 6] by simp
  moreover have "take_bit 6 v + push_bit 6 w = take_bit 6 v OR push_bit 6 w" for w :: "32 word"
    by (rule disjunctive_add) (auto simp: bit_simps)
  moreover have "0x40 + push_bit 6 (of_nat n) = (push_bit 6 (of_nat (n + 1)) :: 32 word)"
    using assms by auto
  ultimately show ?thesis by (simp only: add.assoc)
qed

context byte_source begin

lemma reads_getPackedUInt22:
  assumes "v < 2 ^ 22"
  shows "reads inv pend getPackedUInt22 (puint22_bytes v) v"
proof (cases "v < 0x80")
  case True
  let ?h = "ucast v :: 8 word"
  have "unat v < 128" using True by (simp add: word_less_nat_alt)
  then have t: "take_bit 7 v = v" by (intro word_take_bit_self) simp
  have "?h AND 0x80 = 0"
  proof (rule bit_word_eqI)
    fix n assume "n < LENGTH(8)"
    have "\<not> bit v 7" using t by (metis bit_take_bit_iff less_irrefl)
    moreover have "bit (0x80 :: 8 word) n \<longleftrightarrow> n = 7"
    proof -
      have "(0x80 :: 8 word) = push_bit 7 1" by simp
      then show ?thesis using \<open>n < LENGTH(8)\<close> by (simp only: bit_push_bit_iff) (auto simp: bit_1_iff)
    qed
    ultimately show "bit (?h AND 0x80) n = bit (0 :: 8 word) n" by (auto simp: bit_simps)
  qed
  moreover have "ucast ?h = v"
  proof -
    have "ucast ?h = take_bit 8 v"
      by (rule bit_word_eqI) (auto simp: bit_simps dest: bit_imp_le_length)
    also have "\<dots> = v" using \<open>unat v < 128\<close> by (intro word_take_bit_self) simp
    finally show ?thesis .
  qed
  ultimately show ?thesis
    unfolding getPackedUInt22_def
    using reads_bnd_Cons [OF reads_getByte [of ?h], of _ "[]" v] True by (simp add: puint22_bytes_def)
next
  case False
  let ?q = "drop_bit 6 v" and ?n = "vli_length (unat (drop_bit 6 v))"
  define h :: "8 word" where "h = ucast (take_bit 6 v OR push_bit 6 (of_nat (?n + 1)))"
  have n: "?n = 1 \<or> ?n = 2" using puint22_extra [OF _ assms] False by (simp add: not_less)
  have bytes: "puint22_bytes v = h # vli_bytes ?q"
    using False puint22_header [OF n, of v] by (simp add: puint22_bytes_def h_def)
  have "?n + 1 < 2 ^ (8 - 6)" using n by auto
  from header_fields [OF this _ _ h_def]
  have h: "unat (drop_bit 6 h) = ?n + 1" "ucast (take_bit 6 h) = take_bit 6 v" by simp_all
  have h3f: "h AND 0x3F = take_bit 6 h" using and_exp_take [of h 6] by simp
  have "h AND 0x80 \<noteq> 0"
  proof
    assume z: "h AND 0x80 = 0"
    have "(0x80 :: 8 word) = push_bit 7 1" by simp
    then have "bit (0x80 :: 8 word) 7" by (simp only: bit_push_bit_iff) (auto simp: bit_1_iff)
    then have "\<not> bit h 7" using z by (metis bit_0_eq bit_and_iff bot_apply bot_bool_def)
    then have "\<not> bit (drop_bit 6 h) 1" by (simp add: bit_drop_bit_eq)
    moreover have "drop_bit 6 h = of_nat (?n + 1)" using arg_cong [OF h(1), of "of_nat :: nat \<Rightarrow> 8 word"] by (simp only: of_nat_unat ucast_id)
    ultimately show False using n by (auto simp: bit_iff_odd)
  qed
  moreover have "reads inv pend (bnd (loadLE_bytes ?n) (\<lambda>x. ret (take_bit 6 v OR push_bit 6 (x AND lowbytemask32LUT ! ?n))))
      (vli_bytes ?q) v"
  proof (rule reads_loadLE)
    fix x :: "32 word" assume x: "take_bit (8 * ?n) x = le_word (vli_bytes ?q)"
    have "x AND lowbytemask32LUT ! ?n = take_bit (8 * ?n) x"
      using n by (auto simp: nth_lowbytemask take_bit_eq_mask)
    then show "take_bit 6 v OR push_bit 6 (x AND lowbytemask32LUT ! ?n) = v"
      by (simp add: x le_word_vli_bytes split_low_high)
  qed (use n in \<open>auto simp: vli_bytes_length\<close>)
  ultimately show ?thesis
    unfolding getPackedUInt22_def bytes
    by (intro reads_bnd_Cons [OF reads_getByte]) (simp add: Let_def h3f h)
qed

end

section \<open>Fixed size integers\<close>

lemma take_be_bytes_shift:
  assumes "k \<le> n" "8 * n = LENGTH('a)"
  shows "be_word (take k (be_bytes n (push_bit (8 * (n - k)) (v :: 'a::len word)))) = take_bit (8 * k) v"
proof -
  have "drop_bit (LENGTH('a) - 8 * k) (be_word (be_bytes n (push_bit (8 * (n - k)) v)) :: 'a word)
      = be_word (take k (be_bytes n (push_bit (8 * (n - k)) v)))"
    using be_word_high [of "be_bytes n (push_bit (8 * (n - k)) v)" k, where ?'a = 'a] assms
    by (metis dvd_triv_left length_be_bytes nonzero_mult_div_cancel_left zero_neq_numeral)
  moreover have "drop_bit (LENGTH('a) - 8 * k) (push_bit (8 * (n - k)) v) = take_bit (8 * k) v"
  proof (rule bit_word_eqI)
    fix i assume "i < LENGTH('a)"
    have e: "8 * (n - k) = LENGTH('a) - 8 * k" "8 * k \<le> LENGTH('a)" using assms by (auto simp: diff_mult_distrib2)
    show "bit (drop_bit (LENGTH('a) - 8 * k) (push_bit (8 * (n - k)) v)) i = bit (take_bit (8 * k) v) i"
      unfolding e(1) using e(2) by (auto simp: bit_simps)
  qed
  ultimately show ?thesis using assms by simp
qed

lemma emits_writeUInt40: "emits (writeUInt40 v) (take 5 (be_bytes 8 (push_bit 24 v))) ()"
  using emits_putBE [of 5 "push_bit 24 v"] by (simp add: writeUInt40_def)

lemma emits_writeInt48: "emits (writeInt48 v) (take 6 (be_bytes 8 (push_bit 16 v))) ()"
  using emits_marked(1) [OF emits_putBE [of 6 "push_bit 16 v"]] by (simp add: writeInt48_def)

lemma sign_extension:
  assumes "- (2 ^ 47) \<le> sint v" "sint v < 2 ^ 47"
  shows "signed_drop_bit 16 (push_bit 16 v) = (v :: 64 word)"
proof -
  have "signed_take_bit 47 v = v"
  proof -
    have "signed_take_bit 47 (sint v) = sint v"
      using assms by (intro signed_take_bit_int_eq_self) auto
    then have "word_of_int (signed_take_bit 47 (sint v)) = v" by simp
    moreover have "word_of_int (signed_take_bit 47 (sint v)) = signed_take_bit 47 v"
      by (rule bit_word_eqI) (auto simp: bit_simps min_def)
    ultimately show ?thesis by simp
  qed
  note st = this
  have b: "bit v (min 47 k) = bit v k" if "k < 64" for k
  proof -
    have "bit (signed_take_bit 47 v) k = bit v (min 47 k)" using that by (simp add: bit_signed_take_bit_iff)
    then show ?thesis unfolding st by simp
  qed
  show ?thesis
  proof (rule bit_word_eqI)
    fix k assume "k < LENGTH(64)"
    then show "bit (signed_drop_bit 16 (push_bit 16 v)) k = bit v k"
      using b [of k] b [of 47] by (auto simp: bit_simps min_def)
  qed
qed

context byte_source begin

lemma reads_getUInt16: "reads inv pend getUInt16 (be_bytes 2 v) v"
  using reads_loadBE [of "be_bytes 2 v", where ?'a = 16] by (simp add: getUInt16_def)

lemma reads_getUInt32: "reads inv pend getUInt32 (be_bytes 4 v) v"
  using reads_loadBE [of "be_bytes 4 v", where ?'a = 32] by (simp add: getUInt32_def)

lemma reads_getUInt64: "reads inv pend getUInt64 (be_bytes 8 v) v"
  using reads_loadBE [of "be_bytes 8 v", where ?'a = 64] by (simp add: getUInt64_def)

lemma reads_readUInt40:
  assumes "v < 2 ^ 40"
  shows "reads inv pend readUInt40 (take 5 (be_bytes 8 (push_bit 24 v))) v"
proof -
  have "unat v < 2 ^ 40" using assms by (simp add: word_less_nat_alt)
  then have "take_bit 40 v = v" by (rule word_take_bit_self)
  moreover have "be_word (take 5 (be_bytes 8 (push_bit 24 v))) = take_bit 40 v"
    using take_be_bytes_shift [of 5 8 v] by simp
  ultimately show ?thesis
    using reads_loadBE_bits [of "take 5 (be_bytes 8 (push_bit 24 v))" 5]
    by (simp add: readUInt40_def loadBE_uint40_def)
qed

lemma reads_readInt48:
  assumes "- (2 ^ 47) \<le> sint v" "sint v < 2 ^ 47"
  shows "reads inv pend readInt48 (take 6 (be_bytes 8 (push_bit 16 v))) v"
proof -
  let ?bs = "take 6 (be_bytes 8 (push_bit 16 v))"
  have "reads inv pend loadBE_int48 ?bs v"
    unfolding loadBE_int48_def
  proof (rule reads_bytes)
    fix m p assume l: "load_bytes m p 6 = ?bs"
    have x: "(loadBE m p :: 64 word) = be_word (load_bytes m p 8)" by (simp add: loadBE_be_word)
    have "take 6 (load_bytes m p 8) = ?bs" using l by simp
    then have "drop_bit 16 (loadBE m p :: 64 word) = be_word ?bs"
      using be_word_high [of "load_bytes m p 8" 6, where ?'a = 64] x by simp
    then have d: "drop_bit 16 (loadBE m p :: 64 word) = take_bit 48 v"
      using take_be_bytes_shift [of 6 8 v] by simp
    have "signed_drop_bit 16 (loadBE m p :: 64 word) = signed_drop_bit 16 (push_bit 16 v)"
    proof (rule bit_word_eqI)
      fix k assume "k < LENGTH(64)"
      have "bit (loadBE m p :: 64 word) (16 + i) = bit v i" if "i < 48" for i
        using arg_cong [OF d, of "\<lambda>x. bit x i"] that by (simp add: bit_simps)
      from this [of k] this [of 47] show "bit (signed_drop_bit 16 (loadBE m p :: 64 word)) k = bit (signed_drop_bit 16 (push_bit 16 v)) k"
        using \<open>k < LENGTH(64)\<close> by (auto simp: bit_signed_drop_bit_iff bit_push_bit_iff)
    qed
    then show "signed_drop_bit (64 - 48) (loadBE m p :: 64 word) = v"
      using sign_extension [OF assms] by simp
  qed (simp_all add: READ_BUFFER_SIZE_def)
  then show ?thesis unfolding readInt48_def by (rule reads_orNull) auto
qed

end

section \<open>Intervals\<close>

text \<open>The number of units when an interval is a whole number of seconds, minutes or hours that fits
  into the header.\<close>

definition interval_units :: "32 word \<Rightarrow> 32 word option" where
  "interval_units v =
     (if v mod 60000 = 0 \<or> v mod 1000 = 0
      then (let q = (if v mod 60000 = 0 then (if v mod 3600000 = 0 then v div 3600000 else v div 60000) else v div 1000)
            in if q < 64 then Some q else None)
      else None)"

definition interval_bytes :: "32 word \<Rightarrow> byte list" where
  "interval_bytes v =
     (if v = INTERVAL_NULL then [0]
      else case interval_units v of Some q \<Rightarrow> [ucast q] | None \<Rightarrow> 0xC0 # be_bytes 4 v)"

text \<open>What the reader makes of it: the header says seconds, whatever the unit was.\<close>

definition interval_readback :: "32 word \<Rightarrow> 32 word" where
  "interval_readback v = (if v = INTERVAL_NULL then 0 else case interval_units v of Some q \<Rightarrow> q * 1000 | None \<Rightarrow> v)"

lemma emits_putInterval: "v \<le> 0x7FFFFFFF \<Longrightarrow> emits (putInterval v) (interval_bytes v) ()"
proof -
  assume v: "v \<le> 0x7FFFFFFF"
  have long: "emits (andthen (seqs [putByte (ucast (interval_header IG_OTHER)), putUInt32 v]) setNotNull) (0xC0 # be_bytes 4 v) ()"
    using emits_andthen [OF emits_andthen [OF emits_putByte [of "0xC0"] emits_putUInt32 [where x = v]] emits_setNotNull]
    by (simp add: interval_header_def)
  have long3: "emits (seqs [putByte (ucast (interval_header IG_OTHER)), putUInt32 v, setNotNull]) (0xC0 # be_bytes 4 v) ()"
    using emits_andthen [OF emits_putByte [of "0xC0"] emits_andthen [OF emits_putUInt32 [where x = v] emits_setNotNull]]
    by (simp add: interval_header_def)
  have short: "emits (andthen (putByte b) setNotNull) [b] ()" for b
    using emits_andthen [OF emits_putByte [of b] emits_setNotNull] by simp
  have nul: "emits (putByte (ucast INTERVAL_NULL)) [0] ()"
    using emits_putByte [of 0] by (simp add: INTERVAL_NULL_def)
  have choose: "emits
      (if A \<or> C then (let (u, scale) = (if A then (if B then (q1, s1) else (q2, s2)) else (q3, s3))
                      in andthen (if u < 2 ^ 6 then putByte (ucast u)
                                  else seqs [putByte (ucast (interval_header IG_OTHER)), putUInt32 v]) setNotNull)
       else seqs [putByte (ucast (interval_header IG_OTHER)), putUInt32 v, setNotNull])
      (case (if A \<or> C then (let q = (if A then (if B then q1 else q2) else q3) in if q < 64 then Some q else None) else None)
       of Some q \<Rightarrow> [ucast q] | None \<Rightarrow> 0xC0 # be_bytes 4 v) ()"
    for A B C and q1 q2 q3 :: "32 word" and s1 s2 s3 :: "32 word"
    using short long long3 by (cases A; cases B; cases C) (simp_all add: Let_def)
  have nv: "\<not> 0x7FFFFFFF < v" using v by (simp only: not_less)
  show ?thesis
  proof (cases "INTERVAL_NULL = v")
    case True
    then show ?thesis using nul by (simp add: putInterval_def interval_bytes_def)
  next
    case False
    then show ?thesis
      unfolding putInterval_def interval_bytes_def interval_units_def
      using choose by (simp only: nv if_False eq_commute [of v INTERVAL_NULL])
  qed
qed

lemma putInterval_ok_iff: "fst (putInterval v w) = Inr () \<Longrightarrow> v \<le> 0x7FFFFFFF"
  by (auto simp: putInterval_def INTERVAL_NULL_def not_less Let_def split: if_splits)

lemma interval_units_less: "interval_units v = Some q \<Longrightarrow> q < 64"
  by (auto simp: interval_units_def Let_def split: if_splits)

lemma small_byte:
  assumes "(q :: 32 word) < 64"
  shows "drop_bit 6 (ucast (ucast q :: 8 word) :: 32 word) = 0" "(ucast ((ucast q :: 8 word) AND 0x3F) :: 32 word) = q"
proof -
  have "unat q < 2 ^ 6" using assms by (simp add: word_less_nat_alt)
  then have t: "take_bit 6 q = q" by (rule word_take_bit_self)
  then have b: "\<not> bit q k" if "6 \<le> k" for k using that by (metis bit_take_bit_iff not_le)
  show "drop_bit 6 (ucast (ucast q :: 8 word) :: 32 word) = 0"
    by (rule bit_word_eqI) (use b in \<open>auto simp: bit_simps\<close>)
  have "(ucast q :: 8 word) AND 0x3F = take_bit 6 (ucast q)" using and_exp_take [of "ucast q :: 8 word" 6] by simp
  moreover have "ucast (take_bit 6 (ucast q :: 8 word)) = take_bit 6 q"
    by (rule bit_word_eqI) (auto simp: bit_simps dest: bit_imp_le_length)
  ultimately show "(ucast ((ucast q :: 8 word) AND 0x3F) :: 32 word) = q" using t by simp
qed

context byte_source begin

lemma reads_getInterval: "reads inv pend getInterval (interval_bytes v) (interval_readback v)"
proof -
  have short: "reads inv pend getInterval [ucast q] (q * 1000)" if "q < 64" for q
    unfolding getInterval_def Let_def
    by (intro reads_bnd_Cons [OF reads_getByte]) (simp add: small_byte [OF that])
  show ?thesis
  proof (cases "v = INTERVAL_NULL")
    case True
    then show ?thesis using short [of 0] by (simp add: interval_bytes_def interval_readback_def)
  next
    case False
    show ?thesis
    proof (cases "interval_units v")
      case None
      have "reads inv pend getInterval (0xC0 # be_bytes 4 v) v"
        unfolding getInterval_def Let_def
        by (intro reads_bnd_Cons [OF reads_getByte]) (simp add: reads_getUInt32)
      then show ?thesis using None False by (simp add: interval_bytes_def interval_readback_def)
    next
      case (Some q)
      then show ?thesis
        using short [OF interval_units_less [OF Some]] False by (simp add: interval_bytes_def interval_readback_def)
    qed
  qed
qed

lemma reads_readInterval: "reads inv pend readInterval (interval_bytes v) (interval_readback v)"
  unfolding readInterval_def
  by (rule reads_orNull [OF reads_getInterval]) (simp add: interval_bytes_def split: option.splits)

end

end
