(* ===== verification/WriterContainers.thy ===== *)
theory WriterContainers
  imports FieldCodec
begin

text \<open>
  Arrays and objects in the writer (\<^verbatim>\<open>tickdb/data_writer.cpp\<close>, \<^verbatim>\<open>tickdb/data_writer_impl.h\<close>,
  implementation 2): a container gets a one-byte length field when it is opened; if its content turns
  out to need a longer one, an expansion point is recorded and \<^verbatim>\<open>finishMessage\<close> makes room for all of
  them. \<open>expand_rev\<close> is what the expansion means on byte lists, \<open>assembled\<close> the message as it will be
  after it.
\<close>

section \<open>Opening and closing\<close>

definition reserveLengthField :: "(writer, unit) op" where
  "reserveLengthField = putByte 0"

definition openContainer :: "bool \<Rightarrow> (writer, unit) op" where
  "openContainer isArray =
     bnd (gets depth) (\<lambda>d. seqs
       [guard (\<not> LOADER_MAX_NESTED_OBJECTS \<le> d) (RuntimeError ''nesting level can't be more than 16!''),
        modify (\<lambda>w. w\<lparr>depth := d + 1,
          containerContentsExtraSize := (containerContentsExtraSize w)[d + 1 := 0],
          containerHeader := (containerHeader w)[d := dataPtr w],
          containerIsArray := (containerIsArray w)[d := isArray]\<rparr>),
        reserveLengthField])"

text \<open>The number of additional bytes of the length field and the contents of the field, with that
  number in its top byte.\<close>

definition extra_header_bytes :: "nat \<Rightarrow> 32 word" where
  "extra_header_bytes len = 1 + of_bool (0x4000 \<le> len)"

definition packed_length :: "nat \<Rightarrow> 32 word" where
  "packed_length len =
     (let n = (of_nat len :: 32 word); e = extra_header_bytes len
      in (n AND 0x3F) + push_bit 2 (n AND NOT 0x3F) + push_bit 24 e + push_bit 6 e + 0x40)"

definition closeContainer :: "bool \<Rightarrow> (writer, unit) op" where
  "closeContainer isArray =
     bnd (gets depth) (\<lambda>d0.
     if d0 = 0 then throw (RuntimeError ''nesting depth underflow. depth of 0 is unexpected!'')
     else
       let d = d0 - 1
       in andthen (modify (\<lambda>w. w\<lparr>depth := d\<rparr>))
          (bnd (gets (\<lambda>w. containerIsArray w ! d)) (\<lambda>a.
           if a \<noteq> isArray then throw (RuntimeError ''Container type mismatch'')
           else bnd (gets (\<lambda>w. containerHeader w ! d + 1)) (\<lambda>contentPtr.
             bnd (gets (\<lambda>w. dataPtr w - contentPtr + unat (containerContentsExtraSize w ! (d + 1)))) (\<lambda>len.
             andthen (patchByte (contentPtr - 1) (of_nat len))
             (if len < 0x80 then ret ()
              else modify (\<lambda>w. w\<lparr>
                containerContentsExtraSize :=
                  (containerContentsExtraSize w)[d := containerContentsExtraSize w ! d + extra_header_bytes len],
                expansionPoints := expansionPoints w @
                  [\<lparr>blockOffset = of_nat (contentPtr - bufferStart w), headerLength = packed_length len\<rparr>]\<rparr>)))))))"

definition writeArrayStart :: "nat \<Rightarrow> (writer, unit) op" where
  "writeArrayStart nItems = seqs [openContainer True, writePackedUInt22 (of_nat nItems), setNotNull]"

definition writeObjectStart :: "8 word \<Rightarrow> (writer, unit) op" where
  "writeObjectStart typeIndex = seqs [openContainer False, putByte typeIndex, setNotNull]"

definition writeArrayEnd :: "(writer, unit) op" where
  "writeArrayEnd = seqs [closeContainer True, setNotNull]"

definition writeObjectEnd :: "(writer, unit) op" where
  "writeObjectEnd = seqs [closeContainer False, setNotNull]"

section \<open>Expanding the headers\<close>

definition MASK_ARRAY :: "32 word list" where
  "MASK_ARRAY = [0, 0xFFFF0000, 0xFF000000]"

text \<open>The loop goes over the points from the last to the first; \<open>points\<close> is the rest of the reversed
  array. A move of negative length is undefined.\<close>

fun expandHeaders_loop ::
    "nat \<Rightarrow> expansion_point list \<Rightarrow> nat \<Rightarrow> int \<Rightarrow> memory \<Rightarrow> exn + (nat \<times> int \<times> memory)" where
  "expandHeaders_loop pBufferStart [] pEnd offset m = Inr (pEnd, offset, m)"
| "expandHeaders_loop pBufferStart (point # points) pEnd offset m =
     (let pStart = pBufferStart + unat (blockOffset point) in
      if pEnd < pStart then Inl (Undefined ''memmove'')
      else
        let m1 = store_bytes (nat (int pStart + offset)) (load_bytes m pStart (pEnd - pStart)) m;
            diff = unat (drop_bit 24 (headerLength point));
            pEnd' = pStart - 1;
            offset' = offset - int diff;
            pHdr = nat (int pEnd' + offset');
            len = (headerLength point AND 0xFFFFFF) OR (loadLE m1 pHdr AND MASK_ARRAY ! diff)
        in expandHeaders_loop pBufferStart points pEnd' offset' (storeLE pHdr len m1))"

definition expandHeadersImplBasic ::
    "nat \<Rightarrow> nat \<Rightarrow> int \<Rightarrow> expansion_point list \<Rightarrow> nat \<Rightarrow> memory \<Rightarrow> (exn + unit) \<times> memory" where
  "expandHeadersImplBasic pBufferStart pEnd offset points pMessageStart m =
     (case expandHeaders_loop pBufferStart (rev points) pEnd offset m of
        Inl e \<Rightarrow> (Inl e, m)
      | Inr (pEnd', offset', m') \<Rightarrow>
          (if offset' \<noteq> 0 \<or> pEnd' \<le> pMessageStart
           then Inl (RuntimeError ''Logic error in DataWriter complex object implementation'') else Inr (), m'))"

definition expandHeaders ::
    "nat \<Rightarrow> nat \<Rightarrow> int \<Rightarrow> expansion_point list \<Rightarrow> nat \<Rightarrow> (writer, unit) op" where
  "expandHeaders pBufferStart pEnd offset points pMessageStart =
     (if points = [] then ret ()
      else (\<lambda>w. case expandHeadersImplBasic pBufferStart pEnd offset points pMessageStart (wmem w) of
                  (x, m) \<Rightarrow> (x, w\<lparr>wmem := m\<rparr>)))"

section \<open>Starting and finishing a message\<close>

definition startMessage :: "(writer, nat) op" where
  "startMessage =
     andthen (modify (\<lambda>w. w\<lparr>wmem := storeLE (dataPtr w) (0 :: 32 word) (wmem w), dataPtr := dataPtr w + 4\<rparr>))
     (andthen checkOverflow
     (andthen (modify (\<lambda>w. w\<lparr>dataEndNotNull := dataPtr w + headerSize w, expansionPoints := [],
         containerContentsExtraSize := (containerContentsExtraSize w)[0 := 0], depth := 0\<rparr>))
     (gets dataPtr)))"

definition finishMessageCommon :: "(writer, nat) op" where
  "finishMessageCommon =
     bnd (gets depth) (\<lambda>d.
     if d \<noteq> 0 then throw (RuntimeError ''not finished writing nested objects'') else gets dataPtr)"

definition finishMessage :: "nat \<Rightarrow> (writer, nat) op" where
  "finishMessage messageStart =
     bnd finishMessageCommon (\<lambda>p.
     bnd (gets (\<lambda>w. unat (containerContentsExtraSize w ! 0))) (\<lambda>extraSize.
     if extraSize = 0 then ret p
     else bnd (gets (\<lambda>w. (dataEnd w, bufferStart w, expansionPoints w))) (\<lambda>(e, b, points).
       if e < p + extraSize
       then throw (RuntimeError ''buffer overflow while expanding complex message. Too big'')
       else andthen (expandHeaders b p (int extraSize) points messageStart)
            (andthen (modify (\<lambda>w. w\<lparr>dataPtr := p + extraSize\<rparr>)) (ret (p + extraSize))))))"


section \<open>What the expansion does to the bytes\<close>

definition point_extra :: "expansion_point \<Rightarrow> nat" where
  "point_extra pt = unat (drop_bit 24 (headerLength pt))"

definition point_header :: "expansion_point \<Rightarrow> byte list" where
  "point_header pt = le_bytes (point_extra pt + 1) (headerLength pt)"

text \<open>The points in reverse order: the bytes from the point's offset on follow the new length field,
  which replaces the one byte before the offset.\<close>

fun expand_rev :: "expansion_point list \<Rightarrow> byte list \<Rightarrow> byte list" where
  "expand_rev [] bs = bs"
| "expand_rev (pt # pts) bs =
     expand_rev pts (take (unat (blockOffset pt) - 1) bs) @ point_header pt @ drop (unat (blockOffset pt)) bs"

definition point_ok :: "expansion_point \<Rightarrow> bool" where
  "point_ok pt \<longleftrightarrow> 0 < unat (blockOffset pt) \<and> (point_extra pt = 1 \<or> point_extra pt = 2) \<and>
     (point_extra pt = 1 \<longrightarrow> drop_bit 16 (headerLength pt AND 0xFFFFFF) = 0)"

fun points_ok :: "expansion_point list \<Rightarrow> nat \<Rightarrow> bool" where
  "points_ok [] n \<longleftrightarrow> True"
| "points_ok (pt # pts) n \<longleftrightarrow> point_ok pt \<and> unat (blockOffset pt) \<le> n \<and> points_ok pts (unat (blockOffset pt) - 1)"

definition total_extra :: "expansion_point list \<Rightarrow> nat" where
  "total_extra pts = sum_list (map point_extra pts)"

lemma length_point_header [simp]: "length (point_header pt) = point_extra pt + 1"
  by (simp add: point_header_def)

lemma points_ok_mono: "points_ok pts n \<Longrightarrow> n \<le> k \<Longrightarrow> points_ok pts k"
  by (cases pts) auto

lemma length_expand_rev: "points_ok pts (length bs) \<Longrightarrow> length (expand_rev pts bs) = length bs + total_extra pts"
proof (induction pts arbitrary: bs)
  case (Cons pt pts)
  let ?o = "unat (blockOffset pt)"
  have o: "?o \<le> length bs" "0 < ?o" "points_ok pts (length (take (?o - 1) bs))"
    using Cons.prems by (auto simp: point_ok_def min_def)
  then show ?case using Cons.IH [OF o(3)] by (simp add: total_extra_def)
qed (simp add: total_extra_def)

lemma expand_rev_append: "points_ok pts (length bs) \<Longrightarrow> expand_rev pts (bs @ cs) = expand_rev pts bs @ cs"
  by (cases pts) auto

lemma header_store:
  assumes "point_ok pt"
  shows "storeLE p ((headerLength pt AND 0xFFFFFF) OR (loadLE m p AND MASK_ARRAY ! point_extra pt)) m =
         store_bytes p (point_header pt) m"
proof -
  let ?h = "headerLength pt" and ?d = "point_extra pt"
  let ?v = "(?h AND 0xFFFFFF) OR (loadLE m p AND MASK_ARRAY ! ?d)"
  have d: "?d = 1 \<or> ?d = 2" and z: "?d = 1 \<Longrightarrow> drop_bit 16 (?h AND 0xFFFFFF) = 0"
    using assms by (auto simp: point_ok_def)
  have low: "?h AND 0xFFFFFF = take_bit 24 ?h" using and_exp_take [of ?h 24] by simp
  have mk: "MASK_ARRAY ! ?d = NOT (mask (8 * (?d + 1)))"
    using d by (auto simp: MASK_ARRAY_def mask_eq_exp_minus_1)
  have bv: "bit ?v n \<longleftrightarrow> (if n < 8 * (?d + 1) then bit ?h n else bit (loadLE m p :: 32 word) n)" if n: "n < 32" for n
  proof -
    have "bit (take_bit 24 ?h) n = bit ?h n" if "n < 8 * (?d + 1)" using that d by (auto simp: bit_simps)
    moreover have "\<not> bit (take_bit 24 ?h) n" if g: "\<not> n < 8 * (?d + 1)"
    proof (cases "?d = 1")
      case True
      have "bit (take_bit 24 ?h) n \<longleftrightarrow> bit (drop_bit 16 (?h AND 0xFFFFFF)) (n - 16)"
        using g True by (simp add: low bit_drop_bit_eq)
      then show ?thesis unfolding z [OF True] by simp
    next
      case False
      then show ?thesis using g d by (auto simp: bit_simps)
    qed
    ultimately show ?thesis unfolding low mk using n by (auto simp: bit_simps)
  qed
  have byte: "le_bytes 4 ?v ! i = (if i < ?d + 1 then point_header pt ! i else m (p + i))" if i: "i < 4" for i
  proof (rule bit_word_eqI)
    fix j assume j: "j < LENGTH(8)"
    have ld: "bit (loadLE m p :: 32 word) (8 * i + j) = bit (m (p + i)) j"
    proof -
      have "(8 * i + j) div 8 = i" "(8 * i + j) mod 8 = j" using j by simp_all
      then show ?thesis using i j by (simp add: loadLE_def bit_le_word)
    qed
    have "8 * i + j < 8 * (?d + 1) \<longleftrightarrow> i < ?d + 1" using j by auto
    then show "bit (le_bytes 4 ?v ! i) j = bit (if i < ?d + 1 then point_header pt ! i else m (p + i)) j"
      using i j bv [of "8 * i + j"] ld
      by (simp add: bit_nth_le_bytes point_header_def del: nth_le_bytes)
  qed
  show ?thesis
  proof
    fix a
    show "storeLE p ?v m a = store_bytes p (point_header pt) m a"
    proof (cases "p \<le> a \<and> a < p + 4")
      case True
      then obtain i where i: "a = p + i" "i < 4" by (metis le_Suc_ex nat_add_left_cancel_less)
      then show ?thesis using byte [of i] by (auto simp: storeLE_def store_bytes_def)
    next
      case False
      then show ?thesis using d by (auto simp: storeLE_def store_bytes_def)
    qed
  qed
qed

lemma load_bytes_append3:
  "load_bytes m b (x + (y + z)) = load_bytes m b x @ load_bytes m (b + x) y @ load_bytes m (b + x + y) z"
  by (simp only: load_bytes_append)

lemma expandHeaders_loop_spec:
  assumes "load_bytes m b n = bs" "points_ok pts n" "n \<le> e - b" "b \<le> e"
  shows "\<exists>m'. expandHeaders_loop b pts (b + n) (int (total_extra pts)) m =
           Inr (if pts = [] then b + n else b + unat (blockOffset (last pts)) - 1, 0, m') \<and>
         load_bytes m' b (n + total_extra pts) = expand_rev pts bs \<and>
         (\<forall>i. i < b \<or> b + n + total_extra pts \<le> i \<longrightarrow> m' i = m i)"
  using assms
proof (induction pts arbitrary: m n bs)
  case Nil
  then show ?case by (simp add: total_extra_def)
next
  case (Cons pt pts)
  let ?o = "unat (blockOffset pt)" and ?d = "point_extra pt" and ?t = "total_extra pts"
  have ok: "point_ok pt" "?o \<le> n" "points_ok pts (?o - 1)" "0 < ?o"
    using Cons.prems(2) by (auto simp: point_ok_def)
  have tot: "total_extra (pt # pts) = ?d + ?t" by (simp add: total_extra_def)
  define m1 where "m1 = store_bytes (b + ?o + ?d + ?t) (load_bytes m (b + ?o) (n - ?o)) m"
  define p where "p = b + ?o - 1 + ?t"
  define m2 where "m2 = store_bytes p (point_header pt) m1"
  have p: "p + length (point_header pt) = b + ?o + ?d + ?t" "b + (?o - 1) \<le> p" using ok(4) by (simp_all add: p_def)
  have run: "expandHeaders_loop b (pt # pts) (b + n) (int (total_extra (pt # pts))) m =
      expandHeaders_loop b pts (b + (?o - 1)) (int ?t) m2"
  proof -
    have "nat (int (b + ?o) + int (total_extra (pt # pts))) = b + ?o + ?d + ?t" by (simp add: tot nat_add_distrib)
    moreover have "int (total_extra (pt # pts)) - int (unat (drop_bit 24 (headerLength pt))) = int ?t"
      by (simp add: tot point_extra_def)
    moreover have "nat (int (b + ?o - 1) + int ?t) = p" by (simp only: nat_int_add p_def)
    moreover have "b + ?o - 1 = b + (?o - 1)" using ok(4) by simp
    ultimately show ?thesis
      using ok(2) header_store [OF ok(1), of p m1]
      by (simp add: Let_def m2_def m1_def point_extra_def [symmetric])
  qed
  have "load_bytes m2 b (?o - 1) = load_bytes m b (?o - 1)"
    unfolding m2_def m1_def using p(2) ok(4) by (intro load_bytes_cong) (subst store_bytes_outside, force, subst store_bytes_outside, auto)
  also have "\<dots> = take (?o - 1) bs" using Cons.prems(1) ok(2) by auto
  finally have l2: "load_bytes m2 b (?o - 1) = take (?o - 1) bs" .
  from Cons.IH [OF l2 ok(3)] Cons.prems(3,4) ok(2) obtain m' where m':
    "expandHeaders_loop b pts (b + (?o - 1)) (int ?t) m2 =
       Inr (if pts = [] then b + (?o - 1) else b + unat (blockOffset (last pts)) - 1, 0, m')"
    "load_bytes m' b (?o - 1 + ?t) = expand_rev pts (take (?o - 1) bs)"
    "\<And>i. i < b \<or> b + (?o - 1) + ?t \<le> i \<Longrightarrow> m' i = m2 i"
    by fastforce
  have pq: "p = b + (?o - 1) + ?t" using ok(4) by (simp add: p_def)
  have "load_bytes m' b (?o - 1 + ?t + (?d + 1 + (n - ?o))) =
      load_bytes m' b (?o - 1 + ?t) @ load_bytes m' p (?d + 1) @ load_bytes m' (p + (?d + 1)) (n - ?o)"
    unfolding pq using load_bytes_append3 [of m' b "?o - 1 + ?t" "?d + 1" "n - ?o"] by (simp only: add.assoc)
  moreover have "load_bytes m' p (?d + 1) = point_header pt"
  proof -
    have "load_bytes m' p (?d + 1) = load_bytes m2 p (?d + 1)"
      using m'(3) pq by (intro load_bytes_cong) simp
    then show ?thesis by (simp only: m2_def load_store_same length_point_header)
  qed
  moreover have "load_bytes m' (p + (?d + 1)) (n - ?o) = drop ?o bs"
  proof -
    have "load_bytes m' (p + (?d + 1)) (n - ?o) = load_bytes m2 (p + (?d + 1)) (n - ?o)"
      using m'(3) pq by (intro load_bytes_cong) simp
    also have "\<dots> = load_bytes m1 (b + ?o + ?d + ?t) (n - ?o)"
      using p(1) unfolding m2_def by (simp only: load_store_above length_point_header order_refl)
    also have "\<dots> = drop ?o bs" using Cons.prems(1) ok(2) unfolding m1_def by (auto simp: load_store_same)
    finally show ?thesis .
  qed
  moreover have "?o - 1 + ?t + (?d + 1 + (n - ?o)) = n + total_extra (pt # pts)" using ok by (simp add: tot)
  ultimately have "load_bytes m' b (n + total_extra (pt # pts)) = expand_rev (pt # pts) bs"
    using m'(2) by simp
  moreover have "m' i = m i" if "i < b \<or> b + n + total_extra (pt # pts) \<le> i" for i
  proof -
    have "m' i = m2 i" using that ok tot by (intro m'(3)) auto
    also have "\<dots> = m i" unfolding m2_def m1_def using that ok tot p by (auto simp: store_bytes_outside)
    finally show ?thesis .
  qed
  ultimately show ?case using run m'(1) ok(4) by auto
qed


section \<open>Containers that stay small\<close>

text \<open>The arrays have their declared lengths and the write pointer is inside the buffer.\<close>

definition shape_ok :: "writer \<Rightarrow> bool" where
  "shape_ok w \<longleftrightarrow> length (containerHeader w) = 16 \<and> length (containerIsArray w) = 16 \<and>
     length (containerContentsExtraSize w) = 17 \<and> bufferStart w \<le> dataPtr w \<and> dataPtr w \<le> dataEnd w"

definition memory_safe :: "writer \<Rightarrow> writer \<Rightarrow> bool" where
  "memory_safe w w' \<longleftrightarrow> (\<forall>i. i < dataPtr w \<or> dataEnd w + guard_area \<le> i \<longrightarrow> wmem w' i = wmem w i)"

text \<open>\<open>boxed\<close>: the bytes were appended and everything that belongs to the enclosing containers is as it
  was.\<close>

definition boxed :: "writer \<Rightarrow> byte list \<Rightarrow> writer \<Rightarrow> bool" where
  "boxed w bs w' \<longleftrightarrow> shape_ok w' \<and> memory_safe w w' \<and>
     bufferAllocPtr w' = bufferAllocPtr w \<and> bufferStart w' = bufferStart w \<and> dataEnd w' = dataEnd w \<and>
     headerSize w' = headerSize w \<and> depth w' = depth w \<and> expansionPoints w' = expansionPoints w \<and>
     take (depth w) (containerHeader w') = take (depth w) (containerHeader w) \<and>
     take (depth w) (containerIsArray w') = take (depth w) (containerIsArray w) \<and>
     take (depth w + 1) (containerContentsExtraSize w') = take (depth w + 1) (containerContentsExtraSize w) \<and>
     dataPtr w' = dataPtr w + length bs \<and> load_bytes (wmem w') (dataPtr w) (length bs) = bs"

text \<open>\<open>boxes m bs k\<close>: with \<open>k\<close> more levels of nesting available, the operation appends the bytes, or
  reports the overflow without having written outside the buffer.\<close>

definition boxes :: "(writer, unit) op \<Rightarrow> byte list \<Rightarrow> nat \<Rightarrow> bool" where
  "boxes m bs k \<longleftrightarrow>
     (\<forall>w. shape_ok w \<and> depth w + k \<le> LOADER_MAX_NESTED_OBJECTS \<longrightarrow>
        (if dataPtr w + length bs \<le> dataEnd w
         then \<exists>w'. m w = (Inr (), w') \<and> boxed w bs w'
         else \<exists>w'. m w = (Inl overflow, w') \<and> memory_safe w w'))"

lemma boxesD:
  assumes "boxes m bs k" "shape_ok w" "depth w + k \<le> LOADER_MAX_NESTED_OBJECTS"
  shows "dataPtr w + length bs \<le> dataEnd w \<Longrightarrow> \<exists>w'. m w = (Inr (), w') \<and> boxed w bs w'"
    and "\<not> dataPtr w + length bs \<le> dataEnd w \<Longrightarrow> \<exists>w'. m w = (Inl overflow, w') \<and> memory_safe w w'"
  using assms unfolding boxes_def by metis+

lemma boxedD:
  assumes "boxed w bs w'"
  shows "shape_ok w'" "memory_safe w w'" "bufferAllocPtr w' = bufferAllocPtr w" "bufferStart w' = bufferStart w"
    "dataEnd w' = dataEnd w" "headerSize w' = headerSize w" "depth w' = depth w" "expansionPoints w' = expansionPoints w"
    "take (depth w) (containerHeader w') = take (depth w) (containerHeader w)"
    "take (depth w) (containerIsArray w') = take (depth w) (containerIsArray w)"
    "take (depth w + 1) (containerContentsExtraSize w') = take (depth w + 1) (containerContentsExtraSize w)"
    "dataPtr w' = dataPtr w + length bs" "load_bytes (wmem w') (dataPtr w) (length bs) = bs"
  using assms by (auto simp: boxed_def)

lemma memory_safe_trans:
  "memory_safe w w' \<Longrightarrow> memory_safe w' w'' \<Longrightarrow> dataPtr w \<le> dataPtr w' \<Longrightarrow> dataEnd w' = dataEnd w \<Longrightarrow> memory_safe w w''"
  by (auto simp: memory_safe_def)

lemma boxed_refl: "shape_ok w \<Longrightarrow> boxed w [] w"
  by (simp add: boxed_def memory_safe_def)

lemma boxed_trans:
  assumes "boxed w bs w'" "boxed w' cs w''"
  shows "boxed w (bs @ cs) w''"
proof -
  note a = boxedD [OF assms(1)] and b = boxedD [OF assms(2)]
  have "load_bytes (wmem w'') (dataPtr w) (length bs) = load_bytes (wmem w') (dataPtr w) (length bs)"
    using b(2) a(12) unfolding memory_safe_def by (intro load_bytes_cong) simp
  then have "load_bytes (wmem w'') (dataPtr w) (length bs + length cs) = bs @ cs"
    using a b by (simp add: load_bytes_append)
  moreover have "memory_safe w w''" using memory_safe_trans [OF a(2) b(2)] a by simp
  ultimately show ?thesis using a b by (simp add: boxed_def)
qed

lemma boxes_ret: "boxes (ret ()) [] 0"
  using boxed_refl by (auto simp: boxes_def shape_ok_def)

lemma boxes_mono: "boxes m bs k \<Longrightarrow> k \<le> n \<Longrightarrow> boxes m bs n"
  unfolding boxes_def by (meson add_left_mono order_trans)

lemma boxes_andthen:
  assumes "boxes m bs k" "boxes n cs k"
  shows "boxes (andthen m n) (bs @ cs) k"
  unfolding boxes_def
proof (intro allI impI)
  fix w assume w: "shape_ok w \<and> depth w + k \<le> LOADER_MAX_NESTED_OBJECTS"
  show "if dataPtr w + length (bs @ cs) \<le> dataEnd w
        then \<exists>w'. andthen m n w = (Inr (), w') \<and> boxed w (bs @ cs) w'
        else \<exists>w'. andthen m n w = (Inl overflow, w') \<and> memory_safe w w'"
  proof (cases "dataPtr w + length bs \<le> dataEnd w")
    case True
    then obtain w' where w': "m w = (Inr (), w')" "boxed w bs w'" using boxesD(1) [OF assms(1)] w by blast
    note b = boxedD [OF w'(2)]
    have w2: "shape_ok w'" "depth w' + k \<le> LOADER_MAX_NESTED_OBJECTS" using b w by simp_all
    show ?thesis
    proof (cases "dataPtr w' + length cs \<le> dataEnd w'")
      case c: True
      from boxesD(1) [OF assms(2) w2 c] show ?thesis using w' c b boxed_trans [OF w'(2)] by (auto simp: andthen_ok)
    next
      case c: False
      from boxesD(2) [OF assms(2) w2 c] obtain w'' where "n w' = (Inl overflow, w'')" "memory_safe w' w''" by blast
      then show ?thesis using w' c b memory_safe_trans [OF b(2), of w''] by (auto simp: andthen_ok)
    qed
  next
    case False
    then obtain w' where "m w = (Inl overflow, w')" "memory_safe w w'" using boxesD(2) [OF assms(1)] w by blast
    then show ?thesis using False by (auto simp: andthen_err)
  qed
qed

lemma boxed_grows:
  assumes "grows w bs w'" "shape_ok w"
  shows "boxed w bs w'"
proof -
  note g = growsD [OF assms(1)] and f = same_frameD [OF growsD(1) [OF assms(1)]]
  show ?thesis using g f assms(2) by (simp add: boxed_def shape_ok_def memory_safe_def)
qed

lemma boxes_emits:
  assumes "emits m bs ()"
  shows "boxes m bs 0"
  unfolding boxes_def
proof (intro allI impI)
  fix w assume w: "shape_ok w \<and> depth w + 0 \<le> LOADER_MAX_NESTED_OBJECTS"
  then have d: "dataPtr w \<le> dataEnd w" by (simp add: shape_ok_def)
  show "if dataPtr w + length bs \<le> dataEnd w then \<exists>w'. m w = (Inr (), w') \<and> boxed w bs w'
        else \<exists>w'. m w = (Inl overflow, w') \<and> memory_safe w w'"
    using emitsD [OF assms d] boxed_grows w same_frameD(11) by (auto simp: memory_safe_def)
qed

lemma boxes_mapM:
  "(\<And>x. x \<in> set xs \<Longrightarrow> boxes (f x) (g x) k) \<Longrightarrow> boxes (mapM f xs) (concat (map g xs)) k"
proof (induction xs)
  case Nil
  show ?case unfolding mapM.simps list.map concat.simps by (rule boxes_mono [OF boxes_ret]) simp
next
  case (Cons x xs)
  then show ?case using boxes_andthen [of "f x" "g x" k] by simp
qed

text \<open>Opening and closing, step by step.\<close>

definition opened :: "bool \<Rightarrow> writer \<Rightarrow> writer" where
  "opened a w = w\<lparr>depth := depth w + 1, containerContentsExtraSize := (containerContentsExtraSize w)[depth w + 1 := 0],
     containerHeader := (containerHeader w)[depth w := dataPtr w], containerIsArray := (containerIsArray w)[depth w := a]\<rparr>"

lemma openContainer_run:
  "openContainer a w =
     (if LOADER_MAX_NESTED_OBJECTS \<le> depth w then (Inl (RuntimeError ''nesting level can't be more than 16!''), w)
      else putByte 0 (opened a w))"
  by (simp add: openContainer_def reserveLengthField_def opened_def bnd_def andthen_def)

lemma opened_shape:
  assumes "shape_ok w"
  shows "shape_ok (opened a w)" "memory_safe w (opened a w)" "dataPtr (opened a w) = dataPtr w" "dataEnd (opened a w) = dataEnd w"
  using assms by (simp_all add: shape_ok_def opened_def memory_safe_def)

lemma closeContainer_run:
  assumes "depth w = Suc d"
  shows "closeContainer a w =
    (let w1 = w\<lparr>depth := d\<rparr>; c = containerHeader w ! d + 1;
         len = dataPtr w - c + unat (containerContentsExtraSize w ! Suc d);
         w2 = w1\<lparr>wmem := store_bytes (containerHeader w ! d) [of_nat len] (wmem w)\<rparr>
     in if containerIsArray w ! d \<noteq> a then (Inl (RuntimeError ''Container type mismatch''), w1)
        else (Inr (),
              if len < 0x80 then w2
              else w2\<lparr>containerContentsExtraSize :=
                     (containerContentsExtraSize w)[d := containerContentsExtraSize w ! d + extra_header_bytes len],
                   expansionPoints := expansionPoints w @
                     [\<lparr>blockOffset = of_nat (c - bufferStart w), headerLength = packed_length len\<rparr>]\<rparr>))"
  using assms
  by (simp add: closeContainer_def bnd_def andthen_def Let_def patchByte_def storeBE_bytes be_bytes_1)

lemma nth_take_eq: "take n xs = take n ys \<Longrightarrow> i < n \<Longrightarrow> xs ! i = ys ! i"
  by (metis nth_take)

text \<open>The state between opening and closing: the one-byte field, then the content.\<close>

lemma container_content:
  assumes m: "boxes m bs k" and w: "shape_ok w" "depth w + Suc k \<le> LOADER_MAX_NESTED_OBJECTS"
    and fits: "dataPtr w + length (0 # bs) \<le> dataEnd w"
  shows "\<exists>w1. andthen (openContainer a) m w = (Inr (), w1) \<and> boxed (opened a w) (0 # bs) w1 \<and>
           depth w1 = Suc (depth w) \<and> containerHeader w1 ! depth w = dataPtr w \<and> containerIsArray w1 ! depth w = a \<and>
           containerContentsExtraSize w1 ! Suc (depth w) = 0"
proof -
  let ?w = "opened a w"
  have o: "shape_ok ?w" "depth ?w + k \<le> LOADER_MAX_NESTED_OBJECTS" "dataPtr ?w + length ([0] @ bs) \<le> dataEnd ?w"
    using opened_shape [OF w(1)] w(2) fits by (auto simp: opened_def)
  have "boxes (putByte 0) [0] k" using boxes_mono [OF boxes_emits [OF emits_putByte]] by simp
  from boxesD(1) [OF boxes_andthen [OF this m] o] obtain w1 where
    w1: "andthen (putByte 0) m ?w = (Inr (), w1)" "boxed ?w (0 # bs) w1" by auto
  have "openContainer a w = putByte 0 ?w" using w(2) by (simp add: openContainer_run)
  then have "andthen (openContainer a) m w = andthen (putByte 0) m ?w" by (simp add: andthen_def bnd_def)
  note b = boxedD [OF w1(2)]
  have l: "length (containerHeader w) = 16" "length (containerIsArray w) = 16" "length (containerContentsExtraSize w) = 17"
    "depth w < 16" using w by (auto simp: shape_ok_def LOADER_MAX_NESTED_OBJECTS_def)
  have "containerHeader w1 ! depth w = containerHeader ?w ! depth w"
    by (rule nth_take_eq [OF b(9)]) (simp add: opened_def)
  moreover have "containerIsArray w1 ! depth w = containerIsArray ?w ! depth w"
    by (rule nth_take_eq [OF b(10)]) (simp add: opened_def)
  moreover have "containerContentsExtraSize w1 ! Suc (depth w) = containerContentsExtraSize ?w ! Suc (depth w)"
    by (rule nth_take_eq [OF b(11)]) (simp add: opened_def)
  ultimately show ?thesis using \<open>andthen (openContainer a) m w = _\<close> w1 b(7) l by (simp add: opened_def)
qed

lemma andthen_assoc: "andthen (andthen m n) p = andthen m (andthen n p)"
  by (rule ext) (simp add: andthen_def bnd_def split: prod.splits sum.splits)

lemma container_overflow:
  assumes m: "boxes m bs k" and w: "shape_ok w" "depth w + Suc k \<le> LOADER_MAX_NESTED_OBJECTS"
    and fits: "\<not> dataPtr w + length (0 # bs) \<le> dataEnd w"
  shows "\<exists>w'. andthen (openContainer a) m w = (Inl overflow, w') \<and> memory_safe w w'"
proof -
  let ?w = "opened a w"
  have o: "shape_ok ?w" "depth ?w + k \<le> LOADER_MAX_NESTED_OBJECTS" "\<not> dataPtr ?w + length ([0] @ bs) \<le> dataEnd ?w"
    using opened_shape [OF w(1)] w(2) fits by (auto simp: opened_def)
  have "boxes (putByte 0) [0] k" using boxes_mono [OF boxes_emits [OF emits_putByte]] by simp
  from boxesD(2) [OF boxes_andthen [OF this m] o] obtain w1 where
    w1: "andthen (putByte 0) m ?w = (Inl overflow, w1)" "memory_safe ?w w1" by auto
  have "openContainer a w = putByte 0 ?w" using w(2) by (simp add: openContainer_run)
  then have "andthen (openContainer a) m w = andthen (putByte 0) m ?w" by (simp add: andthen_def bnd_def)
  moreover have "memory_safe w w1" using w1(2) by (simp add: memory_safe_def opened_def)
  ultimately show ?thesis using w1 by auto
qed

lemma boxes_container:
  assumes m: "boxes m bs k" and small: "length bs < 0x80"
  shows "boxes (seqs [openContainer a, m, closeContainer a]) (of_nat (length bs) # bs) (Suc k)"
  unfolding boxes_def
proof (intro allI impI)
  fix w assume w: "shape_ok w \<and> depth w + Suc k \<le> LOADER_MAX_NESTED_OBJECTS"
  have sq: "seqs [openContainer a, m, closeContainer a] = andthen (andthen (openContainer a) m) (closeContainer a)"
    by (simp add: andthen_assoc)
  let ?bs = "of_nat (length bs) # bs"
  show "if dataPtr w + length ?bs \<le> dataEnd w
        then \<exists>w'. seqs [openContainer a, m, closeContainer a] w = (Inr (), w') \<and> boxed w ?bs w'
        else \<exists>w'. seqs [openContainer a, m, closeContainer a] w = (Inl overflow, w') \<and> memory_safe w w'"
  proof (cases "dataPtr w + length ?bs \<le> dataEnd w")
    case True
    with container_content [OF m, of w a] w obtain w1 where w1:
      "andthen (openContainer a) m w = (Inr (), w1)" "boxed (opened a w) (0 # bs) w1" "depth w1 = Suc (depth w)"
      "containerHeader w1 ! depth w = dataPtr w" "containerIsArray w1 ! depth w = a"
      "containerContentsExtraSize w1 ! Suc (depth w) = 0" by auto
    note b = boxedD [OF w1(2)]
    have p: "dataPtr w1 = dataPtr w + Suc (length bs)" using b(12) by (simp add: opened_def)
    let ?w = "w1\<lparr>depth := depth w, wmem := store_bytes (dataPtr w) [of_nat (length bs)] (wmem w1)\<rparr>"
    have run: "closeContainer a w1 = (Inr (), ?w)"
      unfolding closeContainer_run [OF w1(3)] using w1 p small by (simp add: Let_def)
    have l: "load_bytes (wmem w1) (dataPtr w) (Suc (length bs)) = 0 # bs" using b(13) by (simp add: opened_def)
    then have lb: "load_bytes (wmem w1) (Suc (dataPtr w)) (length bs) = bs" by (simp add: load_bytes_Suc)
    have "load_bytes (wmem ?w) (dataPtr w) (length ?bs) = ?bs"
      using lb by (simp add: load_bytes_Suc load_store_above) (simp add: store_bytes_def)
    moreover have "memory_safe w ?w"
      using b(2) True by (auto simp: memory_safe_def opened_def store_bytes_outside)
    moreover have "take (depth w) (containerHeader w1) = take (depth w) (containerHeader w)"
      using arg_cong [OF b(9), of "take (depth w)"] by (simp add: opened_def min_def)
    moreover have "take (depth w) (containerIsArray w1) = take (depth w) (containerIsArray w)"
      using arg_cong [OF b(10), of "take (depth w)"] by (simp add: opened_def min_def)
    moreover have "take (Suc (depth w)) (containerContentsExtraSize w1) = take (Suc (depth w)) (containerContentsExtraSize w)"
      using arg_cong [OF b(11), of "take (Suc (depth w))"] by (simp add: opened_def min_def)
    ultimately have "boxed w ?bs ?w"
      using b p True by (simp add: boxed_def shape_ok_def opened_def)
    then show ?thesis using True run w1(1) unfolding sq by (simp add: andthen_ok)
  next
    case False
    with container_overflow [OF m, of w a] w show ?thesis unfolding sq by (auto simp: andthen_err)
  qed
qed

section \<open>Containers of any size at the top level of a message\<close>

text \<open>The message as it will be after the expansion.\<close>

definition assembled :: "writer \<Rightarrow> byte list" where
  "assembled w = expand_rev (rev (expansionPoints w)) (written w)"

text \<open>Between two fields of a message that started at \<open>s\<close>: no container is open, the points are in
  order behind the start, and the extra size is theirs. Offsets into the buffer fit into 32 bits.\<close>

definition top_level :: "nat \<Rightarrow> writer \<Rightarrow> bool" where
  "top_level s w \<longleftrightarrow> shape_ok w \<and> depth w = 0 \<and> s < dataPtr w \<and> dataEnd w - bufferStart w < 2 ^ 30 \<and>
     points_ok (rev (expansionPoints w)) (length (written w)) \<and>
     unat (containerContentsExtraSize w ! 0) = total_extra (expansionPoints w) \<and>
     (\<forall>pt \<in> set (expansionPoints w). s + 1 < bufferStart w + unat (blockOffset pt))"

lemma total_extra_rev [simp]: "total_extra (rev pts) = total_extra pts"
  by (simp add: total_extra_def rev_map [symmetric])

lemma total_extra_append [simp]: "total_extra (pts @ qts) = total_extra pts + total_extra qts"
  by (simp add: total_extra_def)

lemma total_extra_bound: "points_ok pts n \<Longrightarrow> total_extra pts \<le> 2 * n"
proof (induction pts arbitrary: n)
  case (Cons pt pts)
  have "total_extra pts \<le> 2 * (unat (blockOffset pt) - 1)" "0 < unat (blockOffset pt)" "unat (blockOffset pt) \<le> n"
    "point_extra pt \<le> 2"
    using Cons by (auto simp: point_ok_def)
  moreover have "total_extra (pt # pts) = point_extra pt + total_extra pts" by (simp add: total_extra_def)
  ultimately show ?case by linarith
qed (simp add: total_extra_def)

lemma length_written: "length (written w) = dataPtr w - bufferStart w"
  by (simp add: written_def)

lemma length_assembled: "top_level s w \<Longrightarrow> length (assembled w) = length (written w) + total_extra (expansionPoints w)"
  by (simp add: assembled_def top_level_def length_expand_rev)

lemma written_boxed:
  assumes "boxed w bs w'" "shape_ok w"
  shows "written w' = written w @ bs"
proof -
  note b = boxedD [OF assms(1)]
  let ?n = "dataPtr w - bufferStart w"
  have s: "bufferStart w \<le> dataPtr w" using assms(2) by (simp add: shape_ok_def)
  have "load_bytes (wmem w') (bufferStart w) ?n = load_bytes (wmem w) (bufferStart w) ?n"
    using b(2) s unfolding memory_safe_def by (intro load_bytes_cong) simp
  moreover have "dataPtr w' - bufferStart w' = ?n + length bs" using b s by simp
  then have "written w' = load_bytes (wmem w') (bufferStart w) ?n @ load_bytes (wmem w') (bufferStart w + ?n) (length bs)"
    using b(4) by (simp only: written_def load_bytes_append)
  ultimately show ?thesis using b(13) s by (simp add: written_def)
qed

text \<open>\<open>appends\<close>: at the top level, the operation adds these bytes to the assembled message.\<close>

definition appends :: "(writer, unit) op \<Rightarrow> byte list \<Rightarrow> bool" where
  "appends m bs \<longleftrightarrow>
     (\<forall>s w. top_level s w \<and> bufferStart w + length (assembled w) + length bs \<le> dataEnd w \<longrightarrow>
        (\<exists>w'. m w = (Inr (), w') \<and> top_level s w' \<and> assembled w' = assembled w @ bs \<and>
           bufferStart w' = bufferStart w \<and> dataEnd w' = dataEnd w))"

lemma appendsD:
  "appends m bs \<Longrightarrow> top_level s w \<Longrightarrow> bufferStart w + length (assembled w) + length bs \<le> dataEnd w \<Longrightarrow>
     \<exists>w'. m w = (Inr (), w') \<and> top_level s w' \<and> assembled w' = assembled w @ bs \<and>
       bufferStart w' = bufferStart w \<and> dataEnd w' = dataEnd w"
  unfolding appends_def by blast

lemma appends_ret: "appends (ret ()) []"
  by (simp add: appends_def)

lemma appends_andthen:
  assumes "appends m bs" "appends n cs"
  shows "appends (andthen m n) (bs @ cs)"
  unfolding appends_def
proof (intro allI impI)
  fix s w assume w: "top_level s w \<and> bufferStart w + length (assembled w) + length (bs @ cs) \<le> dataEnd w"
  then have "bufferStart w + length (assembled w) + length bs \<le> dataEnd w" by simp
  with appendsD [OF assms(1)] w obtain w' where
    w': "m w = (Inr (), w')" "top_level s w'" "assembled w' = assembled w @ bs" "bufferStart w' = bufferStart w"
      "dataEnd w' = dataEnd w" by blast
  then have "bufferStart w' + length (assembled w') + length cs \<le> dataEnd w'" using w by simp
  from appendsD [OF assms(2) w'(2) this] w'
  show "\<exists>w'. andthen m n w = (Inr (), w') \<and> top_level s w' \<and> assembled w' = assembled w @ bs @ cs \<and>
      bufferStart w' = bufferStart w \<and> dataEnd w' = dataEnd w"
    by (auto simp: andthen_ok)
qed

lemma appends_mapM: "(\<And>x. x \<in> set xs \<Longrightarrow> appends (f x) (g x)) \<Longrightarrow> appends (mapM f xs) (concat (map g xs))"
proof (induction xs)
  case Nil
  show ?case unfolding mapM.simps list.map concat.simps by (rule appends_ret)
next
  case (Cons x xs)
  then show ?case using appends_andthen [of "f x" "g x"] by simp
qed

lemma appends_boxes:
  assumes m: "boxes m bs k" "k \<le> LOADER_MAX_NESTED_OBJECTS"
  shows "appends m bs"
  unfolding appends_def
proof (intro allI impI)
  fix s w assume w: "top_level s w \<and> bufferStart w + length (assembled w) + length bs \<le> dataEnd w"
  then have sh: "shape_ok w" "depth w + k \<le> LOADER_MAX_NESTED_OBJECTS" "bufferStart w \<le> dataPtr w"
    using m(2) by (auto simp: top_level_def shape_ok_def)
  have "dataPtr w + length bs \<le> dataEnd w"
    using w length_assembled [of s w] sh(3) by (simp add: length_written)
  from boxesD(1) [OF m(1) sh(1,2) this] obtain w' where w': "m w = (Inr (), w')" "boxed w bs w'" by blast
  note b = boxedD [OF w'(2)]
  have wr: "written w' = written w @ bs" by (rule written_boxed [OF w'(2) sh(1)])
  have pk: "points_ok (rev (expansionPoints w)) (length (written w))" using w by (simp add: top_level_def)
  have "assembled w' = assembled w @ bs" unfolding assembled_def b(8) wr by (rule expand_rev_append [OF pk])
  moreover have "containerContentsExtraSize w' ! 0 = containerContentsExtraSize w ! 0"
    by (rule nth_take_eq [OF b(11)]) simp
  moreover have "points_ok (rev (expansionPoints w)) (length (written w'))"
    by (rule points_ok_mono [OF pk]) (simp add: wr)
  ultimately have "top_level s w'" using w b by (simp add: top_level_def)
  then show "\<exists>w'. m w = (Inr (), w') \<and> top_level s w' \<and> assembled w' = assembled w @ bs \<and>
      bufferStart w' = bufferStart w \<and> dataEnd w' = dataEnd w"
    using w' b \<open>assembled w' = _\<close> by blast
qed

text \<open>The packed length is the 22-bit encoding of the length, with the number of additional bytes in
  its top byte.\<close>

lemma packed_length_bits:
  assumes "len < 2 ^ 22" "e = extra_header_bytes len" "n = (of_nat len :: 32 word)"
  shows "packed_length len =
    (take_bit 6 n OR push_bit 6 (e + 1) OR push_bit 8 (drop_bit 6 n) OR push_bit 24 e)"
proof -
  have "unat n < 2 ^ 22" using assms(1,3) by (simp add: unsigned_of_nat take_bit_nat_eq_self)
  then have "take_bit 22 n = n" by (rule word_take_bit_self)
  then have n22: "bit n i \<Longrightarrow> i < 22" for i by (metis bit_take_bit_iff)
  have e: "e = 1 \<or> e = 2" using assms(2) by (auto simp: extra_header_bytes_def)
  then have e1: "bit e i \<Longrightarrow> i < 2" "bit (e + 1) i \<Longrightarrow> i < 2" for i
    by (auto simp: bit_1_iff bit_2_iff) (auto simp: bit_iff_odd numeral_eq_Suc less_Suc_eq_0_disj div_word_less word_less_nat_alt)
  have low: "n AND 0x3F = take_bit 6 n" using and_exp_take [of n 6] by simp
  have high: "push_bit 2 (n AND NOT 0x3F) = push_bit 8 (drop_bit 6 n)"
  proof -
    have "n AND NOT 0x3F = push_bit 6 (drop_bit 6 n)"
    proof -
      have "(0x3F :: 32 word) = mask 6" by (simp add: mask_eq_exp_minus_1)
      then show ?thesis by (simp add: bit_eq_iff bit_simps) auto
    qed
    then show ?thesis by simp
  qed
  have "push_bit 6 e + 0x40 = push_bit 6 (e + 1)" using e by auto
  then have "packed_length len = (take_bit 6 n + push_bit 8 (drop_bit 6 n)) + push_bit 24 e + push_bit 6 (e + 1)"
    unfolding packed_length_def Let_def assms(3) [symmetric] low high assms(2) [symmetric] by (simp only: add.assoc)
  also have "take_bit 6 n + push_bit 8 (drop_bit 6 n) = take_bit 6 n OR push_bit 8 (drop_bit 6 n)"
    by (rule disjunctive_add) (auto simp: bit_simps)
  also have "(take_bit 6 n OR push_bit 8 (drop_bit 6 n)) + push_bit 24 e =
      take_bit 6 n OR push_bit 8 (drop_bit 6 n) OR push_bit 24 e"
    by (subst disjunctive_add) (auto simp: bit_simps ac_simps dest: n22)
  also have "(take_bit 6 n OR push_bit 8 (drop_bit 6 n) OR push_bit 24 e) + push_bit 6 (e + 1) =
      (take_bit 6 n OR push_bit 8 (drop_bit 6 n) OR push_bit 24 e) OR push_bit 6 (e + 1)"
    by (rule disjunctive_add) (auto simp: bit_simps dest: e1)
  finally show ?thesis by (simp only: or.assoc or.commute or.left_commute)
qed

lemma extra_bits:
  assumes "e = 1 \<or> e = (2 :: 32 word)"
  shows "bit e i \<Longrightarrow> i < 2" "bit (e + 1) i \<Longrightarrow> i < 2"
proof -
  have "take_bit 2 e = e" "take_bit 2 (e + 1) = e + 1" using assms by auto
  then show "bit e i \<Longrightarrow> i < 2" "bit (e + 1) i \<Longrightarrow> i < 2" by (metis bit_take_bit_iff)+
qed

text \<open>The packed word for a number \<open>n\<close> and a count \<open>e\<close> in general.\<close>

definition packed_word :: "32 word \<Rightarrow> 32 word \<Rightarrow> 32 word" where
  "packed_word e n = (take_bit 6 n OR push_bit 6 (e + 1) OR push_bit 8 (drop_bit 6 n) OR push_bit 24 e)"

lemma bit_packed_word:
  assumes "e = 1 \<or> e = 2" "take_bit 22 n = n"
  shows "bit (packed_word e n) i \<longleftrightarrow> i < 32 \<and>
     (if i < 6 then bit n i else if i < 8 then bit (e + 1) (i - 6) else if i < 24 then bit n (i - 2) else bit e (i - 24))"
proof -
  have n: "bit n j \<Longrightarrow> j < 22" for j using assms(2) by (metis bit_take_bit_iff)
  note e = extra_bits [OF assms(1)]
  have s: "i - 8 + 6 = i - 2" if "8 \<le> i" using that by simp
  show ?thesis
    unfolding packed_word_def bit_or_iff bit_push_bit_iff bit_take_bit_iff bit_drop_bit_eq comp_apply
    using n [of "i - 2"] e(1) [of "i - 24"] e(2) [of "i - 6"] s
    by (auto simp: add.commute dest: bit_imp_le_length)
qed

lemma packed_word_low:
  assumes "e = 1 \<or> e = 2" "take_bit 22 n = n" "k \<le> 2"
  shows "le_bytes (k + 1) (packed_word e n) = ucast (take_bit 6 n OR push_bit 6 (e + 1)) # le_bytes k (drop_bit 6 n)"
proof (rule nth_equalityI)
  note b = bit_packed_word [OF assms(1,2)]
  fix i assume i: "i < length (le_bytes (k + 1) (packed_word e n))"
  show "le_bytes (k + 1) (packed_word e n) ! i = (ucast (take_bit 6 n OR push_bit 6 (e + 1)) # le_bytes k (drop_bit 6 n)) ! i"
  proof (cases i)
    case 0
    have "ucast (packed_word e n) = (ucast (take_bit 6 n OR push_bit 6 (e + 1)) :: 8 word)"
      by (rule bit_word_eqI) (auto simp: b bit_ucast_iff bit_or_iff bit_take_bit_iff bit_push_bit_iff)
    then show ?thesis using 0 by simp
  next
    case (Suc j)
    have "ucast (drop_bit (8 * Suc j) (packed_word e n)) = (ucast (drop_bit (8 * j) (drop_bit 6 n)) :: 8 word)"
    proof (rule bit_word_eqI)
      fix m assume m: "m < LENGTH(8)"
      have "8 * Suc j + m < 24" "8 * Suc j + m - 2 = 6 + (8 * j + m)" using Suc i assms(3) m by simp_all
      then have "bit (packed_word e n) (8 * Suc j + m) = bit n (6 + (8 * j + m))" using b [of "8 * Suc j + m"] by simp
      then show "bit (ucast (drop_bit (8 * Suc j) (packed_word e n)) :: 8 word) m =
          bit (ucast (drop_bit (8 * j) (drop_bit 6 n)) :: 8 word) m"
        using m by (simp only: bit_ucast_iff bit_drop_bit_eq comp_apply)
    qed
    then show ?thesis using Suc i by (simp del: drop_bit_drop_bit)
  qed
qed simp

lemma packed_word_high:
  assumes "e = 1 \<or> e = 2" "take_bit 22 n = n"
  shows "drop_bit 24 (packed_word e n) = e"
    and "take_bit 14 n = n \<Longrightarrow> drop_bit 16 (packed_word e n AND 0xFFFFFF) = 0"
proof -
  note b = bit_packed_word [OF assms] and e = extra_bits [OF assms(1)]
  show "drop_bit 24 (packed_word e n) = e"
  proof (rule bit_word_eqI)
    fix k assume "k < LENGTH(32)"
    then show "bit (drop_bit 24 (packed_word e n)) k = bit e k"
      using e(1) [of k] by (auto simp: bit_drop_bit_eq b)
  qed
  assume "take_bit 14 n = n"
  then have n: "bit n j \<Longrightarrow> j < 14" for j by (metis bit_take_bit_iff)
  have m: "packed_word e n AND 0xFFFFFF = take_bit 24 (packed_word e n)" using and_exp_take [of "packed_word e n" 24] by simp
  show "drop_bit 16 (packed_word e n AND 0xFFFFFF) = 0"
    unfolding m by (rule bit_word_eqI) (auto simp: bit_drop_bit_eq bit_take_bit_iff b dest: n)
qed

lemma packed_length_point:
  assumes "0x80 \<le> len" "len < 2 ^ 22" "headerLength pt = packed_length len" "0 < unat (blockOffset pt)"
  shows "point_ok pt" "point_header pt = puint22_bytes (of_nat len)" "point_extra pt = unat (extra_header_bytes len)"
proof -
  define e where "e = extra_header_bytes len"
  obtain n where n: "n = (of_nat len :: 32 word)" by simp
  have e: "e = (if len < 0x4000 then 1 else 2)" by (simp add: e_def extra_header_bytes_def)
  then have e12: "e = 1 \<or> e = 2" by simp
  have un: "unat n = len" using assms(2) n by (simp add: unsigned_of_nat take_bit_nat_eq_self)
  have t: "take_bit 22 n = n" using un assms(2) by (intro word_take_bit_self) simp
  have h: "packed_length len = packed_word e n"
    unfolding packed_word_def by (rule packed_length_bits [OF assms(2) e_def n])
  have xe: "point_extra pt = unat e" by (simp add: point_extra_def assms(3) h packed_word_high(1) [OF e12 t])
  then show "point_extra pt = unat (extra_header_bytes len)" by (simp only: e_def)
  have xn: "point_extra pt = (if len < 0x4000 then 1 else 2)" unfolding xe e by simp
  have "drop_bit 16 (packed_length len AND 0xFFFFFF) = 0" if "point_extra pt = 1"
  proof -
    have "len < 0x4000" using that unfolding xn by (rule contrapos_pp) simp
    then have "len < 2 ^ 14" by simp
    then have "take_bit 14 n = n" using un by (intro word_take_bit_self) simp
    then show ?thesis unfolding h by (rule packed_word_high(2) [OF e12 t])
  qed
  then show "point_ok pt" using xn assms(3,4) by (auto simp: point_ok_def)
  have ge: "0x80 \<le> n" "n < 2 ^ 22" "n < 0x4000 \<longleftrightarrow> len < 0x4000"
    using assms(1,2) un by (simp_all add: word_le_nat_alt word_less_nat_alt)
  have vl: "vli_length (unat (drop_bit 6 n)) = point_extra pt" using puint22_extra [OF ge(1,2)] ge(3) xn by simp
  have pe: "point_extra pt = 1 \<or> point_extra pt = 2" using xn by auto
  have oe: "of_nat (point_extra pt + 1) = e + 1" using xn e by auto
  have "point_header pt = le_bytes (point_extra pt + 1) (packed_word e n)" by (simp only: point_header_def assms(3) h)
  also have "\<dots> = ucast (take_bit 6 n OR push_bit 6 (e + 1)) # le_bytes (point_extra pt) (drop_bit 6 n)"
    by (rule packed_word_low [OF e12 t]) (use pe in auto)
  also have "\<dots> = puint22_bytes n"
  proof -
    have "\<not> n < 0x80" using ge(1) by (simp only: not_less)
    moreover have "vli_bytes (drop_bit 6 n) = le_bytes (point_extra pt) (drop_bit 6 n)"
      using vl by (simp only: vli_bytes_def vli_length_def bsr_def)
    ultimately show ?thesis
      unfolding puint22_bytes_def vl puint22_header [OF pe] oe by (simp only: if_False)
  qed
  finally show "point_header pt = puint22_bytes (of_nat len)" by (simp only: n)
qed

lemma take_take_eq: "take n xs = take n ys \<Longrightarrow> k \<le> n \<Longrightarrow> take k xs = take k ys"
  by (metis min.absorb1 take_take)

lemma written_split:
  assumes "bufferStart w \<le> p" "p \<le> dataPtr w"
  shows "written w = load_bytes (wmem w) (bufferStart w) (p - bufferStart w) @ load_bytes (wmem w) p (dataPtr w - p)"
proof -
  have "dataPtr w - bufferStart w = (p - bufferStart w) + (dataPtr w - p)" using assms by simp
  then show ?thesis using assms by (simp only: written_def load_bytes_append) simp
qed

lemma load_patched: "load_bytes (store_bytes p [g] m) p (Suc n) = g # load_bytes m (Suc p) n"
  by (simp add: load_bytes_Suc load_store_above) (simp add: store_bytes_def)

text \<open>A container at the top level, of any size, as long as its own containers are small.\<close>

lemma top_level_container:
  assumes top: "top_level s w" and fits: "bufferStart w + length (assembled w) + length (puint22_bytes (of_nat (length bs)) @ bs) \<le> dataEnd w"
    and m: "boxes m bs k" "Suc k \<le> LOADER_MAX_NESTED_OBJECTS" and len: "0x80 \<le> length bs" "length bs < 2 ^ 22"
  shows "\<exists>w'. seqs [openContainer a, m, closeContainer a] w = (Inr (), w') \<and> top_level s w' \<and>
    assembled w' = assembled w @ puint22_bytes (of_nat (length bs)) @ bs \<and>
    bufferStart w' = bufferStart w \<and> dataEnd w' = dataEnd w"
proof -
  have sq: "seqs [openContainer a, m, closeContainer a] = andthen (andthen (openContainer a) m) (closeContainer a)"
    by (simp add: andthen_assoc)
  have sh: "shape_ok w" "depth w = 0" "bufferStart w \<le> dataPtr w" "s < dataPtr w" "length (containerContentsExtraSize w) = 17"
    using top by (auto simp: top_level_def shape_ok_def)
  have la: "length (assembled w) = dataPtr w - bufferStart w + total_extra (expansionPoints w)"
    using length_assembled [OF top] by (simp add: length_written)
  have "dataPtr w + length (0 # bs) \<le> dataEnd w" using fits la sh(3) by (simp add: puint22_bytes_def split: if_splits)
  with container_content [OF m(1) sh(1), of a] m(2) sh(2) obtain w1 where w1:
    "andthen (openContainer a) m w = (Inr (), w1)" "boxed (opened a w) (0 # bs) w1" "depth w1 = Suc 0"
    "containerHeader w1 ! 0 = dataPtr w" "containerIsArray w1 ! 0 = a" "containerContentsExtraSize w1 ! Suc 0 = 0" by auto
  note b = boxedD [OF w1(2)]
  have p: "dataPtr w1 = dataPtr w + Suc (length bs)" "bufferStart w1 = bufferStart w" "dataEnd w1 = dataEnd w"
    "expansionPoints w1 = expansionPoints w" using b by (simp_all add: opened_def)
  let ?L = "length bs" and ?o = "Suc (dataPtr w) - bufferStart w"
  define pt where "pt = \<lparr>blockOffset = of_nat ?o, headerLength = packed_length ?L\<rparr>"
  define w2 where "w2 = w1\<lparr>depth := 0, wmem := store_bytes (dataPtr w) [of_nat ?L] (wmem w1),
      containerContentsExtraSize := (containerContentsExtraSize w1)[0 := containerContentsExtraSize w1 ! 0 + extra_header_bytes ?L],
      expansionPoints := expansionPoints w @ [pt]\<rparr>"
  have run: "closeContainer a w1 = (Inr (), w2)"
    unfolding closeContainer_run [OF w1(3)] w2_def pt_def using w1 p len(1) by (simp add: Let_def)
  have small: "?o < 2 ^ 30"
    using top fits la sh by (simp add: top_level_def puint22_bytes_def split: if_splits)
  then have off: "unat (blockOffset pt) = ?o" by (simp add: pt_def unsigned_of_nat take_bit_nat_eq_self)
  have pos: "0 < unat (blockOffset pt)" unfolding off using sh(3) by simp
  note pk = packed_length_point [OF len, of pt]
  have pk: "point_ok pt" "point_header pt = puint22_bytes (of_nat ?L)" "point_extra pt = unat (extra_header_bytes ?L)"
    using pk pos by (simp_all add: pt_def)
  have mem: "load_bytes (wmem w1) (bufferStart w) (dataPtr w - bufferStart w) = written w"
    using b(2) sh(3) unfolding written_def by (intro load_bytes_cong) (simp add: memory_safe_def opened_def)
  have cont: "load_bytes (wmem w1) (Suc (dataPtr w)) ?L = bs" using b(13) by (simp add: opened_def load_bytes_Suc)
  have wr: "written w2 = written w @ of_nat ?L # bs"
  proof -
    have "written w2 = load_bytes (wmem w2) (bufferStart w) (dataPtr w - bufferStart w) @ load_bytes (wmem w2) (dataPtr w) (Suc ?L)"
      using written_split [of w2 "dataPtr w"] p sh(3) by (simp add: w2_def)
    then show ?thesis using mem cont sh(3) by (simp add: w2_def load_patched load_store_below)
  qed
  have lw: "length (written w) = dataPtr w - bufferStart w" by (rule length_written)
  have asm: "assembled w2 = assembled w @ puint22_bytes (of_nat ?L) @ bs"
  proof -
    have "assembled w2 = expand_rev (pt # rev (expansionPoints w)) (written w @ of_nat ?L # bs)"
      unfolding assembled_def wr by (simp add: w2_def)
    then show ?thesis using sh(3) by (simp add: off lw pk(2) assembled_def Suc_diff_le)
  qed
  have x0: "containerContentsExtraSize w1 ! 0 = containerContentsExtraSize w ! 0"
    using nth_take_eq [OF b(11), of 0] by (simp add: opened_def)
  have l1: "length (containerContentsExtraSize w1) = 17" using b(1) by (simp add: shape_ok_def)
  have "total_extra (expansionPoints w) \<le> 2 * length (written w)"
    using total_extra_bound [of "rev (expansionPoints w)" "length (written w)"] top by (simp add: top_level_def)
  moreover have "unat (extra_header_bytes ?L) \<le> 2" by (simp add: extra_header_bytes_def)
  ultimately have nov: "unat (containerContentsExtraSize w ! 0) + unat (extra_header_bytes ?L) < 2 ^ 32"
    using top small lw by (simp add: top_level_def)
  have extra: "unat (containerContentsExtraSize w2 ! 0) = total_extra (expansionPoints w2)"
    using top nov by (simp add: w2_def l1 x0 unat_word_ariths pk(3) top_level_def total_extra_def)
  have "points_ok (rev (expansionPoints w2)) (length (written w2))"
  proof -
    have "expansionPoints w2 = expansionPoints w @ [pt]" by (simp add: w2_def)
    moreover have "?o \<le> length (written w2)" using lw sh(3) by (simp add: wr Suc_diff_le)
    moreover have "?o - 1 = length (written w)" using lw sh(3) by (simp add: Suc_diff_le)
    ultimately show ?thesis using top pk(1) by (simp add: off top_level_def)
  qed
  then have "top_level s w2"
    using top b(1) extra p sh off by (auto simp: w2_def top_level_def shape_ok_def)
  then show ?thesis using run w1(1) asm p unfolding sq by (simp add: andthen_ok) (simp add: w2_def)
qed

lemma appends_container:
  assumes m: "boxes m bs k" "Suc k \<le> LOADER_MAX_NESTED_OBJECTS" and len: "length bs < 2 ^ 22"
  shows "appends (seqs [openContainer a, m, closeContainer a]) (puint22_bytes (of_nat (length bs)) @ bs)"
proof (cases "length bs < 0x80")
  case True
  have "(of_nat (length bs) :: 32 word) < 0x80"
    using True by (simp add: word_less_nat_alt unsigned_of_nat take_bit_nat_eq_self)
  moreover have "ucast (of_nat (length bs) :: 32 word) = (of_nat (length bs) :: 8 word)"
    by (rule bit_word_eqI) (simp add: bit_simps)
  ultimately have "puint22_bytes (of_nat (length bs)) @ bs = of_nat (length bs) # bs" by (simp add: puint22_bytes_def)
  then show ?thesis using appends_boxes [OF boxes_container [OF m(1) True] m(2)] by simp
next
  case False
  then show ?thesis unfolding appends_def using top_level_container [OF _ _ m _ len] by auto
qed

text \<open>The start and the end of a message.\<close>

lemma startMessage_top_level:
  assumes "shape_ok w" "dataPtr w + 4 \<le> dataEnd w" "dataEnd w - bufferStart w < 2 ^ 30" "0 < dataPtr w"
  shows "\<exists>w'. startMessage w = (Inr (dataPtr w + 4), w') \<and> bufferStart w' = bufferStart w \<and> dataEnd w' = dataEnd w \<and>
    assembled w' = written w @ [0, 0, 0, 0] \<and> top_level (dataPtr w + 3) w'"
proof -
  let ?w = "w\<lparr>wmem := store_bytes (dataPtr w) [0, 0, 0, 0] (wmem w), dataPtr := dataPtr w + 4, dataEndNotNull := dataPtr w + 4 + headerSize w,
      expansionPoints := [], containerContentsExtraSize := (containerContentsExtraSize w)[0 := 0], depth := 0\<rparr>"
  have "le_bytes 4 (0 :: 32 word) = [0, 0, 0, 0]" by (simp add: le_bytes_def upt_rec numeral_eq_Suc)
  then have run: "startMessage w = (Inr (dataPtr w + 4), ?w)"
    using assms by (simp add: startMessage_def andthen_def bnd_def checkOverflow_def storeLE_def)
  have sh: "bufferStart w \<le> dataPtr w" "length (containerContentsExtraSize w) = 17" using assms(1) by (simp_all add: shape_ok_def)
  have "written ?w = written w @ [0, 0, 0, 0]"
    using written_split [of ?w "dataPtr w"] sh by (simp add: load_store_below load_store_same) (simp add: written_def)
  moreover have "top_level (dataPtr w + 3) ?w"
    using assms sh by (simp add: top_level_def shape_ok_def total_extra_def)
  ultimately show ?thesis using run by (simp add: assembled_def)
qed

lemma finishMessage_assembles:
  assumes top: "top_level s w" and fits: "bufferStart w + length (assembled w) \<le> dataEnd w"
  shows "\<exists>w'. finishMessage s w = (Inr (bufferStart w + length (assembled w)), w') \<and>
    written w' = assembled w \<and> dataPtr w' = bufferStart w + length (assembled w) \<and> bufferStart w' = bufferStart w \<and>
    dataEnd w' = dataEnd w"
proof -
  have sh: "bufferStart w \<le> dataPtr w" "depth w = 0" "s < dataPtr w" using top by (auto simp: top_level_def shape_ok_def)
  have ex: "unat (containerContentsExtraSize w ! 0) = total_extra (expansionPoints w)"
    and pk: "points_ok (rev (expansionPoints w)) (dataPtr w - bufferStart w)"
    and after: "\<And>pt. pt \<in> set (expansionPoints w) \<Longrightarrow> s + 1 < bufferStart w + unat (blockOffset pt)"
    using top by (auto simp: top_level_def length_written)
  have la: "length (assembled w) = dataPtr w - bufferStart w + total_extra (expansionPoints w)"
    using length_assembled [OF top] by (simp add: length_written)
  show ?thesis
  proof (cases "expansionPoints w = []")
    case True
    then have "finishMessage s w = (Inr (dataPtr w), w)"
      using ex sh by (simp add: finishMessage_def finishMessageCommon_def bnd_def total_extra_def)
    then show ?thesis using True sh la by (simp add: assembled_def total_extra_def)
  next
    case False
    have pos: "total_extra (expansionPoints w) \<noteq> 0"
    proof -
      obtain pt pts where "rev (expansionPoints w) = pt # pts" using False by (cases "rev (expansionPoints w)") auto
      then show ?thesis using pk total_extra_rev [of "expansionPoints w"] by (auto simp: total_extra_def point_ok_def)
    qed
    have lw: "load_bytes (wmem w) (bufferStart w) (dataPtr w - bufferStart w) = written w" by (simp add: written_def)
    have "dataPtr w - bufferStart w \<le> dataPtr w - bufferStart w" by simp
    from expandHeaders_loop_spec [OF lw pk this sh(1)] False sh(1) obtain m' where m':
      "expandHeaders_loop (bufferStart w) (rev (expansionPoints w)) (dataPtr w) (int (total_extra (expansionPoints w))) (wmem w) =
         Inr (bufferStart w + unat (blockOffset (hd (expansionPoints w))) - 1, 0, m')"
      "load_bytes m' (bufferStart w) (dataPtr w - bufferStart w + total_extra (expansionPoints w)) = assembled w"
      by (auto simp: assembled_def last_rev)
    have "s < bufferStart w + unat (blockOffset (hd (expansionPoints w))) - 1" using after [of "hd (expansionPoints w)"] False by simp
    then have "expandHeaders (bufferStart w) (dataPtr w) (int (total_extra (expansionPoints w))) (expansionPoints w) s w =
        (Inr (), w\<lparr>wmem := m'\<rparr>)"
      using m'(1) False by (simp add: expandHeaders_def expandHeadersImplBasic_def)
    moreover have "\<not> dataEnd w < dataPtr w + total_extra (expansionPoints w)" using fits la sh by simp
    ultimately have run: "finishMessage s w =
        (Inr (dataPtr w + total_extra (expansionPoints w)), w\<lparr>wmem := m', dataPtr := dataPtr w + total_extra (expansionPoints w)\<rparr>)"
      using sh ex pos by (simp add: finishMessage_def finishMessageCommon_def bnd_def andthen_def)
    have "dataPtr w + total_extra (expansionPoints w) - bufferStart w = dataPtr w - bufferStart w + total_extra (expansionPoints w)"
      using sh(1) by simp
    then have "written (w\<lparr>wmem := m', dataPtr := dataPtr w + total_extra (expansionPoints w)\<rparr>) = assembled w"
      using m'(2) by (simp add: written_def)
    then show ?thesis using run la sh(1) by simp
  qed
qed
end
