(* ===== verification/StringReader.thy ===== *)
theory StringReader
  imports FieldReader
begin

text \<open>
  The decoders of strings, binary arrays, alphanumerics and decimals
  (\<^verbatim>\<open>tickdb/data_reader.cpp\<close>, \<^verbatim>\<open>tickdb/data_reader_impl.h\<close>). \<open>getBytes\<close> is the one that may
  need more bytes than the buffer holds: it copies what there is and asks for one more byte.
\<close>

section \<open>Copying bytes\<close>

text \<open>The loop of \<open>getBytes\<close>. After the first step every step copies at least one byte, so
  \<open>n + 2\<close> steps are enough (\<open>getBytes_enough\<close>).\<close>

fun getBytes_loop :: "nat \<Rightarrow> nat \<Rightarrow> byte list \<Rightarrow> nat \<Rightarrow> (reader, byte list) op" where
  "getBytes_loop 0 p acc dataLength = throw (Undefined ''fuel'')"
| "getBytes_loop (Suc k) p acc dataLength =
     bnd (gets (\<lambda>r. rdataEnd r - p)) (\<lambda>n.
     if n < dataLength
     then bnd (gets (\<lambda>r. load_bytes (rmem r) p n)) (\<lambda>cs.
          bnd (vget (p + n) 1) (\<lambda>p'. getBytes_loop k p' (acc @ cs) (dataLength - n)))
     else bnd (gets (\<lambda>r. load_bytes (rmem r) p dataLength)) (\<lambda>cs.
          andthen (modify (\<lambda>r. r\<lparr>rdataPtr := p + dataLength\<rparr>)) (ret (acc @ cs))))"

definition getBytes :: "nat \<Rightarrow> (reader, byte list) op" where
  "getBytes dataLength = bnd (gets rdataPtr) (\<lambda>p. getBytes_loop (dataLength + 2) p [] dataLength)"

section \<open>Strings and binary arrays\<close>

text \<open>\<open>None\<close> is a null: the overload returns false.\<close>

definition getUTF8length :: "(reader, int) op" where
  "getUTF8length = bnd getUInt16 (\<lambda>x. ret (uint (x + 1) - 1))"

definition getUTF8_inl :: "(reader, byte list option) op" where
  "getUTF8_inl = bnd getUInt16 (\<lambda>len. if len = 0xFFFF then ret None else bnd (getBytes (unat len)) (\<lambda>s. ret (Some s)))"

definition getAscii_inl :: "(reader, byte list option) op" where
  "getAscii_inl = bnd getUInt16 (\<lambda>len. if len = 0xFFFF then ret None else bnd (getBytes (unat len)) (\<lambda>s. ret (Some s)))"

definition readUTF8 :: "(reader, byte list option) op" where
  "readUTF8 = bnd (gets endOfContent) (\<lambda>e. if e then ret None else getUTF8_inl)"

definition readAscii :: "(reader, byte list option) op" where
  "readAscii = bnd (gets endOfContent) (\<lambda>e. if e then ret None else getAscii_inl)"

definition skipUTF8 :: "(reader, unit) op" where
  "skipUTF8 = skipField (bnd getUInt16 (\<lambda>l. ret (if l = 0xFFFF then 0 else unat l)))"

definition skipAscii :: "(reader, unit) op" where
  "skipAscii = skipField (bnd getUInt16 (\<lambda>l. ret (if l = 0xFFFF then 0 else unat l)))"

text \<open>There is no test for the end of the content here.\<close>

definition readBinary :: "(reader, byte list option) op" where
  "readBinary =
     bnd getByte (\<lambda>b. if b \<noteq> 0 then ret None
     else bnd getPackedUInt30 (\<lambda>len. bnd (getBytes (unat len)) (\<lambda>s. ret (Some s))))"

definition skipBinary :: "(reader, unit) op" where
  "skipBinary =
     bnd (gets endOfContent) (\<lambda>e. if e then ret ()
     else bnd getByte (\<lambda>b. if b \<noteq> 0 then ret () else bnd getPackedUInt30 (\<lambda>len. skip (unat len))))"

section \<open>Alphanumerics\<close>

text \<open>The unpacking loop of the 32-bit instance: six bits per character from an accumulator that takes
  24 more bits when it runs out.\<close>

fun getAlphanumeric_loop :: "nat \<Rightarrow> memory \<Rightarrow> nat \<Rightarrow> 32 word \<Rightarrow> int \<Rightarrow> 32 word list" where
  "getAlphanumeric_loop 0 m p accumulator bitIndex = []"
| "getAlphanumeric_loop (Suc k) m p accumulator bitIndex =
     (let c = (drop_bit (nat bitIndex) accumulator AND 0x3F) + 0x20; b = bitIndex - 6
      in c # (if b < 0
              then getAlphanumeric_loop k m (p + 3) (push_bit 24 accumulator OR drop_bit 8 (loadBE m p)) (b + 24)
              else getAlphanumeric_loop k m p accumulator b))"

definition getAlphanumeric :: "32 word \<Rightarrow> (reader, 32 word list option) op" where
  "getAlphanumeric sz =
     (let n1 = sz + 1; sizeBits = bsr n1; numHeaderBytes = (sizeBits + 7) div 8 in
      bnd (peek numHeaderBytes) (\<lambda>p.
      bnd (gets (\<lambda>r. unat (drop_bit (32 - sizeBits) (loadBE (rmem r) p :: 32 word)))) (\<lambda>len.
      if unat n1 = len then andthen (skip numHeaderBytes) (ret None)
      else bnd (bytes ((sizeBits + len * 6 + 7) div 8)) (\<lambda>p.
           gets (\<lambda>r. Some (getAlphanumeric_loop len (rmem r) (p + 4) (loadBE (rmem r) p) (32 - int sizeBits - 6)))))))"

definition readAlphanumeric :: "32 word \<Rightarrow> (reader, 32 word list option) op" where
  "readAlphanumeric sz = bnd (gets endOfContent) (\<lambda>e. if e then ret None else getAlphanumeric sz)"

definition highbytemask64LUT :: "64 word list" where
  "highbytemask64LUT = [0, 0xFF00000000000000, 0xFFFF000000000000, 0xFFFFFF0000000000, 0xFFFFFFFF00000000,
     0xFFFFFFFFFF000000, 0xFFFFFFFFFFFF0000, 0xFFFFFFFFFFFFFF00, 0xFFFFFFFFFFFFFFFF]"

text \<open>The 64-bit mask is converted to the result's type after the conjunction, so the 32-bit instance
  masks with the low half of a mask of high bytes.\<close>

definition getAlphanumericAs :: "32 word \<Rightarrow> (reader, 'a::len word) op" where
  "getAlphanumericAs sz =
     (let n1 = sz + 1; nSizeBits = bsr n1 in
      if 10 + 1 < n1 then throw (RuntimeError ''Size is too big for AlphanumericInt'')
      else bnd (peek 1) (\<lambda>p.
        bnd (gets (\<lambda>r. unat (drop_bit (8 - nSizeBits) (loadBE (rmem r) p :: 8 word)))) (\<lambda>len.
        if unat n1 \<le> len then
          (if len = unat n1 then andthen (skip 1) (ret (push_bit (LENGTH('a) - 8) 0x80))
           else throw (RuntimeError ''Alphanumeric field length is too big to fit into integer type''))
        else (let fullSize = (nSizeBits + 7 + 6 * len) div 8
              in bnd (bytes fullSize) (\<lambda>p.
                 gets (\<lambda>r. ucast (highbytemask64LUT ! fullSize AND ucast (loadBE (rmem r) p :: 'a word))))))))"

definition readAlphanumericAs :: "32 word \<Rightarrow> (reader, 'a::len word) op" where
  "readAlphanumericAs maxFieldLength = orNull (push_bit (LENGTH('a) - 8) 0x80) (getAlphanumericAs maxFieldLength)"

definition getSkipAlphanumeric :: "32 word \<Rightarrow> (reader, unit) op" where
  "getSkipAlphanumeric sz =
     (let n1 = sz + 1; nSizeBits = bsr n1; nSizeBytes = (nSizeBits + 7) div 8 in
      bnd (peek nSizeBytes) (\<lambda>p.
      bnd (gets (\<lambda>r. unat (drop_bit (32 - nSizeBits) (loadBE (rmem r) p :: 32 word)))) (\<lambda>len.
      skip (if len \<noteq> unat n1 then (nSizeBits + 7 + 6 * len) div 8 else nSizeBytes))))"

definition skipAlphanumeric :: "32 word \<Rightarrow> (reader, unit) op" where
  "skipAlphanumeric sz = bnd (gets endOfContent) (\<lambda>e. if e then ret () else getSkipAlphanumeric sz)"

text \<open>The conversions between characters and packed alphanumerics of at most ten characters.\<close>

definition isValidAlphanumeric :: "32 word list option \<Rightarrow> nat \<Rightarrow> bool" where
  "isValidAlphanumeric str len =
     (if len = 0 then True
      else case str of None \<Rightarrow> False
           | Some cs \<Rightarrow> if 0xFFFE < len then False else list_all (\<lambda>c. c - 0x20 < 0x40) (take len cs))"

definition ALPHANUMERIC_NULL :: "64 word" where [layout_defs]: "ALPHANUMERIC_NULL = INT64_NULL"

definition isValidAlphanumeric10 :: "64 word \<Rightarrow> bool" where
  "isValidAlphanumeric10 value \<longleftrightarrow> drop_bit (64 - bsr (11 :: 32 word)) value \<le> 11"

text \<open>The switch falls through from the length's label to the end, in the order of the labels.\<close>

definition duff_order :: "nat list" where
  "duff_order = [10, 9, 7, 8, 6, 5, 4, 3, 2, 1]"

definition fromAlphanumericInt64 :: "32 word list \<Rightarrow> 64 word \<Rightarrow> nat \<times> 32 word list" where
  "fromAlphanumericInt64 dest value =
     (if value = ALPHANUMERIC_NULL then (11, dest)
      else
       let len = unat (drop_bit 60 value); v = push_bit 4 value
       in (len, foldl (\<lambda>d i. d[i - 1 := ucast (drop_bit (64 - 6 * i) v AND 0x3F) + 0x20]) dest
                  (dropWhile (\<lambda>i. i \<noteq> len) duff_order)))"

text \<open>The length is shifted as a 32-bit number by 60, which is undefined.\<close>

definition toAlphanumericInt64 :: "32 word list option \<Rightarrow> nat \<Rightarrow> exn + 64 word" where
  "toAlphanumericInt64 chars len =
     (if 10 < len then Inr ALPHANUMERIC_NULL
      else case chars of None \<Rightarrow> Inr ALPHANUMERIC_NULL | Some _ \<Rightarrow> Inl (Undefined ''shift by 60''))"

section \<open>Decimals\<close>

text \<open>A decimal as it is encoded: the code divides the mantissa by a power of ten in floating point.\<close>

datatype decimal = DecimalNull | NegativeInfinity | PositiveInfinity | PlainFloat "64 word" | DecimalZero
  | Scaled "64 word" nat bool

definition getDecimal :: "(reader, decimal) op" where
  "getDecimal =
     bnd getByte (\<lambda>header.
     if header = 0x1F then ret DecimalNull
     else if header = 0x2F then ret NegativeInfinity
     else if header = 0x3F then ret PositiveInfinity
     else if header = 0x0F then bnd getFloat64 (\<lambda>x. ret (PlainFloat x))
     else let numBytes = unat (drop_bit 4 header AND 0x7) in
       if numBytes = 0 then ret DecimalZero
       else bnd (loadLE_bytes numBytes) (\<lambda>x.
            ret (Scaled (x AND lowbytemask64LUT ! numBytes) (unat (header AND 0x0F)) (bit header 7))))"

definition readDecimal :: "(reader, decimal) op" where
  "readDecimal = orNull DecimalNull getDecimal"

definition skipDecimal :: "(reader, unit) op" where
  "skipDecimal =
     bnd (gets endOfContent) (\<lambda>e. if e then ret ()
     else bnd getByte (\<lambda>header.
       if header = 0x1F \<or> header = 0x2F \<or> header = 0x3F then ret ()
       else if header = 0x0F then skip 8
       else skip (unat (drop_bit 4 header AND 0x7))))"


section \<open>Copying delivers the stream\<close>

lemma getBytes_loop_spec:
  assumes "msg_ok (r\<lparr>rdataPtr := p\<rparr>)" "len + (if p < rdataEnd r then 1 else 2) \<le> k"
  shows "if len \<le> content_left (r\<lparr>rdataPtr := p\<rparr>) \<and> len \<le> length (stream_left (r\<lparr>rdataPtr := p\<rparr>))
         then \<exists>r'. getBytes_loop k p acc len r = (Inr (acc @ take len (stream_left (r\<lparr>rdataPtr := p\<rparr>))), r') \<and>
                consumes len (r\<lparr>rdataPtr := p\<rparr>) r'
         else \<exists>e r'. getBytes_loop k p acc len r = (Inl e, r')"
  using assms
proof (induction k arbitrary: p acc len r)
  case 0
  then show ?case by (simp split: if_splits)
next
  case (Suc k)
  let ?r = "r\<lparr>rdataPtr := p\<rparr>" and ?n = "rdataEnd r - p"
  have ok: "msg_ok ?r" by (rule Suc.prems(1))
  have pe: "p \<le> rdataEnd r" using ok by (auto simp: msg_ok_def buffer_ok_def)
  show ?case
  proof (cases "?n < len")
    case False
    then have nb: "\<not> rdataEnd ?r < rdataPtr ?r + len" using pe by simp
    note s = msg_step [OF ok nb]
    have "getBytes_loop (Suc k) p acc len r = (Inr (acc @ load_bytes (rmem r) p len), r\<lparr>rdataPtr := p + len\<rparr>)"
      using False by (simp add: bnd_def andthen_def)
    then show ?thesis using s by simp
  next
    case True
    let ?rn = "r\<lparr>rdataPtr := p + ?n\<rparr>"
    have nb: "\<not> rdataEnd ?r < rdataPtr ?r + ?n" using pe by simp
    note s = msg_step [OF ok nb]
    have cn: "consumes ?n ?r ?rn" "load_bytes (rmem r) p ?n = take ?n (stream_left ?r)" using s(1,2) by simp_all
    then have okn: "msg_ok ?rn" "stream_left ?rn = drop ?n (stream_left ?r)" "content_left ?rn + ?n = content_left ?r"
      by (simp_all add: consumes_def)
    have "getBytes_loop (Suc k) p acc len r =
        bnd (vget (p + ?n) 1) (\<lambda>p'. getBytes_loop k p' (acc @ load_bytes (rmem r) p ?n) (len - ?n)) r"
      using True by (simp add: bnd_def)
    then have run: "getBytes_loop (Suc k) p acc len r =
        bnd (vget (p + ?n) 1) (\<lambda>p'. getBytes_loop k p' (acc @ take ?n (stream_left ?r)) (len - ?n)) r"
      unfolding cn(2) .
    have "rdataEnd ?rn < rdataPtr ?rn + 1" using pe by simp
    note g = msg_get_any [OF okn(1) _ this, of r "rdataPtr r"]
    show ?thesis
    proof (cases "1 \<le> content_left ?rn \<and> 1 \<le> length (stream_left ?rn)")
      case one: True
      with g obtain q r' where q: "vget (p + ?n) 1 r = (Inr q, r')" "\<forall>k \<le> 1. consumes k ?rn (r'\<lparr>rdataPtr := q + k\<rparr>)"
        by (auto simp: READ_BUFFER_SIZE_def)
      then have c0: "consumes 0 ?rn (r'\<lparr>rdataPtr := q\<rparr>)" and c1: "consumes 1 ?rn (r'\<lparr>rdataPtr := q + 1\<rparr>)"
        by (metis add_0_right zero_le_one, metis order_refl)
      have ok': "msg_ok (r'\<lparr>rdataPtr := q\<rparr>)" "q < rdataEnd r'" using c0 c1
        by (simp add: consumes_def, auto simp: consumes_def msg_ok_def buffer_ok_def)
      have k: "len - ?n + (if q < rdataEnd r' then 1 else 2) \<le> k"
        using Suc.prems(2) True ok'(2) pe by (auto split: if_splits)
      note ih = Suc.IH [OF ok'(1) k, of "acc @ take ?n (stream_left ?r)"]
      have c: "content_left (r'\<lparr>rdataPtr := q\<rparr>) + ?n = content_left ?r" "stream_left (r'\<lparr>rdataPtr := q\<rparr>) = drop ?n (stream_left ?r)"
        using c0 okn by (auto simp: consumes_def)
      have run': "getBytes_loop (Suc k) p acc len r = getBytes_loop k q (acc @ take ?n (stream_left ?r)) (len - ?n) r'"
        unfolding run using q(1) by (rule bnd_ok)
      show ?thesis
      proof (cases "len \<le> content_left ?r \<and> len \<le> length (stream_left ?r)")
        case fits: True
        then have "len - ?n \<le> content_left (r'\<lparr>rdataPtr := q\<rparr>) \<and> len - ?n \<le> length (stream_left (r'\<lparr>rdataPtr := q\<rparr>))"
          using c True by auto
        with ih obtain r'' where r'': "getBytes_loop k q (acc @ take ?n (stream_left ?r)) (len - ?n) r' =
            (Inr ((acc @ take ?n (stream_left ?r)) @ take (len - ?n) (drop ?n (stream_left ?r))), r'')"
            "consumes (len - ?n) (r'\<lparr>rdataPtr := q\<rparr>) r''"
          unfolding c(2) by (simp only: if_True simp_thms) blast
        have "take ?n (stream_left ?r) @ take (len - ?n) (drop ?n (stream_left ?r)) = take len (stream_left ?r)"
          using True by (metis add_diff_inverse_nat not_less_iff_gr_or_eq order_less_imp_not_less take_add)
        moreover have "consumes len ?r r''"
          using consumes_trans [OF consumes_trans [OF cn(1) c0] r''(2)] True by simp
        ultimately show ?thesis using fits r''(1) unfolding run' by simp
      next
        case fits: False
        have "\<not> (len - ?n \<le> content_left (r'\<lparr>rdataPtr := q\<rparr>) \<and> len - ?n \<le> length (stream_left (r'\<lparr>rdataPtr := q\<rparr>)))"
          using fits c True by auto
        with ih have "\<exists>e r''. getBytes_loop k q (acc @ take ?n (stream_left ?r)) (len - ?n) r' = (Inl e, r'')"
          by (simp only: if_False)
        then show ?thesis unfolding run' using fits by (simp only: if_False)
      qed
    next
      case False
      then have "\<exists>e r'. vget (p + ?n) 1 r = (Inl e, r')" using g by (auto simp: READ_BUFFER_SIZE_def)
      then obtain e r' where "vget (p + ?n) 1 r = (Inl e, r')" by blast
      moreover have "\<not> (len \<le> content_left ?r \<and> len \<le> length (stream_left ?r))"
        using False okn True by auto
      ultimately show ?thesis unfolding run by (simp only: if_False) (auto simp: bnd_err)
    qed
  qed
qed

lemma getBytes_enough:
  assumes "msg_ok r"
  shows "if n \<le> content_left r \<and> n \<le> length (stream_left r)
         then \<exists>r'. getBytes n r = (Inr (take n (stream_left r)), r') \<and> consumes n r r'
         else \<exists>e r'. getBytes n r = (Inl e, r')"
proof -
  have r: "r\<lparr>rdataPtr := rdataPtr r\<rparr> = r" by simp
  have run: "getBytes n r = getBytes_loop (n + 2) (rdataPtr r) [] n r" by (simp add: getBytes_def bnd_def)
  have "n + (if rdataPtr r < rdataEnd r then 1 else 2) \<le> n + 2" by simp
  from getBytes_loop_spec [where r = r and p = "rdataPtr r" and acc = "[]", unfolded r, OF assms this] show ?thesis
    unfolding run append_Nil .
qed

end
