(* ===== verification/ReaderContainers.thy ===== *)
theory ReaderContainers
  imports StringReader FieldCodec
begin

text \<open>
  Arrays and objects in the reader (\<^verbatim>\<open>tickdb/data_reader.cpp\<close>): opening a container narrows the
  content to it and remembers what follows, closing skips what was not read and widens the content
  again. \<open>inside\<close> is the state between, and the decoders work there as they do at the top level.
\<close>

section \<open>The operations\<close>

definition openReaderContainer :: "bool \<Rightarrow> (reader, bool) op" where
  "openReaderContainer isArray =
     bnd getPackedUInt22 (\<lambda>v.
     bnd (gets (\<lambda>r. contentEnd r - rdataPtr r)) (\<lambda>remaining.
     if v = 0 then ret False
     else bnd (gets rdepth) (\<lambda>d.
       if READER_MAX_NESTED_OBJECTS \<le> d then throw (RuntimeError ''nesting level can't be more than 16!'')
       else
         let sz = min (unat v) remaining
         in andthen (modify (\<lambda>r.
              let e = contentEnd r - (remaining - sz)
              in r\<lparr>rdepth := d + 1, rcontainerIsArray := (rcontainerIsArray r)[d := isArray],
                   eOfs := (eOfs r)[d := remaining - sz], contentEnd := e, rdataEnd := min e (dataEnd0 r)\<rparr>))
            (ret True))))"

definition closeReaderContainer :: "bool \<Rightarrow> (reader, unit) op" where
  "closeReaderContainer isArray =
     bnd (gets rdepth) (\<lambda>d0.
     if d0 = 0 then throw (RuntimeError ''nesting depth underflow. depth of 0 is unexpected!'')
     else
       let d = d0 - 1
       in andthen (modify (\<lambda>r. r\<lparr>rdepth := d\<rparr>))
          (bnd (gets (\<lambda>r. rcontainerIsArray r ! d)) (\<lambda>a.
           if a \<noteq> isArray then throw (RuntimeError ''Container type mismatch'')
           else bnd (gets (\<lambda>r. contentEnd r - rdataPtr r)) (\<lambda>n.
             andthen (skip n)
             (modify (\<lambda>r. let e = contentEnd r + eOfs r ! d
                          in r\<lparr>contentEnd := e, rdataEnd := min e (dataEnd0 r)\<rparr>))))))"

definition skipContainer :: "bool \<Rightarrow> (reader, unit) op" where
  "skipContainer isArray =
     bnd getPackedUInt22 (\<lambda>v.
     bnd (gets (\<lambda>r. contentEnd r - rdataPtr r)) (\<lambda>remaining. skip (min (unat v) remaining)))"

definition readArrayStart :: "(reader, 32 word) op" where
  "readArrayStart =
     orNull INT32_NULL (bnd (openReaderContainer True) (\<lambda>b. if b then getPackedUInt22 else ret INT32_NULL))"

definition readObjectStart :: "(reader, 32 word) op" where
  "readObjectStart =
     orNull INT32_NULL (bnd (openReaderContainer False) (\<lambda>b.
       if b then bnd getByte (\<lambda>x. ret (ucast x)) else ret INT32_NULL))"

definition readArrayEnd :: "(reader, unit) op" where "readArrayEnd = closeReaderContainer True"
definition readObjectEnd :: "(reader, unit) op" where "readObjectEnd = closeReaderContainer False"

definition skipObject :: "(reader, unit) op" where
  "skipObject = bnd (gets endOfContent) (\<lambda>e. if e then ret () else skipContainer False)"

definition skipArray :: "(reader, unit) op" where
  "skipArray = bnd (gets endOfContent) (\<lambda>e. if e then ret () else skipContainer True)"

section \<open>A source that can be copied from\<close>

text \<open>Readers on which \<open>getBytes\<close> works as well: an extension of the contract of the decoders.\<close>

locale copying_source = byte_source +
  assumes copy_enough: "inv r \<Longrightarrow> n \<le> length (pend r) \<Longrightarrow>
      \<exists>r'. getBytes n r = (Inr (take n (pend r)), r') \<and> pend r' = drop n (pend r) \<and> inv r'"
    and copy_short: "inv r \<Longrightarrow> length (pend r) < n \<Longrightarrow> \<exists>e r'. getBytes n r = (Inl e, r')"

definition utf8_bytes :: "byte list option \<Rightarrow> byte list" where
  "utf8_bytes s = (case s of None \<Rightarrow> [0xFF, 0xFF] | Some bs \<Rightarrow> be_bytes 2 (of_nat (length bs) :: 16 word) @ bs)"

definition binary_bytes :: "byte list option \<Rightarrow> byte list" where
  "binary_bytes s = (case s of None \<Rightarrow> [1] | Some bs \<Rightarrow> 0 # packed_uint 6 (of_nat (length bs) :: 32 word) @ bs)"

lemma be_bytes_FFFF: "be_bytes 2 (0xFFFF :: 16 word) = [0xFF, 0xFF]"
  by code_simp

context copying_source begin

lemma reads_getBytes: "reads inv pend (getBytes (length bs)) bs bs"
  unfolding reads_def
proof (intro allI impI)
  fix r rest assume a: "inv r \<and> pend r = bs @ rest"
  then show "\<exists>r'. getBytes (length bs) r = (Inr bs, r') \<and> pend r' = rest \<and> inv r'"
    using copy_enough [of r "length bs"] by simp
qed

lemma reads_getUTF8:
  assumes "case s of None \<Rightarrow> True | Some bs \<Rightarrow> length bs < 0xFFFF"
  shows "reads inv pend getUTF8_inl (utf8_bytes s) s"
proof (cases s)
  case None
  have "reads inv pend getUTF8_inl ([0xFF, 0xFF] @ []) None"
    unfolding getUTF8_inl_def be_bytes_FFFF [symmetric] by (rule reads_bnd [OF reads_getUInt16]) simp
  then show ?thesis using None by (simp add: utf8_bytes_def)
next
  case (Some bs)
  let ?n = "of_nat (length bs) :: 16 word"
  have n: "unat ?n = length bs" "?n \<noteq> 0xFFFF"
    using assms Some by (auto simp: unsigned_of_nat take_bit_nat_eq_self word_unat_eq_iff)
  have "reads inv pend getUTF8_inl (be_bytes 2 ?n @ bs) (Some bs)"
    unfolding getUTF8_inl_def
    by (rule reads_bnd [OF reads_getUInt16]) (simp add: n reads_bnd_ret [OF reads_getBytes])
  then show ?thesis using Some by (simp add: utf8_bytes_def)
qed

lemma reads_readUTF8:
  assumes "case s of None \<Rightarrow> True | Some bs \<Rightarrow> length bs < 0xFFFF"
  shows "reads inv pend readUTF8 (utf8_bytes s) s"
proof -
  have "utf8_bytes s \<noteq> []" by (auto simp: utf8_bytes_def split: option.splits)
  from reads_orNull [OF reads_getUTF8 [OF assms] this, of None] show ?thesis
    by (simp add: readUTF8_def orNull_def)
qed

lemma reads_readBinary:
  assumes "case s of None \<Rightarrow> True | Some bs \<Rightarrow> length bs < 2 ^ 30"
  shows "reads inv pend readBinary (binary_bytes s) s"
proof (cases s)
  case None
  have "reads inv pend readBinary [1] None"
    unfolding readBinary_def by (rule reads_bnd_Cons [OF reads_getByte]) simp
  then show ?thesis using None by (simp add: binary_bytes_def)
next
  case (Some bs)
  let ?n = "of_nat (length bs) :: 32 word"
  have n: "unat ?n = length bs" using assms Some by (simp add: unsigned_of_nat take_bit_nat_eq_self)
  then have "?n < 2 ^ 30" using assms Some by (simp add: word_less_nat_alt)
  have "reads inv pend readBinary (0 # packed_uint 6 ?n @ bs) (Some bs)"
    unfolding readBinary_def
    by (rule reads_bnd_Cons [OF reads_getByte])
       (simp add: reads_bnd [OF reads_getPackedUInt30 [OF \<open>?n < 2 ^ 30\<close>]] n reads_bnd_ret [OF reads_getBytes])
  then show ?thesis using Some by (simp add: binary_bytes_def)
qed

end

lemma take_pend: "n \<le> length (pend_msg r) \<Longrightarrow> take n (pend_msg r) = take n (stream_left r)"
proof -
  assume "n \<le> length (pend_msg r)"
  then have "n \<le> content_left r" by (simp add: length_pend_msg)
  then show ?thesis by (simp add: pend_msg_def min_absorb1)
qed

interpretation mcopy: copying_source msg_ok pend_msg
proof unfold_locales
  fix r n assume ok: "msg_ok r" and n: "n \<le> length (pend_msg r)"
  have "take n (pend_msg r) = take n (stream_left r)" using n by (rule take_pend)
  with getBytes_enough [OF ok, of n] n show "\<exists>r'. getBytes n r = (Inr (take n (pend_msg r)), r') \<and>
      pend_msg r' = drop n (pend_msg r) \<and> msg_ok r'"
    by (auto simp: length_pend_msg consumes_pend) (auto simp: consumes_def)
next
  fix r n assume ok: "msg_ok r" and n: "length (pend_msg r) < n"
  then have "\<not> (n \<le> content_left r \<and> n \<le> length (stream_left r))" by (auto simp: length_pend_msg)
  with getBytes_enough [OF ok, of n] show "\<exists>e r'. getBytes n r = (Inl e, r')" by (simp only: if_False)
qed

section \<open>Inside containers\<close>

text \<open>The stack has, for every open container from the outermost on, the number of bytes of the
  enclosing content that follow it and its kind; \<open>T\<close> are the bytes of the stream behind the current
  content, which is complete.\<close>

definition inside :: "(nat \<times> bool) list \<Rightarrow> byte list \<Rightarrow> reader \<Rightarrow> bool" where
  "inside S T r \<longleftrightarrow> msg_ok r \<and> rdepth r = length S \<and> take (length S) (eOfs r) = map fst S \<and>
     take (length S) (rcontainerIsArray r) = map snd S \<and> length (eOfs r) = 16 \<and> length (rcontainerIsArray r) = 16 \<and>
     content_left r \<le> length (stream_left r) \<and> drop (content_left r) (stream_left r) = T"

lemma inside_stream: "inside S T r \<Longrightarrow> stream_left r = pend_msg r @ T"
  unfolding inside_def pend_msg_def by (metis append_take_drop_id)

lemma inside_length: "inside S T r \<Longrightarrow> length (pend_msg r) = content_left r"
  by (simp add: inside_def pend_msg_def)

lemma inside_consumes:
  assumes "inside S T r" "consumes n r r'" "n \<le> length (pend_msg r)"
  shows "inside S T r'"
proof -
  have n: "n \<le> content_left r" using assms(1,3) inside_length by simp
  have "drop (content_left r') (stream_left r') = drop (content_left r) (stream_left r)"
    using assms(2) unfolding consumes_def by (metis add.commute drop_drop)
  then show ?thesis using assms(1,2) n by (auto simp: inside_def consumes_def nest_frame_def)
qed

interpretation nsrc: copying_source "inside S T" pend_msg for S T
proof unfold_locales
  fix r n assume i: "inside S T r" and n: "n \<le> READ_BUFFER_SIZE" "n \<le> length (pend_msg r)"
  then have ok: "msg_ok r" by (simp add: inside_def)
  have c: "n \<le> content_left r \<and> n \<le> length (stream_left r)" using n(2) by (simp add: length_pend_msg)
  have t: "take n (pend_msg r) = take n (stream_left r)" using n(2) by (rule take_pend)
  from msg_bytes [OF ok n(1)] c obtain q r' where q: "bytes n r = (Inr q, r')"
    "load_bytes (rmem r') q n = take n (stream_left r)" "consumes n r r'" by auto
  then show "\<exists>p r'. bytes n r = (Inr p, r') \<and> load_bytes (rmem r') p n = take n (pend_msg r) \<and>
      pend_msg r' = drop n (pend_msg r) \<and> inside S T r'"
    using consumes_pend [OF q(3)] inside_consumes [OF i q(3) n(2)] t by auto
  from msg_peek [OF ok n(1)] c obtain q r' where p: "peek n r = (Inr q, r')"
    "load_bytes (rmem r') q n = take n (stream_left r)" "consumes 0 r r'" by auto
  then show "\<exists>p r'. peek n r = (Inr p, r') \<and> load_bytes (rmem r') p n = take n (pend_msg r) \<and>
      pend_msg r' = pend_msg r \<and> inside S T r'"
    using consumes_pend [OF p(3)] inside_consumes [OF i p(3)] t by auto
next
  fix r n assume "inside S T r" "n \<le> READ_BUFFER_SIZE" "length (pend_msg r) < n"
  then show "\<exists>e r'. bytes n r = (Inl e, r')" using msrc.bytes_short by (auto simp: inside_def)
next
  fix r n assume i: "inside S T r" and n: "n \<le> length (pend_msg r)"
  then have "n \<le> content_left r \<and> n \<le> length (stream_left r)" by (simp add: length_pend_msg)
  with msg_skip [of r n] i obtain r' where "skip n r = (Inr (), r')" "consumes n r r'" by (auto simp: inside_def)
  then show "\<exists>r'. skip n r = (Inr (), r') \<and> pend_msg r' = drop n (pend_msg r) \<and> inside S T r'"
    using consumes_pend inside_consumes [OF i _ n] by auto
next
  fix r n assume "inside S T r" "length (pend_msg r) < n"
  then show "\<exists>e r'. skip n r = (Inl e, r')" using msrc.skip_short by (auto simp: inside_def)
next
  fix r assume "inside S T r" "pend_msg r \<noteq> []"
  then show "\<not> endOfContent r" using msrc.pending_not_end by (auto simp: inside_def)
next
  fix r n assume i: "inside S T r" and n: "n \<le> length (pend_msg r)"
  then have c: "n \<le> content_left r \<and> n \<le> length (stream_left r)" by (simp add: length_pend_msg)
  have t: "take n (pend_msg r) = take n (stream_left r)" using n by (rule take_pend)
  from getBytes_enough [of r n] i c obtain r' where "getBytes n r = (Inr (take n (stream_left r)), r')" "consumes n r r'"
    by (auto simp: inside_def)
  then show "\<exists>r'. getBytes n r = (Inr (take n (pend_msg r)), r') \<and> pend_msg r' = drop n (pend_msg r) \<and> inside S T r'"
    using consumes_pend inside_consumes [OF i _ n] t by auto
next
  fix r n assume "inside S T r" "length (pend_msg r) < n"
  then show "\<exists>e r'. getBytes n r = (Inl e, r')" using mcopy.copy_short by (auto simp: inside_def)
qed


section \<open>Opening and closing\<close>

lemma insideD:
  assumes "inside S T r"
  shows "msg_ok r" "rdepth r = length S" "length (eOfs r) = 16" "length (rcontainerIsArray r) = 16"
    "content_left r \<le> length (stream_left r)" "stream_left r = pend_msg r @ T" "length (pend_msg r) = content_left r"
  using assms by (simp_all add: inside_stream [OF assms] inside_length [OF assms]) (simp_all add: inside_def)

lemma content_narrowed:
  assumes "msg_ok r" "k \<le> content_left r"
    and "r' = r\<lparr>rdepth := d, rcontainerIsArray := A, eOfs := E, contentEnd := contentEnd r - k,
              rdataEnd := min (contentEnd r - k) (dataEnd0 r)\<rparr>"
  shows "msg_ok r'" "content_left r' = content_left r - k" "stream_left r' = stream_left r"
  using assms by (auto simp: msg_ok_def buffer_ok_def content_left_def stream_left_def view_def)

lemma content_widened:
  assumes "msg_ok r" "r' = r\<lparr>contentEnd := contentEnd r + k, rdataEnd := min (contentEnd r + k) (dataEnd0 r)\<rparr>"
  shows "msg_ok r'" "content_left r' = content_left r + k" "stream_left r' = stream_left r"
  using assms by (auto simp: msg_ok_def buffer_ok_def content_left_def stream_left_def view_def)

lemma snoc_take: "i < length xs \<Longrightarrow> take (Suc i) (xs[i := x]) = take i xs @ [x]"
  by (simp add: take_Suc_conv_app_nth)

text \<open>A container with content \<open>c\<close> in a content that goes on with \<open>rest\<close>.\<close>

lemma open_inside:
  assumes i: "inside S T r" and d: "length S < 16" and c: "c \<noteq> []" "length c < 2 ^ 22"
    and p: "pend_msg r = puint22_bytes (of_nat (length c)) @ c @ rest"
  shows "\<exists>r'. openReaderContainer a r = (Inr True, r') \<and> inside (S @ [(length rest, a)]) (rest @ T) r' \<and> pend_msg r' = c"
proof -
  let ?v = "of_nat (length c) :: 32 word"
  have v: "unat ?v = length c" "?v \<noteq> 0"
    using c by (simp_all add: unsigned_of_nat take_bit_nat_eq_self word_unat_eq_iff)
  then have "?v < 2 ^ 22" using c by (simp add: word_less_nat_alt)
  from readsD [OF nsrc.reads_getPackedUInt22 [OF this] i p] obtain r1 where
    r1: "getPackedUInt22 r = (Inr ?v, r1)" "pend_msg r1 = c @ rest" "inside S T r1" by blast
  note j = insideD [OF r1(3)]
  have rem: "content_left r1 = length c + length rest" using j(7) r1(2) by simp
  let ?r = "r1\<lparr>rdepth := rdepth r1 + 1, rcontainerIsArray := (rcontainerIsArray r1)[rdepth r1 := a],
      eOfs := (eOfs r1)[rdepth r1 := length rest], contentEnd := contentEnd r1 - length rest,
      rdataEnd := min (contentEnd r1 - length rest) (dataEnd0 r1)\<rparr>"
  have cl: "contentEnd r1 - rdataPtr r1 = length c + length rest" using rem by (simp add: content_left_def)
  have run: "openReaderContainer a r = (Inr True, ?r)"
    using r1(1) v d cl j(2) by (simp add: openReaderContainer_def bnd_def andthen_def READER_MAX_NESTED_OBJECTS_def Let_def)
  have "length rest \<le> content_left r1" using rem by simp
  note n = content_narrowed [OF j(1) this refl, where d = "rdepth r1 + 1" and A = "(rcontainerIsArray r1)[rdepth r1 := a]" and E = "(eOfs r1)[rdepth r1 := length rest]"]
  have st: "stream_left ?r = c @ rest @ T" using n(3) j(6) r1(2) by simp
  have cr: "content_left ?r = length c" using n(2) rem by simp
  have "inside (S @ [(length rest, a)]) (rest @ T) ?r"
    using r1(3) n(1) st cr d j(2,3,4) by (simp add: inside_def snoc_take)
  moreover have "pend_msg ?r = c" using st cr by (simp add: pend_msg_def)
  ultimately show ?thesis using run by blast
qed

lemma open_null:
  assumes "inside S T r" "pend_msg r = [0] @ rest"
  shows "\<exists>r'. openReaderContainer a r = (Inr False, r') \<and> inside S T r' \<and> pend_msg r' = rest"
proof -
  have "puint22_bytes 0 = [0]" by (simp add: puint22_bytes_def)
  then have "reads (inside S T) pend_msg getPackedUInt22 [0] 0" using nsrc.reads_getPackedUInt22 [of 0] by simp
  from readsD [OF this assms] obtain r1 where "getPackedUInt22 r = (Inr 0, r1)" "pend_msg r1 = rest" "inside S T r1" by blast
  then show ?thesis by (simp add: openReaderContainer_def bnd_def)
qed

text \<open>Closing from anywhere in the content.\<close>

lemma close_inside:
  assumes i: "inside (S @ [(k, a)]) T r" and k: "k \<le> length T"
  shows "\<exists>r'. closeReaderContainer a r = (Inr (), r') \<and> inside S (drop k T) r' \<and> pend_msg r' = take k T"
proof -
  note j = insideD [OF i]
  have top: "eOfs r ! length S = k" "rcontainerIsArray r ! length S = a" "length S < 16"
    "take (length S) (eOfs r) = map fst S" "take (length S) (rcontainerIsArray r) = map snd S"
  proof -
    have e: "take (Suc (length S)) (eOfs r) = map fst S @ [k]" and f: "take (Suc (length S)) (rcontainerIsArray r) = map snd S @ [a]"
      using i by (simp_all add: inside_def)
    have "length (take (Suc (length S)) (eOfs r)) = Suc (length S)" using e by simp
    then show l: "length S < 16" using j(3) by simp
    show "eOfs r ! length S = k" using arg_cong [OF e, of "\<lambda>xs. xs ! length S"] by (simp add: nth_append)
    show "rcontainerIsArray r ! length S = a" using arg_cong [OF f, of "\<lambda>xs. xs ! length S"] by (simp add: nth_append)
    show "take (length S) (eOfs r) = map fst S" using arg_cong [OF e, of "take (length S)"] by (simp add: min_def)
    show "take (length S) (rcontainerIsArray r) = map snd S" using arg_cong [OF f, of "take (length S)"] by (simp add: min_def)
  qed
  let ?r0 = "r\<lparr>rdepth := length S\<rparr>"
  have ok0: "msg_ok ?r0" using j(1) by (simp add: msg_ok_def buffer_ok_def)
  have c0: "content_left ?r0 = content_left r" "stream_left ?r0 = stream_left r"
    by (simp_all add: content_left_def stream_left_def view_def)
  from msg_skip [OF ok0, of "content_left r"] c0 j(5) obtain r1 where
    r1: "skip (content_left r) ?r0 = (Inr (), r1)" "consumes (content_left r) ?r0 r1" by auto
  have s1: "msg_ok r1" "content_left r1 = 0" "stream_left r1 = T" "rdepth r1 = length S" "eOfs r1 = eOfs r"
    "rcontainerIsArray r1 = rcontainerIsArray r"
    using r1(2) c0 j(6,7) by (auto simp: consumes_def nest_frame_def)
  let ?r = "r1\<lparr>contentEnd := contentEnd r1 + k, rdataEnd := min (contentEnd r1 + k) (dataEnd0 r1)\<rparr>"
  have run: "closeReaderContainer a r = (Inr (), ?r)"
    using j(2) top r1(1) s1(5) by (simp add: closeReaderContainer_def bnd_def andthen_def content_left_def Let_def)
  note n = content_widened [OF s1(1) refl, of k]
  have "inside S (drop k T) ?r"
    using n s1 top k j(3,4) by (simp add: inside_def)
  moreover have "pend_msg ?r = take k T" using n s1 by (simp add: pend_msg_def)
  ultimately show ?thesis using run by blast
qed

text \<open>A whole container as one field: its content is read by a decoder of its own.\<close>

lemma reads_container:
  assumes body: "reads (inside (S @ [(length rest, a)]) (rest @ T)) pend_msg m c x"
    and "length S < 16" "c \<noteq> []" "length c < 2 ^ 22"
    and "inside S T r" "pend_msg r = (puint22_bytes (of_nat (length c)) @ c) @ rest"
  shows "\<exists>r'. bnd (openReaderContainer a) (\<lambda>b. if b then bnd m (\<lambda>x. andthen (closeReaderContainer a) (ret (f x))) else n) r
             = (Inr (f x), r') \<and> pend_msg r' = rest \<and> inside S T r'"
proof -
  from open_inside [OF assms(5,2,3,4), of rest a] assms(6) obtain r1 where
    r1: "openReaderContainer a r = (Inr True, r1)" "inside (S @ [(length rest, a)]) (rest @ T) r1" "pend_msg r1 = c @ []" by auto
  from readsD [OF body r1(2,3)] obtain r2 where
    r2: "m r1 = (Inr x, r2)" "pend_msg r2 = []" "inside (S @ [(length rest, a)]) (rest @ T) r2" by blast
  from close_inside [OF r2(3)] obtain r3 where
    "closeReaderContainer a r2 = (Inr (), r3)" "inside S T r3" "pend_msg r3 = rest" by auto
  then show ?thesis using r1 r2 by (simp add: bnd_def andthen_def)
qed

text \<open>Skipping a container.\<close>

lemma reads_skipContainer:
  assumes "length c < 2 ^ 22"
  shows "reads (inside S T) pend_msg (skipContainer a) (puint22_bytes (of_nat (length c)) @ c) ()"
  unfolding reads_def
proof (intro allI impI)
  fix r rest assume i: "inside S T r \<and> pend_msg r = (puint22_bytes (of_nat (length c)) @ c) @ rest"
  let ?v = "of_nat (length c) :: 32 word"
  have v: "unat ?v = length c" using assms by (simp add: unsigned_of_nat take_bit_nat_eq_self)
  then have "?v < 2 ^ 22" using assms by (simp add: word_less_nat_alt)
  from readsD [OF nsrc.reads_getPackedUInt22 [OF this], of S T r "c @ rest"] i obtain r1 where
    r1: "getPackedUInt22 r = (Inr ?v, r1)" "pend_msg r1 = c @ rest" "inside S T r1" by auto
  have "contentEnd r1 - rdataPtr r1 = length c + length rest"
    using insideD(7) [OF r1(3)] r1(2) by (simp add: content_left_def)
  then have "skipContainer a r = skip (length c) r1" using r1(1) v by (simp add: skipContainer_def bnd_def)
  moreover from nsrc.skip_enough [OF r1(3), of "length c"] r1(2)
  obtain r2 where "skip (length c) r1 = (Inr (), r2)" "pend_msg r2 = rest" "inside S T r2" by auto
  ultimately show "\<exists>r'. skipContainer a r = (Inr (), r') \<and> pend_msg r' = rest \<and> inside S T r'" by simp
qed

end
