(* ===== verification/TimeCodec.thy ===== *)
theory TimeCodec
  imports FieldCodec
begin

text \<open>
  Compressed times: the bytes that \<^verbatim>\<open>PACK_TIME\<close> and \<^verbatim>\<open>putCompressedNanosecondTime\<close> append, what
  \<^verbatim>\<open>getCompressedNanoTimeDividedBy\<close> makes of them for every granularity, and the domain on which the
  two fit together.
\<close>

section \<open>The packed word\<close>

text \<open>A header byte with the low five bits of the quantity and the granularity, then the other bits,
  lowest byte first.\<close>

definition time_bytes :: "timestamp_granularity \<Rightarrow> nat \<Rightarrow> 64 word \<Rightarrow> byte list" where
  "time_bytes g n q = ucast (take_bit 5 q OR push_bit 5 (of_nat (tg_code g))) # le_bytes n (drop_bit 5 q)"

lemma tg_code_less: "tg_code g < 8"
  by (cases g) auto

lemma bit_tg_code: "bit (tg_code g) i \<Longrightarrow> i < 3"
proof -
  assume b: "bit (tg_code g) i"
  have "take_bit 3 (tg_code g) = tg_code g" using tg_code_less [of g] by (simp add: take_bit_nat_eq_self)
  then show "i < 3" using b by (metis bit_take_bit_iff)
qed

lemma xor_low: "q XOR take_bit k q = push_bit k (drop_bit k (q :: 'a::len word))"
proof (rule bit_word_eqI)
  fix n assume "n < LENGTH('a)"
  then show "bit (q XOR take_bit k q) n = bit (push_bit k (drop_bit k q)) n"
    by (cases "n < k") (auto simp: bit_simps)
qed

lemma packed_time_word:
  "(q AND 0x1F) + push_bit 3 (q XOR (q AND 0x1F)) + timestamp_header g =
     (take_bit 5 q OR push_bit 8 (drop_bit 5 q) OR push_bit 5 (of_nat (tg_code g)) :: 64 word)"
proof -
  have low: "q AND 0x1F = take_bit 5 q" using and_exp_take [of q 5] by simp
  have h: "timestamp_header g = push_bit 5 (of_nat (tg_code g) :: 64 word)" by (rule timestamp_header_def)
  have "push_bit 3 (q XOR (q AND 0x1F)) = push_bit 8 (drop_bit 5 q)"
    unfolding low xor_low by simp
  moreover have "take_bit 5 q + push_bit 8 (drop_bit 5 q) = take_bit 5 q OR push_bit 8 (drop_bit 5 q)"
    by (rule disjunctive_add) (auto simp: bit_simps)
  moreover have "(take_bit 5 q OR push_bit 8 (drop_bit 5 q)) + push_bit 5 (of_nat (tg_code g)) =
      take_bit 5 q OR push_bit 8 (drop_bit 5 q) OR push_bit 5 (of_nat (tg_code g))"
    by (subst disjunctive_add) (auto simp: bit_simps ac_simps dest: bit_tg_code)
  ultimately show ?thesis using low h by simp
qed

lemma packed_time_bytes:
  assumes "q < 2 ^ 61"
  shows "le_bytes (Suc n) (take_bit 5 q OR push_bit 8 (drop_bit 5 q) OR push_bit 5 (of_nat (tg_code g)) :: 64 word)
       = time_bytes g n q"
proof (rule nth_equalityI)
  let ?x = "take_bit 5 q OR push_bit 8 (drop_bit 5 q) OR push_bit 5 (of_nat (tg_code g)) :: 64 word"
  have "unat q < 2 ^ 61" using assms by (simp add: word_less_nat_alt)
  then have "take_bit 61 q = q" by (rule word_take_bit_self)
  then have hi: "bit q k \<Longrightarrow> k < 61" for k by (metis bit_take_bit_iff)
  fix i assume i: "i < length (le_bytes (Suc n) ?x)"
  show "le_bytes (Suc n) ?x ! i = time_bytes g n q ! i"
  proof (cases i)
    case 0
    have "ucast ?x = (ucast (take_bit 5 q OR push_bit 5 (of_nat (tg_code g))) :: 8 word)"
      by (rule bit_word_eqI) (auto simp: bit_simps)
    then show ?thesis using 0 by (simp add: time_bytes_def)
  next
    case (Suc j)
    have "ucast (drop_bit (8 * Suc j) ?x) = (ucast (drop_bit (8 * j) (drop_bit 5 q)) :: 8 word)"
    proof (rule bit_word_eqI)
      fix m assume m: "m < LENGTH(8)"
      have "bit ?x (8 * Suc j + m) \<longleftrightarrow> bit q (5 + (8 * j + m))"
        using hi [of "5 + (8 * j + m)"]
        by (auto simp: bit_simps add.commute dest: bit_tg_code)
      then show "bit (ucast (drop_bit (8 * Suc j) ?x) :: 8 word) m = bit (ucast (drop_bit (8 * j) (drop_bit 5 q)) :: 8 word) m"
        using m by (simp only: bit_ucast_iff bit_drop_bit_eq comp_apply)
    qed
    then show ?thesis using Suc i by (simp add: time_bytes_def del: drop_bit_drop_bit)
  qed
qed (simp add: time_bytes_def)

lemma emits_pack_time:
  assumes "q < 2 ^ (n * 8 - 3)" "0 < n" "n \<le> 8"
  shows "emits (pack_time g n q) (time_bytes g (n - 1) q) ()"
proof -
  let ?x = "take_bit 5 q OR push_bit 8 (drop_bit 5 q) OR push_bit 5 (of_nat (tg_code g)) :: 64 word"
  have "(2 :: 64 word) ^ (n * 8 - 3) \<le> 2 ^ 61"
  proof -
    have "n = 1 \<or> n = 2 \<or> n = 3 \<or> n = 4 \<or> n = 5 \<or> n = 6 \<or> n = 7 \<or> n = 8" using assms by auto
    then show ?thesis by auto
  qed
  then have q: "q < 2 ^ 61" using assms(1) by (rule less_le_trans [rotated])
  have g: "\<not> 2 ^ (n * 8 - 3) \<le> q" using assms(1) by (simp only: not_le)
  have "take n (le_bytes 8 ?x) = le_bytes n ?x" using assms(3) by (intro nth_equalityI) auto
  also have "\<dots> = time_bytes g (n - 1) q" using packed_time_bytes [OF q, of "n - 1" g] assms(2) by simp
  finally have t: "take n (le_bytes 8 ?x) = time_bytes g (n - 1) q" .
  show ?thesis
    using emits_putLE [of n ?x] assms(3) unfolding pack_time_def packed_time_word
    by (simp add: t g)
qed

section \<open>Decoding\<close>

lemma mask_bytes: "n \<le> 8 \<Longrightarrow> x AND BYTEMASK_L n = take_bit (8 * n) x"
proof -
  assume n: "n \<le> 8"
  have "BYTEMASK_L n = mask (8 * n)"
    by (rule bit_word_eqI) (use n in \<open>auto simp: BYTEMASK_L_def bit_simps\<close>)
  then show ?thesis by (simp add: take_bit_eq_mask)
qed

lemma time_parts: "push_bit 5 (drop_bit 5 q) + take_bit 5 q = (q :: 64 word)"
  by (simp add: bits_ident)

lemma drop_bit_small: "unat (q :: 64 word) < 2 ^ (k + 5) \<Longrightarrow> take_bit k (drop_bit 5 q) = drop_bit 5 q"
  by (rule word_take_bit_self) (unfold unat_drop_bit, simp add: power_add less_mult_imp_div_less)

text \<open>The bits above the value's are cut off by the machine type in which the code shifts.\<close>

lemma shift_seconds:
  assumes "(x :: 32 word) = ucast (drop_bit 5 q)"
  shows "ucast (push_bit 5 x) + take_bit 5 q = (take_bit 32 q :: 64 word)"
proof -
  have "ucast (push_bit 5 x) = (take_bit 32 (push_bit 5 (drop_bit 5 q)) :: 64 word)"
    unfolding assms by (rule bit_word_eqI) (auto simp: bit_simps)
  moreover have "take_bit 32 (push_bit 5 (drop_bit 5 q)) + take_bit 5 q =
      take_bit 32 (push_bit 5 (drop_bit 5 q)) OR take_bit 5 q"
    by (rule disjunctive_add) (auto simp: bit_simps)
  moreover have "take_bit 32 (push_bit 5 (drop_bit 5 q)) OR take_bit 5 q = take_bit 32 q"
  proof (rule bit_word_eqI)
    fix n assume "n < LENGTH(64)"
    then show "bit (take_bit 32 (push_bit 5 (drop_bit 5 q)) OR take_bit 5 q) n = bit (take_bit 32 q) n"
      by (cases "n < 5") (auto simp: bit_simps)
  qed
  ultimately show ?thesis by simp
qed

text \<open>The value the decoder computes from granularity and quantity.\<close>

definition time_value :: "64 word \<Rightarrow> timestamp_granularity \<Rightarrow> 64 word \<Rightarrow> 64 word" where
  "time_value N g q =
     (let base = (if N = 1 then COMPRESSED_TIMESTAMP_BASE_NS else COMPRESSED_TIMESTAMP_BASE_MS) in
      case g of
        TG_MILLIS \<Rightarrow> q * (1000000 div N) + base
      | TG_SECONDS \<Rightarrow> take_bit 32 q * (1000000000 div N) + base
      | TG_TEN_SECONDS \<Rightarrow> q * (10000000000 div N) + base
      | TG_HOURS \<Rightarrow> q * (3600000000000 div N) + base
      | TG_NANOS \<Rightarrow> (q + COMPRESSED_TIMESTAMP_BASE_MS) div N
      | TG_LONG_NANOS \<Rightarrow> (q + COMPRESSED_TIMESTAMP_BASE_MS) div N
      | _ \<Rightarrow> 0)"

definition time_size :: "timestamp_granularity \<Rightarrow> nat" where
  "time_size g = compressed_timestamp_size ! tg_code g"

definition time_fits :: "timestamp_granularity \<Rightarrow> 64 word \<Rightarrow> bool" where
  "time_fits g q \<longleftrightarrow> g \<in> {TG_MILLIS, TG_SECONDS, TG_TEN_SECONDS, TG_HOURS, TG_NANOS, TG_LONG_NANOS} \<and>
     (g \<noteq> TG_LONG_NANOS \<longrightarrow> unat q < 2 ^ (8 * time_size g + 5))"

lemma time_header:
  assumes "h = (ucast (take_bit 5 q OR push_bit 5 (of_nat (tg_code g)) :: 64 word) :: 8 word)"
  shows "unat (drop_bit 5 h) = tg_code g" "(ucast (h AND 0x1F) :: 64 word) = take_bit 5 q"
proof -
  note f = header_fields [of "tg_code g" 5, OF _ _ _ assms]
  show "unat (drop_bit 5 h) = tg_code g" using f(1) tg_code_less [of g] by simp
  have "h AND 0x1F = take_bit 5 h" using and_exp_take [of h 5] by simp
  then show "(ucast (h AND 0x1F) :: 64 word) = take_bit 5 q" using f(2) tg_code_less [of g] by simp
qed

context byte_source begin

lemma reads_time:
  assumes fits: "time_fits g q"
  shows "reads inv pend (getCompressedNanoTimeDividedBy N) (time_bytes g (time_size g) q) (time_value N g q)"
proof -
  define h :: "8 word" where "h = ucast (take_bit 5 q OR push_bit 5 (of_nat (tg_code g)) :: 64 word)"
  note hh = time_header [OF h_def]
  have bytes: "time_bytes g (time_size g) q = h # le_bytes (time_size g) (drop_bit 5 q)"
    by (simp add: time_bytes_def h_def)
  have small: "take_bit (8 * time_size g) (drop_bit 5 q) = drop_bit 5 q" if "g \<noteq> TG_LONG_NANOS"
    using fits that by (intro drop_bit_small) (simp add: time_fits_def)
  have le: "(le_word (le_bytes n (drop_bit 5 q)) :: 'a::len word) = take_bit (8 * n) (ucast (drop_bit 5 q))"
    if "n \<le> 8" for n
    by (rule bit_word_eqI) (use that in \<open>auto simp: bit_le_word bit_nth_le_bytes bit_simps simp del: nth_le_bytes\<close>)
  have conv: "ucast (take_bit k (ucast y :: 'a::len word)) = take_bit k (y :: 64 word)" if "k \<le> LENGTH('a)" "LENGTH('a) \<le> 64" for k y
    by (rule bit_word_eqI) (use that in \<open>auto simp: bit_simps\<close>)
  note step = getCompressedNanoTimeDividedBy_def bytes Let_def hh
  from fits consider "g = TG_MILLIS" | "g = TG_SECONDS" | "g = TG_TEN_SECONDS" | "g = TG_HOURS" | "g = TG_NANOS" | "g = TG_LONG_NANOS"
    by (auto simp: time_fits_def)
  then show ?thesis
  proof cases
    case 1
    have "reads inv pend (bnd (loadLE_bytes 5) (\<lambda>x :: 64 word. ret ((push_bit 5 (x AND BYTEMASK_L 5) + take_bit 5 q) * a + b)))
        (le_bytes 5 (drop_bit 5 q)) (q * a + b)" for a b
      by (rule reads_loadLE)
         (use small 1 in \<open>simp_all add: mask_bytes le time_parts time_size_def compressed_timestamp_size_def\<close>)
    then show ?thesis unfolding step
      by (intro reads_bnd_Cons [OF reads_getByte]) (simp add: hh 1 time_value_def time_size_def compressed_timestamp_size_def)
  next
    case 2
    have "reads inv pend (bnd (loadLE_bytes 4) (\<lambda>x :: 32 word. ret ((ucast (push_bit 5 x) + take_bit 5 q) * a + b)))
        (le_bytes 4 (drop_bit 5 q)) (take_bit 32 q * a + b)" for a b
      by (rule reads_loadLE) (simp_all add: le shift_seconds)
    then show ?thesis unfolding step
      by (intro reads_bnd_Cons [OF reads_getByte]) (simp add: hh 2 time_value_def time_size_def compressed_timestamp_size_def)
  next
    case 3
    have "reads inv pend (bnd (loadLE_bytes 3) (\<lambda>x :: 32 word. ret ((push_bit 5 (ucast x AND BYTEMASK_L 3) + take_bit 5 q) * a + b)))
        (le_bytes 3 (drop_bit 5 q)) (q * a + b)" for a b
    proof (rule reads_loadLE)
      fix x :: "32 word" assume x: "take_bit (8 * 3) x = le_word (le_bytes 3 (drop_bit 5 q))"
      have "ucast x AND BYTEMASK_L 3 = ucast (take_bit (8 * 3) x)"
        by (simp only: mask_bytes) (rule bit_word_eqI, auto simp: bit_simps)
      also have "\<dots> = ucast (take_bit (8 * 3) (ucast (drop_bit 5 q) :: 32 word))" unfolding x by (subst le) simp_all
      also have "\<dots> = take_bit (8 * 3) (drop_bit 5 q)" by (rule conv) simp_all
      also have "\<dots> = drop_bit 5 q" using small 3 by (simp add: time_size_def compressed_timestamp_size_def)
      finally show "(push_bit 5 (ucast x AND BYTEMASK_L 3) + take_bit 5 q) * a + b = q * a + b" by (simp only: time_parts)
    qed simp_all
    then show ?thesis unfolding step
      by (intro reads_bnd_Cons [OF reads_getByte]) (simp add: hh 3 time_value_def time_size_def compressed_timestamp_size_def)
  next
    case 4
    have "reads inv pend (bnd (loadLE_bytes 2) (\<lambda>x :: 16 word. ret ((push_bit 5 (ucast x) + take_bit 5 q) * a + b)))
        (le_bytes 2 (drop_bit 5 q)) (q * a + b)" for a b
    proof (rule reads_loadLE)
      fix x :: "16 word" assume x: "take_bit (8 * 2) x = le_word (le_bytes 2 (drop_bit 5 q))"
      have "ucast x = (ucast (take_bit (8 * 2) x) :: 64 word)" by simp
      also have "\<dots> = ucast (take_bit (8 * 2) (ucast (drop_bit 5 q) :: 16 word))" unfolding x by (subst le) simp_all
      also have "\<dots> = take_bit (8 * 2) (drop_bit 5 q)" by (rule conv) simp_all
      also have "\<dots> = drop_bit 5 q" using small 4 by (simp add: time_size_def compressed_timestamp_size_def)
      finally show "(push_bit 5 (ucast x) + take_bit 5 q) * a + b = q * a + b" by (simp only: time_parts)
    qed simp_all
    then show ?thesis unfolding step
      by (intro reads_bnd_Cons [OF reads_getByte]) (simp add: hh 4 time_value_def time_size_def compressed_timestamp_size_def)
  next
    case 5
    have "reads inv pend (bnd (loadLE_bytes 7) (\<lambda>x :: 64 word. ret (((push_bit 5 (x AND BYTEMASK_L 7) + take_bit 5 q) + a) div N)))
        (le_bytes 7 (drop_bit 5 q)) ((q + a) div N)" for a
      by (rule reads_loadLE)
         (use small 5 in \<open>simp_all add: mask_bytes le time_parts time_size_def compressed_timestamp_size_def\<close>)
    then show ?thesis unfolding step
      by (intro reads_bnd_Cons [OF reads_getByte]) (simp add: hh 5 time_value_def time_size_def compressed_timestamp_size_def)
  next
    case 6
    have "reads inv pend (bnd (loadLE_bytes 8) (\<lambda>x :: 64 word. ret (((push_bit 5 x + take_bit 5 q) + a) div N)))
        (le_bytes 8 (drop_bit 5 q)) ((q + a) div N)" for a
      by (rule reads_loadLE)
         (simp_all add: le time_parts)
    then show ?thesis unfolding step
      by (intro reads_bnd_Cons [OF reads_getByte]) (simp add: hh 6 time_value_def time_size_def compressed_timestamp_size_def)
  qed
qed

lemma reads_time_null:
  "reads inv pend (getCompressedNanoTimeDividedBy N) [timestamp_header TG_SPECIAL] TIMESTAMP_NULL"
  unfolding getCompressedNanoTimeDividedBy_def
  by (intro reads_bnd_Cons [OF reads_getByte]) (simp add: Let_def timestamp_header_def)

end


section \<open>Times in milliseconds\<close>

text \<open>The granularity and the quantity that the writer chooses for an offset from the base.\<close>

definition ms_choice :: "64 word \<Rightarrow> timestamp_granularity \<times> 64 word" where
  "ms_choice t =
     (if t mod 10000 = 0
      then (if t mod 3600000 = 0 then (TG_HOURS, t div 3600000) else (TG_TEN_SECONDS, t div 10000))
      else (if t mod 1000 = 0 then (TG_SECONDS, t div 1000) else (TG_MILLIS, t)))"

definition ms_unit :: "timestamp_granularity \<Rightarrow> 64 word" where
  "ms_unit g = (case g of TG_HOURS \<Rightarrow> 3600000 | TG_TEN_SECONDS \<Rightarrow> 10000 | TG_SECONDS \<Rightarrow> 1000 | _ \<Rightarrow> 1)"

lemma word_div_mod_0: "(t :: 64 word) mod n = 0 \<Longrightarrow> t div n * n = t"
  using word_mod_div_equality [of t n] by simp

lemma ms_choice_unit: "ms_choice t = (g, q) \<Longrightarrow> q * ms_unit g = t"
  using word_div_mod_0 [of t 3600000] word_div_mod_0 [of t 10000] word_div_mod_0 [of t 1000]
  by (simp add: ms_choice_def ms_unit_def split: if_splits)

lemma ms_choice_granularity:
  "ms_choice t = (g, q) \<Longrightarrow> g \<in> {TG_HOURS, TG_TEN_SECONDS, TG_SECONDS, TG_MILLIS}"
  by (auto simp: ms_choice_def split: if_splits)

lemma ms_choice_seconds: "ms_choice t = (TG_SECONDS, q) \<longleftrightarrow> t mod 10000 \<noteq> 0 \<and> t mod 1000 = 0 \<and> q = t div 1000"
  by (auto simp: ms_choice_def)

lemma putCompressedMillisecondTime_choice:
  assumes "ms_choice (v - COMPRESSED_TIMESTAMP_BASE_MS) = (g, q)"
  shows "putCompressedMillisecondTime v =
     (if sint (v - COMPRESSED_TIMESTAMP_BASE_MS) < 0 then throw (RuntimeError ''Time too small'')
      else pack_time g (time_size g + 1) q)"
  using assms
  by (auto simp: putCompressedMillisecondTime_def Let_def ms_choice_def time_size_def compressed_timestamp_size_def
      split: if_splits)

lemma emits_pack_time_fits:
  assumes "unat q < 2 ^ (8 * time_size g + 5)" "time_size g < 8"
  shows "emits (pack_time g (time_size g + 1) q) (time_bytes g (time_size g) q) ()"
proof -
  have e: "(time_size g + 1) * 8 - 3 = 8 * time_size g + 5" by simp
  have "8 * time_size g + 5 < LENGTH(64)" using assms(2) by simp
  then have "unat ((2 :: 64 word) ^ (8 * time_size g + 5)) = 2 ^ (8 * time_size g + 5)"
    by (rule unat_exp)
  then have "q < 2 ^ ((time_size g + 1) * 8 - 3)" using assms(1) unfolding e by (simp only: word_less_nat_alt)
  from emits_pack_time [OF this] show ?thesis using assms(2) by simp
qed

lemma pack_time_ok:
  assumes "fst (pack_time g (time_size g + 1) q w) = Inr ()" "time_size g < 8"
  shows "unat q < 2 ^ (8 * time_size g + 5)"
proof -
  have e: "(time_size g + 1) * 8 - 3 = 8 * time_size g + 5" by simp
  have "8 * time_size g + 5 < LENGTH(64)" using assms(2) by simp
  then have p: "unat ((2 :: 64 word) ^ (8 * time_size g + 5)) = 2 ^ (8 * time_size g + 5)"
    by (rule unat_exp)
  have "\<not> 2 ^ (8 * time_size g + 5) \<le> q"
    using assms(1) unfolding pack_time_def e
    by (auto simp: andthen_def bnd_def)
  then show ?thesis using p by (simp only: word_le_nat_alt not_le)
qed

lemma time_size_less: "g \<in> {TG_HOURS, TG_TEN_SECONDS, TG_SECONDS, TG_MILLIS} \<Longrightarrow> time_size g < 8"
  by (auto simp: time_size_def compressed_timestamp_size_def)

lemma emits_millisecond_time:
  assumes "ms_choice (v - COMPRESSED_TIMESTAMP_BASE_MS) = (g, q)" "0 \<le> sint (v - COMPRESSED_TIMESTAMP_BASE_MS)"
    and "unat q < 2 ^ (8 * time_size g + 5)"
  shows "emits (putCompressedMillisecondTime v) (time_bytes g (time_size g) q) ()"
  using emits_pack_time_fits [OF assms(3) time_size_less] ms_choice_granularity [OF assms(1)] assms(2)
  by (simp only: putCompressedMillisecondTime_choice [OF assms(1)] not_less [symmetric] if_False)

text \<open>A write that returns has checked the range.\<close>

lemma millisecond_time_ok:
  assumes "fst (putCompressedMillisecondTime v w) = Inr ()" "ms_choice (v - COMPRESSED_TIMESTAMP_BASE_MS) = (g, q)"
  shows "0 \<le> sint (v - COMPRESSED_TIMESTAMP_BASE_MS)" "unat q < 2 ^ (8 * time_size g + 5)"
proof -
  have s: "\<not> sint (v - COMPRESSED_TIMESTAMP_BASE_MS) < 0"
    using assms(1) unfolding putCompressedMillisecondTime_choice [OF assms(2)] by (auto split: if_splits)
  then show "0 \<le> sint (v - COMPRESSED_TIMESTAMP_BASE_MS)" by (simp only: not_less)
  have "fst (pack_time g (time_size g + 1) q w) = Inr ()"
    using assms(1) unfolding putCompressedMillisecondTime_choice [OF assms(2)] by (simp only: s if_False)
  then show "unat q < 2 ^ (8 * time_size g + 5)"
    using pack_time_ok time_size_less ms_choice_granularity [OF assms(2)] by blast
qed

text \<open>The time that the decoder makes of the writer's choice: the 32-bit shift cuts the seconds.\<close>

definition ms_readback :: "64 word \<Rightarrow> 64 word" where
  "ms_readback v =
     (let t = v - COMPRESSED_TIMESTAMP_BASE_MS in
      if t mod 10000 \<noteq> 0 \<and> t mod 1000 = 0
      then take_bit 32 (t div 1000) * 1000 + COMPRESSED_TIMESTAMP_BASE_MS else v)"

lemma ms_time_value:
  assumes "ms_choice (v - COMPRESSED_TIMESTAMP_BASE_MS) = (g, q)"
  shows "time_value TIME_NANOS_PER_MILLISECOND g q = ms_readback v"
proof -
  have u: "q * ms_unit g + COMPRESSED_TIMESTAMP_BASE_MS = v" using ms_choice_unit [OF assms] by simp
  show ?thesis
  proof (cases "g = TG_SECONDS")
    case True
    with assms have "(v - COMPRESSED_TIMESTAMP_BASE_MS) mod 10000 \<noteq> 0 \<and> (v - COMPRESSED_TIMESTAMP_BASE_MS) mod 1000 = 0"
      "q = (v - COMPRESSED_TIMESTAMP_BASE_MS) div 1000" by (simp_all add: ms_choice_seconds)
    then show ?thesis
      unfolding ms_readback_def Let_def by (simp only: simp_thms if_True) (simp add: time_value_def True TIME_NANOS_PER_MILLISECOND_def)
  next
    case False
    have "\<not> ((v - COMPRESSED_TIMESTAMP_BASE_MS) mod 10000 \<noteq> 0 \<and> (v - COMPRESSED_TIMESTAMP_BASE_MS) mod 1000 = 0)"
      using assms False unfolding ms_choice_def by (auto split: if_splits)
    then have "ms_readback v = v" unfolding ms_readback_def Let_def by (simp only: if_False)
    then show ?thesis
      using ms_choice_granularity [OF assms] False u
      by (auto simp: time_value_def TIME_NANOS_PER_MILLISECOND_def ms_unit_def)
  qed
qed

lemma emits_writeCompressedTime:
  assumes "ms_choice (v - COMPRESSED_TIMESTAMP_BASE_MS) = (g, q)" "v \<noteq> TIMESTAMP_NULL"
    "0 \<le> sint (v - COMPRESSED_TIMESTAMP_BASE_MS)" "unat q < 2 ^ (8 * time_size g + 5)"
  shows "emits (writeCompressedTime v) (time_bytes g (time_size g) q) ()"
  using emits_marked(2) [OF emits_millisecond_time [OF assms(1,3,4)]] assms(2) by (simp add: writeCompressedTime_def)

lemma emits_writeCompressedTime_null:
  "emits (writeCompressedTime TIMESTAMP_NULL) [timestamp_header TG_SPECIAL] ()"
  using emits_putByte by (simp add: writeCompressedTime_def)

lemma time_bytes_nonempty [simp]: "time_bytes g n q \<noteq> []"
  by (simp add: time_bytes_def)

context byte_source begin

lemma reads_readDateTimeMs:
  assumes "ms_choice (v - COMPRESSED_TIMESTAMP_BASE_MS) = (g, q)" "unat q < 2 ^ (8 * time_size g + 5)"
  shows "reads inv pend readDateTimeMs (time_bytes g (time_size g) q) (ms_readback v)"
proof -
  have "time_fits g q" using assms(2) ms_choice_granularity [OF assms(1)] by (auto simp: time_fits_def)
  from reads_orNull [OF reads_time [OF this, of TIME_NANOS_PER_MILLISECOND]] show ?thesis
    by (simp add: readDateTimeMs_def ms_time_value [OF assms(1)])
qed

lemma reads_readDateTimeMs_null: "reads inv pend readDateTimeMs [timestamp_header TG_SPECIAL] TIMESTAMP_NULL"
  unfolding readDateTimeMs_def by (rule reads_orNull [OF reads_time_null]) simp

end

lemma written_time_reads_back:
  assumes "dataPtr w \<le> dataEnd w" "writeCompressedTime v w = (Inr (), w')" "msg_ok r"
    and "pend_msg r = load_bytes (wmem w') (dataPtr w) (dataPtr w' - dataPtr w) @ rest"
  shows "\<exists>r'. readDateTimeMs r = (Inr (if v = TIMESTAMP_NULL then v else ms_readback v), r') \<and>
    pend_msg r' = rest \<and> msg_ok r'"
proof (cases "v = TIMESTAMP_NULL")
  case True
  then show ?thesis
    using roundtrip [OF emits_writeCompressedTime_null msrc.reads_readDateTimeMs_null assms(1) _ assms(3,4)] assms(2)
    by simp
next
  case False
  obtain g q where c: "ms_choice (v - COMPRESSED_TIMESTAMP_BASE_MS) = (g, q)" by fastforce
  have "fst (putCompressedMillisecondTime v w) = Inr ()"
    using assms(2) False by (auto simp: writeCompressedTime_def elim: andthen_cases)
  note ok = millisecond_time_ok [OF this c]
  show ?thesis
    using roundtrip [OF emits_writeCompressedTime [OF c False ok] msrc.reads_readDateTimeMs [OF c ok(2)] assms] False
    by simp
qed

section \<open>Times in nanoseconds\<close>

definition ns_granularity :: "64 word \<Rightarrow> timestamp_granularity" where
  "ns_granularity t = (if 2 ^ 61 \<le> t then TG_LONG_NANOS else TG_NANOS)"

lemma emits_nanosecond_time:
  assumes "0 \<le> sint (v - COMPRESSED_TIMESTAMP_BASE_MS)"
  shows "emits (putCompressedNanosecondTime v)
    (time_bytes (ns_granularity (v - COMPRESSED_TIMESTAMP_BASE_MS)) (time_size (ns_granularity (v - COMPRESSED_TIMESTAMP_BASE_MS)))
       (v - COMPRESSED_TIMESTAMP_BASE_MS)) ()"
proof -
  define t where "t = v - COMPRESSED_TIMESTAMP_BASE_MS"
  define g where "g = ns_granularity t"
  have s: "\<not> sint t < 0" using assms by (simp only: t_def not_less)
  have hdr: "(if 2 ^ (64 - 3) \<le> t then timestamp_header TG_LONG_NANOS else timestamp_header TG_NANOS) = (timestamp_header g :: 8 word)"
    by (simp add: g_def ns_granularity_def)
  have len: "7 + (if 2 ^ (64 - 3) \<le> t then 1 else 0) = time_size g"
    by (simp add: g_def ns_granularity_def time_size_def compressed_timestamp_size_def)
  have le8: "time_size g \<le> 8" by (simp add: g_def ns_granularity_def time_size_def compressed_timestamp_size_def)
  have byte: "timestamp_header g OR ucast (t AND 0x1F) = (ucast (take_bit 5 t OR push_bit 5 (of_nat (tg_code g))) :: 8 word)"
  proof -
    have "t AND 0x1F = take_bit 5 t" using and_exp_take [of t 5] by simp
    then show ?thesis unfolding timestamp_header_def by (intro bit_word_eqI) (auto simp: bit_simps)
  qed
  have "emits (putLE (drop_bit 5 t) (time_size g)) (le_bytes (time_size g) (drop_bit 5 t)) ()"
  proof -
    have "take (time_size g) (le_bytes 8 (drop_bit 5 t)) = le_bytes (time_size g) (drop_bit 5 t)"
      using le8 by (intro nth_equalityI) auto
    then show ?thesis using emits_putLE [of "time_size g" "drop_bit 5 t"] le8 by simp
  qed
  from emits_andthen [OF emits_putByte this]
  have "emits (seqs [putByte (timestamp_header g OR ucast (t AND 0x1F)), putLE (drop_bit 5 t) (time_size g)])
      (time_bytes g (time_size g) t) ()"
    by (simp add: byte time_bytes_def)
  then show ?thesis
    unfolding putCompressedNanosecondTime_def Let_def t_def [symmetric] g_def [symmetric] hdr len using s
    by (simp only: if_False)
qed

lemma ns_time_fits: "time_fits (ns_granularity t) t"
proof -
  have "unat t < 2 ^ 61" if "\<not> 2 ^ 61 \<le> t"
    using that by (simp add: word_le_nat_alt not_le)
  then show ?thesis by (auto simp: time_fits_def ns_granularity_def time_size_def compressed_timestamp_size_def)
qed

lemma ns_time_value: "time_value 1 (ns_granularity t) t = t + COMPRESSED_TIMESTAMP_BASE_MS"
  by (simp add: time_value_def ns_granularity_def)

text \<open>Nanosecond times that are whole milliseconds go through the millisecond encoding.\<close>

lemma base_ns_ms: "COMPRESSED_TIMESTAMP_BASE_NS = COMPRESSED_TIMESTAMP_BASE_MS * 1000000"
  by (simp add: COMPRESSED_TIMESTAMP_BASE_NS_def COMPRESSED_TIMESTAMP_BASE_MS_def)

lemma ms_divs:
  "TIME_NANOS_PER_MILLISECOND \<noteq> 1" "1000000 div TIME_NANOS_PER_MILLISECOND = 1"
  "1000000000 div TIME_NANOS_PER_MILLISECOND = 1000" "10000000000 div TIME_NANOS_PER_MILLISECOND = 10000"
  "3600000000000 div TIME_NANOS_PER_MILLISECOND = 3600000"
  by (simp_all add: TIME_NANOS_PER_MILLISECOND_def)

lemma ns_of_ms_value:
  assumes "ms_choice (m - COMPRESSED_TIMESTAMP_BASE_MS) = (g, q)"
  shows "time_value 1 g q = ms_readback m * 1000000"
proof -
  have "time_value 1 g q = time_value TIME_NANOS_PER_MILLISECOND g q * 1000000"
    using ms_choice_granularity [OF assms]
    by (auto simp: time_value_def ms_divs base_ns_ms distrib_right mult.assoc)
  then show ?thesis by (simp add: ms_time_value [OF assms])
qed

definition ns_readback :: "64 word \<Rightarrow> 64 word" where
  "ns_readback v =
     (if v \<noteq> TIMESTAMP_NULL \<and> fast_divisible_by v TIME_NANOS_PER_MILLISECOND
      then ms_readback (fast_divide_by v TIME_NANOS_PER_MILLISECOND) * 1000000 else v)"

lemma written_nano_time_reads_back:
  assumes "dataPtr w \<le> dataEnd w" "writeCompressedNanoTime v w = (Inr (), w')" "msg_ok r"
    and "pend_msg r = load_bytes (wmem w') (dataPtr w) (dataPtr w' - dataPtr w) @ rest"
  shows "\<exists>r'. readDateTimeNs r = (Inr (ns_readback v), r') \<and> pend_msg r' = rest \<and> msg_ok r'"
proof -
  have bs: "\<exists>bs. emits (writeCompressedNanoTime v) bs () \<and> reads msg_ok pend_msg readDateTimeNs bs (ns_readback v)"
  proof (cases "v = TIMESTAMP_NULL")
    case True
    have "emits (writeCompressedNanoTime v) [timestamp_header TG_SPECIAL] ()"
      using True emits_andthen [OF emits_putByte emits_setNotNull] by (simp add: writeCompressedNanoTime_def)
    moreover have "reads msg_ok pend_msg readDateTimeNs [timestamp_header TG_SPECIAL] (ns_readback v)"
      unfolding readDateTimeNs_def using True by (intro msrc.reads_orNull) (simp_all add: ns_readback_def msrc.reads_time_null)
    ultimately show ?thesis by blast
  next
    case nn: False
    show ?thesis
    proof (cases "fast_divisible_by v TIME_NANOS_PER_MILLISECOND")
      case True
      let ?m = "fast_divide_by v TIME_NANOS_PER_MILLISECOND"
      obtain g q where c: "ms_choice (?m - COMPRESSED_TIMESTAMP_BASE_MS) = (g, q)" by fastforce
      have w: "writeCompressedNanoTime v = andthen (putCompressedMillisecondTime ?m) setNotNull"
        using True nn by (simp add: writeCompressedNanoTime_def)
      have "fst (putCompressedMillisecondTime ?m w) = Inr ()"
        using assms(2) unfolding w by (auto elim: andthen_cases)
      note ok = millisecond_time_ok [OF this c]
      have "time_fits g q" using ok(2) ms_choice_granularity [OF c] by (auto simp: time_fits_def)
      from msrc.reads_orNull [OF msrc.reads_time [OF this, of 1]]
      have "reads msg_ok pend_msg readDateTimeNs (time_bytes g (time_size g) q) (ns_readback v)"
        using True nn by (simp add: readDateTimeNs_def ns_of_ms_value [OF c] ns_readback_def)
      then show ?thesis
        using emits_andthen [OF emits_millisecond_time [OF c ok] emits_setNotNull] w by auto
    next
      case False
      let ?t = "v - COMPRESSED_TIMESTAMP_BASE_MS"
      have w: "writeCompressedNanoTime v = andthen (putCompressedNanosecondTime v) setNotNull"
        using False nn by (simp add: writeCompressedNanoTime_def)
      have "\<not> sint ?t < 0"
        using assms(2) unfolding w by (auto simp: putCompressedNanosecondTime_def Let_def andthen_def bnd_def split: if_splits)
      then have ok: "0 \<le> sint ?t" by (simp only: not_less)
      from msrc.reads_orNull [OF msrc.reads_time [OF ns_time_fits [of ?t], of 1]]
      have "reads msg_ok pend_msg readDateTimeNs (time_bytes (ns_granularity ?t) (time_size (ns_granularity ?t)) ?t) (ns_readback v)"
        using False by (simp add: readDateTimeNs_def ns_time_value ns_readback_def)
      then show ?thesis
        using emits_andthen [OF emits_nanosecond_time [OF ok] emits_setNotNull] w by auto
    qed
  qed
  then obtain bs where "emits (writeCompressedNanoTime v) bs ()" "reads msg_ok pend_msg readDateTimeNs bs (ns_readback v)" by blast
  from roundtrip [OF this assms] show ?thesis .
qed

section \<open>The domain of the round trips\<close>

text \<open>Seconds since the base (1899-11-09) fit into 32 bits up to 2035-12-16T06:28:16Z.\<close>

definition last_second :: int where
  "last_second = 2 ^ 32 * 1000 - 2213568000000"

lemma offset_value:
  assumes "0 \<le> sint (v - COMPRESSED_TIMESTAMP_BASE_MS)"
  shows "uint (v - COMPRESSED_TIMESTAMP_BASE_MS) = sint v + 2213568000000"
proof -
  let ?x = "sint v + 2213568000000"
  have b: "sint COMPRESSED_TIMESTAMP_BASE_MS = - 2213568000000" by (simp add: COMPRESSED_TIMESTAMP_BASE_MS_def)
  have u: "uint (v - COMPRESSED_TIMESTAMP_BASE_MS) = ?x mod 2 ^ 64"
    using uint_sub_sint [of v COMPRESSED_TIMESTAMP_BASE_MS] b by simp
  have r: "- (2 ^ 63) \<le> sint v" "sint v < 2 ^ 63" using sint_bounds [of v] by simp_all
  have small: "uint (v - COMPRESSED_TIMESTAMP_BASE_MS) < 2 ^ 63"
  proof -
    have "uint (v - COMPRESSED_TIMESTAMP_BASE_MS) = sint (v - COMPRESSED_TIMESTAMP_BASE_MS)"
      using assms sint_bounds [of "v - COMPRESSED_TIMESTAMP_BASE_MS"]
      by (simp add: uint_sint take_bit_int_eq_self)
    then show ?thesis using sint_bounds [of "v - COMPRESSED_TIMESTAMP_BASE_MS"] by simp
  qed
  show ?thesis
  proof (cases "0 \<le> ?x")
    case True
    then show ?thesis using u r by simp
  next
    case False
    then have "(?x + 2 ^ 64) mod 2 ^ 64 = ?x + 2 ^ 64" using r by (intro mod_pos_pos_trivial) simp_all
    then have "?x mod 2 ^ 64 = ?x + 2 ^ 64" by (simp only: mod_add_self2)
    then show ?thesis using u r small by simp
  qed
qed

lemma word_mod_0_iff: "uint n = k \<Longrightarrow> t mod n = 0 \<longleftrightarrow> k dvd uint (t :: 64 word)"
  by (simp only: word_uint_eq_iff uint_mod uint_0_eq dvd_eq_mod_eq_0)

lemma uint_1000: "uint (1000 :: 64 word) = 1000" by simp

lemma uint_10000: "uint (10000 :: 64 word) = 10000" by simp

lemma word_div_1000: "uint (t :: 64 word) < 2 ^ 32 * 1000 \<Longrightarrow> take_bit 32 (t div 1000) = t div 1000"
proof -
  assume t: "uint t < 2 ^ 32 * 1000"
  have "uint (t div 1000) = uint t div 1000" by (simp only: uint_div uint_1000)
  also have "\<dots> < 2 ^ 32" using t by (simp only: div_less_iff_less_mult zero_less_numeral)
  finally have "unat (t div 1000) < 2 ^ 32" by (simp only: unat_eq_nat_uint nat_less_iff uint_ge_0) simp
  then show ?thesis by (rule word_take_bit_self)
qed

lemma seconds_wrapped:
  assumes "t mod 10000 \<noteq> 0 \<and> t mod 1000 = 0" "t = v - COMPRESSED_TIMESTAMP_BASE_MS"
  shows "ms_readback v = take_bit 32 (t div 1000) * 1000 + COMPRESSED_TIMESTAMP_BASE_MS"
  unfolding ms_readback_def Let_def assms(2) [symmetric] using assms(1) by (simp only: if_True simp_thms)

lemma not_seconds_exact:
  assumes "\<not> (t mod 10000 \<noteq> 0 \<and> t mod 1000 = 0)" "t = v - COMPRESSED_TIMESTAMP_BASE_MS"
  shows "ms_readback v = v"
  unfolding ms_readback_def Let_def assms(2) [symmetric] using assms(1) by (simp only: if_False)

lemma ms_readback_exact:
  assumes "0 \<le> sint (v - COMPRESSED_TIMESTAMP_BASE_MS)"
    and dom: "sint v < last_second \<or> \<not> 1000 dvd sint v \<or> 10000 dvd sint v"
  shows "ms_readback v = v"
proof -
  define t where "t = v - COMPRESSED_TIMESTAMP_BASE_MS"
  have u: "uint t = sint v + 2213568000000" unfolding t_def by (rule offset_value [OF assms(1)])
  have bk: "t + COMPRESSED_TIMESTAMP_BASE_MS = v" unfolding t_def by (rule diff_add_cancel)
  have "10000 dvd sint v + 2213568000000 \<longleftrightarrow> 10000 dvd sint v" by (rule dvd_add_left_iff) simp
  then have z1: "t mod 10000 = 0 \<longleftrightarrow> 10000 dvd sint v"
    using word_mod_0_iff [OF uint_10000, of t] by (simp only: u)
  have "1000 dvd sint v + 2213568000000 \<longleftrightarrow> 1000 dvd sint v" by (rule dvd_add_left_iff) simp
  then have z2: "t mod 1000 = 0 \<longleftrightarrow> 1000 dvd sint v"
    using word_mod_0_iff [OF uint_1000, of t] by (simp only: u)
  show ?thesis
  proof (cases "t mod 10000 \<noteq> 0 \<and> t mod 1000 = 0")
    case True
    then have "\<not> 10000 dvd sint v" "1000 dvd sint v" unfolding z1 z2 by (rule conjunct1, rule conjunct2)
    with dom have "sint v < last_second" by satx
    then have "uint t < 2 ^ 32 * 1000" unfolding u last_second_def by linarith
    then have "take_bit 32 (t div 1000) * 1000 = t" using word_div_mod_0 [of t 1000] True by (simp only: word_div_1000)
    then show ?thesis using seconds_wrapped [OF True t_def] bk by (simp only:)
  next
    case False
    then show ?thesis by (rule not_seconds_exact [OF _ t_def])
  qed
qed

lemma ns_readback_exact:
  assumes "v = TIMESTAMP_NULL \<or>
      (- 9223372036854000000 \<le> sint v \<and> sint v < last_second * 1000000)"
    and ok: "\<And>m. v \<noteq> TIMESTAMP_NULL \<Longrightarrow> fast_divisible_by v TIME_NANOS_PER_MILLISECOND \<Longrightarrow>
      m = fast_divide_by v TIME_NANOS_PER_MILLISECOND \<Longrightarrow> 0 \<le> sint (m - COMPRESSED_TIMESTAMP_BASE_MS)"
  shows "ns_readback v = v"
proof (cases "v \<noteq> TIMESTAMP_NULL \<and> fast_divisible_by v TIME_NANOS_PER_MILLISECOND")
  case True
  let ?d = TIME_NANOS_PER_MILLISECOND
  have d: "0 < ?d" "uint ?d = 1000000" by (simp_all add: TIME_NANOS_PER_MILLISECOND_def)
  have dom: "- ((2 ^ 63 - 1) div uint ?d * uint ?d) \<le> sint v" "sint v < last_second * 1000000"
    using assms(1) True by (simp_all add: d)
  have dv: "1000000 dvd sint v" using True fast_divisible_by_correct [OF d(1) dom(1)] by (simp add: d)
  define k where "k = sint v div 1000000"
  have k: "sint v = k * 1000000" using dv by (simp add: k_def)
  have m: "fast_divide_by v ?d = word_of_int k" using fast_divide_by_correct [OF d(1) dom(1)] by (simp add: d k_def)
  have "- (2 ^ 63) \<le> k" "k < 2 ^ 63" using sint_bounds [of v] by (simp_all add: k)
  then have "signed_take_bit 63 k = k" by (intro signed_take_bit_int_eq_self) simp_all
  then have sm: "sint (word_of_int k :: 64 word) = k" by (simp add: sint_sbintrunc')
  have "k < last_second" using dom(2) k by simp
  then have "ms_readback (word_of_int k) = word_of_int k"
    using ok [OF _ _ refl] True unfolding m by (intro ms_readback_exact) (simp_all only: sm simp_thms)
  then have "ns_readback v = word_of_int k * 1000000" 
    using True by (simp only: ns_readback_def m if_True simp_thms)
  also have "\<dots> = word_of_int (k * 1000000)" by simp
  also have "\<dots> = v" unfolding k [symmetric] by simp
  finally show ?thesis .
next
  case False
  then show ?thesis by (simp only: ns_readback_def if_False)
qed

section \<open>Properties\<close>


lemma sample_time_write:
  assumes "ms_choice (v - COMPRESSED_TIMESTAMP_BASE_MS) = (g, q)" "v \<noteq> TIMESTAMP_NULL"
    "0 \<le> sint (v - COMPRESSED_TIMESTAMP_BASE_MS)" "unat q < 2 ^ (8 * time_size g + 5)"
  obtains w' where "writeCompressedTime v sample_writer = (Inr (), w')"
    "dataPtr sample_writer \<le> dataEnd sample_writer" "msg_ok (reader_over (wmem w') 8 (dataPtr w'))"
    "pend_msg (reader_over (wmem w') 8 (dataPtr w')) =
      load_bytes (wmem w') (dataPtr sample_writer) (dataPtr w' - dataPtr sample_writer) @ []"
proof -
  have "length (time_bytes g (time_size g) q) \<le> 100"
    using time_size_less [OF ms_choice_granularity [OF assms(1)]] by (simp add: time_bytes_def)
  from sample_roundtrip [OF emits_writeCompressedTime [OF assms] this] show ?thesis using that by blast
qed


text \<open>From then on a whole number of seconds that is not a whole number of ten seconds does not
  come back: the reader computes the seconds in 32 bits and returns a time \<open>2 ^ 32\<close> seconds
  earlier for each wrap-around.\<close>

theorem ms_time_seconds_wrap:
  assumes "dataPtr w \<le> dataEnd w" "writeCompressedTime v w = (Inr (), w')" "msg_ok r"
    and "pend_msg r = load_bytes (wmem w') (dataPtr w) (dataPtr w' - dataPtr w) @ rest"
    and "v \<noteq> TIMESTAMP_NULL" "(v - COMPRESSED_TIMESTAMP_BASE_MS) mod 10000 \<noteq> 0"
    and "(v - COMPRESSED_TIMESTAMP_BASE_MS) mod 1000 = 0"
  shows "\<exists>r'. readDateTimeMs r =
      (Inr (v - push_bit 32 (drop_bit 32 ((v - COMPRESSED_TIMESTAMP_BASE_MS) div 1000)) * 1000), r')"
proof -
  define t where "t = v - COMPRESSED_TIMESTAMP_BASE_MS"
  have t: "t mod 10000 \<noteq> 0 \<and> t mod 1000 = 0" unfolding t_def by (intro conjI assms)
  have v: "v = t div 1000 * 1000 + COMPRESSED_TIMESTAMP_BASE_MS"
    using word_div_mod_0 [of t 1000] t by (simp add: t_def)
  have "push_bit 32 (drop_bit 32 (t div 1000)) + take_bit 32 (t div 1000) = t div 1000" by (rule bits_ident)
  then have "take_bit 32 (t div 1000) = t div 1000 - push_bit 32 (drop_bit 32 (t div 1000))"
    by (metis add_diff_cancel_left')
  then have "ms_readback v = (t div 1000 - push_bit 32 (drop_bit 32 (t div 1000))) * 1000 + COMPRESSED_TIMESTAMP_BASE_MS"
    using seconds_wrapped [OF t t_def] by (simp only:)
  also have "\<dots> = v - push_bit 32 (drop_bit 32 (t div 1000)) * 1000"
    unfolding left_diff_distrib by (subst v) (rule diff_add_eq)
  finally show ?thesis
    using written_time_reads_back [OF assms(1-4)] assms(5) unfolding t_def by auto
qed

theorem ms_time_seconds_wrap_witness:
  "\<exists>w' r'. writeCompressedTime 2082758401000 sample_writer = (Inr (), w') \<and>
     readDateTimeMs (reader_over (wmem w') 8 (dataPtr w')) = (Inr (- 2212208895000), r')"
proof -
  let ?v = "2082758401000 :: 64 word"
  obtain w' where "writeCompressedTime ?v sample_writer = (Inr (), w')"
    "dataPtr sample_writer \<le> dataEnd sample_writer" "msg_ok (reader_over (wmem w') 8 (dataPtr w'))"
    "pend_msg (reader_over (wmem w') 8 (dataPtr w')) =
      load_bytes (wmem w') (dataPtr sample_writer) (dataPtr w' - dataPtr sample_writer) @ []"
    by (rule sample_time_write [of ?v TG_SECONDS 4296326401])
       (simp_all add: ms_choice_def COMPRESSED_TIMESTAMP_BASE_MS_def TIMESTAMP_NULL_def INT64_NULL_def
         time_size_def compressed_timestamp_size_def)
  moreover have "?v \<noteq> TIMESTAMP_NULL" "(?v - COMPRESSED_TIMESTAMP_BASE_MS) mod 10000 \<noteq> 0"
    "(?v - COMPRESSED_TIMESTAMP_BASE_MS) mod 1000 = 0"
    "?v - push_bit 32 (drop_bit 32 ((?v - COMPRESSED_TIMESTAMP_BASE_MS) div 1000)) * 1000 = - 2212208895000"
    by (simp_all add: COMPRESSED_TIMESTAMP_BASE_MS_def TIMESTAMP_NULL_def INT64_NULL_def)
  ultimately show ?thesis using ms_time_seconds_wrap [of sample_writer ?v w'] by metis
qed

text \<open>A time in nanoseconds written by \<open>writeCompressedNanoTime\<close> is read back by
  \<open>readDateTimeNs\<close> unchanged, whether it went through the millisecond or the nanosecond encoding,
  from the first time that \<open>fast_divide_by\<close> handles up to 2035-12-16T06:28:16Z.\<close>

theorem nano_time_roundtrip:
  assumes "dataPtr w \<le> dataEnd w" "writeCompressedNanoTime v w = (Inr (), w')" "msg_ok r"
    and "pend_msg r = load_bytes (wmem w') (dataPtr w) (dataPtr w' - dataPtr w) @ rest"
    and "v = TIMESTAMP_NULL \<or> (- 9223372036854000000 \<le> sint v \<and> sint v < last_second * 1000000)"
  shows "\<exists>r'. readDateTimeNs r = (Inr v, r') \<and> pend_msg r' = rest \<and> msg_ok r'"
proof -
  have "0 \<le> sint (m - COMPRESSED_TIMESTAMP_BASE_MS)"
    if "v \<noteq> TIMESTAMP_NULL" "fast_divisible_by v TIME_NANOS_PER_MILLISECOND"
      "m = fast_divide_by v TIME_NANOS_PER_MILLISECOND" for m
  proof -
    obtain g q where c: "ms_choice (m - COMPRESSED_TIMESTAMP_BASE_MS) = (g, q)" by fastforce
    have "writeCompressedNanoTime v = andthen (putCompressedMillisecondTime m) setNotNull"
      using that by (simp add: writeCompressedNanoTime_def)
    then have "fst (putCompressedMillisecondTime m w) = Inr ()"
      using assms(2) by (auto elim: andthen_cases)
    from millisecond_time_ok(1) [OF this c] show ?thesis .
  qed
  from ns_readback_exact [OF assms(5) this] show ?thesis
    using written_nano_time_reads_back [OF assms(1-4)] by metis
qed

theorem nano_time_roundtrip_witness:
  "\<exists>w' r'. writeCompressedNanoTime 1700000000123456789 sample_writer = (Inr (), w') \<and>
     readDateTimeNs (reader_over (wmem w') 8 (dataPtr w')) = (Inr 1700000000123456789, r')"
proof -
  let ?v = "1700000000123456789 :: 64 word" and ?t = "1700000000123456789 - COMPRESSED_TIMESTAMP_BASE_MS"
  have nd: "\<not> fast_divisible_by ?v TIME_NANOS_PER_MILLISECOND" "?v \<noteq> TIMESTAMP_NULL" "0 \<le> sint ?t"
    by (simp_all add: fast_divisible_by_def half_range_div_def TIME_NANOS_PER_MILLISECOND_def
        TIMESTAMP_NULL_def INT64_NULL_def COMPRESSED_TIMESTAMP_BASE_MS_def)
  have "emits (writeCompressedNanoTime ?v) (time_bytes (ns_granularity ?t) (time_size (ns_granularity ?t)) ?t @ []) ()"
    using emits_andthen [OF emits_nanosecond_time [OF nd(3)] emits_setNotNull] nd(1,2)
    by (simp add: writeCompressedNanoTime_def)
  moreover have "length (time_bytes (ns_granularity ?t) (time_size (ns_granularity ?t)) ?t @ []) \<le> 100"
    by (simp add: time_bytes_def ns_granularity_def time_size_def compressed_timestamp_size_def)
  ultimately obtain w' where "writeCompressedNanoTime ?v sample_writer = (Inr (), w')"
    "dataPtr sample_writer \<le> dataEnd sample_writer" "msg_ok (reader_over (wmem w') 8 (dataPtr w'))"
    "pend_msg (reader_over (wmem w') 8 (dataPtr w')) =
      load_bytes (wmem w') (dataPtr sample_writer) (dataPtr w' - dataPtr sample_writer) @ []"
    using sample_roundtrip by blast
  moreover have "- 9223372036854000000 \<le> sint ?v \<and> sint ?v < last_second * 1000000"
    by (simp add: last_second_def)
  ultimately show ?thesis using nano_time_roundtrip by blast
qed

end
