(* ===== verification/MessageCodec.thy ===== *)
theory MessageCodec
  imports WriterContainers ReaderContainers TimeCodec
begin

text \<open>
  Whole message bodies: values with nested arrays and objects, written by the calls a client makes of
  the writer and read by the calls it makes of the reader, with the field types of the message's
  classes. The theorems compose the codecs of the fields with the containers of both sides.
\<close>

section \<open>Values and their types\<close>

text \<open>The types of fields. An object has one of several classes, each a list of fields.\<close>

datatype field_type = TInt8 | TInt16 | TInt32 | TInt48 | TInt64 | TPUInt30 | TPUInt61 | TFloat64 | TFloat32
  | TInterval | TTimestamp | TTimeOfDay | TDateTimeMs | TDateTimeNs | TEnum8 | TEnum16 | TWChar | TBoolean
  | TUTF8 | TArray field_type | TObject "field_type list list"

datatype field_value = VInt8 "8 word" | VInt16 "16 word" | VInt32 "32 word" | VInt48 "64 word" | VInt64 "64 word"
  | VPUInt30 "32 word" | VPUInt61 "64 word" | VFloat64 "64 word" | VFloat32 "32 word" | VInterval "32 word"
  | VTimestamp "64 word" | VTimeOfDay "32 word" | VDateTimeMs "64 word" | VDateTimeNs "64 word"
  | VEnum8 "32 word" | VEnum16 "32 word" | VWChar "32 word" | VBoolean "8 word" | VUTF8 "byte list option"
  | VArray "field_value list option" | VObject "(8 word \<times> field_value list) option"

section \<open>A client that writes values\<close>

fun write_value :: "field_value \<Rightarrow> (writer, unit) op" and write_values :: "field_value list \<Rightarrow> (writer, unit) op" where
  "write_value (VInt8 x) = writeInt8 x"
| "write_value (VInt16 x) = writeInt16 x"
| "write_value (VInt32 x) = writeInt32 x"
| "write_value (VInt48 x) = writeInt48 x"
| "write_value (VInt64 x) = writeInt64 x"
| "write_value (VPUInt30 x) = writePUInt30 x"
| "write_value (VPUInt61 x) = writePUInt61 x"
| "write_value (VFloat64 x) = writeFloat64 x"
| "write_value (VFloat32 x) = writeFloat32 x"
| "write_value (VInterval x) = writeInterval x"
| "write_value (VTimestamp x) = writeTimestamp x"
| "write_value (VTimeOfDay x) = writeTimeOfDay x"
| "write_value (VDateTimeMs x) = writeCompressedTime x"
| "write_value (VDateTimeNs x) = writeCompressedNanoTime x"
| "write_value (VEnum8 x) = writeEnum8 x"
| "write_value (VEnum16 x) = writeEnum16 x"
| "write_value (VWChar x) = writeWChar x"
| "write_value (VBoolean x) = writeNullableBoolean (x = 1) (x = BOOL_NULL)"
| "write_value (VUTF8 x) = writeUTF8_opt x"
| "write_value (VArray None) = writeArrayNull"
| "write_value (VArray (Some vs)) = seqs [writeArrayStart (length vs), write_values vs, writeArrayEnd]"
| "write_value (VObject None) = writeObjectNull"
| "write_value (VObject (Some (i, vs))) = seqs [writeObjectStart i, write_values vs, writeObjectEnd]"
| "write_values [] = ret ()"
| "write_values (v # vs) = andthen (write_value v) (write_values vs)"

section \<open>A client that reads them\<close>

fun repeatM :: "nat \<Rightarrow> (reader, 'a) op \<Rightarrow> (reader, 'a list) op" where
  "repeatM 0 m = ret []"
| "repeatM (Suc n) m = bnd m (\<lambda>x. bnd (repeatM n m) (\<lambda>xs. ret (x # xs)))"

function (sequential) read_value :: "field_type \<Rightarrow> (reader, field_value) op"
  and read_values :: "field_type list \<Rightarrow> (reader, field_value list) op"
  and read_class :: "field_type list list \<Rightarrow> nat \<Rightarrow> (reader, field_value list) op" where
  "read_value TInt8 = bnd readInt8 (\<lambda>x. ret (VInt8 x))"
| "read_value TInt16 = bnd readInt16 (\<lambda>x. ret (VInt16 x))"
| "read_value TInt32 = bnd readInt32 (\<lambda>x. ret (VInt32 x))"
| "read_value TInt48 = bnd readInt48 (\<lambda>x. ret (VInt48 x))"
| "read_value TInt64 = bnd readInt64 (\<lambda>x. ret (VInt64 x))"
| "read_value TPUInt30 = bnd readPUInt30 (\<lambda>x. ret (VPUInt30 x))"
| "read_value TPUInt61 = bnd readPUInt61 (\<lambda>x. ret (VPUInt61 x))"
| "read_value TFloat64 = bnd readFloat64 (\<lambda>x. ret (VFloat64 x))"
| "read_value TFloat32 = bnd readFloat32 (\<lambda>x. ret (VFloat32 x))"
| "read_value TInterval = bnd readInterval (\<lambda>x. ret (VInterval x))"
| "read_value TTimestamp = bnd readTimestamp (\<lambda>x. ret (VTimestamp x))"
| "read_value TTimeOfDay = bnd readTimeOfDay (\<lambda>x. ret (VTimeOfDay x))"
| "read_value TDateTimeMs = bnd readDateTimeMs (\<lambda>x. ret (VDateTimeMs x))"
| "read_value TDateTimeNs = bnd readDateTimeNs (\<lambda>x. ret (VDateTimeNs x))"
| "read_value TEnum8 = bnd readEnum8 (\<lambda>x. ret (VEnum8 x))"
| "read_value TEnum16 = bnd readEnum16 (\<lambda>x. ret (VEnum16 x))"
| "read_value TWChar = bnd readWChar (\<lambda>x. ret (VWChar x))"
| "read_value TBoolean = bnd readNullableBooleanInt8 (\<lambda>x. ret (VBoolean x))"
| "read_value TUTF8 = bnd readUTF8 (\<lambda>x. ret (VUTF8 x))"
| "read_value (TArray t) =
     bnd readArrayStart (\<lambda>n. if n = INT32_NULL then ret (VArray None)
       else bnd (repeatM (unat n) (read_value t)) (\<lambda>vs. andthen readArrayEnd (ret (VArray (Some vs)))))"
| "read_value (TObject cs) =
     bnd readObjectStart (\<lambda>i. if i = INT32_NULL then ret (VObject None)
       else bnd (read_class cs (unat i)) (\<lambda>vs. andthen readObjectEnd (ret (VObject (Some (ucast i, vs))))))"
| "read_values [] = ret []"
| "read_values (t # ts) = bnd (read_value t) (\<lambda>v. bnd (read_values ts) (\<lambda>vs. ret (v # vs)))"
| "read_class [] i = throw (RuntimeError ''unknown class'')"
| "read_class (c # cs) 0 = read_values c"
| "read_class (c # cs) (Suc i) = read_class cs i"
  by pat_completeness auto
termination
  by (relation "measure (case_sum size (case_sum (size_list size) (\<lambda>(cs, i). size_list (size_list size) cs)))") auto

section \<open>The encoding\<close>

definition ms_time_bytes :: "64 word \<Rightarrow> byte list" where
  "ms_time_bytes v =
     (if v = TIMESTAMP_NULL then [timestamp_header TG_SPECIAL]
      else case ms_choice (v - COMPRESSED_TIMESTAMP_BASE_MS) of (g, q) \<Rightarrow> time_bytes g (time_size g) q)"

definition ns_time_bytes :: "64 word \<Rightarrow> byte list" where
  "ns_time_bytes v =
     (if v = TIMESTAMP_NULL then [timestamp_header TG_SPECIAL]
      else if fast_divisible_by v TIME_NANOS_PER_MILLISECOND
      then ms_time_bytes (fast_divide_by v TIME_NANOS_PER_MILLISECOND)
      else (let t = v - COMPRESSED_TIMESTAMP_BASE_MS in time_bytes (ns_granularity t) (time_size (ns_granularity t)) t))"

definition container_bytes :: "byte list \<Rightarrow> byte list" where
  "container_bytes c = puint22_bytes (of_nat (length c)) @ c"

fun value_bytes :: "field_value \<Rightarrow> byte list" and values_bytes :: "field_value list \<Rightarrow> byte list" where
  "value_bytes (VInt8 x) = [x]"
| "value_bytes (VInt16 x) = be_bytes 2 x"
| "value_bytes (VInt32 x) = be_bytes 4 x"
| "value_bytes (VInt48 x) = take 6 (be_bytes 8 (push_bit 16 x))"
| "value_bytes (VInt64 x) = be_bytes 8 x"
| "value_bytes (VPUInt30 x) = puint30_bytes x"
| "value_bytes (VPUInt61 x) = puint61_bytes x"
| "value_bytes (VFloat64 x) = be_bytes 8 x"
| "value_bytes (VFloat32 x) = be_bytes 4 x"
| "value_bytes (VInterval x) = interval_bytes x"
| "value_bytes (VTimestamp x) = be_bytes 8 x"
| "value_bytes (VTimeOfDay x) = be_bytes 4 x"
| "value_bytes (VDateTimeMs x) = ms_time_bytes x"
| "value_bytes (VDateTimeNs x) = ns_time_bytes x"
| "value_bytes (VEnum8 x) = [ucast x]"
| "value_bytes (VEnum16 x) = be_bytes 2 (ucast x :: 16 word)"
| "value_bytes (VWChar x) = be_bytes 2 (ucast x :: 16 word)"
| "value_bytes (VBoolean x) = [x]"
| "value_bytes (VUTF8 x) = utf8_bytes x"
| "value_bytes (VArray None) = [0]"
| "value_bytes (VArray (Some vs)) = container_bytes (puint22_bytes (of_nat (length vs)) @ values_bytes vs)"
| "value_bytes (VObject None) = [0]"
| "value_bytes (VObject (Some (i, vs))) = container_bytes (i # values_bytes vs)"
| "values_bytes [] = []"
| "values_bytes (v # vs) = value_bytes v @ values_bytes vs"


section \<open>The values that are encoded faithfully\<close>

definition ms_time_ok :: "64 word \<Rightarrow> bool" where
  "ms_time_ok v \<longleftrightarrow> v = TIMESTAMP_NULL \<or>
     (0 \<le> sint (v - COMPRESSED_TIMESTAMP_BASE_MS) \<and>
      (case ms_choice (v - COMPRESSED_TIMESTAMP_BASE_MS) of (g, q) \<Rightarrow> unat q < 2 ^ (8 * time_size g + 5)) \<and>
      (sint v < last_second \<or> \<not> 1000 dvd sint v \<or> 10000 dvd sint v))"

fun value_ok :: "field_value \<Rightarrow> bool" and values_ok :: "field_value list \<Rightarrow> bool" where
  "value_ok (VInt48 x) \<longleftrightarrow> - (2 ^ 47) \<le> sint x \<and> sint x < 2 ^ 47"
| "value_ok (VPUInt30 x) \<longleftrightarrow> x = UINT30_NULL \<or> x \<le> 2 ^ 30 - 2"
| "value_ok (VPUInt61 x) \<longleftrightarrow> x = UINT61_NULL \<or> x \<le> 2 ^ 61 - 2"
| "value_ok (VInterval x) \<longleftrightarrow> x \<le> 0x7FFFFFFF \<and> interval_readback x = x"
| "value_ok (VDateTimeMs x) \<longleftrightarrow> ms_time_ok x"
| "value_ok (VDateTimeNs x) \<longleftrightarrow> x = TIMESTAMP_NULL \<or>
     (- 9223372036854000000 \<le> sint x \<and> sint x < last_second * 1000000 \<and>
      (if fast_divisible_by x TIME_NANOS_PER_MILLISECOND then ms_time_ok (fast_divide_by x TIME_NANOS_PER_MILLISECOND) \<and>
         fast_divide_by x TIME_NANOS_PER_MILLISECOND \<noteq> TIMESTAMP_NULL
       else 0 \<le> sint (x - COMPRESSED_TIMESTAMP_BASE_MS)))"
| "value_ok (VEnum8 x) \<longleftrightarrow> scast (ucast x :: 8 word) = x"
| "value_ok (VEnum16 x) \<longleftrightarrow> scast (ucast x :: 16 word) = x"
| "value_ok (VWChar x) \<longleftrightarrow> ucast (ucast x :: 16 word) = x"
| "value_ok (VBoolean x) \<longleftrightarrow> x = 0 \<or> x = 1 \<or> x = BOOL_NULL"
| "value_ok (VUTF8 x) \<longleftrightarrow> (case x of None \<Rightarrow> True | Some bs \<Rightarrow> length bs < 0xFFFF)"
| "value_ok (VArray (Some vs)) \<longleftrightarrow> values_ok vs \<and> length vs < 2 ^ 22 \<and>
     length (puint22_bytes (of_nat (length vs)) @ values_bytes vs) < 2 ^ 22"
| "value_ok (VObject (Some (i, vs))) \<longleftrightarrow> values_ok vs \<and> length (i # values_bytes vs) < 2 ^ 22"
| "value_ok _ \<longleftrightarrow> True"
| "values_ok [] \<longleftrightarrow> True"
| "values_ok (v # vs) \<longleftrightarrow> value_ok v \<and> values_ok vs"

text \<open>The levels of containers in a value, and values whose containers all have less than 128 bytes.\<close>

fun height :: "field_value \<Rightarrow> nat" and heights :: "field_value list \<Rightarrow> nat" where
  "height (VArray (Some vs)) = Suc (heights vs)"
| "height (VObject (Some (i, vs))) = Suc (heights vs)"
| "height _ = 0"
| "heights [] = 0"
| "heights (v # vs) = max (height v) (heights vs)"

fun small :: "field_value \<Rightarrow> bool" and smalls :: "field_value list \<Rightarrow> bool" where
  "small (VArray (Some vs)) \<longleftrightarrow> smalls vs \<and> length (puint22_bytes (of_nat (length vs)) @ values_bytes vs) < 0x80"
| "small (VObject (Some (i, vs))) \<longleftrightarrow> smalls vs \<and> length (i # values_bytes vs) < 0x80"
| "small _ \<longleftrightarrow> True"
| "smalls [] \<longleftrightarrow> True"
| "smalls (v # vs) \<longleftrightarrow> small v \<and> smalls vs"

fun has_type :: "field_type \<Rightarrow> field_value \<Rightarrow> bool" and have_types :: "field_type list \<Rightarrow> field_value list \<Rightarrow> bool" where
  "has_type t (VInt8 x) \<longleftrightarrow> t = TInt8"
| "has_type t (VInt16 x) \<longleftrightarrow> t = TInt16"
| "has_type t (VInt32 x) \<longleftrightarrow> t = TInt32"
| "has_type t (VInt48 x) \<longleftrightarrow> t = TInt48"
| "has_type t (VInt64 x) \<longleftrightarrow> t = TInt64"
| "has_type t (VPUInt30 x) \<longleftrightarrow> t = TPUInt30"
| "has_type t (VPUInt61 x) \<longleftrightarrow> t = TPUInt61"
| "has_type t (VFloat64 x) \<longleftrightarrow> t = TFloat64"
| "has_type t (VFloat32 x) \<longleftrightarrow> t = TFloat32"
| "has_type t (VInterval x) \<longleftrightarrow> t = TInterval"
| "has_type t (VTimestamp x) \<longleftrightarrow> t = TTimestamp"
| "has_type t (VTimeOfDay x) \<longleftrightarrow> t = TTimeOfDay"
| "has_type t (VDateTimeMs x) \<longleftrightarrow> t = TDateTimeMs"
| "has_type t (VDateTimeNs x) \<longleftrightarrow> t = TDateTimeNs"
| "has_type t (VEnum8 x) \<longleftrightarrow> t = TEnum8"
| "has_type t (VEnum16 x) \<longleftrightarrow> t = TEnum16"
| "has_type t (VWChar x) \<longleftrightarrow> t = TWChar"
| "has_type t (VBoolean x) \<longleftrightarrow> t = TBoolean"
| "has_type t (VUTF8 x) \<longleftrightarrow> t = TUTF8"
| "has_type t (VArray None) \<longleftrightarrow> (case t of TArray u \<Rightarrow> True | _ \<Rightarrow> False)"
| "has_type t (VArray (Some vs)) \<longleftrightarrow> (case t of TArray u \<Rightarrow> have_types (replicate (length vs) u) vs | _ \<Rightarrow> False)"
| "has_type t (VObject None) \<longleftrightarrow> (case t of TObject cs \<Rightarrow> True | _ \<Rightarrow> False)"
| "has_type t (VObject (Some (i, vs))) \<longleftrightarrow>
     (case t of TObject cs \<Rightarrow> unat i < length cs \<and> have_types (cs ! unat i) vs | _ \<Rightarrow> False)"
| "have_types ts [] \<longleftrightarrow> ts = []"
| "have_types ts (v # vs) \<longleftrightarrow> (case ts of [] \<Rightarrow> False | u # us \<Rightarrow> has_type u v \<and> have_types us vs)"

definition scalar :: "field_value \<Rightarrow> bool" where
  "scalar v \<longleftrightarrow> (\<forall>vs. v \<noteq> VArray (Some vs)) \<and> (\<forall>x. v \<noteq> VObject (Some x))"

text \<open>Induction over values by their scalars and containers.\<close>

lemma value_induct:
  assumes scalars: "\<And>v. scalar v \<Longrightarrow> P v"
    and array: "\<And>vs. Q vs \<Longrightarrow> P (VArray (Some vs))"
    and object: "\<And>i vs. Q vs \<Longrightarrow> P (VObject (Some (i, vs)))"
    and nil: "Q []"
    and cons: "\<And>v vs. P v \<Longrightarrow> Q vs \<Longrightarrow> Q (v # vs)"
  shows "P v" "Q vs"
  by (induction v and vs rule: height_heights.induct)
     (rule array, assumption | rule object, assumption | rule nil | rule cons, assumption, assumption
      | rule scalars, simp add: scalar_def)+

section \<open>Writing\<close>

lemma emits_seqs_marked: "emits m bs () \<Longrightarrow> emits (andthen m (checkNull b)) bs ()"
  using emits_marked(1) [of m bs b] by simp

lemma emits_ms_time:
  assumes "ms_time_ok v"
  shows "emits (writeCompressedTime v) (ms_time_bytes v) ()"
proof (cases "v = TIMESTAMP_NULL")
  case True
  then show ?thesis using emits_writeCompressedTime_null by (simp add: ms_time_bytes_def)
next
  case False
  obtain g q where c: "ms_choice (v - COMPRESSED_TIMESTAMP_BASE_MS) = (g, q)" by fastforce
  then show ?thesis
    using emits_writeCompressedTime [OF c False] assms False by (simp add: ms_time_bytes_def ms_time_ok_def)
qed

lemma emits_ns_time:
  assumes "value_ok (VDateTimeNs v)"
  shows "emits (writeCompressedNanoTime v) (ns_time_bytes v) ()"
proof (cases "v = TIMESTAMP_NULL")
  case True
  then show ?thesis
    using emits_andthen [OF emits_putByte emits_setNotNull] by (simp add: writeCompressedNanoTime_def ns_time_bytes_def)
next
  case nn: False
  show ?thesis
  proof (cases "fast_divisible_by v TIME_NANOS_PER_MILLISECOND")
    case True
    let ?m = "fast_divide_by v TIME_NANOS_PER_MILLISECOND"
    obtain g q where c: "ms_choice (?m - COMPRESSED_TIMESTAMP_BASE_MS) = (g, q)" by fastforce
    have ok: "ms_time_ok ?m" "?m \<noteq> TIMESTAMP_NULL" using assms True nn by simp_all
    then have "emits (putCompressedMillisecondTime ?m) (time_bytes g (time_size g) q) ()"
      using emits_millisecond_time [OF c] c by (simp add: ms_time_ok_def)
    from emits_andthen [OF this emits_setNotNull] show ?thesis
      using True nn ok(2) c by (simp add: writeCompressedNanoTime_def ns_time_bytes_def ms_time_bytes_def)
  next
    case False
    then have "0 \<le> sint (v - COMPRESSED_TIMESTAMP_BASE_MS)" using assms nn by simp
    from emits_andthen [OF emits_nanosecond_time [OF this] emits_setNotNull] show ?thesis
      using False nn by (simp add: writeCompressedNanoTime_def ns_time_bytes_def Let_def)
  qed
qed

lemma emits_utf8:
  assumes "case s of None \<Rightarrow> True | Some bs \<Rightarrow> length bs < 0xFFFF"
  shows "emits (writeUTF8_opt s) (utf8_bytes s) ()"
proof (cases s)
  case None
  then show ?thesis using emits_putUInt16 [of "0xFFFF"] by (simp add: writeUTF8_opt_def utf8_bytes_def be_bytes_FFFF)
next
  case (Some bs)
  have "emits (whenM (length bs \<noteq> 0) (putBytes bs)) bs ()" using emits_putBytes [of bs] by (cases "bs = []") simp_all
  from emits_andthen [OF emits_putUInt16 this] show ?thesis
    using Some assms by (simp add: writeUTF8_opt_def writeUTF8_bytes_def utf8_bytes_def)
qed

lemma emits_scalar:
  assumes "scalar v" "value_ok v"
  shows "emits (write_value v) (value_bytes v) ()"
proof (cases v)
  case (VBoolean x)
  then have "(if x = BOOL_NULL then BOOL_NULL else of_bool (x = 1)) = x" using assms(2) by auto
  then show ?thesis
    using VBoolean emits_marked(1) [OF emits_putByte [of x], of "x = BOOL_NULL"]
    by (simp add: writeNullableBoolean_def)
next
  case (VArray x)
  then show ?thesis
    using assms(1) emits_marked(3) [OF emits_putByte [of 0]] by (cases x) (simp_all add: scalar_def writeArrayNull_def)
next
  case (VObject x)
  then show ?thesis
    using assms(1) emits_marked(3) [OF emits_putByte [of 0]] by (cases x) (simp_all add: scalar_def writeObjectNull_def)
next
  case (VEnum16 x)
  then show ?thesis using emits_marked(1) [OF emits_putUInt16] by (simp add: writeEnum16_def)
next
  case (VWChar x)
  then show ?thesis using emits_marked(1) [OF emits_putUInt16] by (simp add: writeWChar_def)
qed (use assms(2) in \<open>simp_all add: emits_puts emits_seqs_marked writeInt8_def writeInt16_def writeInt32_def writeInt64_def
    writeFloat64_def writeFloat32_def putFloat64_def putFloat32_def putUInt64_def [symmetric] putUInt32_def [symmetric]
    writeTimestamp_def writeTimeOfDay_def writeEnum8_def emits_writeInt48 emits_writePUInt30
    emits_writePUInt61 writeInterval_def emits_putInterval emits_ms_time emits_ns_time emits_utf8
    del: value_ok.simps(6)\<close>)


text \<open>The calls that open, fill and close a container as one container of the writer.\<close>

lemma seqs_array:
  "seqs [writeArrayStart n, m, writeArrayEnd] =
     andthen (seqs [openContainer True, andthen (writePackedUInt22 (of_nat n)) (andthen setNotNull m), closeContainer True]) setNotNull"
  by (simp add: writeArrayStart_def writeArrayEnd_def andthen_assoc)

lemma seqs_object:
  "seqs [writeObjectStart i, m, writeObjectEnd] =
     andthen (seqs [openContainer False, andthen (putByte i) (andthen setNotNull m), closeContainer False]) setNotNull"
  by (simp add: writeObjectStart_def writeObjectEnd_def andthen_assoc)

lemma boxes_content:
  assumes "emits e h ()" "boxes m bs k"
  shows "boxes (andthen e (andthen setNotNull m)) (h @ bs) k"
  using boxes_andthen [OF boxes_mono [OF boxes_emits [OF assms(1)]] boxes_andthen [OF boxes_mono [OF boxes_emits [OF emits_setNotNull]] assms(2)]]
  by simp

lemma boxes_marked: "boxes m bs k \<Longrightarrow> boxes (andthen m setNotNull) bs k"
  using boxes_andthen [OF _ boxes_mono [OF boxes_emits [OF emits_setNotNull]], of m bs k] by simp

lemma appends_marked: "appends m bs \<Longrightarrow> appends (andthen m setNotNull) bs"
  using appends_andthen [OF _ appends_boxes [OF boxes_emits [OF emits_setNotNull]], of m bs] by simp

lemma small_length: "n < 0x80 \<Longrightarrow> puint22_bytes (of_nat n) = [of_nat n]"
proof -
  assume n: "n < 0x80"
  have "(of_nat n :: 32 word) < 0x80" using n by (simp add: word_less_nat_alt unsigned_of_nat take_bit_nat_eq_self)
  moreover have "ucast (of_nat n :: 32 word) = (of_nat n :: 8 word)" by (rule bit_word_eqI) (simp add: bit_simps)
  ultimately show ?thesis by (simp add: puint22_bytes_def)
qed

lemma boxes_container_bytes:
  assumes "emits e h ()" "boxes m bs k" "length (h @ bs) < 0x80"
  shows "boxes (seqs [openContainer a, andthen e (andthen setNotNull m), closeContainer a]) (container_bytes (h @ bs)) (Suc k)"
  using boxes_container [OF boxes_content [OF assms(1,2)] assms(3)] small_length [OF assms(3)]
  by (simp add: container_bytes_def)

lemma boxes_value:
  "value_ok v \<Longrightarrow> small v \<Longrightarrow> boxes (write_value v) (value_bytes v) (height v)"
  and boxes_values: "values_ok vs \<Longrightarrow> smalls vs \<Longrightarrow> boxes (write_values vs) (values_bytes vs) (heights vs)"
proof (induction v and vs rule: value_induct)
  case (1 v)
  then have "height v = 0" by (cases v rule: height.cases) (auto simp: scalar_def)
  then show ?case using boxes_emits [OF emits_scalar [OF 1(1,2)]] by simp
next
  case (2 vs)
  then show ?case
    using boxes_marked [OF boxes_container_bytes [OF emits_writePackedUInt22, of "write_values vs"]]
    unfolding write_value.simps seqs_array by simp
next
  case (3 i vs)
  then show ?case
    using boxes_marked [OF boxes_container_bytes [OF emits_putByte, of "write_values vs"]]
    unfolding write_value.simps seqs_object by simp
next
  case 4
  show ?case unfolding write_values.simps values_bytes.simps heights.simps by (rule boxes_ret)
next
  case (5 v vs)
  then show ?case
    using boxes_andthen [of "write_value v" "value_bytes v" "max (height v) (heights vs)"]
      boxes_mono [of "write_value v" _ "height v"] boxes_mono [of "write_values vs" _ "heights vs"] by simp
qed


text \<open>At the top level of a message one container may have any size; the ones inside it are small.\<close>

fun top_small :: "field_value \<Rightarrow> bool" where
  "top_small (VArray (Some vs)) \<longleftrightarrow> smalls vs"
| "top_small (VObject (Some (i, vs))) \<longleftrightarrow> smalls vs"
| "top_small _ \<longleftrightarrow> True"

lemma appends_container_bytes:
  assumes "emits e h ()" "boxes m bs k" "Suc k \<le> LOADER_MAX_NESTED_OBJECTS" "length (h @ bs) < 2 ^ 22"
  shows "appends (seqs [openContainer a, andthen e (andthen setNotNull m), closeContainer a]) (container_bytes (h @ bs))"
  using appends_container [OF boxes_content [OF assms(1,2)] assms(3,4)] by (simp add: container_bytes_def)

lemma appends_value:
  assumes "value_ok v" "top_small v" "height v \<le> LOADER_MAX_NESTED_OBJECTS"
  shows "appends (write_value v) (value_bytes v)"
proof (cases "scalar v")
  case True
  then show ?thesis using appends_boxes [OF boxes_emits [OF emits_scalar [OF True assms(1)]]] by simp
next
  case False
  then consider vs where "v = VArray (Some vs)" | i vs where "v = VObject (Some (i, vs))"
    by (auto simp: scalar_def)
  then show ?thesis
  proof cases
    case 1
    then have "boxes (write_values vs) (values_bytes vs) (heights vs)" using assms by (simp add: boxes_values)
    from appends_marked [OF appends_container_bytes [OF emits_writePackedUInt22 this]] show ?thesis
      using 1 assms unfolding 1 write_value.simps seqs_array by simp
  next
    case 2
    then have "boxes (write_values vs) (values_bytes vs) (heights vs)" using assms by (simp add: boxes_values)
    from appends_marked [OF appends_container_bytes [OF emits_putByte this]] show ?thesis
      using 2 assms unfolding 2 write_value.simps seqs_object by simp
  qed
qed

lemma appends_values:
  "values_ok vs \<Longrightarrow> (\<forall>v \<in> set vs. top_small v \<and> height v \<le> LOADER_MAX_NESTED_OBJECTS) \<Longrightarrow>
     appends (write_values vs) (values_bytes vs)"
proof (induction vs)
  case Nil
  show ?case unfolding write_values.simps values_bytes.simps by (rule appends_ret)
next
  case (Cons v vs)
  then show ?case using appends_andthen [OF appends_value [of v]] by simp
qed

section \<open>Reading\<close>

lemma be_bytes_nonempty [simp]: "take 6 (be_bytes 8 v) \<noteq> []" "interval_bytes x \<noteq> []" "puint30_bytes y \<noteq> []" "puint61_bytes z \<noteq> []"
    "puint22_bytes a \<noteq> []"
proof -
  show "take 6 (be_bytes 8 v) \<noteq> []" using length_be_bytes [of 8 v] by (metis length_0_conv length_take min_def numeral_eq_iff semiring_norm(85) zero_neq_numeral)
  show "interval_bytes x \<noteq> []" by (auto simp: interval_bytes_def split: option.splits)
  show "puint30_bytes y \<noteq> []" "puint61_bytes z \<noteq> []" by (auto simp: puint30_bytes_def puint61_bytes_def)
  show "puint22_bytes a \<noteq> []" by (auto simp: puint22_bytes_def)
qed

lemma ms_readback_ok:
  assumes "ms_time_ok v" "v \<noteq> TIMESTAMP_NULL"
  shows "ms_readback v = v"
  using assms by (intro ms_readback_exact) (auto simp: ms_time_ok_def)

context byte_source begin

lemma reads_loadBE_bytes:
  assumes "8 * n = LENGTH('a::len)" "n \<le> 8"
  shows "reads inv pend (loadBE_next :: (reader, 'a word) op) (be_bytes n v) v"
proof -
  have "LENGTH('a) div 8 = n" "8 dvd LENGTH('a)" "LENGTH('a) \<le> 64" using assms by (simp_all add: assms(1) [symmetric])
  then have "reads inv pend (loadBE_next :: (reader, 'a word) op) (be_bytes n v) (be_word (be_bytes n v))"
    by (intro reads_loadBE) simp_all
  moreover have "be_word (be_bytes n v) = v"
    unfolding be_word_be_bytes assms(1) by (rule word_take_bit_self) (rule unsigned_less)
  ultimately show ?thesis by simp
qed

lemma reads_ms_time_bytes:
  assumes "ms_time_ok v"
  shows "reads inv pend readDateTimeMs (ms_time_bytes v) v"
proof (cases "v = TIMESTAMP_NULL")
  case True
  then show ?thesis using reads_readDateTimeMs_null by (simp add: ms_time_bytes_def)
next
  case False
  obtain g q where c: "ms_choice (v - COMPRESSED_TIMESTAMP_BASE_MS) = (g, q)" by fastforce
  then have "unat q < 2 ^ (8 * time_size g + 5)" using assms False by (simp add: ms_time_ok_def)
  from reads_readDateTimeMs [OF c this] show ?thesis
    using False c ms_readback_ok [OF assms False] by (simp add: ms_time_bytes_def)
qed

lemma reads_ns_time_bytes:
  assumes "value_ok (VDateTimeNs v)"
  shows "reads inv pend readDateTimeNs (ns_time_bytes v) v"
proof (cases "v = TIMESTAMP_NULL")
  case True
  have "reads inv pend readDateTimeNs [timestamp_header TG_SPECIAL] TIMESTAMP_NULL"
    unfolding readDateTimeNs_def by (rule reads_orNull [OF reads_time_null]) simp
  then show ?thesis using True by (simp add: ns_time_bytes_def)
next
  case nn: False
  show ?thesis
  proof (cases "fast_divisible_by v TIME_NANOS_PER_MILLISECOND")
    case True
    let ?m = "fast_divide_by v TIME_NANOS_PER_MILLISECOND"
    obtain g q where c: "ms_choice (?m - COMPRESSED_TIMESTAMP_BASE_MS) = (g, q)" by fastforce
    have ok: "ms_time_ok ?m" "?m \<noteq> TIMESTAMP_NULL" using assms True nn by simp_all
    then have q: "unat q < 2 ^ (8 * time_size g + 5)" "0 \<le> sint (?m - COMPRESSED_TIMESTAMP_BASE_MS)" using c by (simp_all add: ms_time_ok_def)
    have "time_fits g q" using q(1) ms_choice_granularity [OF c] by (auto simp: time_fits_def)
    have bk: "ns_readback v = v"
      using assms nn q(2) by (intro ns_readback_exact) auto
    from reads_orNull [OF reads_time [OF \<open>time_fits g q\<close>, of 1]]
    have "reads inv pend readDateTimeNs (time_bytes g (time_size g) q) (ns_readback v)"
      using True nn by (simp add: readDateTimeNs_def ns_of_ms_value [OF c] ns_readback_def)
    then show ?thesis using True nn ok(2) c unfolding bk by (simp add: ns_time_bytes_def ms_time_bytes_def)
  next
    case False
    let ?t = "v - COMPRESSED_TIMESTAMP_BASE_MS"
    from reads_orNull [OF reads_time [OF ns_time_fits [of ?t], of 1]]
    have "reads inv pend readDateTimeNs (time_bytes (ns_granularity ?t) (time_size (ns_granularity ?t)) ?t) v"
      by (simp add: readDateTimeNs_def ns_time_value)
    then show ?thesis using False nn by (simp add: ns_time_bytes_def Let_def)
  qed
qed

end

lemma puint22_zero: "puint22_bytes 0 = [0]"
  by (simp add: puint22_bytes_def)

context copying_source begin

lemma reads_scalar:
  assumes "scalar v" "value_ok v" "has_type t v" "\<And>x. v \<noteq> VArray x" "\<And>x. v \<noteq> VObject x"
  shows "reads inv pend (read_value t) (value_bytes v) v"
proof -
  note fixed = reads_orNull [OF reads_getByte] reads_orNull [OF reads_getUInt16] reads_orNull [OF reads_getUInt32]
    reads_orNull [OF reads_getUInt64] reads_orNull [OF reads_loadBE_bytes] reads_orNull [OF reads_bnd_ret]
  note defs = readInt8_def readInt16_def readInt32_def readInt64_def readFloat64_def readFloat32_def readTimestamp_def
    readTimeOfDay_def readNullableBooleanInt8_def
  show ?thesis
  proof (cases v)
    case (VInterval x)
    then show ?thesis
      using assms(2,3) reads_bnd_ret [OF reads_readInterval [of x], of VInterval] by simp
  next
    case (VEnum8 x)
    have "reads inv pend readEnum8 [ucast x] (scast (ucast x :: 8 word))"
      unfolding readEnum8_def
      using reads_orNull [OF reads_bnd_ret [OF reads_loadBE_bytes [of 1 "ucast x :: 8 word"], of scast]] by (simp add: be_bytes_1)
    then show ?thesis using VEnum8 assms(2,3) reads_bnd_ret [of inv pend readEnum8 _ _ VEnum8] by simp
  next
    case (VEnum16 x)
    have "reads inv pend readEnum16 (be_bytes 2 (ucast x :: 16 word)) (scast (ucast x :: 16 word))"
      unfolding readEnum16_def
      using reads_orNull [OF reads_bnd_ret [OF reads_loadBE_bytes [of 2 "ucast x :: 16 word"], of scast]] by simp
    then show ?thesis using VEnum16 assms(2,3) reads_bnd_ret [of inv pend readEnum16 _ _ VEnum16] by simp
  next
    case (VWChar x)
    have "reads inv pend readWChar (be_bytes 2 (ucast x :: 16 word)) (ucast (ucast x :: 16 word))"
      unfolding readWChar_def
      using reads_orNull [OF reads_bnd_ret [OF reads_getUInt16 [of "ucast x"], of ucast]] by simp
    then show ?thesis using VWChar assms(2,3) reads_bnd_ret [of inv pend readWChar _ _ VWChar] by simp
  next
    case (VDateTimeNs x)
    then show ?thesis using assms(2,3) reads_bnd_ret [OF reads_ns_time_bytes [of x], of VDateTimeNs] by (simp del: value_ok.simps(6))
  qed (use assms in \<open>auto intro!: reads_bnd_ret fixed reads_readInt48 reads_readPUInt30 reads_readPUInt61
        reads_ms_time_bytes reads_readUTF8 simp: defs\<close>)
qed

end

text \<open>Null containers, and containers with their contents, on a reader inside some containers.\<close>

lemma readStart_null:
  "reads (inside S T) pend_msg readArrayStart [0] INT32_NULL" "reads (inside S T) pend_msg readObjectStart [0] INT32_NULL"
proof -
  have "reads (inside S T) pend_msg (openReaderContainer a) [0] False" for a
    unfolding reads_def using open_null by blast
  from reads_bnd [OF this, of _ "[]" INT32_NULL]
  have "reads (inside S T) pend_msg (bnd (openReaderContainer a) (\<lambda>b. if b then m else ret INT32_NULL)) [0] INT32_NULL" for a m
    by simp
  from nsrc.reads_orNull [OF this]
  show "reads (inside S T) pend_msg readArrayStart [0] INT32_NULL" "reads (inside S T) pend_msg readObjectStart [0] INT32_NULL"
    by (simp_all add: readArrayStart_def readObjectStart_def)
qed

text \<open>Opening a container reads its header as well and leaves the body.\<close>

lemma open_start:
  assumes hdr: "\<And>S T. reads (inside S T) pend_msg m h x" and c: "h \<noteq> []" "length (h @ bs) < 2 ^ 22" "length S < 16"
    and i: "inside S T r" "pend_msg r = container_bytes (h @ bs) @ rest"
  shows "\<exists>r'. orNull null (bnd (openReaderContainer a) (\<lambda>b. if b then m else ret null)) r = (Inr x, r') \<and>
    inside (S @ [(length rest, a)]) (rest @ T) r' \<and> pend_msg r' = bs"
proof -
  have p: "pend_msg r = puint22_bytes (of_nat (length (h @ bs))) @ (h @ bs) @ rest"
    using i(2) by (simp add: container_bytes_def)
  have "pend_msg r \<noteq> []" unfolding p by simp
  then have ne: "\<not> endOfContent r" using nsrc.pending_not_end [OF i(1)] by blast
  have "h @ bs \<noteq> []" using c(1) by simp
  from open_inside [OF i(1) c(3) this c(2) p] obtain r1 where
    r1: "openReaderContainer a r = (Inr True, r1)" "inside (S @ [(length rest, a)]) (rest @ T) r1" "pend_msg r1 = h @ bs" by blast
  from readsD [OF hdr r1(2,3)] obtain r2 where "m r1 = (Inr x, r2)" "pend_msg r2 = bs" "inside (S @ [(length rest, a)]) (rest @ T) r2"
    by blast
  then show ?thesis using r1(1) ne by (auto simp: orNull_def bnd_def)
qed

lemma reads_container_field:
  assumes hdr: "\<And>S T. reads (inside S T) pend_msg m h x" and c: "h \<noteq> []" "length (h @ bs) < 2 ^ 22" "length S < 16"
    and body: "\<And>S' T'. length S' = Suc (length S) \<Longrightarrow> reads (inside S' T') pend_msg (g x) bs y" and x: "x \<noteq> null"
  shows "reads (inside S T) pend_msg
    (bnd (orNull null (bnd (openReaderContainer a) (\<lambda>b. if b then m else ret null)))
         (\<lambda>n. if n = null then z else bnd (g n) (\<lambda>vs. andthen (closeReaderContainer a) (ret (f n vs)))))
    (container_bytes (h @ bs)) (f x y)"
  unfolding reads_def
proof (intro allI impI)
  fix r rest assume i: "inside S T r \<and> pend_msg r = container_bytes (h @ bs) @ rest"
  from open_start [OF hdr c, of T r rest null a] i obtain r1 where
    r1: "orNull null (bnd (openReaderContainer a) (\<lambda>b. if b then m else ret null)) r = (Inr x, r1)"
      "inside (S @ [(length rest, a)]) (rest @ T) r1" "pend_msg r1 = bs @ []" by auto
  have "reads (inside (S @ [(length rest, a)]) (rest @ T)) pend_msg (g x) bs y" by (rule body) simp
  from readsD [OF this r1(2,3)] obtain r2 where
    r2: "g x r1 = (Inr y, r2)" "inside (S @ [(length rest, a)]) (rest @ T) r2" by blast
  from close_inside [OF r2(2)] obtain r3 where
    "closeReaderContainer a r2 = (Inr (), r3)" "inside S T r3" "pend_msg r3 = rest" by auto
  then show "\<exists>r'. bnd (orNull null (bnd (openReaderContainer a) (\<lambda>b. if b then m else ret null)))
         (\<lambda>n. if n = null then z else bnd (g n) (\<lambda>vs. andthen (closeReaderContainer a) (ret (f n vs)))) r
      = (Inr (f x y), r') \<and> pend_msg r' = rest \<and> inside S T r'"
    using r1 r2 x by (simp add: bnd_ok) (simp add: bnd_def andthen_def)
qed


lemma repeatM_replicate: "repeatM n (read_value t) = read_values (replicate n t)"
proof (induction n)
  case 0
  show ?case unfolding repeatM.simps replicate_0 read_values.simps ..
next
  case (Suc n)
  then show ?case by (simp only: repeatM.simps replicate_Suc read_values.simps)
qed

lemma read_class_nth: "i < length cs \<Longrightarrow> read_class cs i = read_values (cs ! i)"
proof (induction cs arbitrary: i)
  case (Cons c cs)
  then show ?case by (cases i) (simp_all only: read_class.simps nth_Cons_0 nth_Cons_Suc length_Cons Suc_less_eq)
qed simp

lemma reads_value:
  "value_ok v \<Longrightarrow> has_type t v \<Longrightarrow> length S + height v \<le> 16 \<Longrightarrow>
     reads (inside S T) pend_msg (read_value t) (value_bytes v) v"
  and reads_values:
  "values_ok vs \<Longrightarrow> have_types ts vs \<Longrightarrow> length S + heights vs \<le> 16 \<Longrightarrow>
     reads (inside S T) pend_msg (read_values ts) (values_bytes vs) vs"
proof (induction v and vs arbitrary: t S T and ts S T rule: value_induct)
  case (1 v)
  show ?case
  proof (cases "v = VArray None \<or> v = VObject None")
    case True
    then show ?thesis
    proof
      assume v: "v = VArray None"
      with 1(3) obtain u where "t = TArray u" by (auto split: field_type.splits)
      moreover have "reads (inside S T) pend_msg (read_value (TArray u)) ([0] @ []) (VArray None)"
        unfolding read_value.simps by (rule reads_bnd [OF readStart_null(1)]) simp
      ultimately show ?thesis using v by simp
    next
      assume v: "v = VObject None"
      with 1(3) obtain cs where "t = TObject cs" by (auto split: field_type.splits)
      moreover have "reads (inside S T) pend_msg (read_value (TObject cs)) ([0] @ []) (VObject None)"
        unfolding read_value.simps by (rule reads_bnd [OF readStart_null(2)]) simp
      ultimately show ?thesis using v by simp
    qed
  next
    case False
    have "v \<noteq> VArray x" for x using 1(1) False by (cases x) (auto simp: scalar_def)
    moreover have "v \<noteq> VObject x" for x using 1(1) False by (cases x) (auto simp: scalar_def)
    ultimately show ?thesis using nsrc.reads_scalar [OF 1(1-3)] by blast
  qed
next
  case (2 vs)
  then obtain u where u: "t = TArray u" "have_types (replicate (length vs) u) vs" by (auto split: field_type.splits)
  let ?n = "of_nat (length vs) :: 32 word"
  have len: "length vs < 2 ^ 22" using 2(2) by simp
  then have un: "unat ?n = length vs" by (simp add: unsigned_of_nat take_bit_nat_eq_self)
  then have n: "?n < 2 ^ 22" "?n \<noteq> INT32_NULL" using len by (auto simp: word_less_nat_alt INT32_NULL_def)
  have "reads (inside S' T') pend_msg (repeatM (unat ?n) (read_value u)) (values_bytes vs) vs"
    if "length S' = Suc (length S)" for S' T'
    unfolding repeatM_replicate un using 2 u(2) that by simp
  note body = this
  have c: "length (puint22_bytes ?n @ values_bytes vs) < 2 ^ 22" "length S < 16" using 2 by simp_all
  have "reads (inside S T) pend_msg (read_value t) (container_bytes (puint22_bytes ?n @ values_bytes vs)) (VArray (Some vs))"
    unfolding u(1) read_value.simps readArrayStart_def readArrayEnd_def
    by (rule reads_container_field [where g = "\<lambda>n. repeatM (unat n) (read_value u)" and f = "\<lambda>n vs. VArray (Some vs)" and x = ?n])
       (use nsrc.reads_getPackedUInt22 [OF n(1)] c body n(2) in auto)
  then show ?case by simp
next
  case (3 i vs)
  then obtain cs where cs: "t = TObject cs" "unat i < length cs" "have_types (cs ! unat i) vs" by (auto split: field_type.splits)
  let ?n = "ucast i :: 32 word"
  have un: "unat ?n = unat i" by (rule unat_ucast_up) simp
  then have n: "?n \<noteq> INT32_NULL" using unsigned_less [of i, where ?'a = nat] by (auto simp: INT32_NULL_def)
  have h: "reads (inside S T) pend_msg (bnd getByte (\<lambda>x. ret (ucast x))) [i] ?n" for S T
    by (rule reads_bnd_ret [OF nsrc.reads_getByte])
  have "reads (inside S' T') pend_msg (read_class cs (unat ?n)) (values_bytes vs) vs"
    if "length S' = Suc (length S)" for S' T'
    unfolding un read_class_nth [OF cs(2)] using 3 cs(3) that by simp
  note body = this
  have c: "length ([i] @ values_bytes vs) < 2 ^ 22" "length S < 16" using 3 by simp_all
  have "reads (inside S T) pend_msg (read_value t) (container_bytes ([i] @ values_bytes vs)) (VObject (Some (ucast ?n, vs)))"
    unfolding cs(1) read_value.simps readObjectStart_def readObjectEnd_def
    by (rule reads_container_field [where g = "\<lambda>n. read_class cs (unat n)" and f = "\<lambda>n vs. VObject (Some (ucast n, vs))" and x = ?n])
       (use h c body n in auto)
  moreover have "ucast ?n = i" by (rule bit_word_eqI) (auto simp: bit_simps)
  ultimately show ?case by simp
next
  case 4
  then have ts: "ts = []" by simp
  show ?case unfolding ts read_values.simps values_bytes.simps by (rule reads_ret)
next
  case (5 v vs)
  then obtain u us where ts: "ts = u # us" "has_type u v" "have_types us vs" by (auto split: list.splits)
  have "reads (inside S T) pend_msg (read_value u) (value_bytes v) v" using 5 ts by simp
  moreover have "reads (inside S T) pend_msg (read_values us) (values_bytes vs) vs" using 5 ts by simp
  ultimately show ?case
    unfolding ts(1) read_values.simps values_bytes.simps by (blast intro: reads_bnd reads_bnd_ret)
qed


section \<open>Whole messages\<close>

text \<open>A message with its timestamp, the entity and type numbers, and the fields.\<close>

definition write_header :: "64 word \<Rightarrow> 16 word \<Rightarrow> 8 word \<Rightarrow> (writer, unit) op" where
  "write_header timestamp entity typ = andthen (writeUInt64 timestamp) (andthen (writeUInt16 entity) (writeByte typ))"

definition write_message :: "64 word \<Rightarrow> 16 word \<Rightarrow> 8 word \<Rightarrow> field_value list \<Rightarrow> (writer, nat) op" where
  "write_message timestamp entity typ vs =
     bnd startMessage (\<lambda>start.
     andthen (write_header timestamp entity typ) (andthen (write_values vs) (finishMessage start)))"

definition read_message :: "field_type list \<Rightarrow> (reader, 64 word \<times> 16 word \<times> 8 word \<times> field_value list) op" where
  "read_message ts =
     bnd getUInt64 (\<lambda>timestamp. bnd getUInt16 (\<lambda>entity. bnd getByte (\<lambda>typ.
     bnd (read_values ts) (\<lambda>vs. ret (timestamp, entity, typ, vs)))))"

definition header_bytes :: "64 word \<Rightarrow> 16 word \<Rightarrow> 8 word \<Rightarrow> byte list" where
  "header_bytes timestamp entity typ = be_bytes 8 timestamp @ be_bytes 2 entity @ [typ]"

lemma length_header_bytes: "length (header_bytes timestamp entity typ) = 11"
  by (simp add: header_bytes_def)

lemma emits_write_header: "emits (write_header timestamp entity typ) (header_bytes timestamp entity typ) ()"
  unfolding write_header_def header_bytes_def writeUInt64_def writeUInt16_def writeByte_def
  by (rule emits_andthen [OF emits_putUInt64 emits_andthen [OF emits_putUInt16 emits_putByte]])

lemma top_level_later:
  "top_level s w \<Longrightarrow> expansionPoints w = [] \<Longrightarrow> s' < dataPtr w \<Longrightarrow> top_level s' w"
  by (simp add: top_level_def)

lemma message_started:
  assumes "shape_ok w" "0 < dataPtr w" "dataEnd w - bufferStart w < 2 ^ 30" "dataPtr w + 15 \<le> dataEnd w"
  shows "\<exists>w1 w2. startMessage w = (Inr (dataPtr w + 4), w1) \<and> write_header timestamp entity typ w1 = (Inr (), w2) \<and>
    top_level (dataPtr w + 4) w2 \<and> assembled w2 = written w @ [0, 0, 0, 0] @ header_bytes timestamp entity typ \<and>
    bufferStart w2 = bufferStart w \<and> dataEnd w2 = dataEnd w \<and> expansionPoints w2 = [] \<and> dataPtr w2 = dataPtr w + 15"
proof -
  from startMessage_top_level [OF assms(1) _ assms(3,2)] assms(4) obtain w1 where
    w1: "startMessage w = (Inr (dataPtr w + 4), w1)" "bufferStart w1 = bufferStart w" "dataEnd w1 = dataEnd w"
      "assembled w1 = written w @ [0, 0, 0, 0]" "top_level (dataPtr w + 3) w1" by auto
  have e1: "expansionPoints w1 = []" "dataPtr w1 = dataPtr w + 4"
    using w1(1) assms(4) by (auto simp: startMessage_def andthen_def bnd_def checkOverflow_def)
  then have d: "dataPtr w1 \<le> dataEnd w1" "dataPtr w1 + length (header_bytes timestamp entity typ) \<le> dataEnd w1"
    using w1(3) assms(4) by (simp_all add: length_header_bytes)
  from emitsD(1) [OF emits_write_header d] obtain w2 where
    w2: "write_header timestamp entity typ w1 = (Inr (), w2)" "grows w1 (header_bytes timestamp entity typ) w2" by blast
  have sh: "shape_ok w1" "bufferStart w1 \<le> dataPtr w1" using w1(5) by (auto simp: top_level_def shape_ok_def)
  note b = boxedD [OF boxed_grows [OF w2(2) sh(1)]]
  have wr: "written w2 = written w1 @ header_bytes timestamp entity typ" by (rule grows_written [OF w2(2) sh(2)])
  have ex: "containerContentsExtraSize w2 = containerContentsExtraSize w1"
    using same_frameD(8) [OF growsD(1) [OF w2(2)]] .
  have "top_level (dataPtr w + 3) w2" using w1(5) b e1 ex by (simp add: top_level_def)
  then have "top_level (dataPtr w + 4) w2"
    by (rule top_level_later) (use b e1 in \<open>simp_all add: length_header_bytes\<close>)
  moreover have "assembled w2 = written w @ [0, 0, 0, 0] @ header_bytes timestamp entity typ"
    using w1(4) b e1 by (simp add: assembled_def wr)
  ultimately show ?thesis using w1 w2 b e1 by (auto simp: length_header_bytes)
qed

lemma write_message_run:
  assumes "shape_ok w" "0 < dataPtr w" "dataEnd w - bufferStart w < 2 ^ 30"
    and "dataPtr w + 15 + length (values_bytes vs) \<le> dataEnd w"
    and "values_ok vs" "\<forall>v \<in> set vs. top_small v \<and> height v \<le> LOADER_MAX_NESTED_OBJECTS"
  shows "\<exists>w'. write_message timestamp entity typ vs w = (Inr (dataPtr w + 15 + length (values_bytes vs)), w') \<and>
    written w' = written w @ [0, 0, 0, 0] @ header_bytes timestamp entity typ @ values_bytes vs \<and>
    bufferStart w' = bufferStart w \<and> dataEnd w' = dataEnd w"
proof -
  let ?h = "header_bytes timestamp entity typ"
  from message_started [OF assms(1-3)] assms(4) obtain w1 w2 where
    w: "startMessage w = (Inr (dataPtr w + 4), w1)" "write_header timestamp entity typ w1 = (Inr (), w2)"
      "top_level (dataPtr w + 4) w2" "assembled w2 = written w @ [0, 0, 0, 0] @ ?h"
      "bufferStart w2 = bufferStart w" "dataEnd w2 = dataEnd w" by fastforce
  have s: "bufferStart w \<le> dataPtr w" using assms(1) by (simp add: shape_ok_def)
  have la: "length (assembled w2) = dataPtr w - bufferStart w + 15" by (simp add: w(4) length_written length_header_bytes)
  then have "bufferStart w2 + length (assembled w2) + length (values_bytes vs) \<le> dataEnd w2" using assms(4) s w(5,6) by simp
  from appendsD [OF appends_values [OF assms(5,6)] w(3) this] obtain w3 where
    w3: "write_values vs w2 = (Inr (), w3)" "top_level (dataPtr w + 4) w3" "assembled w3 = assembled w2 @ values_bytes vs"
      "bufferStart w3 = bufferStart w" "dataEnd w3 = dataEnd w" using w(5,6) by auto
  then have "bufferStart w3 + length (assembled w3) \<le> dataEnd w3" using la assms(4) s by simp
  from finishMessage_assembles [OF w3(2) this] obtain w4 where
    "finishMessage (dataPtr w + 4) w3 = (Inr (bufferStart w3 + length (assembled w3)), w4)" "written w4 = assembled w3"
    "bufferStart w4 = bufferStart w3" "dataEnd w4 = dataEnd w3" by blast
  moreover have "bufferStart w3 + length (assembled w3) = dataPtr w + 15 + length (values_bytes vs)" using w3 la s by simp
  ultimately show ?thesis
    using w w3 by (simp add: write_message_def bnd_ok andthen_ok)
qed

lemma reads_message:
  assumes "values_ok vs" "have_types ts vs" "heights vs \<le> 16"
  shows "reads (inside [] T) pend_msg (read_message ts) (header_bytes timestamp entity typ @ values_bytes vs) (timestamp, entity, typ, vs)"
proof -
  have "reads (inside [] T) pend_msg (read_values ts) (values_bytes vs) vs" by (rule reads_values [OF assms(1,2)]) (simp add: assms(3))
  then show ?thesis
    unfolding read_message_def header_bytes_def append.assoc append_Cons append_Nil
    by (intro reads_bnd [OF nsrc.reads_getUInt64] reads_bnd [OF nsrc.reads_getUInt16] reads_bnd_Cons [OF nsrc.reads_getByte] reads_bnd_ret)
qed

end
