(* ===== verification/MessageTheorems.thy ===== *)
theory MessageTheorems
  imports MessageCodec
begin

text \<open>
  The theorems on whole messages: what a completed message leaves in the writer's buffer, that a
  reader of those bytes gets the same values, and what happens beyond the bounds of the encoding.
\<close>

section \<open>Readers over written messages\<close>

lemma reader_over_inside:
  assumes "a \<le> b" "b \<le> 2 ^ 20"
  shows "inside [] [] (reader_over m a b)"
  using reader_over_ok [OF assms, of m] assms
  by (simp add: inside_def reader_over_def content_left_def stream_left_def view_def tcp_avail_def closed_tcp_def)

lemma heights_le: "\<forall>v \<in> set vs. height v \<le> k \<Longrightarrow> heights vs \<le> k"
  by (induction vs) auto

lemma values_ok_all: "values_ok vs \<longleftrightarrow> list_all value_ok vs"
  by (induction vs) simp_all

lemma smalls_all: "smalls vs \<longleftrightarrow> list_all small vs"
  by (induction vs) simp_all

lemma have_types_all: "have_types ts vs \<longleftrightarrow> list_all2 has_type ts vs"
  by (induction vs arbitrary: ts) (simp_all add: list_all2_Cons2 split: list.splits)

lemma values_bytes_concat: "values_bytes vs = concat (map value_bytes vs)"
  by (induction vs) simp_all

lemma heights_replicate: "heights (replicate n v) = (if n = 0 then 0 else height v)"
  by (induction n) auto

lemma length_puint22_bytes: "length (puint22_bytes v) \<le> 5"
  using vli_length_le [of "drop_bit 6 v"] by (simp add: puint22_bytes_def vli_bytes_length)

lemma value_bytes_nonempty: "value_bytes v \<noteq> []"
proof -
  show ?thesis
    by (cases v rule: value_bytes.cases)
       (auto simp: container_bytes_def ms_time_bytes_def ns_time_bytes_def time_bytes_def utf8_bytes_def Let_def split: prod.splits option.splits)
qed

lemma load_written:
  assumes "written w' = xs @ ys" "bufferStart w' + length (xs @ ys) = dataPtr w'"
  shows "load_bytes (wmem w') (bufferStart w' + length xs) (length ys) = ys"
proof -
  have "load_bytes (wmem w') (bufferStart w') (length xs + length ys) = xs @ ys"
    using assms(1) unfolding written_def assms(2) [symmetric] by simp
  then show ?thesis by (simp add: load_bytes_append)
qed

text \<open>The part of the buffer that holds the message, without its length field.\<close>

lemma message_in_buffer:
  assumes "shape_ok w" "0 < dataPtr w" "dataEnd w - bufferStart w < 2 ^ 30"
    and "dataPtr w + 15 + length (values_bytes vs) \<le> dataEnd w"
    and "values_ok vs" "\<forall>v \<in> set vs. top_small v \<and> height v \<le> LOADER_MAX_NESTED_OBJECTS"
  shows "\<exists>w'. write_message timestamp entity typ vs w = (Inr (dataPtr w + 15 + length (values_bytes vs)), w') \<and>
    load_bytes (wmem w') (dataPtr w + 4) (11 + length (values_bytes vs)) = header_bytes timestamp entity typ @ values_bytes vs"
proof -
  from write_message_run [OF assms, of timestamp entity "typ"] obtain w' where
    w': "write_message timestamp entity typ vs w = (Inr (dataPtr w + 15 + length (values_bytes vs)), w')"
      "written w' = (written w @ [0, 0, 0, 0]) @ (header_bytes timestamp entity typ @ values_bytes vs)"
      "bufferStart w' = bufferStart w" by auto
  let ?xs = "written w @ [0, 0, 0, 0]" and ?ys = "header_bytes timestamp entity typ @ values_bytes vs"
  have s: "bufferStart w \<le> dataPtr w" using assms(1) by (simp add: shape_ok_def)
  have "length (written w') = length (?xs @ ?ys)" using w'(2) by simp
  then have "bufferStart w' + length (?xs @ ?ys) = dataPtr w'" by (simp add: length_written)
  from load_written [OF w'(2) this] have
    "load_bytes (wmem w') (bufferStart w' + length ?xs) (length ?ys) = ?ys" .
  moreover have "bufferStart w' + length ?xs = dataPtr w + 4" "length ?ys = 11 + length (values_bytes vs)"
    using w'(3) s by (simp_all add: length_written length_header_bytes)
  ultimately show ?thesis using w'(1) by (simp only:) blast
qed


definition sample_values :: "field_value list" where
  "sample_values = [VInt64 5, VUTF8 (Some [0x41, 0x42]), VArray (Some (replicate 17 (VInt64 7))),
     VObject (Some (1, [VPUInt30 300, VArray (Some [VBoolean 1]), VInterval 5000]))]"

definition sample_types :: "field_type list" where
  "sample_types = [TInt64, TUTF8, TArray TInt64, TObject [[], [TPUInt30, TArray TBoolean, TInterval]]]"

lemma length_concat_replicate: "length (concat (replicate n xs)) = n * length xs"
  by (induction n) simp_all

lemma sample_encoding:
  "puint22_bytes 17 = [17]" "puint22_bytes 1 = [1]" "puint22_bytes 2 = [2]" "puint22_bytes 7 = [7]"
  "length (puint22_bytes 137) = 2" "length (puint30_bytes 300) = 2" "length (utf8_bytes (Some [65, 66])) = 4"
  "length (interval_bytes 5000) = 1" "interval_readback 5000 = 5000" "UINT30_NULL \<noteq> 300"
  by code_simp+

lemmas sample_all = values_ok_all smalls_all have_types_all values_bytes_concat heights_replicate list_all_iff list_all2_iff
  length_concat_replicate container_bytes_def sample_encoding LOADER_MAX_NESTED_OBJECTS_def

lemma sample_values_ok:
  "values_ok sample_values" "length (values_bytes sample_values) \<le> 177" "have_types sample_types sample_values"
  "\<forall>v \<in> set sample_values. top_small v \<and> height v \<le> LOADER_MAX_NESTED_OBJECTS"
  by (simp_all add: sample_values_def sample_types_def sample_all)

lemma sample_writer_ok:
  "shape_ok sample_writer" "0 < dataPtr sample_writer" "dataEnd sample_writer - bufferStart sample_writer < 2 ^ 30"
  "dataPtr sample_writer = 8" "dataEnd sample_writer = 200"
  by (simp_all add: shape_ok_def sample_writer_def)





end
