(* ===== verification/PartialMessages.thy ===== *)
theory PartialMessages
  imports MessageTheorems
begin

text \<open>
  Reading at and over the end of a content: missing fields, and unread ones.
\<close>

fun null_value :: "field_type \<Rightarrow> field_value" where
  "null_value TInt8 = VInt8 INT8_NULL"
| "null_value TInt16 = VInt16 INT16_NULL"
| "null_value TInt32 = VInt32 INT32_NULL"
| "null_value TInt48 = VInt48 INT48_NULL"
| "null_value TInt64 = VInt64 INT64_NULL"
| "null_value TPUInt30 = VPUInt30 UINT30_NULL"
| "null_value TPUInt61 = VPUInt61 UINT61_NULL"
| "null_value TFloat64 = VFloat64 float64null"
| "null_value TFloat32 = VFloat32 float32null"
| "null_value TInterval = VInterval INTERVAL_NULL"
| "null_value TTimestamp = VTimestamp TIMESTAMP_NULL"
| "null_value TTimeOfDay = VTimeOfDay TIMEOFDAY_NULL"
| "null_value TDateTimeMs = VDateTimeMs TIMESTAMP_NULL"
| "null_value TDateTimeNs = VDateTimeNs TIMESTAMP_NULL"
| "null_value TEnum8 = VEnum8 ENUM_NULL"
| "null_value TEnum16 = VEnum16 ENUM_NULL"
| "null_value TWChar = VWChar CHAR_NULL"
| "null_value TBoolean = VBoolean BOOL_NULL"
| "null_value TUTF8 = VUTF8 None"
| "null_value (TArray t) = VArray None"
| "null_value (TObject cs) = VObject None"

lemma orNull_end: "endOfContent r \<Longrightarrow> orNull n m r = (Inr n, r)"
  by (simp add: orNull_def bnd_def)

lemma read_value_end: "endOfContent r \<Longrightarrow> read_value t r = (Inr (null_value t), r)"
  by (cases t)
     (simp_all add: bnd_ok orNull_end readInt8_def readInt16_def readInt32_def readInt48_def readInt64_def
       readPUInt30_def readPUInt61_def readFloat64_def readFloat32_def readInterval_def readTimestamp_def readTimeOfDay_def
       readDateTimeMs_def readDateTimeNs_def readEnum8_def readEnum16_def readWChar_def readNullableBooleanInt8_def readUTF8_def
       readArrayStart_def readObjectStart_def)

lemma read_values_end: "endOfContent r \<Longrightarrow> read_values ts r = (Inr (map null_value ts), r)"
  by (induction ts) (simp_all add: bnd_ok read_value_end)

lemma read_values_append:
  "read_values ts r = (Inr vs, r1) \<Longrightarrow> read_values us r1 = (Inr ws, r2) \<Longrightarrow> read_values (ts @ us) r = (Inr (vs @ ws), r2)"
proof (induction ts arbitrary: r vs)
  case (Cons t ts)
  from Cons.prems(1) obtain v r' vs' where v: "read_value t r = (Inr v, r')" "read_values ts r' = (Inr vs', r1)" "vs = v # vs'"
    by (auto simp: bnd_def split: prod.splits sum.splits)
  from Cons.IH [OF v(2) Cons.prems(2)] v show ?case by (simp add: bnd_ok)
qed simp

lemma inside_end: "inside S T r \<Longrightarrow> pend_msg r = [] \<Longrightarrow> endOfContent r"
  using inside_length [of S T r] by (auto simp: endOfContent_def content_left_def inside_def msg_ok_def)


text \<open>A reader on a given body.\<close>

definition reader_of :: "byte list \<Rightarrow> reader" where
  "reader_of bs = reader_over (store_bytes 16 bs (\<lambda>_. 0)) 16 (16 + length bs)"

lemma reader_of_inside:
  assumes "length bs \<le> 2 ^ 19"
  shows "inside [] [] (reader_of bs)" "pend_msg (reader_of bs) = bs"
proof -
  have "16 + length bs \<le> 2 ^ 20" using assms by simp
  then show "inside [] [] (reader_of bs)" "pend_msg (reader_of bs) = bs"
    using reader_over_inside [of 16 "16 + length bs"] reader_over_ok(2) [of 16 "16 + length bs"]
    by (simp_all add: reader_of_def load_store_same)
qed


text \<open>C15: Between opening and closing a container a client may read only some of its fields: closing skips
  what is left of the content, so the next field read is the one behind the container.\<close>

theorem unread_rest_is_skipped:
  assumes "inside S T r" "length S + heights vs < 16"
    and "values_ok vs" "have_types ts vs" "vs \<noteq> []" "length (values_bytes vs @ unread) < 2 ^ 22"
    and "pend_msg r = container_bytes (values_bytes vs @ unread) @ rest"
  shows "\<exists>r'. bnd (openReaderContainer isArray) (\<lambda>_. bnd (read_values ts) (\<lambda>vs. andthen (closeReaderContainer isArray) (ret vs))) r
      = (Inr vs, r') \<and> inside S T r' \<and> pend_msg r' = rest"
proof -
  have ne: "values_bytes vs @ unread \<noteq> []" using assms(5) value_bytes_nonempty by (cases vs) auto
  have "length S < 16" "length (S @ [(length rest, isArray)]) + heights vs \<le> 16" using assms(2) by simp_all
  from open_inside [OF assms(1) this(1) ne assms(6), of rest isArray] assms(7) obtain r1 where
    r1: "openReaderContainer isArray r = (Inr True, r1)" "inside (S @ [(length rest, isArray)]) (rest @ T) r1"
      "pend_msg r1 = values_bytes vs @ unread" by (auto simp: container_bytes_def)
  from readsD [OF reads_values [OF assms(3,4) \<open>length (S @ _) + _ \<le> 16\<close>] r1(2,3)] obtain r2 where
    r2: "read_values ts r1 = (Inr vs, r2)" "inside (S @ [(length rest, isArray)]) (rest @ T) r2" by blast
  from close_inside [OF r2(2)] obtain r3 where
    "closeReaderContainer isArray r2 = (Inr (), r3)" "inside S T r3" "pend_msg r3 = rest" by auto
  then show ?thesis using r1 r2 by (simp add: bnd_ok andthen_ok)
qed

theorem unread_rest_is_skipped_witness:
  "\<exists>r'. bnd (openReaderContainer True) (\<lambda>_. bnd (read_values [TInt8]) (\<lambda>vs. andthen (closeReaderContainer True) (ret vs)))
      (reader_of (container_bytes ([5] @ [6, 7]) @ [8, 9])) = (Inr [VInt8 5], r') \<and> pend_msg r' = [8, 9]"
proof -
  have "length (container_bytes ([5] @ [6, 7]) @ [8, 9]) \<le> 2 ^ 19" using length_puint22_bytes [of 3] by (simp add: container_bytes_def)
  from reader_of_inside [OF this] show ?thesis
    using unread_rest_is_skipped [of "[]" "[]" "reader_of (container_bytes ([5] @ [6, 7]) @ [8, 9])" "[VInt8 5]" "[TInt8]" "[6, 7]" "[8, 9]" True]
    by auto
qed

end
