(* ===== verification/NestedContainers.thy ===== *)
theory NestedContainers
  imports MessageTheorems
begin

text \<open>
  Containers of 128 bytes and more inside other containers.
\<close>

lemma small_offset: "n < 2 ^ 30 \<Longrightarrow> unat (of_nat n :: 32 word) = n"
  by (simp add: unsigned_of_nat take_bit_nat_eq_self)

lemma container_run:
  "seqs [openContainer a, m, closeContainer a] = andthen (andthen (openContainer a) m) (closeContainer a)"
  by (simp add: andthen_assoc)

text \<open>The state after a container whose content has at least 128 bytes was closed.\<close>

lemma big_container:
  assumes m: "boxes m bs k" and w: "shape_ok w" "depth w + Suc k \<le> LOADER_MAX_NESTED_OBJECTS"
    and fits: "dataPtr w + length (0 # bs) \<le> dataEnd w" and big: "0x80 \<le> length bs"
  shows "\<exists>w'. seqs [openContainer a, m, closeContainer a] w = (Inr (), w') \<and> shape_ok w' \<and>
    depth w' = depth w \<and> dataPtr w' = dataPtr w + Suc (length bs) \<and> dataEnd w' = dataEnd w \<and> bufferStart w' = bufferStart w \<and>
    take (depth w) (containerHeader w') = take (depth w) (containerHeader w) \<and>
    take (depth w) (containerIsArray w') = take (depth w) (containerIsArray w) \<and>
    take (depth w) (containerContentsExtraSize w') = take (depth w) (containerContentsExtraSize w) \<and>
    containerContentsExtraSize w' ! depth w = containerContentsExtraSize w ! depth w + extra_header_bytes (length bs) \<and>
    expansionPoints w' = expansionPoints w @
      [\<lparr>blockOffset = of_nat (Suc (dataPtr w) - bufferStart w), headerLength = packed_length (length bs)\<rparr>]"
proof -
  from container_content [OF m w fits, of a] obtain w1 where w1:
    "andthen (openContainer a) m w = (Inr (), w1)" "boxed (opened a w) (0 # bs) w1" "depth w1 = Suc (depth w)"
    "containerHeader w1 ! depth w = dataPtr w" "containerIsArray w1 ! depth w = a"
    "containerContentsExtraSize w1 ! Suc (depth w) = 0" by blast
  note b = boxedD [OF w1(2)]
  have d: "depth w < 16" using w(2) by (simp add: LOADER_MAX_NESTED_OBJECTS_def)
  have x: "containerContentsExtraSize w1 ! depth w = containerContentsExtraSize w ! depth w"
    using nth_take_eq [OF b(11), of "depth w"] by (simp add: opened_def)
  have t: "take (depth w) (containerHeader w1) = take (depth w) (containerHeader w)"
    "take (depth w) (containerIsArray w1) = take (depth w) (containerIsArray w)"
    "take (depth w) (containerContentsExtraSize w1) = take (depth w) (containerContentsExtraSize w)"
    using take_take_eq [OF b(9), of "depth w"] take_take_eq [OF b(10), of "depth w"] take_take_eq [OF b(11), of "depth w"]
    by (simp_all add: opened_def)
  have l: "length (containerContentsExtraSize w1) = 17" using b(1) by (simp add: shape_ok_def)
  have p: "dataPtr w1 = dataPtr w + Suc (length bs)" "dataEnd w1 = dataEnd w" "bufferStart w1 = bufferStart w"
    "expansionPoints w1 = expansionPoints w" using b by (simp_all add: opened_def)
  show ?thesis
    unfolding container_run
    using w1 b(1) t x l d p big fits
    by (simp add: andthen_ok closeContainer_run Let_def shape_ok_def)
qed

text \<open>Two points, the inner container's first: the loop starts with the outer one, and then the inner
  one's block starts behind the end that is left.\<close>

lemma inner_point_undefined:
  assumes "unat (blockOffset outer) < unat (blockOffset inner)" "0 < unat (blockOffset outer)"
    "pStart + unat (blockOffset outer) \<le> pEnd"
  shows "expandHeaders_loop pStart [outer, inner] pEnd offset m = Inl (Undefined ''memmove'')"
proof -
  have "\<not> pEnd < pStart + unat (blockOffset outer)"
    "pStart + unat (blockOffset outer) - 1 < pStart + unat (blockOffset inner)" using assms by simp_all
  then show ?thesis by (simp only: expandHeaders_loop.simps Let_def if_False if_True)
qed


lemma nested_container_state:
  assumes m: "boxes m bs k" "2 + k \<le> LOADER_MAX_NESTED_OBJECTS" and m0: "boxes m0 cs 0" and m1: "boxes m1 [] 0"
    and w: "shape_ok w" "depth w = 0" "expansionPoints w = []" "containerContentsExtraSize w ! 0 = 0"
    and fits: "dataPtr w + length cs + length bs + 2 \<le> dataEnd w" and big: "0x80 \<le> length bs"
  shows "\<exists>w' n. seqs [openContainer a, andthen m0 (andthen (seqs [openContainer b, m, closeContainer b]) m1), closeContainer a] w = (Inr (), w') \<and>
    depth w' = 0 \<and> dataPtr w' = dataPtr w + length cs + length bs + 2 \<and> dataEnd w' = dataEnd w \<and> bufferStart w' = bufferStart w \<and>
    containerContentsExtraSize w' ! 0 = extra_header_bytes n \<and>
    expansionPoints w' = [\<lparr>blockOffset = of_nat (dataPtr w + length cs + 2 - bufferStart w), headerLength = packed_length (length bs)\<rparr>,
      \<lparr>blockOffset = of_nat (dataPtr w + 1 - bufferStart w), headerLength = packed_length n\<rparr>]"
proof -
  have "dataPtr w + length (0 # cs) \<le> dataEnd w" "depth w + Suc 0 \<le> LOADER_MAX_NESTED_OBJECTS"
    using fits w(2) m(2) by simp_all
  from container_content [OF m0 w(1) this(2,1), of a] w(2) obtain w1 where w1:
    "andthen (openContainer a) m0 w = (Inr (), w1)" "boxed (opened a w) (0 # cs) w1" "depth w1 = 1"
    "containerHeader w1 ! 0 = dataPtr w" "containerIsArray w1 ! 0 = a" "containerContentsExtraSize w1 ! 1 = 0" by auto
  note b1 = boxedD [OF w1(2)]
  have p1: "dataPtr w1 = dataPtr w + 1 + length cs" "dataEnd w1 = dataEnd w" "bufferStart w1 = bufferStart w"
    "expansionPoints w1 = []" "containerContentsExtraSize w1 ! 0 = 0"
    using b1 nth_take_eq [OF b1(11), of 0] w by (simp_all add: opened_def)
  have "depth w1 + Suc k \<le> LOADER_MAX_NESTED_OBJECTS" "dataPtr w1 + length (0 # bs) \<le> dataEnd w1"
    using w1(3) m(2) p1 fits by simp_all
  from big_container [OF m(1) b1(1) this big, of b] obtain w2 where w2:
    "seqs [openContainer b, m, closeContainer b] w1 = (Inr (), w2)" "shape_ok w2" "depth w2 = 1"
    "dataPtr w2 = dataPtr w1 + Suc (length bs)" "dataEnd w2 = dataEnd w" "bufferStart w2 = bufferStart w"
    "take 1 (containerHeader w2) = take 1 (containerHeader w1)" "take 1 (containerIsArray w2) = take 1 (containerIsArray w1)"
    "take 1 (containerContentsExtraSize w2) = take 1 (containerContentsExtraSize w1)"
    "expansionPoints w2 = [\<lparr>blockOffset = of_nat (Suc (dataPtr w1) - bufferStart w), headerLength = packed_length (length bs)\<rparr>]"
    using w1(3) p1 by auto
  have "dataPtr w2 + length ([] :: byte list) \<le> dataEnd w2" using w2(2) by (simp add: shape_ok_def)
  from boxesD(1) [OF m1 w2(2) _ this] w2(3) obtain w3 where w3: "m1 w2 = (Inr (), w3)" "boxed w2 [] w3"
    by (auto simp: LOADER_MAX_NESTED_OBJECTS_def)
  note b3 = boxedD [OF w3(2)]
  have s3: "containerHeader w3 ! 0 = dataPtr w" "containerIsArray w3 ! 0 = a" "containerContentsExtraSize w3 ! 0 = 0"
    "depth w3 = Suc 0" "dataPtr w3 = dataPtr w + length cs + length bs + 2" "dataEnd w3 = dataEnd w" "bufferStart w3 = bufferStart w"
    "expansionPoints w3 = expansionPoints w2" "length (containerContentsExtraSize w3) = 17"
    using nth_take_eq [OF b3(9), of 0] nth_take_eq [OF w2(7), of 0] nth_take_eq [OF b3(10), of 0] nth_take_eq [OF w2(8), of 0]
      nth_take_eq [OF b3(11), of 0] nth_take_eq [OF w2(9), of 0] w1 p1 w2 b3 by (simp_all add: shape_ok_def)
  let ?M = "andthen m0 (andthen (seqs [openContainer b, m, closeContainer b]) m1)"
  have "andthen (openContainer a) ?M w = (Inr (), w3)"
    unfolding andthen_assoc [symmetric] using w1(1) w2(1) w3(1) by (simp only: andthen_ok)
  then show ?thesis
    unfolding container_run using s3 big w2(10) p1(1)
    by (simp add: andthen_ok closeContainer_run Let_def) blast
qed

text \<open>Finishing such a message.\<close>

lemma nested_finish:
  assumes w: "depth w = 0" "containerContentsExtraSize w ! 0 = extra_header_bytes n"
    "expansionPoints w = [inner, outer]" "unat (blockOffset outer) < unat (blockOffset inner)" "0 < unat (blockOffset outer)"
    and fits: "dataPtr w + 2 \<le> dataEnd w" "bufferStart w + unat (blockOffset outer) \<le> dataPtr w"
  shows "fst (finishMessage s w) = Inl (Undefined ''memmove'')"
proof -
  have e: "unat (extra_header_bytes n) \<noteq> 0" "unat (extra_header_bytes n) \<le> 2" by (simp_all add: extra_header_bytes_def)
  show ?thesis
    using w(1-3) e fits(1) inner_point_undefined [OF w(4,5) fits(2)]
    by (simp add: finishMessage_def finishMessageCommon_def bnd_def andthen_def expandHeaders_def expandHeadersImplBasic_def)
qed


text \<open>The same for a message with one array that has one array as its element.\<close>

definition nested_array :: "field_value list \<Rightarrow> field_value" where
  "nested_array vs = VArray (Some [VArray (Some vs)])"

lemma write_nested_array:
  "write_values [nested_array vs] =
     andthen (seqs [openContainer True,
       andthen (andthen (writePackedUInt22 1) setNotNull)
         (andthen (seqs [openContainer True, andthen (writePackedUInt22 (of_nat (length vs))) (andthen setNotNull (write_values vs)), closeContainer True])
           (andthen setNotNull (ret ()))),
       closeContainer True]) (andthen setNotNull (ret ()))"
  unfolding nested_array_def write_values.simps write_value.simps seqs_array by (simp add: andthen_assoc)

text \<open>C17: Writing an array inside an array, where the inner one has 128 bytes or more, does not produce a message:
  the expansion of the length fields goes from the outer container to the inner one, which lies behind
  the part that is left to move, and the code calls \<open>memmove\<close> with a negative length.\<close>

theorem nested_array_undefined:
  assumes "shape_ok w" "0 < dataPtr w" "dataEnd w - bufferStart w < 2 ^ 30"
    and "values_ok vs" "smalls vs" "heights vs + 2 \<le> LOADER_MAX_NESTED_OBJECTS"
    and "0x80 \<le> length (values_bytes vs)" "dataPtr w + length (values_bytes vs) + 25 \<le> dataEnd w" "length vs < 2 ^ 22"
  shows "fst (write_message timestamp entity typ [nested_array vs] w) = Inl (Undefined ''memmove'')"
proof -
  from message_started [OF assms(1-3), of timestamp entity "typ"] assms(8) obtain w1 w2 where
    w: "startMessage w = (Inr (dataPtr w + 4), w1)" "write_header timestamp entity typ w1 = (Inr (), w2)"
      "top_level (dataPtr w + 4) w2" "bufferStart w2 = bufferStart w" "dataEnd w2 = dataEnd w" "expansionPoints w2 = []"
      "dataPtr w2 = dataPtr w + 15" by fastforce
  let ?cs = "puint22_bytes 1" and ?bs = "puint22_bytes (of_nat (length vs)) @ values_bytes vs" and ?k = "heights vs"
  have c1: "?cs = [1]" by (rule sample_encoding)
  have l: "length (puint22_bytes (of_nat (length vs))) \<le> 5" by (rule length_puint22_bytes)
  have t: "shape_ok w2" "depth w2 = 0" "containerContentsExtraSize w2 ! 0 = 0"
    using w(3,6) by (auto simp: top_level_def total_extra_def unat_eq_0)
  have m: "boxes (andthen (writePackedUInt22 (of_nat (length vs))) (andthen setNotNull (write_values vs))) ?bs ?k"
    by (rule boxes_content [OF emits_writePackedUInt22 boxes_values [OF assms(4,5)]])
  have m0: "boxes (andthen (writePackedUInt22 1) setNotNull) ?cs 0"
    using boxes_emits [OF emits_andthen [OF emits_writePackedUInt22 emits_setNotNull]] by simp
  have m1: "boxes (andthen setNotNull (ret ())) [] 0" using boxes_emits [OF emits_andthen [OF emits_setNotNull emits_ret]] by simp
  have fits: "dataPtr w2 + length ?cs + length ?bs + 2 \<le> dataEnd w2" "0x80 \<le> length ?bs" "2 + ?k \<le> LOADER_MAX_NESTED_OBJECTS"
    using assms(6-8) w(5,7) l c1 by simp_all
  from nested_container_state [OF m fits(3) m0 m1 t(1,2) w(6) t(3) fits(1,2), of True True] obtain w3 n where w3:
    "seqs [openContainer True, andthen (andthen (writePackedUInt22 1) setNotNull)
       (andthen (seqs [openContainer True, andthen (writePackedUInt22 (of_nat (length vs))) (andthen setNotNull (write_values vs)), closeContainer True])
         (andthen setNotNull (ret ()))), closeContainer True] w2 = (Inr (), w3)"
    "depth w3 = 0" "dataPtr w3 = dataPtr w2 + length ?cs + length ?bs + 2" "dataEnd w3 = dataEnd w2" "bufferStart w3 = bufferStart w2"
    "containerContentsExtraSize w3 ! 0 = extra_header_bytes n"
    "expansionPoints w3 = [\<lparr>blockOffset = of_nat (dataPtr w2 + length ?cs + 2 - bufferStart w2), headerLength = packed_length (length ?bs)\<rparr>,
      \<lparr>blockOffset = of_nat (dataPtr w2 + 1 - bufferStart w2), headerLength = packed_length n\<rparr>]" by blast
  define w4 where "w4 = w3\<lparr>dataEndNotNull := dataPtr w3\<rparr>"
  have run: "write_values [nested_array vs] w2 = (Inr (), w4)"
    unfolding write_nested_array using w3(1) by (simp add: andthen_ok) (simp add: andthen_def bnd_def setNotNull_def w4_def)
  have s: "bufferStart w \<le> dataPtr w" "dataPtr w \<le> dataEnd w" using assms(1) by (auto simp: shape_ok_def)
  define i where "i = dataPtr w2 + length ?cs + 2 - bufferStart w2"
  define x where "x = dataPtr w2 + 1 - bufferStart w2"
  have n: "x < i" "i < 2 ^ 30" "0 < x" "bufferStart w + x \<le> dataPtr w3" using c1 s w w3(3) assms(3,8) by (simp_all add: i_def x_def)
  then have o: "unat (of_nat x :: 32 word) = x" "unat (of_nat i :: 32 word) = i" by (simp_all add: small_offset)
  have p: "expansionPoints w4 = [\<lparr>blockOffset = of_nat i, headerLength = packed_length (length ?bs)\<rparr>,
      \<lparr>blockOffset = of_nat x, headerLength = packed_length n\<rparr>]"
    using w3(7) unfolding i_def [symmetric] x_def [symmetric] by (simp add: w4_def)
  have "fst (finishMessage (dataPtr w + 4) w4) = Inl (Undefined ''memmove'')"
    by (rule nested_finish [OF _ _ p]) (use w3(2-6) w o n l c1 assms(8) in \<open>simp_all add: w4_def\<close>)
  then show ?thesis using w(1,2) run by (simp add: write_message_def bnd_ok andthen_ok)
qed


theorem nested_array_undefined_witness:
  "fst (write_message 1000 2 3 [nested_array (replicate 16 (VInt64 7))] sample_writer) = Inl (Undefined ''memmove'')"
  by (rule nested_array_undefined) (simp_all add: sample_writer_ok sample_all)

end
