(* ===== verification/Alphanumerics.thy ===== *)
theory Alphanumerics
  imports MessageTheorems
begin

text \<open>
  Alphanumeric fields: the bit stream of a length and six bits per character that the writer packs
  with a 64-bit accumulator and the reader unpacks with a 32-bit one.
\<close>

section \<open>Bits of memory in the order of the stream\<close>

definition mbit :: "memory \<Rightarrow> nat \<Rightarrow> nat \<Rightarrow> bool" where
  "mbit m p t \<longleftrightarrow> bit (m (p + t div 8)) (7 - t mod 8)"

lemma stream_position:
  assumes "k < 8 * d"
  shows "(8 * d - 1 - k) div 8 = d - 1 - k div 8" "(8 * d - 1 - k) mod 8 = 7 - k mod (8 :: nat)"
proof -
  let ?i = "k div 8" and ?j = "k mod 8"
  have j: "?j \<le> 7" by simp
  have "?i < d" using assms by (simp add: div_less_iff_less_mult mult.commute)
  then obtain e where e: "d = Suc (?i + e)" using less_iff_Suc_add by blast
  have "k = 8 * ?i + ?j" by simp
  then have "8 * d - 1 - k = 8 * e + (7 - ?j)" using j e by linarith
  moreover have "(8 * e + x) div 8 = e" "(8 * e + x) mod 8 = x" if "x < 8" for x using that by simp_all
  moreover have "7 - ?j < 8" by simp
  ultimately show "(8 * d - 1 - k) div 8 = d - 1 - ?i" "(8 * d - 1 - k) mod 8 = 7 - ?j"
    using e by (simp_all only: diff_Suc_1 diff_add_inverse)
qed

lemma bit_loadBE:
  assumes "8 dvd LENGTH('a::len)" "k < LENGTH('a)"
  shows "bit (loadBE m p :: 'a word) k \<longleftrightarrow> mbit m p (LENGTH('a) - 1 - k)"
proof -
  obtain d where d: "LENGTH('a) = 8 * d" using assms(1) by blast
  have q: "(LENGTH('a) - 1 - k) div 8 = d - 1 - k div 8" "(LENGTH('a) - 1 - k) mod 8 = 7 - k mod 8"
    using stream_position [of k d] assms(2) unfolding d by simp_all
  have i: "k div 8 < d" using assms(2) d by (simp add: div_less_iff_less_mult mult.commute)
  have "bit (loadBE m p :: 'a word) k \<longleftrightarrow> bit (rev (load_bytes m p d) ! (k div 8)) (k mod 8)"
    using assms(2) d i by (simp add: loadBE_be_word be_word_def bit_le_word)
  also have "rev (load_bytes m p d) ! (k div 8) = m (p + (d - 1 - k div 8))"
    using i by (simp add: rev_nth)
  finally show ?thesis unfolding mbit_def q by simp
qed

lemma mbit_bytes:
  assumes "load_bytes m p n = take n (be_bytes 8 (W :: 64 word))" "n \<le> 8" "t < 8 * n"
  shows "mbit m p t \<longleftrightarrow> bit W (63 - t)"
proof -
  have i: "t div 8 < n" using assms(3) by (simp add: div_less_iff_less_mult mult.commute)
  have "m (p + t div 8) = load_bytes m p n ! (t div 8)" using i by simp
  also have "\<dots> = be_bytes 8 W ! (t div 8)" using i by (simp add: assms(1))
  also have "\<dots> = le_bytes 8 W ! (7 - t div 8)" using i assms(2) by (simp add: be_bytes_def rev_nth)
  finally have "m (p + t div 8) = le_bytes 8 W ! (7 - t div 8)" .
  moreover have "8 * (7 - t div 8) + (7 - t mod 8) = 63 - t" using i assms(2) by presburger
  moreover have "7 - t mod 8 < 8" "7 - t div 8 < 8" by simp_all
  ultimately show ?thesis by (simp only: mbit_def bit_nth_le_bytes simp_thms)
qed

section \<open>Unpacking\<close>

text \<open>\<open>P\<close> bytes were loaded; the accumulator has the last of their bits and the next character ends
  \<open>bi\<close> bits before their end.\<close>

lemma getAlphanumeric_loop_spec:
  assumes "\<forall>j < 32. bit acc j \<longleftrightarrow> mbit m p (8 * P - 1 - j)" "4 \<le> P" "bi + 6 \<le> 32"
    and "\<forall>i < length cs. \<forall>j. bit (cs ! i - 0x20) j \<longleftrightarrow> j < 6 \<and> mbit m p (8 * P - (bi + 6) + 6 * i + 5 - j)"
  shows "getAlphanumeric_loop (length cs) m (p + P) acc (int bi) = cs"
  using assms
proof (induction cs arbitrary: acc P bi)
  case (Cons c cs)
  let ?x = "drop_bit bi acc AND 0x3F"
  have "?x = take_bit 6 (drop_bit bi acc)" using and_exp_take [of _ 6] by simp
  then have b: "bit ?x j \<longleftrightarrow> j < 6 \<and> bit acc (bi + j)" for j by (simp add: bit_take_bit_iff bit_drop_bit_eq)
  have c0: "bit (c - 0x20) j \<longleftrightarrow> j < 6 \<and> mbit m p (8 * P - (bi + 6) + 5 - j)" for j
    using Cons.prems(4) by force
  have "?x = c - 0x20"
  proof (rule bit_word_eqI)
    fix j assume "j < LENGTH(32)"
    have "8 * P - 1 - (bi + j) = 8 * P - (bi + 6) + 5 - j" if "j < 6" using Cons.prems(2,3) that by simp
    then show "bit ?x j \<longleftrightarrow> bit (c - 0x20) j" unfolding b c0 using Cons.prems(1,3) by auto
  qed
  then have c: "?x + 0x20 = c" by simp
  have rest: "\<forall>i < length cs. \<forall>j. bit (cs ! i - 0x20) j \<longleftrightarrow> j < 6 \<and> mbit m p (8 * P - (bi + 6) + 6 * Suc i + 5 - j)"
    using Cons.prems(4) by (metis Suc_less_eq length_Cons nth_Cons_Suc)
  show ?case
  proof (cases "bi < 6")
    case True
    let ?acc = "push_bit 24 acc OR drop_bit 8 (loadBE m (p + P))"
    have acc: "\<forall>j < 32. bit ?acc j \<longleftrightarrow> mbit m p (8 * (P + 3) - 1 - j)"
    proof (intro allI impI)
      fix j :: nat assume j: "j < 32"
      show "bit ?acc j \<longleftrightarrow> mbit m p (8 * (P + 3) - 1 - j)"
      proof (cases "j < 24")
        case t: True
        have "8 * (P + 3) - 1 - j = 8 * P + (23 - j)" using t by simp
        moreover have "(8 * P + (23 - j)) div 8 = P + (23 - j) div 8" "(8 * P + (23 - j)) mod 8 = (23 - j) mod 8" by simp_all
        ultimately have "mbit m p (8 * (P + 3) - 1 - j) \<longleftrightarrow> mbit m (p + P) (23 - j)" by (simp add: mbit_def add.assoc)
        moreover have "bit ?acc j \<longleftrightarrow> bit (loadBE m (p + P) :: 32 word) (8 + j)"
          using t by (simp add: bit_or_iff bit_push_bit_iff bit_drop_bit_eq)
        moreover have "bit (loadBE m (p + P) :: 32 word) (8 + j) \<longleftrightarrow> mbit m (p + P) (23 - j)"
          using t bit_loadBE [of "8 + j" m "p + P", where ?'a = 32] by simp
        ultimately show ?thesis by simp
      next
        case t: False
        then have "bit ?acc j \<longleftrightarrow> bit acc (j - 24)"
          using j by (auto simp: bit_or_iff bit_push_bit_iff bit_drop_bit_eq dest: bit_imp_le_length)
        also have "\<dots> \<longleftrightarrow> mbit m p (8 * P - 1 - (j - 24))" using Cons.prems(1) j by simp
        also have "8 * P - 1 - (j - 24) = 8 * (P + 3) - 1 - j" using t j Cons.prems(2) by simp
        finally show ?thesis .
      qed
    qed
    have eq: "8 * (P + 3) - (bi + 18 + 6) + 6 * i = 8 * P - (bi + 6) + 6 * Suc i" for i
      using Cons.prems(2,3) by simp
    have "\<forall>i < length cs. \<forall>j. bit (cs ! i - 0x20) j \<longleftrightarrow> j < 6 \<and> mbit m p (8 * (P + 3) - (bi + 18 + 6) + 6 * i + 5 - j)"
      using rest unfolding eq .
    then have "getAlphanumeric_loop (length cs) m (p + (P + 3)) ?acc (int (bi + 18)) = cs"
      by (intro Cons.IH [OF acc]) (use Cons.prems(2) True in simp_all)
    then show ?thesis using c True by (simp add: Let_def ac_simps)
  next
    case False
    have eq: "8 * P - (bi - 6 + 6) + 6 * i = 8 * P - (bi + 6) + 6 * Suc i" for i
      using Cons.prems(2,3) False by simp
    have "\<forall>i < length cs. \<forall>j. bit (cs ! i - 0x20) j \<longleftrightarrow> j < 6 \<and> mbit m p (8 * P - (bi - 6 + 6) + 6 * i + 5 - j)"
      using rest unfolding eq .
    then have "getAlphanumeric_loop (length cs) m (p + P) acc (int (bi - 6)) = cs"
      by (intro Cons.IH [OF Cons.prems(1,2)]) (use Cons.prems(3) in simp_all)
    then show ?thesis using c False by (simp add: Let_def of_nat_diff)
  qed
qed simp

section \<open>Packing\<close>

definition pack_chars :: "32 word list \<Rightarrow> 64 word \<Rightarrow> 64 word" where
  "pack_chars cs acc = foldl (\<lambda>a c. push_bit 6 a OR ucast (c - 0x20)) acc cs"

definition alphanumeric_char :: "32 word \<Rightarrow> bool" where
  "alphanumeric_char c \<longleftrightarrow> c - 0x20 < 0x40"

lemma putAlphanumeric_loop_pack:
  assumes "\<forall>c \<in> set cs. alphanumeric_char c" "6 * length cs \<le> free"
  shows "putAlphanumeric_loop cs acc (int free) = ret (pack_chars cs acc, int (free - 6 * length cs))"
  using assms
proof (induction cs arbitrary: acc free)
  case (Cons c cs)
  have "\<not> 0x40 \<le> c - 0x20" using Cons.prems(1) by (simp add: alphanumeric_char_def not_le)
  moreover have "int free - 6 = int (free - 6)" "\<not> int free - 6 < 0" using Cons.prems(2) by simp_all
  moreover have "putAlphanumeric_loop cs (push_bit 6 acc OR ucast (c - 0x20)) (int (free - 6)) =
      ret (pack_chars cs (push_bit 6 acc OR ucast (c - 0x20)), int (free - 6 - 6 * length cs))"
    by (rule Cons.IH) (use Cons.prems in auto)
  moreover have "free - 6 - 6 * length cs = free - 6 * length (c # cs)" by simp
  ultimately show ?case by (simp only: putAlphanumeric_loop.simps Let_def if_False pack_chars_def foldl.simps)
qed (simp add: pack_chars_def)

lemma bit_pack_chars:
  assumes "\<forall>c \<in> set cs. alphanumeric_char c" "x < 64"
  shows "bit (pack_chars cs acc) x \<longleftrightarrow>
    (if x < 6 * length cs then bit (cs ! (length cs - 1 - x div 6) - 0x20) (x mod 6) else bit acc (x - 6 * length cs))"
  using assms
proof (induction cs arbitrary: x rule: rev_induct)
  case (snoc c cs)
  have "unat (c - 0x20) < 2 ^ 6" using snoc.prems(1) by (simp add: alphanumeric_char_def word_less_nat_alt)
  then have t: "take_bit 6 (c - 0x20) = c - 0x20" by (rule word_take_bit_self)
  have cb: "bit (ucast (c - 0x20) :: 64 word) x \<longleftrightarrow> x < 6 \<and> bit (c - 0x20) x" for x
    using arg_cong [OF t, of "\<lambda>w. bit w x"] by (auto simp: bit_ucast_iff bit_take_bit_iff dest: bit_imp_le_length)
  have p: "pack_chars (cs @ [c]) acc = push_bit 6 (pack_chars cs acc) OR ucast (c - 0x20)" by (simp add: pack_chars_def)
  show ?case
  proof (cases "x < 6")
    case True
    then show ?thesis by (simp add: p bit_or_iff bit_push_bit_iff cb nth_append)
  next
    case False
    have IH: "bit (pack_chars cs acc) (x - 6) \<longleftrightarrow> (if x - 6 < 6 * length cs
        then bit (cs ! (length cs - 1 - (x - 6) div 6) - 0x20) ((x - 6) mod 6) else bit acc (x - 6 - 6 * length cs))"
      using snoc by simp
    obtain y where y: "x = y + 6" using False by (metis add.commute le_Suc_ex not_less)
    then have d: "(x - 6) div 6 = x div 6 - 1" "(x - 6) mod 6 = x mod 6" "0 < x div 6" by simp_all
    have L: "bit (pack_chars (cs @ [c]) acc) x \<longleftrightarrow> bit (pack_chars cs acc) (x - 6)"
      using False snoc.prems(2) by (simp add: p bit_or_iff bit_push_bit_iff cb)
    show ?thesis
    proof (cases "x < 6 * length (cs @ [c])")
      case True
      then have l: "x - 6 < 6 * length cs" "x div 6 \<le> length cs" using False by auto
      then have n: "length (cs @ [c]) - 1 - x div 6 = length cs - 1 - (x - 6) div 6" "length cs - 1 - (x - 6) div 6 < length cs"
        using d(1,3) by auto
      show ?thesis unfolding L IH n(1) using True l n(2) d(2) by (simp add: nth_append)
    next
      case False
      then have l: "\<not> x - 6 < 6 * length cs" "x - 6 - 6 * length cs = x - 6 * length (cs @ [c])" by auto
      show ?thesis unfolding L IH l(2) using False l(1) by simp
    qed
  qed
qed (simp add: pack_chars_def)


text \<open>The bytes of a field of at most \<open>sz\<close> characters.\<close>

definition alphanumeric_bits :: "32 word \<Rightarrow> 32 word list \<Rightarrow> nat" where
  "alphanumeric_bits sz cs = bsr (sz + 1) + 6 * length cs"

definition alphanumeric_word :: "32 word \<Rightarrow> 32 word list \<Rightarrow> 64 word" where
  "alphanumeric_word sz cs = push_bit (64 - alphanumeric_bits sz cs) (pack_chars cs (of_nat (length cs)))"

definition alphanumeric_bytes :: "32 word \<Rightarrow> 32 word list \<Rightarrow> byte list" where
  "alphanumeric_bytes sz cs = take ((alphanumeric_bits sz cs + 7) div 8) (be_bytes 8 (alphanumeric_word sz cs))"

definition alphanumeric_ok :: "32 word \<Rightarrow> 32 word list \<Rightarrow> bool" where
  "alphanumeric_ok sz cs \<longleftrightarrow> list_all alphanumeric_char cs \<and> length cs \<le> unat sz \<and> sz < 2 ^ 26 - 1 \<and> alphanumeric_bits sz cs \<le> 64"

lemma alphanumeric_size:
  assumes "alphanumeric_ok sz cs"
  shows "0 < bsr (sz + 1)" "bsr (sz + 1) \<le> 26" "unat (sz + 1) = unat sz + 1" "length cs < 2 ^ bsr (sz + 1)"
    "length cs \<noteq> unat (sz + 1)"
proof -
  have lt: "unat sz < 2 ^ 26 - 1" using assms by (simp add: alphanumeric_ok_def word_less_nat_alt)
  then show u: "unat (sz + 1) = unat sz + 1" by (simp add: unat_word_ariths)
  then have "sz + 1 \<noteq> 0" by (metis Suc_eq_plus1 nat.distinct(1) unsigned_0)
  then show "0 < bsr (sz + 1)" by (metis bsr_0_iff neq0_conv)
  show "bsr (sz + 1) \<le> 26" using u lt by (simp add: bsr_def bit_length_le_iff)
  show "length cs < 2 ^ bsr (sz + 1)" "length cs \<noteq> unat (sz + 1)"
    using bsr_bounds [OF \<open>sz + 1 \<noteq> 0\<close>] u assms by (auto simp: alphanumeric_ok_def)
qed

lemma be_bytes_0: "be_bytes n (0 :: 'a::len word) = replicate n 0"
  by (simp add: be_bytes_def le_bytes_def map_replicate_const)

lemma le_bytes_0: "le_bytes n (0 :: 'a::len word) = replicate n 0"
  by (simp add: le_bytes_def map_replicate_const)

lemma emits_putAlphanumeric:
  assumes "alphanumeric_ok sz cs"
  shows "emits (putAlphanumeric sz (Some cs) (length cs)) (alphanumeric_bytes sz cs) ()"
proof -
  note s = alphanumeric_size [OF assms]
  let ?s = "bsr (sz + 1)" and ?n = "(alphanumeric_bits sz cs + 7) div 8"
  have ok: "\<forall>c \<in> set cs. alphanumeric_char c" "length cs \<le> unat sz" "alphanumeric_bits sz cs \<le> 64"
    using assms by (simp_all add: alphanumeric_ok_def list_all_iff)
  have n: "?n \<le> 8" using ok(3) by simp
  show ?thesis
  proof (cases "cs = []")
    case True
    have h: "(?s + 7) div 8 \<le> 4" using s(2) by simp
    have "take k (le_bytes 4 (0 :: 32 word)) = take k (replicate 8 0)" if "k \<le> 4" for k
      using that by (simp add: le_bytes_0 min_def)
    then have "take ((?s + 7) div 8) (le_bytes 4 (0 :: 32 word)) = alphanumeric_bytes sz cs"
      using h True by (simp add: alphanumeric_bytes_def alphanumeric_word_def alphanumeric_bits_def pack_chars_def be_bytes_0)
    then have "emits (seqs [putLE (0 :: 32 word) ((?s + 7) div 8), setNotNull]) (alphanumeric_bytes sz cs) ()"
      using emits_andthen [OF emits_putLE [of "(?s + 7) div 8" "0 :: 32 word"] emits_setNotNull] h by simp
    then show ?thesis using True by (simp add: putAlphanumeric_def Let_def)
  next
    case False
    have "6 * length cs \<le> 64 - ?s" using ok(3) by (simp add: alphanumeric_bits_def)
    from putAlphanumeric_loop_pack [OF ok(1) this, of "of_nat (length cs)"]
    have loop: "putAlphanumeric_loop cs (of_nat (length cs)) (64 - int ?s) =
        ret (pack_chars cs (of_nat (length cs)), int (64 - alphanumeric_bits sz cs))"
      using s(2) by (simp add: of_nat_diff alphanumeric_bits_def)
    have d: "nat ((64 + 7 - int (64 - alphanumeric_bits sz cs)) div 8) = ?n"
    proof -
      have "64 + 7 - int (64 - alphanumeric_bits sz cs) = int (alphanumeric_bits sz cs + 7)" using ok(3) by simp
      then show ?thesis by (simp only: nat_int zdiv_int [of _ 8, simplified, symmetric])
    qed
    have "emits (seqs [putBE (alphanumeric_word sz cs) ?n, setNotNull]) (alphanumeric_bytes sz cs) ()"
      using emits_andthen [OF emits_putBE [of ?n "alphanumeric_word sz cs"] emits_setNotNull] n
      by (simp add: alphanumeric_bytes_def)
    moreover have "putAlphanumeric sz (Some cs) (length cs) = seqs [putBE (alphanumeric_word sz cs) ?n, setNotNull]"
    proof -
      have "\<not> unat sz < length cs" "\<not> unat (sz + 1) < length cs" "length cs \<noteq> 0" using ok(2) s(3) False by auto
      then show ?thesis
        unfolding putAlphanumeric_def Let_def alphanumeric_word_def
        by (simp only: option.case take_all order_refl loop bnd_ret prod.case d nat_int if_False)
    qed
    ultimately show ?thesis by simp
  qed
qed


text \<open>The bits of the packed word in the order of the stream: the length, then the characters.\<close>

lemma stream_of_alphanumeric:
  assumes "alphanumeric_ok sz cs" "load_bytes m p n = take n (be_bytes 8 (alphanumeric_word sz cs))" "n \<le> 8"
  shows "j < bsr (sz + 1) \<Longrightarrow> bsr (sz + 1) \<le> 8 * n \<Longrightarrow> mbit m p (bsr (sz + 1) - 1 - j) \<longleftrightarrow> bit (of_nat (length cs) :: 64 word) j"
    and "alphanumeric_bits sz cs \<le> 8 * n \<Longrightarrow> i < length cs \<Longrightarrow> j < 6 \<Longrightarrow>
      mbit m p (bsr (sz + 1) + 6 * i + 5 - j) \<longleftrightarrow> bit (cs ! i - 0x20) j"
proof -
  let ?s = "bsr (sz + 1)" and ?L = "length cs"
  have ok: "\<forall>c \<in> set cs. alphanumeric_char c" "?s + 6 * ?L \<le> 64"
    using assms(1) by (simp_all add: alphanumeric_ok_def list_all_iff alphanumeric_bits_def)
  have w: "bit (alphanumeric_word sz cs) x \<longleftrightarrow> bit (pack_chars cs (of_nat ?L)) (x - (64 - (?s + 6 * ?L)))"
    if "64 - (?s + 6 * ?L) \<le> x" "x < 64" for x
    using that by (simp add: alphanumeric_word_def alphanumeric_bits_def bit_push_bit_iff)
  show "mbit m p (?s - 1 - j) \<longleftrightarrow> bit (of_nat ?L :: 64 word) j" if "j < ?s" "?s \<le> 8 * n"
  proof -
    define y where "y = 63 - (?s - 1 - j)"
    have y: "y - (64 - (?s + 6 * ?L)) = 6 * ?L + j" "64 - (?s + 6 * ?L) \<le> y" "6 * ?L + j < 64" "y < 64"
      using that ok(2) by (simp_all add: y_def)
    have "bit (alphanumeric_word sz cs) y \<longleftrightarrow> bit (of_nat ?L :: 64 word) j"
      unfolding w [OF y(2,4)] y(1) using bit_pack_chars [OF ok(1) y(3)] by simp
    then have "bit (alphanumeric_word sz cs) (63 - (?s - 1 - j)) \<longleftrightarrow> bit (of_nat ?L :: 64 word) j" by (simp only: y_def)
    then show ?thesis using mbit_bytes [OF assms(2,3), of "?s - 1 - j"] that by simp
  qed
  show "mbit m p (?s + 6 * i + 5 - j) \<longleftrightarrow> bit (cs ! i - 0x20) j" if t: "alphanumeric_bits sz cs \<le> 8 * n" "i < ?L" "j < 6"
  proof -
    define k where "k = ?L - 1 - i"
    have k: "?L = k + 1 + i" using t(2) by (simp add: k_def)
    define y where "y = 63 - (?s + 6 * i + 5 - j)"
    have y: "y - (64 - (?s + 6 * ?L)) = 6 * k + j" "64 - (?s + 6 * ?L) \<le> y" "6 * k + j < 6 * ?L" "y < 64"
      using ok(2) t(3) k by (simp_all add: y_def)
    have "(6 * k + j) div 6 = k" "(6 * k + j) mod 6 = j" "?L - 1 - k = i" "6 * k + j < 64" using t(3) k ok(2) by simp_all
    then have "bit (alphanumeric_word sz cs) y \<longleftrightarrow> bit (cs ! i - 0x20) j"
      unfolding w [OF y(2,4)] y(1) using bit_pack_chars [OF ok(1), of "6 * k + j"] y(3) by simp
    then have "bit (alphanumeric_word sz cs) (63 - (?s + 6 * i + 5 - j)) \<longleftrightarrow> bit (cs ! i - 0x20) j" by (simp only: y_def)
    moreover have "?s + 6 * i + 5 - j < 8 * n" using t k by (simp add: alphanumeric_bits_def)
    ultimately show ?thesis using mbit_bytes [OF assms(2,3)] by simp
  qed
qed

text \<open>The length field is the top of the first load.\<close>

lemma alphanumeric_length:
  assumes "alphanumeric_ok sz cs" "load_bytes m p n = take n (be_bytes 8 (alphanumeric_word sz cs))" "n \<le> 8" "bsr (sz + 1) \<le> 8 * n"
  shows "unat (drop_bit (32 - bsr (sz + 1)) (loadBE m p :: 32 word)) = length cs"
proof -
  let ?s = "bsr (sz + 1)"
  note s = alphanumeric_size [OF assms(1)]
  obtain l where l: "l = (of_nat (length cs) :: 32 word)" by simp
  have "length cs < 2 ^ 26" using s(4) power_increasing [OF s(2), of "2 :: nat"] by linarith
  then have ul: "unat l = length cs" by (simp add: l unsigned_of_nat take_bit_nat_eq_self)
  then have t: "take_bit ?s l = l" using s(4) by (intro word_take_bit_self) simp
  have lb: "bit l j \<Longrightarrow> j < ?s" for j using t by (metis bit_take_bit_iff)
  have c: "bit (of_nat (length cs) :: 64 word) j \<longleftrightarrow> bit l j" if "j < 32" for j
    using that by (simp add: l bit_of_nat_iff)
  have "drop_bit (32 - ?s) (loadBE m p :: 32 word) = l"
  proof (rule bit_word_eqI)
    fix j assume j: "j < LENGTH(32)"
    show "bit (drop_bit (32 - ?s) (loadBE m p :: 32 word)) j = bit l j"
    proof (cases "j < ?s")
      case True
      then have "32 - ?s + j < 32" "31 - (32 - ?s + j) = ?s - 1 - j" using s(2) by simp_all
      then have "bit (loadBE m p :: 32 word) (32 - ?s + j) \<longleftrightarrow> mbit m p (?s - 1 - j)"
        using bit_loadBE [of "32 - ?s + j" m p, where ?'a = 32] by simp
      then show ?thesis
        using stream_of_alphanumeric(1) [OF assms(1-3) True assms(4)] c [of j] j by (simp add: bit_drop_bit_eq)
    next
      case False
      then have "\<not> bit (loadBE m p :: 32 word) (32 - ?s + j)" using s(2) by (auto dest: bit_imp_le_length)
      then show ?thesis using False lb [of j] by (auto simp: bit_drop_bit_eq)
    qed
  qed
  then show ?thesis using ul by simp
qed

lemma alphanumeric_chars:
  assumes "alphanumeric_ok sz cs" "load_bytes m p n = alphanumeric_bytes sz cs" "n = (alphanumeric_bits sz cs + 7) div 8"
  shows "getAlphanumeric_loop (length cs) m (p + 4) (loadBE m p) (32 - int (bsr (sz + 1)) - 6) = cs"
proof -
  let ?s = "bsr (sz + 1)"
  note s = alphanumeric_size [OF assms(1)]
  have n: "n \<le> 8" "alphanumeric_bits sz cs \<le> 8 * n" using assms(1,3) by (auto simp: alphanumeric_ok_def)
  have l: "load_bytes m p n = take n (be_bytes 8 (alphanumeric_word sz cs))" using assms(2,3) by (simp add: alphanumeric_bytes_def)
  have b: "bit (cs ! i - 0x20) j \<longleftrightarrow> j < 6 \<and> mbit m p (8 * 4 - (26 - ?s + 6) + 6 * i + 5 - j)" if i: "i < length cs" for i j
  proof -
    have "alphanumeric_char (cs ! i)" using assms(1) i by (simp add: alphanumeric_ok_def list_all_length)
    then have "unat (cs ! i - 0x20) < 2 ^ 6" by (simp add: alphanumeric_char_def word_less_nat_alt)
    then have "take_bit 6 (cs ! i - 0x20) = cs ! i - 0x20" by (rule word_take_bit_self)
    then have "bit (cs ! i - 0x20) j \<Longrightarrow> j < 6" by (metis bit_take_bit_iff)
    moreover have "8 * 4 - (26 - ?s + 6) = ?s" using s(2) by simp
    ultimately show ?thesis using stream_of_alphanumeric(2) [OF assms(1) l n(1) n(2) i, of j] by auto
  qed
  have "\<forall>j < 32. bit (loadBE m p :: 32 word) j \<longleftrightarrow> mbit m p (8 * 4 - 1 - j)"
    using bit_loadBE [of _ m p, where ?'a = 32] by simp
  from getAlphanumeric_loop_spec [OF this order_refl, of "26 - ?s" cs] b
  have "getAlphanumeric_loop (length cs) m (p + 4) (loadBE m p) (int (26 - ?s)) = cs" by simp
  moreover have "int (26 - ?s) = 32 - int ?s - 6" using s(2) by simp
  ultimately show ?thesis by simp
qed

context byte_source begin

lemma reads_getAlphanumeric:
  assumes "alphanumeric_ok sz cs"
  shows "reads inv pend (getAlphanumeric sz) (alphanumeric_bytes sz cs) (Some cs)"
  unfolding reads_def
proof (intro allI impI)
  fix r rest assume r: "inv r \<and> pend r = alphanumeric_bytes sz cs @ rest"
  let ?s = "bsr (sz + 1)" and ?h = "(bsr (sz + 1) + 7) div 8" and ?n = "(alphanumeric_bits sz cs + 7) div 8"
  note s = alphanumeric_size [OF assms]
  have ok: "alphanumeric_bits sz cs \<le> 64" using assms by (simp add: alphanumeric_ok_def)
  then have len: "length (alphanumeric_bytes sz cs) = ?n" "?n \<le> 8" by (simp_all add: alphanumeric_bytes_def)
  have h: "?h \<le> ?n" "?h \<le> 8" "?s \<le> 8 * ?h" using s(2) by (simp_all add: alphanumeric_bits_def div_le_mono)
  have "?h \<le> length (pend r)" using r len h(1) by simp
  from peek_enough [of r ?h] r this h(2) obtain p r1 where
    p: "peek ?h r = (Inr p, r1)" "load_bytes (rmem r1) p ?h = take ?h (pend r)" "pend r1 = pend r" "inv r1"
    by (auto simp: READ_BUFFER_SIZE_def)
  have "take ?h (pend r) = take ?h (be_bytes 8 (alphanumeric_word sz cs))"
    using r len h(1) by (simp add: alphanumeric_bytes_def min_def)
  then have l: "unat (drop_bit (32 - ?s) (loadBE (rmem r1) p :: 32 word)) = length cs"
    using alphanumeric_length [OF assms _ h(2,3)] p(2) by simp
  have "?n \<le> length (pend r1)" using r len p(3) by simp
  from bytes_enough [OF p(4) _ this] len(2) obtain q r2 where
    q: "bytes ?n r1 = (Inr q, r2)" "load_bytes (rmem r2) q ?n = take ?n (pend r1)" "pend r2 = drop ?n (pend r1)" "inv r2"
    by (auto simp: READ_BUFFER_SIZE_def)
  have lb: "load_bytes (rmem r2) q ?n = alphanumeric_bytes sz cs" using q(2) p(3) r len(1) by simp
  have e: "(?s + length cs * 6 + 7) div 8 = ?n" by (simp add: alphanumeric_bits_def mult.commute)
  have "getAlphanumeric sz r = (Inr (Some cs), r2)"
    unfolding getAlphanumeric_def Let_def
    using p(1) l s(5) q(1) e alphanumeric_chars [OF assms lb refl] by (simp add: bnd_ok)
  then show "\<exists>r'. getAlphanumeric sz r = (Inr (Some cs), r') \<and> pend r' = rest \<and> inv r'"
    using q(3,4) p(3) r len(1) by simp
qed

lemma reads_readAlphanumeric:
  assumes "alphanumeric_ok sz cs"
  shows "reads inv pend (readAlphanumeric sz) (alphanumeric_bytes sz cs) (Some cs)"
proof -
  have "alphanumeric_bytes sz cs \<noteq> []"
    using alphanumeric_size(1) [OF assms] by (simp add: alphanumeric_bytes_def alphanumeric_bits_def)
  then show ?thesis
    using reads_getAlphanumeric [OF assms] pending_not_end
    by (auto simp: reads_def readAlphanumeric_def bnd_def)
qed

end


text \<open>C23: An alphanumeric field (the length and the characters as a stream of bits) written by
  \<open>writeAlphanumeric\<close> for a string whose bits fit the writer's accumulator is read back by
  \<open>readAlphanumeric\<close>, which consumes exactly the bytes written, whatever lies behind them.\<close>

theorem alphanumeric_roundtrip:
  assumes "alphanumeric_ok fieldSize (map ucast str)"
    and "dataPtr w \<le> dataEnd w" "writeAlphanumeric fieldSize str w = (Inr (), w')" "msg_ok r"
    and "pend_msg r = load_bytes (wmem w') (dataPtr w) (dataPtr w' - dataPtr w) @ rest"
  shows "\<exists>r'. readAlphanumeric fieldSize r = (Inr (Some (map ucast str)), r') \<and> pend_msg r' = rest \<and> msg_ok r'"
proof -
  have "emits (writeAlphanumeric fieldSize str) (alphanumeric_bytes fieldSize (map ucast str)) ()"
    using emits_andthen [OF emits_putAlphanumeric [OF assms(1)] emits_setNotNull] by (simp add: writeAlphanumeric_def)
  from roundtrip [OF this msrc.reads_readAlphanumeric [OF assms(1)] assms(2-5)] show ?thesis .
qed

lemma sample_alphanumeric: "alphanumeric_ok 10 (map ucast [0x45, 0x55, 0x52, 0x55, 0x53, 0x44 :: byte])"
  by code_simp

theorem alphanumeric_roundtrip_witness:
  "\<exists>w' r'. writeAlphanumeric 10 [0x45, 0x55, 0x52, 0x55, 0x53, 0x44] sample_writer = (Inr (), w') \<and>
     readAlphanumeric 10 (reader_over (wmem w') 8 (dataPtr w')) = (Inr (Some [0x45, 0x55, 0x52, 0x55, 0x53, 0x44]), r')"
proof -
  let ?str = "[0x45, 0x55, 0x52, 0x55, 0x53, 0x44] :: byte list"
  have e: "emits (writeAlphanumeric 10 ?str) (alphanumeric_bytes 10 (map ucast ?str)) ()"
    using emits_andthen [OF emits_putAlphanumeric [OF sample_alphanumeric] emits_setNotNull] by (simp add: writeAlphanumeric_def)
  have "length (alphanumeric_bytes 10 (map ucast ?str)) \<le> 100" by (simp add: alphanumeric_bytes_def)
  from sample_roundtrip [OF e this] obtain w' where w':
    "writeAlphanumeric 10 ?str sample_writer = (Inr (), w')" "dataPtr sample_writer \<le> dataEnd sample_writer"
    "msg_ok (reader_over (wmem w') 8 (dataPtr w'))"
    "pend_msg (reader_over (wmem w') 8 (dataPtr w')) =
      load_bytes (wmem w') (dataPtr sample_writer) (dataPtr w' - dataPtr sample_writer) @ []" by blast
  from alphanumeric_roundtrip [OF sample_alphanumeric w'(2,1,3,4)] w'(1) show ?thesis by auto
qed


section \<open>Longer strings\<close>

lemma putAlphanumeric_loop_spill:
  "\<forall>c \<in> set cs. alphanumeric_char c \<Longrightarrow> free < 6 * length cs \<Longrightarrow>
     putAlphanumeric_loop cs acc (int free) = throw (Undefined ''ch is not initialized'')"
proof (induction cs arbitrary: acc free)
  case (Cons c cs)
  have "\<not> 0x40 \<le> c - 0x20" using Cons.prems(1) by (simp add: alphanumeric_char_def not_le)
  moreover have "putAlphanumeric_loop cs (push_bit 6 acc OR ucast (c - 0x20)) (int (free - 6)) =
      throw (Undefined ''ch is not initialized'')" if "6 \<le> free"
    by (rule Cons.IH) (use Cons.prems that in auto)
  ultimately show ?case by (cases "6 \<le> free") (auto simp: Let_def of_nat_diff)
qed simp

text \<open>A string whose length field and characters do not fit into the 64 bits of the accumulator is never
  written: the packing loop then uses the variable \<open>ch\<close> of its own iteration before it has a value.\<close>

theorem alphanumeric_spill_undefined:
  assumes "list_all alphanumeric_char (map ucast str)" "length str \<le> unat fieldSize" "fieldSize < 2 ^ 26 - 1"
    and "64 < bsr (fieldSize + 1) + 6 * length str"
  shows "fst (writeAlphanumeric fieldSize str w) = Inl (Undefined ''ch is not initialized'')"
proof -
  let ?s = "bsr (fieldSize + 1)" and ?cs = "map ucast str :: 32 word list"
  have lt: "unat fieldSize < 2 ^ 26 - 1" using assms(3) by (simp add: word_less_nat_alt)
  then have u: "unat (fieldSize + 1) = unat fieldSize + 1" by (simp add: unat_word_ariths)
  have s: "?s \<le> 26" using u lt by (simp add: bsr_def bit_length_le_iff)
  have "64 - ?s < 6 * length ?cs" using assms(4) s by simp
  from putAlphanumeric_loop_spill [OF _ this, of "of_nat (length str)"] assms(1)
  have loop: "putAlphanumeric_loop ?cs (of_nat (length str)) (64 - int ?s) = throw (Undefined ''ch is not initialized'')"
    using s by (simp add: list_all_iff of_nat_diff)
  have "str \<noteq> []" "\<not> unat fieldSize < length str" "\<not> unat (fieldSize + 1) < length str" using assms(2,4) s u by auto
  then show ?thesis using loop by (simp add: writeAlphanumeric_def putAlphanumeric_def Let_def andthen_def bnd_def)
qed

theorem alphanumeric_spill_undefined_witness:
  "fst (writeAlphanumeric 20 (replicate 11 0x41) sample_writer) = Inl (Undefined ''ch is not initialized'')"
proof (rule alphanumeric_spill_undefined)
  show "64 < bsr ((20 :: 32 word) + 1) + 6 * length (replicate 11 (0x41 :: byte))" by code_simp
qed (simp_all add: alphanumeric_char_def list_all_iff)

end
