(* ===== verification/FieldTheorems.thy ===== *)
theory FieldTheorems
  imports MessageTheorems PartialMessages NestedContainers Alphanumerics
begin

text \<open>
  The theorems on single fields and on the buffers below them: intervals, memory safety of the
  writer, the expansion of length fields, the requests of the reader, the sockets, and the platform
  helpers.
\<close>

section \<open>Intervals\<close>

text \<open>C24: An interval that is not a whole number of minutes, or has too many of them for the header's six bits, and
  also the null interval, is read back as it was written.\<close>

theorem interval_roundtrip:
  assumes "v = INTERVAL_NULL \<or> v mod 60000 \<noteq> 0 \<or> interval_units v = None"
    and "dataPtr w \<le> dataEnd w" "writeInterval v w = (Inr (), w')" "msg_ok r"
    and "pend_msg r = load_bytes (wmem w') (dataPtr w) (dataPtr w' - dataPtr w) @ rest"
  shows "\<exists>r'. readInterval r = (Inr v, r') \<and> pend_msg r' = rest \<and> msg_ok r'"
proof -
  have "v \<le> 0x7FFFFFFF" using putInterval_ok_iff [of v w] assms(3) by (simp add: writeInterval_def)
  then have e: "emits (writeInterval v) (interval_bytes v) ()" by (simp add: writeInterval_def emits_putInterval)
  have "interval_readback v = v"
  proof (cases "interval_units v")
    case None
    then show ?thesis by (auto simp: interval_readback_def INTERVAL_NULL_def)
  next
    case (Some q)
    have "v div 1000 * 1000 = v" if "v mod 1000 = 0" using that div_mult_mod_eq [of v 1000] by simp
    then have "v = INTERVAL_NULL \<or> q * 1000 = v"
      using Some assms(1) by (auto simp: interval_units_def Let_def split: if_splits)
    then show ?thesis using Some by (auto simp: interval_readback_def INTERVAL_NULL_def)
  qed
  then show ?thesis using roundtrip [OF e msrc.reads_readInterval [of v] assms(2-5)] by simp
qed

lemma interval_5000: "interval_bytes 5000 = [5]" "(5000 :: 32 word) mod 60000 \<noteq> 0"
  by code_simp+

theorem interval_roundtrip_witness:
  "\<exists>w' r'. writeInterval 5000 sample_writer = (Inr (), w') \<and>
     readInterval (reader_over (wmem w') 8 (dataPtr w')) = (Inr 5000, r')"
proof -
  have e: "emits (writeInterval 5000) [5] ()" using emits_putInterval [of 5000] by (simp add: writeInterval_def interval_5000)
  from sample_roundtrip [OF e] obtain w' where w':
    "writeInterval 5000 sample_writer = (Inr (), w')" "dataPtr sample_writer \<le> dataEnd sample_writer"
    "msg_ok (reader_over (wmem w') 8 (dataPtr w'))"
    "pend_msg (reader_over (wmem w') 8 (dataPtr w')) =
      load_bytes (wmem w') (dataPtr sample_writer) (dataPtr w' - dataPtr sample_writer) @ []" by auto
  from interval_roundtrip [OF _ w'(2,1,3,4)] w'(1) interval_5000(2) show ?thesis by auto
qed

text \<open>C25: An interval of 1 to 59 whole minutes is written as its number of minutes without the unit, and read back as that
  many seconds.\<close>

theorem interval_minutes_become_seconds:
  assumes "v = of_nat (60000 * q)" "0 < q" "q < 60"
    and "dataPtr w \<le> dataEnd w" "writeInterval v w = (Inr (), w')" "msg_ok r"
    and "pend_msg r = load_bytes (wmem w') (dataPtr w) (dataPtr w' - dataPtr w) @ rest"
  shows "\<exists>r'. readInterval r = (Inr (of_nat (1000 * q)), r') \<and> pend_msg r' = rest \<and> of_nat (1000 * q) \<noteq> v"
proof -
  have u: "unat v = 60000 * q" using assms(1,3) by (simp add: unsigned_of_nat take_bit_nat_eq_self del: of_nat_mult)
  have uc: "unat (of_nat (1000 * q) :: 32 word) = 1000 * q" "unat (of_nat q :: 32 word) = q"
    using assms(3) by (simp_all add: unsigned_of_nat take_bit_nat_eq_self del: of_nat_mult)
  have m: "v mod 60000 = 0" "v mod 3600000 \<noteq> 0" "v div 60000 = of_nat q" "v \<noteq> INTERVAL_NULL"
    using u uc assms(2,3) by (auto simp: word_unat_eq_iff unat_mod unat_div INTERVAL_NULL_def)
  moreover have "(of_nat q :: 32 word) < 64" using uc(2) assms(3) by (simp add: word_less_nat_alt)
  ultimately have "interval_readback v = of_nat q * 1000" by (simp add: interval_readback_def interval_units_def)
  then have rb: "interval_readback v = of_nat (1000 * q)" by (simp add: mult.commute)
  have "v \<le> 0x7FFFFFFF" using putInterval_ok_iff [of v w] assms(5) by (simp add: writeInterval_def)
  then have "emits (writeInterval v) (interval_bytes v) ()" by (simp add: writeInterval_def emits_putInterval)
  from roundtrip [OF this msrc.reads_readInterval assms(4-7)] rb
  obtain r' where "readInterval r = (Inr (of_nat (1000 * q)), r')" "pend_msg r' = rest" by auto
  moreover have "1000 * q \<noteq> 60000 * q" using assms(2) by simp
  then have "of_nat (1000 * q) \<noteq> v" using u uc(1) by metis
  ultimately show ?thesis by blast
qed


theorem interval_minutes_become_seconds_witness:
  "\<exists>w' r'. writeInterval (of_nat (60000 * 2)) sample_writer = (Inr (), w') \<and>
     readInterval (reader_over (wmem w') 8 (dataPtr w')) = (Inr (of_nat (1000 * 2)), r')"
proof -
  have "length (interval_bytes (of_nat (60000 * 2))) \<le> 5" by (simp add: interval_bytes_def split: option.splits)
  moreover have "emits (writeInterval (of_nat (60000 * 2))) (interval_bytes (of_nat (60000 * 2))) ()"
    using emits_putInterval [of "of_nat (60000 * 2)"] by (simp add: writeInterval_def)
  ultimately obtain w' where w':
    "writeInterval (of_nat (60000 * 2)) sample_writer = (Inr (), w')" "dataPtr sample_writer \<le> dataEnd sample_writer"
    "msg_ok (reader_over (wmem w') 8 (dataPtr w'))"
    "pend_msg (reader_over (wmem w') 8 (dataPtr w')) =
      load_bytes (wmem w') (dataPtr sample_writer) (dataPtr w' - dataPtr sample_writer) @ []"
    using sample_roundtrip [of "writeInterval (of_nat (60000 * 2))" "interval_bytes (of_nat (60000 * 2))"] by auto
  from interval_minutes_become_seconds [OF refl _ _ w'(2,1,3,4)] w'(1) show ?thesis by auto
qed

section \<open>The writer stays in its buffer\<close>



section \<open>Expanding the length fields\<close>

text \<open>C14: The loop that widens the length fields of big containers in place, from the last to the first with one
  \<open>memmove\<close> each, leaves in the buffer what the recursive reference \<open>expand_rev\<close> makes of the bytes, returns
  with the whole offset used up, and changes nothing outside the enlarged message.\<close>

theorem expansion_is_reference:
  assumes "points_ok pts n" "n \<le> e - b" "b \<le> e"
  shows "\<exists>pEnd m'. expandHeaders_loop b pts (b + n) (int (total_extra pts)) m = Inr (pEnd, 0, m') \<and>
     load_bytes m' b (n + total_extra pts) = expand_rev pts (load_bytes m b n) \<and>
     (\<forall>i. i < b \<or> b + n + total_extra pts \<le> i \<longrightarrow> m' i = m i)"
  using expandHeaders_loop_spec [OF refl assms] by metis

theorem expansion_is_reference_witness:
  "\<exists>pEnd m'. expandHeaders_loop 8 [\<lparr>blockOffset = 5, headerLength = packed_length 200\<rparr>] (8 + 205) 1 (\<lambda>_. 0) = Inr (pEnd, 0, m')"
proof -
  let ?pt = "\<lparr>blockOffset = 5, headerLength = packed_length 200\<rparr>"
  have x: "point_ok ?pt" "point_extra ?pt = 1"
    using packed_length_point [of 200 ?pt] by (simp_all add: extra_header_bytes_def)
  then have "points_ok [?pt] 205" "total_extra [?pt] = 1" by (simp_all add: total_extra_def)
  then show ?thesis using expansion_is_reference [of "[?pt]" 205 "8 + 205" 8 "\<lambda>_. 0"] by auto
qed


section \<open>Requests to the reader and to the streams below it\<close>

text \<open>C19: A request of up to one read buffer to the reader of a message gives the next bytes of the stream in one
  piece, moving the rest of the buffer and reading from the input as needed, if they are inside the current content and the
  input still delivers them; otherwise it throws.\<close>

theorem reader_requests_refine_stream:
  assumes "msg_ok r" "n \<le> READ_BUFFER_SIZE"
  shows "if n \<le> content_left r \<and> n \<le> length (stream_left r)
         then \<exists>q r'. bytes n r = (Inr q, r') \<and> load_bytes (rmem r') q n = take n (stream_left r) \<and>
                stream_left r' = drop n (stream_left r) \<and> content_left r' + n = content_left r \<and> msg_ok r'
         else \<exists>e r'. bytes n r = (Inl e, r')"
  using msg_bytes [OF assms] by (auto simp: consumes_def split: if_splits)

lemma reader_of_ok:
  assumes "length bs \<le> 2 ^ 19"
  shows "msg_ok (reader_of bs)" "content_left (reader_of bs) = length bs" "stream_left (reader_of bs) = bs"
proof -
  note i = insideD [OF reader_of_inside(1) [OF assms]]
  show "msg_ok (reader_of bs)" by (rule i(1))
  show "content_left (reader_of bs) = length bs" by (rule i(7) [unfolded reader_of_inside(2) [OF assms], symmetric])
  show "stream_left (reader_of bs) = bs" using i(6) unfolding reader_of_inside(2) [OF assms] append_Nil2 .
qed

theorem reader_requests_refine_stream_witness:
  "(\<exists>q r'. bytes 2 (reader_of [1, 2, 3]) = (Inr q, r') \<and> stream_left r' = [3]) \<and> (\<exists>e r'. bytes 4 (reader_of [1, 2, 3]) = (Inl e, r'))"
proof -
  note s = reader_of_ok [of "[1, 2, 3]"]
  show ?thesis
    using reader_requests_refine_stream [OF s(1), of 2] reader_requests_refine_stream [OF s(1), of 4] s(2,3)
    by (auto simp: READ_BUFFER_SIZE_def)
qed



text \<open>C21: A read of at least \<open>mn\<close> and at most \<open>mx\<close> bytes from a stream, which may be a chain of preloaders over a
  socket, ends, takes that many bytes from the front of what is preloaded and what the socket still delivers, and
  throws exactly if that is less than the minimum. A partial delivery is never an end.\<close>

theorem stream_reads_are_exact:
  assumes "stream_ok s" "mn \<le> mx"
  shows "if mn \<le> length (stream_avail s)
         then \<exists>k s'. stream_read mn mx s = (Inr (k, take k (stream_avail s)), s') \<and> mn \<le> k \<and> k \<le> mx \<and>
             k \<le> length (stream_avail s) \<and> stream_avail s' = drop k (stream_avail s) \<and> stream_ok s'
         else \<exists>e s'. stream_read mn mx s = (Inl e, s') \<and> stream_ok s'"
  by (rule stream_read_contract [OF assms])

definition sample_preloader :: input_stream where
  "sample_preloader = Preloader (preloader_set 0 [1, 2] (new_preloader 0 0)) (Some (TcpStream (closed_tcp\<lparr>incoming := [Received [3], Received [4, 5]]\<rparr>)))"

theorem stream_reads_are_exact_witness:
  "(\<exists>k s'. stream_read 4 5 sample_preloader = (Inr (k, take k [1, 2, 3, 4, 5]), s') \<and> 4 \<le> k) \<and>
   (\<exists>e s'. stream_read 6 9 sample_preloader = (Inl e, s'))"
proof -
  have "stream_ok sample_preloader" "stream_avail sample_preloader = [1, 2, 3, 4, 5]"
    by (simp_all add: sample_preloader_def closed_tcp_def tcp_ok_def preload_ok_def preload_rest_def preloader_set_def
        new_preloader_def tcp_avail_def)
  then show ?thesis using stream_reads_are_exact [of sample_preloader 4 5] stream_reads_are_exact [of sample_preloader 6 9] by auto
qed

text \<open>When a receive fails because the socket was shut down, the blocking read does not throw but reports
  \<open>2 ^ 32 - 1\<close> bytes, although it has stored none.\<close>

theorem shutdown_counts_as_data:
  assumes "0 < mn" "mn \<le> 2 ^ 32 - 1" "incoming t = ShutdownError # evs" "\<not> inputClosed t"
  shows "fst (tcp_read mn mx t) = Inr (2 ^ 32 - 1, [])"
  using recv_shutdown_counts [OF assms(1,2), of mx evs] assms(3,4) by (simp add: tcp_read_def)

theorem shutdown_counts_as_data_witness:
  "fst (tcp_read 1 8192 (closed_tcp\<lparr>incoming := [ShutdownError]\<rparr>)) = Inr (2 ^ 32 - 1, [])"
  by (rule shutdown_counts_as_data) (simp_all add: closed_tcp_def)

section \<open>Platform helpers\<close>

text \<open>C26: The table-driven checksum, whether the call initializes the table or finds it initialized, is the bitwise CRC-32
  of the bytes, and leaves the table valid for the next call.\<close>

theorem crc32_refines_bitwise:
  assumes "crc_table_ok tbl"
  shows "fst (crc32 buf tbl) = crc_reference buf \<and> crc_table_ok (snd (crc32 buf tbl))"
  by (rule crc32_is_reference [OF assms])

theorem crc32_refines_bitwise_witness:
  "fst (crc32 [0x31, 0x32] (replicate 256 0)) = crc_reference [0x31, 0x32]"
  using crc32_refines_bitwise [of "replicate 256 0" "[0x31, 0x32]"] by (simp add: crc_table_ok_def)

text \<open>The branch-free divisibility test and division are the mathematical ones (rounding down, negative dividends
  included) from the smallest multiple of the divisor that the bias covers up.\<close>

theorem fast_division_correct:
  assumes "0 < d" "- ((2 ^ 63 - 1) div uint d * uint d) \<le> sint x"
  shows "(fast_divisible_by x d \<longleftrightarrow> uint d dvd sint x) \<and> fast_divide_by x d = word_of_int (sint x div uint d)"
  using fast_divisible_by_correct [OF assms] fast_divide_by_correct [OF assms] by simp

theorem fast_division_correct_witness:
  "fast_divide_by (- 1500001 :: 64 word) 1000000 = word_of_int (- 2) \<and> \<not> fast_divisible_by (- 1500001 :: 64 word) 1000000"
proof -
  have "sint (- 1500001 :: 64 word) = - 1500001" "uint (1000000 :: 64 word) = 1000000" by simp_all
  then show ?thesis using fast_division_correct [of 1000000 "- 1500001"] by simp
qed

text \<open>The three implementations of the variable length integer, of which the build selects one, leave the same
  bytes written and the same result, for every value and whether or not it fits into the buffer.\<close>

theorem vli_implementations_agree:
  assumes "8 dvd LENGTH('a::len)"
  shows "writeVariableLengthInt_v2 (v :: 'a word) w = writeVariableLengthInt v w \<and>
         fst (writeVariableLengthInt_v1 v w) = fst (writeVariableLengthInt v w) \<and>
         written (snd (writeVariableLengthInt_v1 v w)) = written (snd (writeVariableLengthInt v w))"
  by (rule vli_versions_agree [OF assms])

theorem vli_implementations_agree_witness:
  "written (snd (writeVariableLengthInt_v1 (1000 :: 64 word) sample_writer)) =
   written (snd (writeVariableLengthInt (1000 :: 64 word) sample_writer))"
  using vli_implementations_agree [where ?'a = 64, of 1000 sample_writer] by simp

end
