(* ===== verification/LookupTables.thy ===== *)
theory LookupTables
  imports Protocol
begin

text \<open>
  The lookup tables of \<^verbatim>\<open>util/dynamic_lut.h\<close>, \<^verbatim>\<open>util/bidirectional_lut.h\<close> and
  \<^verbatim>\<open>util/static_array.h\<close>: growable arrays with a default value, the bijective map of symbols and
  numbers, and arrays with a size limit.
\<close>

section \<open>Growable tables with a default value\<close>

text \<open>\<^verbatim>\<open>AbstractLUT\<close> over a vector. The template parameters \<^verbatim>\<open>BASE\<close> and \<^verbatim>\<open>NMAX\<close> are the first
  arguments of the operations that use them; an index is a 64-bit number.\<close>

record 'a lut =
  lutData :: "'a list"
  lutSize :: nat
  lutDefault :: 'a

definition new_lut :: "'a \<Rightarrow> 'a lut" where
  "new_lut d = \<lparr>lutData = [], lutSize = 0, lutDefault = d\<rparr>"

definition lut_at :: "64 word \<Rightarrow> 'a lut \<Rightarrow> 64 word \<Rightarrow> 'a" where
  "lut_at base t index = lutData t ! unat (index - base)"

definition lut_get :: "64 word \<Rightarrow> 'a lut \<Rightarrow> 64 word \<Rightarrow> 'a" where
  "lut_get base t index =
     (let i = unat (index - base) in if i < lutSize t then lutData t ! i else lutDefault t)"

text \<open>The loop over the negative offsets from the new entry fills the entries that the table skipped;
  \<open>zero\<close> is what \<^verbatim>\<open>resize\<close> appends.\<close>

definition lut_set :: "64 word \<Rightarrow> nat \<Rightarrow> 'a \<Rightarrow> 64 word \<Rightarrow> 'a \<Rightarrow> ('a lut, unit) op" where
  "lut_set base nmax zero index v =
     (\<lambda>t. let i = unat (index - base) in
       if i < lutSize t then (Inr (), t\<lparr>lutData := (lutData t)[i := v]\<rparr>)
       else if i < nmax then
         let d1 = take (i + 1) (lutData t) @ replicate (i + 1 - length (lutData t)) zero;
             d2 = fold (\<lambda>k d. d[k := lutDefault t]) [lutSize t..<i] d1
         in (Inr (), t\<lparr>lutData := d2[i := v], lutSize := i + 1\<rparr>)
       else (Inl (OutOfRange ''LUT::set() : index > max. allowed size or is negative''), t))"

definition lut_set_default :: "64 word \<Rightarrow> nat \<Rightarrow> 'a \<Rightarrow> 64 word \<Rightarrow> ('a lut, unit) op" where
  "lut_set_default base nmax zero index = (\<lambda>t. lut_set base nmax zero index (lutDefault t) t)"

definition lut_clear :: "'a lut \<Rightarrow> 'a lut" where
  "lut_clear t = t\<lparr>lutData := [], lutSize := 0\<rparr>"

definition lut_fill :: "'a \<Rightarrow> 'a lut \<Rightarrow> 'a lut" where
  "lut_fill v t = t\<lparr>lutData := map (\<lambda>_. v) (take (lutSize t) (lutData t)) @ drop (lutSize t) (lutData t)\<rparr>"

definition lut_fillBitmask :: "'a::len word \<Rightarrow> 'a word \<Rightarrow> 'a word lut \<Rightarrow> 'a word lut" where
  "lut_fillBitmask m v t =
     (let v' = v AND m in
      t\<lparr>lutData := map (\<lambda>x. (x AND m) OR v') (take (lutSize t) (lutData t)) @ drop (lutSize t) (lutData t)\<rparr>)"

definition lut_setDefaultValue :: "'a \<Rightarrow> 'a lut \<Rightarrow> 'a lut" where
  "lut_setDefaultValue v t = t\<lparr>lutDefault := v\<rparr>"

definition lut_ok :: "nat \<Rightarrow> 'a lut \<Rightarrow> bool" where
  "lut_ok nmax t \<longleftrightarrow> length (lutData t) = lutSize t \<and> lutSize t \<le> nmax"

lemma fold_fill:
  "length d = n \<Longrightarrow> b \<le> n \<Longrightarrow>
     length (fold (\<lambda>k d. d[k := v]) [a..<b] d) = n \<and>
     (\<forall>j < n. fold (\<lambda>k d. d[k := v]) [a..<b] d ! j = (if a \<le> j \<and> j < b then v else d ! j))"
proof (induction b)
  case (Suc b)
  then show ?case by (cases "a \<le> b") (auto simp: nth_list_update not_less_eq_eq less_Suc_eq)
qed simp

text \<open>The contract of a table: a total function that is changed at one point.\<close>

locale table =
  fixes get :: "'t \<Rightarrow> 'k \<Rightarrow> 'v"
    and put :: "'k \<Rightarrow> 'v \<Rightarrow> ('t, unit) op"
    and ok :: "'t \<Rightarrow> bool"
    and allowed :: "'t \<Rightarrow> 'k \<Rightarrow> bool"
  assumes put_allowed: "ok t \<Longrightarrow> allowed t k \<Longrightarrow> \<exists>t'. put k v t = (Inr (), t') \<and> ok t' \<and> (\<forall>j. get t' j = (if j = k then v else get t j))"
    and put_refused: "ok t \<Longrightarrow> \<not> allowed t k \<Longrightarrow> \<exists>e. put k v t = (Inl e, t)"
begin

lemma put_outcome:
  assumes "ok t" "put k v t = (x, t')"
  shows "ok t' \<and> (case x of Inr _ \<Rightarrow> allowed t k \<and> get t' k = v | Inl _ \<Rightarrow> \<not> allowed t k \<and> t' = t)"
proof (cases "allowed t k")
  case True
  with put_allowed [OF assms(1) True, of v] assms(2) show ?thesis by auto
next
  case False
  with put_refused [OF assms(1) False, of v] assms show ?thesis by auto
qed

lemma put_other: "ok t \<Longrightarrow> put k v t = (x, t') \<Longrightarrow> j \<noteq> k \<Longrightarrow> get t' j = get t j"
  using put_allowed [of t k v] put_refused [of t k v] by (cases "allowed t k") auto

end

lemma lut_set_ok:
  assumes "lut_ok nmax t" "nmax \<le> 2 ^ 64" "unat (k - base) < nmax"
  shows "\<exists>t'. lut_set base nmax zero k v t = (Inr (), t') \<and> lut_ok nmax t' \<and>
    (\<forall>j. lut_get base t' j = (if j = k then v else lut_get base t j)) \<and> lutDefault t' = lutDefault t"
proof -
  let ?i = "unat (k - base)"
  have l: "length (lutData t) = lutSize t" "lutSize t \<le> nmax" using assms(1) by (simp_all add: lut_ok_def)
  have inj: "unat (j - base) = ?i \<longleftrightarrow> j = k" for j by (simp add: word_unat_eq_iff [symmetric])
  show ?thesis
  proof (cases "?i < lutSize t")
    case True
    let ?t = "t\<lparr>lutData := (lutData t)[?i := v]\<rparr>"
    have "lut_get base ?t j = (if j = k then v else lut_get base t j)" for j
      using True l inj [of j] by (cases "j = k") (auto simp: lut_get_def Let_def nth_list_update)
    moreover have "lut_set base nmax zero k v t = (Inr (), ?t)" "lut_ok nmax ?t"
      using True l by (simp_all add: lut_set_def lut_ok_def Let_def)
    ultimately show ?thesis by simp
  next
    case False
    let ?d1 = "take (?i + 1) (lutData t) @ replicate (?i + 1 - length (lutData t)) zero"
    let ?d2 = "fold (\<lambda>k d. d[k := lutDefault t]) [lutSize t..<?i] ?d1"
    have d1: "length ?d1 = ?i + 1" "j < lutSize t \<Longrightarrow> ?d1 ! j = lutData t ! j" for j
      using False l by (auto simp: nth_append)
    have "?i \<le> ?i + 1" by simp
    note f = fold_fill [OF d1(1) this, of "lutDefault t" "lutSize t"]
    have run: "lut_set base nmax zero k v t = (Inr (), t\<lparr>lutData := ?d2[?i := v], lutSize := ?i + 1\<rparr>)"
      using False assms(3) by (simp add: lut_set_def Let_def)
    have "lut_get base (t\<lparr>lutData := ?d2[?i := v], lutSize := ?i + 1\<rparr>) j = (if j = k then v else lut_get base t j)" for j
    proof -
      consider "unat (j - base) = ?i" | "unat (j - base) < lutSize t" | "lutSize t \<le> unat (j - base)" "unat (j - base) < ?i"
        | "?i < unat (j - base)" by linarith
      then show ?thesis
      proof cases
        case 1
        then show ?thesis using inj [of j] f by (simp add: lut_get_def Let_def)
      next
        case 2
        then show ?thesis using inj [of j] f d1(2) False by (simp add: lut_get_def Let_def nth_list_update)
      next
        case 3
        then show ?thesis using inj [of j] f by (simp add: lut_get_def Let_def nth_list_update)
      next
        case 4
        then show ?thesis using inj [of j] False by (simp add: lut_get_def Let_def)
      qed
    qed
    then show ?thesis using run f assms(3) by (simp add: lut_ok_def)
  qed
qed

lemma lut_set_refused:
  assumes "lut_ok nmax t" "\<not> unat (k - base) < nmax"
  shows "lut_set base nmax zero k v t = (Inl (OutOfRange ''LUT::set() : index > max. allowed size or is negative''), t)"
  using assms by (simp add: lut_set_def lut_ok_def Let_def)

interpretation typeIds: table "lut_get 0" "lut_set 0 0x4000 0" "lut_ok 0x4000" "\<lambda>t k. unat (k - 0) < 0x4000"
  by unfold_locales (use lut_set_ok [of "0x4000" _ _ 0] in \<open>fastforce\<close>, use lut_set_refused [of "0x4000" _ _ 0] in \<open>fastforce\<close>)


section \<open>The bijective map\<close>

text \<open>\<^verbatim>\<open>BiLUT<std::string, uint32_t, 0>\<close>. A null pointer in the vector is None.\<close>

record bilut =
  i2s :: "string option list"
  i2sSize :: nat
  biSize :: nat
  s2i :: "string \<rightharpoonup> 32 word"

definition new_bilut :: bilut where
  "new_bilut = \<lparr>i2s = replicate 128 None, i2sSize = 0, biSize = 0, s2i = Map.empty\<rparr>"

definition invalidId :: "32 word" where
  "invalidId = - 1"

definition bilut_name :: "bilut \<Rightarrow> nat \<Rightarrow> string option" where
  "bilut_name m i = i2s m ! i"

definition bilut_id :: "bilut \<Rightarrow> string \<Rightarrow> 32 word" where
  "bilut_id m s = (case s2i m s of None \<Rightarrow> invalidId | Some i \<Rightarrow> i)"

definition bilut_contains_id :: "bilut \<Rightarrow> nat \<Rightarrow> bool" where
  "bilut_contains_id m i \<longleftrightarrow> i < i2sSize m \<and> bilut_name m i \<noteq> None"

definition bilut_contains_name :: "bilut \<Rightarrow> string \<Rightarrow> bool" where
  "bilut_contains_name m s \<longleftrightarrow> invalidId \<noteq> bilut_id m s"

definition bilut_add :: "32 word \<Rightarrow> string \<Rightarrow> (bilut, bool) op" where
  "bilut_add integerId key =
     (\<lambda>m0. let index = unat integerId;
          m = (if i2sSize m0 \<le> index
               then m0\<lparr>i2s := take (index + 1) (i2s m0) @ replicate (index + 1 - length (i2s m0)) None, i2sSize := index + 1\<rparr>
               else m0);
          s = bilut_name m index; i = bilut_id m key
      in if s \<noteq> None \<or> invalidId \<noteq> i
         then (if i = integerId \<and> s = Some key then (Inr False, m)
               else (Inl (RuntimeError ''Attempt to register BiLUT pair with non-unique values''), m))
         else (Inr True, m\<lparr>i2s := (i2s m)[index := Some key], biSize := biSize m + 1, s2i := (s2i m)(key \<mapsto> integerId)\<rparr>))"

definition bilut_clear :: "bilut \<Rightarrow> bilut" where
  "bilut_clear m = m\<lparr>s2i := Map.empty, i2s := [], i2sSize := 0, biSize := 0\<rparr>"

text \<open>Both directions agree. The vector is longer than \<open>i2sSize\<close> only before the first addition; an id
  equal to \<^verbatim>\<open>invalidId\<close> is not supposed to be added.\<close>

definition bilut_ok :: "bilut \<Rightarrow> bool" where
  "bilut_ok m \<longleftrightarrow> (length (i2s m) = i2sSize m \<or> i2sSize m = 0 \<and> set (i2s m) \<subseteq> {None}) \<and>
     (\<forall>s i. s2i m s = Some i \<longleftrightarrow> unat i < i2sSize m \<and> i2s m ! unat i = Some s) \<and>
     biSize m = card (dom (s2i m)) \<and> (\<forall>s. s2i m s \<noteq> Some invalidId) \<and>
     i2sSize m \<le> 2 ^ 32 \<and> finite (dom (s2i m))"


lemma bilut_okD:
  assumes "bilut_ok m"
  shows "length (i2s m) = i2sSize m \<or> i2sSize m = 0 \<and> set (i2s m) \<subseteq> {None}"
    "\<And>s i. s2i m s = Some i \<longleftrightarrow> unat i < i2sSize m \<and> i2s m ! unat i = Some s"
    "biSize m = card (dom (s2i m))" "\<And>s. s2i m s \<noteq> Some invalidId" "i2sSize m \<le> 2 ^ 32" "finite (dom (s2i m))"
  using assms by (auto simp: bilut_ok_def)

lemma bilut_new_ok: "bilut_ok new_bilut"
  by (simp add: bilut_ok_def new_bilut_def)

lemma bilut_clear_ok: "bilut_ok (bilut_clear m)"
  by (simp add: bilut_ok_def bilut_clear_def)

text \<open>The vector after the growth that precedes every addition.\<close>

definition bilut_grown :: "bilut \<Rightarrow> nat \<Rightarrow> bilut" where
  "bilut_grown m index =
     (if i2sSize m \<le> index
      then m\<lparr>i2s := take (index + 1) (i2s m) @ replicate (index + 1 - length (i2s m)) None, i2sSize := index + 1\<rparr>
      else m)"

lemma bilut_grown_ok:
  assumes "bilut_ok m" "index < 2 ^ 32"
  shows "bilut_ok (bilut_grown m index)" "length (i2s (bilut_grown m index)) = i2sSize (bilut_grown m index)"
    "index < i2sSize (bilut_grown m index)" "s2i (bilut_grown m index) = s2i m"
proof -
  note d = bilut_okD [OF assms(1)]
  let ?g = "take (index + 1) (i2s m) @ replicate (index + 1 - length (i2s m)) None"
  have l: "length ?g = index + 1" by simp
  have old: "?g ! j = (if j < i2sSize m then i2s m ! j else None)" if "i2sSize m \<le> index" "j \<le> index" for j
    using d(1)
  proof
    assume "length (i2s m) = i2sSize m"
    then show ?thesis using that by (auto simp: nth_append)
  next
    assume z: "i2sSize m = 0 \<and> set (i2s m) \<subseteq> {None}"
    have "set ?g \<subseteq> {None}" using z by (auto dest: in_set_takeD)
    then have "?g ! j = None" using l that(2) nth_mem [of j ?g] by auto
    then show ?thesis using z by simp
  qed
  show "s2i (bilut_grown m index) = s2i m" by (simp add: bilut_grown_def)
  show "index < i2sSize (bilut_grown m index)" by (auto simp: bilut_grown_def)
  show "length (i2s (bilut_grown m index)) = i2sSize (bilut_grown m index)"
    using d(1) by (auto simp: bilut_grown_def)
  show "bilut_ok (bilut_grown m index)"
  proof (cases "i2sSize m \<le> index")
    case False
    then show ?thesis using assms(1) by (simp add: bilut_grown_def)
  next
    case True
    have "s2i m s = Some i \<longleftrightarrow> unat i < index + 1 \<and> ?g ! unat i = Some s" for s i
    proof (cases "unat i \<le> index")
      case le: True
      show ?thesis unfolding d(2) old [OF True le] using True le by auto
    next
      case False
      then show ?thesis unfolding d(2) using True by auto
    qed
    moreover have "bilut_grown m index = m\<lparr>i2s := ?g, i2sSize := index + 1\<rparr>" using True by (simp add: bilut_grown_def)
    ultimately show ?thesis using d(3-6) assms(2) l by (simp add: bilut_ok_def)
  qed
qed

lemma bilut_add_run:
  "bilut_add k key m0 =
     (let m = bilut_grown m0 (unat k); s = bilut_name m (unat k); i = bilut_id m key
      in if s \<noteq> None \<or> invalidId \<noteq> i
         then (if i = k \<and> s = Some key then (Inr False, m)
               else (Inl (RuntimeError ''Attempt to register BiLUT pair with non-unique values''), m))
         else (Inr True, m\<lparr>i2s := (i2s m)[unat k := Some key], biSize := biSize m + 1, s2i := (s2i m)(key \<mapsto> k)\<rparr>))"
  by (simp add: bilut_add_def bilut_grown_def Let_def)

lemma bilut_id_eq: "bilut_ok m \<Longrightarrow> k \<noteq> invalidId \<Longrightarrow> bilut_id m key = k \<longleftrightarrow> s2i m key = Some k"
  by (auto simp: bilut_id_def split: option.splits)

lemma bilut_id_invalid: "bilut_ok m \<Longrightarrow> bilut_id m key = invalidId \<longleftrightarrow> s2i m key = None"
  by (auto simp: bilut_id_def bilut_okD(4) split: option.splits)

lemma bilut_add_spec:
  assumes ok: "bilut_ok m" and k: "k \<noteq> invalidId"
  shows "\<exists>m'. bilut_ok m' \<and>
    (if s2i m key = Some k then bilut_add k key m = (Inr False, m') \<and> s2i m' = s2i m
     else if s2i m key = None \<and> k \<notin> ran (s2i m) then bilut_add k key m = (Inr True, m') \<and> s2i m' = (s2i m)(key \<mapsto> k)
     else (\<exists>e. bilut_add k key m = (Inl e, m')) \<and> s2i m' = s2i m)"
proof -
  have lt: "unat k < 2 ^ 32" using unsigned_less [of k, where ?'a = nat] by simp
  define g where "g = bilut_grown m (unat k)"
  note gr = bilut_grown_ok [OF ok lt, folded g_def]
  note d = bilut_okD [OF gr(1)]
  have name: "bilut_name g (unat k) = Some s \<longleftrightarrow> s2i m s = Some k" for s
    using d(2) [of s k] gr(3,4) by (simp add: bilut_name_def)
  have run: "bilut_add k key m =
     (if bilut_name g (unat k) \<noteq> None \<or> invalidId \<noteq> bilut_id g key
      then (if bilut_id g key = k \<and> bilut_name g (unat k) = Some key then (Inr False, g)
            else (Inl (RuntimeError ''Attempt to register BiLUT pair with non-unique values''), g))
      else (Inr True, g\<lparr>i2s := (i2s g)[unat k := Some key], biSize := biSize g + 1, s2i := (s2i g)(key \<mapsto> k)\<rparr>))"
    by (simp only: bilut_add_run Let_def g_def)
  have ids: "bilut_id g key = k \<longleftrightarrow> s2i m key = Some k" "invalidId = bilut_id g key \<longleftrightarrow> s2i m key = None"
    using bilut_id_eq [OF gr(1) k] bilut_id_invalid [OF gr(1), of key] gr(4) by auto
  have free: "bilut_name g (unat k) = None \<longleftrightarrow> k \<notin> ran (s2i m)"
    using name by (cases "bilut_name g (unat k)") (auto simp: ran_def)
  show ?thesis
  proof (cases "s2i m key = None \<and> k \<notin> ran (s2i m)")
    case True
    let ?m = "g\<lparr>i2s := (i2s g)[unat k := Some key], biSize := biSize g + 1, s2i := (s2i g)(key \<mapsto> k)\<rparr>"
    have "((s2i g)(key \<mapsto> k)) s = Some i \<longleftrightarrow> unat i < i2sSize g \<and> (i2s g)[unat k := Some key] ! unat i = Some s" for s i
    proof (cases "i = k")
      case eq: True
      have "s2i g s \<noteq> Some k" using True gr(4) by (auto simp: ran_def)
      then show ?thesis using eq gr(2,3) by auto
    next
      case ne: False
      then have "unat i \<noteq> unat k" by (simp add: word_unat_eq_iff)
      then show ?thesis using d(2) [of s i] ne True gr(4) by auto
    qed
    moreover have "card (dom ((s2i g)(key \<mapsto> k))) = biSize g + 1"
      using d(3,6) True gr(4) by (simp add: card_insert_if domIff)
    moreover have "((s2i g)(key \<mapsto> k)) s \<noteq> Some invalidId" for s using d(4) k by simp
    ultimately have "bilut_ok ?m" using gr(2) d(5,6) by (simp add: bilut_ok_def del: fun_upd_apply)
    moreover have "bilut_add k key m = (Inr True, ?m)" using True run ids(2) free by simp
    ultimately show ?thesis using True gr(4) by (intro exI [of _ ?m]) simp
  next
    case False
    then have c: "bilut_name g (unat k) \<noteq> None \<or> invalidId \<noteq> bilut_id g key" using ids(2) free by blast
    show ?thesis
    proof (cases "s2i m key = Some k")
      case eq: True
      have "bilut_add k key m = (Inr False, g)" using run c eq ids(1) name [of key] by simp
      then show ?thesis using eq gr(1,4) by (intro exI [of _ g]) simp
    next
      case ne: False
      have "\<exists>e. bilut_add k key m = (Inl e, g)" using run c ne ids(1) by simp
      then show ?thesis using gr(1,4) by (intro exI [of _ g]) (simp only: if_not_P [OF ne] if_not_P [OF False] simp_thms)
    qed
  qed
qed

text \<open>The contract that the symbol tables rely on: a partial injection from names to ids.\<close>

locale name_map =
  fixes lookup :: "'m \<Rightarrow> 'n \<rightharpoonup> 'k"
    and add :: "'k \<Rightarrow> 'n \<Rightarrow> ('m, bool) op"
    and ok :: "'m \<Rightarrow> bool"
    and valid :: "'k \<Rightarrow> bool"
  assumes injective: "ok m \<Longrightarrow> lookup m s = Some k \<Longrightarrow> lookup m t = Some k \<Longrightarrow> s = t"
    and add_fresh: "ok m \<Longrightarrow> valid k \<Longrightarrow> lookup m s = None \<Longrightarrow> k \<notin> ran (lookup m) \<Longrightarrow>
      \<exists>m'. add k s m = (Inr True, m') \<and> ok m' \<and> lookup m' = (lookup m)(s \<mapsto> k)"
    and add_again: "ok m \<Longrightarrow> valid k \<Longrightarrow> lookup m s = Some k \<Longrightarrow> \<exists>m'. add k s m = (Inr False, m') \<and> ok m' \<and> lookup m' = lookup m"
    and add_conflict: "ok m \<Longrightarrow> valid k \<Longrightarrow> lookup m s \<noteq> Some k \<Longrightarrow> lookup m s \<noteq> None \<or> k \<in> ran (lookup m) \<Longrightarrow>
      \<exists>e m'. add k s m = (Inl e, m') \<and> ok m' \<and> lookup m' = lookup m"
begin

lemma add_keeps_ok: "ok m \<Longrightarrow> valid k \<Longrightarrow> ok (snd (add k s m))"
  using add_fresh [of m k s] add_again [of m k s] add_conflict [of m k s]
  by (cases "lookup m s = Some k"; cases "lookup m s = None"; cases "k \<in> ran (lookup m)") auto

lemma add_extends: "ok m \<Longrightarrow> valid k \<Longrightarrow> lookup m \<subseteq>\<^sub>m lookup (snd (add k s m))"
  using add_fresh [of m k s] add_again [of m k s] add_conflict [of m k s]
  by (cases "lookup m s = Some k"; cases "lookup m s = None"; cases "k \<in> ran (lookup m)") (auto simp: map_le_def)

lemma add_registers: "ok m \<Longrightarrow> valid k \<Longrightarrow> add k s m = (Inr b, m') \<Longrightarrow> lookup m' s = Some k"
  using add_fresh [of m k s] add_again [of m k s] add_conflict [of m k s]
  by (cases "lookup m s = Some k"; cases "lookup m s = None"; cases "k \<in> ran (lookup m)") auto

end

interpretation symbols: name_map s2i bilut_add bilut_ok "\<lambda>k. k \<noteq> invalidId"
proof unfold_locales
  fix m s t k assume "bilut_ok m" "s2i m s = Some k" "s2i m t = Some k"
  then show "s = t" by (simp add: bilut_okD(2))
next
  fix m k s assume a: "bilut_ok m" "k \<noteq> invalidId"
  note spec = bilut_add_spec [OF a, of s]
  show "\<exists>m'. bilut_add k s m = (Inr True, m') \<and> bilut_ok m' \<and> s2i m' = (s2i m)(s \<mapsto> k)"
    if "s2i m s = None" "k \<notin> ran (s2i m)" using spec that by auto
  show "\<exists>m'. bilut_add k s m = (Inr False, m') \<and> bilut_ok m' \<and> s2i m' = s2i m"
    if "s2i m s = Some k" using spec that by auto
  show "\<exists>e m'. bilut_add k s m = (Inl e, m') \<and> bilut_ok m' \<and> s2i m' = s2i m"
    if "s2i m s \<noteq> Some k" "s2i m s \<noteq> None \<or> k \<in> ran (s2i m)"
  proof -
    have "\<not> (s2i m s = None \<and> k \<notin> ran (s2i m))" using that(2) by blast
    from spec [unfolded if_not_P [OF that(1)] if_not_P [OF this]] show ?thesis by blast
  qed
qed

section \<open>Arrays with a size limit\<close>

text \<open>\<^verbatim>\<open>static_array\<close>: the list has the entries below \<^verbatim>\<open>n_\<close>.\<close>

definition sarray_push :: "nat \<Rightarrow> 'a \<Rightarrow> ('a list, unit) op" where
  "sarray_push sz x =
     (\<lambda>xs. if length xs < sz then (Inr (), xs @ [x])
           else (Inl (OutOfRange ''static_array.add(): size limit reached''), xs))"

definition sarray_resize :: "nat \<Rightarrow> 'a \<Rightarrow> nat \<Rightarrow> ('a list, unit) op" where
  "sarray_resize sz filler n =
     (\<lambda>xs. if n \<le> sz then (Inr (), take n xs @ replicate (n - length xs) filler)
           else (Inl (OutOfRange ''new static_array size is out of range''), xs))"

definition sarray_clear :: "'a list \<Rightarrow> 'a list" where
  "sarray_clear xs = []"

end
