(* ===== verification/SymbolTables.thy ===== *)
theory SymbolTables
  imports LookupTables
begin

text \<open>
  The symbol translator (\<^verbatim>\<open>tickdb/symbol_translator.h\<close>, \<^verbatim>\<open>tickdb/symbol_translator.cpp\<close>): the
  instruments and the message descriptors of a connection, with the list of the descriptors
  of each type name.
\<close>

section \<open>State\<close>

definition EMPTY_MSG_TYPE_ID :: "32 word" where [layout_defs]: "EMPTY_MSG_TYPE_ID = - 1"
definition emptyEntityId :: "32 word" where [layout_defs]: "emptyEntityId = - 1"
definition emptyStreamId :: int where [layout_defs]: "emptyStreamId = - 1"

record message_descriptor =
  descId :: "32 word"
  nextSameType :: "32 word"
  typeName :: string
  guid :: string
  descSchema :: string

text \<open>\<open>typeList\<close> has pointers to descriptors that the array of descriptors owns: here their ids.\<close>

record symbol_translator =
  instruments :: bilut
  messageDescriptors :: "message_descriptor list"
  typeList :: "32 word list"
  typeIndex :: "string \<rightharpoonup> 32 word"
  streamIndex :: "string \<rightharpoonup> 32 word"
  streamKeys :: "string option lut"
  typeIdLocal2Remote :: "32 word lut"

definition new_symbol_translator :: symbol_translator where
  "new_symbol_translator = \<lparr>instruments = new_bilut, messageDescriptors = [], typeList = [], typeIndex = Map.empty,
     streamIndex = Map.empty, streamKeys = new_lut None, typeIdLocal2Remote = new_lut (- 1)\<rparr>"

section \<open>Queries\<close>

definition getInstrument :: "symbol_translator \<Rightarrow> nat \<Rightarrow> string option" where
  "getInstrument t entityId = bilut_name (instruments t) entityId"

definition isRegisteredInstrumentId :: "symbol_translator \<Rightarrow> nat \<Rightarrow> bool" where
  "isRegisteredInstrumentId t entityId = bilut_contains_id (instruments t) entityId"

definition findInstrument :: "symbol_translator \<Rightarrow> string \<Rightarrow> 32 word" where
  "findInstrument t s = bilut_id (instruments t) s"

definition isValidMsgDescId :: "32 word \<Rightarrow> bool" where
  "isValidMsgDescId msgDescId \<longleftrightarrow> EMPTY_MSG_TYPE_ID \<noteq> msgDescId"

definition isRegisteredMsgDescId :: "symbol_translator \<Rightarrow> nat \<Rightarrow> bool" where
  "isRegisteredMsgDescId t msgDescId \<longleftrightarrow> msgDescId < length (messageDescriptors t)"

definition isRegisteredStreamId :: "symbol_translator \<Rightarrow> nat \<Rightarrow> bool" where
  "isRegisteredStreamId t streamId \<longleftrightarrow> streamId < lutSize (streamKeys t)"

definition isRegisteredLocalTypeId :: "symbol_translator \<Rightarrow> 64 word \<Rightarrow> bool" where
  "isRegisteredLocalTypeId t localTypeId \<longleftrightarrow> isValidMsgDescId (lut_get 0 (typeIdLocal2Remote t) localTypeId)"

definition getMessageDescriptor :: "symbol_translator \<Rightarrow> nat \<Rightarrow> message_descriptor option" where
  "getMessageDescriptor t i = (if i < length (messageDescriptors t) then Some (messageDescriptors t ! i) else None)"

definition getMessageTypeName :: "symbol_translator \<Rightarrow> nat \<Rightarrow> string option" where
  "getMessageTypeName t i = (if i < length (messageDescriptors t) then Some (typeName (messageDescriptors t ! i)) else None)"

definition getMessageSchema :: "symbol_translator \<Rightarrow> nat \<Rightarrow> string option" where
  "getMessageSchema t i = (if i < length (messageDescriptors t) then Some (descSchema (messageDescriptors t ! i)) else None)"

definition findMsgDescByType :: "symbol_translator \<Rightarrow> string \<Rightarrow> 32 word" where
  "findMsgDescByType t s = (case typeIndex t s of None \<Rightarrow> EMPTY_MSG_TYPE_ID | Some i \<Rightarrow> i)"

definition findStreamId :: "symbol_translator \<Rightarrow> string \<Rightarrow> int" where
  "findStreamId t s = (case streamIndex t s of None \<Rightarrow> emptyStreamId | Some i \<Rightarrow> sint i)"

section \<open>Changes\<close>

definition clear_tables :: "symbol_translator \<Rightarrow> symbol_translator" where
  "clear_tables t = t\<lparr>instruments := bilut_clear (instruments t),
     typeIdLocal2Remote := lut_clear (lut_setDefaultValue EMPTY_MSG_TYPE_ID (typeIdLocal2Remote t)),
     typeIndex := Map.empty, streamIndex := Map.empty,
     messageDescriptors := sarray_clear (messageDescriptors t),
     streamKeys := lut_clear (lut_setDefaultValue None (streamKeys t))\<rparr>"

definition registerLocalMessageType :: "32 word \<Rightarrow> string \<Rightarrow> (symbol_translator, 32 word) op" where
  "registerLocalMessageType newId name =
     (if 0x4000 \<le> unat newId then throw (RuntimeError ''registerMessageType: typeId is too big'')
      else bnd (gets (\<lambda>t. (findMsgDescByType t name, isRegisteredMsgDescId t (unat (findMsgDescByType t name))))) (\<lambda>(i, known).
        if \<not> known then throw (RuntimeError ''registerMessageType: type name not found'')
        else (\<lambda>t. case lut_set 0 0x4000 0 (ucast newId) i (typeIdLocal2Remote t) of
               (Inl e, l) \<Rightarrow> (Inl e, t\<lparr>typeIdLocal2Remote := l\<rparr>)
             | (Inr _, l) \<Rightarrow> (Inr newId, t\<lparr>typeIdLocal2Remote := l\<rparr>))))"

definition registerMessageDescriptor :: "32 word \<Rightarrow> string \<Rightarrow> string \<Rightarrow> string \<Rightarrow> (symbol_translator, unit) op" where
  "registerMessageDescriptor msgDescId name g s =
     (if 0x100 \<le> msgDescId then throw (RuntimeError ''registerRemoteMessageType: Message Descriptor Id is too big'')
      else (\<lambda>t.
        if unat msgDescId \<noteq> length (messageDescriptors t)
        then (Inl (RuntimeError ''registerRemoteMessageType(): ERROR: invalid registration order''), t)
        else
          let previous = findMsgDescByType t name;
              d = \<lparr>descId = msgDescId, nextSameType = previous, typeName = name, guid = g, descSchema = s\<rparr>
          in case sarray_push 0x100 d (messageDescriptors t) of
               (Inl e, ds) \<Rightarrow> (Inl e, t\<lparr>messageDescriptors := ds\<rparr>)
             | (Inr _, ds) \<Rightarrow>
                 let t1 = t\<lparr>messageDescriptors := ds, typeIndex := (typeIndex t)(name \<mapsto> msgDescId)\<rparr>
                 in if EMPTY_MSG_TYPE_ID = previous
                    then (case sarray_push 0x100 msgDescId (typeList t1) of (x, l) \<Rightarrow> (x, t1\<lparr>typeList := l\<rparr>))
                    else (Inr (), t1)))"

definition registerInstrument :: "32 word \<Rightarrow> string \<Rightarrow> (symbol_translator, bool) op" where
  "registerInstrument entityId instr =
     (\<lambda>t. let prev = bilut_id (instruments t) instr in
       if prev \<noteq> entityId
       then (if prev \<noteq> invalidId then (Inl (RuntimeError ''InstrumentId cache out of sync''), t)
             else case bilut_add entityId instr (instruments t) of
                    (Inl e, m) \<Rightarrow> (Inl e, t\<lparr>instruments := m\<rparr>)
                  | (Inr _, m) \<Rightarrow> (Inr True, t\<lparr>instruments := m\<rparr>))
       else (Inr False, t))"

section \<open>The invariant\<close>

text \<open>The descriptors with a given type name before the \<open>n\<close>-th, and the last of them.\<close>

definition same_type :: "message_descriptor list \<Rightarrow> string \<Rightarrow> nat \<Rightarrow> nat list" where
  "same_type ds name n = filter (\<lambda>i. typeName (ds ! i) = name) [0..<n]"

definition last_of_type :: "message_descriptor list \<Rightarrow> string \<Rightarrow> nat \<Rightarrow> 32 word" where
  "last_of_type ds name n = (if same_type ds name n = [] then EMPTY_MSG_TYPE_ID else of_nat (last (same_type ds name n)))"

definition descriptors_ok :: "symbol_translator \<Rightarrow> bool" where
  "descriptors_ok t \<longleftrightarrow> length (messageDescriptors t) \<le> 0x100 \<and>
     (\<forall>i < length (messageDescriptors t). descId (messageDescriptors t ! i) = of_nat i \<and>
        nextSameType (messageDescriptors t ! i) = last_of_type (messageDescriptors t) (typeName (messageDescriptors t ! i)) i) \<and>
     (\<forall>name. findMsgDescByType t name = last_of_type (messageDescriptors t) name (length (messageDescriptors t)))"

definition tables_ok :: "symbol_translator \<Rightarrow> bool" where
  "tables_ok t \<longleftrightarrow> bilut_ok (instruments t) \<and> descriptors_ok t \<and> lut_ok 0x4000 (typeIdLocal2Remote t) \<and>
     lutDefault (typeIdLocal2Remote t) = EMPTY_MSG_TYPE_ID"

text \<open>Following the links from a descriptor.\<close>

fun type_chain :: "message_descriptor list \<Rightarrow> nat \<Rightarrow> 32 word \<Rightarrow> nat list" where
  "type_chain ds 0 i = []"
| "type_chain ds (Suc n) i = (if i = EMPTY_MSG_TYPE_ID then [] else unat i # type_chain ds n (nextSameType (ds ! unat i)))"

lemma same_type_Suc: "same_type ds name (Suc n) = same_type ds name n @ (if typeName (ds ! n) = name then [n] else [])"
  by (simp add: same_type_def)

lemma same_type_append: "n \<le> length ds \<Longrightarrow> same_type (ds @ es) name n = same_type ds name n"
  unfolding same_type_def by (rule filter_cong) (auto simp: nth_append)

lemma same_type_less: "i \<in> set (same_type ds name n) \<Longrightarrow> i < n \<and> typeName (ds ! i) = name"
  by (auto simp: same_type_def)

lemma same_type_last:
  assumes "same_type ds name n \<noteq> []"
  defines "l \<equiv> last (same_type ds name n)"
  shows "l < n" "typeName (ds ! l) = name" "same_type ds name n = same_type ds name l @ [l]"
proof -
  have "l \<in> set (same_type ds name n)" using assms by simp
  then show "l < n" "typeName (ds ! l) = name" using same_type_less by blast+
  show "same_type ds name n = same_type ds name l @ [l]"
    using assms(1) unfolding l_def
  proof (induction n)
    case (Suc n)
    then show ?case by (cases "typeName (ds ! n) = name") (auto simp: same_type_Suc)
  qed (simp add: same_type_def)
qed

lemma small_not_empty: "n < 0x100 \<Longrightarrow> (of_nat n :: 32 word) \<noteq> EMPTY_MSG_TYPE_ID" "n < 0x100 \<Longrightarrow> unat (of_nat n :: 32 word) = n"
proof -
  assume n: "n < 0x100"
  then show u: "unat (of_nat n :: 32 word) = n" by (simp add: unsigned_of_nat take_bit_nat_eq_self)
  show "(of_nat n :: 32 word) \<noteq> EMPTY_MSG_TYPE_ID"
  proof
    assume "(of_nat n :: 32 word) = EMPTY_MSG_TYPE_ID"
    then have "n = unat (EMPTY_MSG_TYPE_ID)" using u by simp
    moreover have "unat EMPTY_MSG_TYPE_ID = 4294967295" by (simp add: EMPTY_MSG_TYPE_ID_def unsigned_minus_1_eq_mask mask_eq_exp_minus_1)
    ultimately show False using n by simp
  qed
qed

lemma type_chain_complete:
  assumes "descriptors_ok t" "n \<le> length (messageDescriptors t)" "n < k"
  shows "type_chain (messageDescriptors t) k (last_of_type (messageDescriptors t) name n) = rev (same_type (messageDescriptors t) name n)"
  using assms(2,3)
proof (induction k arbitrary: n)
  case (Suc k)
  let ?ds = "messageDescriptors t"
  have len: "length ?ds \<le> 0x100" using assms(1) by (simp add: descriptors_ok_def)
  show ?case
  proof (cases "same_type ?ds name n = []")
    case True
    then show ?thesis by (simp add: last_of_type_def)
  next
    case False
    define l where "l = last (same_type ?ds name n)"
    note l = same_type_last [OF False, folded l_def]
    have s: "l < 0x100" using l(1) Suc.prems(1) len by simp
    have "nextSameType (?ds ! l) = last_of_type ?ds name l" using assms(1) l(1,2) Suc.prems(1) by (simp add: descriptors_ok_def)
    moreover have "type_chain ?ds k (last_of_type ?ds name l) = rev (same_type ?ds name l)"
      using Suc.IH [of l] l(1) Suc.prems by simp
    ultimately show ?thesis
      using False small_not_empty [OF s] l(3) by (simp add: last_of_type_def l_def [symmetric])
  qed
qed simp

lemma last_of_type_append: "n \<le> length ds \<Longrightarrow> last_of_type (ds @ es) name n = last_of_type ds name n"
  by (simp add: last_of_type_def same_type_append)

lemma registerMessageDescriptor_ok:
  assumes "descriptors_ok t" "registerMessageDescriptor i name g s t = (x, t')"
  shows "descriptors_ok t' \<and> instruments t' = instruments t \<and> typeIdLocal2Remote t' = typeIdLocal2Remote t \<and>
    (x = Inr () \<longrightarrow> messageDescriptors t' = messageDescriptors t @
       [\<lparr>descId = i, nextSameType = findMsgDescByType t name, typeName = name, guid = g, descSchema = s\<rparr>])"
proof -
  let ?ds = "messageDescriptors t"
  let ?d = "\<lparr>descId = i, nextSameType = findMsgDescByType t name, typeName = name, guid = g, descSchema = s\<rparr>"
  show ?thesis
  proof (cases "i < 0x100 \<and> unat i = length ?ds")
    case False
    then have "t' = t" "x \<noteq> Inr ()"
      using assms(2) by (auto simp: registerMessageDescriptor_def not_le split: if_splits)
    then show ?thesis using assms(1) by simp
  next
    case True
    have "i = of_nat (unat i)" by simp
    then have ui: "unat i < 0x100" "i = of_nat (length ?ds)" using True by (simp_all only: word_less_nat_alt) simp
    let ?t1 = "t\<lparr>messageDescriptors := ?ds @ [?d], typeIndex := (typeIndex t)(name \<mapsto> i)\<rparr>"
    have "t' = ?t1\<lparr>typeList := typeList t'\<rparr>"
      using assms(2) True ui
      by (auto simp: registerMessageDescriptor_def sarray_push_def Let_def not_le [symmetric] split: if_splits)
    then obtain l where t': "t' = ?t1\<lparr>typeList := l\<rparr>" by blast
    have app: "last_of_type (?ds @ [?d]) n k = last_of_type ?ds n k" if "k \<le> length ?ds" for n k
      using that by (rule last_of_type_append)
    have old: "findMsgDescByType t n = last_of_type ?ds n (length ?ds)" for n using assms(1) by (simp add: descriptors_ok_def)
    have fm: "findMsgDescByType t' n = last_of_type (?ds @ [?d]) n (Suc (length ?ds))" for n
      using old [of n] app [of "length ?ds" n] ui(2) t'
      by (auto simp: findMsgDescByType_def last_of_type_def same_type_Suc same_type_append)
    have "descriptors_ok t'"
      unfolding descriptors_ok_def
    proof (intro conjI allI impI)
      show "length (messageDescriptors t') \<le> 0x100" using True ui t' by simp
      show "findMsgDescByType t' n = last_of_type (messageDescriptors t') n (length (messageDescriptors t'))" for n
        using fm t' by simp
      fix j assume j: "j < length (messageDescriptors t')"
      show "descId (messageDescriptors t' ! j) = of_nat j"
        using j ui assms(1) t' by (auto simp: nth_append descriptors_ok_def less_Suc_eq)
      show "nextSameType (messageDescriptors t' ! j) = last_of_type (messageDescriptors t') (typeName (messageDescriptors t' ! j)) j"
        using j assms(1) t' old app by (auto simp: nth_append descriptors_ok_def less_Suc_eq)
    qed
    then show ?thesis using t' by simp
  qed
qed


section \<open>The tables a connection can have\<close>

inductive sym_reachable :: "symbol_translator \<Rightarrow> bool" where
  new: "sym_reachable new_symbol_translator"
| descriptor: "sym_reachable t \<Longrightarrow> registerMessageDescriptor i name g s t = (x, t') \<Longrightarrow> sym_reachable t'"
| instrument: "sym_reachable t \<Longrightarrow> i \<noteq> invalidId \<Longrightarrow> registerInstrument i s t = (b, t') \<Longrightarrow> sym_reachable t'"
| local: "sym_reachable t \<Longrightarrow> registerLocalMessageType i s t = (y, t') \<Longrightarrow> sym_reachable t'"
| clear: "sym_reachable t \<Longrightarrow> sym_reachable (clear_tables t)"

lemma new_tables_ok: "tables_ok new_symbol_translator"
  by (simp add: tables_ok_def new_symbol_translator_def bilut_new_ok descriptors_ok_def findMsgDescByType_def
      last_of_type_def same_type_def lut_ok_def new_lut_def EMPTY_MSG_TYPE_ID_def)

lemma clear_tables_ok: "tables_ok (clear_tables t)"
  by (simp add: tables_ok_def clear_tables_def bilut_clear_ok descriptors_ok_def findMsgDescByType_def
      last_of_type_def same_type_def lut_ok_def lut_clear_def lut_setDefaultValue_def sarray_clear_def)

lemma registerInstrument_spec:
  assumes "bilut_ok (instruments t)" "i \<noteq> invalidId" "registerInstrument i s t = (x, t')"
  shows "bilut_ok (instruments t') \<and> t' = t\<lparr>instruments := instruments t'\<rparr> \<and> s2i (instruments t) \<subseteq>\<^sub>m s2i (instruments t') \<and>
    (\<forall>b. x = Inr b \<longrightarrow> s2i (instruments t') s = Some i)"
proof (cases "bilut_id (instruments t) s = invalidId")
  case True
  obtain y m where r: "bilut_add i s (instruments t) = (y, m)" by force
  have m: "bilut_ok m" "s2i (instruments t) \<subseteq>\<^sub>m s2i m"
    using symbols.add_keeps_ok [OF assms(1,2), of s] symbols.add_extends [OF assms(1,2), of s] r by simp_all
  have "t' = t\<lparr>instruments := m\<rparr> \<and> (\<forall>b. x = Inr b \<longrightarrow> (\<exists>b. y = Inr b))"
    using assms(2,3) True r by (auto simp: registerInstrument_def Let_def split: sum.splits)
  then show ?thesis using m symbols.add_registers [OF assms(1,2), of s _ m] r by auto
next
  case False
  then have "t' = t" "x = Inr b \<Longrightarrow> bilut_id (instruments t) s = i" for b
    using assms(3) by (auto simp: registerInstrument_def Let_def split: if_splits)
  then show ?thesis using assms(1,2) bilut_id_eq [OF assms(1,2), of s] by auto
qed

lemma registerLocal_ok:
  assumes "tables_ok t" "registerLocalMessageType i s t = (y, t')"
  shows "tables_ok t'"
proof -
  have "lut_ok 0x4000 (typeIdLocal2Remote t)" using assms(1) by (simp add: tables_ok_def)
  then have "lut_ok 0x4000 l \<and> lutDefault l = lutDefault (typeIdLocal2Remote t)"
    if "lut_set 0 0x4000 0 k v (typeIdLocal2Remote t) = (z, l)" for k v z l
    using lut_set_ok [of "0x4000" "typeIdLocal2Remote t" k 0 0 v] lut_set_refused [of "0x4000" "typeIdLocal2Remote t" k 0 0 v] that
    by (cases "unat (k - 0) < 0x4000") auto
  then have "\<exists>l. t' = t\<lparr>typeIdLocal2Remote := l\<rparr> \<and> lut_ok 0x4000 l \<and> lutDefault l = lutDefault (typeIdLocal2Remote t)"
    using assms
    by (auto simp: registerLocalMessageType_def throw_def bnd_def gets_def tables_ok_def split: if_splits prod.splits sum.splits
        intro!: exI [of _ "typeIdLocal2Remote t'"])
  then show ?thesis using assms(1) by (auto simp: tables_ok_def descriptors_ok_def findMsgDescByType_def)
qed

lemma sym_reachable_ok: "sym_reachable t \<Longrightarrow> tables_ok t"
proof (induction rule: sym_reachable.induct)
  case (descriptor t i name g s x t')
  then show ?case using registerMessageDescriptor_ok [of t i name g s x t'] by (simp add: tables_ok_def)
next
  case (instrument t i s b t')
  then have "bilut_ok (instruments t')" "t' = t\<lparr>instruments := instruments t'\<rparr>"
    using registerInstrument_spec [of t i s b t'] by (auto simp: tables_ok_def)
  moreover have "tables_ok (t\<lparr>instruments := m\<rparr>) \<longleftrightarrow> bilut_ok m" for m
    using instrument by (simp add: tables_ok_def descriptors_ok_def findMsgDescByType_def)
  ultimately show ?case by metis
qed (use new_tables_ok clear_tables_ok registerLocal_ok in blast)+


section \<open>Properties\<close>

text \<open>C11: In every state that registrations and resets can reach, following the links from the descriptor
  that is found for a type name lists all the registered descriptors of that name and no other, the
  newest first; the links end, so a bound of 257 steps is enough.\<close>

theorem type_lists_complete:
  assumes "sym_reachable t"
  shows "type_chain (messageDescriptors t) 0x101 (findMsgDescByType t name) =
    rev (filter (\<lambda>i. typeName (messageDescriptors t ! i) = name) [0..<length (messageDescriptors t)])"
proof -
  have d: "descriptors_ok t" using sym_reachable_ok [OF assms] by (simp add: tables_ok_def)
  then have "length (messageDescriptors t) < 0x101" by (simp add: descriptors_ok_def)
  from type_chain_complete [OF d order_refl this, of name] d show ?thesis
    by (simp add: descriptors_ok_def same_type_def)
qed

definition sample_register :: "32 word \<Rightarrow> string \<Rightarrow> symbol_translator \<Rightarrow> symbol_translator" where
  "sample_register i name t = snd (registerMessageDescriptor i name ''g'' ''s'' t)"

lemma sample_register_reachable: "sym_reachable t \<Longrightarrow> sym_reachable (sample_register i name t)"
  unfolding sample_register_def using sym_reachable.descriptor surjective_pairing by metis

definition sample_tables :: symbol_translator where
  "sample_tables = sample_register 2 ''a'' (sample_register 1 ''b'' (sample_register 0 ''a'' new_symbol_translator))"

lemma sample_tables_reachable: "sym_reachable sample_tables"
  by (simp add: sample_tables_def sample_register_reachable sym_reachable.new)

theorem type_lists_complete_witness:
  "sym_reachable sample_tables \<and> type_chain (messageDescriptors sample_tables) 0x101 (findMsgDescByType sample_tables ''a'') = [2, 0]"
proof -
  have "rev (filter (\<lambda>i. typeName (messageDescriptors sample_tables ! i) = ''a'') [0..<length (messageDescriptors sample_tables)]) = [2, 0]"
    by code_simp
  then show ?thesis using type_lists_complete [OF sample_tables_reachable, of "''a''"] sample_tables_reachable by simp
qed

text \<open>C27: A registration of an instrument that returns makes the symbol and its number name each other,
  reports whether the symbol is new, and keeps every earlier instrument's number.\<close>

theorem instrument_registration:
  assumes "sym_reachable t" "i \<noteq> invalidId" "registerInstrument i s t = (Inr b, t')"
  shows "findInstrument t' s = i \<and> getInstrument t' (unat i) = Some s \<and> isRegisteredInstrumentId t' (unat i) \<and>
    (b \<longleftrightarrow> findInstrument t s = invalidId) \<and>
    (\<forall>r. findInstrument t r \<noteq> invalidId \<longrightarrow> findInstrument t' r = findInstrument t r)"
proof -
  have ok: "bilut_ok (instruments t)" using sym_reachable_ok [OF assms(1)] by (simp add: tables_ok_def)
  note spec = registerInstrument_spec [OF ok assms(2,3)]
  have found: "s2i (instruments t') s = Some i" using spec by simp
  have "unat i < i2sSize (instruments t') \<and> i2s (instruments t') ! unat i = Some s"
    using found bilut_okD(2) [of "instruments t'" s i] spec by simp
  moreover have "b \<longleftrightarrow> bilut_id (instruments t) s = invalidId"
  proof (cases "bilut_id (instruments t) s = i")
    case True
    then show ?thesis using assms(2,3) by (simp add: registerInstrument_def)
  next
    case False
    then show ?thesis using assms(3) by (auto simp: registerInstrument_def Let_def split: if_splits prod.splits sum.splits)
  qed
  moreover have "bilut_id (instruments t') r = bilut_id (instruments t) r" if known: "bilut_id (instruments t) r \<noteq> invalidId" for r
  proof -
    obtain k where "s2i (instruments t) r = Some k" using known by (cases "s2i (instruments t) r") (simp_all add: bilut_id_def)
    moreover from this have "s2i (instruments t') r = Some k" using spec by (force simp: map_le_def)
    ultimately show ?thesis by (simp add: bilut_id_def)
  qed
  ultimately show ?thesis using found
    by (simp add: findInstrument_def getInstrument_def isRegisteredInstrumentId_def bilut_contains_id_def bilut_name_def
        bilut_id_def)
qed

theorem instrument_registration_witness:
  "\<exists>t'. registerInstrument 5 ''AAPL'' sample_tables = (Inr True, t') \<and> findInstrument t' ''AAPL'' = 5"
proof -
  have "fst (registerInstrument 5 ''AAPL'' sample_tables) = Inr True" by code_simp
  then obtain t' where r: "registerInstrument 5 ''AAPL'' sample_tables = (Inr True, t')" by (metis prod.collapse)
  have "(5 :: 32 word) \<noteq> invalidId" by code_simp
  from instrument_registration [OF sample_tables_reachable this r] r show ?thesis by blast
qed

text \<open>Registering a local message type either fails and changes nothing, or makes the local id name the
  newest descriptor with that type name and leaves the other local ids as they were.\<close>

theorem local_type_registration:
  assumes "sym_reachable t" "registerLocalMessageType i name t = (x, t')"
  shows "case x of
      Inl e \<Rightarrow> t' = t \<and> (0x4000 \<le> unat i \<or> (\<forall>d \<in> set (messageDescriptors t). typeName d \<noteq> name))
    | Inr y \<Rightarrow> y = i \<and> isRegisteredLocalTypeId t' (ucast i) \<and>
        lut_get 0 (typeIdLocal2Remote t') (ucast i) = findMsgDescByType t name \<and>
        getMessageTypeName t (unat (findMsgDescByType t name)) = Some name \<and>
        (\<forall>j. j \<noteq> ucast i \<longrightarrow> lut_get 0 (typeIdLocal2Remote t') j = lut_get 0 (typeIdLocal2Remote t) j)"
proof -
  let ?ds = "messageDescriptors t" and ?m = "findMsgDescByType t name"
  have ok: "descriptors_ok t" "lut_ok 0x4000 (typeIdLocal2Remote t)" using sym_reachable_ok [OF assms(1)] by (simp_all add: tables_ok_def)
  have m: "?m = last_of_type ?ds name (length ?ds)" and le: "length ?ds \<le> 0x100" using ok(1) by (simp_all add: descriptors_ok_def)
  have unknown: "unat ?m < length ?ds \<longleftrightarrow> same_type ?ds name (length ?ds) \<noteq> []"
  proof (cases "same_type ?ds name (length ?ds) = []")
    case True
    have "unat EMPTY_MSG_TYPE_ID = 4294967295" by (simp add: EMPTY_MSG_TYPE_ID_def unsigned_minus_1_eq_mask mask_eq_exp_minus_1)
    then show ?thesis using True m le by (simp add: last_of_type_def)
  next
    case False
    note l = same_type_last(1,2) [OF False]
    then have "unat (of_nat (last (same_type ?ds name (length ?ds))) :: 32 word) = last (same_type ?ds name (length ?ds))"
      using le by (intro small_not_empty(2)) simp
    then show ?thesis using False m l(1) by (simp add: last_of_type_def)
  qed
  show ?thesis
  proof (cases "unat i < 0x4000 \<and> unat ?m < length ?ds")
    case False
    then have "t' = t \<and> (\<exists>e. x = Inl e)"
      using assms(2) by (auto simp: registerLocalMessageType_def throw_def bnd_def gets_def isRegisteredMsgDescId_def split: if_splits)
    moreover have "\<forall>d \<in> set ?ds. typeName d \<noteq> name" if "\<not> unat ?m < length ?ds"
      using that unknown by (fastforce simp: same_type_def filter_empty_conv in_set_conv_nth)
    ultimately show ?thesis using False by auto
  next
    case True
    have "unat (ucast i :: 64 word) = unat i" by (rule unat_ucast_up) simp
    then have "unat ((ucast i :: 64 word) - 0) < 0x4000" using True by simp
    from lut_set_ok [OF ok(2) _ this, of 0 ?m] obtain l where
      l: "lut_set 0 0x4000 0 (ucast i) ?m (typeIdLocal2Remote t) = (Inr (), l)"
      "\<forall>j. lut_get 0 l j = (if j = ucast i then ?m else lut_get 0 (typeIdLocal2Remote t) j)" by auto
    have r: "x = Inr i" "t' = t\<lparr>typeIdLocal2Remote := l\<rparr>"
      using assms(2) True l(1)
      by (auto simp: registerLocalMessageType_def throw_def bnd_def gets_def isRegisteredMsgDescId_def split: if_splits)
    note lt = same_type_last(1,2) [of ?ds name "length ?ds"]
    have n: "same_type ?ds name (length ?ds) \<noteq> []" using unknown True by blast
    then have e: "?m = of_nat (last (same_type ?ds name (length ?ds)))" using m by (simp add: last_of_type_def)
    have s: "last (same_type ?ds name (length ?ds)) < 0x100" using lt(1) [OF n] le by simp
    have "?m \<noteq> EMPTY_MSG_TYPE_ID" "typeName (?ds ! unat ?m) = name"
      using small_not_empty [OF s] lt(2) [OF n] by (simp_all only: e not_False_eq_True simp_thms)
    then show ?thesis using r l(2) True by (simp add: isRegisteredLocalTypeId_def isValidMsgDescId_def getMessageTypeName_def eq_commute)
  qed
qed

theorem local_type_registration_witness:
  "\<exists>t'. registerLocalMessageType 7 ''b'' sample_tables = (Inr 7, t') \<and> lut_get 0 (typeIdLocal2Remote t') 7 = 1"
proof -
  have "fst (registerLocalMessageType 7 ''b'' sample_tables) = Inr 7" "findMsgDescByType sample_tables ''b'' = 1" by code_simp+
  moreover from this(1) obtain t' where r: "registerLocalMessageType 7 ''b'' sample_tables = (Inr 7, t')" by (metis prod.collapse)
  ultimately show ?thesis using local_type_registration [OF sample_tables_reachable r] r by auto
qed

text \<open>As many distinct types as the list of types holds.\<close>

lemma many_types:
  "n \<le> 0x100 \<Longrightarrow> \<exists>t. sym_reachable t \<and> length (messageDescriptors t) = n \<and> length (typeList t) = n \<and>
     (\<forall>name. findMsgDescByType t name \<noteq> EMPTY_MSG_TYPE_ID \<longrightarrow> length name < n)"
proof (induction n)
  case 0
  show ?case by (rule exI [of _ new_symbol_translator]) (simp add: sym_reachable.new, simp add: new_symbol_translator_def findMsgDescByType_def)
next
  case (Suc n)
  then obtain t where t: "sym_reachable t" "length (messageDescriptors t) = n" "length (typeList t) = n"
    "\<And>name. findMsgDescByType t name \<noteq> EMPTY_MSG_TYPE_ID \<Longrightarrow> length name < n" by auto
  define name where "name = replicate n CHR ''a''"
  have f: "findMsgDescByType t name = EMPTY_MSG_TYPE_ID" using t(4) [of name] by (force simp: name_def)
  have s: "n < 0x100" using Suc.prems by simp
  note u = small_not_empty [OF s]
  obtain x t' where r: "registerMessageDescriptor (of_nat n) name [] [] t = (x, t')" by force
  have lt: "\<not> 0x100 \<le> (of_nat n :: 32 word)" using u(2) s by (simp add: word_le_nat_alt)
  then have "length (messageDescriptors t') = Suc n" "length (typeList t') = Suc n"
    "typeIndex t' = (typeIndex t)(name \<mapsto> of_nat n)"
    using r f t(2,3) s u(2) by (auto simp: registerMessageDescriptor_def sarray_push_def Let_def split: if_splits)
  moreover have "length nm < Suc n" if "((typeIndex t)(name \<mapsto> of_nat n)) nm \<noteq> Some EMPTY_MSG_TYPE_ID" "((typeIndex t)(name \<mapsto> of_nat n)) nm \<noteq> None" for nm
    using that t(4) [of nm] by (cases "nm = name") (auto simp: name_def findMsgDescByType_def split: option.splits)
  ultimately show ?case using sym_reachable.descriptor [OF t(1) r]
    by (intro exI [of _ t'] conjI) (auto simp: findMsgDescByType_def split: option.splits)
qed

text \<open>A reset drops the descriptors but not the list of distinct types, which is limited to 256 entries.
  There is a translator with no descriptor at all, reached by registrations and one reset, in which
  registering a type name fails after it has changed the tables.\<close>

theorem clear_leaks_type_list:
  "\<exists>t. sym_reachable t \<and> messageDescriptors t = [] \<and>
     (\<exists>t'. registerMessageDescriptor 0 name g s t = (Inl (OutOfRange ''static_array.add(): size limit reached''), t') \<and>
        findMsgDescByType t' name = 0)"
proof -
  obtain t0 where t0: "sym_reachable t0" "length (typeList t0) = 0x100" using many_types [of "0x100"] by auto
  define t where "t = clear_tables t0"
  have e: "messageDescriptors t = []" "length (typeList t) = 0x100" "findMsgDescByType t name = EMPTY_MSG_TYPE_ID"
    using t0(2) by (simp_all add: t_def clear_tables_def sarray_clear_def findMsgDescByType_def)
  have lt: "\<not> 0x100 \<le> (0 :: 32 word)" by simp
  have "sym_reachable t" unfolding t_def by (rule sym_reachable.clear [OF t0(1)])
  moreover have "\<exists>t'. registerMessageDescriptor 0 name g s t = (Inl (OutOfRange ''static_array.add(): size limit reached''), t') \<and>
        findMsgDescByType t' name = 0"
    using e lt by (simp add: registerMessageDescriptor_def sarray_push_def Let_def) (simp add: findMsgDescByType_def)
  ultimately show ?thesis using e(1) by blast
qed

end
