(* ===== verification/Loader.thy ===== *)
theory Loader
  imports SymbolTables WriterContainers
begin

text \<open>
  The loader (\<^verbatim>\<open>tickdb/http/tickloader_http.h\<close>, \<^verbatim>\<open>tickdb/http/tickloader_http.cpp\<close>), the part that
  writes: its state, the framing of messages and instruments, the flushing of the buffer, and
  the operations \<^verbatim>\<open>next\<close>, \<^verbatim>\<open>beginMessage\<close>, \<^verbatim>\<open>commitMessage\<close>, \<^verbatim>\<open>flush\<close>, \<^verbatim>\<open>getInstrumentId\<close> and
  \<^verbatim>\<open>registerMessageType\<close>. The socket is the state of an \<^verbatim>\<open>IOStreamTCP\<close>; the outcomes of the
  successive calls of \<^verbatim>\<open>send\<close> are a list that the environment chose.
\<close>

section \<open>State\<close>

datatype loader_state = NOT_INITIALIZED | FINISHED_WRITING | WRITING | MESSAGE_START | MESSAGE_BODY

fun state_code :: "loader_state \<Rightarrow> nat" where
  "state_code NOT_INITIALIZED = 0"
| "state_code FINISHED_WRITING = 1"
| "state_code WRITING = 2"
| "state_code MESSAGE_START = 3"
| "state_code MESSAGE_BODY = 4"

lemma state_code_inj: "state_code a = state_code b \<Longrightarrow> a = b"
  by (cases a; cases b) simp_all

instantiation loader_state :: linorder
begin

definition less_eq_loader_state :: "loader_state \<Rightarrow> loader_state \<Rightarrow> bool" where
  "a \<le> b \<longleftrightarrow> state_code a \<le> state_code b"

definition less_loader_state :: "loader_state \<Rightarrow> loader_state \<Rightarrow> bool" where
  "a < b \<longleftrightarrow> state_code a < state_code b"

instance
  by standard (auto simp: less_eq_loader_state_def less_loader_state_def dest: state_code_inj)

end

datatype interruption =
    WORKING | STOPPING | CLIENT_FINISHED | SERVER_FINISHED_OK | INTERRUPTION_ERROR
  | SERVER_FINISHED_ERROR | SERVER_DISCONNECTED | INTERRUPTION_IO_ERROR

fun interruption_code :: "interruption \<Rightarrow> nat" where
  "interruption_code WORKING = 0"
| "interruption_code STOPPING = 1"
| "interruption_code CLIENT_FINISHED = 2"
| "interruption_code SERVER_FINISHED_OK = 3"
| "interruption_code INTERRUPTION_ERROR = 4"
| "interruption_code SERVER_FINISHED_ERROR = 5"
| "interruption_code SERVER_DISCONNECTED = 6"
| "interruption_code INTERRUPTION_IO_ERROR = 7"

lemma interruption_code_inj: "interruption_code a = interruption_code b \<Longrightarrow> a = b"
  by (cases a; cases b) simp_all

instantiation interruption :: linorder
begin

definition less_eq_interruption :: "interruption \<Rightarrow> interruption \<Rightarrow> bool" where
  "a \<le> b \<longleftrightarrow> interruption_code a \<le> interruption_code b"

definition less_interruption :: "interruption \<Rightarrow> interruption \<Rightarrow> bool" where
  "a < b \<longleftrightarrow> interruption_code a < interruption_code b"

instance
  by standard (auto simp: less_eq_interruption_def less_interruption_def dest: interruption_code_inj)

end

datatype loader_error = NO_ERROR | ERROR | HANDSHAKE_ERROR | DISCONNECTION_ERROR | IO_ERROR

record error_info =
  errorCode :: loader_error
  className :: "byte list"
  errorMsg :: "byte list"

text \<open>What a listener is told; \<open>notifications\<close> records the calls with the set of listeners called,
  because the order within an \<^verbatim>\<open>unordered_set\<close> is unspecified.\<close>

datatype loader_event =
    ErrorEvent "32 word" "byte list"
  | TypesEvent bool bool "byte list list"
  | EntitiesEvent bool bool "byte list list"

record loader =
  messageWriter :: writer
  loaderState :: loader_state
  messageStart :: nat
  writePtr :: nat
  ioStream :: "tcp_state option"
  sendResults :: "nat option list"
  nMsgWritten :: nat
  nMsgCancelled :: nat
  minChunkSize :: nat
  useEntityId32 :: bool
  tables :: symbol_translator
  interruption :: interruption
  loaderError :: error_info
  clientIsActive :: bool
  writerFinished :: bool
  errorListeners :: "nat set"
  subscriptionListeners :: "nat set"
  notifications :: "(nat set \<times> loader_event) list"

definition isWritingMessageBody :: "loader \<Rightarrow> bool" where
  "isWritingMessageBody l \<longleftrightarrow> MESSAGE_BODY = loaderState l"

definition isWritingMessage :: "loader \<Rightarrow> bool" where
  "isWritingMessage l \<longleftrightarrow> MESSAGE_START \<le> loaderState l"

definition isInMessageBlock :: "loader \<Rightarrow> bool" where
  "isInMessageBlock l \<longleftrightarrow> MESSAGE_START \<le> loaderState l"

definition isWriting :: "loader \<Rightarrow> bool" where
  "isWriting l \<longleftrightarrow> WRITING \<le> loaderState l"

definition loader_isClosed :: "loader \<Rightarrow> bool" where
  "loader_isClosed l \<longleftrightarrow> loaderState l < WRITING"

definition isWriterFinished :: "loader \<Rightarrow> bool" where
  "isWriterFinished l \<longleftrightarrow> writerFinished l"

definition setState :: "loader_state \<Rightarrow> (loader, unit) op" where
  "setState s = modify (\<lambda>l. l\<lparr>loaderState := s\<rparr>)"

text \<open>Operations of the members.\<close>

definition on_writer :: "(writer, 'a) op \<Rightarrow> (loader, 'a) op" where
  "on_writer m = (\<lambda>l. case m (messageWriter l) of (x, w) \<Rightarrow> (x, l\<lparr>messageWriter := w\<rparr>))"

definition on_tables :: "(symbol_translator, 'a) op \<Rightarrow> (loader, 'a) op" where
  "on_tables m = (\<lambda>l. case m (tables l) of (x, t) \<Rightarrow> (x, l\<lparr>tables := t\<rparr>))"

section \<open>Sending\<close>

definition string_bytes :: "string \<Rightarrow> byte list" where
  "string_bytes s = map of_char s"

definition resetPointers :: "(loader, unit) op" where
  "resetPointers = modify (\<lambda>l. l\<lparr>messageWriter := snd (resetPointer (messageWriter l)),
     writePtr := bufferStart (messageWriter l)\<rparr>)"

text \<open>The bytes between the pointers.\<close>

definition unsent :: "loader \<Rightarrow> byte list" where
  "unsent l = load_bytes (wmem (messageWriter l)) (writePtr l) (dataPtr (messageWriter l) - writePtr l)"

text \<open>Without an answer of the environment, a \<^verbatim>\<open>send\<close> takes everything.\<close>

definition transmitBuffer :: "(loader, unit) op" where
  "transmitBuffer =
     (\<lambda>l. case ioStream l of
        None \<Rightarrow> (Inr (), l)
      | Some ios \<Rightarrow>
          (case sendResults l of
             [] \<Rightarrow> (case tcp_write (Some (length (unsent l))) (unsent l) ios of
                 (Inl e, t) \<Rightarrow> (Inl e, l\<lparr>ioStream := Some t\<rparr>)
               | (Inr _, t) \<Rightarrow> (Inr (), l\<lparr>ioStream := Some t\<rparr>))
           | r # rs \<Rightarrow> (case tcp_write r (unsent l) ios of
                 (Inl e, t) \<Rightarrow> (Inl e, l\<lparr>ioStream := Some t, sendResults := rs\<rparr>)
               | (Inr _, t) \<Rightarrow> (Inr (), l\<lparr>ioStream := Some t, sendResults := rs\<rparr>))))"

definition flushOutputInternal :: "(loader, unit) op" where
  "flushOutputInternal =
     andthen (modify (\<lambda>l. l\<lparr>clientIsActive := True\<rparr>))
     (bnd (gets (\<lambda>l. interruption l \<le> STOPPING)) (\<lambda>open.
        seqs [whenM open transmitBuffer, resetPointers]))"

definition flushOutput :: "(loader, unit) op" where "flushOutput = flushOutputInternal"
definition flushOutputMsg :: "(loader, unit) op" where "flushOutputMsg = flushOutputInternal"

section \<open>Interruption\<close>

definition serverErrorText :: "loader \<Rightarrow> byte list" where
  "serverErrorText l =
     (let e = loaderError l
      in if length (className e) + length (errorMsg e) \<noteq> 0
         then className e @ string_bytes '': '' @ errorMsg e else [])"

definition getInterruptedException :: "loader \<Rightarrow> exn option" where
  "getInterruptedException l =
     (if errorCode (loaderError l) = NO_ERROR then None
      else Some (LoaderInterrupted ''Interrupted with error''))"

definition onInterruption :: "(loader, unit) op" where
  "onInterruption =
     (\<lambda>l. case getInterruptedException l of
        Some ex \<Rightarrow> (Inl ex, l)
      | None \<Rightarrow> (Inl (LoaderClosed ''Tickloader is interrupted/closed''), l))"

definition checkWriterInterruption :: "(loader, unit) op" where
  "checkWriterInterruption = (\<lambda>l. if interruption l \<noteq> WORKING then onInterruption l else (Inr (), l))"

section \<open>Framing\<close>

definition MESSAGE_BLOCK_TERMINATOR_RECORD :: "32 word" where
  [layout_defs]: "MESSAGE_BLOCK_TERMINATOR_RECORD = 0xFFFFFFFF"
definition TYPE_BLOCK_ID :: "8 word" where [layout_defs]: "TYPE_BLOCK_ID = 1"
definition INSTRUMENT_BLOCK_ID :: "8 word" where [layout_defs]: "INSTRUMENT_BLOCK_ID = 2"
definition MESSAGE_BLOCK_ID :: "8 word" where [layout_defs]: "MESSAGE_BLOCK_ID = 3"
definition ERROR_BLOCK_ID :: "8 word" where [layout_defs]: "ERROR_BLOCK_ID = 4"
definition TERMINATOR_BLOCK_ID :: "8 word" where [layout_defs]: "TERMINATOR_BLOCK_ID = 5"

text \<open>Unwinds the write pointer to before the length field.\<close>

definition cancelMessage :: "(loader, unit) op" where
  "cancelMessage = modify (\<lambda>l. l\<lparr>nMsgCancelled := nMsgCancelled l + 1,
     messageWriter := (messageWriter l)\<lparr>dataPtr := messageStart l - 4\<rparr>\<rparr>)"

definition endMessage :: "(loader, unit) op" where
  "endMessage =
     bnd (gets messageStart) (\<lambda>start.
     bnd (on_writer (finishMessage start)) (\<lambda>p.
     seqs
       [modify (\<lambda>l. l\<lparr>messageWriter := (messageWriter l)\<lparr>wmem :=
          storeBE (start - 4) (of_nat (p - start) :: 32 word) (wmem (messageWriter l))\<rparr>\<rparr>),
        modify (\<lambda>l. l\<lparr>nMsgWritten := nMsgWritten l + 1\<rparr>),
        bnd (gets (\<lambda>l. minChunkSize l = 0 \<or> minChunkSize l \<le> p - bufferStart (messageWriter l)))
          (\<lambda>full. whenM full flushOutputMsg),
        setState MESSAGE_START]))"

definition writeMessageBlockEnd :: "(loader, unit) op" where
  "writeMessageBlockEnd = on_writer (putUInt32 MESSAGE_BLOCK_TERMINATOR_RECORD)"

definition writeMessageBlockStart :: "(loader, unit) op" where
  "writeMessageBlockStart = on_writer (putByte MESSAGE_BLOCK_ID)"

definition endMessageIfNeeded :: "(loader, unit) op" where
  "endMessageIfNeeded = bnd (gets isWritingMessageBody) (\<lambda>b. whenM b endMessage)"

definition startMessageBlockIfNeeded :: "(loader, unit) op" where
  "startMessageBlockIfNeeded =
     bnd (gets isWritingMessage) (\<lambda>b. whenM (\<not> b) (seqs [writeMessageBlockStart, setState MESSAGE_START]))"

definition endMessageBlockIfNeeded :: "(loader, unit) op" where
  "endMessageBlockIfNeeded =
     bnd (gets isWritingMessage) (\<lambda>b. whenM b (seqs
       [bnd (gets isWritingMessageBody) (\<lambda>c. whenM c endMessage),
        setState WRITING, writeMessageBlockEnd]))"

definition writeInstrumentBlock :: "string \<Rightarrow> (loader, unit) op" where
  "writeInstrumentBlock instrumentName = seqs
     [endMessageBlockIfNeeded, checkWriterInterruption,
      on_writer (writeByte INSTRUMENT_BLOCK_ID),
      on_writer (writeUTF8_bytes (string_bytes instrumentName))]"

definition endWriting :: "(loader, unit) op" where
  "endWriting = seqs
     [endMessageBlockIfNeeded, flushOutputMsg, on_writer (writeByte TERMINATOR_BLOCK_ID), setState FINISHED_WRITING]"

section \<open>The operations of the client\<close>

definition commitMessage :: "(loader, unit) op" where
  "commitMessage = bnd (gets isWritingMessageBody) (\<lambda>b. whenM b endMessage)"

definition loader_send :: "(loader, unit) op" where "loader_send = commitMessage"

definition loader_flush :: "(loader, unit) op" where
  "loader_flush = bnd (gets (\<lambda>l. MESSAGE_START = loaderState l)) (\<lambda>b. whenM b flushOutputMsg)"

definition getInstrumentId :: "string \<Rightarrow> (loader, 32 word) op" where
  "getInstrumentId instr =
     bnd (gets (\<lambda>l. findInstrument (tables l) instr)) (\<lambda>entityId.
     if emptyEntityId = entityId
     then bnd (gets (\<lambda>l. of_nat (biSize (instruments (tables l))))) (\<lambda>newId.
          andthen (on_tables (registerInstrument newId instr))
          (andthen (writeInstrumentBlock instr) (ret newId)))
     else ret entityId)"

definition getMessageDescriptorId_name :: "string \<Rightarrow> (loader, 32 word) op" where
  "getMessageDescriptorId_name name =
     bnd (gets (\<lambda>l. findMsgDescByType (tables l) name)) (\<lambda>i.
     if EMPTY_MSG_TYPE_ID = i then throw (RuntimeError ''getMessageDescriptor(): ERROR: Unknown message type'')
     else ret i)"

definition getMessageDescriptorId :: "32 word \<Rightarrow> (loader, 32 word) op" where
  "getMessageDescriptorId userTypeId =
     bnd (gets (\<lambda>l. lut_get 0 (typeIdLocal2Remote (tables l)) (ucast userTypeId))) (\<lambda>i.
     if EMPTY_MSG_TYPE_ID = i then throw (RuntimeError ''getMessageDescriptor(): ERROR: Unknown user message type id'')
     else ret i)"

definition registerMessageType :: "32 word \<Rightarrow> string \<Rightarrow> (loader, unit) op" where
  "registerMessageType localTypeId name = andthen (on_tables (registerLocalMessageType localTypeId name)) (ret ())"

definition write_message_header :: "bool \<Rightarrow> 32 word \<Rightarrow> 32 word \<Rightarrow> 64 word \<Rightarrow> (writer, unit) op" where
  "write_message_header eid32 remoteMessageTypeId remoteEntityId timestamp = seqs
     [writeTimestamp timestamp,
      if eid32
      then seqs [writeUInt16 (ucast (drop_bit 16 remoteEntityId + 0x8000)), writeUInt16 (ucast remoteEntityId)]
      else seqs [guard (remoteEntityId < 0x8000) (LoaderError ''next(): Entity ID is too big''),
                 writeUInt16 (ucast remoteEntityId)],
      writeByte (ucast remoteMessageTypeId)]"

definition nextInternal :: "bool \<Rightarrow> 32 word \<Rightarrow> 32 word \<Rightarrow> 64 word \<Rightarrow> (loader, unit) op" where
  "nextInternal SHOULD_COMMIT remoteMessageTypeId remoteEntityId timestamp =
     andthen (modify (\<lambda>l. l\<lparr>clientIsActive := True\<rparr>))
     (andthen (bnd (gets loaderState) (\<lambda>s. case s of
         WRITING \<Rightarrow> seqs [on_writer (putByte MESSAGE_BLOCK_ID), setState MESSAGE_START]
       | MESSAGE_BODY \<Rightarrow> (if SHOULD_COMMIT then endMessage else seqs [cancelMessage, setState MESSAGE_START])
       | MESSAGE_START \<Rightarrow> ret ()
       | _ \<Rightarrow> andthen checkWriterInterruption (throw (LogicError ''next(): unknown state''))))
     (seqs
       [checkWriterInterruption, setState MESSAGE_BODY,
        bnd (on_writer startMessage) (\<lambda>p. modify (\<lambda>l. l\<lparr>messageStart := p\<rparr>)),
        bnd (gets useEntityId32) (\<lambda>eid32. on_writer (write_message_header eid32 remoteMessageTypeId remoteEntityId timestamp))]))"

definition next_ids :: "32 word \<Rightarrow> 32 word \<Rightarrow> 64 word \<Rightarrow> (loader, unit) op" where
  "next_ids userTypeId entityId timestamp =
     bnd (getMessageDescriptorId userTypeId) (\<lambda>typeId.
     bnd (gets (\<lambda>l. isRegisteredInstrumentId (tables l) (unat entityId))) (\<lambda>known.
     if \<not> known then throw (RuntimeError ''next(): used unregistered entityId'')
     else nextInternal True typeId entityId timestamp))"

definition next_symbol :: "32 word \<Rightarrow> string \<Rightarrow> 64 word \<Rightarrow> (loader, unit) op" where
  "next_symbol userTypeId symbolName timestamp =
     bnd (getInstrumentId symbolName) (\<lambda>entityId.
     bnd (getMessageDescriptorId userTypeId) (\<lambda>typeId. nextInternal True typeId entityId timestamp))"

definition next_names :: "string \<Rightarrow> string \<Rightarrow> 64 word \<Rightarrow> (loader, unit) op" where
  "next_names name symbolName timestamp =
     bnd (getInstrumentId symbolName) (\<lambda>entityId.
     bnd (getMessageDescriptorId_name name) (\<lambda>typeId. nextInternal True typeId entityId timestamp))"

definition beginMessage_ids_commit :: "32 word \<Rightarrow> 32 word \<Rightarrow> 64 word \<Rightarrow> bool \<Rightarrow> (loader, unit) op" where
  "beginMessage_ids_commit userTypeId entityId timestamp shouldCommit =
     bnd (getMessageDescriptorId userTypeId) (\<lambda>typeId.
     bnd (gets (\<lambda>l. isRegisteredInstrumentId (tables l) (unat entityId))) (\<lambda>known.
     if \<not> known then throw (RuntimeError ''beginMessage(): used unregistered entityId'')
     else if shouldCommit then nextInternal True typeId entityId timestamp
     else nextInternal False typeId entityId timestamp))"

definition beginMessage_symbol_commit :: "32 word \<Rightarrow> string \<Rightarrow> 64 word \<Rightarrow> bool \<Rightarrow> (loader, unit) op" where
  "beginMessage_symbol_commit userTypeId symbolName timestamp shouldCommit =
     bnd (getInstrumentId symbolName) (\<lambda>entityId.
     bnd (getMessageDescriptorId userTypeId) (\<lambda>typeId.
     if shouldCommit then nextInternal True typeId entityId timestamp
     else nextInternal False typeId entityId timestamp))"

definition beginMessage_ids :: "32 word \<Rightarrow> 32 word \<Rightarrow> 64 word \<Rightarrow> (loader, unit) op" where
  "beginMessage_ids userTypeId entityId timestamp =
     bnd (getMessageDescriptorId userTypeId) (\<lambda>typeId.
     bnd (gets (\<lambda>l. isRegisteredInstrumentId (tables l) (unat entityId))) (\<lambda>known.
     if \<not> known then throw (RuntimeError ''beginMessage(): used unregistered entityId'')
     else nextInternal False typeId entityId timestamp))"

definition beginMessage_symbol :: "32 word \<Rightarrow> string \<Rightarrow> 64 word \<Rightarrow> (loader, unit) op" where
  "beginMessage_symbol userTypeId symbolName timestamp =
     bnd (getInstrumentId symbolName) (\<lambda>entityId.
     bnd (getMessageDescriptorId userTypeId) (\<lambda>typeId. nextInternal False typeId entityId timestamp))"

definition setWriterFinished :: "(loader, unit) op" where
  "setWriterFinished = modify (\<lambda>l. l\<lparr>writerFinished := True\<rparr>)"

definition nBytesWritten :: "loader \<Rightarrow> nat" where
  "nBytesWritten l = (case ioStream l of None \<Rightarrow> 0 | Some t \<Rightarrow> tcpBytesWritten t)"

definition dbgBreakConnection :: "bool \<Rightarrow> bool \<Rightarrow> (loader, unit) op" where
  "dbgBreakConnection input output =
     modify (\<lambda>l. case ioStream l of
        None \<Rightarrow> l
      | Some t \<Rightarrow> if input \<and> output then l\<lparr>ioStream := Some (snd (tcp_close t))\<rparr>
          else (let t1 = (if input then snd (tcp_closeInput t) else t);
                    t2 = (if output then snd (tcp_closeOutput t1) else t1)
                in l\<lparr>ioStream := Some t2\<rparr>))"

definition addErrorListener :: "nat \<Rightarrow> (loader, unit) op" where
  "addErrorListener x = modify (\<lambda>l. l\<lparr>errorListeners := insert x (errorListeners l)\<rparr>)"
definition removeErrorListener :: "nat \<Rightarrow> (loader, unit) op" where
  "removeErrorListener x = modify (\<lambda>l. l\<lparr>errorListeners := errorListeners l - {x}\<rparr>)"
definition addSubscriptionListener :: "nat \<Rightarrow> (loader, unit) op" where
  "addSubscriptionListener x = modify (\<lambda>l. l\<lparr>subscriptionListeners := insert x (subscriptionListeners l)\<rparr>)"
definition removeSubscriptionListener :: "nat \<Rightarrow> (loader, unit) op" where
  "removeSubscriptionListener x = modify (\<lambda>l. l\<lparr>subscriptionListeners := subscriptionListeners l - {x}\<rparr>)"

end
