(* ===== verification/LoaderSpec.thy ===== *)
theory LoaderSpec
  imports Loader
begin

text \<open>
  The contract of the loader: what it puts on the wire. The stream is a sequence of items
  (instrument definitions, and blocks of messages with their lengths); \<open>item_bytes\<close> is the encoding
  and \<open>parse_wire\<close> what a receiver makes of it. \<open>spec_step\<close> is the abstract loader, whose state is the
  log of the items, the message being written, and the number of bytes that are not sent yet.
\<close>

section \<open>The wire format\<close>

datatype wire_item = Instrument "byte list" | BlockStart | Message "byte list" | BlockEnd | Terminator

fun item_bytes :: "wire_item \<Rightarrow> byte list" where
  "item_bytes (Instrument s) = INSTRUMENT_BLOCK_ID # be_bytes 2 (of_nat (length s) :: 16 word) @ s"
| "item_bytes BlockStart = [MESSAGE_BLOCK_ID]"
| "item_bytes (Message bs) = be_bytes 4 (of_nat (length bs) :: 32 word) @ bs"
| "item_bytes BlockEnd = be_bytes 4 MESSAGE_BLOCK_TERMINATOR_RECORD"
| "item_bytes Terminator = [TERMINATOR_BLOCK_ID]"

fun wire_bytes :: "wire_item list \<Rightarrow> byte list" where
  "wire_bytes [] = []"
| "wire_bytes (x # xs) = item_bytes x @ wire_bytes xs"

text \<open>The receiver; the flag says whether it is inside a block of messages.\<close>

function parse_wire :: "bool \<Rightarrow> byte list \<Rightarrow> wire_item list option" where
  "parse_wire b [] = Some []"
| "parse_wire False (x # xs) =
     (if x = MESSAGE_BLOCK_ID then map_option (Cons BlockStart) (parse_wire True xs)
      else if x = INSTRUMENT_BLOCK_ID then
        (let n = unat (be_word (take 2 xs) :: 16 word)
         in if length xs < 2 + n then None
            else map_option (Cons (Instrument (take n (drop 2 xs)))) (parse_wire False (drop (2 + n) xs)))
      else if x = TERMINATOR_BLOCK_ID then map_option (Cons Terminator) (parse_wire False xs)
      else None)"
| "parse_wire True (x # xs) =
     (let n = (be_word (take 4 (x # xs)) :: 32 word); rest = drop 4 (x # xs)
      in if length xs < 3 then None
         else if n = MESSAGE_BLOCK_TERMINATOR_RECORD then map_option (Cons BlockEnd) (parse_wire False rest)
         else if length rest < unat n then None
         else map_option (Cons (Message (take (unat n) rest))) (parse_wire True (drop (unat n) rest)))"
  by pat_completeness auto
termination
  by (relation "measure (\<lambda>(b, xs). length xs)") auto

text \<open>Well-formed sequences of items: from being inside a block or not to being inside one or not.\<close>

fun wf_log :: "bool \<Rightarrow> wire_item list \<Rightarrow> bool \<Rightarrow> bool" where
  "wf_log b [] c \<longleftrightarrow> b = c"
| "wf_log b (Instrument s # xs) c \<longleftrightarrow> \<not> b \<and> length s < 0xFFFF \<and> wf_log False xs c"
| "wf_log b (BlockStart # xs) c \<longleftrightarrow> \<not> b \<and> wf_log True xs c"
| "wf_log b (Message bs # xs) c \<longleftrightarrow> b \<and> length bs < 2 ^ 32 - 1 \<and> wf_log True xs c"
| "wf_log b (BlockEnd # xs) c \<longleftrightarrow> b \<and> wf_log False xs c"
| "wf_log b (Terminator # xs) c \<longleftrightarrow> \<not> b \<and> wf_log False xs c"

lemma wf_log_append: "wf_log a (xs @ ys) c \<longleftrightarrow> (\<exists>b. wf_log a xs b \<and> wf_log b ys c)"
proof (induction xs arbitrary: a)
  case (Cons x xs)
  then show ?case by (cases x) auto
qed simp

lemma wire_bytes_append [simp]: "wire_bytes (xs @ ys) = wire_bytes xs @ wire_bytes ys"
  by (induction xs) simp_all

lemma be_word_of_nat16: "n < 2 ^ 16 \<Longrightarrow> unat (be_word (be_bytes 2 (of_nat n :: 16 word)) :: 16 word) = n"
  by (simp add: unsigned_of_nat take_bit_nat_eq_self)

lemma be_word_of_nat32: "n < 2 ^ 32 \<Longrightarrow> unat (be_word (be_bytes 4 (of_nat n :: 32 word)) :: 32 word) = n"
  by (simp add: unsigned_of_nat take_bit_nat_eq_self)

lemma not_terminator: "n < 2 ^ 32 - 1 \<Longrightarrow> be_word (be_bytes 4 (of_nat n :: 32 word)) \<noteq> MESSAGE_BLOCK_TERMINATOR_RECORD"
  using be_word_of_nat32 [of n] by (auto simp: MESSAGE_BLOCK_TERMINATOR_RECORD_def)

lemma parse_inside:
  assumes "length hdr = 4"
  shows "parse_wire True (hdr @ xs) =
    (let n = (be_word hdr :: 32 word)
     in if n = MESSAGE_BLOCK_TERMINATOR_RECORD then map_option (Cons BlockEnd) (parse_wire False xs)
        else if length xs < unat n then None
        else map_option (Cons (Message (take (unat n) xs))) (parse_wire True (drop (unat n) xs)))"
proof -
  obtain x ys where h: "hdr = x # ys" "length ys = 3" using assms by (cases hdr) auto
  then have "take 4 (x # ys @ xs) = hdr" "drop 4 (x # ys @ xs) = xs" "\<not> length (ys @ xs) < 3" by simp_all
  then show ?thesis using h(1) by (simp only: append_Cons parse_wire.simps Let_def if_False)
qed

lemma parse_wire_bytes: "wf_log b xs c \<Longrightarrow> parse_wire b (wire_bytes xs) = Some xs"
proof (induction b xs c rule: wf_log.induct)
  case (2 b s xs c)
  then have s: "length s < 2 ^ 16" "\<not> b" "parse_wire False (wire_bytes xs) = Some xs" by auto
  let ?h = "be_bytes 2 (of_nat (length s) :: 16 word)"
  have "take 2 (?h @ s @ wire_bytes xs) = ?h" "drop 2 (?h @ s @ wire_bytes xs) = s @ wire_bytes xs" by simp_all
  moreover have "take (length s) (s @ wire_bytes xs) = s" by simp
  moreover have "INSTRUMENT_BLOCK_ID \<noteq> MESSAGE_BLOCK_ID" by (simp add: layout_defs)
  moreover have "drop (2 + length s) (?h @ s @ wire_bytes xs) = wire_bytes xs" by simp
  ultimately show ?case using s be_word_of_nat16 [OF s(1)]
    by (simp add: Let_def del: drop_append take_append take_bit_full)
next
  case (3 b xs c)
  then show ?case by simp
next
  case (4 b bs xs c)
  then have s: "length bs < 2 ^ 32" "b" "parse_wire True (wire_bytes xs) = Some xs"
    "be_word (be_bytes 4 (of_nat (length bs) :: 32 word)) \<noteq> MESSAGE_BLOCK_TERMINATOR_RECORD"
    using not_terminator [of "length bs"] by auto
  then show ?case
    using parse_inside [of "be_bytes 4 (of_nat (length bs) :: 32 word)" "bs @ wire_bytes xs"] be_word_of_nat32 [OF s(1)]
    by (simp only: wire_bytes.simps item_bytes.simps append_assoc) (simp add: Let_def)
next
  case (5 b xs c)
  have "be_word (be_bytes 4 MESSAGE_BLOCK_TERMINATOR_RECORD) = MESSAGE_BLOCK_TERMINATOR_RECORD" by simp
  then show ?case using 5 parse_inside [of "be_bytes 4 MESSAGE_BLOCK_TERMINATOR_RECORD" "wire_bytes xs"]
    by (simp only: wire_bytes.simps item_bytes.simps wf_log.simps) (simp add: Let_def)
next
  case (6 b xs c)
  then show ?case by (simp add: layout_defs)
qed simp

section \<open>The abstract loader\<close>

record loader_spec =
  log :: "wire_item list"
  inBlock :: bool
  draft :: "byte list option"
  fill :: nat
  cap :: nat
  chunk :: nat
  eid32 :: bool
  intr :: interruption
  tabs :: symbol_translator

text \<open>The log grows by an item that stays in the buffer, provided that it fits.\<close>

definition spec_put :: "wire_item \<Rightarrow> loader_spec \<Rightarrow> loader_spec option" where
  "spec_put x s =
     (if fill s + length (item_bytes x) \<le> cap s
      then Some (s\<lparr>log := log s @ [x], fill := fill s + length (item_bytes x)\<rparr>) else None)"

definition spec_flush :: "loader_spec \<Rightarrow> loader_spec" where
  "spec_flush s = s\<lparr>fill := 0\<rparr>"

definition spec_commit :: "loader_spec \<Rightarrow> loader_spec option" where
  "spec_commit s =
     (case draft s of
        None \<Rightarrow> Some s
      | Some d \<Rightarrow>
          (let s1 = s\<lparr>log := log s @ [Message d], fill := fill s + 4 + length d, draft := None\<rparr>
           in Some (if chunk s = 0 \<or> chunk s \<le> fill s1 then spec_flush s1 else s1)))"

definition spec_close_block :: "loader_spec \<Rightarrow> loader_spec option" where
  "spec_close_block s =
     (if inBlock s then Option.bind (spec_commit s) (\<lambda>s1. spec_put BlockEnd (s1\<lparr>inBlock := False\<rparr>)) else Some s)"

definition spec_instrument :: "string \<Rightarrow> loader_spec \<Rightarrow> (32 word \<times> loader_spec) option" where
  "spec_instrument n s =
     (let known = findInstrument (tabs s) n in
      if known \<noteq> emptyEntityId then Some (known, s)
      else let newId = of_nat (biSize (instruments (tabs s))) in
        (case registerInstrument newId n (tabs s) of
           (Inl e, t) \<Rightarrow> None
         | (Inr _, t) \<Rightarrow>
             if int (length n) < 0xFFFF \<and> intr s = WORKING
             then map_option (Pair newId) (Option.bind (spec_close_block (s\<lparr>tabs := t\<rparr>)) (spec_put (Instrument (string_bytes n))))
             else None))"

definition message_header :: "bool \<Rightarrow> 32 word \<Rightarrow> 32 word \<Rightarrow> 64 word \<Rightarrow> byte list" where
  "message_header e32 typ entity timestamp =
     be_bytes 8 timestamp @
     (if e32 then be_bytes 2 (ucast (drop_bit 16 entity + 0x8000) :: 16 word) @ be_bytes 2 (ucast entity :: 16 word)
      else be_bytes 2 (ucast entity :: 16 word)) @ [ucast typ]"

text \<open>Starting a message: the draft of an earlier one is committed or dropped.\<close>

definition spec_next :: "bool \<Rightarrow> 32 word \<Rightarrow> 32 word \<Rightarrow> 64 word \<Rightarrow> loader_spec \<Rightarrow> loader_spec option" where
  "spec_next commit typ entity timestamp s =
     Option.bind (if inBlock s then (if commit then spec_commit s else Some (s\<lparr>draft := None\<rparr>))
           else map_option (\<lambda>s1. s1\<lparr>inBlock := True\<rparr>) (spec_put BlockStart s))
     (\<lambda>s1. let h = message_header (eid32 s) typ entity timestamp in
       if fill s1 + 4 + length h \<le> cap s1 \<and> (eid32 s \<or> entity < 0x8000) \<and> intr s = WORKING then Some (s1\<lparr>draft := Some h\<rparr>) else None)"

definition spec_type :: "32 word \<Rightarrow> loader_spec \<Rightarrow> 32 word option" where
  "spec_type userTypeId s =
     (let i = lut_get 0 (typeIdLocal2Remote (tabs s)) (ucast userTypeId) in if i = EMPTY_MSG_TYPE_ID then None else Some i)"

text \<open>A field of the message is any operation of the writer that appends certain bytes.\<close>

definition spec_append :: "byte list \<Rightarrow> loader_spec \<Rightarrow> loader_spec option" where
  "spec_append bs s =
     (case draft s of
        None \<Rightarrow> None
      | Some d \<Rightarrow> if fill s + 4 + length d + length bs \<le> cap s then Some (s\<lparr>draft := Some (d @ bs)\<rparr>) else None)"

end
