(* ===== verification/LoaderRefinement.thy ===== *)
theory LoaderRefinement
  imports LoaderSpec MessageTheorems
begin

text \<open>
  The loader implements its contract: the relation between a loader and the abstract loader, and
  a simulation lemma for every operation of the client.
\<close>

section \<open>The writer between messages and inside one\<close>

lemma emits_outside:
  assumes "emits m bs ()" "shape_ok w" "dataPtr w + length bs \<le> dataEnd w"
  shows "\<exists>w'. m w = (Inr (), w') \<and> shape_ok w' \<and> written w' = written w @ bs \<and> bufferStart w' = bufferStart w \<and> dataEnd w' = dataEnd w"
proof -
  have d: "dataPtr w \<le> dataEnd w" "bufferStart w \<le> dataPtr w" using assms(2) by (simp_all add: shape_ok_def)
  from emitsD(1) [OF assms(1) d(1) assms(3)] obtain w' where w': "m w = (Inr (), w')" "grows w bs w'" by blast
  note b = boxedD [OF boxed_grows [OF w'(2) assms(2)]]
  show ?thesis using w'(1) b grows_written [OF w'(2) d(2)] by auto
qed

lemma message_opened:
  assumes "shape_ok w" "0 < dataPtr w" "dataEnd w - bufferStart w < 2 ^ 30"
    and "emits m bs ()" "bs \<noteq> []" "dataPtr w + 4 + length bs \<le> dataEnd w"
  shows "\<exists>w1 w2. startMessage w = (Inr (dataPtr w + 4), w1) \<and> m w1 = (Inr (), w2) \<and>
    top_level (dataPtr w + 4) w2 \<and> assembled w2 = written w @ [0, 0, 0, 0] @ bs \<and>
    bufferStart w2 = bufferStart w \<and> dataEnd w2 = dataEnd w"
proof -
  from startMessage_top_level [OF assms(1) _ assms(3,2)] assms(6) obtain w1 where
    w1: "startMessage w = (Inr (dataPtr w + 4), w1)" "bufferStart w1 = bufferStart w" "dataEnd w1 = dataEnd w"
      "assembled w1 = written w @ [0, 0, 0, 0]" "top_level (dataPtr w + 3) w1" by auto
  have e1: "expansionPoints w1 = []" "dataPtr w1 = dataPtr w + 4"
    using w1(1) assms(6) by (auto simp: startMessage_def andthen_def bnd_def checkOverflow_def)
  have sh: "shape_ok w1" "bufferStart w1 \<le> dataPtr w1" using w1(5) by (auto simp: top_level_def shape_ok_def)
  obtain w2 where w2: "m w1 = (Inr (), w2)" "grows w1 bs w2"
    using emitsD(1) [OF assms(4), of w1] e1 w1(3) assms(6) by auto
  note b = boxedD [OF boxed_grows [OF w2(2) sh(1)]]
  have wr: "written w2 = written w1 @ bs" by (rule grows_written [OF w2(2) sh(2)])
  have ex: "containerContentsExtraSize w2 = containerContentsExtraSize w1" using same_frameD(8) [OF growsD(1) [OF w2(2)]] .
  have "0 < length bs" using assms(5) by simp
  then have "dataPtr w + 4 < dataPtr w2" using b(12) e1(2) by linarith
  moreover have "top_level (dataPtr w + 3) w2" using w1(5) b e1 ex by (simp add: top_level_def)
  ultimately have "top_level (dataPtr w + 4) w2" using b(8) e1(1) by (simp add: top_level_def)
  moreover have "assembled w2 = written w @ [0, 0, 0, 0] @ bs" using w1(4) b e1 by (simp add: assembled_def wr)
  ultimately show ?thesis using w1 w2 b e1 by auto
qed

lemma take_expand_rev:
  "points_ok pts (length bs) \<Longrightarrow> (\<forall>pt \<in> set pts. k < unat (blockOffset pt)) \<Longrightarrow> k \<le> length bs \<Longrightarrow> take k (expand_rev pts bs) = take k bs"
proof (induction pts arbitrary: bs)
  case (Cons pt pts)
  let ?o = "unat (blockOffset pt)"
  have o: "?o \<le> length bs" "k < ?o" "points_ok pts (length (take (?o - 1) bs))"
    using Cons.prems by (auto simp: min_def)
  have "take k (expand_rev pts (take (?o - 1) bs)) = take k bs"
  proof -
    have l: "length (take (?o - 1) bs) = ?o - 1" "k \<le> ?o - 1" using o by simp_all
    then show ?thesis using Cons.IH [OF o(3)] Cons.prems(2) by simp
  qed
  moreover have "k \<le> length (expand_rev pts (take (?o - 1) bs))" using length_expand_rev [OF o(3)] o by simp
  ultimately show ?case by simp
qed simp

text \<open>The bytes in front of a message are in the buffer as they are.\<close>

lemma before_message:
  assumes "top_level s w" "k \<le> s - bufferStart w" "bufferStart w \<le> s"
  shows "take k (assembled w) = load_bytes (wmem w) (bufferStart w) k"
proof -
  have t: "points_ok (rev (expansionPoints w)) (length (written w))" "s < dataPtr w"
    "\<forall>pt \<in> set (expansionPoints w). s + 1 < bufferStart w + unat (blockOffset pt)"
    using assms(1) by (auto simp: top_level_def)
  have "\<forall>pt \<in> set (rev (expansionPoints w)). k < unat (blockOffset pt)" using t(3) assms(2,3) by fastforce
  moreover have "k \<le> length (written w)" using t(2) assms(2) by (simp add: length_written)
  ultimately have "take k (assembled w) = take k (written w)" unfolding assembled_def by (intro take_expand_rev t(1))
  then show ?thesis using \<open>k \<le> length (written w)\<close> by (simp add: written_def)
qed

lemma finishMessage_lists:
  "finishMessage s w = (x, w') \<Longrightarrow> containerHeader w' = containerHeader w \<and> containerIsArray w' = containerIsArray w \<and>
     containerContentsExtraSize w' = containerContentsExtraSize w"
  by (auto simp: finishMessage_def finishMessageCommon_def expandHeaders_def bnd_def andthen_def split: if_splits prod.splits sum.splits)

lemma be_bytes_zero: "be_bytes 4 (0 :: 32 word) = [0, 0, 0, 0]"
  by code_simp

text \<open>Completing a message: its length goes where the four zero bytes were.\<close>

lemma message_completed:
  assumes "top_level s w" "bufferStart w + k + 4 = s" "k + 4 \<le> length (assembled w)"
    and "assembled w = pre @ [0, 0, 0, 0] @ d" "length pre = k" "bufferStart w + length (assembled w) \<le> dataEnd w"
  shows "\<exists>w'. finishMessage s w = (Inr (s + length d), w') \<and>
    (let w2 = w'\<lparr>wmem := storeBE (s - 4) (of_nat (length d) :: 32 word) (wmem w')\<rparr>
     in shape_ok w2 \<and> written w2 = pre @ be_bytes 4 (of_nat (length d) :: 32 word) @ d \<and> bufferStart w2 = bufferStart w \<and> dataEnd w2 = dataEnd w)"
proof -
  from finishMessage_assembles [OF assms(1,6)] obtain w' where
    w': "finishMessage s w = (Inr (bufferStart w + length (assembled w)), w')" "written w' = assembled w"
      "dataPtr w' = bufferStart w + length (assembled w)" "bufferStart w' = bufferStart w" "dataEnd w' = dataEnd w" by blast
  let ?l = "be_bytes 4 (of_nat (length d) :: 32 word)"
  define w2 where "w2 = w'\<lparr>wmem := storeBE (s - 4) (of_nat (length d) :: 32 word) (wmem w')\<rparr>"
  have e: "bufferStart w + length (assembled w) = s + length d" using assms(2,4,5) by simp
  have st: "storeBE (s - 4) (of_nat (length d) :: 32 word) (wmem w') = store_bytes (bufferStart w + k) ?l (wmem w')"
  proof -
    have "s - 4 = bufferStart w + k" using assms(2) by linarith
    then show ?thesis by (simp add: storeBE_bytes)
  qed
  have "dataPtr w' - bufferStart w' = k + (4 + length d)" using w' e assms(2) by simp
  then have wr: "load_bytes (wmem w') (bufferStart w) (k + (4 + length d)) = pre @ [0, 0, 0, 0] @ d"
    using w'(2,4) assms(4) by (simp add: written_def)
  then have "load_bytes (wmem w') (bufferStart w) k = pre"
    using assms(5) by (simp only: load_bytes_append) (simp add: append_eq_append_conv)
  moreover have "load_bytes (wmem w') (bufferStart w + k + 4) (length d) = d"
  proof -
    have "load_bytes (wmem w') (bufferStart w + (k + 4)) (length d) =
        drop (k + 4) (load_bytes (wmem w') (bufferStart w) (k + (4 + length d)))" by simp
    also have "\<dots> = d" unfolding wr using assms(5) by simp
    finally show ?thesis by (simp add: add.assoc)
  qed
  moreover have "written w2 = load_bytes (wmem w2) (bufferStart w) (k + (4 + length d))"
  proof -
    have "s + length d - bufferStart w = k + (4 + length d)" using assms(2) by simp
    then show ?thesis using w'(3,4) e by (simp add: written_def w2_def)
  qed
  ultimately have "written w2 = pre @ ?l @ d"
    by (simp only: load_bytes_append) (simp add: w2_def st load_store_below load_store_same load_store_above)
  moreover have "shape_ok w2"
    using finishMessage_lists [OF w'(1)] assms(1,6) w' by (auto simp: w2_def shape_ok_def top_level_def)
  ultimately show ?thesis using w' e by (auto simp: w2_def)
qed

section \<open>The relation\<close>

definition loader_ready :: "loader \<Rightarrow> loader_spec \<Rightarrow> bool" where
  "loader_ready l s \<longleftrightarrow>
     (case ioStream l of None \<Rightarrow> False | Some t \<Rightarrow> \<not> outputClosed t) \<and> sendResults l = [] \<and> interruption l = intr s \<and> intr s \<le> STOPPING \<and>
     tables l = tabs s \<and> minChunkSize l = chunk s \<and> useEntityId32 l = eid32 s \<and>
     writePtr l = bufferStart (messageWriter l) \<and> 0 < bufferStart (messageWriter l) \<and>
     dataEnd (messageWriter l) = bufferStart (messageWriter l) + cap s \<and> cap s < 2 ^ 30 \<and> shape_ok (messageWriter l)"

definition sent_bytes :: "loader \<Rightarrow> byte list" where
  "sent_bytes l = (case ioStream l of None \<Rightarrow> [] | Some t \<Rightarrow> sent t)"

text \<open>What is in the buffer and belongs to the log: everything, or what is in front of the message that is
  being written.\<close>

definition buffered :: "loader \<Rightarrow> byte list" where
  "buffered l =
     (if loaderState l = MESSAGE_BODY
      then load_bytes (wmem (messageWriter l)) (bufferStart (messageWriter l)) (messageStart l - 4 - bufferStart (messageWriter l))
      else written (messageWriter l))"

definition stream_of :: "loader \<Rightarrow> byte list" where
  "stream_of l = sent_bytes l @ buffered l"

definition draft_ok :: "loader \<Rightarrow> loader_spec \<Rightarrow> bool" where
  "draft_ok l s \<longleftrightarrow>
     (case draft s of
        None \<Rightarrow> loaderState l = (if inBlock s then MESSAGE_START else WRITING)
      | Some d \<Rightarrow> inBlock s \<and> loaderState l = MESSAGE_BODY \<and> messageStart l = bufferStart (messageWriter l) + fill s + 4 \<and>
          top_level (messageStart l) (messageWriter l) \<and> fill s + 4 + length d \<le> cap s \<and>
          (\<exists>pre. length pre = fill s \<and> assembled (messageWriter l) = pre @ [0, 0, 0, 0] @ d))"

definition refines :: "byte list \<Rightarrow> loader \<Rightarrow> loader_spec \<Rightarrow> bool" where
  "refines hello l s \<longleftrightarrow>
     loader_ready l s \<and> draft_ok l s \<and> length (buffered l) = fill s \<and> fill s \<le> cap s \<and>
     stream_of l = hello @ wire_bytes (log s) \<and> wf_log False (log s) (inBlock s)"

lemma refinesD:
  assumes "refines hello l s"
  shows "loader_ready l s" "draft_ok l s" "length (buffered l) = fill s" "fill s \<le> cap s"
    "stream_of l = hello @ wire_bytes (log s)" "wf_log False (log s) (inBlock s)"
  using assms by (auto simp: refines_def)

lemma readyD:
  assumes "loader_ready l s"
  shows "\<exists>t. ioStream l = Some t \<and> \<not> outputClosed t" "sendResults l = []" "interruption l = intr s" "intr s \<le> STOPPING"
    "tables l = tabs s" "minChunkSize l = chunk s" "useEntityId32 l = eid32 s"
    "writePtr l = bufferStart (messageWriter l)" "0 < bufferStart (messageWriter l)"
    "dataEnd (messageWriter l) = bufferStart (messageWriter l) + cap s" "cap s < 2 ^ 30" "shape_ok (messageWriter l)"
  using assms by (auto simp: loader_ready_def split: option.splits)

section \<open>Between messages\<close>

text \<open>The relation without the state of the loader, for the moments when the operations are halfway.\<close>

definition outside :: "byte list \<Rightarrow> loader \<Rightarrow> loader_spec \<Rightarrow> bool" where
  "outside hello l s \<longleftrightarrow>
     loader_ready l s \<and> length (written (messageWriter l)) = fill s \<and> fill s \<le> cap s \<and>
     sent_bytes l @ written (messageWriter l) = hello @ wire_bytes (log s)"

lemma refines_outside:
  assumes "draft s = None"
  shows "refines hello l s \<longleftrightarrow>
     outside hello l s \<and> loaderState l = (if inBlock s then MESSAGE_START else WRITING) \<and> wf_log False (log s) (inBlock s)"
  using assms by (auto simp: refines_def outside_def draft_ok_def stream_of_def buffered_def)

lemma refines_inside:
  assumes "refines hello l s" "draft s = Some d"
  shows "inBlock s" "loaderState l = MESSAGE_BODY" "messageStart l = bufferStart (messageWriter l) + fill s + 4"
    "top_level (messageStart l) (messageWriter l)" "fill s + 4 + length d \<le> cap s"
    "assembled (messageWriter l) = buffered l @ [0, 0, 0, 0] @ d"
    "load_bytes (wmem (messageWriter l)) (bufferStart (messageWriter l)) (fill s) = buffered l"
proof -
  note r = refinesD [OF assms(1)]
  have dk: "inBlock s \<and> loaderState l = MESSAGE_BODY \<and> messageStart l = bufferStart (messageWriter l) + fill s + 4 \<and>
      top_level (messageStart l) (messageWriter l) \<and> fill s + 4 + length d \<le> cap s \<and>
      (\<exists>pre. length pre = fill s \<and> assembled (messageWriter l) = pre @ [0, 0, 0, 0] @ d)"
    using r(2) unfolding draft_ok_def assms(2) option.case .
  then show i: "inBlock s" "loaderState l = MESSAGE_BODY" and m: "messageStart l = bufferStart (messageWriter l) + fill s + 4"
    and top: "top_level (messageStart l) (messageWriter l)" and "fill s + 4 + length d \<le> cap s" by blast+
  obtain pre where pre: "length pre = fill s" "assembled (messageWriter l) = pre @ [0, 0, 0, 0] @ d" using dk by blast
  show b: "load_bytes (wmem (messageWriter l)) (bufferStart (messageWriter l)) (fill s) = buffered l"
    using i(2) m by (simp add: buffered_def)
  have "take (fill s) (assembled (messageWriter l)) = buffered l"
    using before_message [OF top, of "fill s"] m b by simp
  then show "assembled (messageWriter l) = buffered l @ [0, 0, 0, 0] @ d" using pre by simp
qed

lemma ready_change:
  "loader_ready l s \<Longrightarrow> loader_ready (l\<lparr>loaderState := x\<rparr>) s"
  "loader_ready l s \<Longrightarrow> loader_ready (l\<lparr>clientIsActive := b\<rparr>) s"
  "loader_ready l s \<Longrightarrow> loader_ready (l\<lparr>nMsgWritten := n\<rparr>) s"
  "loader_ready l s \<Longrightarrow> loader_ready (l\<lparr>nMsgCancelled := n\<rparr>) s"
  "loader_ready l s \<Longrightarrow> loader_ready (l\<lparr>messageStart := p\<rparr>) s"
  "loader_ready l s \<Longrightarrow> shape_ok w \<Longrightarrow> bufferStart w = bufferStart (messageWriter l) \<Longrightarrow> dataEnd w = dataEnd (messageWriter l) \<Longrightarrow>
     loader_ready (l\<lparr>messageWriter := w\<rparr>) s"
  by (auto simp: loader_ready_def split: option.splits)

lemma outside_change:
  "outside hello l s \<Longrightarrow> outside hello (l\<lparr>loaderState := x\<rparr>) s"
  "outside hello l s \<Longrightarrow> outside hello (l\<lparr>clientIsActive := b\<rparr>) s"
  "outside hello l s \<Longrightarrow> outside hello (l\<lparr>nMsgWritten := n\<rparr>) s"
  by (simp_all add: outside_def ready_change sent_bytes_def)

lemma outside_spec [simp]:
  "outside hello l (s\<lparr>inBlock := b\<rparr>) = outside hello l s" "outside hello l (s\<lparr>draft := d\<rparr>) = outside hello l s"
  by (simp_all add: outside_def loader_ready_def)

lemma append_longer: "a @ b = c @ d \<Longrightarrow> a @ b @ x = c @ d @ x"
  by (simp only: append_assoc [symmetric])

lemma emit_outside:
  assumes "outside hello l s" "emits m bs ()" "spec_put x s = Some s'" "item_bytes x = bs"
  shows "\<exists>l'. on_writer m l = (Inr (), l') \<and> outside hello l' s' \<and> loaderState l' = loaderState l"
proof -
  let ?w = "messageWriter l"
  have r: "loader_ready l s" "length (written ?w) = fill s" "sent_bytes l @ written ?w = hello @ wire_bytes (log s)"
    using assms(1) by (simp_all add: outside_def)
  note rd = readyD [OF r(1)]
  have s': "s' = s\<lparr>log := log s @ [x], fill := fill s + length bs\<rparr>" "fill s + length bs \<le> cap s"
    using assms(3,4) by (auto simp: spec_put_def split: if_splits)
  have "dataPtr ?w = bufferStart ?w + fill s" using r(2) rd(12) by (auto simp: length_written shape_ok_def)
  then have "dataPtr ?w + length bs \<le> dataEnd ?w" using rd(10) s'(2) by simp
  from emits_outside [OF assms(2) rd(12) this] obtain w' where
    w': "m ?w = (Inr (), w')" "shape_ok w'" "written w' = written ?w @ bs" "bufferStart w' = bufferStart ?w" "dataEnd w' = dataEnd ?w"
    by blast
  have "loader_ready (l\<lparr>messageWriter := w'\<rparr>) s'"
    using ready_change(6) [OF r(1) w'(2,4,5)] by (simp add: s'(1) loader_ready_def)
  moreover have "sent_bytes l @ written w' = hello @ wire_bytes (log s')"
    using append_longer [OF r(3), of bs] by (simp add: w'(3) s'(1) assms(4))
  ultimately have "outside hello (l\<lparr>messageWriter := w'\<rparr>) s'"
    using r(2) s' by (simp add: outside_def w'(3) sent_bytes_def)
  then show ?thesis using w'(1) by (simp add: on_writer_def)
qed

lemma flush_outside:
  assumes "outside hello l s"
  shows "\<exists>l'. flushOutputMsg l = (Inr (), l') \<and> outside hello l' (spec_flush s) \<and> loaderState l' = loaderState l"
proof -
  have r: "loader_ready l s" "length (written (messageWriter l)) = fill s" "sent_bytes l @ written (messageWriter l) = hello @ wire_bytes (log s)"
    using assms by (simp_all add: outside_def)
  note rd = readyD [OF r(1)]
  obtain t where t: "ioStream l = Some t" "\<not> outputClosed t" using rd(1) by blast
  have u: "unsent (l\<lparr>clientIsActive := True\<rparr>) = written (messageWriter l)" using rd(8) by (simp add: unsent_def written_def)
  let ?t = "t\<lparr>sent := sent t @ written (messageWriter l), tcpBytesWritten := tcpBytesWritten t + length (written (messageWriter l))\<rparr>"
  let ?l = "l\<lparr>clientIsActive := True, ioStream := Some ?t, messageWriter := (messageWriter l)\<lparr>dataPtr := bufferStart (messageWriter l)\<rparr>,
    writePtr := bufferStart (messageWriter l)\<rparr>"
  have "transmitBuffer (l\<lparr>clientIsActive := True\<rparr>) = (Inr (), l\<lparr>clientIsActive := True, ioStream := Some ?t\<rparr>)"
    using t rd(2) u by (simp add: transmitBuffer_def tcp_write_def)
  then have run: "flushOutputMsg l = (Inr (), ?l)"
    using rd(3,4) by (simp add: flushOutputMsg_def flushOutputInternal_def andthen_def bnd_def resetPointers_def resetPointer_def)
  have "loader_ready ?l (spec_flush s)"
    using rd t(2) by (simp add: loader_ready_def spec_flush_def shape_ok_def)
  moreover have "sent_bytes ?l @ written (messageWriter ?l) = hello @ wire_bytes (log s)" "written (messageWriter ?l) = []"
    using r(3) t(1) by (simp_all add: sent_bytes_def written_def)
  ultimately have "outside hello ?l (spec_flush s)" by (simp add: outside_def spec_flush_def)
  then show ?thesis using run by simp
qed

lemma end_outside:
  assumes "refines hello l s" "draft s = Some d"
  shows "\<exists>l' s'. spec_commit s = Some s' \<and> endMessage l = (Inr (), l') \<and> outside hello l' s' \<and> loaderState l' = MESSAGE_START"
proof -
  let ?w = "messageWriter l"
  note r = refinesD [OF assms(1)] and i = refines_inside [OF assms]
  note rd = readyD [OF r(1)]
  let ?s1 = "s\<lparr>log := log s @ [Message d], fill := fill s + 4 + length d, draft := None\<rparr>"
  have len: "length (assembled ?w) = fill s + 4 + length d" using i(6) r(3) by simp
  then have a: "fill s + 4 \<le> length (assembled ?w)" "bufferStart ?w + length (assembled ?w) \<le> dataEnd ?w"
    "bufferStart ?w + fill s + 4 = messageStart l" using i(3,5) rd(10) by simp_all
  from message_completed [OF i(4) a(3,1) i(6) r(3) a(2)] obtain w' where
    w': "finishMessage (messageStart l) ?w = (Inr (messageStart l + length d), w')" and
    w2: "shape_ok (w'\<lparr>wmem := storeBE (messageStart l - 4) (of_nat (length d) :: 32 word) (wmem w')\<rparr>)"
      "written (w'\<lparr>wmem := storeBE (messageStart l - 4) (of_nat (length d) :: 32 word) (wmem w')\<rparr>) =
        buffered l @ be_bytes 4 (of_nat (length d) :: 32 word) @ d"
      "bufferStart w' = bufferStart ?w" "dataEnd w' = dataEnd ?w" by (auto simp: Let_def)
  define l2 where "l2 = l\<lparr>messageWriter := w'\<lparr>wmem := storeBE (messageStart l - 4) (of_nat (length d) :: 32 word) (wmem w')\<rparr>,
    nMsgWritten := nMsgWritten l + 1\<rparr>"
  have "sent_bytes l @ buffered l = hello @ wire_bytes (log s)" using r(5) by (simp add: stream_of_def)
  then have "sent_bytes l @ (buffered l @ be_bytes 4 (of_nat (length d) :: 32 word) @ d) = hello @ wire_bytes (log ?s1)"
    using append_longer [of "sent_bytes l" "buffered l" hello "wire_bytes (log s)" "item_bytes (Message d)"] by simp
  moreover have "sent_bytes l2 = sent_bytes l" "written (messageWriter l2) = buffered l @ be_bytes 4 (of_nat (length d) :: 32 word) @ d"
    using w2(2) by (simp_all add: l2_def sent_bytes_def)
  moreover have "loader_ready l2 ?s1"
    using ready_change(6) [OF r(1) w2(1)] w2(3,4) by (simp add: l2_def loader_ready_def)
  ultimately have o2: "outside hello l2 ?s1" using r(3) i(5) by (simp add: outside_def)
  have pd: "messageStart l + length d - bufferStart ?w = fill s + 4 + length d" using i(3) by simp
  have bs: "bufferStart (messageWriter l2) = bufferStart ?w" "minChunkSize l2 = chunk s"
    using w2(3) rd(6) by (simp_all add: l2_def)
  let ?full = "chunk s = 0 \<or> chunk s \<le> fill s + 4 + length d"
  have run: "endMessage l = andthen (whenM ?full flushOutputMsg) (setState MESSAGE_START) l2"
    using w' pd bs
    by (simp add: endMessage_def andthen_def bnd_def on_writer_def l2_def [symmetric])
       (simp add: l2_def)
  show ?thesis
  proof (cases ?full)
    case True
    from flush_outside [OF o2] obtain l3 where l3: "flushOutputMsg l2 = (Inr (), l3)" "outside hello l3 (spec_flush ?s1)" by blast
    then have "endMessage l = (Inr (), l3\<lparr>loaderState := MESSAGE_START\<rparr>)"
      using run True by (simp add: andthen_ok setState_def)
    moreover have "spec_commit s = Some (spec_flush ?s1)" using assms(2) True by (simp add: spec_commit_def Let_def)
    ultimately show ?thesis using outside_change(1) [OF l3(2)] by fastforce
  next
    case False
    then have "endMessage l = (Inr (), l2\<lparr>loaderState := MESSAGE_START\<rparr>)"
      using run by (simp add: setState_def)
    moreover have "spec_commit s = Some ?s1" using assms(2) False by (simp add: spec_commit_def Let_def)
    ultimately show ?thesis using outside_change(1) [OF o2] by fastforce
  qed
qed

section \<open>The operations\<close>

lemma spec_commit_log:
  assumes "refines hello l s" "spec_commit s = Some s'"
  shows "wf_log False (log s') (inBlock s)" "inBlock s' = inBlock s" "draft s' = None" "tabs s' = tabs s" "eid32 s' = eid32 s"
    "cap s' = cap s" "intr s' = intr s"
proof -
  note r = refinesD [OF assms(1)]
  have "wf_log False (log s') (inBlock s) \<and> inBlock s' = inBlock s \<and> draft s' = None \<and> tabs s' = tabs s \<and> eid32 s' = eid32 s \<and> cap s' = cap s \<and> intr s' = intr s"
  proof (cases "draft s")
    case None
    then show ?thesis using assms r(6) by (simp add: spec_commit_def)
  next
    case (Some d)
    note i = refines_inside [OF assms(1) Some]
    have "length d < 2 ^ 32 - 1" using i(5) readyD(11) [OF r(1)] by simp
    then have "wf_log True [Message d] True" by simp
    then show ?thesis using Some assms(2) r(6) i(1)
      by (auto simp: spec_commit_def Let_def spec_flush_def wf_log_append split: if_splits)
  qed
  then show "wf_log False (log s') (inBlock s)" "inBlock s' = inBlock s" "draft s' = None" "tabs s' = tabs s" "eid32 s' = eid32 s"
    "cap s' = cap s" "intr s' = intr s" by simp_all
qed

lemma commit_outside:
  assumes "refines hello l s" "inBlock s"
  shows "\<exists>l' s'. spec_commit s = Some s' \<and> bnd (gets isWritingMessageBody) (\<lambda>b. whenM b endMessage) l = (Inr (), l') \<and>
    outside hello l' s' \<and> loaderState l' = MESSAGE_START"
proof (cases "draft s")
  case None
  then have "outside hello l s" "loaderState l = MESSAGE_START" using assms refines_outside by auto
  then show ?thesis using None by (simp add: spec_commit_def bnd_def isWritingMessageBody_def)
next
  case (Some d)
  then have "loaderState l = MESSAGE_BODY" using refines_inside [OF assms(1)] by blast
  then show ?thesis using end_outside [OF assms(1) Some] by (simp add: bnd_def isWritingMessageBody_def)
qed

lemma refines_commit:
  assumes "refines hello l s" "spec_commit s = Some s'"
  shows "\<exists>l'. commitMessage l = (Inr (), l') \<and> refines hello l' s'"
proof (cases "inBlock s")
  case True
  note c = spec_commit_log [OF assms]
  from commit_outside [OF assms(1) True] assms(2) obtain l' where
    "commitMessage l = (Inr (), l')" "outside hello l' s'" "loaderState l' = MESSAGE_START" by (auto simp: commitMessage_def)
  then show ?thesis using c True refines_outside [of s' hello l'] by auto
next
  case False
  then have d: "draft s = None" using refines_inside(1) [OF assms(1)] by (cases "draft s") auto
  then have "loaderState l = WRITING" "s' = s" using False assms refines_outside [of s hello l] by (simp_all add: spec_commit_def)
  then show ?thesis using assms(1) by (simp add: commitMessage_def bnd_def isWritingMessageBody_def)
qed

lemma less_state: "MESSAGE_START \<le> x \<longleftrightarrow> x = MESSAGE_START \<or> x = MESSAGE_BODY"
  by (cases x) (simp_all add: less_eq_loader_state_def)

lemma refines_close_block:
  assumes "refines hello l s" "spec_close_block s = Some s'"
  shows "\<exists>l'. endMessageBlockIfNeeded l = (Inr (), l') \<and> refines hello l' s' \<and> draft s' = None \<and> \<not> inBlock s'"
proof (cases "inBlock s")
  case False
  then have d: "draft s = None" using refines_inside(1) [OF assms(1)] by (cases "draft s") auto
  then have "loaderState l = WRITING" "s' = s" using False assms refines_outside [of s hello l] by (simp_all add: spec_close_block_def)
  then show ?thesis using assms(1) d False
    by (simp add: endMessageBlockIfNeeded_def bnd_def isWritingMessage_def less_eq_loader_state_def)
next
  case True
  from commit_outside [OF assms(1) True] obtain l1 s1 where
    c: "spec_commit s = Some s1" "bnd (gets isWritingMessageBody) (\<lambda>b. whenM b endMessage) l = (Inr (), l1)"
      "outside hello l1 s1" by blast
  note lg = spec_commit_log [OF assms(1) c(1)]
  have p: "spec_put BlockEnd (s1\<lparr>inBlock := False\<rparr>) = Some s'" using assms(2) True c(1) by (simp add: spec_close_block_def)
  have o: "outside hello (l1\<lparr>loaderState := WRITING\<rparr>) (s1\<lparr>inBlock := False\<rparr>)" using outside_change(1) [OF c(3)] by simp
  from emit_outside [OF this emits_putUInt32 p] obtain l2 where
    l2: "writeMessageBlockEnd (l1\<lparr>loaderState := WRITING\<rparr>) = (Inr (), l2)" "outside hello l2 s'" "loaderState l2 = WRITING"
    by (auto simp: writeMessageBlockEnd_def)
  have "loaderState l = MESSAGE_START \<or> loaderState l = MESSAGE_BODY"
    using True assms(1) refines_outside [of s hello l] refines_inside(2) [OF assms(1)] by (cases "draft s") auto
  then have run: "endMessageBlockIfNeeded l = (Inr (), l2)"
    using c(2) l2(1) by (simp add: endMessageBlockIfNeeded_def bnd_def [of "gets isWritingMessage"] isWritingMessage_def less_state andthen_ok setState_def)
  have s': "log s' = log s1 @ [BlockEnd]" "inBlock s' = False" "draft s' = None"
    using p lg(3) by (auto simp: spec_put_def split: if_splits)
  have "wf_log False (log s') False" unfolding s'(1) wf_log_append using lg(1) True by auto
  then have "refines hello l2 s'" using refines_outside [OF s'(3), of hello l2] l2 s'(2) by simp
  then show ?thesis using run s' by blast
qed

lemma on_writer_andthen: "andthen (on_writer m) (on_writer n) = on_writer (andthen m n)"
  by (rule ext) (auto simp: andthen_def bnd_def on_writer_def split: prod.splits sum.splits)

lemma spec_close_block_intr: "spec_close_block s = Some s' \<Longrightarrow> intr s' = intr s"
  by (auto simp: spec_close_block_def spec_commit_def spec_put_def spec_flush_def bind_eq_Some_conv Let_def split: if_splits option.splits)

lemma refines_instrument_block:
  assumes "refines hello l s" "spec_close_block s = Some s1" "spec_put (Instrument (string_bytes n)) s1 = Some s'" "length n < 0xFFFF"
    and "intr s = WORKING"
  shows "\<exists>l'. writeInstrumentBlock n l = (Inr (), l') \<and> refines hello l' s'"
proof -
  from refines_close_block [OF assms(1,2)] obtain l1 where
    l1: "endMessageBlockIfNeeded l = (Inr (), l1)" "refines hello l1 s1" "draft s1 = None" "\<not> inBlock s1" by blast
  have o: "outside hello l1 s1" "loaderState l1 = WRITING" "wf_log False (log s1) False"
    using l1(2,4) refines_outside [OF l1(3), of hello l1] by auto
  have intr: "checkWriterInterruption l1 = (Inr (), l1)"
    using readyD(3) [OF refinesD(1) [OF l1(2)]] assms(5) spec_close_block_intr [OF assms(2)]
    by (simp add: checkWriterInterruption_def)
  let ?m = "andthen (writeByte INSTRUMENT_BLOCK_ID) (writeUTF8_bytes (string_bytes n))"
  have len: "length (string_bytes n) < 0xFFFF" using assms(4) by (simp add: string_bytes_def)
  then have "emits (writeUTF8_bytes (string_bytes n)) (be_bytes 2 (of_nat (length (string_bytes n)) :: 16 word) @ string_bytes n) ()"
    using emits_utf8 [of "Some (string_bytes n)"] by (simp add: writeUTF8_opt_def utf8_bytes_def)
  from emits_andthen [OF emits_putByte [of INSTRUMENT_BLOCK_ID, folded writeByte_def] this]
  have "emits ?m (item_bytes (Instrument (string_bytes n))) ()" by simp
  from emit_outside [OF o(1) this assms(3)] obtain l2 where
    l2: "on_writer ?m l1 = (Inr (), l2)" "outside hello l2 s'" "loaderState l2 = WRITING" using o(2) by auto
  have s': "log s' = log s1 @ [Instrument (string_bytes n)]" "inBlock s' = False" "draft s' = None"
    using assms(3) l1(3,4) by (auto simp: spec_put_def split: if_splits)
  have "wf_log False (log s') False" unfolding s'(1) wf_log_append using o(3) len by auto
  then have "refines hello l2 s'" using refines_outside [OF s'(3), of hello l2] l2 s'(2) by simp
  moreover have "writeInstrumentBlock n l = (Inr (), l2)"
    using l1(1) intr l2(1) by (simp add: writeInstrumentBlock_def andthen_ok on_writer_andthen)
  ultimately show ?thesis by blast
qed

lemma refines_tables:
  assumes "refines hello l s"
  shows "refines hello (l\<lparr>tables := t\<rparr>) (s\<lparr>tabs := t\<rparr>)"
proof -
  have "loader_ready l s \<Longrightarrow> loader_ready (l\<lparr>tables := t\<rparr>) (s\<lparr>tabs := t\<rparr>)" by (simp add: loader_ready_def)
  moreover have "draft_ok (l\<lparr>tables := t\<rparr>) (s\<lparr>tabs := t\<rparr>) = draft_ok l s" by (cases "draft s") (simp_all add: draft_ok_def)
  moreover have "buffered (l\<lparr>tables := t\<rparr>) = buffered l" "stream_of (l\<lparr>tables := t\<rparr>) = stream_of l"
    by (simp_all add: stream_of_def buffered_def sent_bytes_def)
  ultimately show ?thesis using assms by (simp add: refines_def)
qed

lemma refines_getInstrumentId:
  assumes "refines hello l s" "spec_instrument n s = Some (i, s')"
  shows "\<exists>l'. getInstrumentId n l = (Inr i, l') \<and> refines hello l' s'"
proof -
  have tb: "tables l = tabs s" using readyD(5) [OF refinesD(1) [OF assms(1)]] .
  show ?thesis
  proof (cases "findInstrument (tabs s) n = emptyEntityId")
    case False
    then have "i = findInstrument (tables l) n" "s' = s" using assms(2) tb False by (auto simp: spec_instrument_def Let_def)
    then show ?thesis using assms(1) tb False by (simp add: getInstrumentId_def bnd_def)
  next
    case True
    let ?new = "of_nat (biSize (instruments (tabs s))) :: 32 word"
    obtain x t where r: "registerInstrument ?new n (tabs s) = (x, t)" by force
    then obtain b where x: "x = Inr b" using assms(2) True by (cases x) (simp_all add: spec_instrument_def Let_def)
    from assms(2) True r x obtain s1 where s1: "length n < 0xFFFF" "i = ?new" "spec_close_block (s\<lparr>tabs := t\<rparr>) = Some s1"
      "spec_put (Instrument (string_bytes n)) s1 = Some s'" "intr (s\<lparr>tabs := t\<rparr>) = WORKING"
      by (auto simp: spec_instrument_def Let_def bind_eq_Some_conv split: if_splits)
    from refines_instrument_block [OF refines_tables [OF assms(1)] s1(3,4,1,5)] obtain l' where
      l': "writeInstrumentBlock n (l\<lparr>tables := t\<rparr>) = (Inr (), l')" "refines hello l' s'" by blast
    have "on_tables (registerInstrument ?new n) l = (Inr b, l\<lparr>tables := t\<rparr>)" using r x tb by (simp add: on_tables_def)
    then have "getInstrumentId n l = (Inr i, l')"
      using True tb l'(1) s1(2) by (simp add: getInstrumentId_def bnd_def [of "gets _"] andthen_ok)
    then show ?thesis using l'(2) by blast
  qed
qed

text \<open>The header of a message.\<close>

lemma emits_writeTimestamp: "emits (writeTimestamp v) (be_bytes 8 v) ()"
  unfolding writeTimestamp_def by (rule emits_marked [OF emits_putUInt64])

lemma emits_message_header:
  assumes "e32 \<or> entity < 0x8000"
  shows "emits (write_message_header e32 typ entity timestamp) (message_header e32 typ entity timestamp) ()"
proof (cases e32)
  case True
  have "emits (seqs [writeUInt16 (ucast (drop_bit 16 entity + 0x8000)), writeUInt16 (ucast entity)])
      (be_bytes 2 (ucast (drop_bit 16 entity + 0x8000) :: 16 word) @ be_bytes 2 (ucast entity :: 16 word)) ()"
    unfolding seqs.simps writeUInt16_def by (rule emits_andthen [OF emits_putUInt16 emits_putUInt16])
  from emits_andthen [OF emits_writeTimestamp [of timestamp] emits_andthen [OF this emits_putByte [of "ucast typ"]]]
  show ?thesis using True by (simp add: write_message_header_def message_header_def writeByte_def)
next
  case False
  then have "emits (seqs [guard (entity < 0x8000) (LoaderError ''next(): Entity ID is too big''), writeUInt16 (ucast entity)])
      (be_bytes 2 (ucast entity :: 16 word)) ()"
    using assms emits_putUInt16 [of "ucast entity"] by (simp add: writeUInt16_def)
  from emits_andthen [OF emits_writeTimestamp [of timestamp] emits_andthen [OF this emits_putByte [of "ucast typ"]]]
  show ?thesis using False by (simp add: write_message_header_def message_header_def writeByte_def)
qed

text \<open>The part of \<^verbatim>\<open>nextInternal\<close> after the switch.\<close>

definition start_next :: "32 word \<Rightarrow> 32 word \<Rightarrow> 64 word \<Rightarrow> (loader, unit) op" where
  "start_next typ entity timestamp = seqs
     [checkWriterInterruption, setState MESSAGE_BODY,
      bnd (on_writer startMessage) (\<lambda>p. modify (\<lambda>l. l\<lparr>messageStart := p\<rparr>)),
      bnd (gets useEntityId32) (\<lambda>eid32. on_writer (write_message_header eid32 typ entity timestamp))]"

lemma refines_start_next:
  assumes "outside hello l s" "loaderState l = MESSAGE_START" "draft s = None" "inBlock s" "wf_log False (log s) True"
    and "fill s + 4 + length (message_header (eid32 s) typ entity timestamp) \<le> cap s" "eid32 s \<or> entity < 0x8000"
    and "intr s = WORKING"
  shows "\<exists>l'. start_next typ entity timestamp l = (Inr (), l') \<and> refines hello l' (s\<lparr>draft := Some (message_header (eid32 s) typ entity timestamp)\<rparr>)"
proof -
  let ?w = "messageWriter l" and ?h = "message_header (eid32 s) typ entity timestamp"
  have o: "loader_ready l s" "length (written ?w) = fill s" "fill s \<le> cap s" "sent_bytes l @ written ?w = hello @ wire_bytes (log s)"
    using assms(1) by (simp_all add: outside_def)
  note rd = readyD [OF o(1)]
  have dp: "dataPtr ?w = bufferStart ?w + fill s" using o(2) rd(12) by (auto simp: length_written shape_ok_def)
  have ne: "?h \<noteq> []" by (simp add: message_header_def)
  have fits: "dataPtr ?w + 4 + length ?h \<le> dataEnd ?w" "0 < dataPtr ?w" "dataEnd ?w - bufferStart ?w < 2 ^ 30"
    using dp rd(9-11) assms(6) by simp_all
  from message_opened [OF rd(12) fits(2,3) emits_message_header [OF assms(7), of "typ" timestamp] ne fits(1)] obtain w1 w2 where
    w: "startMessage ?w = (Inr (dataPtr ?w + 4), w1)" "write_message_header (eid32 s) typ entity timestamp w1 = (Inr (), w2)"
      "top_level (dataPtr ?w + 4) w2" "assembled w2 = written ?w @ [0, 0, 0, 0] @ ?h" "bufferStart w2 = bufferStart ?w" "dataEnd w2 = dataEnd ?w"
    by blast
  define l2 where "l2 = l\<lparr>loaderState := MESSAGE_BODY, messageStart := dataPtr ?w + 4, messageWriter := w2\<rparr>"
  have run: "start_next typ entity timestamp l = (Inr (), l2)"
    using w(1,2) rd(3,7) assms(8) by (simp add: start_next_def checkWriterInterruption_def andthen_def bnd_def setState_def on_writer_def l2_def)
  have sh: "shape_ok w2" using w(3) by (simp add: top_level_def)
  have b: "buffered l2 = written ?w"
    using before_message [OF w(3), of "fill s"] w(4,5) dp o(2) by (simp add: buffered_def l2_def)
  let ?s = "s\<lparr>draft := Some ?h\<rparr>"
  have "loader_ready l2 ?s"
    using rd w(5,6) sh by (simp add: loader_ready_def l2_def) (metis option.simps(5) rd(1))
  moreover have "draft_ok l2 ?s"
    using w(3,4,5) dp assms(4,6) o(2) by (auto simp: draft_ok_def l2_def)
  moreover have "stream_of l2 = hello @ wire_bytes (log s)" using o(4) b by (simp add: stream_of_def sent_bytes_def l2_def)
  ultimately have "refines hello l2 ?s" using b o(2,3) assms(4,5) by (simp add: refines_def)
  then show ?thesis using run by blast
qed

lemma nextInternal_run:
  "nextInternal c typ entity timestamp l =
     andthen (case loaderState l of
         WRITING \<Rightarrow> seqs [on_writer (putByte MESSAGE_BLOCK_ID), setState MESSAGE_START]
       | MESSAGE_BODY \<Rightarrow> (if c then endMessage else seqs [cancelMessage, setState MESSAGE_START])
       | MESSAGE_START \<Rightarrow> ret ()
       | _ \<Rightarrow> andthen checkWriterInterruption (throw (LogicError ''next(): unknown state'')))
     (start_next typ entity timestamp) (l\<lparr>clientIsActive := True\<rparr>)"
  by (simp add: nextInternal_def start_next_def andthen_def bnd_def [of "modify _"] bnd_def [of "gets _"] bnd_assoc)
     (simp add: bnd_def split: prod.splits sum.splits)

lemma refines_active: "refines hello l s \<Longrightarrow> refines hello (l\<lparr>clientIsActive := b\<rparr>) s"
proof -
  have "draft_ok (l\<lparr>clientIsActive := b\<rparr>) s = draft_ok l s" by (cases "draft s") (simp_all add: draft_ok_def)
  moreover have "buffered (l\<lparr>clientIsActive := b\<rparr>) = buffered l" "stream_of (l\<lparr>clientIsActive := b\<rparr>) = stream_of l"
    by (simp_all add: stream_of_def buffered_def sent_bytes_def)
  ultimately show "refines hello l s \<Longrightarrow> refines hello (l\<lparr>clientIsActive := b\<rparr>) s" by (simp add: refines_def ready_change)
qed

lemma cancel_outside:
  assumes "refines hello l s" "draft s = Some d"
  shows "\<exists>l'. cancelMessage l = (Inr (), l') \<and> outside hello l' (s\<lparr>draft := None\<rparr>)"
proof -
  let ?w = "messageWriter l"
  note r = refinesD [OF assms(1)] and i = refines_inside [OF assms]
  note rd = readyD [OF r(1)]
  let ?w2 = "?w\<lparr>dataPtr := messageStart l - 4\<rparr>"
  let ?l = "l\<lparr>nMsgCancelled := nMsgCancelled l + 1, messageWriter := ?w2\<rparr>"
  have p: "messageStart l - 4 = bufferStart ?w + fill s" using i(3) by simp
  have "written ?w2 = buffered l" using i(7) p by (simp add: written_def)
  moreover have "shape_ok ?w2" using rd(10,12) r(4) p by (simp add: shape_ok_def)
  ultimately have "outside hello ?l s"
    using rd r(3-5) ready_change(6) [OF ready_change(4) [OF r(1)], of ?w2 "nMsgCancelled l + 1"]
    by (simp add: outside_def sent_bytes_def stream_of_def)
  then show ?thesis by (simp add: cancelMessage_def)
qed

lemma refines_nextInternal:
  assumes "refines hello l s" "spec_next c typ entity timestamp s = Some s'"
  shows "\<exists>l'. nextInternal c typ entity timestamp l = (Inr (), l') \<and> refines hello l' s'"
proof -
  let ?l = "l\<lparr>clientIsActive := True\<rparr>"
  note r = refines_active [OF assms(1), of True]
  obtain s1 where s1: "(if inBlock s then (if c then spec_commit s else Some (s\<lparr>draft := None\<rparr>))
           else map_option (\<lambda>s1. s1\<lparr>inBlock := True\<rparr>) (spec_put BlockStart s)) = Some s1"
      "fill s1 + 4 + length (message_header (eid32 s) typ entity timestamp) \<le> cap s1" "eid32 s \<or> entity < 0x8000" "intr s = WORKING"
      "s' = s1\<lparr>draft := Some (message_header (eid32 s) typ entity timestamp)\<rparr>"
    using assms(2) by (auto simp: spec_next_def Let_def bind_eq_Some_conv split: if_splits)
  have "\<exists>m l1. (case loaderState l of
         WRITING \<Rightarrow> seqs [on_writer (putByte MESSAGE_BLOCK_ID), setState MESSAGE_START]
       | MESSAGE_BODY \<Rightarrow> (if c then endMessage else seqs [cancelMessage, setState MESSAGE_START])
       | MESSAGE_START \<Rightarrow> ret ()
       | _ \<Rightarrow> andthen checkWriterInterruption (throw (LogicError ''next(): unknown state''))) = m \<and> m ?l = (Inr (), l1) \<and>
     outside hello l1 s1 \<and> loaderState l1 = MESSAGE_START \<and> draft s1 = None \<and> inBlock s1 \<and> wf_log False (log s1) True \<and> eid32 s1 = eid32 s \<and>
     intr s1 = intr s"
  proof (cases "inBlock s")
    case False
    then have d: "draft s = None" using refines_inside(1) [OF r] by (cases "draft s") auto
    then have o: "outside hello ?l s" "loaderState l = WRITING" "wf_log False (log s) False"
      using r False refines_outside [of s hello ?l] by auto
    obtain s0 where s0: "spec_put BlockStart s = Some s0" "s1 = s0\<lparr>inBlock := True\<rparr>" using s1(1) False by auto
    from emit_outside [OF o(1) emits_putByte [of MESSAGE_BLOCK_ID] s0(1)] obtain l1 where
      l1: "on_writer (putByte MESSAGE_BLOCK_ID) ?l = (Inr (), l1)" "outside hello l1 s0" by auto
    have "log s0 = log s @ [BlockStart]" "draft s0 = None" "eid32 s0 = eid32 s" "intr s0 = intr s" using s0(1) d by (auto simp: spec_put_def split: if_splits)
    moreover have "wf_log False (log s @ [BlockStart]) True" unfolding wf_log_append using o(3) by auto
    ultimately show ?thesis using o(2) l1 outside_change(1) [OF l1(2)] s0(2) by (simp add: andthen_ok setState_def)
  next
    case True
    show ?thesis
    proof (cases "draft s")
      case None
      then have "loaderState l = MESSAGE_START" "outside hello ?l s" "wf_log False (log s) True" "s1 = s"
        using r True refines_outside [of s hello ?l] s1(1) by (auto simp: spec_commit_def split: if_splits)
      then show ?thesis using True None by simp
    next
      case (Some d)
      note st = refines_inside(2) [OF r Some]
      show ?thesis
      proof (cases c)
        case c: True
        then have sc: "spec_commit s = Some s1" using s1(1) True by simp
        from end_outside [OF r Some] sc spec_commit_log [OF r sc] True st c show ?thesis by fastforce
      next
        case c: False
        from cancel_outside [OF r Some] obtain l1 where l1: "cancelMessage ?l = (Inr (), l1)" "outside hello l1 (s\<lparr>draft := None\<rparr>)" by blast
        have "s1 = s\<lparr>draft := None\<rparr>" "wf_log False (log s) True" using s1(1) True c refinesD(6) [OF r] by simp_all
        then show ?thesis using st c l1 outside_change(1) [OF l1(2)] True by (simp add: andthen_ok setState_def)
      qed
    qed
  qed
  then obtain m l1 where l1: "(case loaderState l of
         WRITING \<Rightarrow> seqs [on_writer (putByte MESSAGE_BLOCK_ID), setState MESSAGE_START]
       | MESSAGE_BODY \<Rightarrow> (if c then endMessage else seqs [cancelMessage, setState MESSAGE_START])
       | MESSAGE_START \<Rightarrow> ret ()
       | _ \<Rightarrow> andthen checkWriterInterruption (throw (LogicError ''next(): unknown state''))) = m" "m ?l = (Inr (), l1)"
     "outside hello l1 s1" "loaderState l1 = MESSAGE_START" "draft s1 = None" "inBlock s1" "wf_log False (log s1) True" "eid32 s1 = eid32 s" "intr s1 = intr s"
    by blast
  obtain l' where "start_next typ entity timestamp l1 = (Inr (), l')" "refines hello l' s'"
    using refines_start_next [OF l1(3-7), of "typ" entity timestamp] s1(2-4) unfolding l1(8,9) s1(5) by blast
  then show ?thesis unfolding nextInternal_run l1(1) using l1(2) by (simp add: andthen_ok)
qed

lemma refines_append:
  assumes "refines hello l s" "spec_append bs s = Some s'" "appends m bs"
  shows "\<exists>l'. on_writer m l = (Inr (), l') \<and> refines hello l' s'"
proof -
  let ?w = "messageWriter l"
  obtain d where d: "draft s = Some d" "fill s + 4 + length d + length bs \<le> cap s" "s' = s\<lparr>draft := Some (d @ bs)\<rparr>"
    using assms(2) by (auto simp: spec_append_def split: option.splits if_splits)
  note r = refinesD [OF assms(1)] and i = refines_inside [OF assms(1) d(1)]
  note rd = readyD [OF r(1)]
  have "length (assembled ?w) = fill s + 4 + length d" using i(6) r(3) by simp
  then have "bufferStart ?w + length (assembled ?w) + length bs \<le> dataEnd ?w" using rd(10) d(2) by simp
  from appendsD [OF assms(3) i(4) this] obtain w' where
    w': "m ?w = (Inr (), w')" "top_level (messageStart l) w'" "assembled w' = assembled ?w @ bs" "bufferStart w' = bufferStart ?w"
      "dataEnd w' = dataEnd ?w" by blast
  let ?l = "l\<lparr>messageWriter := w'\<rparr>"
  have sh: "shape_ok w'" using w'(2) by (simp add: top_level_def)
  have b: "buffered ?l = buffered l"
    using before_message [OF w'(2), of "fill s"] before_message [OF i(4), of "fill s"] w'(3,4) i(2,3,6) r(3)
    by (simp add: buffered_def)
  have "loader_ready ?l s'" using ready_change(6) [OF r(1) sh w'(4,5)] d(3) by (simp add: loader_ready_def)
  moreover have "draft_ok ?l s'"
    using w' i d(2,3) r(3) by (auto simp: draft_ok_def)
  moreover have "stream_of ?l = hello @ wire_bytes (log s')" using r(5) b d(3) by (simp add: stream_of_def sent_bytes_def)
  ultimately have "refines hello ?l s'" using b r(3,4,6) d(3) by (simp add: refines_def)
  then show ?thesis using w'(1) by (simp add: on_writer_def)
qed

section \<open>Runs of a client\<close>

datatype client_op =
    NextIds "32 word" "32 word" "64 word"
  | NextSymbol "32 word" string "64 word"
  | NextNames string string "64 word"
  | BeginIds "32 word" "32 word" "64 word"
  | BeginSymbol "32 word" string "64 word"
  | BeginIdsCommit "32 word" "32 word" "64 word" bool
  | BeginSymbolCommit "32 word" string "64 word" bool
  | WriteFields "field_value list"
  | Commit
  | Flush
  | GetInstrument string
  | RegisterType "32 word" string

fun client_step :: "client_op \<Rightarrow> (loader, unit) op" where
  "client_step (NextIds u e t) = next_ids u e t"
| "client_step (NextSymbol u n t) = next_symbol u n t"
| "client_step (NextNames m n t) = next_names m n t"
| "client_step (BeginIds u e t) = beginMessage_ids u e t"
| "client_step (BeginSymbol u n t) = beginMessage_symbol u n t"
| "client_step (BeginIdsCommit u e t c) = beginMessage_ids_commit u e t c"
| "client_step (BeginSymbolCommit u n t c) = beginMessage_symbol_commit u n t c"
| "client_step (WriteFields vs) = on_writer (write_values vs)"
| "client_step Commit = commitMessage"
| "client_step Flush = loader_flush"
| "client_step (GetInstrument n) = bnd (getInstrumentId n) (\<lambda>_. ret ())"
| "client_step (RegisterType i n) = registerMessageType i n"

definition spec_next_ids :: "bool \<Rightarrow> 32 word \<Rightarrow> 32 word \<Rightarrow> 64 word \<Rightarrow> loader_spec \<Rightarrow> loader_spec option" where
  "spec_next_ids c u e t s =
     Option.bind (spec_type u s) (\<lambda>y. if isRegisteredInstrumentId (tabs s) (unat e) then spec_next c y e t s else None)"

definition spec_next_symbol :: "bool \<Rightarrow> 32 word \<Rightarrow> string \<Rightarrow> 64 word \<Rightarrow> loader_spec \<Rightarrow> loader_spec option" where
  "spec_next_symbol c u n t s =
     Option.bind (spec_instrument n s) (\<lambda>(e, s1). Option.bind (spec_type u s1) (\<lambda>y. spec_next c y e t s1))"

definition spec_next_names :: "string \<Rightarrow> string \<Rightarrow> 64 word \<Rightarrow> loader_spec \<Rightarrow> loader_spec option" where
  "spec_next_names m n t s =
     Option.bind (spec_instrument n s) (\<lambda>(e, s1).
       if findMsgDescByType (tabs s1) m = EMPTY_MSG_TYPE_ID then None
       else spec_next True (findMsgDescByType (tabs s1) m) e t s1)"

fun spec_step :: "client_op \<Rightarrow> loader_spec \<Rightarrow> loader_spec option" where
  "spec_step (NextIds u e t) s = spec_next_ids True u e t s"
| "spec_step (NextSymbol u n t) s = spec_next_symbol True u n t s"
| "spec_step (NextNames m n t) s = spec_next_names m n t s"
| "spec_step (BeginIds u e t) s = spec_next_ids False u e t s"
| "spec_step (BeginSymbol u n t) s = spec_next_symbol False u n t s"
| "spec_step (BeginIdsCommit u e t c) s = spec_next_ids c u e t s"
| "spec_step (BeginSymbolCommit u n t c) s = spec_next_symbol c u n t s"
| "spec_step (WriteFields vs) s =
     (if values_ok vs \<and> list_all (\<lambda>v. top_small v \<and> height v \<le> LOADER_MAX_NESTED_OBJECTS) vs
      then spec_append (values_bytes vs) s else None)"
| "spec_step Commit s = spec_commit s"
| "spec_step Flush s = Some (if inBlock s \<and> draft s = None then spec_flush s else s)"
| "spec_step (GetInstrument n) s = map_option snd (spec_instrument n s)"
| "spec_step (RegisterType i n) s =
     (case registerLocalMessageType i n (tabs s) of (Inl e, t) \<Rightarrow> None | (Inr _, t) \<Rightarrow> Some (s\<lparr>tabs := t\<rparr>))"

text \<open>The contract of a simulation, for the operations of one interface.\<close>

fun run_spec :: "('op \<Rightarrow> 'a \<Rightarrow> 'a option) \<Rightarrow> 'op list \<Rightarrow> 'a \<Rightarrow> 'a option" where
  "run_spec f [] a = Some a"
| "run_spec f (x # xs) a = Option.bind (f x a) (run_spec f xs)"

locale simulation =
  fixes R :: "'c \<Rightarrow> 'a \<Rightarrow> bool"
    and step :: "'op \<Rightarrow> ('c, unit) op"
    and spec :: "'op \<Rightarrow> 'a \<Rightarrow> 'a option"
  assumes simulate: "R c a \<Longrightarrow> spec x a = Some a' \<Longrightarrow> \<exists>c'. step x c = (Inr (), c') \<and> R c' a'"
begin

lemma simulate_run:
  "R c a \<Longrightarrow> run_spec spec xs a = Some a' \<Longrightarrow> \<exists>c'. mapM step xs c = (Inr (), c') \<and> R c' a'"
proof (induction xs arbitrary: c a)
  case (Cons x xs)
  then obtain b where b: "spec x a = Some b" "run_spec spec xs b = Some a'" by (auto simp: bind_eq_Some_conv)
  from simulate [OF Cons.prems(1) b(1)] obtain c1 where c1: "step x c = (Inr (), c1)" "R c1 b" by blast
  from Cons.IH [OF c1(2) b(2)] c1(1) show ?case by (simp add: andthen_ok)
qed simp

end

lemma refines_type:
  assumes "refines hello l s" "spec_type u s = Some y"
  shows "getMessageDescriptorId u l = (Inr y, l)"
  using assms(2) readyD(5) [OF refinesD(1) [OF assms(1)]]
  by (auto simp: spec_type_def Let_def getMessageDescriptorId_def bnd_def split: if_splits)

lemma refines_next_ids:
  assumes "refines hello l s" "spec_next_ids c u e t s = Some s'"
  shows "\<exists>l'. bnd (getMessageDescriptorId u) (\<lambda>typeId.
     bnd (gets (\<lambda>l. isRegisteredInstrumentId (tables l) (unat e))) (\<lambda>known.
     if \<not> known then throw x else nextInternal c typeId e t)) l = (Inr (), l') \<and> refines hello l' s'"
proof -
  obtain y where y: "spec_type u s = Some y" "isRegisteredInstrumentId (tabs s) (unat e)" "spec_next c y e t s = Some s'"
    using assms(2) by (auto simp: spec_next_ids_def bind_eq_Some_conv split: if_splits)
  show ?thesis
    using refines_nextInternal [OF assms(1) y(3)] refines_type [OF assms(1) y(1)] y(2) readyD(5) [OF refinesD(1) [OF assms(1)]]
    by (simp add: bnd_ok)
qed

lemma refines_next_symbol:
  assumes "refines hello l s" "spec_next_symbol c u n t s = Some s'"
  shows "\<exists>l'. bnd (getInstrumentId n) (\<lambda>entityId. bnd (getMessageDescriptorId u) (\<lambda>typeId. nextInternal c typeId entityId t)) l =
     (Inr (), l') \<and> refines hello l' s'"
proof -
  obtain e s1 y where y: "spec_instrument n s = Some (e, s1)" "spec_type u s1 = Some y" "spec_next c y e t s1 = Some s'"
    using assms(2) by (auto simp: spec_next_symbol_def bind_eq_Some_conv)
  from refines_getInstrumentId [OF assms(1) y(1)] obtain l1 where l1: "getInstrumentId n l = (Inr e, l1)" "refines hello l1 s1" by blast
  show ?thesis using refines_nextInternal [OF l1(2) y(3)] refines_type [OF l1(2) y(2)] l1(1) by (simp add: bnd_ok)
qed

lemma refines_next_names:
  assumes "refines hello l s" "spec_next_names m n t s = Some s'"
  shows "\<exists>l'. next_names m n t l = (Inr (), l') \<and> refines hello l' s'"
proof -
  obtain e s1 where y: "spec_instrument n s = Some (e, s1)" "findMsgDescByType (tabs s1) m \<noteq> EMPTY_MSG_TYPE_ID"
      "spec_next True (findMsgDescByType (tabs s1) m) e t s1 = Some s'"
    using assms(2) by (auto simp: spec_next_names_def bind_eq_Some_conv split: if_splits)
  from refines_getInstrumentId [OF assms(1) y(1)] obtain l1 where l1: "getInstrumentId n l = (Inr e, l1)" "refines hello l1 s1" by blast
  have "getMessageDescriptorId_name m l1 = (Inr (findMsgDescByType (tabs s1) m), l1)"
    using y(2) readyD(5) [OF refinesD(1) [OF l1(2)]] by (auto simp: getMessageDescriptorId_name_def bnd_def)
  then show ?thesis using refines_nextInternal [OF l1(2) y(3)] l1(1) by (simp add: next_names_def bnd_ok)
qed

lemma refines_flush:
  assumes "refines hello l s"
  shows "\<exists>l'. loader_flush l = (Inr (), l') \<and> refines hello l' (if inBlock s \<and> draft s = None then spec_flush s else s)"
proof (cases "inBlock s \<and> draft s = None")
  case True
  then have o: "outside hello l s" "loaderState l = MESSAGE_START" "wf_log False (log s) True" using assms refines_outside [of s hello l] by auto
  from flush_outside [OF o(1)] obtain l' where
    l': "flushOutputMsg l = (Inr (), l')" "outside hello l' (spec_flush s)" "loaderState l' = MESSAGE_START" using o(2) by auto
  have "refines hello l' (spec_flush s)" using refines_outside [of "spec_flush s" hello l'] l' o(3) True by (simp add: spec_flush_def)
  then show ?thesis using True l'(1) o(2) by (simp add: loader_flush_def bnd_def)
next
  case False
  then have "loaderState l \<noteq> MESSAGE_START"
    using assms refines_outside [of s hello l] refines_inside(2) [OF assms] by (cases "draft s") auto
  then show ?thesis using False assms by (auto simp: loader_flush_def bnd_def)
qed

interpretation wire: simulation "refines hello" client_step spec_step
proof
  fix l s x s' assume r: "refines hello l s" and sp: "spec_step x s = Some s'"
  show "\<exists>l'. client_step x l = (Inr (), l') \<and> refines hello l' s'"
  proof (cases x)
    case (WriteFields vs)
    then have "spec_append (values_bytes vs) s = Some s'" "values_ok vs" "\<forall>v \<in> set vs. top_small v \<and> height v \<le> LOADER_MAX_NESTED_OBJECTS"
      using sp by (simp_all add: list_all_iff split: if_splits)
    then show ?thesis using refines_append [OF r _ appends_values] WriteFields by simp
  next
    case (GetInstrument n)
    then obtain i where "spec_instrument n s = Some (i, s')" using sp by auto
    from refines_getInstrumentId [OF r this] GetInstrument show ?thesis by (auto simp: bnd_ok)
  next
    case (RegisterType i n)
    then obtain y t where t: "registerLocalMessageType i n (tabs s) = (Inr y, t)" "s' = s\<lparr>tabs := t\<rparr>"
      using sp by (auto split: prod.splits sum.splits)
    then show ?thesis using refines_tables [OF r, of t] RegisterType readyD(5) [OF refinesD(1) [OF r]]
      by (simp add: registerMessageType_def on_tables_def andthen_def bnd_def)
  next
    case (BeginIdsCommit u e t c)
    then show ?thesis using refines_next_ids [OF r, of c u e t] sp
      by (cases c) (simp_all add: beginMessage_ids_commit_def cong: if_cong)
  next
    case (BeginSymbolCommit u n t c)
    then show ?thesis using refines_next_symbol [OF r, of c u n t] sp
      by (cases c) (simp_all add: beginMessage_symbol_commit_def cong: if_cong)
  qed (use r sp in \<open>simp_all add: next_ids_def next_symbol_def beginMessage_ids_def beginMessage_symbol_def refines_next_ids
      refines_next_symbol refines_next_names refines_commit refines_flush\<close>, use refines_flush [OF r] in simp)
qed

end
