(* ===== verification/LoaderIO.thy ===== *)
theory LoaderIO
  imports Loader
begin

text \<open>
  The loader's connection (\<^verbatim>\<open>tickdb/http/tickloader_http.cpp\<close>, \<^verbatim>\<open>tickdb/loader_manager.cpp\<close>): the
  handshake, the responses of the server that the manager's thread reads, and the orderly end. The
  other threads are explicit: what the client's thread does while \<^verbatim>\<open>finish\<close> waits, and what arrives
  from the network while the manager waits, are lists given by the environment.
\<close>

section \<open>Reading\<close>

text \<open>A read through a null pointer is undefined.\<close>

definition read_bytes :: "nat \<Rightarrow> (loader, byte list) op" where
  "read_bytes n =
     (\<lambda>l. case ioStream l of
        None \<Rightarrow> (Inl (Undefined ''null stream''), l)
      | Some t \<Rightarrow> (case tcp_read n n t of
            (Inl e, t') \<Rightarrow> (Inl e, l\<lparr>ioStream := Some t'\<rparr>)
          | (Inr (k, bs), t') \<Rightarrow>
              (if length bs < n then Inl (Undefined ''uninitialised buffer'') else Inr bs, l\<lparr>ioStream := Some t'\<rparr>)))"

definition read_byte :: "(loader, 8 word) op" where
  "read_byte = bnd (read_bytes 1) (\<lambda>bs. ret (be_word bs))"

definition read_uint16 :: "(loader, 16 word) op" where
  "read_uint16 = bnd (read_bytes 2) (\<lambda>bs. ret (be_word bs))"

definition read_int32 :: "(loader, 32 word) op" where
  "read_int32 = bnd (read_bytes 4) (\<lambda>bs. ret (be_word bs))"

text \<open>None is a null string, for which the code's result is the empty string.\<close>

definition loader_readUTF8_into :: "(loader, byte list option) op" where
  "loader_readUTF8_into =
     bnd read_uint16 (\<lambda>len.
     if 0xFFFF \<noteq> len
     then (if 0 < len then bnd (read_bytes (unat len)) (\<lambda>bs. ret (Some bs)) else ret (Some []))
     else ret None)"

definition loader_readUTF8 :: "(loader, byte list) op" where
  "loader_readUTF8 = bnd loader_readUTF8_into (\<lambda>s. ret (case s of None \<Rightarrow> [] | Some bs \<Rightarrow> bs))"

definition readErrorResponse :: "(loader, unit) op" where
  "readErrorResponse =
     bnd loader_readUTF8 (\<lambda>c. andthen (modify (\<lambda>l. l\<lparr>loaderError := (loaderError l)\<lparr>className := c\<rparr>\<rparr>))
     (bnd loader_readUTF8 (\<lambda>m. modify (\<lambda>l. l\<lparr>loaderError := (loaderError l)\<lparr>errorMsg := m\<rparr>\<rparr>))))"

fun read_strings :: "nat \<Rightarrow> (loader, byte list list) op" where
  "read_strings 0 = ret []"
| "read_strings (Suc n) = bnd loader_readUTF8 (\<lambda>s. bnd (read_strings n) (\<lambda>ss. ret (s # ss)))"

definition notify :: "(loader \<Rightarrow> nat set) \<Rightarrow> loader_event \<Rightarrow> (loader, unit) op" where
  "notify listeners e = modify (\<lambda>l. l\<lparr>notifications := notifications l @ [(listeners l, e)]\<rparr>)"

definition dispatchError :: "32 word \<Rightarrow> byte list \<Rightarrow> (loader, unit) op" where
  "dispatchError code s = notify errorListeners (ErrorEvent code s)"

definition dispatchTypesSubscriptionChange :: "bool \<Rightarrow> bool \<Rightarrow> byte list list \<Rightarrow> (loader, unit) op" where
  "dispatchTypesSubscriptionChange all added types = notify subscriptionListeners (TypesEvent all added types)"

definition dispatchEntitiesSubscriptionChange :: "bool \<Rightarrow> bool \<Rightarrow> byte list list \<Rightarrow> (loader, unit) op" where
  "dispatchEntitiesSubscriptionChange all added entities = notify subscriptionListeners (EntitiesEvent all added entities)"

text \<open>The loop \<^verbatim>\<open>forn\<close> compares for inequality, so a negative size is a number of almost \<open>2^64\<close>.\<close>

definition read_string_array :: "(loader, byte list list) op" where
  "read_string_array = bnd read_int32 (\<lambda>size. read_strings (unat (scast size :: 64 word)))"

definition readTypesSubscriptionChange :: "(loader, unit) op" where
  "readTypesSubscriptionChange =
     bnd read_byte (\<lambda>a. bnd read_byte (\<lambda>d.
     bnd (if a \<noteq> 0 then ret [] else read_string_array) (\<lambda>types.
     dispatchTypesSubscriptionChange (0 \<noteq> a) (0 \<noteq> d) types)))"

definition readEntitiesSubscriptionChange :: "(loader, unit) op" where
  "readEntitiesSubscriptionChange =
     bnd read_byte (\<lambda>a. bnd read_byte (\<lambda>d.
     bnd (if a \<noteq> 0 then ret [] else read_string_array) (\<lambda>entities.
     dispatchEntitiesSubscriptionChange (0 \<noteq> a) (0 \<noteq> d) entities)))"

section \<open>Responses of the server\<close>

definition LOADER_KEEPALIVE_ID :: "8 word" where [layout_defs]: "LOADER_KEEPALIVE_ID = 10"
definition LOADER_RESPONSE_BLOCK_ID :: "8 word" where [layout_defs]: "LOADER_RESPONSE_BLOCK_ID = 11"
definition RESP_ERROR :: "32 word" where [layout_defs]: "RESP_ERROR = - 1"

definition set_error :: "loader_error \<Rightarrow> (loader, unit) op" where
  "set_error c = modify (\<lambda>l. l\<lparr>loaderError := (loaderError l)\<lparr>errorCode := c\<rparr>\<rparr>)"

definition set_error_msg :: "string \<Rightarrow> (loader, unit) op" where
  "set_error_msg m = modify (\<lambda>l. l\<lparr>loaderError := (loaderError l)\<lparr>errorMsg := string_bytes m\<rparr>\<rparr>)"

definition set_interruption :: "interruption \<Rightarrow> (loader, unit) op" where
  "set_interruption i = modify (\<lambda>l. l\<lparr>interruption := i\<rparr>)"

definition stream_op :: "(tcp_state, unit) op \<Rightarrow> (loader, unit) op" where
  "stream_op m =
     (\<lambda>l. case ioStream l of
        None \<Rightarrow> (Inl (Undefined ''null stream''), l)
      | Some t \<Rightarrow> (case m t of (x, t') \<Rightarrow> (x, l\<lparr>ioStream := Some t'\<rparr>)))"

text \<open>The format \<^verbatim>\<open>%02X\<close> of a byte.\<close>

definition hex_digit :: "nat \<Rightarrow> char" where
  "hex_digit n = (if n < 10 then char_of (48 + n) else char_of (55 + n))"

definition hex2 :: "8 word \<Rightarrow> string" where
  "hex2 b = [hex_digit (unat b div 16), hex_digit (unat b mod 16)]"

text \<open>One command; the result says that processing is over.\<close>

definition process_command :: "8 word \<Rightarrow> (loader, bool) op" where
  "process_command command =
     (if command = ERROR_BLOCK_ID then
        bnd read_int32 (\<lambda>result. bnd loader_readUTF8 (\<lambda>s. andthen (dispatchError result s) (ret False)))
      else if command = LOADER_KEEPALIVE_ID then ret False
      else if command = LOADER_RESPONSE_BLOCK_ID then
        bnd read_int32 (\<lambda>result.
          if RESP_ERROR = result
          then andthen (set_error ERROR) (andthen readErrorResponse (andthen (set_interruption SERVER_FINISHED_ERROR) (ret True)))
          else andthen (set_interruption SERVER_FINISHED_OK) (ret True))
      else if command = TYPE_BLOCK_ID then andthen readTypesSubscriptionChange (ret False)
      else if command = INSTRUMENT_BLOCK_ID then andthen readEntitiesSubscriptionChange (ret False)
      else andthen (seqs [modify (\<lambda>l. l\<lparr>loaderError := (loaderError l)\<lparr>className := []\<rparr>\<rparr>),
                 set_error_msg (''Unexpected token received from the server: '' @ hex2 command),
                 set_error IO_ERROR, set_interruption SERVER_FINISHED_ERROR, stream_op tcp_closeInput]) (ret False))"

text \<open>One turn of the loop: None to go on, otherwise the result of the method.\<close>

definition process_step :: "(loader, bool option) op" where
  "process_step =
     (\<lambda>l. case ioStream l of
        None \<Rightarrow> (Inl (Undefined ''null stream''), l)
      | Some t \<Rightarrow> (case tcp_tryRead 1 t of
            (Inl e, t') \<Rightarrow> (Inl e, l\<lparr>ioStream := Some t'\<rparr>)
          | (Inr (n, bs), t') \<Rightarrow>
              (if n = 0 then (Inr (Some False), l\<lparr>ioStream := Some t'\<rparr>)
               else if bs = [] then (Inl (Undefined ''uninitialised buffer''), l\<lparr>ioStream := Some t'\<rparr>)
               else bnd (process_command (hd bs)) (\<lambda>stop. ret (if stop then Some True else None)) (l\<lparr>ioStream := Some t'\<rparr>))))"

text \<open>Every turn that goes on has taken at least one byte or event.\<close>

fun event_size :: "recv_event \<Rightarrow> nat" where
  "event_size (Received bs) = Suc (length bs)"
| "event_size _ = 1"

definition pending_events :: "recv_event list \<Rightarrow> nat" where
  "pending_events evs = sum_list (map event_size evs)"

definition pending_input :: "loader \<Rightarrow> nat" where
  "pending_input l = (case ioStream l of None \<Rightarrow> 0 | Some t \<Rightarrow> pending_events (incoming t))"

lemma pending_events_Cons [simp]: "pending_events (ev # evs) = event_size ev + pending_events evs"
  by (simp add: pending_events_def)

lemma event_size_pos [simp]: "0 < event_size ev"
  by (cases ev) simp_all

lemma recv_loop_pending:
  "recv_loop mn mx n acc evs = (r, evs') \<Longrightarrow>
     pending_events evs' \<le> pending_events evs \<and> (n < mn \<and> evs \<noteq> [] \<longrightarrow> pending_events evs' < pending_events evs)"
proof (induction mn mx n acc evs arbitrary: r evs' rule: recv_loop.induct)
  case (1 mn mx n acc)
  then show ?case by (auto split: if_splits)
next
  case (2 mn mx n acc ev evs)
  show ?case
  proof (cases "mn \<le> n")
    case True
    then show ?thesis using 2 by auto
  next
    case False
    show ?thesis
    proof (cases ev)
      case (Received bs)
      let ?k = "mx - n"
      consider "take ?k bs = []" | "take ?k bs \<noteq> []" "length bs \<le> ?k" | "take ?k bs \<noteq> []" "?k < length bs" by linarith
      then show ?thesis
      proof cases
        case 1
        then show ?thesis using "2.prems" False Received by auto
      next
        case 2
        then have "recv_loop mn mx (n + length bs) (acc @ bs) evs = (r, evs')"
          using "2.prems" False Received by (cases "mx \<le> n") (auto simp: Let_def)
        then show ?thesis using "2.IH"(1) [OF False Received refl refl] 2 Received by fastforce
      next
        case 3
        then have "evs' = Received (drop ?k bs) # evs" using "2.prems" False Received by (auto simp: Let_def split: if_splits)
        then show ?thesis using 3 Received by auto
      qed
    next
      case ShutdownError
      then have "recv_loop mn mx (n + (2 ^ 32 - 1)) acc evs = (r, evs')" using "2.prems" False by simp
      then show ?thesis using "2.IH"(2) [OF False ShutdownError] ShutdownError by fastforce
    qed (use "2.prems" False in auto)
  qed
qed

lemma tcp_read_pending:
  assumes "tcp_read mn mx t = (r, t')"
  shows "pending_events (incoming t') \<le> pending_events (incoming t)"
    "\<not> inputClosed t \<Longrightarrow> 0 < mn \<Longrightarrow> incoming t \<noteq> [] \<Longrightarrow> pending_events (incoming t') < pending_events (incoming t)"
  using assms recv_loop_pending [of mn mx 0 "[]" "incoming t"]
  by (auto simp: tcp_read_def split: if_splits prod.splits sum.splits)

text \<open>Operations that put nothing back.\<close>

definition shrinks :: "(loader, 'a) op \<Rightarrow> bool" where
  "shrinks m \<longleftrightarrow> (\<forall>l. pending_input (snd (m l)) \<le> pending_input l)"

lemma shrinksD: "shrinks m \<Longrightarrow> m l = (x, l') \<Longrightarrow> pending_input l' \<le> pending_input l"
  unfolding shrinks_def by (metis snd_conv)

lemma shrinks_bnd: "shrinks m \<Longrightarrow> (\<And>x. shrinks (f x)) \<Longrightarrow> shrinks (bnd m f)"
  unfolding shrinks_def
proof (intro allI)
  fix l assume a: "\<forall>l. pending_input (snd (m l)) \<le> pending_input l" "\<And>x. \<forall>l. pending_input (snd (f x l)) \<le> pending_input l"
  obtain x l' where r: "m l = (x, l')" by force
  then have "pending_input l' \<le> pending_input l" using a(1) by (metis snd_conv)
  then show "pending_input (snd (bnd m f l)) \<le> pending_input l"
  proof (cases x)
    case (Inr b)
    have "pending_input (snd (f b l')) \<le> pending_input l'" using a(2) [of b] by blast
    then show ?thesis using Inr r \<open>pending_input l' \<le> pending_input l\<close> by (simp add: bnd_def)
  qed (simp add: r bnd_def)
qed

lemma shrinks_andthen: "shrinks m \<Longrightarrow> shrinks n \<Longrightarrow> shrinks (andthen m n)"
  unfolding andthen_def by (rule shrinks_bnd)

lemma shrinks_ret: "shrinks (ret x)" "shrinks (throw e)"
  by (simp_all add: shrinks_def)

lemma shrinks_modify: "(\<And>l. ioStream (f l) = ioStream l) \<Longrightarrow> shrinks (modify f)"
  by (simp add: shrinks_def pending_input_def)

lemma shrinks_read_bytes: "shrinks (read_bytes n)"
  using tcp_read_pending(1) [of n n] by (auto simp: shrinks_def read_bytes_def pending_input_def split: option.splits prod.splits sum.splits)

lemma shrinks_seqs: "(\<And>m. m \<in> set ms \<Longrightarrow> shrinks m) \<Longrightarrow> shrinks (seqs ms)"
  by (induction ms rule: seqs.induct) (auto intro: shrinks_ret shrinks_andthen)

lemma shrinks_closeInput: "shrinks (stream_op tcp_closeInput)"
  by (auto simp: shrinks_def stream_op_def tcp_closeInput_def pending_input_def split: option.splits)

lemmas shrinks_intros = shrinks_bnd shrinks_andthen shrinks_ret shrinks_read_bytes shrinks_closeInput

lemma shrinks_loader_readUTF8: "shrinks loader_readUTF8"
  by (auto simp: loader_readUTF8_def loader_readUTF8_into_def read_uint16_def intro!: shrinks_intros)

lemma shrinks_read_strings: "shrinks (read_strings n)"
  by (induction n) (simp_all only: read_strings.simps shrinks_ret shrinks_bnd shrinks_loader_readUTF8)

lemma shrinks_changes:
  "shrinks (set_error c)" "shrinks (set_error_msg m)" "shrinks (set_interruption i)" "shrinks (notify f e)"
  "shrinks (modify (\<lambda>l. l\<lparr>loaderError := g l\<rparr>))"
  by (auto simp: set_error_def set_error_msg_def set_interruption_def notify_def intro!: shrinks_modify)

lemmas process_defs = read_byte_def read_int32_def read_uint16_def readErrorResponse_def dispatchError_def
  readTypesSubscriptionChange_def readEntitiesSubscriptionChange_def read_string_array_def
  dispatchTypesSubscriptionChange_def dispatchEntitiesSubscriptionChange_def

lemma shrinks_process_command: "shrinks (process_command c)"
  by (auto simp: process_command_def process_defs simp del: seqs.simps
      intro!: shrinks_intros shrinks_loader_readUTF8 shrinks_read_strings shrinks_changes shrinks_seqs)

lemma process_step_pending:
  assumes "process_step l = (Inr None, l')"
  shows "pending_input l' < pending_input l"
proof -
  obtain t where t: "ioStream l = Some t" using assms by (auto simp: process_step_def split: option.splits)
  obtain n bs t' where r: "tcp_tryRead 1 t = (Inr (n, bs), t')" "n \<noteq> 0"
      "bnd (process_command (hd bs)) (\<lambda>stop. ret (if stop then Some True else None)) (l\<lparr>ioStream := Some t'\<rparr>) = (Inr None, l')"
    using assms t by (auto simp: process_step_def split: prod.splits sum.splits if_splits)
  have "shrinks (bnd (process_command (hd bs)) (\<lambda>stop. ret (if stop then Some True else None)))"
    by (intro shrinks_intros shrinks_process_command)
  from shrinksD [OF this r(3)] have "pending_input l' \<le> pending_events (incoming t')" by (simp add: pending_input_def)
  moreover have "\<not> inputClosed t" "incoming t \<noteq> []" "tcp_read 1 1 t = (Inr (n, bs), t')"
    using r(1,2) by (auto simp: tcp_tryRead_def split: if_splits)
  moreover from tcp_read_pending(2) [OF this(3,1) _ this(2)] have "pending_events (incoming t') < pending_events (incoming t)" by simp
  ultimately show ?thesis by (simp add: pending_input_def t)
qed

function process_loop :: "(loader, bool) op" where
  "process_loop l =
     (case process_step l of
        (Inl e, l') \<Rightarrow> (Inl e, l')
      | (Inr (Some b), l') \<Rightarrow> (Inr b, l')
      | (Inr None, l') \<Rightarrow> process_loop l')"
  by pat_completeness auto
termination
  by (relation "measure pending_input") (auto intro: process_step_pending)

declare process_loop.simps [simp del]

definition on_process_exception :: "exn \<Rightarrow> (loader, bool) op" where
  "on_process_exception e =
     (case e of
        Undefined u \<Rightarrow> throw (Undefined u)
      | Disconnected s \<Rightarrow> andthen (seqs [set_error IO_ERROR, set_interruption SERVER_DISCONNECTED,
            set_error_msg ''disconnected by server'', stream_op tcp_close]) (ret False)
      | IOError s \<Rightarrow> andthen (seqs [set_error IO_ERROR, set_interruption SERVER_DISCONNECTED,
            set_error_msg (''IOStream exception: '' @ s), stream_op tcp_close]) (ret False)
      | _ \<Rightarrow> andthen (seqs [set_error ERROR, set_interruption INTERRUPTION_ERROR,
            set_error_msg ''std::exception: '']) (ret False))"

definition processResponse :: "(loader, bool) op" where
  "processResponse =
     (\<lambda>l. if STOPPING < interruption l \<or> ioStream l = None then (Inr True, l)
      else case process_loop l of
        (Inr b, l') \<Rightarrow> (Inr b, l')
      | (Inl e, l') \<Rightarrow> on_process_exception e l')"

end
