(* ===== verification/LoaderLifecycle.thy ===== *)
theory LoaderLifecycle
  imports LoaderIO
begin

text \<open>
  Opening and finishing a loader (\<^verbatim>\<open>tickdb/http/tickloader_http.cpp\<close>) and the manager of the loaders
  (\<^verbatim>\<open>tickdb/loader_manager.cpp\<close>). The state is a loader with the manager it refers to.
\<close>

section \<open>The manager\<close>

text \<open>Pointers to loaders are numbers.\<close>

record loader_manager =
  loaders :: "nat set"
  being_removed :: "nat set"
  loaderCloseTimeout :: nat
  managerThread :: bool
  managerRunning :: bool
  shouldStop :: bool

definition manager_add :: "nat \<Rightarrow> loader_manager \<Rightarrow> loader_manager" where
  "manager_add x m = m\<lparr>loaders := insert x (loaders m)\<rparr>"

definition manager_find :: "nat \<Rightarrow> loader_manager \<Rightarrow> nat option" where
  "manager_find x m = (if x \<in> loaders m then Some x else None)"

definition manager_start :: "(loader_manager, bool) op" where
  "manager_start =
     (\<lambda>m. if managerRunning m \<or> managerThread m then (Inl (RuntimeError ''loaderManager.start(): Already started''), m)
          else (Inr True, m\<lparr>managerThread := True, managerRunning := True\<rparr>))"

text \<open>After the join the thread has set its flag to false.\<close>

definition manager_stop :: "(loader_manager, unit) op" where
  "manager_stop =
     modify (\<lambda>m. let m1 = m\<lparr>shouldStop := True\<rparr>
                 in if managerThread m then m1\<lparr>managerThread := False, managerRunning := False\<rparr> else m1)"

text \<open>One turn of the manager's thread; \<open>order\<close> is the order in which the set's copy is enumerated.\<close>

definition manager_process :: "loader_manager \<Rightarrow> nat \<Rightarrow> (nat \<Rightarrow> loader) \<Rightarrow> nat \<Rightarrow> loader" where
  "manager_process m i ls = (if i \<in> loaders m then ls(i := snd (processResponse (ls i))) else ls)"

fun manager_processAll :: "loader_manager \<Rightarrow> nat list \<Rightarrow> (nat \<Rightarrow> loader) \<Rightarrow> nat \<Rightarrow> loader" where
  "manager_processAll m [] ls = ls"
| "manager_processAll m (i # order) ls = manager_processAll m order (manager_process m i ls)"

section \<open>A loader with its manager\<close>

record managed =
  ldr :: loader
  mgr :: loader_manager
  self :: nat

definition on_loader :: "(loader, 'a) op \<Rightarrow> (managed, 'a) op" where
  "on_loader m = (\<lambda>s. case m (ldr s) of (x, l) \<Rightarrow> (x, s\<lparr>ldr := l\<rparr>))"

text \<open>What arrives while a thread sleeps, if the manager's thread gets its turn in that time.\<close>

definition arrive :: "recv_event list \<Rightarrow> loader \<Rightarrow> loader" where
  "arrive evs l = l\<lparr>ioStream := map_option (\<lambda>t. t\<lparr>incoming := incoming t @ evs\<rparr>) (ioStream l)\<rparr>"

definition sleep_once :: "recv_event list option \<Rightarrow> loader \<Rightarrow> loader" where
  "sleep_once turn l = (case turn of None \<Rightarrow> l | Some evs \<Rightarrow> snd (processResponse (arrive evs l)))"

fun wait_response :: "nat \<Rightarrow> recv_event list option list \<Rightarrow> loader \<Rightarrow> nat \<times> loader" where
  "wait_response 0 turns l = (0, l)"
| "wait_response (Suc r) turns l =
     (if STOPPING < interruption l then (Suc r, l)
      else case turns of
        [] \<Rightarrow> wait_response r [] l
      | turn # rest \<Rightarrow> wait_response r rest (sleep_once turn l))"

definition manager_remove :: "bool \<Rightarrow> recv_event list option list \<Rightarrow> (managed, bool) op" where
  "manager_remove waitForCompletion turns =
     (\<lambda>s. if self s \<notin> loaders (mgr s) \<or> self s \<in> being_removed (mgr s) then (Inr False, s)
      else if \<not> waitForCompletion
      then (Inr True, s\<lparr>mgr := (mgr s)\<lparr>loaders := loaders (mgr s) - {self s}\<rparr>\<rparr>)
      else let m = (mgr s)\<lparr>being_removed := insert (self s) (being_removed (mgr s))\<rparr>;
               l = snd (wait_response (loaderCloseTimeout m) turns (ldr s))
           in (Inr True, s\<lparr>ldr := l, mgr := m\<lparr>being_removed := being_removed m - {self s}, loaders := loaders m - {self s}\<rparr>\<rparr>))"

section \<open>Closing\<close>

definition closeConnection :: "(loader, unit) op" where
  "closeConnection = modify (\<lambda>l. l\<lparr>ioStream := None\<rparr>)"

definition cleanup :: "bool \<Rightarrow> (managed, unit) op" where
  "cleanup deregister = seqs
     [whenM deregister (andthen (manager_remove False []) (ret ())),
      on_loader closeConnection,
      on_loader (modify (\<lambda>l. if interruption l = WORKING then l\<lparr>interruption := CLIENT_FINISHED\<rparr> else l))]"

definition LOADER_STOPPING_WAIT_MIN_SLEEP_MS :: nat where [layout_defs]: "LOADER_STOPPING_WAIT_MIN_SLEEP_MS = 5"
definition LOADER_STOPPING_WAIT_MAX_SLEEP_MS :: nat where [layout_defs]: "LOADER_STOPPING_WAIT_MAX_SLEEP_MS = 50"
definition LOADER_STOPPING_WAIT_TIMEOUT_MS :: int where [layout_defs]: "LOADER_STOPPING_WAIT_TIMEOUT_MS = 12000"

text \<open>The loop that waits for the client's thread to become passive. \<open>acts\<close> says at which wake-ups
  the client has set the flag. The result has the times slept. A sleep of length 0 does not occur
  (it would make the loop endless).\<close>

function stop_client :: "int \<Rightarrow> nat \<Rightarrow> bool list \<Rightarrow> loader \<Rightarrow> nat list \<times> loader" where
  "stop_client i sleep_ms acts l =
     (if i \<le> 0 \<or> sleep_ms = 0 then ([], l)
      else
        let active = clientIsActive l \<or> (acts \<noteq> [] \<and> hd acts);
            l1 = l\<lparr>clientIsActive := active\<rparr>
        in if \<not> active
           then (if isWriterFinished l1 \<or> \<not> isWritingMessageBody l1 then ([sleep_ms], l1)
                 else let next_ms = min (sleep_ms * 3 div 2) LOADER_STOPPING_WAIT_MAX_SLEEP_MS
                      in (case stop_client (i - int next_ms) next_ms (tl acts) l1 of (ss, l2) \<Rightarrow> (sleep_ms # ss, l2)))
           else (case stop_client (i - int sleep_ms) sleep_ms (tl acts) (l1\<lparr>clientIsActive := False\<rparr>) of
                   (ss, l2) \<Rightarrow> (sleep_ms # ss, l2)))"
  by pat_completeness auto
termination
proof (relation "measure (\<lambda>(i, sleep_ms, acts, l). nat i)", goal_cases)
  case (2 i sleep_ms acts l x l1 next_ms)
  then have "0 < next_ms" by (simp add: LOADER_STOPPING_WAIT_MAX_SLEEP_MS_def)
  then show ?case using 2 by auto
qed auto

declare stop_client.simps [simp del]

text \<open>The parts of \<^verbatim>\<open>finishInternal\<close> inside the \<^verbatim>\<open>try\<close> block: stopping the client and cancelling an open
  message, writing the end of the data, and leaving the manager.\<close>

definition finish_stop :: "bool list \<Rightarrow> (loader, unit) op" where
  "finish_stop acts = seqs
     [modify (\<lambda>l. l\<lparr>clientIsActive := False\<rparr>),
      set_interruption STOPPING,
      modify (\<lambda>l. snd (stop_client LOADER_STOPPING_WAIT_TIMEOUT_MS LOADER_STOPPING_WAIT_MIN_SLEEP_MS acts l)),
      bnd (gets isWritingMessageBody) (\<lambda>b. whenM b (seqs [cancelMessage, setState MESSAGE_START]))]"

definition finish_write :: "(loader, bool) op" where
  "finish_write =
     bnd (gets (\<lambda>l. interruption l \<le> STOPPING \<and> (case ioStream l of None \<Rightarrow> False | Some t \<Rightarrow> \<not> outputClosed t))) (\<lambda>waitResponse.
     andthen (whenM waitResponse (seqs [endWriting, flushOutput, stream_op tcp_closeOutput]))
     (andthen (setState FINISHED_WRITING) (ret waitResponse)))"

definition finish_body :: "bool list \<Rightarrow> recv_event list option list \<Rightarrow> (managed, unit) op" where
  "finish_body acts turns =
     andthen (on_loader (finish_stop acts))
     (bnd (on_loader finish_write) (\<lambda>waitResponse.
     bnd (manager_remove waitResponse turns) (\<lambda>success.
     if \<not> success then throw (RuntimeError ''finish(): Loader is unable to remove itself from LoaderManager'')
     else cleanup True)))"

definition on_finish_exception :: "exn \<Rightarrow> (managed, unit) op" where
  "on_finish_exception e =
     (case e of
        Undefined u \<Rightarrow> throw (Undefined u)
      | Disconnected s \<Rightarrow> seqs
          [on_loader (setState FINISHED_WRITING), on_loader (set_interruption SERVER_DISCONNECTED),
           cleanup True, throw (LoaderClosed ''Unexpected disconnection'')]
      | IOError s \<Rightarrow> seqs
          [on_loader (setState FINISHED_WRITING), on_loader (set_error IO_ERROR),
           on_loader (set_interruption SERVER_DISCONNECTED), cleanup True, throw (LoaderClosed ''finish(): IO error'')]
      | _ \<Rightarrow> seqs
          [on_loader (setState FINISHED_WRITING), on_loader (set_error ERROR),
           on_loader (set_interruption INTERRUPTION_ERROR), on_loader (set_error_msg ''std::exception: ''),
           cleanup True, throw e])"

definition finishInternal :: "bool list \<Rightarrow> recv_event list option list \<Rightarrow> (managed, unit) op" where
  "finishInternal acts turns =
     (\<lambda>s. if isWriting (ldr s)
          then (case finish_body acts turns s of
                  (Inr _, s') \<Rightarrow> (Inr (), s')
                | (Inl e, s') \<Rightarrow> on_finish_exception e s')
          else cleanup True s)"

definition loader_finish :: "bool list \<Rightarrow> recv_event list option list \<Rightarrow> (managed, unit) op" where
  "loader_finish = finishInternal"

definition loader_close :: "bool list \<Rightarrow> recv_event list option list \<Rightarrow> (managed, unit) op" where
  "loader_close acts turns =
     bnd (gets (\<lambda>s. loaderState (ldr s) = NOT_INITIALIZED)) (\<lambda>fresh.
     if fresh then ret ()
     else seqs
       [loader_finish acts turns,
        on_loader (modify (\<lambda>l. if bufferAllocPtr (messageWriter l) \<noteq> 0
          then l\<lparr>messageWriter := (messageWriter l)\<lparr>bufferAllocPtr := 0, dataPtr := 0\<rparr>\<rparr> else l)),
        on_loader (setState NOT_INITIALIZED)])"

section \<open>Opening\<close>

definition PROTOCOL_INIT :: "8 word" where [layout_defs]: "PROTOCOL_INIT = 0x18"
definition PROTOCOL_VERSION :: "16 word" where [layout_defs]: "PROTOCOL_VERSION = 32"
definition MIN_SERVER_VERSION :: int where [layout_defs]: "MIN_SERVER_VERSION = 31"
definition SERVER_ENTITYID32_SUPPORT_VERSION :: int where [layout_defs]: "SERVER_ENTITYID32_SUPPORT_VERSION = 31"
definition LOADER_MESSAGE_HEADER_SIZE_EID16 :: nat where [layout_defs]: "LOADER_MESSAGE_HEADER_SIZE_EID16 = 11"
definition LOADER_MESSAGE_HEADER_SIZE_EID32 :: nat where [layout_defs]: "LOADER_MESSAGE_HEADER_SIZE_EID32 = 13"
definition REQ_UPLOAD_DATA :: "8 word" where [layout_defs]: "REQ_UPLOAD_DATA = 1"

text \<open>What \<^verbatim>\<open>open\<close> gets from elsewhere: the message types of the stream's schema, the stream's key, the
  options, the credentials, the outcome of \<^verbatim>\<open>malloc\<close> and of connecting.\<close>

record open_request =
  reqTypes :: "string list"
  reqKey :: string
  reqMinLatency :: bool
  reqWriteMode :: "8 word"
  reqSpace :: "string option"
  reqUsername :: "byte list"
  reqEncodedPass :: "byte list"
  reqAlloc :: nat
  reqConnection :: "exn + tcp_state"

fun register_types :: "nat \<Rightarrow> string list \<Rightarrow> (symbol_translator, unit) op" where
  "register_types i [] = ret ()"
| "register_types i (name # names) =
     andthen (registerMessageDescriptor (of_nat i) name [] [])
     (andthen (\<lambda>t. case lut_set 0 0x4000 0 (of_nat i) (of_nat i) (typeIdLocal2Remote t) of
                 (x, u) \<Rightarrow> (x, t\<lparr>typeIdLocal2Remote := u\<rparr>))
     (register_types (i + 1) names))"

definition pointer_align_up :: "nat \<Rightarrow> nat \<Rightarrow> nat" where
  "pointer_align_up p a = (p + (a - 1)) div a * a"

definition send_credentials :: "open_request \<Rightarrow> (writer, unit) op" where
  "send_credentials r =
     (let data = scramble (reqUsername r)
      in if data = [] then writeByte 0
         else seqs [writeByte 1, writeUTF8_bytes data, writeUTF8_bytes (scramble (reqEncodedPass r))])"

definition upload_request :: "open_request \<Rightarrow> (writer, unit) op" where
  "upload_request r = seqs
     [writeByte REQ_UPLOAD_DATA, writeByte 0, writeByte 1, writeUTF8_bytes (string_bytes (reqKey r)),
      writeByte (reqWriteMode r), writeBoolean (reqSpace r \<noteq> None),
      (case reqSpace r of None \<Rightarrow> ret () | Some s \<Rightarrow> writeUTF8_bytes (string_bytes s))]"

definition open_loader :: "open_request \<Rightarrow> (managed, unit) op" where
  "open_loader r =
     andthen (on_loader (modify (\<lambda>l. l\<lparr>clientIsActive := False, nMsgWritten := 0, nMsgCancelled := 0\<rparr>)))
     (andthen (guard (reqTypes r \<noteq> []) (RuntimeError ''open(): No message types defined for stream''))
     (andthen (on_loader (on_tables (modify clear_tables)))
     (andthen (on_loader (on_tables (register_types 0 (reqTypes r))))
     (andthen (guard (reqAlloc r \<noteq> 0) (RuntimeError ''std::bad_alloc''))
     (andthen (on_loader (on_writer (setBuffer (reqAlloc r) (pointer_align_up (reqAlloc r) 0x1000 + 8)
         (pointer_align_up (reqAlloc r) 0x1000 + MAX_MESSAGE_SIZE + 64))))
     (case reqConnection r of Inl e \<Rightarrow> throw e | Inr t \<Rightarrow>
      andthen (on_loader (seqs
        [modify (\<lambda>l. l\<lparr>ioStream := Some t\<rparr>), resetPointers,
         on_writer (seqs [writeByte PROTOCOL_INIT, writeInt16 PROTOCOL_VERSION]), flushOutput]))
      (bnd (on_loader read_uint16) (\<lambda>v. let remoteVersion = sint v in
       andthen (guard (MIN_SERVER_VERSION \<le> remoteVersion) (RuntimeError ''open(): Incompatible HTTP-TB protocol version''))
       (andthen (on_loader (seqs [on_writer (send_credentials r), flushOutput]))
       (bnd (on_loader read_int32) (\<lambda>handshake.
        if RESP_ERROR = handshake
        then seqs
          [on_loader (seqs [setState NOT_INITIALIZED, set_error HANDSHAKE_ERROR, set_interruption SERVER_FINISHED_ERROR,
             readErrorResponse]),
           cleanup True, throw (ServerError ''open(): Loader handshake error'')]
        else seqs
          [on_loader (seqs
            [modify (\<lambda>l. let e32 = SERVER_ENTITYID32_SUPPORT_VERSION \<le> remoteVersion in
               l\<lparr>useEntityId32 := e32, messageWriter := (messageWriter l)\<lparr>headerSize :=
                  if e32 then LOADER_MESSAGE_HEADER_SIZE_EID32 else LOADER_MESSAGE_HEADER_SIZE_EID16\<rparr>\<rparr>),
             on_writer (upload_request r), flushOutput,
             modify (\<lambda>l. if reqMinLatency r then l\<lparr>minChunkSize := 0\<rparr> else l)]),
           modify (\<lambda>s. s\<lparr>mgr := manager_add (self s) (mgr s)\<rparr>),
           on_loader (setState WRITING)])))))))))))"

end
