(* ===== verification/LoaderTheorems.thy ===== *)
theory LoaderTheorems
  imports LoaderRefinement LoaderLifecycle
begin

text \<open>
  The theorems on the loader: what it has put on the wire after any sequence of the client's
  operations, what a receiver reads from that, how a loader is finished, and the cases in which data is
  lost or sent that should not be.
\<close>

section \<open>The stream\<close>

text \<open>C2: The loader refines its contract. From every state that corresponds to an abstract loader, every
  sequence of the client's operations that the abstract loader accepts (types and instruments are known,
  the message fits the buffer, the loader is not interrupted) returns, and what was sent together with the
  committed bytes of the buffer is the handshake followed by the encoding of the abstract log.\<close>

theorem loader_refines_contract:
  assumes "refines hello l s" "run_spec spec_step ops s = Some s'"
  shows "\<exists>l'. mapM client_step ops l = (Inr (), l') \<and> refines hello l' s' \<and>
    stream_of l' = hello @ wire_bytes (log s') \<and> length (buffered l') = fill s'"
  using wire.simulate_run [OF assms] refinesD(3,5) by blast

text \<open>A loader that has just been opened.\<close>

definition sample_loader_tables :: symbol_translator where
  "sample_loader_tables = sample_tables\<lparr>instruments := snd (bilut_add 0 ''A'' new_bilut),
     typeIdLocal2Remote := \<lparr>lutData = [0, 1], lutSize = 2, lutDefault = EMPTY_MSG_TYPE_ID\<rparr>\<rparr>"

definition sample_loader :: "nat \<Rightarrow> loader" where
  "sample_loader n =
     \<lparr>messageWriter = sample_writer, loaderState = WRITING, messageStart = 0, writePtr = 8,
      ioStream = Some \<lparr>incoming = [], tcpBytesRead = 0, tcpBytesWritten = 1, sent = [0x18], isClosed = False,
        inputClosed = False, outputClosed = False\<rparr>,
      sendResults = [], nMsgWritten = 0, nMsgCancelled = 0, minChunkSize = n, useEntityId32 = True, tables = sample_loader_tables,
      interruption = WORKING, loaderError = \<lparr>errorCode = NO_ERROR, className = [], errorMsg = []\<rparr>, clientIsActive = False,
      writerFinished = False, errorListeners = {}, subscriptionListeners = {}, notifications = []\<rparr>"

definition sample_spec :: "nat \<Rightarrow> loader_spec" where
  "sample_spec n =
     \<lparr>log = [], inBlock = False, draft = None, fill = 0, cap = 192, chunk = n, eid32 = True, intr = WORKING, tabs = sample_loader_tables\<rparr>"

lemma sample_refines: "refines [0x18] (sample_loader n) (sample_spec n)"
proof -
  have "written sample_writer = []" by (simp add: written_def sample_writer_def)
  moreover have "shape_ok sample_writer" "bufferStart sample_writer = 8" "dataEnd sample_writer = 200"
    by (simp_all add: sample_writer_def shape_ok_def)
  ultimately show ?thesis
    by (simp add: refines_def loader_ready_def draft_ok_def stream_of_def buffered_def sent_bytes_def sample_loader_def sample_spec_def
        less_eq_interruption_def)
qed

definition sample_ops :: "client_op list" where
  "sample_ops = [NextIds 1 0 5, WriteFields [VBoolean 1], NextIds 1 0 6, WriteFields [VBoolean 0], Commit]"

definition sample_log :: "wire_item list" where
  "sample_log = [BlockStart, Message (message_header True 1 0 5 @ [1]), Message (message_header True 1 0 6 @ [0])]"

lemma sample_run: "map_option log (run_spec spec_step sample_ops (sample_spec 100)) = Some sample_log"
  by code_simp

theorem loader_refines_contract_witness:
  "\<exists>l'. mapM client_step sample_ops (sample_loader 100) = (Inr (), l') \<and> stream_of l' = [0x18] @ wire_bytes sample_log"
proof -
  from sample_run obtain s' where s': "run_spec spec_step sample_ops (sample_spec 100) = Some s'" "log s' = sample_log" by auto
  from loader_refines_contract [OF sample_refines s'(1)] s'(2) show ?thesis by auto
qed



text \<open>Starting a message with \<^verbatim>\<open>beginMessage\<close> cancels the message that is being written, except when
  the symbol is new to the loader: then the cancelled message is committed after all, because the
  definition of the instrument closes the block.\<close>

theorem begin_with_new_symbol_commits:
  assumes "refines hello l s" "draft s = Some d" "spec_next_symbol False u n t s = Some s'"
  shows "\<exists>l'. beginMessage_symbol u n t l = (Inr (), l') \<and>
    stream_of l' = stream_of l @
      (if findInstrument (tables l) n = emptyEntityId
       then wire_bytes [Message d, BlockEnd, Instrument (string_bytes n), BlockStart] else [])"
proof -
  from refines_next_symbol [OF assms(1,3)] obtain l' where
    l': "beginMessage_symbol u n t l = (Inr (), l')" "refines hello l' s'" by (auto simp: beginMessage_symbol_def)
  have blk: "inBlock s" using refines_inside(1) [OF assms(1,2)] .
  have tb: "tables l = tabs s" using readyD(5) [OF refinesD(1) [OF assms(1)]] .
  have "log s' = log s @ (if findInstrument (tabs s) n = emptyEntityId
       then [Message d, BlockEnd, Instrument (string_bytes n), BlockStart] else [])"
    using assms(2,3) blk
    by (auto simp: spec_next_symbol_def spec_instrument_def spec_next_def spec_close_block_def spec_commit_def spec_put_def
        spec_flush_def bind_eq_Some_conv Let_def split: if_splits prod.splits sum.splits)
  then show ?thesis using l' refinesD(5) [OF assms(1)] refinesD(5) [OF l'(2)] tb by auto
qed

lemma sample_draft:
  "map_option draft (run_spec spec_step (take 2 sample_ops) (sample_spec 100)) = Some (Some (message_header True 1 0 5 @ [1]))"
  by code_simp

lemma sample_draft_next:
  "map_option (\<lambda>s. map_option log (spec_next_symbol False 1 ''B'' 7 s)) (run_spec spec_step (take 2 sample_ops) (sample_spec 100)) =
     Some (Some [BlockStart, Message (message_header True 1 0 5 @ [1]), BlockEnd, Instrument [66], BlockStart])"
  "map_option (\<lambda>s. findInstrument (tabs s) ''B'') (run_spec spec_step (take 2 sample_ops) (sample_spec 100)) = Some emptyEntityId"
  by code_simp+

theorem begin_with_new_symbol_commits_witness:
  "\<exists>l1 l2. mapM client_step (take 2 sample_ops) (sample_loader 100) = (Inr (), l1) \<and> beginMessage_symbol 1 ''B'' 7 l1 = (Inr (), l2) \<and>
     stream_of l2 = stream_of l1 @ wire_bytes [Message (message_header True 1 0 5 @ [1]), BlockEnd, Instrument [66], BlockStart]"
proof -
  from sample_draft obtain s where s: "run_spec spec_step (take 2 sample_ops) (sample_spec 100) = Some s"
    "draft s = Some (message_header True 1 0 5 @ [1])" by auto
  from wire.simulate_run [OF sample_refines s(1)] obtain l1 where
    l1: "mapM client_step (take 2 sample_ops) (sample_loader 100) = (Inr (), l1)" "refines [0x18] l1 s" by blast
  from sample_draft_next s(1) obtain s' where s': "spec_next_symbol False 1 ''B'' 7 s = Some s'" "findInstrument (tabs s) ''B'' = emptyEntityId"
    by auto
  have sb: "string_bytes ''B'' = [66]" by code_simp
  have new: "findInstrument (tables l1) ''B'' = emptyEntityId" using s'(2) readyD(5) [OF refinesD(1) [OF l1(2)]] by simp
  from begin_with_new_symbol_commits [OF l1(2) s(2) s'(1), unfolded if_P [OF new] sb] l1(1) show ?thesis by blast
qed

section \<open>Data that should not be sent, and data that is lost\<close>

text \<open>C28: A write that does not fit throws, but it leaves the write pointer behind the end of the buffer. A
  client that goes on with \<^verbatim>\<open>commitMessage\<close> (or \<^verbatim>\<open>next\<close>) sends the broken message, and with it
  the memory behind the end of the buffer.\<close>

theorem overflow_then_commit_sends_outside:
  assumes "refines hello l s" "draft s = Some d" "expansionPoints (messageWriter l) = []" "chunk s \<le> cap s"
    and "cap s < fill s + 4 + length d + length bs"
  shows "\<exists>l1 l2. on_writer (putBytes bs) l = (Inl overflow, l1) \<and> commitMessage l1 = (Inr (), l2) \<and>
    length (sent_bytes l2) = length (sent_bytes l) + (fill s + 4 + length d + length bs) \<and>
    drop (length (sent_bytes l) + cap s) (sent_bytes l2) =
      load_bytes (wmem (messageWriter l)) (dataEnd (messageWriter l)) (fill s + 4 + length d + length bs - cap s)"
proof -
  let ?w = "messageWriter l" and ?n = "fill s + 4 + length d"
  note r = refinesD [OF assms(1)] and i = refines_inside [OF assms(1,2)]
  note rd = readyD [OF r(1)]
  obtain t where t: "ioStream l = Some t" "\<not> outputClosed t" using rd(1) by blast
  have top: "depth ?w = 0" "containerContentsExtraSize ?w ! 0 = 0" "length (containerContentsExtraSize ?w) = 17"
    using i(4) assms(3) by (auto simp: top_level_def total_extra_def shape_ok_def unat_eq_0)
  have wr: "written ?w = buffered l @ [0, 0, 0, 0] @ d" using i(6) assms(3) by (simp add: assembled_def)
  then have "length (written ?w) = ?n" using r(3) by simp
  then have dp: "dataPtr ?w = bufferStart ?w + ?n" using rd(12) by (auto simp: length_written shape_ok_def)
  define e where "e = bufferStart ?w + cap s"
  have e: "dataEnd ?w = e" "dataPtr ?w \<le> e" "e < dataPtr ?w + length bs" using rd(10) dp assms(5) i(5) by (simp_all add: e_def)
  define m1 where "m1 = store_bytes (dataPtr ?w) (take (e - dataPtr ?w) bs) (wmem ?w)"
  define l1 where "l1 = l\<lparr>messageWriter := ?w\<lparr>dataPtr := dataPtr ?w + length bs, wmem := m1\<rparr>\<rparr>"
  have over: "on_writer (putBytes bs) l = (Inl overflow, l1)"
    using e by (simp add: on_writer_def putBytes_def andthen_def bnd_def l1_def m1_def onOverflow_def not_less [symmetric])
  define p where "p = dataPtr ?w + length bs"
  define m2 where "m2 = storeBE (messageStart l - 4) (of_nat (p - messageStart l) :: 32 word) m1"
  have fin: "finishMessage (messageStart l) (messageWriter l1) = (Inr p, messageWriter l1)"
    using top by (simp add: finishMessage_def finishMessageCommon_def bnd_def l1_def p_def)
  define l2 where "l2 = l1\<lparr>messageWriter := (messageWriter l1)\<lparr>wmem := m2\<rparr>, nMsgWritten := nMsgWritten l + 1\<rparr>"
  have full: "minChunkSize l2 = 0 \<or> minChunkSize l2 \<le> p - bufferStart (messageWriter l2)"
    using rd(6) assms(4,5) dp by (simp add: l2_def l1_def p_def)
  let ?bs = "load_bytes m2 (bufferStart ?w) (p - bufferStart ?w)"
  have u: "unsent (l2\<lparr>clientIsActive := True\<rparr>) = ?bs" using rd(8) by (simp add: unsent_def l2_def l1_def p_def)
  define t3 where "t3 = t\<lparr>sent := sent t @ ?bs, tcpBytesWritten := tcpBytesWritten t + length ?bs\<rparr>"
  have "transmitBuffer (l2\<lparr>clientIsActive := True\<rparr>) = (Inr (), l2\<lparr>clientIsActive := True, ioStream := Some t3\<rparr>)"
    using t rd(2) u by (simp add: transmitBuffer_def tcp_write_def l2_def l1_def t3_def)
  then have flush: "\<exists>l3. flushOutputMsg l2 = (Inr (), l3) \<and> ioStream l3 = Some t3"
    using rd(3,4) by (simp add: flushOutputMsg_def flushOutputInternal_def andthen_def bnd_def resetPointers_def l2_def l1_def)
  then obtain l3 where l3: "flushOutputMsg l2 = (Inr (), l3)" "ioStream l3 = Some t3" by blast
  have "endMessage l1 = (Inr (), l3\<lparr>loaderState := MESSAGE_START\<rparr>)"
    using fin full l3(1)
    by (simp add: endMessage_def andthen_def bnd_def on_writer_def setState_def l2_def l1_def m2_def)
  then have commit: "commitMessage l1 = (Inr (), l3\<lparr>loaderState := MESSAGE_START\<rparr>)"
    using i(2) by (simp add: commitMessage_def bnd_def isWritingMessageBody_def l1_def)
  have n: "p - bufferStart ?w = ?n + length bs" using dp by (simp add: p_def)
  have "length (sent_bytes (l3\<lparr>loaderState := MESSAGE_START\<rparr>)) = length (sent_bytes l) + (?n + length bs)"
    using l3(2) t(1) n by (simp add: sent_bytes_def t3_def)
  moreover have "load_bytes m2 e (?n + length bs - cap s) = load_bytes (wmem ?w) e (?n + length bs - cap s)"
  proof (rule load_bytes_cong)
    fix j assume "j < ?n + length bs - cap s"
    have "messageStart l - 4 + 4 \<le> e" using i(3) r(4) i(5) by (simp add: e_def)
    then have "m2 (e + j) = m1 (e + j)" by (simp add: m2_def storeBE_bytes store_bytes_outside)
    also have "\<dots> = wmem ?w (e + j)" using e(2) by (simp add: m1_def store_bytes_outside)
    finally show "m2 (e + j) = wmem ?w (e + j)" .
  qed
  moreover have "drop (cap s) ?bs = load_bytes m2 e (?n + length bs - cap s)"
    using n assms(5) by (simp add: e_def)
  ultimately have "drop (length (sent_bytes l) + cap s) (sent_bytes (l3\<lparr>loaderState := MESSAGE_START\<rparr>)) =
      load_bytes (wmem ?w) (dataEnd ?w) (?n + length bs - cap s)"
    using l3(2) t(1) e(1) by (simp add: sent_bytes_def t3_def)
  then show ?thesis
    using over commit \<open>length (sent_bytes (l3\<lparr>loaderState := MESSAGE_START\<rparr>)) = _\<close> by blast
qed

text \<open>A loader in the middle of a message.\<close>

definition sample_body :: loader where
  "sample_body = (sample_loader 100)\<lparr>loaderState := MESSAGE_BODY, messageStart := 13,
     messageWriter := sample_writer\<lparr>wmem := (\<lambda>i. if i = 8 then 3 else 0), dataPtr := 14\<rparr>\<rparr>"

definition sample_body_spec :: loader_spec where
  "sample_body_spec = (sample_spec 100)\<lparr>log := [BlockStart], inBlock := True, draft := Some [0], fill := 1\<rparr>"

lemma sample_body_refines: "refines [0x18] sample_body sample_body_spec"
proof -
  let ?w = "sample_writer\<lparr>wmem := (\<lambda>i. if i = 8 then 3 else 0), dataPtr := 14\<rparr>"
  have w: "written ?w = [3, 0, 0, 0, 0, 0]" "expansionPoints ?w = []" "shape_ok ?w" "bufferStart ?w = 8" "dataEnd ?w = 200"
    by (simp_all add: sample_writer_def written_def shape_ok_def load_bytes_def upt_rec)
  then have "assembled ?w = [3] @ [0, 0, 0, 0] @ [0]" "top_level 13 ?w"
    by (simp_all add: assembled_def top_level_def total_extra_def sample_writer_def)
  moreover have "load_bytes (wmem ?w) 8 1 = [3]" by (simp add: load_bytes_def)
  ultimately show ?thesis using w
    by (simp add: refines_def loader_ready_def draft_ok_def stream_of_def buffered_def sent_bytes_def sample_body_def sample_loader_def
        sample_body_spec_def sample_spec_def less_eq_interruption_def MESSAGE_BLOCK_ID_def)
qed

theorem overflow_then_commit_sends_outside_witness:
  "\<exists>l1 l2. on_writer (putBytes (replicate 300 7)) sample_body = (Inl overflow, l1) \<and> commitMessage l1 = (Inr (), l2) \<and>
     length (sent_bytes l2) = 307"
proof -
  have "draft sample_body_spec = Some [0]" "expansionPoints (messageWriter sample_body) = []" "chunk sample_body_spec \<le> cap sample_body_spec"
    "cap sample_body_spec < fill sample_body_spec + 4 + length [0 :: byte] + length (replicate 300 (7 :: byte))"
    by (simp_all add: sample_body_spec_def sample_spec_def sample_body_def sample_writer_def)
  moreover have "length (sent_bytes sample_body) = 1" "fill sample_body_spec = 1"
    by (simp_all add: sample_body_def sample_loader_def sent_bytes_def sample_body_spec_def)
  ultimately show ?thesis
    using overflow_then_commit_sends_outside [OF sample_body_refines, of "[0]" "replicate 300 7"] by fastforce
qed

text \<open>C29: The loader ignores how much of the buffer a \<^verbatim>\<open>send\<close> has taken: what was not taken is lost.\<close>

theorem partial_send_loses_rest:
  assumes "ioStream l = Some t" "\<not> outputClosed t" "interruption l \<le> STOPPING" "sendResults l = Some n # rs"
  shows "\<exists>l'. flushOutputMsg l = (Inr (), l') \<and> sent_bytes l' = sent_bytes l @ take n (unsent l) \<and>
    written (messageWriter l') = [] \<and> unsent l' = []"
proof -
  have "unsent (l\<lparr>clientIsActive := True\<rparr>) = unsent l" by (simp add: unsent_def)
  then show ?thesis using assms
    by (simp add: flushOutputMsg_def flushOutputInternal_def andthen_def bnd_def transmitBuffer_def tcp_write_def resetPointers_def
        resetPointer_def sent_bytes_def written_def) (simp add: unsent_def)
qed

theorem partial_send_loses_rest_witness:
  "\<exists>l'. flushOutputMsg ((sample_loader 0)\<lparr>sendResults := [Some 1], messageWriter := sample_writer\<lparr>dataPtr := 10\<rparr>\<rparr>) = (Inr (), l') \<and>
     sent_bytes l' = [0x18, 0] \<and> unsent l' = []"
proof -
  let ?l = "(sample_loader 0)\<lparr>sendResults := [Some 1], messageWriter := sample_writer\<lparr>dataPtr := 10\<rparr>\<rparr>"
  obtain t where "ioStream ?l = Some t" "\<not> outputClosed t" by (simp add: sample_loader_def)
  moreover have "interruption ?l \<le> STOPPING" by (simp add: sample_loader_def less_eq_interruption_def)
  moreover have "sent_bytes ?l = [0x18]" "take 1 (unsent ?l) = [0]"
    by (simp_all add: sample_loader_def sent_bytes_def unsent_def sample_writer_def load_bytes_def)
  ultimately show ?thesis using partial_send_loses_rest [of ?l t 1 "[]"] by simp blast
qed

section \<open>The end of the stream\<close>

lemma refines_stop:
  assumes "refines hello l s"
  shows "refines hello (l\<lparr>interruption := STOPPING\<rparr>) (s\<lparr>intr := STOPPING\<rparr>)"
proof -
  let ?l = "l\<lparr>interruption := STOPPING\<rparr>" and ?s = "s\<lparr>intr := STOPPING\<rparr>"
  have "loader_ready l s \<Longrightarrow> loader_ready ?l ?s" by (simp add: loader_ready_def)
  moreover have "draft_ok ?l ?s = draft_ok l s" by (cases "draft s") (simp_all add: draft_ok_def)
  moreover have "buffered ?l = buffered l" "stream_of ?l = stream_of l" by (simp_all add: stream_of_def buffered_def sent_bytes_def)
  ultimately show ?thesis using assms by (simp add: refines_def)
qed

lemma stop_client_changes: "\<exists>b. snd (stop_client i k acts l) = l\<lparr>clientIsActive := b\<rparr>"
proof (induction i k acts l rule: stop_client.induct)
  case (1 i k acts l)
  let ?active = "clientIsActive l \<or> (acts \<noteq> [] \<and> hd acts)"
  let ?l1 = "l\<lparr>clientIsActive := ?active\<rparr>" and ?next = "min (k * 3 div 2) LOADER_STOPPING_WAIT_MAX_SLEEP_MS"
  consider "i \<le> 0 \<or> k = 0" | "\<not> (i \<le> 0 \<or> k = 0)" "\<not> ?active" "isWriterFinished ?l1 \<or> \<not> isWritingMessageBody ?l1"
    | "\<not> (i \<le> 0 \<or> k = 0)" "\<not> ?active" "\<not> (isWriterFinished ?l1 \<or> \<not> isWritingMessageBody ?l1)"
    | "\<not> (i \<le> 0 \<or> k = 0)" "?active" by blast
  then show ?case
  proof cases
    case 1
    then show ?thesis by (auto simp: stop_client.simps intro: exI [of _ "clientIsActive l"])
  next
    case 2
    then show ?thesis by (auto simp: stop_client.simps Let_def)
  next
    case 3
    from "1.IH"(1) [OF 3(1) refl refl 3(2,3) refl] obtain b where
      "snd (stop_client (i - int ?next) ?next (tl acts) ?l1) = ?l1\<lparr>clientIsActive := b\<rparr>" by blast
    then show ?thesis using 3 by (subst stop_client.simps) (auto simp: Let_def split: prod.splits)
  next
    case 4
    then have "\<not> \<not> ?active" by blast
    from "1.IH"(2) [OF 4(1) refl refl this] obtain b where
      "snd (stop_client (i - int k) k (tl acts) (?l1\<lparr>clientIsActive := False\<rparr>)) = ?l1\<lparr>clientIsActive := b\<rparr>" by auto
    then show ?thesis using 4 by (subst stop_client.simps) (auto simp: Let_def split: prod.splits)
  qed
qed

lemma finish_stop_cancels:
  assumes "refines hello l s"
  shows "\<exists>l'. finish_stop acts l = (Inr (), l') \<and> refines hello l' (s\<lparr>intr := STOPPING, draft := None\<rparr>)"
proof -
  let ?l0 = "l\<lparr>clientIsActive := False, interruption := STOPPING\<rparr>" and ?s = "s\<lparr>intr := STOPPING\<rparr>"
  obtain b where b: "snd (stop_client LOADER_STOPPING_WAIT_TIMEOUT_MS LOADER_STOPPING_WAIT_MIN_SLEEP_MS acts ?l0) = ?l0\<lparr>clientIsActive := b\<rparr>"
    using stop_client_changes by blast
  define l1 where "l1 = ?l0\<lparr>clientIsActive := b\<rparr>"
  have r: "refines hello l1 ?s" unfolding l1_def by (intro refines_active refines_stop [OF refines_active [OF assms]])
  have run: "finish_stop acts l = bnd (gets isWritingMessageBody) (\<lambda>b. whenM b (seqs [cancelMessage, setState MESSAGE_START])) l1"
    using b by (simp add: finish_stop_def andthen_def bnd_def [of "modify _"] bnd_def [of "set_interruption _"] set_interruption_def l1_def)
  show ?thesis
  proof (cases "draft s")
    case None
    then have "loaderState l1 \<noteq> MESSAGE_BODY" using refines_outside [of ?s hello l1] r by auto
    moreover have "s\<lparr>intr := STOPPING, draft := None\<rparr> = ?s" using None by (cases s) simp
    ultimately show ?thesis using run r by (simp add: bnd_def isWritingMessageBody_def)
  next
    case (Some d)
    then have d: "draft ?s = Some d" by simp
    note i = refines_inside(1,2) [OF r d]
    from cancel_outside [OF r d] obtain l2 where l2: "cancelMessage l1 = (Inr (), l2)" "outside hello l2 (?s\<lparr>draft := None\<rparr>)" by blast
    let ?s2 = "?s\<lparr>draft := None\<rparr>"
    have "refines hello (l2\<lparr>loaderState := MESSAGE_START\<rparr>) ?s2"
      using refines_outside [of ?s2 hello "l2\<lparr>loaderState := MESSAGE_START\<rparr>"] outside_change(1) [OF l2(2)] i(1) refinesD(6) [OF r] by simp
    moreover have "finish_stop acts l = (Inr (), l2\<lparr>loaderState := MESSAGE_START\<rparr>)"
      using run i(2) l2(1) by (simp add: bnd_def [of "gets _"] isWritingMessageBody_def andthen_ok setState_def)
    ultimately show ?thesis by simp
  qed
qed

text \<open>C16: Finishing a loader whose connection is intact cancels the message that is being written, sends
  everything that was committed and ends the stream: a receiver gets the log, the end of the last block if
  one was open, and the terminator, and nothing else, whatever the client's thread does while
  the loader waits for it.\<close>

theorem finish_completes_stream:
  assumes "refines hello l s" "fill s + 4 \<le> cap s"
  shows "\<exists>l'. bnd (finish_stop acts) (\<lambda>_. finish_write) l = (Inr True, l') \<and>
    parse_wire False (drop (length hello) (sent_bytes l')) = Some (log s @ (if inBlock s then [BlockEnd] else []) @ [Terminator]) \<and>
    unsent l' = [] \<and> loaderState l' = FINISHED_WRITING \<and> (\<exists>t. ioStream l' = Some t \<and> outputClosed t)"
proof -
  from finish_stop_cancels [OF assms(1)] obtain l0 where
    l0: "finish_stop acts l = (Inr (), l0)" "refines hello l0 (s\<lparr>intr := STOPPING, draft := None\<rparr>)" by blast
  let ?s0 = "s\<lparr>intr := STOPPING, draft := None\<rparr>"
  note rd = readyD [OF refinesD(1) [OF l0(2)]]
  have "\<exists>s1. spec_close_block ?s0 = Some s1 \<and> log s1 = log s @ (if inBlock s then [BlockEnd] else []) \<and> cap s1 = cap s"
    using assms(2) by (cases "inBlock s") (simp_all add: spec_close_block_def spec_commit_def spec_put_def)
  then obtain s1 where s1: "spec_close_block ?s0 = Some s1"
      "log s1 = log s @ (if inBlock s then [BlockEnd] else [])" "cap s1 = cap s" by blast
  from refines_close_block [OF l0(2) s1(1)] obtain l1 where
    l1: "endMessageBlockIfNeeded l0 = (Inr (), l1)" "refines hello l1 s1" "draft s1 = None" "\<not> inBlock s1" by blast
  have o1: "outside hello l1 s1" "wf_log False (log s1) False" using l1(2,4) refines_outside [OF l1(3), of hello l1] by auto
  from flush_outside [OF o1(1)] obtain l2 where l2: "flushOutputMsg l1 = (Inr (), l2)" "outside hello l2 (spec_flush s1)" by blast
  have "spec_put Terminator (spec_flush s1) = Some (spec_flush s1\<lparr>log := log s1 @ [Terminator], fill := 1\<rparr>)"
    using s1(3) assms(2) by (simp add: spec_put_def spec_flush_def)
  from emit_outside [OF l2(2) emits_putByte this] obtain l3 where
    l3: "on_writer (writeByte TERMINATOR_BLOCK_ID) l2 = (Inr (), l3)"
      "outside hello l3 (spec_flush s1\<lparr>log := log s1 @ [Terminator], fill := 1\<rparr>)" by (auto simp: writeByte_def)
  let ?s3 = "spec_flush s1\<lparr>log := log s1 @ [Terminator], fill := 1\<rparr>"
  from flush_outside [OF outside_change(1) [OF l3(2)], of FINISHED_WRITING] obtain l4 where
    l4: "flushOutput (l3\<lparr>loaderState := FINISHED_WRITING\<rparr>) = (Inr (), l4)" "outside hello l4 (spec_flush ?s3)" "loaderState l4 = FINISHED_WRITING"
    by (auto simp: flushOutput_def flushOutputMsg_def)
  have w4: "written (messageWriter l4) = []" "loader_ready l4 (spec_flush ?s3)" "sent_bytes l4 @ written (messageWriter l4) = hello @ wire_bytes (log s1 @ [Terminator])"
    using l4(2) by (auto simp: outside_def spec_flush_def)
  note rd4 = readyD [OF w4(2)]
  obtain t where t: "ioStream l4 = Some t" using rd4(1) by blast
  let ?l5 = "l4\<lparr>ioStream := Some (t\<lparr>outputClosed := True\<rparr>), loaderState := FINISHED_WRITING\<rparr>"
  have fin: "endWriting l0 = (Inr (), l3\<lparr>loaderState := FINISHED_WRITING\<rparr>)"
    using l1(1) l2(1) l3(1) by (simp add: endWriting_def andthen_ok setState_def)
  obtain t0 where t0: "ioStream l0 = Some t0" "\<not> outputClosed t0" using rd(1) by blast
  then have "finish_write l0 = (Inr True, ?l5)"
    using fin l4(1) t rd(3,4) by (simp add: finish_write_def bnd_def [of "gets _"] andthen_ok stream_op_def tcp_closeOutput_def setState_def)
  then have run: "bnd (finish_stop acts) (\<lambda>_. finish_write) l = (Inr True, ?l5)" using l0(1) by (simp add: bnd_ok)
  have "wf_log False (log s1 @ [Terminator]) False" unfolding wf_log_append using o1(2) by auto
  from parse_wire_bytes [OF this] have "parse_wire False (drop (length hello) (sent_bytes ?l5)) = Some (log s1 @ [Terminator])"
    using w4(1,3) t by (simp add: sent_bytes_def)
  moreover have "unsent ?l5 = []" using w4(1) rd4(8) by (simp add: unsent_def written_def)
  ultimately show ?thesis using run s1(2) by simp
qed

theorem finish_completes_stream_witness:
  "\<exists>l'. bnd (finish_stop [True, False]) (\<lambda>_. finish_write) sample_body = (Inr True, l') \<and>
     parse_wire False (drop 1 (sent_bytes l')) = Some [BlockStart, BlockEnd, Terminator]"
proof -
  have "fill sample_body_spec + 4 \<le> cap sample_body_spec" "log sample_body_spec = [BlockStart]" "inBlock sample_body_spec"
    by (simp_all add: sample_body_spec_def sample_spec_def)
  then show ?thesis using finish_completes_stream [OF sample_body_refines, of "[True, False]"] by auto
qed

end
