(* ===== verification/LoaderResponses.thy ===== *)
theory LoaderResponses
  imports LoaderTheorems
begin

text \<open>
  What the loader makes of the messages of the server: a reference encoding of the server's side of the
  protocol, and the theorem that the loader's response loop decodes it, however the network splits it.
\<close>

section \<open>The messages of the server\<close>

datatype server_message =
    ErrorMessage "32 word" "byte list"
  | Keepalive
  | TypesMessage bool bool "byte list list"
  | EntitiesMessage bool bool "byte list list"

definition sized_string :: "byte list \<Rightarrow> byte list" where
  "sized_string s = be_bytes 2 (of_nat (length s) :: 16 word) @ s"

definition strings_bytes :: "byte list list \<Rightarrow> byte list" where
  "strings_bytes ss = be_bytes 4 (of_nat (length ss) :: 32 word) @ concat (map sized_string ss)"

definition bool_byte :: "bool \<Rightarrow> byte" where "bool_byte b = (if b then 1 else 0)"

text \<open>A change that concerns everything has no list.\<close>

definition change_bytes :: "bool \<Rightarrow> bool \<Rightarrow> byte list list \<Rightarrow> byte list" where
  "change_bytes all added ss = [bool_byte all, bool_byte added] @ (if all then [] else strings_bytes ss)"

fun server_message_bytes :: "server_message \<Rightarrow> byte list" where
  "server_message_bytes (ErrorMessage c s) = ERROR_BLOCK_ID # be_bytes 4 c @ sized_string s"
| "server_message_bytes Keepalive = [LOADER_KEEPALIVE_ID]"
| "server_message_bytes (TypesMessage all added ss) = TYPE_BLOCK_ID # change_bytes all added ss"
| "server_message_bytes (EntitiesMessage all added ss) = INSTRUMENT_BLOCK_ID # change_bytes all added ss"

text \<open>The final response: an error has a class name and a message.\<close>

fun response_bytes :: "(byte list \<times> byte list) option \<Rightarrow> byte list" where
  "response_bytes None = LOADER_RESPONSE_BLOCK_ID # be_bytes 4 (0 :: 32 word)"
| "response_bytes (Some (c, m)) = LOADER_RESPONSE_BLOCK_ID # be_bytes 4 RESP_ERROR @ sized_string c @ sized_string m"

fun events_of :: "server_message \<Rightarrow> loader_event list" where
  "events_of (ErrorMessage c s) = [ErrorEvent c s]"
| "events_of Keepalive = []"
| "events_of (TypesMessage all added ss) = [TypesEvent all added (if all then [] else ss)]"
| "events_of (EntitiesMessage all added ss) = [EntitiesEvent all added (if all then [] else ss)]"

definition short_string :: "byte list \<Rightarrow> bool" where
  "short_string s \<longleftrightarrow> int (length s) < 0xFFFF"

fun sendable :: "server_message \<Rightarrow> bool" where
  "sendable (ErrorMessage c s) = short_string s"
| "sendable Keepalive = True"
| "sendable (TypesMessage all added ss) = (int (length ss) < 2 ^ 31 \<and> list_all short_string ss)"
| "sendable (EntitiesMessage all added ss) = (int (length ss) < 2 ^ 31 \<and> list_all short_string ss)"

fun listeners_of :: "loader \<Rightarrow> loader_event \<Rightarrow> nat set" where
  "listeners_of l (ErrorEvent c s) = errorListeners l"
| "listeners_of l (TypesEvent all added ss) = subscriptionListeners l"
| "listeners_of l (EntitiesEvent all added ss) = subscriptionListeners l"

section \<open>Delivered chunks\<close>

text \<open>The stream has nothing but nonempty pieces of data.\<close>

fun data_event :: "recv_event \<Rightarrow> bool" where
  "data_event (Received bs) = (bs \<noteq> [])"
| "data_event _ = False"

definition feeds :: "tcp_state \<Rightarrow> byte list \<Rightarrow> bool" where
  "feeds t bs \<longleftrightarrow> \<not> inputClosed t \<and> list_all data_event (incoming t) \<and> delivered (incoming t) = bs"

lemma chunks_no_shutdown: "list_all data_event evs \<Longrightarrow> no_shutdown_error evs"
  by (induction evs rule: delivered.induct) auto

lemma recv_loop_chunks: "recv_loop mn mx n acc evs = (r, evs') \<Longrightarrow> list_all data_event evs \<Longrightarrow> list_all data_event evs'"
proof (induction mn mx n acc evs rule: recv_loop.induct)
  case (2 mn mx n acc ev evs)
  then show ?case by (cases ev) (auto simp: Let_def split: if_splits)
qed (auto split: if_splits)

lemma tcp_read_feeds:
  assumes "feeds t (bs @ rest)"
  shows "\<exists>t'. tcp_read (length bs) (length bs) t = (Inr (length bs, bs), t') \<and> feeds t' rest"
proof -
  have ok: "tcp_ok t" "tcp_avail t = bs @ rest"
    using assms chunks_no_shutdown by (auto simp: feeds_def tcp_ok_def tcp_avail_def)
  from tcp_read_enough [OF ok(1), of "length bs" "length bs"] ok(2) obtain t' where
    t': "tcp_read (length bs) (length bs) t = (Inr (length bs, bs), t')" "tcp_avail t' = rest" "tcp_ok t'" by auto
  moreover have "list_all data_event (incoming t')"
    using t'(1) assms recv_loop_chunks by (auto simp: tcp_read_def feeds_def split: if_splits prod.splits sum.splits)
  ultimately show ?thesis by (auto simp: feeds_def tcp_ok_def tcp_avail_def)
qed

lemma feeds_empty: "feeds t [] \<Longrightarrow> incoming t = []"
  unfolding feeds_def by (cases "incoming t" rule: delivered.cases) auto

lemma tcp_tryRead_feeds:
  assumes "feeds t (b # rest)"
  shows "\<exists>t'. tcp_tryRead 1 t = (Inr (1, [b]), t') \<and> feeds t' rest"
  using tcp_read_feeds [of t "[b]" rest] assms by (auto simp: tcp_tryRead_def feeds_def)

section \<open>Reading from the chunks\<close>

text \<open>\<open>receives m bs x es\<close>: from any state whose stream continues with \<open>bs\<close>, \<open>m\<close> takes these bytes, returns \<open>x\<close> and
  tells the listeners \<open>es\<close>; nothing else changes.\<close>

definition told :: "loader \<Rightarrow> loader_event list \<Rightarrow> (nat set \<times> loader_event) list" where
  "told l es = map (\<lambda>e. (listeners_of l e, e)) es"

definition receives :: "(loader, 'a) op \<Rightarrow> byte list \<Rightarrow> 'a \<Rightarrow> loader_event list \<Rightarrow> bool" where
  "receives m bs x es \<longleftrightarrow>
     (\<forall>l t rest. ioStream l = Some t \<and> feeds t (bs @ rest) \<longrightarrow>
        (\<exists>t'. m l = (Inr x, l\<lparr>ioStream := Some t', notifications := notifications l @ told l es\<rparr>) \<and> feeds t' rest))"

lemma receivesD:
  assumes "receives m bs x es" "ioStream l = Some t" "feeds t (bs @ rest)"
  obtains t' where "m l = (Inr x, l\<lparr>ioStream := Some t', notifications := notifications l @ told l es\<rparr>)" "feeds t' rest"
  using assms unfolding receives_def by blast

lemma told_simps [simp]:
  "told l [] = []" "told l (es @ fs) = told l es @ told l fs"
  "told (l\<lparr>ioStream := s, notifications := ns\<rparr>) es = told l es" "told (l\<lparr>ioStream := s\<rparr>) es = told l es"
proof -
  have "listeners_of (l\<lparr>ioStream := s, notifications := ns\<rparr>) e = listeners_of l e"
    "listeners_of (l\<lparr>ioStream := s\<rparr>) e = listeners_of l e" for e by (cases e, simp_all)+
  then show "told (l\<lparr>ioStream := s, notifications := ns\<rparr>) es = told l es" "told (l\<lparr>ioStream := s\<rparr>) es = told l es"
    by (simp_all add: told_def)
qed (simp_all add: told_def)

lemma receives_nothing:
  assumes "\<And>l. m l = (Inr x, l\<lparr>notifications := notifications l @ told l es\<rparr>)"
  shows "receives m [] x es"
  unfolding receives_def
proof (intro allI impI, elim conjE)
  fix l :: loader and t rest assume l: "ioStream l = Some t" "feeds t ([] @ rest)"
  then have "l\<lparr>notifications := n\<rparr> = l\<lparr>ioStream := Some t, notifications := n\<rparr>" for n by (cases l) simp
  then show "\<exists>t'. m l = (Inr x, l\<lparr>ioStream := Some t', notifications := notifications l @ told l es\<rparr>) \<and> feeds t' rest"
    using assms [of l] l(2) by (intro exI [of _ t]) simp
qed

lemma receives_ret: "receives (ret x) [] x []"
  by (rule receives_nothing) simp

lemma receives_bnd: "receives m bs x es \<Longrightarrow> receives (f x) cs y fs \<Longrightarrow> receives (bnd m f) (bs @ cs) y (es @ fs)"
  unfolding receives_def
proof (intro allI impI, elim conjE)
  fix l :: loader and t rest
  assume m: "\<forall>l t rest. ioStream l = Some t \<and> feeds t (bs @ rest) \<longrightarrow>
      (\<exists>t'. m l = (Inr x, l\<lparr>ioStream := Some t', notifications := notifications l @ told l es\<rparr>) \<and> feeds t' rest)"
    and f: "\<forall>l t rest. ioStream l = Some t \<and> feeds t (cs @ rest) \<longrightarrow>
      (\<exists>t'. f x l = (Inr y, l\<lparr>ioStream := Some t', notifications := notifications l @ told l fs\<rparr>) \<and> feeds t' rest)"
    and l: "ioStream l = Some t" "feeds t ((bs @ cs) @ rest)"
  from m l obtain t1 where 1: "m l = (Inr x, l\<lparr>ioStream := Some t1, notifications := notifications l @ told l es\<rparr>)" "feeds t1 (cs @ rest)"
    by fastforce
  let ?l1 = "l\<lparr>ioStream := Some t1, notifications := notifications l @ told l es\<rparr>"
  have "ioStream ?l1 = Some t1 \<and> feeds t1 (cs @ rest)" using 1(2) by simp
  with f obtain t2 where 2: "f x ?l1 = (Inr y, ?l1\<lparr>ioStream := Some t2, notifications := notifications ?l1 @ told ?l1 fs\<rparr>)" "feeds t2 rest"
    by blast
  have "bnd m f l = (Inr y, l\<lparr>ioStream := Some t2, notifications := notifications l @ told l (es @ fs)\<rparr>)"
    using bnd_ok [of m l x _ f, OF 1(1)] 2(1) by simp
  then show "\<exists>t'. bnd m f l = (Inr y, l\<lparr>ioStream := Some t', notifications := notifications l @ told l (es @ fs)\<rparr>) \<and> feeds t' rest"
    using 2(2) by blast
qed

lemma receives_bnd_silent: "receives m bs x [] \<Longrightarrow> receives (f x) cs y fs \<Longrightarrow> receives (bnd m f) (bs @ cs) y fs"
  using receives_bnd [of m bs x "[]" f cs y fs] by simp

lemma receives_last: "receives m bs x es \<Longrightarrow> receives (bnd m (\<lambda>x. ret (f x))) bs (f x) es"
  using receives_bnd [of m bs x es "\<lambda>x. ret (f x)" "[]" "f x" "[]", OF _ receives_ret] by simp

lemma receives_then_ret: "receives m bs x es \<Longrightarrow> receives (andthen m (ret y)) bs y es"
  using receives_bnd [of m bs x es "\<lambda>x. ret y" "[]" y "[]", OF _ receives_ret] by (simp add: andthen_def)

lemma receives_bytes: "receives (read_bytes (length bs)) bs bs []"
  unfolding receives_def
proof (intro allI impI, elim conjE)
  fix l :: loader and t rest assume l: "ioStream l = Some t" "feeds t (bs @ rest)"
  from tcp_read_feeds [OF l(2)] obtain t' where "tcp_read (length bs) (length bs) t = (Inr (length bs, bs), t')" "feeds t' rest" by blast
  moreover have "l\<lparr>ioStream := Some t', notifications := notifications l @ told l []\<rparr> = l\<lparr>ioStream := Some t'\<rparr>" by simp
  ultimately show "\<exists>t'. read_bytes (length bs) l = (Inr bs, l\<lparr>ioStream := Some t', notifications := notifications l @ told l []\<rparr>) \<and> feeds t' rest"
    using l(1) by (auto simp: read_bytes_def)
qed

lemma receives_notify: "receives (notify errorListeners (ErrorEvent c s)) [] () [ErrorEvent c s]"
  "receives (notify subscriptionListeners (TypesEvent a d ss)) [] () [TypesEvent a d ss]"
  "receives (notify subscriptionListeners (EntitiesEvent a d ss)) [] () [EntitiesEvent a d ss]"
  by (rule receives_nothing, simp add: notify_def told_def)+

lemma receives_numbers:
  "receives read_byte [b] b []" "receives read_uint16 (be_bytes 2 (v :: 16 word)) v []" "receives read_int32 (be_bytes 4 (w :: 32 word)) w []"
proof -
  have 1: "be_word [b] = b" for b :: byte by (simp add: be_word_def)
  show "receives read_byte [b] b []"
    using receives_last [OF receives_bytes [of "[b]"], of "be_word :: byte list \<Rightarrow> byte"] 1 by (simp add: read_byte_def)
  show "receives read_uint16 (be_bytes 2 v) v []"
    using receives_last [OF receives_bytes [of "be_bytes 2 v"], of "be_word :: byte list \<Rightarrow> 16 word"] by (simp add: read_uint16_def be_word_be_bytes)
  show "receives read_int32 (be_bytes 4 w) w []"
    using receives_last [OF receives_bytes [of "be_bytes 4 w"], of "be_word :: byte list \<Rightarrow> 32 word"] by (simp add: read_int32_def be_word_be_bytes)
qed

lemma receives_utf8:
  assumes "short_string s"
  shows "receives loader_readUTF8 (sized_string s) s []"
proof -
  let ?n = "of_nat (length s) :: 16 word"
  have n: "unat ?n = length s" "?n \<noteq> 0xFFFF" "0 < ?n \<longleftrightarrow> s \<noteq> []"
  proof -
    have lt: "length s < 0xFFFF" using assms by (simp add: short_string_def)
    show u: "unat ?n = length s" using lt by (simp add: unat_of_nat)
    show "?n \<noteq> 0xFFFF" using u lt by auto
    show "0 < ?n \<longleftrightarrow> s \<noteq> []" using u by (auto simp: word_gt_0 unat_eq_zero)
  qed
  define after where "after = (\<lambda>len :: 16 word. if 0xFFFF \<noteq> len
      then (if 0 < len then bnd (read_bytes (unat len)) (\<lambda>bs. ret (Some bs)) else ret (Some [])) else ret None)"
  have "receives (after ?n) s (Some s) []"
    using n receives_last [OF receives_bytes [of s], of Some] receives_ret [of "Some []"] by (cases "s = []") (auto simp: after_def)
  from receives_bnd_silent [of read_uint16 _ _ after, OF receives_numbers(2) this] have "receives loader_readUTF8_into (sized_string s) (Some s) []"
    by (simp add: loader_readUTF8_into_def sized_string_def after_def)
  from receives_last [OF this, of "\<lambda>s. case s of None \<Rightarrow> [] | Some bs \<Rightarrow> bs"] show ?thesis
    by (simp add: loader_readUTF8_def)
qed

lemma receives_string_list: "list_all short_string ss \<Longrightarrow> receives (read_strings (length ss)) (concat (map sized_string ss)) ss []"
proof (induction ss)
  case Nil
  then show ?case using receives_ret [of "[]"] by (simp only: read_strings.simps list.size list.map concat.simps)
next
  case (Cons s ss)
  then have "receives (read_strings (length ss)) (concat (map sized_string ss)) ss []" by simp
  from receives_last [OF this, of "(#) s"]
  have "receives (bnd (read_strings (length ss)) (\<lambda>ss. ret (s # ss))) (concat (map sized_string ss)) (s # ss) []" by simp
  from receives_bnd_silent [of loader_readUTF8 _ _ "\<lambda>s. bnd (read_strings (length ss)) (\<lambda>ss. ret (s # ss))", OF receives_utf8 this] Cons.prems show ?case by simp
qed

lemma receives_string_array:
  assumes "int (length ss) < 2 ^ 31" "list_all short_string ss"
  shows "receives read_string_array (strings_bytes ss) ss []"
proof -
  have "sint (of_nat (length ss) :: 32 word) = int (length ss)"
    using assms(1) by (simp add: signed_of_nat signed_take_bit_int_eq_self)
  moreover have "(scast (of_nat (length ss) :: 32 word) :: 64 word) = of_int (sint (of_nat (length ss) :: 32 word))"
    by (rule of_int_sint [symmetric])
  ultimately have "(scast (of_nat (length ss) :: 32 word) :: 64 word) = of_nat (length ss)" by (simp only: of_int_of_nat_eq)
  then have "unat (scast (of_nat (length ss) :: 32 word) :: 64 word) = length ss"
    using assms(1) by (simp add: unat_of_nat)
  then have "receives (read_strings (unat (scast (of_nat (length ss) :: 32 word) :: 64 word))) (concat (map sized_string ss)) ss []"
    using receives_string_list [OF assms(2)] by simp
  from receives_bnd_silent [of read_int32 _ _ "\<lambda>size. read_strings (unat (scast size :: 64 word))", OF receives_numbers(3) this]
  show ?thesis by (simp add: read_string_array_def strings_bytes_def)
qed

section \<open>The response loop\<close>

lemma receives_change:
  assumes "all \<or> int (length ss) < 2 ^ 31 \<and> list_all short_string ss"
    and "receives (f all added (if all then [] else ss)) [] () es"
  shows "receives (bnd read_byte (\<lambda>a. bnd read_byte (\<lambda>d. bnd (if a \<noteq> 0 then ret [] else read_string_array) (\<lambda>ss.
      f (0 \<noteq> a) (0 \<noteq> d) ss)))) (change_bytes all added ss) () es"
proof -
  let ?a = "bool_byte all" and ?d = "bool_byte added" and ?bs = "if all then [] else strings_bytes ss"
  have flags: "(?a \<noteq> 0) = all" "(0 \<noteq> ?a) = all" "(0 \<noteq> ?d) = added" by (simp_all add: bool_byte_def)
  have arr: "receives (if ?a \<noteq> 0 then ret [] else read_string_array) ?bs (if all then [] else ss) []"
    using assms(1) receives_ret [of "[]"] receives_string_array flags by auto
  have "receives (bnd (if ?a \<noteq> 0 then ret [] else read_string_array) (\<lambda>ss. f (0 \<noteq> ?a) (0 \<noteq> ?d) ss)) (?bs @ []) () es"
    by (rule receives_bnd_silent [OF arr]) (use assms(2) flags in simp)
  then have 1: "receives (bnd read_byte (\<lambda>d. bnd (if ?a \<noteq> 0 then ret [] else read_string_array) (\<lambda>ss. f (0 \<noteq> ?a) (0 \<noteq> d) ss)))
      ([?d] @ ?bs @ []) () es"
    by (rule receives_bnd_silent [of read_byte, OF receives_numbers(1)])
  have "receives (bnd read_byte (\<lambda>a. bnd read_byte (\<lambda>d. bnd (if a \<noteq> 0 then ret [] else read_string_array) (\<lambda>ss.
      f (0 \<noteq> a) (0 \<noteq> d) ss)))) ([?a] @ [?d] @ ?bs @ []) () es"
    by (rule receives_bnd_silent [of read_byte, OF receives_numbers(1)]) (rule 1)
  then show ?thesis by (simp add: change_bytes_def)
qed

lemma command_ids:
  "ERROR_BLOCK_ID \<noteq> LOADER_KEEPALIVE_ID" "TYPE_BLOCK_ID \<noteq> ERROR_BLOCK_ID" "INSTRUMENT_BLOCK_ID \<noteq> ERROR_BLOCK_ID"
  "LOADER_KEEPALIVE_ID \<noteq> ERROR_BLOCK_ID" "LOADER_RESPONSE_BLOCK_ID \<noteq> ERROR_BLOCK_ID" "TYPE_BLOCK_ID \<noteq> LOADER_KEEPALIVE_ID"
  "INSTRUMENT_BLOCK_ID \<noteq> LOADER_KEEPALIVE_ID" "LOADER_RESPONSE_BLOCK_ID \<noteq> LOADER_KEEPALIVE_ID"
  "TYPE_BLOCK_ID \<noteq> LOADER_RESPONSE_BLOCK_ID" "INSTRUMENT_BLOCK_ID \<noteq> LOADER_RESPONSE_BLOCK_ID" "INSTRUMENT_BLOCK_ID \<noteq> TYPE_BLOCK_ID"
  by (simp_all add: layout_defs)

text \<open>One message of the server is one turn of the loop.\<close>

lemma receives_command:
  assumes "sendable m" "server_message_bytes m = b # bs"
  shows "receives (process_command b) bs False (events_of m)"
proof (cases m)
  case (ErrorMessage c s)
  let ?after = "\<lambda>s. andthen (dispatchError c s) (ret False)"
  have last: "receives (?after s) [] False [ErrorEvent c s]"
    by (rule receives_then_ret) (simp add: dispatchError_def receives_notify)
  have short: "short_string s" using assms(1) ErrorMessage by simp
  have "receives (bnd loader_readUTF8 ?after) (sized_string s @ []) False [ErrorEvent c s]"
    by (rule receives_bnd_silent [of loader_readUTF8 _ _ ?after, OF receives_utf8 [OF short] last])
  then have "receives (bnd read_int32 (\<lambda>c. bnd loader_readUTF8 (\<lambda>s. andthen (dispatchError c s) (ret False))))
      (be_bytes 4 c @ sized_string s @ []) False [ErrorEvent c s]"
    by (rule receives_bnd_silent [of read_int32, OF receives_numbers(3)])
  then show ?thesis using assms ErrorMessage by (auto simp: process_command_def)
next
  case Keepalive
  then show ?thesis using assms receives_ret [of False] by (auto simp: process_command_def command_ids)
next
  case (TypesMessage all added ss)
  have "receives readTypesSubscriptionChange (change_bytes all added ss) () [TypesEvent all added (if all then [] else ss)]"
    unfolding readTypesSubscriptionChange_def
    by (rule receives_change) (use assms(1) TypesMessage in \<open>auto simp: dispatchTypesSubscriptionChange_def receives_notify\<close>)
  from receives_then_ret [OF this] show ?thesis using assms TypesMessage by (auto simp: process_command_def command_ids)
next
  case (EntitiesMessage all added ss)
  have "receives readEntitiesSubscriptionChange (change_bytes all added ss) () [EntitiesEvent all added (if all then [] else ss)]"
    unfolding readEntitiesSubscriptionChange_def
    by (rule receives_change) (use assms(1) EntitiesMessage in \<open>auto simp: dispatchEntitiesSubscriptionChange_def receives_notify\<close>)
  from receives_then_ret [OF this] show ?thesis using assms EntitiesMessage by (auto simp: process_command_def command_ids)
qed

lemma message_bytes_cons: "\<exists>b bs. server_message_bytes m = b # bs"
  by (cases m) simp_all

lemma step_message:
  assumes "ioStream l = Some t" "feeds t (server_message_bytes m @ rest)" "sendable m"
  shows "\<exists>t'. process_step l = (Inr None, l\<lparr>ioStream := Some t', notifications := notifications l @ told l (events_of m)\<rparr>) \<and> feeds t' rest"
proof -
  obtain b bs where b: "server_message_bytes m = b # bs" using message_bytes_cons by blast
  then obtain t1 where t1: "tcp_tryRead 1 t = (Inr (1, [b]), t1)" "feeds t1 (bs @ rest)"
    using tcp_tryRead_feeds [of t b "bs @ rest"] assms(2) by auto
  let ?m = "bnd (process_command b) (\<lambda>stop. ret (if stop then Some True else None))" and ?l1 = "l\<lparr>ioStream := Some t1\<rparr>"
  have m: "receives ?m bs None (events_of m)"
    using receives_last [OF receives_command [OF assms(3) b], of "\<lambda>stop. if stop then Some True else None"] by simp
  have "ioStream ?l1 = Some t1" by simp
  from receivesD [OF m this t1(2)] obtain t2 where
    "?m ?l1 = (Inr None, ?l1\<lparr>ioStream := Some t2, notifications := notifications ?l1 @ told ?l1 (events_of m)\<rparr>)" "feeds t2 rest" .
  moreover have "process_step l = ?m ?l1" using assms(1) t1(1) by (simp add: process_step_def)
  ultimately show ?thesis by auto
qed

lemma loop_messages:
  assumes "ioStream l = Some t" "feeds t (concat (map server_message_bytes ms) @ rest)" "list_all sendable ms"
  shows "\<exists>t'. process_loop l = process_loop (l\<lparr>ioStream := Some t',
      notifications := notifications l @ told l (concat (map events_of ms))\<rparr>) \<and> feeds t' rest"
  using assms
proof (induction ms arbitrary: l t)
  case Nil
  then have "l = l\<lparr>ioStream := Some t, notifications := notifications l\<rparr>" by (cases l) simp
  then have "process_loop l = process_loop (l\<lparr>ioStream := Some t, notifications := notifications l\<rparr>)" by (rule arg_cong)
  then show ?case using Nil by (intro exI [of _ t]) simp
next
  case (Cons m ms)
  from step_message [of l t m "concat (map server_message_bytes ms) @ rest"] Cons.prems obtain t1 where
    t1: "process_step l = (Inr None, l\<lparr>ioStream := Some t1, notifications := notifications l @ told l (events_of m)\<rparr>)"
      "feeds t1 (concat (map server_message_bytes ms) @ rest)" by auto
  let ?l1 = "l\<lparr>ioStream := Some t1, notifications := notifications l @ told l (events_of m)\<rparr>"
  have "process_loop l = process_loop ?l1" using t1(1) by (subst process_loop.simps) simp
  moreover from Cons.IH [of ?l1 t1] t1(2) Cons.prems(3) obtain t2 where
    "process_loop ?l1 = process_loop (?l1\<lparr>ioStream := Some t2,
        notifications := notifications ?l1 @ told ?l1 (concat (map events_of ms))\<rparr>)" "feeds t2 rest" by auto
  ultimately show ?case by (intro exI [of _ t2]) simp
qed

text \<open>The final response ends the loop.\<close>

definition responded :: "(byte list \<times> byte list) option \<Rightarrow> loader \<Rightarrow> loader" where
  "responded r l =
     (case r of
        None \<Rightarrow> l\<lparr>interruption := SERVER_FINISHED_OK\<rparr>
      | Some (c, m) \<Rightarrow> l\<lparr>interruption := SERVER_FINISHED_ERROR,
          loaderError := \<lparr>errorCode = ERROR, className = c, errorMsg = m\<rparr>\<rparr>)"

lemma loop_response:
  assumes "ioStream l = Some t" "feeds t (response_bytes r)" "case r of None \<Rightarrow> True | Some (c, m) \<Rightarrow> short_string c \<and> short_string m"
  shows "\<exists>t'. process_loop l = (Inr True, responded r (l\<lparr>ioStream := Some t'\<rparr>)) \<and> feeds t' []"
proof -
  let ?code = "case r of None \<Rightarrow> 0 | Some _ \<Rightarrow> RESP_ERROR"
  obtain bs where bs: "response_bytes r = LOADER_RESPONSE_BLOCK_ID # be_bytes 4 ?code @ bs"
      "bs = (case r of None \<Rightarrow> [] | Some (c, m) \<Rightarrow> sized_string c @ sized_string m)"
    by (cases r) auto
  then obtain t1 where t1: "tcp_tryRead 1 t = (Inr (1, [LOADER_RESPONSE_BLOCK_ID]), t1)" "feeds t1 (be_bytes 4 ?code @ bs)"
    using tcp_tryRead_feeds [of t LOADER_RESPONSE_BLOCK_ID "be_bytes 4 ?code @ bs"] assms(2) by auto
  let ?l1 = "l\<lparr>ioStream := Some t1\<rparr>"
  have step: "process_step l = bnd (process_command LOADER_RESPONSE_BLOCK_ID) (\<lambda>stop. ret (if stop then Some True else None)) ?l1"
    using assms(1) t1(1) by (simp add: process_step_def)
  have "ioStream ?l1 = Some t1" by simp
  from receivesD [OF receives_numbers(3) this t1(2)] obtain t2 where
    t2: "read_int32 ?l1 = (Inr ?code, l\<lparr>ioStream := Some t2\<rparr>)" "feeds t2 bs" by auto
  show ?thesis
  proof (cases r)
    case None
    then have "process_step l = (Inr (Some True), responded r (l\<lparr>ioStream := Some t2\<rparr>))"
      unfolding step using t2(1)
      by (simp add: process_command_def command_ids RESP_ERROR_def bnd_def andthen_def set_interruption_def responded_def)
    then show ?thesis using t2(2) bs(2) None by (subst process_loop.simps) auto
  next
    case (Some cm)
    then obtain c m where cm: "r = Some (c, m)" by (cases cm) auto
    let ?l2 = "l\<lparr>ioStream := Some t2, loaderError := (loaderError l)\<lparr>errorCode := ERROR\<rparr>\<rparr>"
    have feed2: "feeds t2 (sized_string c @ sized_string m)" "ioStream ?l2 = Some t2" using t2(2) bs(2) cm by simp_all
    from receivesD [OF receives_utf8 feed2(2,1)] obtain t3 where
      t3: "loader_readUTF8 ?l2 = (Inr c, ?l2\<lparr>ioStream := Some t3\<rparr>)" "feeds t3 (sized_string m @ [])" using assms(3) cm by auto
    let ?l3 = "?l2\<lparr>ioStream := Some t3, loaderError := (loaderError ?l2)\<lparr>className := c\<rparr>\<rparr>"
    have "ioStream ?l3 = Some t3" by simp
    from receivesD [OF receives_utf8 this t3(2)] obtain t4 where
      t4: "loader_readUTF8 ?l3 = (Inr m, ?l3\<lparr>ioStream := Some t4\<rparr>)" "feeds t4 []" using assms(3) cm by auto
    have "process_step l = (Inr (Some True), responded r (l\<lparr>ioStream := Some t4\<rparr>))"
      unfolding step using t2(1) t3(1) t4(1) cm
      by (simp add: process_command_def command_ids bnd_def andthen_def set_interruption_def set_error_def readErrorResponse_def responded_def)
    then show ?thesis using t4(2) by (subst process_loop.simps) auto
  qed
qed

lemma loop_waits:
  assumes "ioStream l = Some t" "feeds t []"
  shows "process_loop l = (Inr False, l)"
proof -
  have "l\<lparr>ioStream := Some t\<rparr> = l" using assms(1) by (cases l) simp
  moreover have "tcp_tryRead 1 t = (Inr (0, []), t)"
    using assms(2) feeds_empty [OF assms(2)] by (simp add: tcp_tryRead_def feeds_def)
  ultimately have "process_step l = (Inr (Some False), l)" using assms(1) by (simp add: process_step_def)
  then show ?thesis by (simp add: process_loop.simps)
qed


definition listening_loader :: "recv_event list \<Rightarrow> loader" where
  "listening_loader evs = (sample_loader 0)\<lparr>errorListeners := {1}, subscriptionListeners := {1, 2},
     ioStream := Some \<lparr>incoming = evs, tcpBytesRead = 0, tcpBytesWritten = 0, sent = [], isClosed = False,
       inputClosed = False, outputClosed = False\<rparr>\<rparr>"


text \<open>After a byte that is no command the loop records an unexpected token and closes the input, so that its next
  attempt to read throws, and the report is overwritten: what remains is a disconnection with the text of that exception.\<close>

theorem unexpected_token_is_masked:
  assumes "ioStream l = Some t" "feeds t (b # rest)" "interruption l \<le> STOPPING"
    and "b \<notin> {ERROR_BLOCK_ID, LOADER_KEEPALIVE_ID, LOADER_RESPONSE_BLOCK_ID, TYPE_BLOCK_ID, INSTRUMENT_BLOCK_ID}"
  shows "\<exists>l'. processResponse l = (Inr False, l') \<and> interruption l' = SERVER_DISCONNECTED \<and>
    loaderError l' = \<lparr>errorCode = IO_ERROR, className = [],
      errorMsg = string_bytes ''IOStream exception: IOStreamTCP::tryRead(): ERR: closed''\<rparr>"
proof -
  from tcp_tryRead_feeds [OF assms(2)] obtain t1 where t1: "tcp_tryRead 1 t = (Inr (1, [b]), t1)" by blast
  define l1 where "l1 = l\<lparr>ioStream := Some (t1\<lparr>inputClosed := True\<rparr>),
    loaderError := \<lparr>errorCode = IO_ERROR, className = [],
      errorMsg = string_bytes (''Unexpected token received from the server: '' @ hex2 b)\<rparr>, interruption := SERVER_FINISHED_ERROR\<rparr>"
  have "process_step l = (Inr None, l1)"
    using assms(1,4) t1
    by (simp add: process_step_def process_command_def bnd_def andthen_def set_error_msg_def set_error_def set_interruption_def
        stream_op_def tcp_closeInput_def l1_def del: One_nat_def)
  moreover have "process_step l1 = (Inl (IOError ''IOStreamTCP::tryRead(): ERR: closed''), l1)"
    by (simp add: process_step_def tcp_tryRead_def l1_def)
  ultimately have "process_loop l = (Inl (IOError ''IOStreamTCP::tryRead(): ERR: closed''), l1)"
    by (simp add: process_loop.simps [of l] process_loop.simps [of l1])
  then have "processResponse l = on_process_exception (IOError ''IOStreamTCP::tryRead(): ERR: closed'') l1"
    using assms(1,3) by (simp add: processResponse_def not_less [symmetric])
  then show ?thesis
    by (simp add: on_process_exception_def andthen_def bnd_def set_error_def set_interruption_def set_error_msg_def stream_op_def tcp_close_def
        l1_def string_bytes_def)
qed

theorem unexpected_token_is_masked_witness:
  "\<exists>l'. processResponse (listening_loader [Received [0x7F]]) = (Inr False, l') \<and> interruption l' = SERVER_DISCONNECTED"
  using unexpected_token_is_masked [of "listening_loader [Received [0x7F]]" _ "0x7F" "[]"]
  by (fastforce simp: listening_loader_def sample_loader_def less_eq_interruption_def layout_defs feeds_def)

end
