(* ===== verification/LoaderConnection.thy ===== *)
theory LoaderConnection
  imports LoaderTheorems
begin

text \<open>
  The theorems on the loader's connection: how long \<^verbatim>\<open>finish\<close> waits for the client, that a loader
  releases its connection however it ends, and what the responses of the server do.
\<close>

section \<open>Waiting for the client\<close>

lemma stop_client_time: "int (sum_list (fst (stop_client i k acts l))) \<le> max 0 (i + int k - 1)"
proof (induction i k acts l rule: stop_client.induct)
  case (1 i k acts l)
  let ?active = "clientIsActive l \<or> (acts \<noteq> [] \<and> hd acts)"
  let ?l1 = "l\<lparr>clientIsActive := ?active\<rparr>" and ?next = "min (k * 3 div 2) LOADER_STOPPING_WAIT_MAX_SLEEP_MS"
  consider "i \<le> 0 \<or> k = 0" | "\<not> (i \<le> 0 \<or> k = 0)" "\<not> ?active" "isWriterFinished ?l1 \<or> \<not> isWritingMessageBody ?l1"
    | "\<not> (i \<le> 0 \<or> k = 0)" "\<not> ?active" "\<not> (isWriterFinished ?l1 \<or> \<not> isWritingMessageBody ?l1)"
    | "\<not> (i \<le> 0 \<or> k = 0)" "?active" by blast
  then show ?case
  proof cases
    case 1
    then show ?thesis by (auto simp: stop_client.simps)
  next
    case 2
    then show ?thesis by (auto simp: stop_client.simps Let_def)
  next
    case 3
    from "1.IH"(1) [OF 3(1) refl refl 3(2,3) refl] show ?thesis using 3
      by (subst stop_client.simps) (auto simp: Let_def split: prod.splits if_splits)
  next
    case 4
    then have "\<not> \<not> ?active" by blast
    from "1.IH"(2) [OF 4(1) refl refl this] show ?thesis using 4
      by (subst stop_client.simps) (auto simp: Let_def split: prod.splits if_splits)
  qed
qed

text \<open>The loop in which \<^verbatim>\<open>finish\<close> waits for the client's thread ends after less than its timeout of 12
  seconds and one sleep, whatever the client does, and changes nothing but the activity flag.\<close>

theorem stop_wait_bounded:
  "(case stop_client LOADER_STOPPING_WAIT_TIMEOUT_MS LOADER_STOPPING_WAIT_MIN_SLEEP_MS acts l of (slept, l') \<Rightarrow>
     sum_list slept < 12005 \<and> (\<exists>b. l' = l\<lparr>clientIsActive := b\<rparr>))"
proof -
  let ?r = "stop_client LOADER_STOPPING_WAIT_TIMEOUT_MS LOADER_STOPPING_WAIT_MIN_SLEEP_MS acts l"
  have "sum_list (fst ?r) < 12005"
    using stop_client_time [of LOADER_STOPPING_WAIT_TIMEOUT_MS LOADER_STOPPING_WAIT_MIN_SLEEP_MS acts l]
    by (simp add: LOADER_STOPPING_WAIT_TIMEOUT_MS_def LOADER_STOPPING_WAIT_MIN_SLEEP_MS_def)
  moreover have "\<exists>b. snd ?r = l\<lparr>clientIsActive := b\<rparr>" by (rule stop_client_changes)
  ultimately show ?thesis by (simp add: case_prod_beta)
qed

section \<open>Releasing the connection\<close>

text \<open>Nothing that is read changes the state of the writer.\<close>

abbreviation in_state :: "loader_state \<Rightarrow> loader \<Rightarrow> bool" where
  "in_state c \<equiv> (\<lambda>l. loaderState l = c)"

lemma keeps_read_bytes: "keeps (in_state c) (read_bytes n)"
  by (auto simp: keeps_def read_bytes_def split: option.splits prod.splits sum.splits)

lemma keeps_stream_op: "keeps (in_state c) (stream_op m)"
  by (auto simp: keeps_def stream_op_def split: option.splits prod.splits)

lemma keeps_read_strings: "keeps (in_state c) loader_readUTF8" "keeps (in_state c) (read_strings n)"
proof -
  show u: "keeps (in_state c) loader_readUTF8"
    by (auto simp: loader_readUTF8_def loader_readUTF8_into_def read_uint16_def intro!: keeps_bnd keeps_read_bytes)
  show "keeps (in_state c) (read_strings n)"
    by (induction n) (simp_all only: read_strings.simps keeps_ret, intro keeps_bnd u keeps_ret)
qed

lemma keeps_changes:
  "keeps (in_state c) (set_error e)" "keeps (in_state c) (set_error_msg m)" "keeps (in_state c) (set_interruption i)"
  "keeps (in_state c) (notify f v)" "keeps (in_state c) (modify (\<lambda>l. l\<lparr>loaderError := g l\<rparr>))"
  by (simp_all add: set_error_def set_error_msg_def set_interruption_def notify_def keeps_modify)

lemmas keeps_process = keeps_read_bytes keeps_stream_op keeps_read_strings keeps_changes

lemma keeps_process_command: "keeps (in_state c) (process_command b)"
  by (auto simp: process_command_def process_defs simp del: seqs.simps intro!: keeps_bnd keeps_andthen keeps_process keeps_seqs)

lemma process_step_state: "loaderState (snd (process_step l)) = loaderState l"
proof (cases "ioStream l")
  case (Some t)
  obtain r t' where r: "tcp_tryRead 1 t = (r, t')" by force
  have "keeps (in_state (loaderState l)) (bnd (process_command b) (\<lambda>stop. ret (if stop then Some True else None)))" for b
    by (intro keeps_bnd keeps_process_command keeps_ret)
  from keepsD [OF this, of "l\<lparr>ioStream := Some t'\<rparr>"] show ?thesis
    using Some r by (auto simp: process_step_def split: sum.splits)
qed (simp add: process_step_def)

lemma process_loop_state: "loaderState (snd (process_loop l)) = loaderState l"
proof (induction l rule: process_loop.induct)
  case (1 l)
  then show ?case using process_step_state [of l]
    by (subst process_loop.simps) (auto split: prod.splits sum.splits option.splits)
qed

lemma processResponse_state: "loaderState (snd (processResponse l)) = loaderState l"
proof -
  have k: "keeps (in_state c) (on_process_exception e)" for c e
    by (cases e) (auto simp: on_process_exception_def simp del: seqs.simps intro!: keeps_andthen keeps_process keeps_seqs)
  show ?thesis
    using process_loop_state [of l] keepsD [OF k]
    by (auto simp: processResponse_def split: prod.splits sum.splits)
qed

lemma wait_response_state: "loaderState (snd (wait_response n turns l)) = loaderState l"
proof (induction n turns l rule: wait_response.induct)
  case (2 r turns l)
  have "loaderState (sleep_once turn l) = loaderState l" for turn
    using processResponse_state by (simp add: sleep_once_def arrive_def split: option.splits)
  then show ?case using 2 by (auto split: list.splits)
qed simp

definition well_behaved :: "(loader, 'a) op \<Rightarrow> bool" where
  "well_behaved m \<longleftrightarrow>
     (\<forall>l x l'. m l = (x, l') \<and> loaderState l \<noteq> MESSAGE_BODY \<and> ioStream l \<noteq> None \<longrightarrow>
        (\<forall>u. x \<noteq> Inl (Undefined u)) \<and> loaderState l' \<noteq> MESSAGE_BODY \<and> ioStream l' \<noteq> None)"

lemma well_behavedD:
  assumes "well_behaved m" "m l = (x, l')" "loaderState l \<noteq> MESSAGE_BODY" "ioStream l \<noteq> None"
  shows "x \<noteq> Inl (Undefined u)" "loaderState l' \<noteq> MESSAGE_BODY" "ioStream l' \<noteq> None"
  using assms unfolding well_behaved_def by blast+

lemma well_bnd: "well_behaved m \<Longrightarrow> (\<And>x. well_behaved (f x)) \<Longrightarrow> well_behaved (bnd m f)"
  unfolding well_behaved_def by (intro allI impI, elim conjE bnd_cases) (blast, metis)

lemma well_andthen: "well_behaved m \<Longrightarrow> well_behaved n \<Longrightarrow> well_behaved (andthen m n)"
  unfolding andthen_def by (rule well_bnd)

lemma well_ret: "well_behaved (ret x)" "well_behaved (gets f)" "c \<noteq> MESSAGE_BODY \<Longrightarrow> well_behaved (setState c)"
  by (simp_all add: well_behaved_def setState_def)

lemma well_modify: "(\<And>l. loaderState (f l) = loaderState l \<and> ioStream (f l) = ioStream l) \<Longrightarrow> well_behaved (modify f)"
  by (simp add: well_behaved_def)

lemma well_whenM: "well_behaved m \<Longrightarrow> well_behaved (whenM b m)"
  by (simp add: whenM_def well_ret)

lemma well_seqs: "(\<And>m. m \<in> set ms \<Longrightarrow> well_behaved m) \<Longrightarrow> well_behaved (seqs ms)"
  by (induction ms rule: seqs.induct) (auto intro: well_ret well_andthen)

lemma well_putBE: "well_behaved (on_writer (putBE v k))"
  by (auto simp: well_behaved_def on_writer_def putBE_def andthen_def bnd_def checkOverflow_def onOverflow_def overflow_def throw_def
      split: prod.splits sum.splits if_splits)

lemma well_transmit: "well_behaved transmitBuffer"
  by (auto simp: well_behaved_def transmitBuffer_def tcp_write_def split: option.splits list.splits prod.splits sum.splits if_splits)

lemma well_flush: "well_behaved flushOutputMsg"
  unfolding flushOutputMsg_def flushOutputInternal_def resetPointers_def seqs.simps
  by (intro well_andthen well_bnd well_ret well_whenM well_transmit well_modify) simp_all

lemma well_closeOutput: "well_behaved (stream_op tcp_closeOutput)"
  by (auto simp: well_behaved_def stream_op_def tcp_closeOutput_def split: option.splits)

text \<open>Without an open message, the end of the message is not written.\<close>

lemma well_close_block: "well_behaved endMessageBlockIfNeeded"
proof -
  let ?m = "bnd (gets isWritingMessage) (\<lambda>b. whenM b (seqs [setState WRITING, writeMessageBlockEnd]))"
  have "well_behaved ?m"
    unfolding writeMessageBlockEnd_def putUInt32_def by (intro well_bnd well_ret well_whenM well_seqs) (auto simp: well_ret well_putBE)
  moreover have "endMessageBlockIfNeeded l = ?m l" if "loaderState l \<noteq> MESSAGE_BODY" for l
    using that by (simp add: endMessageBlockIfNeeded_def bnd_def andthen_def isWritingMessageBody_def)
  ultimately show ?thesis unfolding well_behaved_def by metis
qed

lemma finish_write_spec:
  assumes "finish_write l = (x, l')" "loaderState l \<noteq> MESSAGE_BODY"
  shows "x \<noteq> Inl (Undefined u)" "x = Inr b \<Longrightarrow> loaderState l' = FINISHED_WRITING"
proof -
  let ?go = "interruption l \<le> STOPPING \<and> (case ioStream l of None \<Rightarrow> False | Some t \<Rightarrow> \<not> outputClosed t)"
  let ?m = "seqs [endWriting, flushOutput, stream_op tcp_closeOutput]"
  have flushes: "flushOutput = flushOutputMsg" by (simp add: flushOutput_def flushOutputMsg_def)
  have w: "well_behaved ?m"
    unfolding endWriting_def writeByte_def putByte_def seqs.simps flushes
    by (intro well_andthen well_close_block well_flush well_putBE well_ret well_closeOutput) simp_all
  have run: "finish_write l = andthen (whenM ?go ?m) (andthen (setState FINISHED_WRITING) (ret ?go)) l"
    by (simp add: finish_write_def bnd_def)
  have "(x \<noteq> Inl (Undefined u)) \<and> (x = Inr b \<longrightarrow> loaderState l' = FINISHED_WRITING)"
  proof (cases ?go)
    case True
    then have io: "ioStream l \<noteq> None" by (auto split: option.splits)
    obtain y k where k: "?m l = (y, k)" by force
    have r: "andthen ?m (andthen (setState FINISHED_WRITING) (ret ?go)) l = (x, l')" using run assms(1) by (simp only: whenM_def if_P [OF True])
    have ends: "(x, l') = (case y of Inl e \<Rightarrow> (Inl e, k) | Inr _ \<Rightarrow> (Inr ?go, k\<lparr>loaderState := FINISHED_WRITING\<rparr>))"
      using r k by (cases y) (simp_all only: andthen_ok andthen_err sum.case, simp_all add: setState_def andthen_def bnd_def)
    show ?thesis using ends well_behavedD(1) [OF w k assms(2) io] by (cases y) auto
  next
    case False
    then have "finish_write l = (Inr False, l\<lparr>loaderState := FINISHED_WRITING\<rparr>)"
      using run by (simp only: whenM_simps) (simp add: andthen_def bnd_def setState_def)
    then show ?thesis using assms(1) by auto
  qed
  then show "x \<noteq> Inl (Undefined u)" "x = Inr b \<Longrightarrow> loaderState l' = FINISHED_WRITING" by blast+
qed

lemma finish_stop_spec:
  "\<exists>l'. finish_stop acts l = (Inr (), l') \<and> loaderState l' \<noteq> MESSAGE_BODY"
proof -
  let ?l = "l\<lparr>clientIsActive := False, interruption := STOPPING\<rparr>"
  obtain b where "snd (stop_client LOADER_STOPPING_WAIT_TIMEOUT_MS LOADER_STOPPING_WAIT_MIN_SLEEP_MS acts ?l) = ?l\<lparr>clientIsActive := b\<rparr>"
    using stop_client_changes [of LOADER_STOPPING_WAIT_TIMEOUT_MS LOADER_STOPPING_WAIT_MIN_SLEEP_MS acts ?l] by blast
  then show ?thesis
    by (simp add: finish_stop_def andthen_def bnd_def set_interruption_def isWritingMessageBody_def cancelMessage_def setState_def)
qed

text \<open>What every way out of \<^verbatim>\<open>finish\<close> does last.\<close>

lemma cleanup_releases:
  assumes "self s \<notin> being_removed (mgr s)"
  shows "\<exists>s'. cleanup True s = (Inr (), s') \<and> ioStream (ldr s') = None \<and> interruption (ldr s') \<noteq> WORKING \<and>
    loaderState (ldr s') = loaderState (ldr s) \<and> self s' \<notin> loaders (mgr s') \<and> being_removed (mgr s') = being_removed (mgr s)"
  using assms by (auto simp: cleanup_def andthen_def bnd_def manager_remove_def on_loader_def closeConnection_def)

lemma on_loader_run: "m (ldr s) = (x, l) \<Longrightarrow> on_loader m s = (x, s\<lparr>ldr := l\<rparr>)"
  by (simp add: on_loader_def)

lemma on_loader_modify: "andthen (on_loader (modify f)) n s = n (s\<lparr>ldr := f (ldr s)\<rparr>)"
  by (simp add: on_loader_def andthen_def bnd_def)

lemma finish_exception_releases:
  assumes "self s \<notin> being_removed (mgr s)" "\<And>u. e \<noteq> Undefined u"
  shows "\<exists>e' s'. on_finish_exception e s = (Inl e', s') \<and> (\<forall>u. e' \<noteq> Undefined u) \<and> ioStream (ldr s') = None \<and>
    interruption (ldr s') \<noteq> WORKING \<and> loaderState (ldr s') = FINISHED_WRITING \<and> self s' \<notin> loaders (mgr s') \<and>
    being_removed (mgr s') = being_removed (mgr s)"
proof -
  have after: "\<exists>s'. andthen (cleanup True) (throw e') (s\<lparr>ldr := l\<rparr>) = (Inl e', s') \<and> ioStream (ldr s') = None \<and>
      interruption (ldr s') \<noteq> WORKING \<and> loaderState (ldr s') = loaderState l \<and> self s' \<notin> loaders (mgr s') \<and>
      being_removed (mgr s') = being_removed (mgr s)" for l and e' :: exn
    using cleanup_releases [of "s\<lparr>ldr := l\<rparr>"] assms(1) by (auto simp: andthen_def bnd_def)
  define e1 :: exn where "e1 = (case e of Disconnected _ \<Rightarrow> LoaderClosed ''Unexpected disconnection''
      | IOError _ \<Rightarrow> LoaderClosed ''finish(): IO error'' | _ \<Rightarrow> e)"
  have no_undefined: "\<forall>u. e \<noteq> Undefined u" using assms(2) by blast
  have pick: "\<exists>l. loaderState l = FINISHED_WRITING \<and> F (s\<lparr>ldr := X\<rparr>) = F (s\<lparr>ldr := l\<rparr>)"
    if "loaderState X = FINISHED_WRITING" for X and F :: "managed \<Rightarrow> (exn + unit) \<times> managed"
    using that by blast
  have "\<exists>l. loaderState l = FINISHED_WRITING \<and> on_finish_exception e s = andthen (cleanup True) (throw e1) (s\<lparr>ldr := l\<rparr>)"
    using no_undefined
    by (cases e) (simp_all add: on_finish_exception_def e1_def setState_def set_interruption_def set_error_def set_error_msg_def on_loader_modify,
        (rule pick, simp)+)
  moreover have "\<forall>u. e1 \<noteq> Undefined u" using assms(2) by (cases e) (simp_all add: e1_def)
  ultimately show ?thesis using after [of e1] by metis
qed

text \<open>C31: However \<^verbatim>\<open>finish\<close> ends (normally, with a closed or failing connection, with a full buffer, after
  a response or after a timeout), it does end, and the loader has then released its connection, is marked as
  interrupted and as no longer writing, and is not in the manager's set.\<close>

theorem finish_releases:
  assumes "self s \<notin> being_removed (mgr s)" "finishInternal acts turns s = (x, s')"
  shows "ioStream (ldr s') = None \<and> interruption (ldr s') \<noteq> WORKING \<and> \<not> isWriting (ldr s') \<and>
    self s' \<notin> loaders (mgr s') \<and> being_removed (mgr s') = being_removed (mgr s) \<and> (\<forall>u. x \<noteq> Inl (Undefined u))"
proof (cases "isWriting (ldr s)")
  case False
  then have "cleanup True s = (x, s')" using assms(2) by (simp add: finishInternal_def)
  then show ?thesis using cleanup_releases [OF assms(1)] False by (auto simp: isWriting_def)
next
  case True
  from finish_stop_spec obtain l1 where l1: "finish_stop acts (ldr s) = (Inr (), l1)" "loaderState l1 \<noteq> MESSAGE_BODY" by blast
  obtain y l2 where l2: "finish_write l1 = (y, l2)" by force
  note fw = finish_write_spec [OF l2 l1(2)]
  have go: "finish_body acts turns s = bnd (on_loader finish_write) (\<lambda>w. bnd (manager_remove w turns) (\<lambda>success.
     if \<not> success then throw (RuntimeError ''finish(): Loader is unable to remove itself from LoaderManager'')
     else cleanup True)) (s\<lparr>ldr := l1\<rparr>)"
    unfolding finish_body_def using on_loader_run [of "finish_stop acts" s "Inr ()" l1] l1(1) by (simp only: andthen_ok)
  have fin: "\<not> isWriting l" if "loaderState l = FINISHED_WRITING" for l using that by (simp add: isWriting_def less_eq_loader_state_def)
  have failed: ?thesis if b: "finish_body acts turns s = (Inl e, s2)" "\<And>u. e \<noteq> Undefined u" "self s2 = self s"
      "being_removed (mgr s2) = being_removed (mgr s)" for e s2
  proof -
    have "on_finish_exception e s2 = (x, s')" using assms(2) True b(1) by (simp add: finishInternal_def)
    moreover have "self s2 \<notin> being_removed (mgr s2)" using assms(1) b(3,4) by simp
    ultimately show ?thesis using finish_exception_releases [of s2 e] b(2,4) fin by (auto simp: isWriting_def less_eq_loader_state_def)
  qed
  show ?thesis
  proof (cases y)
    case (Inl e)
    have "finish_body acts turns s = (Inl e, s\<lparr>ldr := l2\<rparr>)" using go on_loader_run [of finish_write "s\<lparr>ldr := l1\<rparr>" y l2] l2 Inl by (simp add: bnd_err)
    then show ?thesis by (rule failed) (use fw(1) Inl in auto)
  next
    case (Inr w)
    have st: "loaderState l2 = FINISHED_WRITING" using fw(2) Inr by blast
    have go2: "finish_body acts turns s = bnd (manager_remove w turns) (\<lambda>success.
       if \<not> success then throw (RuntimeError ''finish(): Loader is unable to remove itself from LoaderManager'')
       else cleanup True) (s\<lparr>ldr := l2\<rparr>)"
      using go on_loader_run [of finish_write "s\<lparr>ldr := l1\<rparr>" y l2] l2 Inr by (simp add: bnd_ok)
    show ?thesis
    proof (cases "self s \<in> loaders (mgr s)")
      case False
      then have "finish_body acts turns s = (Inl (RuntimeError ''finish(): Loader is unable to remove itself from LoaderManager''), s\<lparr>ldr := l2\<rparr>)"
        using go2 by (simp add: bnd_def manager_remove_def)
      then show ?thesis by (rule failed) simp_all
    next
      case inside: True
      have "\<exists>s2. manager_remove w turns (s\<lparr>ldr := l2\<rparr>) = (Inr True, s2) \<and> self s2 \<notin> being_removed (mgr s2) \<and>
          being_removed (mgr s2) = being_removed (mgr s) \<and> loaderState (ldr s2) = FINISHED_WRITING"
        using inside assms(1) st wait_response_state
        by (cases w) (auto simp: manager_remove_def Let_def)
      then obtain s2 where s2: "manager_remove w turns (s\<lparr>ldr := l2\<rparr>) = (Inr True, s2)" "self s2 \<notin> being_removed (mgr s2)"
          "being_removed (mgr s2) = being_removed (mgr s)" "loaderState (ldr s2) = FINISHED_WRITING" by blast
      from cleanup_releases [OF s2(2)] obtain s3 where
        s3: "cleanup True s2 = (Inr (), s3)" "ioStream (ldr s3) = None" "interruption (ldr s3) \<noteq> WORKING"
          "loaderState (ldr s3) = FINISHED_WRITING" "self s3 \<notin> loaders (mgr s3)" "being_removed (mgr s3) = being_removed (mgr s)"
        using s2(3,4) by auto
      then have "x = Inr ()" "s' = s3" using assms(2) True go2 s2(1) by (simp_all add: finishInternal_def bnd_ok)
      then show ?thesis using s3 fin by simp
    qed
  qed
qed

theorem finish_releases_witness:
  "ioStream (ldr (snd (finishInternal [] [] \<lparr>ldr = sample_loader 100, mgr = \<lparr>loaders = {1}, being_removed = {}, loaderCloseTimeout = 3,
      managerThread = True, managerRunning = True, shouldStop = False\<rparr>, self = 1\<rparr>))) = None"
  using finish_releases [OF _ prod.collapse [symmetric], of "\<lparr>ldr = sample_loader 100, mgr = \<lparr>loaders = {1}, being_removed = {},
    loaderCloseTimeout = 3, managerThread = True, managerRunning = True, shouldStop = False\<rparr>, self = 1\<rparr>" "[]" "[]"] by simp

end
