(* ===== verification/CursorState.thy ===== *)
theory CursorState
  imports SymbolTables ReaderContainers
begin

text \<open>
  The cursor (\<^verbatim>\<open>tickdb/http/tickcursor_http.h\<close>, \<^verbatim>\<open>tickcursor_http.cpp\<close>,
  \<^verbatim>\<open>tickcursor_subscriptions.cpp\<close>): its state with the mirrored subscription state, and the changes of the
  subscription. The two copies of the subscription state are a list, the two pointers to them are
  indices. The answers of the server to the requests that change the subscription are a list that the
  environment chose; the requests are recorded in the order in which they were sent.
\<close>

section \<open>State\<close>

datatype cursor_state = STARTED | READING | CURSOR_END

datatype subscr_action = SET | ADD | REMOVE

record tick_stream =
  streamPtr :: nat
  streamKey :: string

record subscription_state =
  isResetInProgress :: bool
  readingRestarted :: bool
  lastExpectedCommandId :: "64 word"
  firstExpectedCommandId :: "64 word"
  lastResetCommandId :: "64 word"
  subTables :: symbol_translator
  isSymbolSkipped :: "8 word lut"
  isMessageDescriptorSkipped :: "8 word lut"
  isStreamSkipped :: "8 word lut"
  isUnregisteredSymbolSkipped :: "string \<rightharpoonup> bool"
  isUnregisteredMessageTypeSkipped :: "string \<rightharpoonup> bool"
  isUnregisteredStreamSkipped :: "string \<rightharpoonup> bool"
  tickdbStreams :: "tick_stream option list"

record message_header =
  msgLength :: "32 word"
  msgTimestamp :: "64 word"
  msgEntityId :: "32 word"
  msgTypeId :: "32 word"
  msgStreamId :: int
  msgTypeIdLocal :: "32 word"
  msgCursorState :: cursor_state

datatype cursor_request =
    ResetRequest "64 word" "64 word"
  | ModifyEntitiesRequest "64 word" "64 word" subscr_action "string list option"
  | ModifyTypesRequest "64 word" "64 word" subscr_action "string list option"
  | ModifyStreamsRequest "64 word" "64 word" subscr_action "string list option"
  | CloseRequest "64 word"

record cursor =
  cstate :: cursor_state
  creader :: reader
  readerValid :: bool
  connected :: bool
  cUseEntityId32 :: bool
  isWithinMessageBlock :: bool
  isIdle :: bool
  readMessageDone :: bool
  isInterrupted :: bool
  isInNext :: bool
  cursorClosed :: bool
  isOpen :: bool
  shadowCopyUpdated :: bool
  cursorId :: "64 word"
  subscriptionTimeMs :: "64 word"
  lastTimestamp :: "64 word"
  subState :: "subscription_state list"
  mainState :: nat
  shadowState :: nat
  isSystemMessage :: "bool list"
  liveOption :: bool
  nMessagesProcessed :: nat
  nMessagesSkipped :: nat
  header :: message_header
  serverAnswers :: "(exn + 64 word) list"
  requestsSent :: "cursor_request list"
  registeredInDb :: bool

definition USE_CURSOR_TIME :: "64 word" where [layout_defs]: "USE_CURSOR_TIME = 0x8000000000000002"

definition main_of :: "cursor \<Rightarrow> subscription_state" where "main_of c = subState c ! mainState c"
definition shadow_of :: "cursor \<Rightarrow> subscription_state" where "shadow_of c = subState c ! shadowState c"

definition nStreams :: "subscription_state \<Rightarrow> nat" where "nStreams s = length (tickdbStreams s) - 1"

definition isExecutingSubscriptions :: "subscription_state \<Rightarrow> bool" where
  "isExecutingSubscriptions s \<longleftrightarrow> lastExpectedCommandId s \<noteq> - 1"

definition setCursorState :: "cursor_state \<Rightarrow> (cursor, unit) op" where
  "setCursorState x = modify (\<lambda>c. c\<lparr>cstate := x\<rparr>)"

text \<open>Operations of the state behind one of the pointers.\<close>

definition on_main :: "(subscription_state, 'a) op \<Rightarrow> (cursor, 'a) op" where
  "on_main m = (\<lambda>c. case m (main_of c) of (x, s) \<Rightarrow> (x, c\<lparr>subState := (subState c)[mainState c := s]\<rparr>))"

definition on_shadow :: "(subscription_state, 'a) op \<Rightarrow> (cursor, 'a) op" where
  "on_shadow m = (\<lambda>c. case m (shadow_of c) of (x, s) \<Rightarrow> (x, c\<lparr>subState := (subState c)[shadowState c := s]\<rparr>))"

definition other :: "nat \<Rightarrow> nat" where "other i = 1 - i"

section \<open>The two copies\<close>

text \<open>A write access to the shadow state makes a full copy first if both pointers are the same.\<close>

definition getWriteShadowState :: "(cursor, unit) op" where
  "getWriteShadowState = modify (\<lambda>c.
     if mainState c = shadowState c
     then c\<lparr>shadowState := other (mainState c), subState := (subState c)[other (mainState c) := main_of c], shadowCopyUpdated := True\<rparr>
     else c)"

definition synchronizeDo :: "(cursor, unit) op" where
  "synchronizeDo = modify (\<lambda>c. c\<lparr>mainState := shadowState c, shadowCopyUpdated := False\<rparr>)"

definition synchronizeCheck :: "(cursor, unit) op" where
  "synchronizeCheck = bnd (gets shadowCopyUpdated) (\<lambda>b. whenM b synchronizeDo)"

section \<open>Tables\<close>

definition on_sub_tables :: "(symbol_translator, 'a) op \<Rightarrow> (subscription_state, 'a) op" where
  "on_sub_tables m = (\<lambda>s. case m (subTables s) of (x, t) \<Rightarrow> (x, s\<lparr>subTables := t\<rparr>))"

definition set_symbol_filter :: "64 word \<Rightarrow> 8 word \<Rightarrow> (subscription_state, unit) op" where
  "set_symbol_filter i v = (\<lambda>s. case lut_set 0 0x10000 0 i v (isSymbolSkipped s) of (x, t) \<Rightarrow> (x, s\<lparr>isSymbolSkipped := t\<rparr>))"

definition set_type_filter :: "64 word \<Rightarrow> 8 word \<Rightarrow> (subscription_state, unit) op" where
  "set_type_filter i v =
     (\<lambda>s. case lut_set 0 0x100 0 i v (isMessageDescriptorSkipped s) of (x, t) \<Rightarrow> (x, s\<lparr>isMessageDescriptorSkipped := t\<rparr>))"

definition set_stream_filter :: "64 word \<Rightarrow> 8 word \<Rightarrow> (subscription_state, unit) op" where
  "set_stream_filter i v = (\<lambda>s. case lut_set 0 0x100 0 i v (isStreamSkipped s) of (x, t) \<Rightarrow> (x, s\<lparr>isStreamSkipped := t\<rparr>))"

definition flag :: "bool \<Rightarrow> 8 word" where "flag b = (if b then 1 else 0)"

definition clearMessageFilters :: "bool \<Rightarrow> subscription_state \<Rightarrow> subscription_state" where
  "clearMessageFilters isSkippingAll s = s\<lparr>
     isMessageDescriptorSkipped := lut_clear (lut_setDefaultValue (flag isSkippingAll) (isMessageDescriptorSkipped s)),
     isSymbolSkipped := lut_clear (lut_setDefaultValue (flag isSkippingAll) (isSymbolSkipped s)),
     isStreamSkipped := lut_clear (lut_setDefaultValue (flag isSkippingAll) (isStreamSkipped s)),
     isUnregisteredSymbolSkipped := Map.empty, isUnregisteredMessageTypeSkipped := Map.empty,
     isUnregisteredStreamSkipped := Map.empty\<rparr>"

definition clearStreamsArray :: "subscription_state \<Rightarrow> subscription_state" where
  "clearStreamsArray s = s\<lparr>tickdbStreams := [None]\<rparr>"

definition registerNewInstrument :: "32 word \<Rightarrow> string \<Rightarrow> (subscription_state, unit) op" where
  "registerNewInstrument newId instr =
     bnd (gets (\<lambda>s. of_nat (biSize (instruments (subTables s))))) (\<lambda>expectedId :: 32 word.
     if expectedId \<noteq> newId then throw (RuntimeError ''Instrument cache out of sync'')
     else andthen (on_sub_tables (registerInstrument newId instr))
       (bnd (gets (\<lambda>s. isUnregisteredSymbolSkipped s instr)) (\<lambda>i. case i of
          None \<Rightarrow> ret ()
        | Some skipped \<Rightarrow> andthen (set_symbol_filter (ucast newId) (flag skipped))
            (modify (\<lambda>s. s\<lparr>isUnregisteredSymbolSkipped := (isUnregisteredSymbolSkipped s)(instr := None)\<rparr>)))))"

definition registerNewStream :: "32 word \<Rightarrow> string \<Rightarrow> (subscription_state, unit) op" where
  "registerNewStream newId key =
     bnd (gets (\<lambda>s. of_nat (lutSize (streamKeys (subTables s))))) (\<lambda>expectedId :: 32 word.
     if expectedId \<noteq> newId then throw (RuntimeError ''Cursor stream key cache out of sync'')
     else bnd (gets (\<lambda>s. findStreamId (subTables s) key)) (\<lambda>foundId.
       if emptyStreamId \<noteq> foundId then throw (RuntimeError ''Cursor stream key cache out of sync'')
       else andthen (on_sub_tables (\<lambda>t. case lut_set 0 0x100 None (ucast newId) (Some key) (streamKeys t) of
                (x, l) \<Rightarrow> (x, t\<lparr>streamKeys := l\<rparr>)))
         (bnd (gets (\<lambda>s. isUnregisteredStreamSkipped s key)) (\<lambda>i. case i of
            None \<Rightarrow> ret ()
          | Some skipped \<Rightarrow> andthen (set_stream_filter (ucast newId) (flag skipped))
              (modify (\<lambda>s. s\<lparr>isUnregisteredStreamSkipped := (isUnregisteredStreamSkipped s)(key := None)\<rparr>))))))"

text \<open>The new descriptor is skipped as an entry for its name says, otherwise like its sibling, otherwise
  by default. \<open>parse\<close> is the XML parser: from the text to the class name and the GUID.\<close>

definition registerNewMessageType ::
    "(byte list \<Rightarrow> (string \<times> string) option) \<Rightarrow> 32 word \<Rightarrow> byte list \<Rightarrow> (subscription_state, string) op" where
  "registerNewMessageType parse newMsgDescId text =
     bnd (gets (\<lambda>s. of_nat (length (messageDescriptors (subTables s))))) (\<lambda>expectedId :: 32 word.
     if expectedId \<noteq> newMsgDescId then throw (RuntimeError ''Cursor symbol cache out of sync'')
     else case parse text of
       None \<Rightarrow> throw (RuntimeError ''unable to parse messageDescriptor'')
     | Some (typ, typeGuid) \<Rightarrow>
         andthen (on_sub_tables (registerMessageDescriptor newMsgDescId typ typeGuid (map (\<lambda>b. char_of (unat b)) text)))
         (bnd (gets (\<lambda>s. isUnregisteredMessageTypeSkipped s typ)) (\<lambda>i.
          bnd (case i of
            Some skipped \<Rightarrow> andthen
              (modify (\<lambda>s. s\<lparr>isUnregisteredMessageTypeSkipped := (isUnregisteredMessageTypeSkipped s)(typ := None)\<rparr>))
              (ret (flag skipped))
          | None \<Rightarrow> gets (\<lambda>s.
              let sibling = nextSameType (messageDescriptors (subTables s) ! unat newMsgDescId);
                  filt = isMessageDescriptorSkipped s
              in if EMPTY_MSG_TYPE_ID = sibling then lutDefault filt else lut_get 0 filt (ucast sibling))) (\<lambda>isSkipped.
          andthen (set_type_filter (ucast newMsgDescId) isSkipped) (ret typeGuid)))))"

text \<open>The comparison is that of C strings.\<close>

definition c_str :: "string \<Rightarrow> string" where
  "c_str s = takeWhile (\<lambda>ch. ch \<noteq> CHR 0x00) s"

definition isSystemMessageGuid :: "string \<Rightarrow> bool" where
  "isSystemMessageGuid g \<longleftrightarrow> c_str g \<in> {''SYS:RealTimeStartMessage:1'', ''SYS:DataLossMessage:1''}"

section \<open>Changing the subscription\<close>

text \<open>The server's answer to a request: a command id or an exception. Nothing more to come is a lost
  connection.\<close>

definition execute_request :: "cursor_request \<Rightarrow> (cursor, 64 word) op" where
  "execute_request req =
     (\<lambda>c. let c1 = c\<lparr>requestsSent := requestsSent c @ [req]\<rparr> in
       case serverAnswers c of
         [] \<Rightarrow> (Inl (IOError ''Not connected''), c1)
       | x # xs \<Rightarrow> (x, c1\<lparr>serverAnswers := xs\<rparr>))"

definition addSubscriptionCommand :: "64 word \<Rightarrow> (cursor, unit) op" where
  "addSubscriptionCommand cmdId =
     bnd (gets (\<lambda>c. lastExpectedCommandId (shadow_of c))) (\<lambda>lastId.
     seqs
       [if - 1 = lastId
        then on_shadow (modify (\<lambda>s. s\<lparr>firstExpectedCommandId := cmdId, lastExpectedCommandId := cmdId\<rparr>))
        else if cmdId \<noteq> lastId + 1 then throw (RuntimeError ''Command Id sequence is broken'')
        else on_shadow (modify (\<lambda>s. s\<lparr>lastExpectedCommandId := lastId + 1\<rparr>)),
        setCursorState STARTED,
        on_shadow (modify (\<lambda>s. s\<lparr>readingRestarted := True\<rparr>))])"

definition cursor_reset :: "64 word \<Rightarrow> (cursor, unit) op" where
  "cursor_reset dt = seqs
     [getWriteShadowState,
      on_shadow (modify (\<lambda>s. clearMessageFilters False (s\<lparr>isResetInProgress := True\<rparr>))),
      modify (\<lambda>c. c\<lparr>subscriptionTimeMs := USE_CURSOR_TIME\<rparr>),
      bnd (gets cursorId) (\<lambda>i. bnd (execute_request (ResetRequest i dt)) addSubscriptionCommand),
      on_shadow (modify (\<lambda>s. s\<lparr>lastResetCommandId := lastExpectedCommandId s\<rparr>))]"

text \<open>One turn of the loop over the symbols. An entry for a symbol that is not known yet is only made if it differs
  from the default.\<close>

definition modify_entity :: "bool \<Rightarrow> string \<Rightarrow> (subscription_state, unit) op" where
  "modify_entity isRemoving e =
     bnd (gets (\<lambda>s. (bilut_id (instruments (subTables s)) e, lutDefault (isSymbolSkipped s)))) (\<lambda>(entityId, dflt).
     if invalidId \<noteq> entityId then set_symbol_filter (ucast entityId) (flag isRemoving)
     else if dflt \<noteq> flag isRemoving
     then modify (\<lambda>s. s\<lparr>isUnregisteredSymbolSkipped := (isUnregisteredSymbolSkipped s)(e \<mapsto> isRemoving)\<rparr>)
     else ret ())"

definition modifyEntities_filter :: "string list option \<Rightarrow> subscr_action \<Rightarrow> (subscription_state, unit) op" where
  "modifyEntities_filter entities action = seqs
     [whenM (entities = None \<or> action = SET) (modify (\<lambda>s. s\<lparr>
        isSymbolSkipped := lut_clear (lut_setDefaultValue (flag (ADD \<noteq> action)) (isSymbolSkipped s)),
        isUnregisteredSymbolSkipped := Map.empty\<rparr>)),
      (case entities of None \<Rightarrow> ret () | Some es \<Rightarrow> mapM (modify_entity (REMOVE = action)) es)]"

definition modifyEntities :: "string list option \<Rightarrow> subscr_action \<Rightarrow> (cursor, unit) op" where
  "modifyEntities entities action = seqs
     [getWriteShadowState,
      on_shadow (modifyEntities_filter entities action),
      bnd (gets (\<lambda>c. (cursorId c, subscriptionTimeMs c))) (\<lambda>(i, t).
        bnd (execute_request (ModifyEntitiesRequest i t action entities)) addSubscriptionCommand)]"

text \<open>All descriptors of a type name, along their links. A link always goes to an earlier descriptor, so
  as many steps as there are descriptors are enough (\<open>modifyFilterSet_list\<close>).\<close>

fun modifyFilterSet :: "nat \<Rightarrow> nat \<Rightarrow> 8 word \<Rightarrow> (subscription_state, unit) op" where
  "modifyFilterSet 0 index v = (if index < 0x100 then throw (Undefined ''fuel'') else ret ())"
| "modifyFilterSet (Suc k) index v =
     (if index < 0x100
      then andthen (set_type_filter (of_nat index) v)
        (bnd (gets (\<lambda>s. getMessageDescriptor (subTables s) index)) (\<lambda>d. case d of
           None \<Rightarrow> throw (Undefined ''descriptors'')
         | Some m \<Rightarrow> modifyFilterSet k (unat (nextSameType m)) v))
      else ret ())"

definition modify_type :: "bool \<Rightarrow> string \<Rightarrow> (subscription_state, unit) op" where
  "modify_type isRemoving t =
     bnd (gets (\<lambda>s. (findMsgDescByType (subTables s) t, length (messageDescriptors (subTables s)),
         lutDefault (isMessageDescriptorSkipped s)))) (\<lambda>(msgTypeId, n, dflt).
     if EMPTY_MSG_TYPE_ID \<noteq> msgTypeId then modifyFilterSet n (unat msgTypeId) (flag isRemoving)
     else if dflt \<noteq> flag isRemoving
     then modify (\<lambda>s. s\<lparr>isUnregisteredMessageTypeSkipped := (isUnregisteredMessageTypeSkipped s)(t \<mapsto> isRemoving)\<rparr>)
     else ret ())"

definition modifyTypes_filter :: "string list option \<Rightarrow> subscr_action \<Rightarrow> (subscription_state, unit) op" where
  "modifyTypes_filter types action = seqs
     [whenM (types = None \<or> action = SET) (modify (\<lambda>s. s\<lparr>
        isMessageDescriptorSkipped := lut_clear (lut_setDefaultValue (flag (ADD \<noteq> action)) (isMessageDescriptorSkipped s)),
        isUnregisteredMessageTypeSkipped := Map.empty\<rparr>)),
      (case types of None \<Rightarrow> ret () | Some ts \<Rightarrow> mapM (modify_type (REMOVE = action)) ts)]"

definition modifyTypes :: "string list option \<Rightarrow> subscr_action \<Rightarrow> (cursor, unit) op" where
  "modifyTypes types action = seqs
     [getWriteShadowState,
      on_shadow (modifyTypes_filter types action),
      bnd (gets (\<lambda>c. (cursorId c, subscriptionTimeMs c))) (\<lambda>(i, t).
        bnd (execute_request (ModifyTypesRequest i t action types)) addSubscriptionCommand)]"

section \<open>Streams\<close>

text \<open>The inner loop of \<^verbatim>\<open>modifyStreams\<close> over the current streams: the first entry with the same pointer
  is removed or keeps the stream from being added.\<close>

fun find_stream :: "bool \<Rightarrow> tick_stream \<Rightarrow> tick_stream option list \<Rightarrow> tick_stream option list \<times> bool" where
  "find_stream isRemoving x [] = ([], \<not> isRemoving)"
| "find_stream isRemoving x (j # js) =
     (case j of
        Some y \<Rightarrow> if streamPtr y = streamPtr x then ((if isRemoving then None else j) # js, False)
                  else (case find_stream isRemoving x js of (l, b) \<Rightarrow> (j # l, b))
      | None \<Rightarrow> (case find_stream isRemoving x js of (l, b) \<Rightarrow> (j # l, b)))"

definition modify_stream :: "bool \<Rightarrow> tick_stream \<Rightarrow> (subscription_state, unit) op" where
  "modify_stream isRemoving x =
     andthen
       (bnd (gets (\<lambda>s. (findStreamId (subTables s) (streamKey x), lutDefault (isStreamSkipped s)))) (\<lambda>(streamId, dflt).
        if emptyStreamId \<noteq> streamId then set_stream_filter (ucast (of_int streamId :: 32 word)) (flag isRemoving)
        else if dflt \<noteq> flag isRemoving
        then modify (\<lambda>s. s\<lparr>isUnregisteredStreamSkipped := (isUnregisteredStreamSkipped s)(streamKey x \<mapsto> isRemoving)\<rparr>)
        else ret ()))
       (modify (\<lambda>s. case find_stream isRemoving x (tickdbStreams s) of
            (l, shouldAdd) \<Rightarrow> s\<lparr>tickdbStreams := (if shouldAdd then l @ [Some x] else l)\<rparr>))"

definition modifyStreams_filter :: "tick_stream list option \<Rightarrow> subscr_action \<Rightarrow> (subscription_state, unit) op" where
  "modifyStreams_filter streams action = seqs
     [whenM (streams = None) (modify (\<lambda>s. s\<lparr>
        isStreamSkipped := lut_clear (lut_setDefaultValue (flag (ADD \<noteq> action)) (isStreamSkipped s)),
        isUnregisteredStreamSkipped := Map.empty\<rparr>)),
      (case streams of None \<Rightarrow> ret () | Some xs \<Rightarrow> mapM (modify_stream (REMOVE = action)) xs),
      modify (\<lambda>s. s\<lparr>tickdbStreams := None # filter (\<lambda>i. i \<noteq> None) (tickdbStreams s)\<rparr>)]"

definition modifyStreams_once :: "tick_stream list option \<Rightarrow> subscr_action \<Rightarrow> (cursor, unit) op" where
  "modifyStreams_once streams action = seqs
     [getWriteShadowState,
      on_shadow (modifyStreams_filter streams action),
      bnd (gets (\<lambda>c. (cursorId c, subscriptionTimeMs c))) (\<lambda>(i, t).
        bnd (execute_request (ModifyStreamsRequest i t action (map_option (map streamKey) streams))) addSubscriptionCommand)]"

text \<open>Setting the streams removes all and then adds, which are two requests.\<close>

definition modifyStreams :: "tick_stream list option \<Rightarrow> subscr_action \<Rightarrow> (cursor, unit) op" where
  "modifyStreams streams action =
     (if SET = action
      then andthen (modifyStreams_once None REMOVE)
        (if (case streams of None \<Rightarrow> True | Some xs \<Rightarrow> xs = []) then ret () else modifyStreams_once streams ADD)
      else modifyStreams_once streams action)"

definition setStreams :: "tick_stream list option \<Rightarrow> (cursor, unit) op" where
  "setStreams streams = seqs
     [getWriteShadowState,
      on_shadow (modify clearStreamsArray),
      (case streams of None \<Rightarrow> ret ()
       | Some xs \<Rightarrow> on_shadow (modify (\<lambda>s. s\<lparr>tickdbStreams := None # map Some xs\<rparr>)))]"

definition setTimeForNewSubscriptions :: "64 word \<Rightarrow> (cursor, unit) op" where
  "setTimeForNewSubscriptions dt = modify (\<lambda>c. c\<lparr>subscriptionTimeMs := dt\<rparr>)"

section \<open>Access to the tables\<close>

definition registerUserMessageType :: "32 word \<Rightarrow> string \<Rightarrow> (cursor, 32 word) op" where
  "registerUserMessageType newTypeId name =
     andthen getWriteShadowState (on_shadow (on_sub_tables (registerLocalMessageType newTypeId name)))"

definition cursor_getInstrument :: "cursor \<Rightarrow> nat \<Rightarrow> string option" where
  "cursor_getInstrument c entityId =
     (let t = subTables (shadow_of c) in if isRegisteredInstrumentId t entityId then getInstrument t entityId else None)"

definition cursor_getMessageTypeName :: "cursor \<Rightarrow> nat \<Rightarrow> string option" where
  "cursor_getMessageTypeName c i = getMessageTypeName (subTables (shadow_of c)) i"

definition cursor_getMessageSchema :: "cursor \<Rightarrow> nat \<Rightarrow> string option" where
  "cursor_getMessageSchema c i = getMessageSchema (subTables (shadow_of c)) i"

definition getMessageStreamKey :: "cursor \<Rightarrow> int \<Rightarrow> string option" where
  "getMessageStreamKey c streamId =
     (if emptyStreamId = streamId then None
      else lut_get 0 (streamKeys (subTables (shadow_of c))) (of_int streamId))"

definition numStreams :: "cursor \<Rightarrow> nat" where "numStreams c = nStreams (main_of c)"

definition cursor_stream :: "cursor \<Rightarrow> int \<Rightarrow> tick_stream option" where
  "cursor_stream c i = tickdbStreams (main_of c) ! nat (i + 1)"

end
