(* ===== verification/Cursor.thy ===== *)
theory Cursor
  imports CursorState Loader
begin

text \<open>
  The cursor's reading side (\<^verbatim>\<open>tickdb/http/tickcursor_http.cpp\<close>): the records of the stream, the blocks of
  messages with the filters, \<^verbatim>\<open>next\<close> with its two modes, and closing.
\<close>

section \<open>Reading\<close>

text \<open>An invalidated reader has null pointers.\<close>

definition on_reader :: "(reader, 'a) op \<Rightarrow> (cursor, 'a) op" where
  "on_reader m = (\<lambda>c. if \<not> readerValid c then (Inl (Undefined ''null reader''), c)
     else case m (creader c) of (x, r) \<Rightarrow> (x, c\<lparr>creader := r\<rparr>))"

definition bytes_string :: "byte list \<Rightarrow> string" where
  "bytes_string bs = map (\<lambda>b. char_of (unat b)) bs"

definition CURSOR_BLOCK_ID :: "8 word" where [layout_defs]: "CURSOR_BLOCK_ID = 7"
definition COMMAND_BLOCK_ID :: "8 word" where [layout_defs]: "COMMAND_BLOCK_ID = 8"
definition STREAM_BLOCK_ID :: "8 word" where [layout_defs]: "STREAM_BLOCK_ID = 9"
definition PING_BLOCK_ID :: "8 word" where [layout_defs]: "PING_BLOCK_ID = 6"
definition CURSOR_MESSAGE_HEADER_SIZE_EID32 :: "32 word" where [layout_defs]: "CURSOR_MESSAGE_HEADER_SIZE_EID32 = 14"

definition readMessageType :: "(byte list \<Rightarrow> (string \<times> string) option) \<Rightarrow> (cursor, unit) op" where
  "readMessageType parse =
     bnd (on_reader getUInt16) (\<lambda>d.
     bnd (on_reader getUTF8_inl) (\<lambda>t. case t of
       None \<Rightarrow> throw (RuntimeError ''.readMessageType(): Unable to read message definition'')
     | Some text \<Rightarrow>
         andthen synchronizeCheck
         (bnd (on_main (registerNewMessageType parse (ucast d) text)) (\<lambda>g.
          whenM (isSystemMessageGuid g)
            (modify (\<lambda>c. c\<lparr>isSystemMessage := (isSystemMessage c)[unat d := True]\<rparr>))))))"

text \<open>A negative 16-bit number is the high half of a 31-bit number.\<close>

definition readEntityId :: "bool \<Rightarrow> (cursor, 32 word) op" where
  "readEntityId CHECKED =
     bnd (on_reader getUInt16) (\<lambda>v. let entityId = (scast v :: 32 word) in
     if sint entityId < 0
     then bnd (gets cUseEntityId32) (\<lambda>e32.
          if CHECKED \<and> \<not> e32 then throw (CursorError ''.readInstrumentIdentity(): Entity ID is too big'')
          else bnd (on_reader getUInt16) (\<lambda>w. ret (push_bit 16 entityId + ucast w + 0x80000000)))
     else ret entityId)"

definition readEntity :: "(cursor, unit) op" where
  "readEntity =
     bnd (readEntityId True) (\<lambda>symbolId.
     bnd (on_reader getUTF8_inl) (\<lambda>s.
     andthen synchronizeCheck
       (on_main (registerNewInstrument symbolId (case s of None \<Rightarrow> [] | Some bs \<Rightarrow> bytes_string bs)))))"

definition readStreamKey :: "(cursor, unit) op" where
  "readStreamKey =
     bnd (on_reader getByte) (\<lambda>streamId.
     if streamId = 0xFF then throw (RuntimeError ''.readStreamKey(): streamId=255 is reserved for NULL messages'')
     else bnd (on_reader getUTF8_inl) (\<lambda>s.
       andthen synchronizeCheck
         (on_main (registerNewStream (ucast streamId) (case s of None \<Rightarrow> [] | Some bs \<Rightarrow> bytes_string bs)))))"

text \<open>255 becomes -1, every other number is kept.\<close>

definition stream_of_byte :: "8 word \<Rightarrow> int" where
  "stream_of_byte b = int ((unat b + 1) mod 256) - 1"

text \<open>The fields behind the length. Each is stored in the caller's header as soon as it is read.\<close>

definition read_message_fields :: "(cursor, unit) op" where
  "read_message_fields = seqs
     [bnd (on_reader getUInt64) (\<lambda>t. modify (\<lambda>c. c\<lparr>header := (header c)\<lparr>msgTimestamp := t\<rparr>, lastTimestamp := t\<rparr>)),
      bnd (readEntityId False) (\<lambda>e. modify (\<lambda>c. c\<lparr>header := (header c)\<lparr>msgEntityId := e\<rparr>\<rparr>)),
      bnd (on_reader getByte) (\<lambda>t. modify (\<lambda>c. c\<lparr>header := (header c)\<lparr>msgTypeId := ucast t\<rparr>\<rparr>)),
      bnd (on_reader getByte) (\<lambda>s. modify (\<lambda>c. c\<lparr>header := (header c)\<lparr>msgStreamId := stream_of_byte s\<rparr>\<rparr>))]"

definition switch_to_shadow :: "(cursor, unit) op" where
  "switch_to_shadow =
     bnd (gets shadowCopyUpdated) (\<lambda>b. whenM b (seqs
       [modify (\<lambda>c. c\<lparr>mainState := shadowState c, shadowCopyUpdated := False\<rparr>),
        bnd (gets (\<lambda>c. readingRestarted (main_of c))) (\<lambda>restarted. whenM restarted (seqs
          [on_main (modify (\<lambda>s. s\<lparr>readingRestarted := False\<rparr>)), setCursorState STARTED]))]))"

definition check_message_ids :: "(cursor, unit) op" where
  "check_message_ids =
     bnd (gets (\<lambda>c. (header c, subTables (main_of c)))) (\<lambda>(h, t). seqs
       [guard (isRegisteredInstrumentId t (unat (msgEntityId h))) (CursorError ''.readNextMessage(): unexpected EntityIndex''),
        guard (isRegisteredMsgDescId t (unat (msgTypeId h))) (CursorError ''.readNextMessage(): unexpected MessageDescriptorIndex''),
        guard (msgStreamId h < int (lutSize (streamKeys t))) (CursorError ''.readNextMessage(): unexpected StreamIndex'')])"

text \<open>The filter on the stream is not asked.\<close>

definition is_skipped :: "cursor \<Rightarrow> bool" where
  "is_skipped c =
     (let s = main_of c; h = header c in
      isResetInProgress s \<or>
      (\<not> isSystemMessage c ! unat (msgTypeId h) \<and>
        (lut_get 0 (isMessageDescriptorSkipped s) (ucast (msgTypeId h)) \<noteq> 0 \<or>
         lut_get 0 (isSymbolSkipped s) (ucast (msgEntityId h)) \<noteq> 0)))"

text \<open>One turn of the loop over the messages of a block: None to go on.\<close>

definition message_step :: "(cursor, bool option) op" where
  "message_step =
     bnd (on_reader getUInt32) (\<lambda>messageSize.
     if messageSize = MESSAGE_BLOCK_TERMINATOR_RECORD
     then andthen (modify (\<lambda>c. c\<lparr>isWithinMessageBlock := False\<rparr>)) (ret (Some False))
     else
       andthen (seqs
         [modify (\<lambda>c. c\<lparr>header := (header c)\<lparr>msgLength := messageSize\<rparr>\<rparr>),
          on_reader (setMessageSize (unat messageSize)),
          guard (in_range messageSize CURSOR_MESSAGE_HEADER_SIZE_EID32 (of_nat MAX_MESSAGE_SIZE + 1))
            (CursorError ''.readNextMessage(): Incorrect message size''),
          read_message_fields, switch_to_shadow, check_message_ids,
          modify (\<lambda>c. c\<lparr>header := (header c)\<lparr>msgTypeIdLocal := 0\<rparr>, nMessagesProcessed := nMessagesProcessed c + 1\<rparr>)])
       (bnd (gets is_skipped) (\<lambda>skipped.
        if skipped
        then andthen (seqs
          [modify (\<lambda>c. c\<lparr>nMessagesSkipped := nMessagesSkipped c + 1\<rparr>), on_reader nextMessage]) (ret None)
        else andthen (seqs
          [setCursorState READING, modify (\<lambda>c. c\<lparr>header := (header c)\<lparr>msgCursorState := READING\<rparr>\<rparr>)]) (ret (Some True)))))"

text \<open>Every turn takes at least the length field, so one turn more than there are bytes is enough.\<close>

fun in_block_loop :: "nat \<Rightarrow> (cursor, bool) op" where
  "in_block_loop 0 = throw (Undefined ''fuel'')"
| "in_block_loop (Suc k) = bnd message_step (\<lambda>r. case r of Some b \<Rightarrow> ret b | None \<Rightarrow> in_block_loop k)"

definition read_fuel :: "cursor \<Rightarrow> nat" where
  "read_fuel c = Suc (length (stream_left (creader c)))"

definition readNextMessageInBlock :: "(cursor, bool) op" where
  "readNextMessageInBlock = (\<lambda>c. in_block_loop (read_fuel c) c)"

section \<open>Records\<close>

definition finish_command :: "64 word \<Rightarrow> (subscription_state, unit) op" where
  "finish_command cmdid =
     bnd (gets (\<lambda>s. s)) (\<lambda>s.
     if cmdid \<noteq> firstExpectedCommandId s then throw (CursorError ''Unexpected cursor subscription command id'')
     else
       andthen
         (if \<not> isResetInProgress s then ret ()
          else if cmdid = lastResetCommandId s
          then modify (\<lambda>s. s\<lparr>isResetInProgress := False, lastResetCommandId := - 1\<rparr>)
          else guard (in_range (lastResetCommandId s) (firstExpectedCommandId s) (lastExpectedCommandId s + 1))
            (CursorError ''Logic error - invalid reset command id during reset operation''))
         (modify (\<lambda>s. if firstExpectedCommandId s = lastExpectedCommandId s
            then s\<lparr>firstExpectedCommandId := - 1, lastExpectedCommandId := - 1\<rparr>
            else s\<lparr>firstExpectedCommandId := firstExpectedCommandId s + 1\<rparr>)))"

definition read_terminator :: "(cursor, bool) op" where
  "read_terminator =
     andthen synchronizeCheck
     (bnd (gets (\<lambda>c. isExecutingSubscriptions (main_of c) \<and> \<not> isInterrupted c)) (\<lambda>ignored.
      if ignored then ret True else andthen (setCursorState CURSOR_END) (ret False)))"

definition read_cursor_id :: "(cursor, bool) op" where
  "read_cursor_id =
     bnd (on_reader getUInt64) (\<lambda>i. bnd (gets cursorId) (\<lambda>old.
     if old \<noteq> - 1 \<and> old \<noteq> i then throw (CursorError ''Redundant cursor id record encountered with different id'')
     else andthen (modify (\<lambda>c. c\<lparr>cursorId := i\<rparr>)) (ret True)))"

text \<open>The result says whether the cursor goes on.\<close>

definition record_branch :: "(byte list \<Rightarrow> (string \<times> string) option) \<Rightarrow> 8 word \<Rightarrow> (cursor, bool) op" where
  "record_branch parse i =
     (if i = TYPE_BLOCK_ID then andthen (readMessageType parse) (ret True)
      else if i = INSTRUMENT_BLOCK_ID then andthen readEntity (ret True)
      else if i = STREAM_BLOCK_ID then andthen readStreamKey (ret True)
      else if i = MESSAGE_BLOCK_ID then andthen (modify (\<lambda>c. c\<lparr>isWithinMessageBlock := True\<rparr>)) (ret True)
      else if i = ERROR_BLOCK_ID
      then bnd (on_reader getByte) (\<lambda>code. bnd (on_reader getUTF8_inl) (\<lambda>text. throw (ServerError ''Server-side error'')))
      else if i = TERMINATOR_BLOCK_ID then read_terminator
      else if i = PING_BLOCK_ID then andthen (modify (\<lambda>c. c\<lparr>isIdle := True\<rparr>)) (ret True)
      else if i = CURSOR_BLOCK_ID then read_cursor_id
      else if i = COMMAND_BLOCK_ID
      then bnd (on_reader getUInt64) (\<lambda>cmdid. andthen synchronizeCheck (andthen (on_main (finish_command cmdid)) (ret True)))
      else throw (CursorError ''.readNextRecord(): Invalid block marker''))"

definition readNextRecord :: "(byte list \<Rightarrow> (string \<times> string) option) \<Rightarrow> (cursor, bool) op" where
  "readNextRecord parse =
     bnd (on_reader getByte) (\<lambda>i. andthen (modify (\<lambda>c. c\<lparr>isIdle := False\<rparr>)) (record_branch parse i))"

text \<open>The end of the stream.\<close>

definition at_end :: "(cursor, bool) op" where
  "at_end = andthen (modify (\<lambda>c. c\<lparr>cstate := CURSOR_END, header := (header c)\<lparr>msgCursorState := CURSOR_END\<rparr>\<rparr>)) (ret False)"

fun record_loop :: "(byte list \<Rightarrow> (string \<times> string) option) \<Rightarrow> nat \<Rightarrow> (cursor, bool) op" where
  "record_loop parse 0 = throw (Undefined ''fuel'')"
| "record_loop parse (Suc k) =
     bnd (readNextRecord parse) (\<lambda>go.
     if \<not> go then at_end
     else bnd (gets isWithinMessageBlock) (\<lambda>inside.
       if inside then bnd readNextMessageInBlock (\<lambda>found. if found then ret True else record_loop parse k)
       else record_loop parse k))"

definition readNextMessage :: "(byte list \<Rightarrow> (string \<times> string) option) \<Rightarrow> (cursor, bool) op" where
  "readNextMessage parse =
     bnd (gets isWithinMessageBlock) (\<lambda>inside.
     if inside
     then andthen (on_reader nextMessage)
       (bnd readNextMessageInBlock (\<lambda>found. if found then ret True else (\<lambda>c. record_loop parse (read_fuel c) c)))
     else (\<lambda>c. record_loop parse (read_fuel c) c))"

text \<open>The mode without blocking gives up at the end of a block and after a ping.\<close>

fun record_loop_nonblock :: "(byte list \<Rightarrow> (string \<times> string) option) \<Rightarrow> nat \<Rightarrow> (cursor, bool) op" where
  "record_loop_nonblock parse 0 = throw (Undefined ''fuel'')"
| "record_loop_nonblock parse (Suc k) =
     bnd (readNextRecord parse) (\<lambda>go.
     if \<not> go then at_end
     else bnd (gets (\<lambda>c. (isWithinMessageBlock c, isIdle c))) (\<lambda>(inside, idle).
       if inside then readNextMessageInBlock
       else if idle then ret False
       else record_loop_nonblock parse k))"

definition readNextMessageNonBlock :: "(byte list \<Rightarrow> (string \<times> string) option) \<Rightarrow> (cursor, bool) op" where
  "readNextMessageNonBlock parse =
     bnd (gets isWithinMessageBlock) (\<lambda>inside.
     if inside then readNextMessageInBlock else (\<lambda>c. record_loop_nonblock parse (read_fuel c) c))"

fun until_id_loop :: "(byte list \<Rightarrow> (string \<times> string) option) \<Rightarrow> nat \<Rightarrow> (cursor, bool) op" where
  "until_id_loop parse 0 = throw (Undefined ''fuel'')"
| "until_id_loop parse (Suc k) =
     bnd (readNextRecord parse) (\<lambda>go.
     if \<not> go then andthen (on_main (modify (\<lambda>s. s\<lparr>isResetInProgress := False\<rparr>))) (ret False)
     else bnd (gets cursorId) (\<lambda>i.
       if i \<noteq> - 1 then andthen (on_main (modify (\<lambda>s. s\<lparr>isResetInProgress := False\<rparr>))) (ret True)
       else until_id_loop parse k))"

definition readUntilCursorId :: "(byte list \<Rightarrow> (string \<times> string) option) \<Rightarrow> (cursor, bool) op" where
  "readUntilCursorId parse =
     andthen (on_main (modify (\<lambda>s. s\<lparr>isResetInProgress := True\<rparr>))) (\<lambda>c. until_id_loop parse (read_fuel c) c)"

fun skip_block_loop :: "nat \<Rightarrow> (cursor, unit) op" where
  "skip_block_loop 0 = throw (Undefined ''fuel'')"
| "skip_block_loop (Suc k) =
     bnd (on_reader getUInt32) (\<lambda>messageSize.
     if messageSize = MESSAGE_BLOCK_TERMINATOR_RECORD then modify (\<lambda>c. c\<lparr>isWithinMessageBlock := False\<rparr>)
     else andthen (on_reader (skip (unat messageSize))) (skip_block_loop k))"

definition skipMessageBlock :: "(cursor, unit) op" where
  "skipMessageBlock = (\<lambda>c. skip_block_loop (read_fuel c) c)"

fun skip_eof_loop :: "(byte list \<Rightarrow> (string \<times> string) option) \<Rightarrow> nat \<Rightarrow> (cursor, unit) op" where
  "skip_eof_loop parse 0 = throw (Undefined ''fuel'')"
| "skip_eof_loop parse (Suc k) =
     bnd (readNextRecord parse) (\<lambda>go.
     if \<not> go then ret ()
     else bnd (gets isWithinMessageBlock) (\<lambda>inside.
       andthen (whenM inside skipMessageBlock) (skip_eof_loop parse k)))"

definition skipUntilEOF :: "(byte list \<Rightarrow> (string \<times> string) option) \<Rightarrow> (cursor, unit) op" where
  "skipUntilEOF parse =
     bnd (gets isWithinMessageBlock) (\<lambda>inside.
     andthen (whenM inside (seqs [on_reader nextMessage, skipMessageBlock])) (\<lambda>c. skip_eof_loop parse (read_fuel c) c))"

end
