(* ===== verification/CursorControl.thy ===== *)
theory CursorControl
  imports Cursor
begin

text \<open>
  The cursor's lifecycle (\<^verbatim>\<open>tickdb/http/tickcursor_http.cpp\<close>): \<^verbatim>\<open>next\<close> with its handling of exceptions,
  the end of opening, closing and preloading. How many bytes the socket reports as available, and what
  the client's thread does while another thread closes the cursor, are given by the environment.
\<close>

section \<open>Closing\<close>

definition cursor_closeConnection :: "(cursor, unit) op" where
  "cursor_closeConnection = modify (\<lambda>c. c\<lparr>connected := False\<rparr>)"

definition invalidate :: "reader \<Rightarrow> reader" where
  "invalidate r = r\<lparr>rdataPtr := 0, rdataEnd := 0\<rparr>"

definition doClose :: "(cursor, unit) op" where
  "doClose = seqs
     [modify (\<lambda>c. c\<lparr>cstate := CURSOR_END, isWithinMessageBlock := False, cursorClosed := True, readerValid := False,
        creader := invalidate (creader c)\<rparr>),
      cursor_closeConnection,
      modify (\<lambda>c. c\<lparr>registeredInDb := False, isOpen := False\<rparr>)]"

text \<open>The loop that reads the rest ends by an exception only.\<close>

fun drain_loop :: "nat \<Rightarrow> (cursor, unit) op" where
  "drain_loop 0 = throw (Undefined ''fuel'')"
| "drain_loop (Suc k) = bnd (on_reader getByte) (\<lambda>b. drain_loop k)"

definition readRemainderAndClose :: "(cursor, unit) op" where
  "readRemainderAndClose =
     andthen (bnd (gets isOpen) (\<lambda>b. whenM b
       (andthen (on_reader resetMessageSize) (\<lambda>c. drain_loop (read_fuel c) c))))
     doClose"

section \<open>The next message\<close>

definition nBytesAvailableInStream :: "reader \<Rightarrow> 64 word" where
  "nBytesAvailableInStream r = of_nat (streamDataEnd r) - of_nat (rdataPtr r) - 2"

text \<open>The number of bytes the operating system has for the stream; without a stream the call is
  undefined.\<close>

definition stream_available :: "nat \<Rightarrow> (cursor, nat) op" where
  "stream_available avail = (\<lambda>c. if connected c then (Inr avail, c) else (Inl (Undefined ''null stream''), c))"

text \<open>Behind the end: either the end is reported again (None) or reading goes on.\<close>

definition next_at_end :: "nat \<Rightarrow> (cursor, bool) op" where
  "next_at_end avail =
     bnd (gets (\<lambda>c. (isInterrupted c, isExecutingSubscriptions (main_of c), nBytesAvailable (creader c)))) (\<lambda>(interrupted, executing, n).
     if interrupted then throw (CursorInterrupted ''.readNext(): interrupted'')
     else bnd (if \<not> executing \<and> 0 = n then bnd (stream_available avail) (\<lambda>m. ret (0 = m)) else ret False) (\<lambda>ended.
       if ended then andthen (modify (\<lambda>c. c\<lparr>header := (header c)\<lparr>msgCursorState := cstate c\<rparr>\<rparr>)) (ret False)
       else andthen (modify (\<lambda>c. c\<lparr>cstate := STARTED, header := (header c)\<lparr>msgCursorState := STARTED\<rparr>\<rparr>)) (ret True)))"

definition next_available :: "nat \<Rightarrow> (cursor, bool) op" where
  "next_available avail =
     andthen (bnd (gets (\<lambda>c. isWithinMessageBlock c \<and> \<not> readMessageDone c)) (\<lambda>b. whenM b (seqs
       [on_reader nextMessage, modify (\<lambda>c. c\<lparr>readMessageDone := True\<rparr>)])))
     (bnd (gets (\<lambda>c. nBytesAvailableInStream (creader c))) (\<lambda>n.
      if n = 0
      then bnd (stream_available avail) (\<lambda>m. if m = 0 then ret False
        else andthen (modify (\<lambda>c. c\<lparr>readMessageDone := False\<rparr>)) (ret True))
      else andthen (modify (\<lambda>c. c\<lparr>readMessageDone := False\<rparr>)) (ret True)))"

definition next_body :: "(byte list \<Rightarrow> (string \<times> string) option) \<Rightarrow> bool \<Rightarrow> nat \<Rightarrow> (cursor, bool) op" where
  "next_body parse nonBlocking avail =
     bnd (bnd (gets cstate) (\<lambda>s. if s = CURSOR_END then next_at_end avail else ret True)) (\<lambda>go.
     if \<not> go then ret False
     else bnd (if nonBlocking then next_available avail else ret True) (\<lambda>go.
       if \<not> go then ret False
       else if nonBlocking then readNextMessageNonBlock parse else readNextMessage parse))"

definition on_next_exception :: "exn \<Rightarrow> (cursor, bool) op" where
  "on_next_exception e =
     (case e of
        Undefined u \<Rightarrow> throw (Undefined u)
      | _ \<Rightarrow> andthen (seqs
          [modify (\<lambda>c. c\<lparr>cstate := CURSOR_END, header := (header c)\<lparr>msgCursorState := CURSOR_END\<rparr>\<rparr>), doClose,
           modify (\<lambda>c. c\<lparr>isInNext := False\<rparr>)])
          (case e of Disconnected s \<Rightarrow> ret False | _ \<Rightarrow> throw e))"

definition cursor_next :: "(byte list \<Rightarrow> (string \<times> string) option) \<Rightarrow> bool \<Rightarrow> nat \<Rightarrow> (cursor, bool) op" where
  "cursor_next parse nonBlocking avail =
     (\<lambda>c. case next_body parse nonBlocking avail (c\<lparr>isInNext := True\<rparr>) of
        (Inr b, c') \<Rightarrow> (Inr b, c'\<lparr>isInNext := False\<rparr>)
      | (Inl e, c') \<Rightarrow> on_next_exception e c')"

definition isAtEnd :: "cursor \<Rightarrow> bool" where "isAtEnd c \<longleftrightarrow> cstate c = CURSOR_END"
definition cursor_isClosed :: "cursor \<Rightarrow> bool" where "cursor_isClosed c \<longleftrightarrow> \<not> isOpen c"

section \<open>Closing from another thread\<close>

text \<open>At each wake-up of the closing thread the client's thread is still in \<^verbatim>\<open>next\<close>, has left it, or has
  closed the cursor in it.\<close>

datatype client_turn = StillInNext | LeftNext | ClosedInNext

fun client_acts :: "client_turn \<Rightarrow> cursor \<Rightarrow> cursor" where
  "client_acts StillInNext c = c"
| "client_acts LeftNext c = c\<lparr>isInNext := False\<rparr>"
| "client_acts ClosedInNext c = (snd (doClose c))\<lparr>isInNext := False\<rparr>"

definition CLOSE_TURNS :: nat where [layout_defs]: "CLOSE_TURNS = 8000 div 2"

text \<open>The result says that the cursor was found closed.\<close>

fun wait_client :: "nat \<Rightarrow> client_turn list \<Rightarrow> cursor \<Rightarrow> bool \<times> cursor" where
  "wait_client 0 turns c = (False, c)"
| "wait_client (Suc n) turns c =
     (if \<not> isOpen c then (True, c)
      else let c1 = (case turns of [] \<Rightarrow> c | t # ts \<Rightarrow> client_acts t c) in
        if \<not> isInNext c1 then (False, c1) else wait_client n (tl turns) c1)"

definition sendCloseRequest :: "(cursor, unit) op" where
  "sendCloseRequest = (\<lambda>c. (Inr (), snd (execute_request (CloseRequest (cursorId c)) c)))"

definition close_body :: "bool \<Rightarrow> client_turn list \<Rightarrow> (cursor, unit) op" where
  "close_body shouldSendCloseRequest turns =
     andthen (seqs
       [modify (\<lambda>c. c\<lparr>isInterrupted := True, cstate := CURSOR_END\<rparr>),
        whenM shouldSendCloseRequest sendCloseRequest])
     (\<lambda>c. case wait_client CLOSE_TURNS turns c of
        (True, c1) \<Rightarrow> (Inr (), c1)
      | (False, c1) \<Rightarrow> readRemainderAndClose c1)"

definition cursor_close :: "bool \<Rightarrow> bool \<Rightarrow> client_turn list \<Rightarrow> (cursor, unit) op" where
  "cursor_close shouldSendCloseRequest noThrow turns =
     (\<lambda>c. if isOpen c
      then (case close_body shouldSendCloseRequest turns c of
              (Inr _, c') \<Rightarrow> (Inr (), c')
            | (Inl (Undefined u), c') \<Rightarrow> (Inl (Undefined u), c')
            | (Inl (Disconnected s), c') \<Rightarrow> doClose c'
            | (Inl e, c') \<Rightarrow> andthen doClose (if noThrow then ret () else throw e) c')
      else (Inr (), c))"

definition freeResources :: "client_turn list \<Rightarrow> (cursor, unit) op" where
  "freeResources turns = seqs
     [cursor_close False True turns, cursor_closeConnection,
      modify (\<lambda>c. c\<lparr>readerValid := False, creader := invalidate (creader c)\<rparr>),
      on_main (modify (\<lambda>s. (clearStreamsArray s)\<lparr>subTables := clear_tables (subTables s)\<rparr>)),
      modify (\<lambda>c. c\<lparr>subState := (subState c)[other (mainState c) := main_of c]\<rparr>)]"

section \<open>Opening and preloading\<close>

definition new_subscription :: subscription_state where
  "new_subscription = \<lparr>isResetInProgress = False, readingRestarted = False, lastExpectedCommandId = - 1,
     firstExpectedCommandId = - 1, lastResetCommandId = 0, subTables = new_symbol_translator,
     isSymbolSkipped = new_lut (- 1), isMessageDescriptorSkipped = new_lut (- 1), isStreamSkipped = new_lut (- 1),
     isUnregisteredSymbolSkipped = Map.empty, isUnregisteredMessageTypeSkipped = Map.empty,
     isUnregisteredStreamSkipped = Map.empty, tickdbStreams = [None]\<rparr>"

text \<open>\<^verbatim>\<open>select\<close> behind the response's header: the reader is at the start of the records.\<close>

definition select_open :: "(byte list \<Rightarrow> (string \<times> string) option) \<Rightarrow> (cursor, unit) op" where
  "select_open parse =
     andthen (seqs
       [modify (\<lambda>c. c\<lparr>cursorClosed := False, isInNext := False\<rparr>),
        on_main (modify (\<lambda>s. s\<lparr>isResetInProgress := False\<rparr>)),
        modify (\<lambda>c. c\<lparr>cstate := STARTED, cursorId := - 1\<rparr>),
        on_main (modify (\<lambda>s. s\<lparr>lastExpectedCommandId := - 1, firstExpectedCommandId := - 1\<rparr>)),
        on_main (modify (clearMessageFilters False))])
     (bnd (readUntilCursorId parse) (\<lambda>found. modify (\<lambda>c. c\<lparr>registeredInDb := True, isOpen := True\<rparr>)))"

definition select_tail :: "(byte list \<Rightarrow> (string \<times> string) option) \<Rightarrow> (cursor, unit) op" where
  "select_tail parse =
     (\<lambda>c. case select_open parse c of
        (Inr _, c') \<Rightarrow> (Inr (), c')
      | (Inl (Undefined u), c') \<Rightarrow> (Inl (Undefined u), c')
      | (Inl e, c') \<Rightarrow> andthen doClose (throw e) c')"

end
