(* ===== verification/CursorInvariant.thy ===== *)
theory CursorInvariant
  imports CursorControl
begin

text \<open>
  The well-formedness of a cursor: its tables and filters, and the discipline of the two copies of the
  subscription state. Every operation keeps it, whatever it returns or throws.
\<close>

section \<open>Well-formed states\<close>

definition subscription_ok :: "subscription_state \<Rightarrow> bool" where
  "subscription_ok s \<longleftrightarrow>
     tables_ok (subTables s) \<and> lut_ok 0x100 (streamKeys (subTables s)) \<and> lut_ok 0x10000 (isSymbolSkipped s) \<and>
     lut_ok 0x100 (isMessageDescriptorSkipped s) \<and> lut_ok 0x100 (isStreamSkipped s) \<and>
     (\<exists>l. tickdbStreams s = None # l)"

text \<open>The flag says exactly when the pointers differ.\<close>

definition cursor_ok :: "cursor \<Rightarrow> bool" where
  "cursor_ok c \<longleftrightarrow>
     length (subState c) = 2 \<and> mainState c < 2 \<and> shadowState c < 2 \<and>
     shadowCopyUpdated c = (mainState c \<noteq> shadowState c) \<and> list_all subscription_ok (subState c) \<and>
     length (isSystemMessage c) = 0x100"

abbreviation safe :: "(cursor, 'a) op \<Rightarrow> bool" where "safe m \<equiv> keeps cursor_ok m"
abbreviation sub_safe :: "(subscription_state, 'a) op \<Rightarrow> bool" where "sub_safe m \<equiv> keeps subscription_ok m"

lemma sub_ok_simps [simp]:
  "subscription_ok (s\<lparr>isResetInProgress := a\<rparr>) = subscription_ok s" "subscription_ok (s\<lparr>readingRestarted := a\<rparr>) = subscription_ok s"
  "subscription_ok (s\<lparr>lastExpectedCommandId := i\<rparr>) = subscription_ok s"
  "subscription_ok (s\<lparr>firstExpectedCommandId := i\<rparr>) = subscription_ok s"
  "subscription_ok (s\<lparr>lastResetCommandId := i\<rparr>) = subscription_ok s"
  "subscription_ok (s\<lparr>isUnregisteredSymbolSkipped := f\<rparr>) = subscription_ok s"
  "subscription_ok (s\<lparr>isUnregisteredMessageTypeSkipped := f\<rparr>) = subscription_ok s"
  "subscription_ok (s\<lparr>isUnregisteredStreamSkipped := f\<rparr>) = subscription_ok s"
  by (simp_all add: subscription_ok_def)

lemma lut_ok_clear [simp]: "lut_ok n (lut_clear t)" by (simp add: lut_ok_def lut_clear_def)

lemma lut_set_keeps:
  assumes "lut_ok n t" "n \<le> 2 ^ 64" "lut_set 0 n z k v t = (x, t')"
  shows "lut_ok n t' \<and> lutDefault t' = lutDefault t"
  using lut_set_ok [OF assms(1,2), of k 0 z v] lut_set_refused [OF assms(1), of k 0 z v] assms(1,3)
  by (cases "unat (k - 0) < n") auto

section \<open>The subscription state\<close>

lemma sub_safe_filters: "sub_safe (set_symbol_filter i v)" "sub_safe (set_type_filter i v)" "sub_safe (set_stream_filter i v)"
proof -
  show "sub_safe (set_symbol_filter i v)"
  proof
    fix s assume s: "subscription_ok s"
    obtain x t where r: "lut_set 0 0x10000 0 i v (isSymbolSkipped s) = (x, t)" by force
    then show "subscription_ok (snd (set_symbol_filter i v s))"
      using lut_set_keeps [OF _ _ r] s by (simp add: set_symbol_filter_def subscription_ok_def)
  qed
  show "sub_safe (set_type_filter i v)"
  proof
    fix s assume s: "subscription_ok s"
    obtain x t where r: "lut_set 0 0x100 0 i v (isMessageDescriptorSkipped s) = (x, t)" by force
    then show "subscription_ok (snd (set_type_filter i v s))"
      using lut_set_keeps [OF _ _ r] s by (simp add: set_type_filter_def subscription_ok_def)
  qed
  show "sub_safe (set_stream_filter i v)"
  proof
    fix s assume s: "subscription_ok s"
    obtain x t where r: "lut_set 0 0x100 0 i v (isStreamSkipped s) = (x, t)" by force
    then show "subscription_ok (snd (set_stream_filter i v s))"
      using lut_set_keeps [OF _ _ r] s by (simp add: set_stream_filter_def subscription_ok_def)
  qed
qed

lemma sub_safe_clear: "subscription_ok s \<Longrightarrow> subscription_ok (clearMessageFilters b s)"
  "subscription_ok s \<Longrightarrow> subscription_ok (clearStreamsArray s)"
  by (simp_all add: subscription_ok_def clearMessageFilters_def clearStreamsArray_def)

lemma registerInstrument_keeps:
  assumes "bilut_ok (instruments t)" "registerInstrument i s t = (x, t')"
  shows "bilut_ok (instruments t') \<and> t' = t\<lparr>instruments := instruments t'\<rparr>"
proof (cases "i = invalidId")
  case True
  then have "t' = t" using assms(2) by (auto simp: registerInstrument_def Let_def split: if_splits prod.splits sum.splits)
  then show ?thesis using assms(1) by simp
next
  case False
  then show ?thesis using registerInstrument_spec [OF assms(1) False assms(2)] by blast
qed

lemma sub_table_change:
  "subscription_ok s \<Longrightarrow> bilut_ok m \<Longrightarrow> subscription_ok (s\<lparr>subTables := (subTables s)\<lparr>instruments := m\<rparr>\<rparr>)"
  by (simp add: subscription_ok_def tables_ok_def descriptors_ok_def findMsgDescByType_def)

lemma sub_safe_tables:
  "sub_safe (on_sub_tables (registerInstrument i n))" "sub_safe (on_sub_tables (registerMessageDescriptor j n g d))"
  "sub_safe (on_sub_tables (registerLocalMessageType j n))"
proof -
  show "sub_safe (on_sub_tables (registerInstrument i n))"
  proof
    fix s assume s: "subscription_ok s"
    obtain x t where r: "registerInstrument i n (subTables s) = (x, t)" by force
    have "bilut_ok (instruments t) \<and> t = (subTables s)\<lparr>instruments := instruments t\<rparr>"
      using registerInstrument_keeps [OF _ r] s by (simp add: subscription_ok_def tables_ok_def)
    then show "subscription_ok (snd (on_sub_tables (registerInstrument i n) s))"
      using s r sub_table_change [of s "instruments t"] by (simp add: on_sub_tables_def)
  qed
  show "sub_safe (on_sub_tables (registerMessageDescriptor j n g d))"
  proof
    fix s assume s: "subscription_ok s"
    obtain x t where r: "registerMessageDescriptor j n g d (subTables s) = (x, t)" by force
    have "streamKeys t = streamKeys (subTables s)"
      using r by (auto simp: registerMessageDescriptor_def throw_def Let_def split: if_splits prod.splits sum.splits)
    then show "subscription_ok (snd (on_sub_tables (registerMessageDescriptor j n g d) s))"
      using s r registerMessageDescriptor_ok [OF _ r] by (auto simp: on_sub_tables_def subscription_ok_def tables_ok_def)
  qed
  show "sub_safe (on_sub_tables (registerLocalMessageType j n))"
  proof
    fix s assume s: "subscription_ok s"
    obtain x t where r: "registerLocalMessageType j n (subTables s) = (x, t)" by force
    have "streamKeys t = streamKeys (subTables s)"
      using r by (auto simp: registerLocalMessageType_def throw_def bnd_def gets_def split: if_splits prod.splits sum.splits)
    then show "subscription_ok (snd (on_sub_tables (registerLocalMessageType j n) s))"
      using s r registerLocal_ok [OF _ r] by (auto simp: on_sub_tables_def subscription_ok_def)
  qed
qed

lemma sub_safe_stream_keys:
  "sub_safe (on_sub_tables (\<lambda>t. case lut_set 0 0x100 None k v (streamKeys t) of (x, l) \<Rightarrow> (x, t\<lparr>streamKeys := l\<rparr>)))"
proof
  fix s assume s: "subscription_ok s"
  obtain x l where r: "lut_set 0 0x100 None k v (streamKeys (subTables s)) = (x, l)" by force
  have "lut_ok 0x100 l" using lut_set_keeps [OF _ _ r] s by (simp add: subscription_ok_def)
  then show "subscription_ok (snd (on_sub_tables (\<lambda>t. case lut_set 0 0x100 None k v (streamKeys t) of (x, l) \<Rightarrow> (x, t\<lparr>streamKeys := l\<rparr>)) s))"
    using s r by (simp add: on_sub_tables_def subscription_ok_def tables_ok_def descriptors_ok_def findMsgDescByType_def)
qed

lemma keeps_cases:
  "keeps P a \<Longrightarrow> (\<And>x. keeps P (b x)) \<Longrightarrow> keeps P (case v of None \<Rightarrow> a | Some x \<Rightarrow> b x)"
  "keeps P d \<Longrightarrow> keeps P e \<Longrightarrow> keeps P (if c then d else e)"
  "(\<And>y z. keeps P (f y z)) \<Longrightarrow> keeps P (case p of (y, z) \<Rightarrow> f y z)"
  by (auto split: option.split prod.split)

lemmas keeps_rules = keeps_bnd keeps_andthen keeps_ret keeps_throw keeps_gets keeps_guard keeps_whenM keeps_modify keeps_cases

lemma sub_safe_register:
  "sub_safe (registerNewInstrument i n)" "sub_safe (registerNewStream i n)" "sub_safe (registerNewMessageType parse i bs)"
  "sub_safe (finish_command k)"
proof -
  show "sub_safe (registerNewInstrument i n)"
    unfolding registerNewInstrument_def by (intro keeps_rules sub_safe_filters sub_safe_tables) simp
  show "sub_safe (registerNewStream i n)"
    unfolding registerNewStream_def by (intro keeps_rules sub_safe_filters sub_safe_stream_keys) simp
  show "sub_safe (registerNewMessageType parse i bs)"
    unfolding registerNewMessageType_def by (intro keeps_rules sub_safe_filters sub_safe_tables) simp
  show "sub_safe (finish_command k)"
    unfolding finish_command_def by (intro keeps_rules) simp_all
qed

section \<open>The two copies\<close>

lemma two_states: "i < 2 \<Longrightarrow> length xs = 2 \<Longrightarrow> list_all P xs \<Longrightarrow> P (xs ! i)"
  by (simp add: list_all_length)

lemma list_all_update: "list_all P xs \<Longrightarrow> P x \<Longrightarrow> list_all P (xs[i := x])"
  by (cases "i < length xs") (auto simp: list_all_length nth_list_update)

lemma safe_on_main: "sub_safe m \<Longrightarrow> safe (on_main m)"
proof
  fix c assume m: "sub_safe m" and c: "cursor_ok c"
  obtain x s where r: "m (main_of c) = (x, s)" by force
  have "subscription_ok (main_of c)" using c by (simp add: cursor_ok_def main_of_def two_states)
  then have "subscription_ok s" using keepsD [OF m, of "main_of c"] r by simp
  then show "cursor_ok (snd (on_main m c))" using c r by (simp add: on_main_def cursor_ok_def list_all_update)
qed

lemma safe_on_shadow: "sub_safe m \<Longrightarrow> safe (on_shadow m)"
proof
  fix c assume m: "sub_safe m" and c: "cursor_ok c"
  obtain x s where r: "m (shadow_of c) = (x, s)" by force
  have "subscription_ok (shadow_of c)" using c by (simp add: cursor_ok_def shadow_of_def two_states)
  then have "subscription_ok s" using keepsD [OF m, of "shadow_of c"] r by simp
  then show "cursor_ok (snd (on_shadow m c))" using c r by (simp add: on_shadow_def cursor_ok_def list_all_update)
qed

lemma safe_copies: "safe getWriteShadowState" "safe synchronizeDo" "safe synchronizeCheck" "safe switch_to_shadow"
proof -
  have other: "other i < 2" "i < 2 \<Longrightarrow> i \<noteq> other i" for i by (simp add: other_def) (simp add: other_def, arith)
  show "safe getWriteShadowState"
    unfolding getWriteShadowState_def
    by (rule keeps_modify) (auto simp: cursor_ok_def main_of_def other two_states list_all_update)
  show d: "safe synchronizeDo" unfolding synchronizeDo_def by (rule keeps_modify) (simp add: cursor_ok_def)
  show "safe synchronizeCheck" unfolding synchronizeCheck_def by (intro keeps_rules d)
  show "safe switch_to_shadow"
    unfolding switch_to_shadow_def seqs.simps setCursorState_def
    by (intro keeps_rules safe_on_main) (simp_all add: cursor_ok_def)
qed

section \<open>The operations\<close>

lemma safe_on_reader: "safe (on_reader m)"
  by (auto simp: keeps_def on_reader_def cursor_ok_def split: prod.splits)

lemma safe_request: "safe (execute_request r)" "safe (addSubscriptionCommand i)"
proof -
  show "safe (execute_request r)"
    by (auto simp: keeps_def execute_request_def cursor_ok_def Let_def split: list.splits)
  show "safe (addSubscriptionCommand i)"
    unfolding addSubscriptionCommand_def seqs.simps setCursorState_def
    by (intro keeps_rules safe_on_shadow) (simp_all add: cursor_ok_def)
qed

lemma find_stream_head: "\<exists>l' b. find_stream r x (None # l) = (None # l', b)"
  by (simp split: prod.splits)

lemma sub_safe_stream: "sub_safe (modify_stream r x)"
proof -
  have step: "subscription_ok (case find_stream r x (tickdbStreams s) of (l, b) \<Rightarrow> s\<lparr>tickdbStreams := (if b then l @ [Some x] else l)\<rparr>)"
    if "subscription_ok s" for s
  proof -
    from that obtain l where "tickdbStreams s = None # l" by (auto simp: subscription_ok_def)
    with find_stream_head [of r x l] obtain l' b where "find_stream r x (tickdbStreams s) = (None # l', b)" by auto
    then show ?thesis using that by (auto simp: subscription_ok_def)
  qed
  show ?thesis unfolding modify_stream_def by (intro keeps_rules sub_safe_filters step) simp_all
qed

lemma sub_safe_chain: "sub_safe (modifyFilterSet k i v)"
proof (induction k arbitrary: i)
  case (Suc k)
  show ?case unfolding modifyFilterSet.simps by (intro keeps_rules sub_safe_filters Suc)
qed (auto simp only: modifyFilterSet.simps keeps_ret keeps_throw split: if_split)

lemma sub_safe_modify:
  "sub_safe (modifyEntities_filter es a)" "sub_safe (modifyTypes_filter ts a)" "sub_safe (modifyStreams_filter xs a)"
proof -
  have e: "sub_safe (modify_entity r x)" for r x
    unfolding modify_entity_def by (intro keeps_rules sub_safe_filters) simp_all
  have t: "sub_safe (modify_type r x)" for r x
    unfolding modify_type_def by (intro keeps_rules sub_safe_chain) simp_all
  show "sub_safe (modifyEntities_filter es a)"
    unfolding modifyEntities_filter_def seqs.simps by (intro keeps_rules keeps_mapM e) (simp add: subscription_ok_def)
  show "sub_safe (modifyTypes_filter ts a)"
    unfolding modifyTypes_filter_def seqs.simps by (intro keeps_rules keeps_mapM t) (simp add: subscription_ok_def)
  show "sub_safe (modifyStreams_filter xs a)"
    unfolding modifyStreams_filter_def seqs.simps by (intro keeps_rules keeps_mapM sub_safe_stream) (auto simp: subscription_ok_def)
qed

lemma safe_modify:
  "safe (modifyEntities es a)" "safe (modifyTypes ts a)" "safe (modifyStreams_once xs a)" "safe (modifyStreams xs a)"
  "safe (cursor_reset dt)" "safe (setStreams xs)" "safe (registerUserMessageType i n)" "safe (setTimeForNewSubscriptions dt)"
proof -
  show "safe (modifyEntities es a)" unfolding modifyEntities_def seqs.simps
    by (intro keeps_rules safe_copies safe_on_shadow sub_safe_modify safe_request)
  show "safe (modifyTypes ts a)" unfolding modifyTypes_def seqs.simps
    by (intro keeps_rules safe_copies safe_on_shadow sub_safe_modify safe_request)
  show s: "safe (modifyStreams_once xs a)" for xs a unfolding modifyStreams_once_def seqs.simps
    by (intro keeps_rules safe_copies safe_on_shadow sub_safe_modify safe_request)
  show "safe (modifyStreams xs a)" unfolding modifyStreams_def by (intro keeps_rules s)
  show "safe (cursor_reset dt)" unfolding cursor_reset_def seqs.simps
    by (intro keeps_rules safe_copies safe_on_shadow safe_request) (simp_all add: sub_safe_clear cursor_ok_def)
  show "safe (setStreams xs)" unfolding setStreams_def seqs.simps
    by (intro keeps_rules safe_copies safe_on_shadow) (simp_all add: sub_safe_clear, simp add: subscription_ok_def)
  show "safe (registerUserMessageType i n)" unfolding registerUserMessageType_def
    by (intro keeps_rules safe_copies safe_on_shadow sub_safe_tables)
  show "safe (setTimeForNewSubscriptions dt)" unfolding setTimeForNewSubscriptions_def
    by (rule keeps_modify) (simp add: cursor_ok_def)
qed

lemma safe_records: "safe (readMessageType parse)" "safe readEntity" "safe readStreamKey"
  "safe (readEntityId b)" "safe read_message_fields" "safe check_message_ids" "safe (readNextRecord parse)"
proof -
  show i: "safe (readEntityId b)" for b unfolding readEntityId_def Let_def by (intro keeps_rules safe_on_reader)
  show t: "safe (readMessageType parse)" unfolding readMessageType_def
    by (intro keeps_rules safe_on_reader safe_copies safe_on_main sub_safe_register) (simp add: cursor_ok_def)
  show e: "safe readEntity" unfolding readEntity_def
    by (intro keeps_rules safe_on_reader safe_copies safe_on_main sub_safe_register i)
  show k: "safe readStreamKey" unfolding readStreamKey_def
    by (intro keeps_rules safe_on_reader safe_copies safe_on_main sub_safe_register)
  show "safe read_message_fields" unfolding read_message_fields_def seqs.simps
    by (intro keeps_rules safe_on_reader i) (simp_all add: cursor_ok_def)
  show "safe check_message_ids" unfolding check_message_ids_def seqs.simps by (intro keeps_rules)
  have "safe read_terminator" unfolding read_terminator_def setCursorState_def
    by (intro keeps_rules safe_copies) (simp add: cursor_ok_def)
  moreover have "safe read_cursor_id" unfolding read_cursor_id_def
    by (intro keeps_rules safe_on_reader) (simp add: cursor_ok_def)
  moreover have "safe (bnd (on_reader getUInt64) (\<lambda>cmdid. andthen synchronizeCheck (andthen (on_main (finish_command cmdid)) (ret True))))"
    by (intro keeps_rules safe_on_reader safe_copies safe_on_main sub_safe_register)
  moreover have "safe (bnd (on_reader getByte) (\<lambda>code. bnd (on_reader getUTF8_inl) (\<lambda>text. throw (ServerError ''Server-side error''))))"
    by (intro keeps_rules safe_on_reader)
  moreover have "safe (modify (\<lambda>c. c\<lparr>isIdle := a\<rparr>))" "safe (modify (\<lambda>c. c\<lparr>isWithinMessageBlock := a\<rparr>))" for a
    by (intro keeps_modify, simp add: cursor_ok_def)+
  ultimately show "safe (readNextRecord parse)" unfolding readNextRecord_def record_branch_def
    by (intro keeps_bnd keeps_andthen keeps_cases(2) keeps_ret keeps_throw safe_on_reader safe_copies safe_on_main sub_safe_register t e k)
qed

lemma safe_fuel: "(\<And>k. safe (f k)) \<Longrightarrow> safe (\<lambda>c. f (g c) c)"
  by (simp add: keeps_def)

lemma safe_in_block: "safe message_step" "safe readNextMessageInBlock"
proof -
  show m: "safe message_step" unfolding message_step_def seqs.simps setCursorState_def
    by (intro keeps_rules safe_on_reader safe_records safe_copies) (simp_all add: cursor_ok_def)
  have "safe (in_block_loop k)" for k
  proof (induction k)
    case (Suc k)
    show ?case unfolding in_block_loop.simps by (intro keeps_rules m Suc)
  qed (simp only: in_block_loop.simps keeps_throw)
  then show "safe readNextMessageInBlock" unfolding readNextMessageInBlock_def by (rule safe_fuel)
qed

lemma safe_loops: "safe (readNextMessage parse)" "safe (readNextMessageNonBlock parse)" "safe (readUntilCursorId parse)"
proof -
  have e: "safe at_end" unfolding at_end_def by (intro keeps_rules) (simp add: cursor_ok_def)
  have a: "safe (record_loop parse k)" for k
  proof (induction k)
    case (Suc k)
    show ?case unfolding record_loop.simps by (intro keeps_rules e safe_records safe_in_block Suc)
  qed (simp only: record_loop.simps keeps_throw)
  have b: "safe (record_loop_nonblock parse k)" for k
  proof (induction k)
    case (Suc k)
    show ?case unfolding record_loop_nonblock.simps by (intro keeps_rules e safe_records safe_in_block Suc)
  qed (simp only: record_loop_nonblock.simps keeps_throw)
  have d: "safe (until_id_loop parse k)" for k
  proof (induction k)
    case (Suc k)
    show ?case unfolding until_id_loop.simps by (intro keeps_rules safe_on_main safe_records Suc) simp_all
  qed (simp only: until_id_loop.simps keeps_throw)
  note fuel = safe_fuel [of "record_loop parse" read_fuel, OF a] safe_fuel [of "record_loop_nonblock parse" read_fuel, OF b]
    safe_fuel [of "until_id_loop parse" read_fuel, OF d]
  show "safe (readNextMessage parse)" unfolding readNextMessage_def
    by (intro keeps_rules fuel safe_on_reader safe_in_block)
  show "safe (readNextMessageNonBlock parse)" unfolding readNextMessageNonBlock_def
    by (intro keeps_rules fuel safe_in_block)
  show "safe (readUntilCursorId parse)" unfolding readUntilCursorId_def
    by (intro keeps_rules fuel safe_on_main) simp
qed

lemma safe_doClose: "safe doClose"
  by (simp add: keeps_def doClose_def cursor_closeConnection_def andthen_def bnd_def cursor_ok_def)

lemma safe_next: "safe (cursor_next parse nonBlocking avail)"
proof
  fix c assume c: "cursor_ok c"
  have av: "safe (stream_available avail)" by (simp add: keeps_def stream_available_def)
  have "safe (next_at_end avail)" unfolding next_at_end_def by (intro keeps_rules av) (simp_all add: cursor_ok_def)
  moreover have "safe (next_available avail)" unfolding next_available_def seqs.simps
    by (intro keeps_rules av safe_on_reader) (simp_all add: cursor_ok_def)
  ultimately have b: "safe (next_body parse nonBlocking avail)" unfolding next_body_def by (intro keeps_rules safe_loops)
  have x: "safe (on_next_exception e)" for e
    by (cases e) (simp_all only: on_next_exception_def exn.case seqs.simps keeps_throw,
        (intro keeps_rules safe_doClose, simp_all add: cursor_ok_def)+)
  obtain r c' where r: "next_body parse nonBlocking avail (c\<lparr>isInNext := True\<rparr>) = (r, c')" by force
  have "cursor_ok (c\<lparr>isInNext := True\<rparr>)" using c by (simp add: cursor_ok_def)
  then have "cursor_ok c'" using keepsD [OF b, of "c\<lparr>isInNext := True\<rparr>"] r by simp
  then show "cursor_ok (snd (cursor_next parse nonBlocking avail c))"
    using r keepsD [OF x, of c'] by (cases r) (simp_all add: cursor_next_def cursor_ok_def)
qed

lemma safe_execution: "safe (cursor_close send noThrow turns)" "safe (freeResources turns)" "safe (select_tail parse)"
proof -
  have act: "cursor_ok c \<Longrightarrow> cursor_ok (client_acts t c)" for t c
    by (cases t) (simp_all add: doClose_def cursor_closeConnection_def andthen_def bnd_def cursor_ok_def)
  have wait: "cursor_ok c \<Longrightarrow> cursor_ok (snd (wait_client n turns c))" for n turns c
    by (induction n turns c rule: wait_client.induct) (auto simp: Let_def act split: list.splits)
  have drain: "safe (drain_loop k)" for k
  proof (induction k)
    case (Suc k)
    show ?case unfolding drain_loop.simps by (intro keeps_rules safe_on_reader Suc)
  qed (simp only: drain_loop.simps keeps_throw)
  have rest: "safe readRemainderAndClose" unfolding readRemainderAndClose_def
    by (intro keeps_rules safe_on_reader safe_doClose safe_fuel [of drain_loop read_fuel, OF drain])
  have "safe sendCloseRequest"
    using keepsD [OF safe_request(1)] by (simp add: keeps_def sendCloseRequest_def)
  then have start: "safe (seqs [modify (\<lambda>c. c\<lparr>isInterrupted := True, cstate := CURSOR_END\<rparr>), whenM send sendCloseRequest])" for send
    unfolding seqs.simps by (intro keeps_rules) (simp_all add: cursor_ok_def)
  have "safe (\<lambda>c. case wait_client CLOSE_TURNS turns c of (True, c1) \<Rightarrow> (Inr (), c1) | (False, c1) \<Rightarrow> readRemainderAndClose c1)"
    for turns
  proof
    fix c assume c: "cursor_ok c"
    obtain b c1 where "wait_client CLOSE_TURNS turns c = (b, c1)" by force
    then show "cursor_ok (snd (case wait_client CLOSE_TURNS turns c of (True, c1) \<Rightarrow> (Inr (), c1) | (False, c1) \<Rightarrow> readRemainderAndClose c1))"
      using wait [OF c, of CLOSE_TURNS turns] keepsD [OF rest] by (cases b) simp_all
  qed
  then have body: "safe (close_body send turns)" for send turns
    unfolding close_body_def using start by (intro keeps_andthen) auto
  show close: "safe (cursor_close send noThrow turns)" for send noThrow turns
  proof
    fix c assume c: "cursor_ok c"
    obtain x c' where r: "close_body send turns c = (x, c')" by force
    then have c': "cursor_ok c'" using keepsD [OF body c, of send turns] by simp
    have "safe (andthen doClose (ret ()))" "safe (andthen doClose (throw e :: (cursor, unit) op))" for e
      by (intro keeps_rules safe_doClose)+
    note e = keepsD [OF this(1) c'] keepsD [OF this(2) c'] and d = keepsD [OF safe_doClose c']
    show "cursor_ok (snd (cursor_close send noThrow turns c))"
    proof (cases x)
      case (Inl e0)
      then show ?thesis using r c c' e(1) e(2) [of e0] d by (cases e0) (simp_all add: cursor_close_def)
    qed (use r c c' in \<open>simp add: cursor_close_def\<close>)
  qed
  show "safe (freeResources turns)" unfolding freeResources_def seqs.simps cursor_closeConnection_def
  proof (intro keeps_rules close safe_on_main)
    show "cursor_ok c \<Longrightarrow> cursor_ok (c\<lparr>subState := (subState c)[other (mainState c) := main_of c]\<rparr>)" for c
      by (simp add: cursor_ok_def main_of_def two_states list_all_update)
    show "subscription_ok s \<Longrightarrow> subscription_ok ((clearStreamsArray s)\<lparr>subTables := clear_tables (subTables s)\<rparr>)" for s
      using clear_tables_ok [of "subTables s"] lut_ok_clear
      by (simp add: subscription_ok_def clearStreamsArray_def) (simp add: clear_tables_def)
  qed (simp_all add: cursor_ok_def)
  have sel: "safe (select_open parse)" unfolding select_open_def seqs.simps
    by (intro keeps_rules safe_on_main safe_loops) (simp_all add: cursor_ok_def sub_safe_clear)
  show "safe (select_tail parse)"
  proof
    fix c assume "cursor_ok c"
    obtain x c' where r: "select_open parse c = (x, c')" by force
    then have c': "cursor_ok c'" using keepsD [OF sel \<open>cursor_ok c\<close>] by simp
    have "safe (andthen doClose (throw e :: (cursor, unit) op))" for e by (intro keeps_rules safe_doClose)
    note e = keepsD [OF this c']
    show "cursor_ok (snd (select_tail parse c))"
    proof (cases x)
      case (Inl e0)
      then show ?thesis using r c' e [of e0] by (cases e0) (simp_all add: select_tail_def)
    qed (use r c' in \<open>simp add: select_tail_def\<close>)
  qed
qed

section \<open>Reachable states\<close>

text \<open>A cursor whose reader is at the first record, as \<^verbatim>\<open>select\<close> leaves it after the response's header.\<close>

definition new_header :: message_header where
  "new_header = \<lparr>msgLength = 0, msgTimestamp = 0, msgEntityId = 0, msgTypeId = 0, msgStreamId = 0, msgTypeIdLocal = 0,
     msgCursorState = STARTED\<rparr>"

definition new_cursor :: "reader \<Rightarrow> bool \<Rightarrow> (exn + 64 word) list \<Rightarrow> cursor" where
  "new_cursor r live answers =
     \<lparr>cstate = CURSOR_END, creader = r, readerValid = True, connected = True, cUseEntityId32 = True,
      isWithinMessageBlock = False, isIdle = False, readMessageDone = False, isInterrupted = False, isInNext = False,
      cursorClosed = False, isOpen = False, shadowCopyUpdated = False, cursorId = - 1, subscriptionTimeMs = INT64_NULL,
      lastTimestamp = INT64_NULL, subState = [new_subscription, new_subscription], mainState = 0, shadowState = 0,
      isSystemMessage = replicate 0x100 False, liveOption = live, nMessagesProcessed = 0, nMessagesSkipped = 0,
      header = new_header, serverAnswers = answers, requestsSent = [], registeredInDb = False\<rparr>"

datatype cursor_call =
    CallNext bool nat
  | CallReader "reader \<Rightarrow> reader"
  | CallReset "64 word"
  | CallEntities "string list option" subscr_action
  | CallTypes "string list option" subscr_action
  | CallStreams "tick_stream list option" subscr_action
  | CallTime "64 word"
  | CallSetStreams "tick_stream list option"
  | CallRegisterType "32 word" string
  | CallClose bool bool "client_turn list"

text \<open>What the client does with the reader between two calls is any change of it.\<close>

fun cursor_step :: "(byte list \<Rightarrow> (string \<times> string) option) \<Rightarrow> cursor_call \<Rightarrow> cursor \<Rightarrow> cursor" where
  "cursor_step parse (CallNext nonBlocking avail) c = snd (cursor_next parse nonBlocking avail c)"
| "cursor_step parse (CallReader f) c = c\<lparr>creader := f (creader c)\<rparr>"
| "cursor_step parse (CallReset dt) c = snd (cursor_reset dt c)"
| "cursor_step parse (CallEntities es a) c = snd (modifyEntities es a c)"
| "cursor_step parse (CallTypes ts a) c = snd (modifyTypes ts a c)"
| "cursor_step parse (CallStreams xs a) c = snd (modifyStreams xs a c)"
| "cursor_step parse (CallTime dt) c = snd (setTimeForNewSubscriptions dt c)"
| "cursor_step parse (CallSetStreams xs) c = snd (setStreams xs c)"
| "cursor_step parse (CallRegisterType i n) c = snd (registerUserMessageType i n c)"
| "cursor_step parse (CallClose send noThrow turns) c = snd (cursor_close send noThrow turns c)"

lemma cursor_step_ok: "cursor_ok c \<Longrightarrow> cursor_ok (cursor_step parse call c)"
  using keepsD [OF safe_next] keepsD [OF safe_modify(1)] keepsD [OF safe_modify(2)] keepsD [OF safe_modify(4)]
    keepsD [OF safe_modify(5)] keepsD [OF safe_modify(6)] keepsD [OF safe_modify(7)] keepsD [OF safe_modify(8)]
    keepsD [OF safe_execution(1)]
  by (cases call) (simp_all add: cursor_ok_def [of "_\<lparr>creader := _\<rparr>"] cursor_ok_def [of c])

text \<open>C32: In every state that a cursor reaches by opening and then any sequence of calls, with any data from
  the server and any answers to the requests, whether the calls return or throw, the tables and filters are well formed,
  the message descriptors are linked correctly, and the flag of an update is set exactly when the client's copy of the
  subscription is not the one in use.\<close>

theorem cursor_type_invariant:
  "cursor_ok (fold (cursor_step parse) calls (snd (select_tail parse (new_cursor r live answers))))"
proof -
  have "subscription_ok new_subscription"
    by (simp add: subscription_ok_def new_subscription_def new_tables_ok lut_ok_def new_lut_def)
       (simp add: new_symbol_translator_def new_lut_def)
  then have "cursor_ok (new_cursor r live answers)" by (simp add: cursor_ok_def new_cursor_def)
  then have "cursor_ok (snd (select_tail parse (new_cursor r live answers)))" by (rule keepsD [OF safe_execution(3)])
  then show ?thesis by (induction calls rule: rev_induct) (simp_all add: cursor_step_ok)
qed

end
