(* ===== verification/CursorFilters.thy ===== *)
theory CursorFilters
  imports CursorInvariant
begin

text \<open>
  What the filters of a cursor mean. A subscription is a set of names; the code keeps flags for the ids that
  the server has assigned so far, entries for names without an id, and a default. Here: the name that is
  skipped, the changes that the client asks for as changes of that set, and what is lost.
\<close>

section \<open>One kind of names\<close>

text \<open>\<open>change b n\<close> makes the name \<open>n\<close> skipped or not, except where \<open>stuck\<close>: then nothing is done.\<close>

locale name_filter =
  fixes skipped :: "'s \<Rightarrow> string \<Rightarrow> bool"
    and change :: "bool \<Rightarrow> string \<Rightarrow> ('s, unit) op"
    and stuck :: "'s \<Rightarrow> bool \<Rightarrow> string \<Rightarrow> bool"
    and ok :: "'s \<Rightarrow> bool"
  assumes change_spec: "ok s \<Longrightarrow> \<exists>s'. change b n s = (Inr (), s') \<and> ok s' \<and>
      (\<forall>m. skipped s' m = (if m = n \<and> \<not> stuck s b n then b else skipped s m)) \<and> (\<forall>m. stuck s' b m = stuck s b m)"
    and stuck_skipped: "ok s \<Longrightarrow> stuck s b n \<Longrightarrow> skipped s n = (\<not> b)"
begin

lemma changes:
  "ok s \<Longrightarrow> \<exists>s'. mapM (change b) ns s = (Inr (), s') \<and> ok s' \<and>
     (\<forall>m. skipped s' m = (if m \<in> set ns \<and> \<not> stuck s b m then b else skipped s m))"
proof (induction ns arbitrary: s)
  case (Cons n ns)
  obtain s1 where s1: "change b n s = (Inr (), s1)" "ok s1"
      "\<And>m. skipped s1 m = (if m = n \<and> \<not> stuck s b n then b else skipped s m)" "\<And>m. stuck s1 b m = stuck s b m"
    using change_spec [OF Cons.prems, of b n] by blast
  obtain s2 where "mapM (change b) ns s1 = (Inr (), s2)" "ok s2"
      "\<And>m. skipped s2 m = (if m \<in> set ns \<and> \<not> stuck s1 b m then b else skipped s1 m)"
    using Cons.IH [OF s1(2)] by blast
  then show ?case using s1 by (intro exI [of _ s2]) (auto simp: andthen_ok)
qed (simp add: ret_run)

text \<open>A change that is lost leaves the name as the client did not want it.\<close>

lemma lost_change:
  "ok s \<Longrightarrow> mapM (change b) ns s = (Inr (), s') \<Longrightarrow> stuck s b m \<Longrightarrow> skipped s' m = (\<not> b)"
  using changes [of s b ns] stuck_skipped [of s b m] by auto

end

section \<open>Symbols\<close>

definition symbol_skipped :: "subscription_state \<Rightarrow> string \<Rightarrow> bool" where
  "symbol_skipped s n =
     (case s2i (instruments (subTables s)) n of
        Some i \<Rightarrow> lut_get 0 (isSymbolSkipped s) (ucast i) \<noteq> 0
      | None \<Rightarrow> (case isUnregisteredSymbolSkipped s n of Some b \<Rightarrow> b | None \<Rightarrow> lutDefault (isSymbolSkipped s) \<noteq> 0))"

definition symbol_stuck :: "subscription_state \<Rightarrow> bool \<Rightarrow> string \<Rightarrow> bool" where
  "symbol_stuck s b n \<longleftrightarrow> s2i (instruments (subTables s)) n = None \<and> isUnregisteredSymbolSkipped s n = Some (\<not> b) \<and>
     lutDefault (isSymbolSkipped s) = flag b"

text \<open>The filter has entries for registered symbols only, and all ids are within its limit.\<close>

definition symbols_ok :: "subscription_state \<Rightarrow> bool" where
  "symbols_ok s \<longleftrightarrow>
     bilut_ok (instruments (subTables s)) \<and> lut_ok 0x10000 (isSymbolSkipped s) \<and>
     lutDefault (isSymbolSkipped s) \<in> {flag False, flag True} \<and>
     lutSize (isSymbolSkipped s) \<le> biSize (instruments (subTables s)) \<and> biSize (instruments (subTables s)) \<le> 0x10000 \<and>
     (\<forall>n i. s2i (instruments (subTables s)) n = Some i \<longrightarrow>
        unat i < biSize (instruments (subTables s)) \<and> isUnregisteredSymbolSkipped s n = None)"

lemma flag_simps [simp]: "flag b = 0 \<longleftrightarrow> \<not> b" "flag b = flag c \<longleftrightarrow> b = c" by (simp_all add: flag_def)

lemma default_flag: "x \<in> {flag False, flag True} \<Longrightarrow> x \<noteq> flag b \<longleftrightarrow> x = flag (\<not> b)"
  "x \<in> {flag False, flag True} \<Longrightarrow> x \<noteq> 0 \<longleftrightarrow> x = flag True"
  by (cases b; auto)+

lemma unat_ucast_id [simp]: "unat (ucast (i :: 32 word) :: 64 word) = unat i"
  by (simp add: unat_ucast_up)

lemma lut_set_grows:
  assumes "lut_set 0 n z k v t = (Inr (), t')"
  shows "lutSize t' \<le> max (lutSize t) (unat k + 1)"
  using assms by (auto simp: lut_set_def Let_def split: if_splits)

lemma lut_get_outside: "lutSize t \<le> unat k \<Longrightarrow> lut_get 0 t k = lutDefault t"
  by (simp add: lut_get_def Let_def)

text \<open>An entry of the filter for an id in use.\<close>

lemma set_symbol_filter_spec:
  assumes "symbols_ok s" "s2i (instruments (subTables s)) n = Some i"
  shows "\<exists>t. set_symbol_filter (ucast i) v s = (Inr (), s\<lparr>isSymbolSkipped := t\<rparr>) \<and> symbols_ok (s\<lparr>isSymbolSkipped := t\<rparr>) \<and>
    (\<forall>j. lut_get 0 t j = (if j = ucast i then v else lut_get 0 (isSymbolSkipped s) j)) \<and>
    lutDefault t = lutDefault (isSymbolSkipped s)"
proof -
  have i: "unat i < biSize (instruments (subTables s))" "biSize (instruments (subTables s)) \<le> 0x10000"
    using assms by (auto simp: symbols_ok_def)
  have "lut_ok 0x10000 (isSymbolSkipped s)" using assms(1) by (simp add: symbols_ok_def)
  from lut_set_ok [OF this, of "ucast i" 0 0 v] i obtain t where t: "lut_set 0 0x10000 0 (ucast i) v (isSymbolSkipped s) = (Inr (), t)"
      "lut_ok 0x10000 t" "\<And>j. lut_get 0 t j = (if j = ucast i then v else lut_get 0 (isSymbolSkipped s) j)"
      "lutDefault t = lutDefault (isSymbolSkipped s)"
    by auto
  have "lutSize t \<le> biSize (instruments (subTables s))" using lut_set_grows [OF t(1)] i assms(1) by (auto simp: symbols_ok_def)
  then show ?thesis using t assms(1) by (intro exI [of _ t]) (auto simp: set_symbol_filter_def symbols_ok_def)
qed

interpretation entities: name_filter symbol_skipped modify_entity symbol_stuck symbols_ok
proof unfold_locales
  fix s b n assume ok: "symbols_ok s"
  then have bi: "bilut_ok (instruments (subTables s))" and d: "lutDefault (isSymbolSkipped s) \<in> {flag False, flag True}"
    by (simp_all add: symbols_ok_def)
  show "\<exists>s'. modify_entity b n s = (Inr (), s') \<and> symbols_ok s' \<and>
      (\<forall>m. symbol_skipped s' m = (if m = n \<and> \<not> symbol_stuck s b n then b else symbol_skipped s m)) \<and>
      (\<forall>m. symbol_stuck s' b m = symbol_stuck s b m)"
  proof (cases "s2i (instruments (subTables s)) n")
    case None
    have run: "modify_entity b n s =
        (Inr (), if lutDefault (isSymbolSkipped s) \<noteq> flag b
           then s\<lparr>isUnregisteredSymbolSkipped := (isUnregisteredSymbolSkipped s)(n \<mapsto> b)\<rparr> else s)"
      using bilut_id_invalid [OF bi, of n] None
      by (simp add: modify_entity_def bnd_ok gets_run modify_run ret_run)
    show ?thesis
    proof (cases "lutDefault (isSymbolSkipped s) = flag b")
      case True
      then show ?thesis using run None ok
        by (cases "isUnregisteredSymbolSkipped s n") (auto simp: symbol_skipped_def symbol_stuck_def)
    next
      case False
      let ?s = "s\<lparr>isUnregisteredSymbolSkipped := (isUnregisteredSymbolSkipped s)(n \<mapsto> b)\<rparr>"
      have "symbols_ok ?s" using ok None by (auto simp: symbols_ok_def)
      then show ?thesis using run None False
        by (intro exI [of _ ?s]) (auto simp: symbol_skipped_def symbol_stuck_def split: option.splits)
    qed
  next
    case (Some i)
    then have i: "bilut_id (instruments (subTables s)) n = i" "i \<noteq> invalidId" by (auto simp: bilut_id_def bilut_okD(4) [OF bi])
    obtain t where t: "set_symbol_filter (ucast i) (flag b) s = (Inr (), s\<lparr>isSymbolSkipped := t\<rparr>)" "symbols_ok (s\<lparr>isSymbolSkipped := t\<rparr>)"
        "\<And>j. lut_get 0 t j = (if j = ucast i then flag b else lut_get 0 (isSymbolSkipped s) j)"
        "lutDefault t = lutDefault (isSymbolSkipped s)"
      using set_symbol_filter_spec [OF ok Some, of "flag b"] by blast
    have other: "s2i (instruments (subTables s)) m = Some j \<Longrightarrow> (ucast j :: 64 word) = ucast i \<longleftrightarrow> m = n" for m j
      using symbols.injective [OF bi Some, of m] Some by (auto simp: word_unat_eq_iff)
    have "modify_entity b n s = (Inr (), s\<lparr>isSymbolSkipped := t\<rparr>)" using t(1) i by (simp add: modify_entity_def bnd_ok gets_run)
    moreover have "symbol_skipped (s\<lparr>isSymbolSkipped := t\<rparr>) m = (if m = n \<and> \<not> symbol_stuck s b n then b else symbol_skipped s m)" for m
      using t(3,4) Some other [of m] by (auto simp: symbol_skipped_def symbol_stuck_def split: option.split)
    moreover have "symbol_stuck (s\<lparr>isSymbolSkipped := t\<rparr>) b m = symbol_stuck s b m" for m by (simp add: symbol_stuck_def t(4))
    ultimately show ?thesis using t(2) by (intro exI [of _ "s\<lparr>isSymbolSkipped := t\<rparr>"]) simp
  qed
  show "symbol_skipped s n = (\<not> b)" if "symbol_stuck s b n"
    using that by (simp add: symbol_skipped_def symbol_stuck_def)
qed

section \<open>Message types\<close>

definition type_skipped :: "subscription_state \<Rightarrow> string \<Rightarrow> bool" where
  "type_skipped s n =
     (if findMsgDescByType (subTables s) n \<noteq> EMPTY_MSG_TYPE_ID
      then lut_get 0 (isMessageDescriptorSkipped s) (ucast (findMsgDescByType (subTables s) n)) \<noteq> 0
      else case isUnregisteredMessageTypeSkipped s n of Some b \<Rightarrow> b | None \<Rightarrow> lutDefault (isMessageDescriptorSkipped s) \<noteq> 0)"

definition type_stuck :: "subscription_state \<Rightarrow> bool \<Rightarrow> string \<Rightarrow> bool" where
  "type_stuck s b n \<longleftrightarrow> findMsgDescByType (subTables s) n = EMPTY_MSG_TYPE_ID \<and>
     isUnregisteredMessageTypeSkipped s n = Some (\<not> b) \<and> lutDefault (isMessageDescriptorSkipped s) = flag b"

abbreviation descriptors :: "subscription_state \<Rightarrow> message_descriptor list" where
  "descriptors s \<equiv> messageDescriptors (subTables s)"

definition shared_flags :: "message_descriptor list \<Rightarrow> 8 word lut \<Rightarrow> bool" where
  "shared_flags ds t \<longleftrightarrow> (\<forall>i < length ds. \<forall>j < length ds. typeName (ds ! i) = typeName (ds ! j) \<longrightarrow>
     lut_get 0 t (of_nat i) = lut_get 0 t (of_nat j))"

text \<open>The filter has entries for registered types only, and all descriptors of a name have the same flag.\<close>

definition types_ok :: "subscription_state \<Rightarrow> bool" where
  "types_ok s \<longleftrightarrow>
     descriptors_ok (subTables s) \<and> lut_ok 0x100 (isMessageDescriptorSkipped s) \<and>
     lutDefault (isMessageDescriptorSkipped s) \<in> {flag False, flag True} \<and>
     lutSize (isMessageDescriptorSkipped s) \<le> length (descriptors s) \<and>
     shared_flags (descriptors s) (isMessageDescriptorSkipped s) \<and>
     (\<forall>n. findMsgDescByType (subTables s) n \<noteq> EMPTY_MSG_TYPE_ID \<longrightarrow> isUnregisteredMessageTypeSkipped s n = None)"

lemma same_type_iff: "i \<in> set (same_type ds name n) \<longleftrightarrow> i < n \<and> typeName (ds ! i) = name"
  by (auto simp: same_type_def)

lemma small_words: "i < 0x100 \<Longrightarrow> unat (of_nat i :: 64 word) = i" "i < 0x100 \<Longrightarrow> unat (of_nat i :: 32 word) = i"
  "i < 0x100 \<Longrightarrow> (ucast (of_nat i :: 32 word) :: 64 word) = of_nat i"
  by (simp_all add: unat_of_nat take_bit_nat_eq_self word_unat_eq_iff unat_ucast_up)

text \<open>The id of a type name is that of its last descriptor.\<close>

lemma type_id:
  assumes "descriptors_ok t"
  shows "findMsgDescByType t n = EMPTY_MSG_TYPE_ID \<longleftrightarrow> (\<forall>i < length (messageDescriptors t). typeName (messageDescriptors t ! i) \<noteq> n)"
    "findMsgDescByType t n \<noteq> EMPTY_MSG_TYPE_ID \<Longrightarrow>
       \<exists>i < length (messageDescriptors t). typeName (messageDescriptors t ! i) = n \<and> findMsgDescByType t n = of_nat i \<and> i < 0x100"
proof -
  let ?ds = "messageDescriptors t" and ?l = "same_type (messageDescriptors t) n (length (messageDescriptors t))"
  have len: "length ?ds \<le> 0x100" and find: "findMsgDescByType t n = (if ?l = [] then EMPTY_MSG_TYPE_ID else of_nat (last ?l))"
    using assms by (simp_all add: descriptors_ok_def last_of_type_def)
  have last: "last ?l < length ?ds \<and> typeName (?ds ! last ?l) = n" if "?l \<noteq> []"
    using last_in_set [OF that] by (simp add: same_type_iff)
  have empty: "findMsgDescByType t n = EMPTY_MSG_TYPE_ID \<longleftrightarrow> ?l = []"
    using find last small_not_empty(1) [of "last ?l"] len by (cases "?l = []") auto
  show "findMsgDescByType t n = EMPTY_MSG_TYPE_ID \<longleftrightarrow> (\<forall>i < length ?ds. typeName (?ds ! i) \<noteq> n)"
    unfolding empty by (auto simp: same_type_def filter_empty_conv)
  show "\<exists>i < length ?ds. typeName (?ds ! i) = n \<and> findMsgDescByType t n = of_nat i \<and> i < 0x100"
    if "findMsgDescByType t n \<noteq> EMPTY_MSG_TYPE_ID"
    using that last find len unfolding empty by (intro exI [of _ "last ?l"]) auto
qed

text \<open>The meaning of a name from any of its descriptors.\<close>

lemma type_skipped_descriptor:
  assumes "types_ok s" "i < length (descriptors s)"
  shows "type_skipped s (typeName (descriptors s ! i)) \<longleftrightarrow> lut_get 0 (isMessageDescriptorSkipped s) (of_nat i) \<noteq> 0"
proof -
  have d: "descriptors_ok (subTables s)" using assms(1) by (simp add: types_ok_def)
  let ?n = "typeName (descriptors s ! i)"
  have known: "findMsgDescByType (subTables s) ?n \<noteq> EMPTY_MSG_TYPE_ID" using type_id(1) [OF d, of ?n] assms(2) by blast
  then obtain j where j: "j < length (descriptors s)" "typeName (descriptors s ! j) = ?n"
      "findMsgDescByType (subTables s) ?n = of_nat j" "j < 0x100"
    using type_id(2) [OF d] by blast
  have "lut_get 0 (isMessageDescriptorSkipped s) (of_nat j) = lut_get 0 (isMessageDescriptorSkipped s) (of_nat i)"
    using assms j(1,2) unfolding types_ok_def shared_flags_def by blast
  then show ?thesis using known j(3) small_words(3) [OF j(4)] by (simp add: type_skipped_def)
qed

lemma set_type_filter_spec:
  assumes "lut_ok 0x100 (isMessageDescriptorSkipped s)" "i < length (descriptors s)" "length (descriptors s) \<le> 0x100"
    "lutSize (isMessageDescriptorSkipped s) \<le> length (descriptors s)"
  shows "\<exists>t. set_type_filter (of_nat i) v s = (Inr (), s\<lparr>isMessageDescriptorSkipped := t\<rparr>) \<and> lut_ok 0x100 t \<and>
    lutSize t \<le> length (descriptors s) \<and> lutDefault t = lutDefault (isMessageDescriptorSkipped s) \<and>
    (\<forall>j. lut_get 0 t j = (if j = of_nat i then v else lut_get 0 (isMessageDescriptorSkipped s) j))"
proof -
  have i: "unat (of_nat i - 0 :: 64 word) = i" "i < 0x100" using assms by (simp_all add: small_words)
  from lut_set_ok [OF assms(1), of "of_nat i" 0 0 v] i obtain t where t: "lut_set 0 0x100 0 (of_nat i) v (isMessageDescriptorSkipped s) = (Inr (), t)"
      "lut_ok 0x100 t" "\<And>j. lut_get 0 t j = (if j = of_nat i then v else lut_get 0 (isMessageDescriptorSkipped s) j)"
      "lutDefault t = lutDefault (isMessageDescriptorSkipped s)"
    by auto
  then show ?thesis using lut_set_grows [OF t(1)] assms i by (intro exI [of _ t]) (auto simp: set_type_filter_def)
qed

lemma empty_large: "\<not> unat EMPTY_MSG_TYPE_ID < 0x100"
  by (simp add: EMPTY_MSG_TYPE_ID_def unsigned_minus_1_eq_mask mask_eq_exp_minus_1)

text \<open>The loop along the links changes exactly the descriptors it meets.\<close>

lemma modifyFilterSet_chain:
  assumes "lut_ok 0x100 (isMessageDescriptorSkipped s)" "length (descriptors s) \<le> 0x100"
    "lutSize (isMessageDescriptorSkipped s) \<le> length (descriptors s)"
    "type_chain (descriptors s) (Suc k) i = l" "length l \<le> k" "set l \<subseteq> {..<length (descriptors s)}"
  shows "\<exists>t. modifyFilterSet k (unat i) v s = (Inr (), s\<lparr>isMessageDescriptorSkipped := t\<rparr>) \<and> lut_ok 0x100 t \<and>
    lutSize t \<le> length (descriptors s) \<and> lutDefault t = lutDefault (isMessageDescriptorSkipped s) \<and>
    (\<forall>j < 0x100. lut_get 0 t (of_nat j) = (if j \<in> set l then v else lut_get 0 (isMessageDescriptorSkipped s) (of_nat j)))"
  using assms
proof (induction k arbitrary: s i l)
  case 0
  then have "i = EMPTY_MSG_TYPE_ID" "l = []" by (auto split: if_splits)
  then show ?case using "0.prems" by (intro exI [of _ "isMessageDescriptorSkipped s"]) (simp add: empty_large ret_run)
next
  case (Suc k)
  note p = Suc.prems
  show ?case
  proof (cases "i = EMPTY_MSG_TYPE_ID")
    case True
    then show ?thesis using p by (intro exI [of _ "isMessageDescriptorSkipped s"]) (auto simp: empty_large ret_run)
  next
    case False
    let ?d = "descriptors s ! unat i"
    define l' where "l' = type_chain (descriptors s) (Suc k) (nextSameType ?d)"
    have l: "l = unat i # l'" using p(4) False unfolding l'_def by (subst (asm) type_chain.simps(2)) simp
    then have i: "unat i < length (descriptors s)" "unat i < 0x100" using p(2,6) by auto
    obtain t1 where t1: "set_type_filter (of_nat (unat i)) v s = (Inr (), s\<lparr>isMessageDescriptorSkipped := t1\<rparr>)" "lut_ok 0x100 t1"
        "lutSize t1 \<le> length (descriptors s)" "lutDefault t1 = lutDefault (isMessageDescriptorSkipped s)"
        "\<And>j. lut_get 0 t1 j = (if j = of_nat (unat i) then v else lut_get 0 (isMessageDescriptorSkipped s) j)"
      using set_type_filter_spec [OF p(1) i(1) p(2,3), of v] by blast
    let ?s1 = "s\<lparr>isMessageDescriptorSkipped := t1\<rparr>"
    have "\<exists>t. modifyFilterSet k (unat (nextSameType ?d)) v ?s1 = (Inr (), ?s1\<lparr>isMessageDescriptorSkipped := t\<rparr>) \<and> lut_ok 0x100 t \<and>
        lutSize t \<le> length (descriptors ?s1) \<and> lutDefault t = lutDefault (isMessageDescriptorSkipped ?s1) \<and>
        (\<forall>j < 0x100. lut_get 0 t (of_nat j) = (if j \<in> set l' then v else lut_get 0 (isMessageDescriptorSkipped ?s1) (of_nat j)))"
      by (rule Suc.IH) (use t1 p(2,5,6) l in \<open>simp_all add: l'_def\<close>)
    then obtain t where t: "modifyFilterSet k (unat (nextSameType ?d)) v ?s1 = (Inr (), s\<lparr>isMessageDescriptorSkipped := t\<rparr>)" "lut_ok 0x100 t"
        "lutSize t \<le> length (descriptors s)" "lutDefault t = lutDefault t1"
        "\<And>j. j < 0x100 \<Longrightarrow> lut_get 0 t (of_nat j) = (if j \<in> set l' then v else lut_get 0 t1 (of_nat j))"
      by auto
    have "getMessageDescriptor (subTables s) (unat i) = Some ?d" using i(1) by (simp add: getMessageDescriptor_def)
    then have run: "modifyFilterSet (Suc k) (unat i) v s = (Inr (), s\<lparr>isMessageDescriptorSkipped := t\<rparr>)"
      using i(2) t1(1) t(1) by (simp add: andthen_ok bnd_ok gets_run)
    have "(of_nat j :: 64 word) = of_nat (unat i) \<longleftrightarrow> j = unat i" if "j < 0x100" for j
      using small_words(1) [OF that] small_words(1) [OF i(2)] by metis
    then show ?thesis using run t t1(4,5) l by (intro exI [of _ t]) simp
  qed
qed

text \<open>The types that a change of a known name touches are all descriptors of that name.\<close>

lemma modify_known_type:
  assumes "types_ok s" "findMsgDescByType (subTables s) n \<noteq> EMPTY_MSG_TYPE_ID"
  shows "\<exists>t. modify_type b n s = (Inr (), s\<lparr>isMessageDescriptorSkipped := t\<rparr>) \<and> lut_ok 0x100 t \<and>
    lutSize t \<le> length (descriptors s) \<and> lutDefault t = lutDefault (isMessageDescriptorSkipped s) \<and>
    (\<forall>j < length (descriptors s). lut_get 0 t (of_nat j) =
       (if typeName (descriptors s ! j) = n then flag b else lut_get 0 (isMessageDescriptorSkipped s) (of_nat j)))"
proof -
  let ?ds = "descriptors s" and ?id = "findMsgDescByType (subTables s) n"
  let ?l = "same_type ?ds n (length ?ds)"
  have ok: "descriptors_ok (subTables s)" "lut_ok 0x100 (isMessageDescriptorSkipped s)"
    "lutSize (isMessageDescriptorSkipped s) \<le> length ?ds" using assms(1) by (simp_all add: types_ok_def)
  then have len: "length ?ds \<le> 0x100" and id: "?id = last_of_type ?ds n (length ?ds)" by (simp_all add: descriptors_ok_def)
  have chain: "type_chain ?ds (Suc (length ?ds)) ?id = rev ?l" using type_chain_complete [OF ok(1), of "length ?ds"] id by (simp del: type_chain.simps)
  have "length (rev ?l) \<le> length ?ds" by (simp add: same_type_def) (metis diff_zero length_filter_le length_upt)
  moreover have "set (rev ?l) \<subseteq> {..<length ?ds}" by (auto simp: same_type_iff)
  ultimately obtain t where t: "modifyFilterSet (length ?ds) (unat ?id) (flag b) s = (Inr (), s\<lparr>isMessageDescriptorSkipped := t\<rparr>)"
      "lut_ok 0x100 t" "lutSize t \<le> length ?ds" "lutDefault t = lutDefault (isMessageDescriptorSkipped s)"
      "\<And>j. j < 0x100 \<Longrightarrow> lut_get 0 t (of_nat j) = (if j \<in> set (rev ?l) then flag b else lut_get 0 (isMessageDescriptorSkipped s) (of_nat j))"
    using modifyFilterSet_chain [OF ok(2) len ok(3) chain, of "flag b"] by blast
  have "modify_type b n s = (Inr (), s\<lparr>isMessageDescriptorSkipped := t\<rparr>)"
    using t(1) assms(2) by (simp add: modify_type_def bnd_ok gets_run)
  then show ?thesis using t(2-5) len by (intro exI [of _ t]) (simp add: same_type_iff)
qed

interpretation messageTypes: name_filter type_skipped modify_type type_stuck types_ok
proof unfold_locales
  fix s b n assume ok: "types_ok s"
  then have d: "descriptors_ok (subTables s)" and dflt: "lutDefault (isMessageDescriptorSkipped s) \<in> {flag False, flag True}"
    by (simp_all add: types_ok_def)
  show "\<exists>s'. modify_type b n s = (Inr (), s') \<and> types_ok s' \<and>
      (\<forall>m. type_skipped s' m = (if m = n \<and> \<not> type_stuck s b n then b else type_skipped s m)) \<and>
      (\<forall>m. type_stuck s' b m = type_stuck s b m)"
  proof (cases "findMsgDescByType (subTables s) n = EMPTY_MSG_TYPE_ID")
    case True
    have run: "modify_type b n s =
        (Inr (), if lutDefault (isMessageDescriptorSkipped s) \<noteq> flag b
           then s\<lparr>isUnregisteredMessageTypeSkipped := (isUnregisteredMessageTypeSkipped s)(n \<mapsto> b)\<rparr> else s)"
      using True by (simp add: modify_type_def bnd_ok gets_run modify_run ret_run)
    show ?thesis
    proof (cases "lutDefault (isMessageDescriptorSkipped s) = flag b")
      case eq: True
      then show ?thesis using run True ok
        by (cases "isUnregisteredMessageTypeSkipped s n") (auto simp: type_skipped_def type_stuck_def)
    next
      case False
      let ?s = "s\<lparr>isUnregisteredMessageTypeSkipped := (isUnregisteredMessageTypeSkipped s)(n \<mapsto> b)\<rparr>"
      have "types_ok ?s" using ok True by (simp add: types_ok_def)
      then show ?thesis using run True False
        by (intro exI [of _ ?s]) (auto simp: type_skipped_def type_stuck_def split: option.splits)
    qed
  next
    case False
    obtain t where t: "modify_type b n s = (Inr (), s\<lparr>isMessageDescriptorSkipped := t\<rparr>)" "lut_ok 0x100 t"
        "lutSize t \<le> length (descriptors s)" "lutDefault t = lutDefault (isMessageDescriptorSkipped s)"
        "\<And>j. j < length (descriptors s) \<Longrightarrow> lut_get 0 t (of_nat j) =
          (if typeName (descriptors s ! j) = n then flag b else lut_get 0 (isMessageDescriptorSkipped s) (of_nat j))"
      using modify_known_type [OF ok False, of b] by blast
    let ?s = "s\<lparr>isMessageDescriptorSkipped := t\<rparr>"
    have shared: "lut_get 0 (isMessageDescriptorSkipped s) (of_nat i) = lut_get 0 (isMessageDescriptorSkipped s) (of_nat j)"
      if "i < length (descriptors s)" "j < length (descriptors s)" "typeName (descriptors s ! i) = typeName (descriptors s ! j)" for i j
      using ok that unfolding types_ok_def shared_flags_def by blast
    have "shared_flags (descriptors s) t" unfolding shared_flags_def using t(5) shared by metis
    then have ok': "types_ok ?s" using ok t(2-4) by (simp add: types_ok_def)
    have "type_skipped ?s m = (if m = n \<and> \<not> type_stuck s b n then b else type_skipped s m)" for m
    proof (cases "findMsgDescByType (subTables s) m = EMPTY_MSG_TYPE_ID")
      case True
      then show ?thesis using False t(4) by (auto simp: type_skipped_def split: option.split)
    next
      case known: False
      then obtain i where i: "i < length (descriptors s)" "typeName (descriptors s ! i) = m" using type_id(2) [OF d] by blast
      show ?thesis using type_skipped_descriptor [OF ok i(1)] type_skipped_descriptor [OF ok', of i] t(5) [OF i(1)] i False
        by (auto simp: type_stuck_def)
    qed
    moreover have "type_stuck ?s b m = type_stuck s b m" for m by (simp add: type_stuck_def t(4))
    ultimately show ?thesis using t(1) ok' by blast
  qed
  show "type_skipped s n = (\<not> b)" if "type_stuck s b n"
    using that by (simp add: type_skipped_def type_stuck_def)
qed

section \<open>Changes of the subscription\<close>

text \<open>What the client asks for, as a change of the set of names that are skipped.\<close>

fun requested :: "string list option \<Rightarrow> subscr_action \<Rightarrow> (string \<Rightarrow> bool) \<Rightarrow> string \<Rightarrow> bool" where
  "requested None a f = (\<lambda>n. a \<noteq> ADD)"
| "requested (Some ns) SET f = (\<lambda>n. n \<notin> set ns)"
| "requested (Some ns) ADD f = (\<lambda>n. f n \<and> n \<notin> set ns)"
| "requested (Some ns) REMOVE f = (\<lambda>n. f n \<or> n \<in> set ns)"

definition change_lost :: "(bool \<Rightarrow> string \<Rightarrow> bool) \<Rightarrow> string list option \<Rightarrow> subscr_action \<Rightarrow> string \<Rightarrow> bool" where
  "change_lost stuck ns a n \<longleftrightarrow> (\<exists>l. ns = Some l \<and> n \<in> set l) \<and> a \<noteq> SET \<and> stuck (REMOVE = a) n"

text \<open>The common shape of the two operations.\<close>

definition change_names ::
    "(bool \<Rightarrow> 's \<Rightarrow> 's) \<Rightarrow> (bool \<Rightarrow> string \<Rightarrow> ('s, unit) op) \<Rightarrow> string list option \<Rightarrow> subscr_action \<Rightarrow> ('s, unit) op" where
  "change_names clear change ns a = seqs
     [whenM (ns = None \<or> a = SET) (modify (clear (ADD \<noteq> a))),
      (case ns of None \<Rightarrow> ret () | Some l \<Rightarrow> mapM (change (REMOVE = a)) l)]"

locale clearable_filter = name_filter +
  fixes clear :: "bool \<Rightarrow> 'a \<Rightarrow> 'a"
  assumes clear_ok: "ok s \<Longrightarrow> ok (clear b s)"
    and clear_skipped: "ok s \<Longrightarrow> skipped (clear b s) m = b"
    and clear_stuck: "ok s \<Longrightarrow> \<not> stuck (clear b s) d m"
begin

lemma change_names_spec:
  assumes "ok s"
  shows "\<exists>s'. change_names clear change ns a s = (Inr (), s') \<and> ok s' \<and>
    (\<forall>m. skipped s' m = (if change_lost (stuck s) ns a m then skipped s m else requested ns a (skipped s) m))"
proof (cases ns)
  case None
  then show ?thesis using clear_ok [OF assms] clear_skipped [OF assms]
    by (intro exI [of _ "clear (ADD \<noteq> a) s"]) (auto simp: change_names_def andthen_ok whenM_simps modify_run ret_run change_lost_def)
next
  case (Some l)
  show ?thesis
  proof (cases "a = SET")
    case True
    obtain s' where "mapM (change False) l (clear True s) = (Inr (), s')" "ok s'"
        "\<And>m. skipped s' m = (if m \<in> set l then False else True)"
      using changes [OF clear_ok [OF assms], of False l True] clear_stuck [OF assms] clear_skipped [OF assms] by auto
    then show ?thesis using Some True
      by (intro exI [of _ s']) (auto simp: change_names_def andthen_ok whenM_simps modify_run change_lost_def)
  next
    case False
    obtain s' where "mapM (change (REMOVE = a)) l s = (Inr (), s')" "ok s'"
        "\<And>m. skipped s' m = (if m \<in> set l \<and> \<not> stuck s (REMOVE = a) m then REMOVE = a else skipped s m)"
      using changes [OF assms, of "REMOVE = a" l] by blast
    then show ?thesis using Some False
      by (intro exI [of _ s']; cases a) (auto simp: change_names_def andthen_ok whenM_simps ret_run change_lost_def)
  qed
qed

end

definition clear_symbols :: "bool \<Rightarrow> subscription_state \<Rightarrow> subscription_state" where
  "clear_symbols b s = s\<lparr>isSymbolSkipped := lut_clear (lut_setDefaultValue (flag b) (isSymbolSkipped s)),
     isUnregisteredSymbolSkipped := Map.empty\<rparr>"

definition clear_types :: "bool \<Rightarrow> subscription_state \<Rightarrow> subscription_state" where
  "clear_types b s = s\<lparr>isMessageDescriptorSkipped := lut_clear (lut_setDefaultValue (flag b) (isMessageDescriptorSkipped s)),
     isUnregisteredMessageTypeSkipped := Map.empty\<rparr>"

lemma cleared_get [simp]: "lut_get 0 (lut_clear (lut_setDefaultValue v t)) i = v" "lutDefault (lut_clear (lut_setDefaultValue v t)) = v"
  "lutSize (lut_clear u) = 0"
  by (simp_all add: lut_get_def lut_clear_def lut_setDefaultValue_def)

interpretation entities: clearable_filter symbol_skipped modify_entity symbol_stuck symbols_ok clear_symbols
proof unfold_locales
  show "symbol_skipped (clear_symbols b s) m = b" for b s m
    by (simp add: symbol_skipped_def clear_symbols_def split: option.split)
qed (auto simp: clear_symbols_def symbols_ok_def symbol_stuck_def flag_def)

interpretation messageTypes: clearable_filter type_skipped modify_type type_stuck types_ok clear_types
  by unfold_locales (auto simp: clear_types_def types_ok_def type_stuck_def type_skipped_def shared_flags_def flag_def)

lemma filter_shapes:
  "modifyEntities_filter = change_names clear_symbols modify_entity" "modifyTypes_filter = change_names clear_types modify_type"
  by (intro ext, simp add: modifyEntities_filter_def modifyTypes_filter_def change_names_def clear_symbols_def [abs_def]
      clear_types_def [abs_def])+

text \<open>What one kind of change leaves alone.\<close>

definition symbol_part :: "subscription_state \<Rightarrow> _" where
  "symbol_part s = (instruments (subTables s), isSymbolSkipped s, isUnregisteredSymbolSkipped s)"

definition type_part :: "subscription_state \<Rightarrow> _" where
  "type_part s = (messageDescriptors (subTables s), typeIndex (subTables s), isMessageDescriptorSkipped s,
     isUnregisteredMessageTypeSkipped s)"

lemma parts_decide:
  "symbol_part s' = symbol_part s \<Longrightarrow> symbols_ok s' = symbols_ok s \<and> symbol_skipped s' = symbol_skipped s"
  "type_part s' = type_part s \<Longrightarrow> types_ok s' = types_ok s \<and> type_skipped s' = type_skipped s"
  by (auto simp: symbol_part_def type_part_def symbols_ok_def types_ok_def descriptors_ok_def findMsgDescByType_def
      symbol_skipped_def type_skipped_def fun_eq_iff split: option.split)

lemma keeps_part:
  "keeps (\<lambda>s. type_part s = p) (set_symbol_filter i v)" "keeps (\<lambda>s. symbol_part s = q) (set_type_filter j v)"
  by (auto simp: keeps_def set_symbol_filter_def set_type_filter_def type_part_def symbol_part_def split: prod.splits)

lemma keeps_other_part:
  "keeps (\<lambda>s. type_part s = p) (modifyEntities_filter ns a)" "keeps (\<lambda>s. symbol_part s = q) (modifyTypes_filter ns a)"
  "keeps (\<lambda>s. type_part s = p) (registerNewInstrument i n)" "keeps (\<lambda>s. symbol_part s = q) (registerNewMessageType parse j txt)"
proof -
  have e: "keeps (\<lambda>s. type_part s = p) (modify_entity r x)" for r x
    unfolding modify_entity_def by (intro keeps_rules keeps_part) (simp_all add: type_part_def)
  show "keeps (\<lambda>s. type_part s = p) (modifyEntities_filter ns a)"
    unfolding modifyEntities_filter_def seqs.simps by (intro keeps_rules keeps_mapM e) (simp add: type_part_def)
  have c: "keeps (\<lambda>s. symbol_part s = q) (modifyFilterSet k i v)" for k i v
  proof (induction k arbitrary: i)
    case (Suc k)
    show ?case unfolding modifyFilterSet.simps by (intro keeps_rules keeps_part Suc)
  qed (auto simp only: modifyFilterSet.simps keeps_ret keeps_throw split: if_split)
  have t: "keeps (\<lambda>s. symbol_part s = q) (modify_type r x)" for r x
    unfolding modify_type_def by (intro keeps_rules c) (simp_all add: symbol_part_def)
  show "keeps (\<lambda>s. symbol_part s = q) (modifyTypes_filter ns a)"
    unfolding modifyTypes_filter_def seqs.simps by (intro keeps_rules keeps_mapM t) (simp add: symbol_part_def)
  have "keeps (\<lambda>s. type_part s = p) (on_sub_tables (registerInstrument i n))"
    by (auto simp: keeps_def on_sub_tables_def registerInstrument_def type_part_def Let_def split: prod.splits sum.splits if_splits)
  then show "keeps (\<lambda>s. type_part s = p) (registerNewInstrument i n)"
    unfolding registerNewInstrument_def by (intro keeps_rules keeps_part) (simp_all add: type_part_def)
  have "keeps (\<lambda>s. symbol_part s = q) (on_sub_tables (registerMessageDescriptor k m g d))" for k m g d
    by (auto simp: keeps_def on_sub_tables_def registerMessageDescriptor_def throw_def symbol_part_def Let_def
        split: prod.splits sum.splits if_splits)
  then show "keeps (\<lambda>s. symbol_part s = q) (registerNewMessageType parse j txt)"
    unfolding registerNewMessageType_def by (intro keeps_rules keeps_part) (simp_all add: symbol_part_def)
qed

section \<open>New symbols and types\<close>

text \<open>A symbol gets its id without a change of what is skipped.\<close>

lemma registerNewInstrument_spec:
  assumes "symbols_ok s" "unat newId < 0x10000" "registerNewInstrument newId n s = (x, s')"
  shows "symbols_ok s' \<and> symbol_skipped s' = symbol_skipped s \<and>
    (if of_nat (biSize (instruments (subTables s))) = newId \<and> s2i (instruments (subTables s)) n = None
     then x = Inr () \<and> s2i (instruments (subTables s')) = (s2i (instruments (subTables s)))(n \<mapsto> newId) \<and>
       biSize (instruments (subTables s')) = Suc (biSize (instruments (subTables s)))
     else s' = s \<and> x \<noteq> Inr ())"
proof -
  let ?m = "instruments (subTables s)"
  have bi: "bilut_ok ?m" and ids: "\<And>k i. s2i ?m k = Some i \<Longrightarrow> unat i < biSize ?m" and size: "biSize ?m \<le> 0x10000"
    and fl: "lut_ok 0x10000 (isSymbolSkipped s)" "lutSize (isSymbolSkipped s) \<le> biSize ?m"
    using assms(1) by (simp_all add: symbols_ok_def)
  have valid: "newId \<noteq> invalidId" using assms(2) by (auto simp: invalidId_def unsigned_minus_1_eq_mask mask_eq_exp_minus_1)
  show ?thesis
  proof (cases "of_nat (biSize ?m) = newId \<and> s2i ?m n = None")
    case False
    have "s' = s \<and> x \<noteq> Inr ()"
    proof (cases "of_nat (biSize ?m) = newId")
      case True
      then obtain i where i: "s2i ?m n = Some i" using False by auto
      have "unat (of_nat (biSize ?m) :: 32 word) = biSize ?m" using size by (simp add: unat_of_nat take_bit_nat_eq_self)
      then have "i \<noteq> newId" "i \<noteq> invalidId" using ids [OF i] True i bilut_okD(4) [OF bi] by auto
      then have "registerInstrument newId n (subTables s) = (Inl (RuntimeError ''InstrumentId cache out of sync''), subTables s)"
        using i by (simp add: registerInstrument_def bilut_id_def)
      then show ?thesis using assms(3) True
        by (auto simp: registerNewInstrument_def bnd_ok gets_run on_sub_tables_def andthen_err)
    qed (use assms(3) in \<open>auto simp: registerNewInstrument_def bnd_ok gets_run throw_run\<close>)
    then show ?thesis using assms(1) False by simp
  next
    case True
    then have new: "unat newId = biSize ?m" using size by (auto simp: unat_of_nat take_bit_nat_eq_self)
    then have "newId \<notin> ran (s2i ?m)" using ids by (fastforce simp: ran_def)
    then obtain m where m: "bilut_add newId n ?m = (Inr True, m)" "bilut_ok m" "s2i m = (s2i ?m)(n \<mapsto> newId)"
      using symbols.add_fresh [OF bi valid] True by blast
    have size': "biSize m = Suc (biSize ?m)"
      using bilut_okD(3,6) [OF bi] bilut_okD(3) [OF m(2)] m(3) True by (simp add: card_insert_if domIff)
    let ?t = "(subTables s)\<lparr>instruments := m\<rparr>"
    let ?s1 = "s\<lparr>subTables := ?t\<rparr>"
    have reg: "on_sub_tables (registerInstrument newId n) s = (Inr True, ?s1)"
      using m(1) True valid bilut_id_invalid [OF bi, of n] by (simp add: on_sub_tables_def registerInstrument_def Let_def)
    have fresh: "lut_get 0 (isSymbolSkipped s) (ucast newId) = lutDefault (isSymbolSkipped s)"
      using fl(2) new by (simp add: lut_get_outside)
    have inj: "s2i ?m k = Some j \<Longrightarrow> (ucast j :: 64 word) \<noteq> ucast newId" for k j
      using ids [of k j] new by (auto simp: word_unat_eq_iff)
    have all_ids: "unat i < biSize m \<and> (k \<noteq> n \<longrightarrow> isUnregisteredSymbolSkipped s k = None)" if "s2i m k = Some i" for k i
      using that m(3) assms(1) size' new by (cases "k = n") (auto simp: symbols_ok_def dest: less_SucI)
    have size_ok: "biSize m \<le> 0x10000" using size' new assms(2) by simp
    show ?thesis
    proof (cases "isUnregisteredSymbolSkipped s n")
      case None
      have run: "x = Inr ()" "s' = ?s1"
        using assms(3) True reg None by (simp_all add: registerNewInstrument_def bnd_ok gets_run andthen_ok ret_run)
      have "unat i < biSize m \<and> isUnregisteredSymbolSkipped s k = None" if "s2i m k = Some i" for k i
        using all_ids [OF that] None by (cases "k = n") auto
      then have "symbols_ok ?s1" using assms(1) m(2) size' size_ok fl(2) by (simp add: symbols_ok_def)
      moreover have "symbol_skipped ?s1 k = symbol_skipped s k" for k
        using m(3) True None fresh by (auto simp: symbol_skipped_def split: option.split)
      ultimately show ?thesis using run m(3) size' True by auto
    next
      case (Some b)
      obtain t where t: "lut_set 0 0x10000 0 (ucast newId) (flag b) (isSymbolSkipped s) = (Inr (), t)" "lut_ok 0x10000 t"
          "\<And>j. lut_get 0 t j = (if j = ucast newId then flag b else lut_get 0 (isSymbolSkipped s) j)"
          "lutDefault t = lutDefault (isSymbolSkipped s)"
        using lut_set_ok [OF fl(1), of "ucast newId" 0 0 "flag b"] assms(2) by auto
      let ?s2 = "s\<lparr>subTables := ?t, isSymbolSkipped := t, isUnregisteredSymbolSkipped := (isUnregisteredSymbolSkipped s)(n := None)\<rparr>"
      have run: "x = Inr ()" "s' = ?s2"
        using assms(3) True reg Some t(1)
        by (simp_all add: registerNewInstrument_def bnd_ok gets_run andthen_ok modify_run set_symbol_filter_def)
      have "lutSize t \<le> biSize m" using lut_set_grows [OF t(1)] fl(2) new size' by auto
      then have "symbols_ok ?s2" using assms(1) m(2) size_ok t(2,4) all_ids by (simp add: symbols_ok_def) blast
      moreover have "symbol_skipped ?s2 k = symbol_skipped s k" for k
        using m(3) True Some t(3,4) inj [of k] by (auto simp: symbol_skipped_def split: option.split)
      ultimately show ?thesis using run m(3) size' True by auto
    qed
  qed
qed

text \<open>A message type gets its descriptor without a change of what is skipped.\<close>

lemma registerNewMessageType_run:
  assumes "registerNewMessageType parse newId txt s = (Inr g, s')" "length (descriptors s) \<le> 0x100"
  shows "\<exists>nm t1 v f t. parse txt = Some (nm, g) \<and> unat newId = length (descriptors s) \<and> newId < 0x100 \<and>
    registerMessageDescriptor newId nm g (map (\<lambda>b. char_of (unat b)) txt) (subTables s) = (Inr (), t1) \<and>
    v = (case isUnregisteredMessageTypeSkipped s nm of Some b \<Rightarrow> flag b
         | None \<Rightarrow> let sibling = nextSameType (messageDescriptors t1 ! unat newId) in
             if EMPTY_MSG_TYPE_ID = sibling then lutDefault (isMessageDescriptorSkipped s)
             else lut_get 0 (isMessageDescriptorSkipped s) (ucast sibling)) \<and>
    f = (isUnregisteredMessageTypeSkipped s)(nm := None) \<and>
    lut_set 0 0x100 0 (ucast newId) v (isMessageDescriptorSkipped s) = (Inr (), t) \<and>
    s' = s\<lparr>subTables := t1, isUnregisteredMessageTypeSkipped := f, isMessageDescriptorSkipped := t\<rparr>"
proof -
  obtain nm guid where p: "parse txt = Some (nm, guid)"
    using assms(1) by (auto simp: registerNewMessageType_def bnd_def gets_def throw_def split: if_splits option.splits)
  obtain y t1 where reg: "registerMessageDescriptor newId nm guid (map (\<lambda>b. char_of (unat b)) txt) (subTables s) = (y, t1)" by force
  have y: "y = Inr ()"
    using assms(1) p reg by (auto simp: registerNewMessageType_def bnd_def gets_def throw_def andthen_def on_sub_tables_def
        split: if_splits sum.splits)
  have id: "newId < 0x100" "unat newId = length (descriptors s)"
    using reg y by (auto simp: registerMessageDescriptor_def throw_def Let_def split: if_splits prod.splits sum.splits)
  have eq: "of_nat (length (descriptors s)) = newId" using id(2) by (simp add: word_unat_eq_iff [symmetric] flip: id(2))
  let ?e = "isUnregisteredMessageTypeSkipped s nm"
  let ?v = "case ?e of Some b \<Rightarrow> flag b
         | None \<Rightarrow> let sibling = nextSameType (messageDescriptors t1 ! unat newId) in
             if EMPTY_MSG_TYPE_ID = sibling then lutDefault (isMessageDescriptorSkipped s)
             else lut_get 0 (isMessageDescriptorSkipped s) (ucast sibling)"
  let ?f = "(isUnregisteredMessageTypeSkipped s)(nm := None)"
  obtain z t where set: "lut_set 0 0x100 0 (ucast newId) ?v (isMessageDescriptorSkipped s) = (z, t)" by force
  have f: "?e = None \<Longrightarrow> ?f = isUnregisteredMessageTypeSkipped s" by auto
  have run: "registerNewMessageType parse newId txt s =
      (case z of Inl e \<Rightarrow> Inl e | Inr _ \<Rightarrow> Inr guid, s\<lparr>subTables := t1, isUnregisteredMessageTypeSkipped := ?f, isMessageDescriptorSkipped := t\<rparr>)"
    using p reg y eq set [unfolded Let_def] f
    by (cases ?e; cases z; cases "EMPTY_MSG_TYPE_ID = nextSameType (messageDescriptors t1 ! unat newId)") (simp_all add: registerNewMessageType_def bnd_def andthen_def gets_def modify_def ret_def on_sub_tables_def
        set_type_filter_def Let_def)
  then have "z = Inr ()" "guid = g" "s' = s\<lparr>subTables := t1, isUnregisteredMessageTypeSkipped := ?f, isMessageDescriptorSkipped := t\<rparr>"
    using assms(1) by (auto split: sum.splits)
  then show ?thesis using p reg y id set by blast
qed

lemma registerNewMessageType_spec:
  assumes ok: "types_ok s" and run: "registerNewMessageType parse newId txt s = (Inr g, s')"
  shows "types_ok s' \<and> type_skipped s' = type_skipped s \<and>
    (\<exists>nm. parse txt = Some (nm, g) \<and> map typeName (descriptors s') = map typeName (descriptors s) @ [nm])"
proof -
  let ?ds = "descriptors s" and ?n = "length (descriptors s)" and ?filt = "isMessageDescriptorSkipped s"
  have d: "descriptors_ok (subTables s)" "lut_ok 0x100 ?filt" "lutSize ?filt \<le> ?n" "shared_flags ?ds ?filt"
      "lutDefault ?filt \<in> {flag False, flag True}"
    and free: "\<And>k. findMsgDescByType (subTables s) k \<noteq> EMPTY_MSG_TYPE_ID \<Longrightarrow> isUnregisteredMessageTypeSkipped s k = None"
    using ok by (simp_all add: types_ok_def)
  then have len: "?n \<le> 0x100" by (simp add: descriptors_ok_def)
  obtain nm t1 v f t where r: "parse txt = Some (nm, g)" "unat newId = ?n" "newId < 0x100"
      "registerMessageDescriptor newId nm g (map (\<lambda>b. char_of (unat b)) txt) (subTables s) = (Inr (), t1)"
      "v = (case isUnregisteredMessageTypeSkipped s nm of Some b \<Rightarrow> flag b
         | None \<Rightarrow> let sibling = nextSameType (messageDescriptors t1 ! unat newId) in
             if EMPTY_MSG_TYPE_ID = sibling then lutDefault ?filt else lut_get 0 ?filt (ucast sibling))"
      "f = (isUnregisteredMessageTypeSkipped s)(nm := None)"
      "lut_set 0 0x100 0 (ucast newId) v ?filt = (Inr (), t)"
      "s' = s\<lparr>subTables := t1, isUnregisteredMessageTypeSkipped := f, isMessageDescriptorSkipped := t\<rparr>"
    using registerNewMessageType_run [OF run len] by blast
  obtain x where t1: "descriptors_ok t1" "messageDescriptors t1 = ?ds @ [x]" "typeName x = nm"
      "nextSameType x = findMsgDescByType (subTables s) nm"
    using registerMessageDescriptor_ok [OF d(1) r(4)] by auto
  have n: "?n < 0x100" "(ucast newId :: 64 word) = of_nat ?n" using r(2,3) by (auto simp: word_less_nat_alt word_unat_eq_iff unat_ucast_up unat_of_nat take_bit_nat_eq_self)
  have bound: "unat (ucast newId - 0 :: 64 word) < 0x100" using n(1) r(2) by simp
  obtain t' where "lut_set 0 0x100 0 (ucast newId) v ?filt = (Inr (), t')" "lut_ok 0x100 t'" "lutDefault t' = lutDefault ?filt"
      "\<And>j. lut_get 0 t' j = (if j = ucast newId then v else lut_get 0 ?filt j)"
    using lut_set_ok [OF d(2) _ bound, of 0 v] by auto
  then have t: "lut_ok 0x100 t" "lutDefault t = lutDefault ?filt" "\<And>j. lut_get 0 t j = (if j = of_nat ?n then v else lut_get 0 ?filt j)"
    using r(7) n(2) by auto
  have size: "lutSize t \<le> Suc ?n" using lut_set_grows [OF r(7)] d(3) r(2) by auto
  have at: "lut_get 0 t (of_nat j) = (if j = ?n then v else lut_get 0 ?filt (of_nat j))" if "j < Suc ?n" for j
    using t(3) small_words(1) [of j] small_words(1) [OF n(1)] that n(1) by (metis less_SucE less_trans)
  have old: "typeName ((?ds @ [x]) ! j) = (if j = ?n then nm else typeName (?ds ! j))" if "j < Suc ?n" for j
    using that t1(3) by (auto simp: nth_append)
  have sibling: "v = lut_get 0 ?filt (of_nat j)" if "j < ?n" "typeName (?ds ! j) = nm" for j
  proof -
    have "findMsgDescByType (subTables s) nm \<noteq> EMPTY_MSG_TYPE_ID" using type_id(1) [OF d(1), of nm] that by blast
    moreover from this obtain i where "i < ?n" "typeName (?ds ! i) = nm" "findMsgDescByType (subTables s) nm = of_nat i" "i < 0x100"
      using type_id(2) [OF d(1)] by blast
    ultimately have "v = lut_get 0 ?filt (of_nat i)"
      using r(2,5) t1(2,4) free [of nm] small_words(3) [of i] by (simp add: nth_append)
    also have "\<dots> = lut_get 0 ?filt (of_nat j)"
      using d(4) that \<open>i < ?n\<close> \<open>typeName (?ds ! i) = nm\<close> unfolding shared_flags_def by blast
    finally show ?thesis .
  qed
  have meaning: "v \<noteq> 0 \<longleftrightarrow> type_skipped s nm"
    using r(2,5) t1(2,4) free [of nm] by (auto simp: type_skipped_def nth_append Let_def split: option.splits)
  have names: "findMsgDescByType t1 k = EMPTY_MSG_TYPE_ID \<longleftrightarrow> k \<noteq> nm \<and> findMsgDescByType (subTables s) k = EMPTY_MSG_TYPE_ID" for k
    using type_id(1) [OF t1(1), of k] type_id(1) [OF d(1), of k] t1(2,3) by (auto simp: nth_append less_Suc_eq)
  have flag_at: "lut_get 0 t (of_nat j) = (if typeName ((?ds @ [x]) ! j) = nm then v else lut_get 0 ?filt (of_nat j))"
    if "j < Suc ?n" for j
    using at [OF that] old [OF that] sibling [of j] that by (cases "j = ?n") (simp_all add: less_Suc_eq)
  have "lut_get 0 t (of_nat i) = lut_get 0 t (of_nat j)"
    if a: "i < Suc ?n" "j < Suc ?n" "typeName ((?ds @ [x]) ! i) = typeName ((?ds @ [x]) ! j)" for i j
  proof (cases "typeName ((?ds @ [x]) ! j) = nm")
    case True
    then show ?thesis using flag_at a by simp
  next
    case False
    then have "i < ?n" "j < ?n" "typeName (?ds ! i) = typeName (?ds ! j)" using a old [of i] old [of j]
      by (auto simp: less_Suc_eq split: if_splits)
    then have "lut_get 0 ?filt (of_nat i) = lut_get 0 ?filt (of_nat j)" using d(4) unfolding shared_flags_def by blast
    then show ?thesis using flag_at a False by simp
  qed
  then have "shared_flags (?ds @ [x]) t" unfolding shared_flags_def length_append_singleton by blast
  then have ok': "types_ok s'"
    using t1(1,2) t(1,2) size d(5) names free r(6,8) by (auto simp: types_ok_def)
  have "type_skipped s' k = type_skipped s k" for k
  proof (cases "findMsgDescByType (subTables s) k = EMPTY_MSG_TYPE_ID \<and> k \<noteq> nm")
    case True
    then have "findMsgDescByType t1 k = EMPTY_MSG_TYPE_ID" using names by blast
    then show ?thesis using True r(6,8) t(2) by (auto simp: type_skipped_def split: option.split)
  next
    case False
    show ?thesis
    proof (cases "k = nm")
      case True
      have "type_skipped s' (typeName (descriptors s' ! ?n)) \<longleftrightarrow> lut_get 0 (isMessageDescriptorSkipped s') (of_nat ?n) \<noteq> 0"
        by (rule type_skipped_descriptor [OF ok']) (simp add: r(8) t1(2))
      then show ?thesis using True t1(2,3) r(8) at [of ?n] meaning by simp
    next
      case ne: False
      then obtain i where i: "i < ?n" "typeName (?ds ! i) = k" using False type_id(2) [OF d(1)] by blast
      have "type_skipped s' (typeName (descriptors s' ! i)) \<longleftrightarrow> lut_get 0 (isMessageDescriptorSkipped s') (of_nat i) \<noteq> 0"
        by (rule type_skipped_descriptor [OF ok']) (use i in \<open>simp add: r(8) t1(2)\<close>)
      then show ?thesis using type_skipped_descriptor [OF ok i(1)] i at [of i] t1(2) r(8) by (simp add: nth_append)
    qed
  qed
  then show ?thesis using ok' r(1,8) t1(2,3) by auto
qed

end
