(* ===== verification/CursorSubscriptions.thy ===== *)
theory CursorSubscriptions
  imports CursorFilters
begin

text \<open>
  The subscription of a cursor as the client sees it: the newest copy of the subscription state. The
  requests of the client change it as they say, symbols and types that the server announces do not change it,
  and the copy that the reading thread uses is replaced at once.
\<close>

definition filters_ok :: "subscription_state \<Rightarrow> bool" where
  "filters_ok s \<longleftrightarrow> symbols_ok s \<and> types_ok s"

lemma getWriteShadowState_run:
  assumes "cursor_ok c"
  shows "\<exists>c1. getWriteShadowState c = (Inr (), c1) \<and> cursor_ok c1 \<and> shadow_of c1 = shadow_of c \<and> main_of c1 = main_of c \<and>
    mainState c1 \<noteq> shadowState c1 \<and> shadowCopyUpdated c1 \<and> cursorId c1 = cursorId c \<and> subscriptionTimeMs c1 = subscriptionTimeMs c \<and>
    requestsSent c1 = requestsSent c \<and> serverAnswers c1 = serverAnswers c"
proof (cases "mainState c = shadowState c")
  case True
  let ?c = "c\<lparr>shadowState := other (mainState c), subState := (subState c)[other (mainState c) := main_of c], shadowCopyUpdated := True\<rparr>"
  have run: "getWriteShadowState c = (Inr (), ?c)" using True by (simp add: getWriteShadowState_def modify_run)
  have m: "mainState c < 2" "length (subState c) = 2" using assms by (simp_all add: cursor_ok_def)
  then have o: "other (mainState c) < 2" "other (mainState c) \<noteq> mainState c" by (auto simp: other_def less_Suc_eq numeral_2_eq_2)
  have "cursor_ok ?c" using keepsD [OF safe_copies(1) assms] run by simp
  then show ?thesis using run m o True by (intro exI [of _ ?c]) (simp add: shadow_of_def main_of_def)
next
  case False
  then show ?thesis using assms by (intro exI [of _ c]) (simp add: getWriteShadowState_def modify_run cursor_ok_def)
qed

lemma on_shadow_run:
  assumes "cursor_ok c" "mainState c \<noteq> shadowState c" "m (shadow_of c) = (x, s)"
  shows "on_shadow m c = (x, c\<lparr>subState := (subState c)[shadowState c := s]\<rparr>)"
    "shadow_of (c\<lparr>subState := (subState c)[shadowState c := s]\<rparr>) = s"
    "main_of (c\<lparr>subState := (subState c)[shadowState c := s]\<rparr>) = main_of c"
  using assms by (simp_all add: on_shadow_def shadow_of_def main_of_def cursor_ok_def)

text \<open>Sending a request and recording its number changes neither the filters nor the copy in use.\<close>

definition filter_fields :: "subscription_state \<Rightarrow> _" where
  "filter_fields s = (symbol_part s, type_part s)"

lemma request_frame:
  assumes "cursor_ok c" "mainState c \<noteq> shadowState c"
    "c' = snd (bnd (gets (\<lambda>c. (cursorId c, subscriptionTimeMs c))) (\<lambda>(i, t). bnd (execute_request (req i t)) addSubscriptionCommand) c)"
  shows "filter_fields (shadow_of c') = filter_fields (shadow_of c) \<and> main_of c' = main_of c \<and>
    requestsSent c' = requestsSent c @ [req (cursorId c) (subscriptionTimeMs c)] \<and> mainState c' \<noteq> shadowState c' \<and>
    shadowCopyUpdated c' = shadowCopyUpdated c"
proof -
  let ?P = "\<lambda>c'. filter_fields (shadow_of c') = filter_fields (shadow_of c) \<and> main_of c' = main_of c \<and> shadowState c' < length (subState c') \<and>
    requestsSent c' = requestsSent c @ [req (cursorId c) (subscriptionTimeMs c)] \<and> mainState c' \<noteq> shadowState c' \<and>
    shadowCopyUpdated c' = shadowCopyUpdated c"
  have shadow: "keeps ?P (on_shadow (modify f))" if "\<And>s. filter_fields (f s) = filter_fields s" for f
    using that by (auto simp: keeps_def on_shadow_def modify_def shadow_of_def main_of_def)
  have "keeps ?P (addSubscriptionCommand i)" for i
    unfolding addSubscriptionCommand_def seqs.simps setCursorState_def
    by (intro keeps_rules shadow) (simp_all add: filter_fields_def symbol_part_def type_part_def shadow_of_def main_of_def)
  note add = keepsD [OF this]
  have "?P (snd (execute_request (req (cursorId c) (subscriptionTimeMs c)) c))"
    using assms(1,2) by (simp add: execute_request_def shadow_of_def main_of_def cursor_ok_def Let_def split: list.split)
  then have "?P (snd (bnd (execute_request (req (cursorId c) (subscriptionTimeMs c))) addSubscriptionCommand c))"
    using add by (cases "execute_request (req (cursorId c) (subscriptionTimeMs c)) c") (auto simp: bnd_def split: sum.split)
  then show ?thesis using assms(3) by (simp add: bnd_ok [of "gets _"] gets_run)
qed

lemma subscription_change:
  assumes ok: "cursor_ok c" and m: "m (shadow_of c) = (Inr (), s)" and ok': "sub_safe m"
    and c': "c' = snd (seqs [getWriteShadowState, on_shadow m,
      bnd (gets (\<lambda>c. (cursorId c, subscriptionTimeMs c))) (\<lambda>(i, t). bnd (execute_request (req i t)) addSubscriptionCommand)] c)"
  shows "filter_fields (shadow_of c') = filter_fields s \<and> main_of c' = main_of c \<and> shadowCopyUpdated c' \<and>
    requestsSent c' = requestsSent c @ [req (cursorId c) (subscriptionTimeMs c)]"
proof -
  obtain c1 where c1: "getWriteShadowState c = (Inr (), c1)" "cursor_ok c1" "shadow_of c1 = shadow_of c" "main_of c1 = main_of c"
      "mainState c1 \<noteq> shadowState c1" "shadowCopyUpdated c1" "cursorId c1 = cursorId c" "subscriptionTimeMs c1 = subscriptionTimeMs c"
      "requestsSent c1 = requestsSent c"
    using getWriteShadowState_run [OF ok] by blast
  note r = on_shadow_run [OF c1(2,5), of m "Inr ()" s]
  let ?c2 = "c1\<lparr>subState := (subState c1)[shadowState c1 := s]\<rparr>"
  have m1: "m (shadow_of c1) = (Inr (), s)" using m c1(3) by simp
  have ok2: "cursor_ok ?c2" using keepsD [OF safe_on_shadow [OF ok'] c1(2)] r(1) [OF m1] by simp
  have "c' = snd (bnd (gets (\<lambda>c. (cursorId c, subscriptionTimeMs c))) (\<lambda>(i, t). bnd (execute_request (req i t)) addSubscriptionCommand) ?c2)"
    using c' c1(1) r(1) [OF m1] by (simp add: andthen_ok)
  from request_frame [OF ok2 _ this] c1 r(2,3) [OF m1] show ?thesis by simp
qed

lemma entities_changed:
  assumes "cursor_ok c" "filters_ok (shadow_of c)" "c' = snd (modifyEntities ns a c)"
  shows "filters_ok (shadow_of c') \<and> type_skipped (shadow_of c') = type_skipped (shadow_of c) \<and>
    (\<forall>n. symbol_skipped (shadow_of c') n = (if change_lost (symbol_stuck (shadow_of c)) ns a n then symbol_skipped (shadow_of c) n
       else requested ns a (symbol_skipped (shadow_of c)) n)) \<and>
    main_of c' = main_of c \<and> shadowCopyUpdated c' \<and>
    requestsSent c' = requestsSent c @ [ModifyEntitiesRequest (cursorId c) (subscriptionTimeMs c) a ns]"
proof -
  let ?s = "shadow_of c"
  have ok: "symbols_ok ?s" "types_ok ?s" using assms(2) by (simp_all add: filters_ok_def)
  obtain s1 where s1: "modifyEntities_filter ns a ?s = (Inr (), s1)" "symbols_ok s1"
      "\<And>m. symbol_skipped s1 m = (if change_lost (symbol_stuck ?s) ns a m then symbol_skipped ?s m else requested ns a (symbol_skipped ?s) m)"
    using entities.change_names_spec [OF ok(1), of ns a] unfolding filter_shapes by blast
  have "type_part s1 = type_part ?s" using keepsD [OF keeps_other_part(1) [of "type_part ?s" ns a], of ?s] s1(1) by simp
  note other = parts_decide(2) [OF this]
  note e = subscription_change [OF assms(1) s1(1) sub_safe_modify(1) refl, where req = "\<lambda>i t. ModifyEntitiesRequest i t a ns",
      folded modifyEntities_def assms(3)]
  have "symbol_part (shadow_of c') = symbol_part s1" "type_part (shadow_of c') = type_part s1"
    using e by (simp_all add: filter_fields_def)
  note p = parts_decide(1) [OF this(1)] parts_decide(2) [OF this(2)]
  show ?thesis using e p other s1(2,3) ok by (simp add: filters_ok_def)
qed

lemma types_changed:
  assumes "cursor_ok c" "filters_ok (shadow_of c)" "c' = snd (modifyTypes ns a c)"
  shows "filters_ok (shadow_of c') \<and> symbol_skipped (shadow_of c') = symbol_skipped (shadow_of c) \<and>
    (\<forall>n. type_skipped (shadow_of c') n = (if change_lost (type_stuck (shadow_of c)) ns a n then type_skipped (shadow_of c) n
       else requested ns a (type_skipped (shadow_of c)) n)) \<and>
    main_of c' = main_of c \<and> shadowCopyUpdated c' \<and>
    requestsSent c' = requestsSent c @ [ModifyTypesRequest (cursorId c) (subscriptionTimeMs c) a ns]"
proof -
  let ?s = "shadow_of c"
  have ok: "symbols_ok ?s" "types_ok ?s" using assms(2) by (simp_all add: filters_ok_def)
  obtain s1 where s1: "modifyTypes_filter ns a ?s = (Inr (), s1)" "types_ok s1"
      "\<And>m. type_skipped s1 m = (if change_lost (type_stuck ?s) ns a m then type_skipped ?s m else requested ns a (type_skipped ?s) m)"
    using messageTypes.change_names_spec [OF ok(2), of ns a] unfolding filter_shapes by blast
  have "symbol_part s1 = symbol_part ?s" using keepsD [OF keeps_other_part(2) [of "symbol_part ?s" ns a], of ?s] s1(1) by simp
  note other = parts_decide(1) [OF this]
  note e = subscription_change [OF assms(1) s1(1) sub_safe_modify(2) refl, where req = "\<lambda>i t. ModifyTypesRequest i t a ns",
      folded modifyTypes_def assms(3)]
  have "symbol_part (shadow_of c') = symbol_part s1" "type_part (shadow_of c') = type_part s1"
    using e by (simp_all add: filter_fields_def)
  note p = parts_decide(1) [OF this(1)] parts_decide(2) [OF this(2)]
  show ?thesis using e p other s1(2,3) ok by (simp add: filters_ok_def)
qed


text \<open>A cursor that skips nothing and knows no names yet.\<close>

definition sample_cursor :: "(exn + 64 word) list \<Rightarrow> cursor" where
  "sample_cursor answers = snd (on_main (modify (clearMessageFilters False)) (new_cursor (reader_over (\<lambda>_. 0) 0 0) False answers))"

lemma new_cursor_ok: "cursor_ok (new_cursor r live answers)"
proof -
  have "subscription_ok new_subscription"
    by (simp add: subscription_ok_def new_subscription_def new_tables_ok lut_ok_def new_lut_def)
       (simp add: new_symbol_translator_def new_lut_def)
  then show ?thesis by (simp add: cursor_ok_def new_cursor_def)
qed

lemma sample_cursor_ok: "cursor_ok (sample_cursor answers)" "filters_ok (shadow_of (sample_cursor answers))"
  "lutDefault (isSymbolSkipped (shadow_of (sample_cursor answers))) = 0"
  "s2i (instruments (subTables (shadow_of (sample_cursor answers)))) n = None"
proof -
  have "safe (on_main (modify (clearMessageFilters False)))" by (intro safe_on_main keeps_modify) (simp add: sub_safe_clear)
  from keepsD [OF this new_cursor_ok] show "cursor_ok (sample_cursor answers)" by (simp add: sample_cursor_def)
  have s: "shadow_of (sample_cursor answers) = clearMessageFilters False new_subscription"
    by (simp add: sample_cursor_def on_main_def modify_def shadow_of_def main_of_def new_cursor_def)
  have "tables_ok (subTables new_subscription)" by (simp add: new_subscription_def new_tables_ok)
  then show "filters_ok (shadow_of (sample_cursor answers))"
    by (simp add: s filters_ok_def symbols_ok_def types_ok_def tables_ok_def clearMessageFilters_def shared_flags_def)
       (simp add: new_subscription_def new_symbol_translator_def new_bilut_def)
  show "lutDefault (isSymbolSkipped (shadow_of (sample_cursor answers))) = 0"
    "s2i (instruments (subTables (shadow_of (sample_cursor answers)))) n = None"
    by (simp_all add: s clearMessageFilters_def flag_def) (simp add: new_subscription_def new_symbol_translator_def new_bilut_def)
qed


text \<open>C33: A symbol that the server has not announced yet and that the client removes from a subscription to all
  symbols and then adds again stays skipped: the second change is lost, because the default would not skip the symbol
  and the code does not look for the entry that the first change made.\<close>

theorem readded_name_stays_skipped:
  assumes "cursor_ok c" "filters_ok (shadow_of c)"
    and "lutDefault (isSymbolSkipped (shadow_of c)) = 0" "s2i (instruments (subTables (shadow_of c))) n = None"
    and "c1 = snd (modifyEntities (Some [n]) REMOVE c)" "c2 = snd (modifyEntities (Some [n]) ADD c1)"
  shows "symbol_skipped (shadow_of c1) n \<and> symbol_skipped (shadow_of c2) n"
proof -
  let ?s = "shadow_of c" and ?s1 = "(shadow_of c)\<lparr>isUnregisteredSymbolSkipped := (isUnregisteredSymbolSkipped (shadow_of c))(n \<mapsto> True)\<rparr>"
  have "bilut_id (instruments (subTables ?s)) n = invalidId" using assms(4) by (simp add: bilut_id_def)
  then have run: "modifyEntities_filter (Some [n]) REMOVE ?s = (Inr (), ?s1)"
    using assms(3) by (simp add: modifyEntities_filter_def whenM_simps modify_entity_def bnd_ok gets_run modify_run andthen_ok ret_run)
  have "filter_fields (shadow_of c1) = filter_fields ?s1"
    using subscription_change [OF assms(1) run sub_safe_modify(1) refl, where req = "\<lambda>i t. ModifyEntitiesRequest i t REMOVE (Some [n])"]
    by (simp add: assms(5) modifyEntities_def)
  then have f: "symbol_stuck (shadow_of c1) False n" using assms(3,4)
    by (simp add: filter_fields_def symbol_part_def symbol_stuck_def flag_def)
  note first = entities_changed [OF assms(1,2,5)]
  have "cursor_ok c1" using keepsD [OF safe_modify(1) assms(1)] by (simp add: assms(5))
  note second = entities_changed [OF this conjunct1 [OF first] assms(6)]
  have "symbol_skipped (shadow_of c1) n" using f by (simp add: symbol_stuck_def symbol_skipped_def)
  moreover have "change_lost (symbol_stuck (shadow_of c1)) (Some [n]) ADD n" using f by (simp add: change_lost_def)
  ultimately show ?thesis using second by simp
qed

theorem readded_name_stays_skipped_witness:
  "symbol_skipped (shadow_of (snd (modifyEntities (Some [''A'']) ADD (snd (modifyEntities (Some [''A'']) REMOVE (sample_cursor [Inr 5, Inr 6])))))) ''A''"
  using readded_name_stays_skipped [OF sample_cursor_ok [of "[Inr 5, Inr 6]"] refl refl, of "''A''"] by simp

end
