(* ===== verification/CursorReader.thy ===== *)
theory CursorReader
  imports CursorSubscriptions
begin

text \<open>
  The positions of a cursor's reader: between records, where all bytes of the stream are pending, and in a
  message, where the rest of its body is. Both are sources for the decoders; the message boundary operations
  lead from one to the other.
\<close>

section \<open>The buffer stays where it is\<close>

abbreviation fixed_buffer :: "nat \<Rightarrow> (reader, 'a) op \<Rightarrow> bool" where
  "fixed_buffer b m \<equiv> keeps (\<lambda>r. bufEnd r = b) m"

lemma fixed_getFromStream: "fixed_buffer b (getFromStream p n)"
  by (auto simp: keeps_def getFromStream_def Let_def split: prod.split sum.split)

lemma fixed_skip_blocks: "bufEnd (snd (skip_blocks sz n r)) = bufEnd r"
proof (induction sz n r rule: skip_blocks.induct)
  case (1 sz n r)
  show ?case
  proof (cases "n < sz \<and> n \<noteq> 0")
    case True
    then show ?thesis using "1.IH" [OF True]
      by (subst skip_blocks.simps) (auto split: prod.split sum.split)
  qed (subst skip_blocks.simps, auto)
qed

lemma fixed_skipStream: "fixed_buffer b (skipStream p n)"
proof
  fix r :: reader assume r: "bufEnd r = b"
  have "bufEnd (snd (skip_blocks x y r)) = b" for x y using fixed_skip_blocks r by simp
  then show "bufEnd (snd (skipStream p n r)) = b"
    using r by (auto simp: skipStream_def Let_def split: prod.split sum.split) (metis snd_conv)+
qed

lemma keeps_class: "(\<And>c. keeps P (f c)) \<Longrightarrow> keeps P (case c of BaseReader \<Rightarrow> f BaseReader | MsgReader \<Rightarrow> f MsgReader)"
  by (cases c) simp_all

lemma fixed_virtual: "fixed_buffer b (vget p n)" "fixed_buffer b (vskip p n)"
proof -
  have g: "fixed_buffer b (get_inl p n)" for p n
    unfolding get_inl_def by (intro keeps_rules fixed_getFromStream) simp
  have s: "fixed_buffer b (skip_inl p n)" for p n
    unfolding skip_inl_def seqs.simps by (intro keeps_rules fixed_skipStream) simp
  have "fixed_buffer b (DataReaderMsg_get p n)"
    unfolding DataReaderMsg_get_def by (intro keeps_rules g) simp_all
  then show "fixed_buffer b (vget p n)"
    unfolding vget_def using g by (intro keeps_bnd keeps_gets) (auto split: reader_class.split)
  have "fixed_buffer b (DataReaderMsg_skip p n)"
    unfolding DataReaderMsg_skip_def Let_def seqs.simps by (intro keeps_rules s) simp_all
  then show "fixed_buffer b (vskip p n)"
    unfolding vskip_def using s by (intro keeps_bnd keeps_gets) (auto split: reader_class.split)
qed

lemma fixed_requests: "fixed_buffer b (bytes n)" "fixed_buffer b (peek n)" "fixed_buffer b (skip n)" "fixed_buffer b (getBytes n)"
proof -
  show "fixed_buffer b (bytes n)" unfolding bytes_def onReadBarrier_def by (intro keeps_rules fixed_virtual) simp_all
  show "fixed_buffer b (peek n)" unfolding peek_def onPeekBarrier_def by (intro keeps_rules fixed_virtual) simp_all
  show "fixed_buffer b (skip n)" unfolding skip_def onSkipBarrier_def by (intro keeps_rules fixed_virtual) simp_all
  have "fixed_buffer b (getBytes_loop k p acc m)" for k p acc m
  proof (induction k arbitrary: p acc m)
    case (Suc k)
    show ?case unfolding getBytes_loop.simps Let_def by (intro keeps_rules fixed_virtual Suc) simp_all
  qed (simp only: getBytes_loop.simps keeps_throw)
  then show "fixed_buffer b (getBytes n)" unfolding getBytes_def by (intro keeps_rules)
qed

lemma same_buffer:
  "bytes n r = (x, r') \<Longrightarrow> bufEnd r' = bufEnd r" "peek n r = (x, r') \<Longrightarrow> bufEnd r' = bufEnd r"
  "skip n r = (y, r') \<Longrightarrow> bufEnd r' = bufEnd r" "getBytes n r = (z, r') \<Longrightarrow> bufEnd r' = bufEnd r"
  using keepsD [OF fixed_requests(1) [of "bufEnd r"] refl] keepsD [OF fixed_requests(2) [of "bufEnd r"] refl]
    keepsD [OF fixed_requests(3) [of "bufEnd r"] refl] keepsD [OF fixed_requests(4) [of "bufEnd r"] refl]
  by (metis snd_conv)+

section \<open>Sources of bytes\<close>

text \<open>Every property that consuming keeps gives a source.\<close>

lemma consuming_source:
  assumes ok: "\<And>r. P r \<Longrightarrow> msg_ok r"
    and step: "\<And>n r r'. P r \<Longrightarrow> consumes n r r' \<Longrightarrow> bufEnd r' = bufEnd r \<Longrightarrow> n \<le> length (pend_msg r) \<Longrightarrow> P r'"
  shows "copying_source P pend_msg"
proof unfold_locales
  fix r n assume i: "P r" and n: "n \<le> READ_BUFFER_SIZE" "n \<le> length (pend_msg r)"
  have c: "n \<le> content_left r \<and> n \<le> length (stream_left r)" using n(2) by (simp add: length_pend_msg)
  have t: "take n (pend_msg r) = take n (stream_left r)" using n(2) by (rule take_pend)
  from msg_bytes [OF ok [OF i] n(1)] c obtain q r' where q: "bytes n r = (Inr q, r')"
    "load_bytes (rmem r') q n = take n (stream_left r)" "consumes n r r'" by auto
  moreover have "bufEnd r' = bufEnd r" by (rule same_buffer(1) [OF q(1)])
  ultimately show "\<exists>p r'. bytes n r = (Inr p, r') \<and> load_bytes (rmem r') p n = take n (pend_msg r) \<and>
      pend_msg r' = drop n (pend_msg r) \<and> P r'"
    using consumes_pend [OF q(3)] step [OF i q(3) _ n(2)] t by auto
  from msg_peek [OF ok [OF i] n(1)] c obtain q r' where p: "peek n r = (Inr q, r')"
    "load_bytes (rmem r') q n = take n (stream_left r)" "consumes 0 r r'" by auto
  moreover have "bufEnd r' = bufEnd r" by (rule same_buffer(2) [OF p(1)])
  ultimately show "\<exists>p r'. peek n r = (Inr p, r') \<and> load_bytes (rmem r') p n = take n (pend_msg r) \<and>
      pend_msg r' = pend_msg r \<and> P r'"
    using consumes_pend [OF p(3)] step [OF i p(3)] t by auto
next
  fix r n assume "P r" "n \<le> READ_BUFFER_SIZE" "length (pend_msg r) < n"
  then show "\<exists>e r'. bytes n r = (Inl e, r')" using msrc.bytes_short ok by blast
next
  fix r n assume i: "P r" and n: "n \<le> length (pend_msg r)"
  then have "n \<le> content_left r \<and> n \<le> length (stream_left r)" by (simp add: length_pend_msg)
  with msg_skip [OF ok [OF i], of n] obtain r' where s: "skip n r = (Inr (), r')" "consumes n r r'" by auto
  moreover have "bufEnd r' = bufEnd r" by (rule same_buffer(3) [OF s(1)])
  ultimately show "\<exists>r'. skip n r = (Inr (), r') \<and> pend_msg r' = drop n (pend_msg r) \<and> P r'"
    using consumes_pend step [OF i _ _ n] by auto
next
  fix r n assume "P r" "length (pend_msg r) < n"
  then show "\<exists>e r'. skip n r = (Inl e, r')" using msrc.skip_short ok by blast
next
  fix r assume "P r" "pend_msg r \<noteq> []"
  then show "\<not> endOfContent r" using msrc.pending_not_end ok by blast
next
  fix r n assume i: "P r" and n: "n \<le> length (pend_msg r)"
  then have c: "n \<le> content_left r \<and> n \<le> length (stream_left r)" by (simp add: length_pend_msg)
  have t: "take n (pend_msg r) = take n (stream_left r)" using n by (rule take_pend)
  from getBytes_enough [OF ok [OF i], of n] c obtain r' where g: "getBytes n r = (Inr (take n (stream_left r)), r')" "consumes n r r'"
    by auto
  moreover have "bufEnd r' = bufEnd r" by (rule same_buffer(4) [OF g(1)])
  ultimately show "\<exists>r'. getBytes n r = (Inr (take n (pend_msg r)), r') \<and> pend_msg r' = drop n (pend_msg r) \<and> P r'"
    using consumes_pend step [OF i _ _ n] t by auto
next
  fix r n assume "P r" "length (pend_msg r) < n"
  then show "\<exists>e r'. getBytes n r = (Inl e, r')" using mcopy.copy_short ok by blast
qed

text \<open>The sizes that keep the unlimited content end above all addresses.\<close>

definition sized :: "reader \<Rightarrow> bool" where
  "sized r \<longleftrightarrow> msg_ok r \<and> rdepth r = 0 \<and> bufEnd r \<le> 2 ^ 62 \<and> length (stream_left r) \<le> 2 ^ 62"

definition at_record :: "reader \<Rightarrow> bool" where
  "at_record r \<longleftrightarrow> sized r \<and> length (stream_left r) \<le> content_left r"

definition in_message :: "byte list \<Rightarrow> reader \<Rightarrow> bool" where
  "in_message rest r \<longleftrightarrow> sized r \<and> content_left r \<le> length (stream_left r) \<and> drop (content_left r) (stream_left r) = rest"

lemma sized_consumes: "sized r \<Longrightarrow> consumes n r r' \<Longrightarrow> bufEnd r' = bufEnd r \<Longrightarrow> sized r'"
  by (auto simp: sized_def consumes_def nest_frame_def)

lemma at_record_pend: "at_record r \<Longrightarrow> pend_msg r = stream_left r"
  by (simp add: at_record_def pend_msg_def)

lemma in_message_stream: "in_message rest r \<Longrightarrow> stream_left r = pend_msg r @ rest" "in_message rest r \<Longrightarrow> length (pend_msg r) = content_left r"
  unfolding in_message_def pend_msg_def by (metis append_take_drop_id) simp

interpretation rec_src: copying_source at_record pend_msg
proof (rule consuming_source)
  show "at_record r \<Longrightarrow> msg_ok r" for r by (simp add: at_record_def sized_def)
  fix n r r' assume a: "at_record r" "consumes n r r'" "bufEnd r' = bufEnd r" "n \<le> length (pend_msg r)"
  then have "length (stream_left r') \<le> content_left r'" by (auto simp: at_record_def consumes_def)
  then show "at_record r'" using sized_consumes a by (auto simp: at_record_def)
qed

interpretation body_src: copying_source "in_message rest" pend_msg for rest
proof (rule consuming_source)
  show "in_message rest r \<Longrightarrow> msg_ok r" for r by (simp add: in_message_def sized_def)
  fix n r r' assume a: "in_message rest r" "consumes n r r'" "bufEnd r' = bufEnd r" "n \<le> length (pend_msg r)"
  then have n: "n \<le> content_left r" using in_message_stream(2) by simp
  have "drop (content_left r') (stream_left r') = drop (content_left r) (stream_left r)"
    using a(2) unfolding consumes_def by (metis add.commute drop_drop)
  then show "in_message rest r'" using sized_consumes a n by (auto simp: in_message_def consumes_def)
qed

section \<open>Message boundaries\<close>

lemma reset_at_record:
  assumes "sized r"
  shows "\<exists>r'. resetMessageSize r = (Inr (), r') \<and> at_record r' \<and> pend_msg r' = stream_left r \<and> rdataPtr r' = rdataPtr r"
proof -
  let ?r = "r\<lparr>contentEnd := no_content_end, rdataEnd := dataEnd0 r\<rparr>"
  have ok: "msg_ok r" "bufEnd r \<le> 2 ^ 62" "length (stream_left r) \<le> 2 ^ 62" using assms by (simp_all add: sized_def)
  then have p: "rdataPtr r \<le> streamDataEnd r" "streamDataEnd r \<le> 2 ^ 62" by (auto simp: msg_ok_def buffer_ok_def)
  have big: "2 ^ 62 + 2 ^ 62 \<le> no_content_end" by (simp add: no_content_end_def READ_BUFFER_SIZE_def)
  have s: "stream_left ?r = stream_left r" by (simp add: stream_left_def view_def)
  have "msg_ok ?r" using ok p big by (auto simp: msg_ok_def buffer_ok_def)
  moreover have "length (stream_left r) \<le> content_left ?r" using ok(3) p big by (simp add: content_left_def)
  ultimately have "at_record ?r" using assms s by (simp add: at_record_def sized_def)
  then show ?thesis using at_record_pend s by (intro exI [of _ ?r]) (simp add: resetMessageSize_def modify_run)
qed

lemma enter_message:
  assumes "at_record r" "pend_msg r = body @ rest"
  shows "\<exists>r'. setMessageSize (length body) r = (Inr (), r') \<and> in_message rest r' \<and> pend_msg r' = body"
proof -
  let ?e = "rdataPtr r + length body"
  let ?r = "r\<lparr>contentEnd := ?e, dataEnd0 := rdataEnd r, rdataEnd := min (rdataEnd r) ?e, rdepth := 0\<rparr>"
  have sl: "stream_left r = body @ rest" "length (stream_left r) \<le> content_left r" "sized r"
    using assms at_record_pend by (auto simp: at_record_def)
  have ok: "msg_ok r" using sl(3) by (simp add: sized_def)
  have "streamDataEnd r \<le> contentEnd r"
    using ok sl(2) by (auto simp: msg_ok_def buffer_ok_def stream_left_def length_view content_left_def)
  then have de: "rdataEnd r = streamDataEnd r" using ok by (simp add: msg_ok_def)
  have s: "stream_left ?r = body @ rest" using sl(1) by (simp add: stream_left_def view_def)
  have "msg_ok ?r" using ok de by (auto simp: msg_ok_def buffer_ok_def)
  then have "in_message rest ?r" using sl(1,3) s by (simp add: in_message_def sized_def content_left_def)
  moreover have "pend_msg ?r = body" using s by (simp add: pend_msg_def content_left_def)
  ultimately show ?thesis by (intro exI [of _ ?r]) (simp add: setMessageSize_def modify_run Let_def)
qed

text \<open>From anywhere in a message to the record behind it.\<close>

lemma leave_message:
  assumes "in_message rest r"
  shows "\<exists>r'. nextMessage r = (Inr (), r') \<and> at_record r' \<and> pend_msg r' = rest"
proof (cases "contentEnd r - rdataPtr r = 0")
  case True
  have sz: "sized r" "rdepth r = 0" using assms by (simp_all add: in_message_def sized_def)
  have "stream_left r = rest" using in_message_stream [OF assms] True by (simp add: content_left_def)
  then show ?thesis using reset_at_record [OF sz(1)] True sz(2)
    by (auto simp: nextMessage_def andthen_def bnd_def gets_def whenM_def ret_def)
next
  case False
  have sz: "sized r" "rdepth r = 0" using assms by (simp_all add: in_message_def sized_def)
  have same: "r\<lparr>rdepth := 0\<rparr> = r" "r\<lparr>contentEnd := contentEnd r, rdepth := 0\<rparr> = r" using sz(2) by (cases r, simp)+
  obtain r1 where r1: "resetMessageSize r = (Inr (), r1)" "at_record r1" "pend_msg r1 = stream_left r" using reset_at_record [OF sz(1)] by blast
  have n: "content_left r \<le> length (pend_msg r1)" using r1(3) assms by (simp add: in_message_def)
  obtain r2 where r2: "skip (content_left r) r1 = (Inr (), r2)" "at_record r2" "pend_msg r2 = drop (content_left r) (pend_msg r1)"
    using rec_src.skip_enough [OF r1(2) n] by blast
  have "sized r2" "stream_left r2 = rest" using r2(2,3) r1(3) assms at_record_pend by (auto simp: at_record_def in_message_def)
  then obtain r3 where r3: "resetMessageSize r2 = (Inr (), r3)" "at_record r3" "pend_msg r3 = rest" using reset_at_record by blast
  have "skipUnreadMessageBody r = (Inr (), r2)"
    using r1(1) r2(1)
    by (simp add: sz(2) same(1) skipUnreadMessageBody_def bnd_ok [of "gets _"] gets_run andthen_ok [of "modify _"] modify_run andthen_ok content_left_def)
  then show ?thesis using r3 False by (simp add: nextMessage_def andthen_def bnd_def gets_def whenM_def)
qed

end
