(* ===== verification/CursorDelivery.thy ===== *)
theory CursorDelivery
  imports CursorReader
begin

text \<open>
  What a cursor delivers. The bytes that the server sends are an encoding of announcements and blocks of
  messages; the reference is the list of those messages that the subscription accepts by the names of their symbol and
  type. CursorTheorems shows that the calls of \<^verbatim>\<open>next\<close> return exactly these.
\<close>

section \<open>What the server sends\<close>

record cursor_message =
  cmTime :: "64 word"
  cmEntity :: nat
  cmType :: nat
  cmStream :: "8 word"
  cmBody :: "byte list"

definition entity_bytes :: "32 word \<Rightarrow> byte list" where
  "entity_bytes i =
     (if i < 0x8000 then be_bytes 2 (ucast i :: 16 word)
      else be_bytes 2 (ucast (drop_bit 16 i + 0x8000) :: 16 word) @ be_bytes 2 (ucast i :: 16 word))"

definition message_content :: "cursor_message \<Rightarrow> byte list" where
  "message_content m = be_bytes 8 (cmTime m) @ entity_bytes (of_nat (cmEntity m)) @ of_nat (cmType m) # cmStream m # cmBody m"

definition message_bytes :: "cursor_message \<Rightarrow> byte list" where
  "message_bytes m = be_bytes 4 (of_nat (length (message_content m)) :: 32 word) @ message_content m"

datatype server_record =
    NewSymbol "byte list"
  | NewType "byte list"
  | NewStream "byte list"
  | Ping
  | Messages "cursor_message list"

text \<open>What has been announced: the symbols, the names and GUIDs of the types, the number of streams.\<close>

record announced =
  anSymbols :: "string list"
  anTypes :: "(string \<times> string) list"
  anStreams :: nat

fun announce :: "(byte list \<Rightarrow> (string \<times> string) option) \<Rightarrow> server_record \<Rightarrow> announced \<Rightarrow> announced" where
  "announce parse (NewSymbol bs) v = v\<lparr>anSymbols := anSymbols v @ [bytes_string bs]\<rparr>"
| "announce parse (NewType bs) v = v\<lparr>anTypes := anTypes v @ [the (parse bs)]\<rparr>"
| "announce parse (NewStream bs) v = v\<lparr>anStreams := Suc (anStreams v)\<rparr>"
| "announce parse _ v = v"

definition block_bytes :: "cursor_message list \<Rightarrow> byte list" where
  "block_bytes ms = concat (map message_bytes ms) @ be_bytes 4 MESSAGE_BLOCK_TERMINATOR_RECORD"

fun record_bytes :: "announced \<Rightarrow> server_record \<Rightarrow> byte list" where
  "record_bytes v (NewSymbol bs) = INSTRUMENT_BLOCK_ID # entity_bytes (of_nat (length (anSymbols v))) @ utf8_bytes (Some bs)"
| "record_bytes v (NewType bs) = TYPE_BLOCK_ID # be_bytes 2 (of_nat (length (anTypes v)) :: 16 word) @ utf8_bytes (Some bs)"
| "record_bytes v (NewStream bs) = STREAM_BLOCK_ID # of_nat (anStreams v) # utf8_bytes (Some bs)"
| "record_bytes v Ping = [PING_BLOCK_ID]"
| "record_bytes v (Messages ms) = MESSAGE_BLOCK_ID # block_bytes ms"

fun records_bytes :: "(byte list \<Rightarrow> (string \<times> string) option) \<Rightarrow> announced \<Rightarrow> server_record list \<Rightarrow> byte list" where
  "records_bytes parse v [] = []"
| "records_bytes parse v (x # xs) = record_bytes v x @ records_bytes parse (announce parse x v) xs"

text \<open>The limits of the protocol and of the code.\<close>

definition message_valid :: "announced \<Rightarrow> cursor_message \<Rightarrow> bool" where
  "message_valid v m \<longleftrightarrow> cmEntity m < length (anSymbols v) \<and> cmType m < length (anTypes v) \<and>
     stream_of_byte (cmStream m) < int (anStreams v) \<and> 14 \<le> length (message_content m) \<and> length (message_content m) \<le> MAX_MESSAGE_SIZE"

fun record_valid :: "(byte list \<Rightarrow> (string \<times> string) option) \<Rightarrow> announced \<Rightarrow> server_record \<Rightarrow> bool" where
  "record_valid parse v (NewSymbol bs) \<longleftrightarrow> length bs < 0xFFFF \<and> bytes_string bs \<notin> set (anSymbols v) \<and> length (anSymbols v) < 0x10000"
| "record_valid parse v (NewType bs) \<longleftrightarrow> length bs < 0xFFFF \<and> parse bs \<noteq> None \<and> length (anTypes v) < 0x100"
| "record_valid parse v (NewStream bs) \<longleftrightarrow> length bs < 0xFFFF \<and> anStreams v < 0xFF"
| "record_valid parse v Ping \<longleftrightarrow> True"
| "record_valid parse v (Messages ms) \<longleftrightarrow> list_all (message_valid v) ms"

fun records_valid :: "(byte list \<Rightarrow> (string \<times> string) option) \<Rightarrow> announced \<Rightarrow> server_record list \<Rightarrow> bool" where
  "records_valid parse v [] \<longleftrightarrow> True"
| "records_valid parse v (x # xs) \<longleftrightarrow> record_valid parse v x \<and> records_valid parse (announce parse x v) xs"

section \<open>The reference\<close>

text \<open>A message is skipped if the subscription skips its symbol or its type, unless it is a system message.\<close>

definition accepts :: "(string \<Rightarrow> bool) \<Rightarrow> (string \<Rightarrow> bool) \<Rightarrow> announced \<Rightarrow> cursor_message \<Rightarrow> bool" where
  "accepts symbolSkipped typeSkipped v m \<longleftrightarrow>
     isSystemMessageGuid (snd (anTypes v ! cmType m)) \<or>
     \<not> typeSkipped (fst (anTypes v ! cmType m)) \<and> \<not> symbolSkipped (anSymbols v ! cmEntity m)"

fun delivered_messages ::
    "(byte list \<Rightarrow> (string \<times> string) option) \<Rightarrow> (string \<Rightarrow> bool) \<Rightarrow> (string \<Rightarrow> bool) \<Rightarrow> announced \<Rightarrow> server_record list \<Rightarrow> cursor_message list" where
  "delivered_messages parse f g v [] = []"
| "delivered_messages parse f g v (x # xs) =
     (case x of Messages ms \<Rightarrow> filter (accepts f g v) ms | _ \<Rightarrow> []) @ delivered_messages parse f g (announce parse x v) xs"

section \<open>What the cursor knows\<close>

definition knows :: "cursor \<Rightarrow> announced \<Rightarrow> bool" where
  "knows c v \<longleftrightarrow>
     (let t = subTables (shadow_of c) in
      (\<forall>i < length (anSymbols v). s2i (instruments t) (anSymbols v ! i) = Some (of_nat i)) \<and>
      biSize (instruments t) = length (anSymbols v) \<and> dom (s2i (instruments t)) = set (anSymbols v) \<and>
      map typeName (messageDescriptors t) = map fst (anTypes v) \<and> length (typeList t) \<le> length (anTypes v) \<and>
      (\<forall>i < 0x100. isSystemMessage c ! i = (i < length (anTypes v) \<and> isSystemMessageGuid (snd (anTypes v ! i)))) \<and>
      lutSize (streamKeys t) = anStreams v \<and> streamIndex t = Map.empty)"

text \<open>The parts of the cursor that these properties look at.\<close>

definition core :: "cursor \<Rightarrow> _" where
  "core c = (let s = shadow_of c in (subTables s, isSymbolSkipped s, isUnregisteredSymbolSkipped s, isMessageDescriptorSkipped s,
     isUnregisteredMessageTypeSkipped s, isResetInProgress s, isExecutingSubscriptions s, isSystemMessage c, cUseEntityId32 c,
     isInterrupted c, connected c, isOpen c))"

definition follows :: "(string \<Rightarrow> bool) \<Rightarrow> (string \<Rightarrow> bool) \<Rightarrow> announced \<Rightarrow> cursor \<Rightarrow> bool" where
  "follows f g v c \<longleftrightarrow> cursor_ok c \<and> filters_ok (shadow_of c) \<and> \<not> isResetInProgress (shadow_of c) \<and> cUseEntityId32 c \<and>
     symbol_skipped (shadow_of c) = f \<and> type_skipped (shadow_of c) = g \<and> knows c v"

lemma follows_core:
  assumes "core c' = core c" "cursor_ok c'" "follows f g v c"
  shows "follows f g v c'"
proof -
  have "symbol_part (shadow_of c') = symbol_part (shadow_of c)" "type_part (shadow_of c') = type_part (shadow_of c)"
    using assms(1) by (simp_all add: core_def symbol_part_def type_part_def Let_def)
  note p = parts_decide(1) [OF this(1)] parts_decide(2) [OF this(2)]
  show ?thesis using assms p by (simp add: follows_def filters_ok_def knows_def core_def Let_def)
qed

section \<open>Positions\<close>

definition cur_at :: "cursor \<Rightarrow> byte list \<Rightarrow> bool" where
  "cur_at c bs \<longleftrightarrow> readerValid c \<and> at_record (creader c) \<and> pend_msg (creader c) = bs"

definition cur_in :: "cursor \<Rightarrow> byte list \<Rightarrow> byte list \<Rightarrow> bool" where
  "cur_in c body rest \<longleftrightarrow> readerValid c \<and> in_message rest (creader c) \<and> pend_msg (creader c) = body"

lemma on_reader_run: "readerValid c \<Longrightarrow> m (creader c) = (x, r) \<Longrightarrow> on_reader m c = (x, c\<lparr>creader := r\<rparr>)"
  by (simp add: on_reader_def)

lemma cur_at_reads:
  assumes "reads at_record pend_msg m bs x" "cur_at c (bs @ rest)"
  shows "\<exists>r. on_reader m c = (Inr x, c\<lparr>creader := r\<rparr>) \<and> cur_at (c\<lparr>creader := r\<rparr>) rest"
  using readsD [OF assms(1), of "creader c" rest] assms(2) by (auto simp: cur_at_def on_reader_run)

lemma cur_in_reads:
  assumes "\<And>rest. reads (in_message rest) pend_msg m bs x" "cur_in c (bs @ body) rest"
  shows "\<exists>r. on_reader m c = (Inr x, c\<lparr>creader := r\<rparr>) \<and> cur_in (c\<lparr>creader := r\<rparr>) body rest"
  using readsD [OF assms(1), of rest "creader c" body] assms(2) by (auto simp: cur_in_def on_reader_run)

text \<open>A 31-bit number of a symbol, in two halves if it is large.\<close>

lemma sint_shift: "sint (w :: 16 word) = (uint w + 0x8000) mod 0x10000 - 0x8000"
  by (simp add: sint_uint signed_take_bit_eq_take_bit_shift take_bit_eq_mod)

lemma sint_scast_up: "sint (scast (w :: 16 word) :: 32 word) = sint w" "scast w = (word_of_int (sint w) :: 32 word)"
proof -
  have b: "- 0x8000 \<le> sint w" "sint w < 0x8000" using sint_ge [of w] sint_less [of w] by simp_all
  have "sint (word_of_int (sint w) :: 32 word) = signed_take_bit 31 (sint w)" using sint_sbintrunc' [of "sint w", where ?'a = 32] by simp
  also have "\<dots> = sint w"
  proof (rule signed_take_bit_int_eq_self)
    show "- (2 ^ 31) \<le> sint w" "sint w < 2 ^ 31" using b by simp_all
  qed
  finally show "sint (scast w :: 32 word) = sint w" by (simp only: scast_eq)
  show "scast w = (word_of_int (sint w) :: 32 word)" by (rule scast_eq)
qed

lemma entity_halves:
  fixes i :: "32 word"
  assumes "i < 0x80000000"
  shows "(let v = ucast (drop_bit 16 i + 0x8000) :: 16 word in
     sint (scast v :: 32 word) < 0 \<and> push_bit 16 (scast v :: 32 word) + ucast (ucast i :: 16 word) + 0x80000000 = i)"
proof -
  define h where "h = uint i div 0x10000"
  have i: "0 \<le> uint i" "uint i < 0x80000000" using assms by (simp_all add: word_less_def)
  have h: "0 \<le> h" "h < 0x8000" using i by (simp_all add: h_def pos_imp_zdiv_nonneg_iff)
  have "uint (drop_bit 16 i) = drop_bit 16 (uint i)"
    using i by (simp add: unsigned_drop_bit_eq take_bit_int_eq_self)
  then have d: "uint (drop_bit 16 i) = h" by (simp add: h_def drop_bit_eq_div)
  let ?v = "ucast (drop_bit 16 i + 0x8000) :: 16 word"
  have "uint (drop_bit 16 i + 0x8000) = h + 0x8000" using d h by (simp add: uint_word_arith_bintrs take_bit_int_eq_self)
  then have u: "uint ?v = h + 0x8000" using h by (simp add: unsigned_ucast_eq take_bit_int_eq_self)
  have "sint ?v = (h + 1 * 0x10000) mod 0x10000 - 0x8000" using u by (simp add: sint_shift)
  then have sv: "sint ?v = h - 0x8000" unfolding mod_mult_self1 using h by simp
  have neg: "sint (scast ?v :: 32 word) < 0" using h sv by (simp add: sint_scast_up(1))
  have "push_bit 16 (scast ?v :: 32 word) = word_of_int ((h - 0x8000) * 0x10000)"
    by (simp add: sint_scast_up(2) sv push_bit_eq_mult)
  moreover have "uint (ucast i :: 16 word) = uint i mod 0x10000" by (simp add: unsigned_ucast_eq take_bit_eq_mod)
  then have "(ucast (ucast i :: 16 word) :: 32 word) = word_of_int (uint i mod 0x10000)"
    by (simp only: ucast_eq [of "ucast i :: 16 word"])
  ultimately have "push_bit 16 (scast ?v :: 32 word) + ucast (ucast i :: 16 word) + 0x80000000 =
      word_of_int ((h - 0x8000) * 0x10000 + uint i mod 0x10000 + 0x80000000)"
    by simp
  also have "(h - 0x8000) * 0x10000 + uint i mod 0x10000 + 0x80000000 = uint i"
    unfolding h_def by (simp add: algebra_simps)
  finally show ?thesis using neg by (simp add: Let_def)
qed

lemma entity_small:
  fixes i :: "32 word"
  assumes "i < 0x8000"
  shows "\<not> sint i < 0 \<and> scast (ucast i :: 16 word) = i"
proof -
  have i: "0 \<le> uint i" "uint i < 0x8000" using assms by (simp_all add: word_less_def)
  then have "uint (ucast i :: 16 word) = uint i" by (simp add: unsigned_ucast_eq take_bit_int_eq_self)
  then have s: "sint (ucast i :: 16 word) = uint i" using i by (simp add: sint_shift)
  have "sint (scast (ucast i :: 16 word) :: 32 word) = uint i" using s by (simp only: sint_scast_up(1))
  moreover have "(scast (ucast i :: 16 word) :: 32 word) = i" by (simp only: sint_scast_up(2) s word_of_int_uint)
  ultimately show ?thesis using i(1) by simp
qed

lemma readEntityId_body:
  assumes "cUseEntityId32 c" "i < 0x80000000" "cur_in c (entity_bytes i @ body) rest"
  shows "\<exists>r. readEntityId chk c = (Inr i, c\<lparr>creader := r\<rparr>) \<and> cur_in (c\<lparr>creader := r\<rparr>) body rest"
proof (cases "i < 0x8000")
  case True
  then obtain r where r: "on_reader getUInt16 c = (Inr (ucast i), c\<lparr>creader := r\<rparr>)" "cur_in (c\<lparr>creader := r\<rparr>) body rest"
    using cur_in_reads [OF body_src.reads_getUInt16, of c "ucast i" body rest] assms(3) by (auto simp: entity_bytes_def)
  then have "readEntityId chk c = (Inr i, c\<lparr>creader := r\<rparr>)"
    using entity_small [OF True] by (simp add: readEntityId_def bnd_ok ret_run Let_def)
  then show ?thesis using r(2) by blast
next
  case False
  let ?v = "ucast (drop_bit 16 i + 0x8000) :: 16 word"
  obtain r where r: "on_reader getUInt16 c = (Inr ?v, c\<lparr>creader := r\<rparr>)"
      "cur_in (c\<lparr>creader := r\<rparr>) (be_bytes 2 (ucast i :: 16 word) @ body) rest"
    using cur_in_reads [OF body_src.reads_getUInt16, of c ?v "be_bytes 2 (ucast i :: 16 word) @ body" rest] assms(3) False
    by (auto simp: entity_bytes_def)
  obtain r' where r': "on_reader getUInt16 (c\<lparr>creader := r\<rparr>) = (Inr (ucast i), c\<lparr>creader := r'\<rparr>)" "cur_in (c\<lparr>creader := r'\<rparr>) body rest"
    using cur_in_reads [OF body_src.reads_getUInt16 r(2)] by auto
  then have "readEntityId chk c = (Inr i, c\<lparr>creader := r'\<rparr>)"
    using r(1) entity_halves [OF assms(2)] assms(1) by (simp add: readEntityId_def bnd_ok gets_run ret_run Let_def)
  then show ?thesis using r'(2) by blast
qed

lemma readEntityId_record:
  assumes "cUseEntityId32 c" "i < 0x80000000" "cur_at c (entity_bytes i @ rest)"
  shows "\<exists>r. readEntityId chk c = (Inr i, c\<lparr>creader := r\<rparr>) \<and> cur_at (c\<lparr>creader := r\<rparr>) rest"
proof (cases "i < 0x8000")
  case True
  then obtain r where r: "on_reader getUInt16 c = (Inr (ucast i), c\<lparr>creader := r\<rparr>)" "cur_at (c\<lparr>creader := r\<rparr>) rest"
    using cur_at_reads [OF rec_src.reads_getUInt16, of c "ucast i" rest] assms(3) by (auto simp: entity_bytes_def)
  then have "readEntityId chk c = (Inr i, c\<lparr>creader := r\<rparr>)"
    using entity_small [OF True] by (simp add: readEntityId_def bnd_ok ret_run Let_def)
  then show ?thesis using r(2) by blast
next
  case False
  let ?v = "ucast (drop_bit 16 i + 0x8000) :: 16 word"
  obtain r where r: "on_reader getUInt16 c = (Inr ?v, c\<lparr>creader := r\<rparr>)"
      "cur_at (c\<lparr>creader := r\<rparr>) (be_bytes 2 (ucast i :: 16 word) @ rest)"
    using cur_at_reads [OF rec_src.reads_getUInt16, of c ?v "be_bytes 2 (ucast i :: 16 word) @ rest"] assms(3) False
    by (auto simp: entity_bytes_def)
  obtain r' where r': "on_reader getUInt16 (c\<lparr>creader := r\<rparr>) = (Inr (ucast i), c\<lparr>creader := r'\<rparr>)" "cur_at (c\<lparr>creader := r'\<rparr>) rest"
    using cur_at_reads [OF rec_src.reads_getUInt16 r(2)] by auto
  then have "readEntityId chk c = (Inr i, c\<lparr>creader := r'\<rparr>)"
    using r(1) entity_halves [OF assms(2)] assms(1) by (simp add: readEntityId_def bnd_ok gets_run ret_run Let_def)
  then show ?thesis using r'(2) by blast
qed

section \<open>One message\<close>

lemma cur_congs:
  "readerValid c' = readerValid c \<Longrightarrow> creader c' = creader c \<Longrightarrow> cur_at c' bs = cur_at c bs"
  "readerValid c' = readerValid c \<Longrightarrow> creader c' = creader c \<Longrightarrow> cur_in c' body rest = cur_in c body rest"
  by (simp_all add: cur_at_def cur_in_def)

definition header_fields_of :: "cursor_message \<Rightarrow> message_header \<Rightarrow> message_header" where
  "header_fields_of m h = h\<lparr>msgTimestamp := cmTime m, msgEntityId := of_nat (cmEntity m), msgTypeId := of_nat (cmType m),
     msgStreamId := stream_of_byte (cmStream m)\<rparr>"

lemma read_message_fields_run:
  assumes "cUseEntityId32 c" "cmEntity m < 0x80000000" "cmType m < 0x100" "cur_in c (message_content m) rest"
  shows "\<exists>r. read_message_fields c =
      (Inr (), c\<lparr>creader := r, header := header_fields_of m (header c), lastTimestamp := cmTime m\<rparr>) \<and>
    cur_in (c\<lparr>creader := r, header := header_fields_of m (header c), lastTimestamp := cmTime m\<rparr>) (cmBody m) rest"
proof -
  let ?i = "of_nat (cmEntity m) :: 32 word"
  have i: "?i < 0x80000000" using assms(2) by (simp add: word_less_nat_alt unat_of_nat take_bit_nat_eq_self)
  have tp: "(ucast (of_nat (cmType m) :: 8 word) :: 32 word) = of_nat (cmType m)"
    using assms(3) by (simp add: word_unat_eq_iff unat_ucast_up unat_of_nat take_bit_nat_eq_self)
  obtain r1 where r1: "on_reader getUInt64 c = (Inr (cmTime m), c\<lparr>creader := r1\<rparr>)"
      "cur_in (c\<lparr>creader := r1\<rparr>) (entity_bytes ?i @ of_nat (cmType m) # cmStream m # cmBody m) rest"
    using cur_in_reads [OF body_src.reads_getUInt64, of c "cmTime m"] assms(4) unfolding message_content_def by blast
  let ?c1 = "c\<lparr>creader := r1, header := (header c)\<lparr>msgTimestamp := cmTime m\<rparr>, lastTimestamp := cmTime m\<rparr>"
  have p1: "cur_in ?c1 (entity_bytes ?i @ of_nat (cmType m) # cmStream m # cmBody m) rest"
    using r1(2) cur_congs(2) [of ?c1 "c\<lparr>creader := r1\<rparr>"] by simp
  have "cUseEntityId32 ?c1" using assms(1) by simp
  then obtain r2 where r2: "readEntityId False ?c1 = (Inr ?i, ?c1\<lparr>creader := r2\<rparr>)"
      "cur_in (?c1\<lparr>creader := r2\<rparr>) (of_nat (cmType m) # cmStream m # cmBody m) rest"
    using readEntityId_body [OF _ i p1] by blast
  let ?c2 = "?c1\<lparr>creader := r2, header := (header ?c1)\<lparr>msgEntityId := ?i\<rparr>\<rparr>"
  have p2: "cur_in ?c2 ([of_nat (cmType m)] @ cmStream m # cmBody m) rest"
    using r2(2) cur_congs(2) [of ?c2 "?c1\<lparr>creader := r2\<rparr>"] by simp
  obtain r3 where r3: "on_reader getByte ?c2 = (Inr (of_nat (cmType m)), ?c2\<lparr>creader := r3\<rparr>)"
      "cur_in (?c2\<lparr>creader := r3\<rparr>) (cmStream m # cmBody m) rest"
    using cur_in_reads [OF body_src.reads_getByte p2] by blast
  let ?c3 = "?c2\<lparr>creader := r3, header := (header ?c2)\<lparr>msgTypeId := of_nat (cmType m)\<rparr>\<rparr>"
  have p3: "cur_in ?c3 ([cmStream m] @ cmBody m) rest"
    using r3(2) cur_congs(2) [of ?c3 "?c2\<lparr>creader := r3\<rparr>"] by simp
  obtain r4 where r4: "on_reader getByte ?c3 = (Inr (cmStream m), ?c3\<lparr>creader := r4\<rparr>)" "cur_in (?c3\<lparr>creader := r4\<rparr>) (cmBody m) rest"
    using cur_in_reads [OF body_src.reads_getByte p3] by blast
  let ?c4 = "c\<lparr>creader := r4, header := header_fields_of m (header c), lastTimestamp := cmTime m\<rparr>"
  have "cur_in ?c4 (cmBody m) rest" using r4(2) cur_congs(2) [of ?c4 "?c3\<lparr>creader := r4\<rparr>"] by simp
  moreover have "read_message_fields c = (Inr (), ?c4)"
    using r1(1) r2(1) r3(1) r4(1) tp
    by (simp add: read_message_fields_def andthen_def bnd_def modify_def header_fields_of_def)
  ultimately show ?thesis by blast
qed

lemma main_is_shadow: "mainState c = shadowState c \<Longrightarrow> main_of c = shadow_of c"
  by (simp add: main_of_def shadow_of_def)

text \<open>After the switch both pointers are the same.\<close>

lemma switch_to_shadow_run:
  assumes "cursor_ok c"
  shows "\<exists>c'. switch_to_shadow c = (Inr (), c') \<and> core c' = core c \<and> cursor_ok c' \<and> main_of c' = shadow_of c' \<and>
    readerValid c' = readerValid c \<and> creader c' = creader c \<and> header c' = header c \<and> isWithinMessageBlock c' = isWithinMessageBlock c"
proof (cases "shadowCopyUpdated c")
  case False
  then show ?thesis using assms main_is_shadow [of c]
    by (intro exI [of _ c]) (simp add: switch_to_shadow_def bnd_ok gets_run whenM_simps cursor_ok_def)
next
  case True
  let ?c1 = "c\<lparr>mainState := shadowState c, shadowCopyUpdated := False\<rparr>"
  let ?s = "(shadow_of c)\<lparr>readingRestarted := False\<rparr>"
  let ?c2 = "?c1\<lparr>subState := (subState c)[shadowState c := ?s], cstate := STARTED\<rparr>"
  have m: "main_of ?c1 = shadow_of c" by (simp add: main_of_def shadow_of_def)
  have len: "shadowState c < length (subState c)" using assms by (simp add: cursor_ok_def)
  have run: "switch_to_shadow c = (Inr (), if readingRestarted (shadow_of c) then ?c2 else ?c1)"
    using True m by (simp add: switch_to_shadow_def bnd_ok gets_run whenM_simps andthen_ok modify_run on_main_def setCursorState_def)
  then have ok: "cursor_ok (if readingRestarted (shadow_of c) then ?c2 else ?c1)" using keepsD [OF safe_copies(4) assms] by simp
  show ?thesis
  proof (cases "readingRestarted (shadow_of c)")
    case r: True
    have s: "shadow_of ?c2 = ?s" "main_of ?c2 = ?s" using len by (simp_all add: shadow_of_def main_of_def)
    then have "core ?c2 = core c" by (simp add: core_def Let_def isExecutingSubscriptions_def)
    then show ?thesis using run ok r s by (intro exI [of _ ?c2]) simp
  next
    case r: False
    have "shadow_of ?c1 = shadow_of c" by (simp add: shadow_of_def)
    then have "core ?c1 = core c" by (simp add: core_def Let_def)
    then show ?thesis using run ok r m \<open>shadow_of ?c1 = shadow_of c\<close> by (intro exI [of _ ?c1]) simp
  qed
qed

lemma known_symbol:
  assumes "follows f g v c" "i < length (anSymbols v)"
  shows "s2i (instruments (subTables (shadow_of c))) (anSymbols v ! i) = Some (of_nat i)" "i < 0x10000"
    "unat (of_nat i :: 32 word) = i"
proof -
  show "s2i (instruments (subTables (shadow_of c))) (anSymbols v ! i) = Some (of_nat i)"
    using assms by (simp add: follows_def knows_def Let_def)
  have "length (anSymbols v) \<le> 0x10000" using assms(1) by (simp add: follows_def knows_def filters_ok_def symbols_ok_def Let_def)
  then show "i < 0x10000" using assms(2) by simp
  then show "unat (of_nat i :: 32 word) = i" by (simp add: unat_of_nat take_bit_nat_eq_self)
qed

lemma known_type:
  assumes "follows f g v c" "i < length (anTypes v)"
  shows "i < length (descriptors (shadow_of c))" "typeName (descriptors (shadow_of c) ! i) = fst (anTypes v ! i)" "i < 0x100"
    "unat (of_nat i :: 32 word) = i"
proof -
  have k: "map typeName (descriptors (shadow_of c)) = map fst (anTypes v)" "descriptors_ok (subTables (shadow_of c))"
    using assms(1) by (simp_all add: follows_def knows_def filters_ok_def types_ok_def Let_def)
  have l: "length (descriptors (shadow_of c)) = length (anTypes v)" using arg_cong [OF k(1), of length] by simp
  then show i: "i < length (descriptors (shadow_of c))" using assms(2) by simp
  show "typeName (descriptors (shadow_of c) ! i) = fst (anTypes v ! i)"
    using arg_cong [OF k(1), of "\<lambda>xs. xs ! i"] i assms(2) by simp
  show "i < 0x100" using i k(2) by (simp add: descriptors_ok_def)
  then show "unat (of_nat i :: 32 word) = i" by (simp add: small_words)
qed

text \<open>The three ids of a message are accepted, and the filter decides by the names.\<close>

lemma message_ids:
  assumes fo: "follows f g v c" and main: "main_of c = shadow_of c" and valid: "message_valid v m"
    and h: "msgEntityId (header c) = of_nat (cmEntity m)" "msgTypeId (header c) = of_nat (cmType m)"
      "msgStreamId (header c) = stream_of_byte (cmStream m)"
  shows "check_message_ids c = (Inr (), c)" "is_skipped c \<longleftrightarrow> \<not> accepts f g v m"
proof -
  let ?s = "shadow_of c"
  have lt: "cmEntity m < length (anSymbols v)" "cmType m < length (anTypes v)" "stream_of_byte (cmStream m) < int (anStreams v)"
    using valid by (simp_all add: message_valid_def)
  note sym = known_symbol [OF fo lt(1)] and ty = known_type [OF fo lt(2)]
  have sub: "bilut_ok (instruments (subTables ?s))" "lutSize (streamKeys (subTables ?s)) = anStreams v" "types_ok ?s"
    using fo by (simp_all add: follows_def knows_def filters_ok_def symbols_ok_def Let_def)
  have "bilut_contains_id (instruments (subTables ?s)) (cmEntity m)"
    using bilut_okD(2) [OF sub(1), of "anSymbols v ! cmEntity m" "of_nat (cmEntity m)"] sym
    by (simp add: bilut_contains_id_def bilut_name_def)
  then show "check_message_ids c = (Inr (), c)"
    using h lt(3) sym(3) ty(1,4) sub(2) main
    by (simp add: check_message_ids_def bnd_ok gets_run guard_def isRegisteredInstrumentId_def isRegisteredMsgDescId_def
        andthen_ok ret_run)
  have sys: "isSystemMessage c ! cmType m \<longleftrightarrow> isSystemMessageGuid (snd (anTypes v ! cmType m))" "\<not> isResetInProgress ?s"
    using fo lt(2) ty(3) by (simp_all add: follows_def knows_def Let_def)
  have "lut_get 0 (isSymbolSkipped ?s) (ucast (of_nat (cmEntity m) :: 32 word)) \<noteq> 0 \<longleftrightarrow> f (anSymbols v ! cmEntity m)"
    using sym(1) fo by (auto simp: follows_def symbol_skipped_def)
  moreover have "lut_get 0 (isMessageDescriptorSkipped ?s) (ucast (of_nat (cmType m) :: 32 word)) \<noteq> 0 \<longleftrightarrow> g (fst (anTypes v ! cmType m))"
    using type_skipped_descriptor [OF sub(3) ty(1)] ty(2) small_words(3) [OF ty(3)] fo by (auto simp: follows_def)
  ultimately show "is_skipped c \<longleftrightarrow> \<not> accepts f g v m"
    using sys main h ty(4) by (simp add: is_skipped_def accepts_def Let_def) blast
qed

definition header_is :: "cursor_message \<Rightarrow> message_header \<Rightarrow> bool" where
  "header_is m h \<longleftrightarrow> msgLength h = of_nat (length (message_content m)) \<and> msgTimestamp h = cmTime m \<and>
     msgEntityId h = of_nat (cmEntity m) \<and> msgTypeId h = of_nat (cmType m) \<and> msgStreamId h = stream_of_byte (cmStream m) \<and>
     msgCursorState h = READING"

lemma core_simps [simp]:
  "core (c\<lparr>creader := r\<rparr>) = core c" "core (c\<lparr>header := h\<rparr>) = core c" "core (c\<lparr>lastTimestamp := ts\<rparr>) = core c"
  "core (c\<lparr>nMessagesProcessed := n\<rparr>) = core c" "core (c\<lparr>nMessagesSkipped := n\<rparr>) = core c" "core (c\<lparr>cstate := x\<rparr>) = core c"
  "core (c\<lparr>isWithinMessageBlock := a\<rparr>) = core c" "core (c\<lparr>isIdle := a\<rparr>) = core c" "core (c\<lparr>isInNext := a\<rparr>) = core c"
  by (simp_all add: core_def shadow_of_def)

lemma ok_simps [simp]:
  "cursor_ok (c\<lparr>creader := r\<rparr>) = cursor_ok c" "cursor_ok (c\<lparr>header := h\<rparr>) = cursor_ok c" "cursor_ok (c\<lparr>lastTimestamp := ts\<rparr>) = cursor_ok c"
  "cursor_ok (c\<lparr>nMessagesProcessed := n\<rparr>) = cursor_ok c" "cursor_ok (c\<lparr>nMessagesSkipped := n\<rparr>) = cursor_ok c"
  "cursor_ok (c\<lparr>cstate := x\<rparr>) = cursor_ok c" "cursor_ok (c\<lparr>isWithinMessageBlock := a\<rparr>) = cursor_ok c"
  "cursor_ok (c\<lparr>isIdle := a\<rparr>) = cursor_ok c" "cursor_ok (c\<lparr>isInNext := a\<rparr>) = cursor_ok c"
  by (simp_all add: cursor_ok_def)

lemma cur_simps [simp]:
  "cur_at (c\<lparr>header := h\<rparr>) bs = cur_at c bs" "cur_at (c\<lparr>lastTimestamp := ts\<rparr>) bs = cur_at c bs"
  "cur_at (c\<lparr>nMessagesProcessed := n\<rparr>) bs = cur_at c bs" "cur_at (c\<lparr>nMessagesSkipped := n\<rparr>) bs = cur_at c bs"
  "cur_at (c\<lparr>cstate := x\<rparr>) bs = cur_at c bs" "cur_at (c\<lparr>isWithinMessageBlock := a\<rparr>) bs = cur_at c bs"
  "cur_at (c\<lparr>isIdle := a\<rparr>) bs = cur_at c bs" "cur_at (c\<lparr>isInNext := a\<rparr>) bs = cur_at c bs"
  "cur_in (c\<lparr>header := h\<rparr>) body bs = cur_in c body bs" "cur_in (c\<lparr>lastTimestamp := ts\<rparr>) body bs = cur_in c body bs"
  "cur_in (c\<lparr>nMessagesProcessed := n\<rparr>) body bs = cur_in c body bs" "cur_in (c\<lparr>nMessagesSkipped := n\<rparr>) body bs = cur_in c body bs"
  "cur_in (c\<lparr>cstate := x\<rparr>) body bs = cur_in c body bs" "cur_in (c\<lparr>isInNext := a\<rparr>) body bs = cur_in c body bs"
  by (simp_all add: cur_at_def cur_in_def)

text \<open>The length field and the entry into the message.\<close>

lemma message_length:
  assumes "message_valid v m"
  defines "w \<equiv> of_nat (length (message_content m)) :: 32 word"
  shows "unat w = length (message_content m)" "w \<noteq> MESSAGE_BLOCK_TERMINATOR_RECORD"
    "in_range w CURSOR_MESSAGE_HEADER_SIZE_EID32 (of_nat MAX_MESSAGE_SIZE + 1)"
proof -
  have l: "14 \<le> length (message_content m)" "length (message_content m) \<le> 0x400000"
    using assms(1) by (simp_all add: message_valid_def MAX_MESSAGE_SIZE_def)
  then show u: "unat w = length (message_content m)" by (simp add: w_def unat_of_nat take_bit_nat_eq_self)
  have "unat MESSAGE_BLOCK_TERMINATOR_RECORD = 0xFFFFFFFF" by (simp add: MESSAGE_BLOCK_TERMINATOR_RECORD_def unsigned_minus_1_eq_mask mask_eq_exp_minus_1)
  then show "w \<noteq> MESSAGE_BLOCK_TERMINATOR_RECORD" using u l by auto
  have "(14 :: 32 word) \<le> w \<and> w < 0x400001" using u l by (simp add: word_le_nat_alt word_less_nat_alt)
  then show "in_range w CURSOR_MESSAGE_HEADER_SIZE_EID32 (of_nat MAX_MESSAGE_SIZE + 1)"
    using in_range_unsigned [of 14 "0x400001 :: 32 word" w] by (simp add: CURSOR_MESSAGE_HEADER_SIZE_EID32_def MAX_MESSAGE_SIZE_def)
qed

lemma message_step_run:
  assumes fo: "follows f g v c" and at: "cur_at c (message_bytes m @ rest)" and valid: "message_valid v m"
  shows "\<exists>c'. message_step c = (Inr (if accepts f g v m then Some True else None), c') \<and> core c' = core c \<and> cursor_ok c' \<and>
    isWithinMessageBlock c' = isWithinMessageBlock c \<and>
    (if accepts f g v m then cur_in c' (cmBody m) rest \<and> header_is m (header c') \<and> cstate c' = READING else cur_at c' rest)"
proof -
  let ?len = "length (message_content m)"
  let ?w = "of_nat ?len :: 32 word"
  note w = message_length [OF valid]
  have ids: "cmEntity m < 0x80000000" "cmType m < 0x100"
    using valid known_symbol(2) [OF fo, of "cmEntity m"] known_type(3) [OF fo, of "cmType m"] by (simp_all add: message_valid_def)
  have ok: "cursor_ok c" "cUseEntityId32 c" using fo by (simp_all add: follows_def)
  obtain r1 where r1: "on_reader getUInt32 c = (Inr ?w, c\<lparr>creader := r1\<rparr>)" "cur_at (c\<lparr>creader := r1\<rparr>) (message_content m @ rest)"
    using cur_at_reads [OF rec_src.reads_getUInt32, of c ?w] at unfolding message_bytes_def by auto
  let ?c2 = "c\<lparr>creader := r1, header := (header c)\<lparr>msgLength := ?w\<rparr>\<rparr>"
  have "cur_at ?c2 (message_content m @ rest)" using r1(2) by (simp add: cur_at_def)
  then obtain r2 where r2: "setMessageSize ?len r1 = (Inr (), r2)" "in_message rest r2" "pend_msg r2 = message_content m"
    using enter_message [of r1 "message_content m" rest] by (auto simp: cur_at_def)
  let ?c3 = "?c2\<lparr>creader := r2\<rparr>"
  have in3: "cur_in ?c3 (message_content m) rest" "on_reader (setMessageSize ?len) ?c2 = (Inr (), ?c3)"
    using r1(2) r2 by (simp_all add: cur_in_def cur_at_def on_reader_def)
  have "cUseEntityId32 ?c3" using ok by simp
  then obtain r4 where r4: "read_message_fields ?c3 =
        (Inr (), ?c3\<lparr>creader := r4, header := header_fields_of m (header ?c3), lastTimestamp := cmTime m\<rparr>)"
      "cur_in (?c3\<lparr>creader := r4, header := header_fields_of m (header ?c3), lastTimestamp := cmTime m\<rparr>) (cmBody m) rest"
    using read_message_fields_run [OF _ ids in3(1)] by blast
  let ?c4 = "?c3\<lparr>creader := r4, header := header_fields_of m (header ?c3), lastTimestamp := cmTime m\<rparr>"
  have ok4: "cursor_ok ?c4" "core ?c4 = core c" using ok(1) by simp_all
  obtain c5 where c5: "switch_to_shadow ?c4 = (Inr (), c5)" "core c5 = core ?c4" "cursor_ok c5" "main_of c5 = shadow_of c5"
      "readerValid c5 = readerValid ?c4" "creader c5 = creader ?c4" "header c5 = header ?c4"
      "isWithinMessageBlock c5 = isWithinMessageBlock ?c4"
    using switch_to_shadow_run [OF ok4(1)] by blast
  have in5: "cur_in c5 (cmBody m) rest" using r4(2) cur_congs(2) [of c5 ?c4] c5(5,6) by simp
  have fo5: "follows f g v c5" using follows_core [OF _ c5(3) fo] c5(2) ok4(2) by simp
  have h5: "msgEntityId (header c5) = of_nat (cmEntity m)" "msgTypeId (header c5) = of_nat (cmType m)"
    "msgStreamId (header c5) = stream_of_byte (cmStream m)" "msgLength (header c5) = ?w" "msgTimestamp (header c5) = cmTime m"
    by (simp_all add: c5(7) header_fields_of_def)
  let ?c6 = "c5\<lparr>header := (header c5)\<lparr>msgTypeIdLocal := 0\<rparr>, nMessagesProcessed := nMessagesProcessed c5 + 1\<rparr>"
  have fo6: "follows f g v ?c6" by (rule follows_core [OF _ _ fo5]) (simp_all add: c5(3))
  have main6: "main_of ?c6 = shadow_of ?c6" using c5(4) by (simp add: main_of_def shadow_of_def)
  have "seqs [modify (\<lambda>c. c\<lparr>header := (header c)\<lparr>msgLength := ?w\<rparr>\<rparr>), on_reader (setMessageSize (unat ?w)),
      guard (in_range ?w CURSOR_MESSAGE_HEADER_SIZE_EID32 (of_nat MAX_MESSAGE_SIZE + 1)) (CursorError ''.readNextMessage(): Incorrect message size''),
      read_message_fields, switch_to_shadow, check_message_ids,
      modify (\<lambda>c. c\<lparr>header := (header c)\<lparr>msgTypeIdLocal := 0\<rparr>, nMessagesProcessed := nMessagesProcessed c + 1\<rparr>)] (c\<lparr>creader := r1\<rparr>) = (Inr (), ?c6)"
    using in3(2) r4(1) c5(1) message_ids(1) [OF fo5 c5(4) valid h5(1-3)] w
    by (simp add: andthen_ok modify_run guard_def ret_run)
  then have step: "message_step c =
      bnd (gets is_skipped) (\<lambda>skipped.
        if skipped
        then andthen (seqs
          [modify (\<lambda>c. c\<lparr>nMessagesSkipped := nMessagesSkipped c + 1\<rparr>), on_reader nextMessage]) (ret None)
        else andthen (seqs
          [setCursorState READING, modify (\<lambda>c. c\<lparr>header := (header c)\<lparr>msgCursorState := READING\<rparr>\<rparr>)]) (ret (Some True))) ?c6"
    unfolding message_step_def using r1(1) w(2) by (simp only: bnd_ok if_False andthen_ok)
  have skip6: "is_skipped ?c6 \<longleftrightarrow> \<not> accepts f g v m" by (rule message_ids(2) [OF fo6 main6 valid]) (simp_all add: h5)
  show ?thesis
  proof (cases "accepts f g v m")
    case True
    let ?c7 = "?c6\<lparr>cstate := READING, header := (header ?c6)\<lparr>msgCursorState := READING\<rparr>\<rparr>"
    have "message_step c = (Inr (Some True), ?c7)"
      using step skip6 True by (simp add: bnd_ok gets_run andthen_ok setCursorState_def modify_run ret_run)
    moreover have "cur_in ?c7 (cmBody m) rest" using in5 cur_congs(2) [of ?c7 c5] by simp
    moreover have "header_is m (header ?c7)" using h5 by (simp add: header_is_def)
    ultimately show ?thesis using True c5(2,3,8) ok4(2) by (intro exI [of _ ?c7]) simp
  next
    case False
    obtain r7 where r7: "nextMessage (creader c5) = (Inr (), r7)" "at_record r7" "pend_msg r7 = rest"
      using leave_message [of rest "creader c5"] in5 by (auto simp: cur_in_def)
    let ?c7 = "?c6\<lparr>nMessagesSkipped := nMessagesSkipped ?c6 + 1, creader := r7\<rparr>"
    have "message_step c = (Inr None, ?c7)"
      using step skip6 False r7(1) in5 by (simp add: bnd_ok gets_run andthen_ok modify_run ret_run on_reader_def cur_in_def)
    moreover have "cur_at ?c7 rest" using r7 in5 by (simp add: cur_at_def cur_in_def)
    ultimately show ?thesis using False c5(2,3,8) ok4(2) by (intro exI [of _ ?c7]) simp
  qed
qed

section \<open>One block\<close>

lemma block_end: "cur_at c (be_bytes 4 MESSAGE_BLOCK_TERMINATOR_RECORD @ rest) \<Longrightarrow>
    \<exists>r. message_step c = (Inr (Some False), c\<lparr>creader := r, isWithinMessageBlock := False\<rparr>) \<and> cur_at (c\<lparr>creader := r\<rparr>) rest"
  using cur_at_reads [OF rec_src.reads_getUInt32, of c MESSAGE_BLOCK_TERMINATOR_RECORD rest]
  by (auto simp: message_step_def bnd_ok andthen_ok modify_run ret_run)

lemma block_Cons: "block_bytes (m # ms) @ rest = message_bytes m @ block_bytes ms @ rest"
  by (simp add: block_bytes_def)

lemma in_block_loop_run:
  assumes "follows f g v c" "cur_at c (block_bytes ms @ rest)" "list_all (message_valid v) ms" "length ms < k"
  shows "\<exists>c'. core c' = core c \<and> cursor_ok c' \<and>
    (case dropWhile (\<lambda>m. \<not> accepts f g v m) ms of
       [] \<Rightarrow> in_block_loop k c = (Inr False, c') \<and> cur_at c' rest \<and> \<not> isWithinMessageBlock c'
     | m # ms' \<Rightarrow> in_block_loop k c = (Inr True, c') \<and> cur_in c' (cmBody m) (block_bytes ms' @ rest) \<and> header_is m (header c') \<and>
         cstate c' = READING \<and> isWithinMessageBlock c' = isWithinMessageBlock c)"
  using assms
proof (induction ms arbitrary: c k)
  case Nil
  then obtain k' where k: "k = Suc k'" by (cases k) auto
  obtain r where "message_step c = (Inr (Some False), c\<lparr>creader := r, isWithinMessageBlock := False\<rparr>)" "cur_at (c\<lparr>creader := r\<rparr>) rest"
    using block_end [of c rest] Nil.prems(2) by (auto simp: block_bytes_def)
  then show ?case using Nil.prems(1) k
    by (intro exI [of _ "c\<lparr>creader := r, isWithinMessageBlock := False\<rparr>"]) (simp add: bnd_ok ret_run follows_def)
next
  case (Cons m ms)
  then obtain k' where k: "k = Suc k'" "length ms < k'" by (cases k) auto
  have valid: "message_valid v m" "list_all (message_valid v) ms" using Cons.prems(3) by simp_all
  obtain c1 where c1: "message_step c = (Inr (if accepts f g v m then Some True else None), c1)" "core c1 = core c" "cursor_ok c1"
      "isWithinMessageBlock c1 = isWithinMessageBlock c"
      "if accepts f g v m then cur_in c1 (cmBody m) (block_bytes ms @ rest) \<and> header_is m (header c1) \<and> cstate c1 = READING
       else cur_at c1 (block_bytes ms @ rest)"
    using message_step_run [OF Cons.prems(1) Cons.prems(2) [unfolded block_Cons] valid(1)] by blast
  show ?case
  proof (cases "accepts f g v m")
    case True
    then show ?thesis using c1 k by (intro exI [of _ c1]) (simp add: bnd_ok ret_run)
  next
    case False
    have fo1: "follows f g v c1" by (rule follows_core [OF c1(2,3) Cons.prems(1)])
    have at1: "cur_at c1 (block_bytes ms @ rest)" using c1(5) False by simp
    have run: "in_block_loop k c = in_block_loop k' c1" using c1(1) k False by (simp add: bnd_ok)
    have d: "dropWhile (\<lambda>m. \<not> accepts f g v m) (m # ms) = dropWhile (\<lambda>m. \<not> accepts f g v m) ms" using False by simp
    show ?thesis using Cons.IH [OF fo1 at1 valid(2) k(2)] unfolding d run c1(2,4) .
  qed
qed

lemma length_block_bytes: "length ms \<le> length (block_bytes ms)"
proof -
  have "length ms \<le> length (concat (map message_bytes ms))" by (induction ms) (auto simp: message_bytes_def)
  then show ?thesis by (simp add: block_bytes_def)
qed

lemma cur_at_fuel: "cur_at c bs \<Longrightarrow> read_fuel c = Suc (length bs)"
  using at_record_pend by (auto simp: cur_at_def read_fuel_def)

lemma readNextMessageInBlock_run:
  assumes "follows f g v c" "cur_at c (block_bytes ms @ rest)" "list_all (message_valid v) ms"
  shows "\<exists>c'. core c' = core c \<and> cursor_ok c' \<and>
    (case dropWhile (\<lambda>m. \<not> accepts f g v m) ms of
       [] \<Rightarrow> readNextMessageInBlock c = (Inr False, c') \<and> cur_at c' rest \<and> \<not> isWithinMessageBlock c'
     | m # ms' \<Rightarrow> readNextMessageInBlock c = (Inr True, c') \<and> cur_in c' (cmBody m) (block_bytes ms' @ rest) \<and> header_is m (header c') \<and>
         cstate c' = READING \<and> isWithinMessageBlock c' = isWithinMessageBlock c)"
proof -
  have "length ms < read_fuel c" using length_block_bytes [of ms] cur_at_fuel [OF assms(2)] by simp
  then show ?thesis unfolding readNextMessageInBlock_def by (rule in_block_loop_run [OF assms])
qed

section \<open>The other records\<close>

text \<open>Before a table changes, the reading thread takes over the newest copy.\<close>

lemma synchronizeCheck_run:
  assumes "cursor_ok c"
  shows "\<exists>c'. synchronizeCheck c = (Inr (), c') \<and> core c' = core c \<and> shadow_of c' = shadow_of c \<and> cursor_ok c' \<and> mainState c' = shadowState c' \<and>
    readerValid c' = readerValid c \<and> creader c' = creader c \<and> isWithinMessageBlock c' = isWithinMessageBlock c"
proof (cases "shadowCopyUpdated c")
  case False
  then show ?thesis using assms
    by (intro exI [of _ c]) (simp add: synchronizeCheck_def bnd_ok gets_run whenM_simps cursor_ok_def)
next
  case True
  let ?c = "c\<lparr>mainState := shadowState c, shadowCopyUpdated := False\<rparr>"
  have run: "synchronizeCheck c = (Inr (), ?c)" using True by (simp add: synchronizeCheck_def synchronizeDo_def bnd_ok gets_run whenM_simps modify_run)
  have "cursor_ok ?c" using keepsD [OF safe_copies(3) assms] run by simp
  moreover have "core ?c = core c" "shadow_of ?c = shadow_of c" by (simp_all add: core_def shadow_of_def)
  ultimately show ?thesis using run by (intro exI [of _ ?c]) simp
qed

lemma on_main_run:
  assumes "cursor_ok c" "mainState c = shadowState c" "m (shadow_of c) = (x, s)"
  shows "on_main m c = (x, c\<lparr>subState := (subState c)[mainState c := s]\<rparr>)"
    "shadow_of (c\<lparr>subState := (subState c)[mainState c := s]\<rparr>) = s"
  using assms by (simp_all add: on_main_def shadow_of_def main_of_def cursor_ok_def)

text \<open>What announcements leave alone.\<close>

definition kept_part :: "subscription_state \<Rightarrow> _" where
  "kept_part s = (isResetInProgress s, lastExpectedCommandId s)"

definition stream_part :: "subscription_state \<Rightarrow> _" where
  "stream_part s = (streamKeys (subTables s), streamIndex (subTables s))"

lemma keeps_kept:
  "keeps (\<lambda>s. kept_part s = p) (registerNewInstrument i n)" "keeps (\<lambda>s. kept_part s = p) (registerNewMessageType parse j txt)"
  "keeps (\<lambda>s. kept_part s = p) (registerNewStream i n)"
  "keeps (\<lambda>s. stream_part s = q) (registerNewInstrument i n)" "keeps (\<lambda>s. stream_part s = q) (registerNewMessageType parse j txt)"
  "keeps (\<lambda>s. typeList (subTables s) = ts) (registerNewInstrument i n)"
proof -
  have f: "keeps (\<lambda>s. kept_part s = p) (set_symbol_filter k b)" "keeps (\<lambda>s. kept_part s = p) (set_type_filter k b)"
    "keeps (\<lambda>s. kept_part s = p) (set_stream_filter k b)" "keeps (\<lambda>s. stream_part s = q) (set_symbol_filter k b)"
    "keeps (\<lambda>s. stream_part s = q) (set_type_filter k b)" "keeps (\<lambda>s. typeList (subTables s) = ts) (set_symbol_filter k b)" for k b
    by (auto simp: keeps_def set_symbol_filter_def set_type_filter_def set_stream_filter_def kept_part_def stream_part_def split: prod.splits)
  have k: "keeps (\<lambda>s. kept_part s = p) (on_sub_tables m)" for m :: "(symbol_translator, 'x) op"
    by (auto simp: keeps_def on_sub_tables_def kept_part_def split: prod.splits)
  have t: "keeps (\<lambda>s. stream_part s = q) (on_sub_tables (registerInstrument i n))"
    "keeps (\<lambda>s. typeList (subTables s) = ts) (on_sub_tables (registerInstrument i n))"
    "keeps (\<lambda>s. stream_part s = q) (on_sub_tables (registerMessageDescriptor j m h d))" for m h d
    by (auto simp: keeps_def on_sub_tables_def registerInstrument_def registerMessageDescriptor_def throw_def stream_part_def Let_def
        split: prod.splits sum.splits if_splits)
  show "keeps (\<lambda>s. kept_part s = p) (registerNewInstrument i n)" "keeps (\<lambda>s. stream_part s = q) (registerNewInstrument i n)"
    "keeps (\<lambda>s. typeList (subTables s) = ts) (registerNewInstrument i n)"
    unfolding registerNewInstrument_def by (intro keeps_rules f k t; simp add: kept_part_def stream_part_def)+
  show "keeps (\<lambda>s. kept_part s = p) (registerNewMessageType parse j txt)" "keeps (\<lambda>s. stream_part s = q) (registerNewMessageType parse j txt)"
    unfolding registerNewMessageType_def by (intro keeps_rules f k t; simp add: kept_part_def stream_part_def)+
  show "keeps (\<lambda>s. kept_part s = p) (registerNewStream i n)"
    unfolding registerNewStream_def by (intro keeps_rules f k; simp add: kept_part_def)
qed

end
