(* ===== verification/CursorRecords.thy ===== *)
theory CursorRecords
  imports CursorDelivery
begin

text \<open>
  The announcements of the server, one record at a time: new symbols, types and streams enter the tables, and
  the subscription of the client stays what it is.
\<close>

section \<open>Records\<close>

definition session :: "cursor \<Rightarrow> _" where
  "session c = (isExecutingSubscriptions (shadow_of c), isInterrupted c, connected c, isOpen c)"

lemma session_core: "core c' = core c \<Longrightarrow> session c' = session c"
  by (simp add: core_def session_def Let_def)

lemma record_start:
  assumes "cur_at c (b # rest)"
  shows "\<exists>r. readNextRecord parse c = record_branch parse b (c\<lparr>creader := r, isIdle := False\<rparr>) \<and> cur_at (c\<lparr>creader := r, isIdle := False\<rparr>) rest"
  using cur_at_reads [OF rec_src.reads_getByte, of c b rest] assms
  by (auto simp: readNextRecord_def bnd_ok andthen_ok modify_run)

text \<open>A change of the tables by the reading thread.\<close>

lemma announced_change:
  assumes fo: "follows f g v c" and m: "sub_safe m" "m (shadow_of c) = (Inr x, s)"
    and s: "filters_ok s" "symbol_skipped s = f" "type_skipped s = g" "kept_part s = kept_part (shadow_of c)"
  shows "\<exists>c'. andthen synchronizeCheck (on_main m) c = (Inr x, c') \<and> cursor_ok c' \<and> shadow_of c' = s \<and> session c' = session c \<and>
    \<not> isResetInProgress (shadow_of c') \<and> isSystemMessage c' = isSystemMessage c \<and> cUseEntityId32 c' \<and>
    readerValid c' = readerValid c \<and> creader c' = creader c \<and> isWithinMessageBlock c' = isWithinMessageBlock c"
proof -
  have ok: "cursor_ok c" using fo by (simp add: follows_def)
  obtain c1 where c1: "synchronizeCheck c = (Inr (), c1)" "core c1 = core c" "shadow_of c1 = shadow_of c" "cursor_ok c1"
      "mainState c1 = shadowState c1" "readerValid c1 = readerValid c" "creader c1 = creader c"
      "isWithinMessageBlock c1 = isWithinMessageBlock c"
    using synchronizeCheck_run [OF ok] by blast
  have m1: "m (shadow_of c1) = (Inr x, s)" using m(2) c1(3) by simp
  let ?c2 = "c1\<lparr>subState := (subState c1)[mainState c1 := s]\<rparr>"
  note r = on_main_run [where m = m and c = c1, OF c1(4,5) m1]
  have "cursor_ok ?c2" using keepsD [OF safe_on_main [OF m(1)] c1(4)] r(1) by simp
  moreover have "session ?c2 = session c" "\<not> isResetInProgress (shadow_of ?c2)" "isSystemMessage ?c2 = isSystemMessage c" "cUseEntityId32 ?c2"
    using r(2) s(4) c1(2,3) fo
    by (simp_all add: session_def core_def kept_part_def isExecutingSubscriptions_def follows_def Let_def)
  ultimately show ?thesis using c1 r by (intro exI [of _ ?c2]) (simp add: andthen_ok)
qed

lemma unfold_knows:
  "knows c v \<longleftrightarrow>
     (\<forall>i < length (anSymbols v). s2i (instruments (subTables (shadow_of c))) (anSymbols v ! i) = Some (of_nat i)) \<and>
     biSize (instruments (subTables (shadow_of c))) = length (anSymbols v) \<and> dom (s2i (instruments (subTables (shadow_of c)))) = set (anSymbols v) \<and>
     map typeName (descriptors (shadow_of c)) = map fst (anTypes v) \<and> length (typeList (subTables (shadow_of c))) \<le> length (anTypes v) \<and>
     (\<forall>i < 0x100. isSystemMessage c ! i = (i < length (anTypes v) \<and> isSystemMessageGuid (snd (anTypes v ! i)))) \<and>
     lutSize (streamKeys (subTables (shadow_of c))) = anStreams v \<and> streamIndex (subTables (shadow_of c)) = Map.empty"
  by (simp add: knows_def Let_def)

lemma symbol_record:
  assumes fo: "follows f g v c" and at: "cur_at c (record_bytes v (NewSymbol bs) @ rest)" and valid: "record_valid parse v (NewSymbol bs)"
  shows "\<exists>c'. readNextRecord parse c = (Inr True, c') \<and> follows f g (announce parse (NewSymbol bs) v) c' \<and> cur_at c' rest \<and>
    isWithinMessageBlock c' = isWithinMessageBlock c \<and> session c' = session c"
proof -
  let ?n = "length (anSymbols v)" and ?s = "shadow_of c"
  let ?i = "of_nat ?n :: 32 word"
  have i: "unat ?i = ?n" "?i < 0x80000000" "unat ?i < 0x10000"
    using valid by (simp_all add: word_less_nat_alt unat_of_nat take_bit_nat_eq_self)
  have len: "case Some bs of None \<Rightarrow> True | Some bs \<Rightarrow> length bs < 0xFFFF" using valid by simp
  obtain r1 where r1: "readNextRecord parse c = record_branch parse INSTRUMENT_BLOCK_ID (c\<lparr>creader := r1, isIdle := False\<rparr>)"
      "cur_at (c\<lparr>creader := r1, isIdle := False\<rparr>) (entity_bytes ?i @ utf8_bytes (Some bs) @ rest)"
    using record_start [of c INSTRUMENT_BLOCK_ID "entity_bytes ?i @ utf8_bytes (Some bs) @ rest" parse] at by auto
  let ?c1 = "c\<lparr>creader := r1, isIdle := False\<rparr>"
  have "cUseEntityId32 ?c1" using fo by (simp add: follows_def)
  then obtain r2 where r2: "readEntityId True ?c1 = (Inr ?i, ?c1\<lparr>creader := r2\<rparr>)" "cur_at (?c1\<lparr>creader := r2\<rparr>) (utf8_bytes (Some bs) @ rest)"
    using readEntityId_record [OF _ i(2) r1(2)] by blast
  obtain r3 where r3: "on_reader getUTF8_inl (?c1\<lparr>creader := r2\<rparr>) = (Inr (Some bs), ?c1\<lparr>creader := r3\<rparr>)" "cur_at (?c1\<lparr>creader := r3\<rparr>) rest"
    using cur_at_reads [OF rec_src.reads_getUTF8 [OF len] r2(2)] by auto
  let ?c3 = "?c1\<lparr>creader := r3\<rparr>"
  have fo3: "follows f g v ?c3" by (rule follows_core [OF _ _ fo]) (use fo in \<open>simp_all add: follows_def\<close>)
  have s3: "shadow_of ?c3 = ?s" by (simp add: shadow_of_def)
  have ok: "symbols_ok ?s" "types_ok ?s" using fo by (simp_all add: follows_def filters_ok_def)
  obtain x s where reg: "registerNewInstrument ?i (bytes_string bs) ?s = (x, s)" by force
  have k: "knows c v" using fo by (simp add: follows_def)
  have new: "of_nat (biSize (instruments (subTables ?s))) = ?i \<and> s2i (instruments (subTables ?s)) (bytes_string bs) = None"
    using k valid by (auto simp: unfold_knows)
  note spec = registerNewInstrument_spec [OF ok(1) i(3) reg, unfolded if_P [OF new]]
  have frame: "type_part s = type_part ?s" "kept_part s = kept_part ?s" "stream_part s = stream_part ?s"
    "typeList (subTables s) = typeList (subTables ?s)"
    using keepsD [OF keeps_other_part(3) [of "type_part ?s" ?i "bytes_string bs"], of ?s] keepsD [OF keeps_kept(1) [of "kept_part ?s" ?i "bytes_string bs"], of ?s]
      keepsD [OF keeps_kept(4) [of "stream_part ?s" ?i "bytes_string bs"], of ?s]
      keepsD [OF keeps_kept(6) [of "typeList (subTables ?s)" ?i "bytes_string bs"], of ?s] reg by simp_all
  note types = parts_decide(2) [OF frame(1)]
  have f: "filters_ok s" "symbol_skipped s = f" "type_skipped s = g"
    using spec types ok fo by (simp_all add: filters_ok_def follows_def)
  obtain c' where c': "andthen synchronizeCheck (on_main (registerNewInstrument ?i (bytes_string bs))) ?c3 = (Inr (), c')" "cursor_ok c'"
      "shadow_of c' = s" "session c' = session ?c3" "\<not> isResetInProgress (shadow_of c')" "isSystemMessage c' = isSystemMessage ?c3"
      "cUseEntityId32 c'" "readerValid c' = readerValid ?c3" "creader c' = creader ?c3" "isWithinMessageBlock c' = isWithinMessageBlock ?c3"
    using announced_change [OF fo3 sub_safe_register(1), of ?i "bytes_string bs" "()" s] f frame(2) reg s3 spec by auto
  have run: "readNextRecord parse c = (Inr True, c')"
    using r1(1) r2(1) r3(1) c'(1) by (simp add: record_branch_def layout_defs readEntity_def bnd_ok andthen_ok ret_run)
  have "anSymbols v ! j \<noteq> bytes_string bs" if "j < ?n" for j using valid nth_mem [OF that] by auto
  then have "knows c' (announce parse (NewSymbol bs) v)"
    using k spec frame(1,3,4) valid c'(3,6)
    by (auto simp: unfold_knows type_part_def stream_part_def nth_append less_Suc_eq)
  then have "follows f g (announce parse (NewSymbol bs) v) c'" using c' f by (simp add: follows_def)
  moreover have "cur_at c' rest" using r3(2) cur_congs(1) [of c' ?c3] c'(8,9) by simp
  moreover have "session ?c3 = session c" by (simp add: session_def shadow_of_def)
  ultimately show ?thesis using run c'(4,10) by (intro exI [of _ c']) simp
qed

lemma registerNewMessageType_succeeds:
  assumes "types_ok s" "parse doc = Some (nm, g)" "length (descriptors s) < 0x100" "length (typeList (subTables s)) < 0x100"
    and newId: "newId = of_nat (length (descriptors s))"
  shows "\<exists>s'. registerNewMessageType parse newId doc s = (Inr g, s') \<and>
    length (typeList (subTables s')) \<le> Suc (length (typeList (subTables s)))"
proof -
  let ?n = "length (descriptors s)" and ?text = "map (\<lambda>b. char_of (unat b)) doc"
  have id: "unat newId = ?n" "newId < 0x100"
    using assms(3) by (simp_all add: newId small_words word_less_nat_alt)
  obtain t1 where reg: "registerMessageDescriptor newId nm g ?text (subTables s) = (Inr (), t1)"
      "length (typeList t1) \<le> Suc (length (typeList (subTables s)))"
    using id assms(3,4) linorder_not_le [THEN iffD2, OF id(2)]
    by (cases "EMPTY_MSG_TYPE_ID = findMsgDescByType (subTables s) nm") (auto simp: registerMessageDescriptor_def sarray_push_def Let_def)
  have "lut_ok 0x100 (isMessageDescriptorSkipped s)" using assms(1) by (simp add: types_ok_def)
  then have set: "\<exists>t. lut_set 0 0x100 0 (ucast newId) v (isMessageDescriptorSkipped s) = (Inr (), t)" for v
    using lut_set_ok [of "0x100" "isMessageDescriptorSkipped s" "ucast newId" 0 0 v] id assms(3) by auto
  let ?s1 = "s\<lparr>subTables := t1\<rparr>"
  have "on_sub_tables (registerMessageDescriptor newId nm g ?text) s = (Inr (), ?s1)" using reg(1) by (simp add: on_sub_tables_def)
  then have run: "registerNewMessageType parse newId doc s =
      bnd (gets (\<lambda>s. isUnregisteredMessageTypeSkipped s nm)) (\<lambda>i.
          bnd (case i of
            Some skipped \<Rightarrow> andthen
              (modify (\<lambda>s. s\<lparr>isUnregisteredMessageTypeSkipped := (isUnregisteredMessageTypeSkipped s)(nm := None)\<rparr>))
              (ret (flag skipped))
          | None \<Rightarrow> gets (\<lambda>s.
              let sibling = nextSameType (messageDescriptors (subTables s) ! unat newId);
                  filt = isMessageDescriptorSkipped s
              in if EMPTY_MSG_TYPE_ID = sibling then lutDefault filt else lut_get 0 filt (ucast sibling))) (\<lambda>isSkipped.
          andthen (set_type_filter (ucast newId) isSkipped) (ret g))) ?s1"
    using assms(2) by (simp add: registerNewMessageType_def bnd_def gets_def andthen_def newId [symmetric])
  have fin: "\<exists>s'. andthen (set_type_filter (ucast newId) v) (ret g) s2 = (Inr g, s') \<and>
      length (typeList (subTables s')) \<le> Suc (length (typeList (subTables s)))"
    if "isMessageDescriptorSkipped s2 = isMessageDescriptorSkipped s" "subTables s2 = t1" for v and s2 :: subscription_state
    using set [of v] that reg(2) by (auto simp: set_type_filter_def andthen_def bnd_def ret_def)
  show ?thesis
  proof (cases "isUnregisteredMessageTypeSkipped s nm")
    case None
    then show ?thesis using run fin [of ?s1] by (simp add: bnd_ok gets_run)
  next
    case (Some b)
    let ?s2 = "?s1\<lparr>isUnregisteredMessageTypeSkipped := (isUnregisteredMessageTypeSkipped s)(nm := None)\<rparr>"
    show ?thesis using Some run fin [of ?s2] by (simp add: bnd_ok gets_run andthen_ok modify_run ret_run)
  qed
qed

lemma type_record:
  assumes fo: "follows f g v c" and at: "cur_at c (record_bytes v (NewType bs) @ rest)" and valid: "record_valid parse v (NewType bs)"
  shows "\<exists>c'. readNextRecord parse c = (Inr True, c') \<and> follows f g (announce parse (NewType bs) v) c' \<and> cur_at c' rest \<and>
    isWithinMessageBlock c' = isWithinMessageBlock c \<and> session c' = session c"
proof -
  let ?n = "length (anTypes v)" and ?s = "shadow_of c"
  let ?d = "of_nat ?n :: 16 word"
  obtain nm gd where p: "parse bs = Some (nm, gd)" using valid by auto
  have n: "?n < 0x100" using valid by simp
  have d: "unat ?d = ?n" "(ucast ?d :: 32 word) = of_nat ?n"
    using n by (simp_all add: word_unat_eq_iff unat_of_nat take_bit_nat_eq_self unat_ucast_up)
  have len: "case Some bs of None \<Rightarrow> True | Some bs \<Rightarrow> length bs < 0xFFFF" using valid by simp
  obtain r1 where r1: "readNextRecord parse c = record_branch parse TYPE_BLOCK_ID (c\<lparr>creader := r1, isIdle := False\<rparr>)"
      "cur_at (c\<lparr>creader := r1, isIdle := False\<rparr>) (be_bytes 2 ?d @ utf8_bytes (Some bs) @ rest)"
    using record_start [of c TYPE_BLOCK_ID "be_bytes 2 ?d @ utf8_bytes (Some bs) @ rest" parse] at by auto
  let ?c1 = "c\<lparr>creader := r1, isIdle := False\<rparr>"
  obtain r2 where r2: "on_reader getUInt16 ?c1 = (Inr ?d, ?c1\<lparr>creader := r2\<rparr>)" "cur_at (?c1\<lparr>creader := r2\<rparr>) (utf8_bytes (Some bs) @ rest)"
    using cur_at_reads [OF rec_src.reads_getUInt16 r1(2)] by blast
  obtain r3 where r3: "on_reader getUTF8_inl (?c1\<lparr>creader := r2\<rparr>) = (Inr (Some bs), ?c1\<lparr>creader := r3\<rparr>)" "cur_at (?c1\<lparr>creader := r3\<rparr>) rest"
    using cur_at_reads [OF rec_src.reads_getUTF8 [OF len] r2(2)] by auto
  let ?c3 = "?c1\<lparr>creader := r3\<rparr>"
  have fo3: "follows f g v ?c3" by (rule follows_core [OF _ _ fo]) (use fo in \<open>simp_all add: follows_def\<close>)
  have s3: "shadow_of ?c3 = ?s" by (simp add: shadow_of_def)
  have ok: "symbols_ok ?s" "types_ok ?s" and k: "knows c v" using fo by (simp_all add: follows_def filters_ok_def)
  have nd: "length (descriptors ?s) = ?n" using k by (metis length_map unfold_knows)
  have "length (typeList (subTables ?s)) < 0x100" using k n by (simp add: unfold_knows)
  then obtain s where reg: "registerNewMessageType parse (ucast ?d) bs ?s = (Inr gd, s)"
      "length (typeList (subTables s)) \<le> Suc (length (typeList (subTables ?s)))"
    using registerNewMessageType_succeeds [where parse = parse and doc = bs, OF ok(2) p] n nd d(2) by auto
  note spec = registerNewMessageType_spec [OF ok(2) reg(1)]
  have frame: "symbol_part s = symbol_part ?s" "kept_part s = kept_part ?s" "stream_part s = stream_part ?s"
    using keepsD [OF keeps_other_part(4) [of "symbol_part ?s" parse "ucast ?d" bs], of ?s]
      keepsD [OF keeps_kept(2) [of "kept_part ?s" parse "ucast ?d" bs], of ?s]
      keepsD [OF keeps_kept(5) [of "stream_part ?s" parse "ucast ?d" bs], of ?s] reg(1) by simp_all
  note syms = parts_decide(1) [OF frame(1)]
  have fl: "filters_ok s" "symbol_skipped s = f" "type_skipped s = g"
    using spec syms ok fo by (simp_all add: filters_ok_def follows_def)
  obtain c' where c': "andthen synchronizeCheck (on_main (registerNewMessageType parse (ucast ?d) bs)) ?c3 = (Inr gd, c')" "cursor_ok c'"
      "shadow_of c' = s" "session c' = session ?c3" "\<not> isResetInProgress (shadow_of c')" "isSystemMessage c' = isSystemMessage ?c3"
      "cUseEntityId32 c'" "readerValid c' = readerValid ?c3" "creader c' = creader ?c3" "isWithinMessageBlock c' = isWithinMessageBlock ?c3"
    using announced_change [OF fo3 sub_safe_register(3), of parse "ucast ?d" bs gd s] fl frame(2) reg s3 by auto
  define c'' where "c'' = (if isSystemMessageGuid gd then c'\<lparr>isSystemMessage := (isSystemMessage c')[?n := True]\<rparr> else c')"
  have same: "shadow_of c'' = s" "session c'' = session c'" "cUseEntityId32 c''" "readerValid c'' = readerValid c'" "creader c'' = creader c'"
    "isWithinMessageBlock c'' = isWithinMessageBlock c'" "cursor_ok c''"
    using c' by (simp_all add: c''_def shadow_of_def session_def cursor_ok_def)
  have run: "readNextRecord parse c = (Inr True, c'')"
    using r1(1) r2(1) r3(1) c'(1) d(1)
    by (cases "isSystemMessageGuid gd")
      (simp_all add: record_branch_def layout_defs readMessageType_def andthen_def bnd_def whenM_def modify_def ret_def c''_def
        split: prod.splits sum.splits)
  have an: "announce parse (NewType bs) v = v\<lparr>anTypes := anTypes v @ [(nm, gd)]\<rparr>" using p by simp
  have sys: "length (isSystemMessage c) = 0x100" "\<forall>i < 0x100. isSystemMessage c ! i = (i < ?n \<and> isSystemMessageGuid (snd (anTypes v ! i)))"
    using fo k by (simp_all add: follows_def cursor_ok_def unfold_knows)
  have "isSystemMessage c'' ! i = (i < Suc ?n \<and> isSystemMessageGuid (snd ((anTypes v @ [(nm, gd)]) ! i)))" if "i < 0x100" for i
    using sys that c'(6) n by (auto simp: c''_def nth_append nth_list_update less_Suc_eq)
  then have "knows c'' (announce parse (NewType bs) v)"
    using k spec p frame(1,3) reg(2) same(1) unfolding an by (auto simp: unfold_knows symbol_part_def stream_part_def)
  then have "follows f g (announce parse (NewType bs) v) c''" using c' same fl by (simp add: follows_def)
  moreover have "cur_at c'' rest" using r3(2) cur_congs(1) [of c'' ?c3] c'(8,9) same(4,5) by simp
  moreover have "session ?c3 = session c" by (simp add: session_def shadow_of_def)
  ultimately show ?thesis using run c'(4,10) same(2,6) by (intro exI [of _ c'']) simp
qed

lemma registerNewStream_run:
  assumes "subscription_ok s" "streamIndex (subTables s) = Map.empty" "lutSize (streamKeys (subTables s)) < 0x100"
    and newId: "newId = of_nat (lutSize (streamKeys (subTables s)))"
  shows "\<exists>s'. registerNewStream newId key s = (Inr (), s') \<and> symbol_part s' = symbol_part s \<and> type_part s' = type_part s \<and>
    typeList (subTables s') = typeList (subTables s) \<and> streamIndex (subTables s') = Map.empty \<and>
    lutSize (streamKeys (subTables s')) = Suc (lutSize (streamKeys (subTables s)))"
proof -
  let ?n = "lutSize (streamKeys (subTables s))"
  have id: "unat (ucast newId :: 64 word) = ?n" using assms(3) by (simp add: newId small_words)
  obtain l where l: "lut_set 0 0x100 None (ucast newId) (Some key) (streamKeys (subTables s)) = (Inr (), l)" "lutSize l = Suc ?n"
    using id assms(3) by (auto simp: lut_set_def Let_def)
  have entry: "\<exists>t. lut_set 0 0x100 0 (ucast newId) v (isStreamSkipped s) = (Inr (), t)" for v
    using lut_set_ok [of "0x100" "isStreamSkipped s" "ucast newId" 0 0 v] id assms(1,3) by (auto simp: subscription_ok_def)
  have set: "\<exists>t. set_stream_filter (ucast newId) v s1 = (Inr (), s1\<lparr>isStreamSkipped := t\<rparr>)"
    if "isStreamSkipped s1 = isStreamSkipped s" for v s1
    using entry [of v] that by (auto simp: set_stream_filter_def)
  let ?s1 = "s\<lparr>subTables := (subTables s)\<lparr>streamKeys := l\<rparr>\<rparr>"
  have none: "emptyStreamId = findStreamId (subTables s) key" using assms(2) by (simp add: findStreamId_def)
  have reg: "on_sub_tables (\<lambda>t. case lut_set 0 0x100 None (ucast newId) (Some key) (streamKeys t) of
      (x, l) \<Rightarrow> (x, t\<lparr>streamKeys := l\<rparr>)) s = (Inr (), ?s1)" using l(1) by (simp add: on_sub_tables_def)
  have run: "registerNewStream newId key s = bnd (gets (\<lambda>s. isUnregisteredStreamSkipped s key)) (\<lambda>i. case i of
            None \<Rightarrow> ret ()
          | Some skipped \<Rightarrow> andthen (set_stream_filter (ucast newId) (flag skipped))
              (modify (\<lambda>s. s\<lparr>isUnregisteredStreamSkipped := (isUnregisteredStreamSkipped s)(key := None)\<rparr>))) ?s1"
    using reg none by (simp add: registerNewStream_def bnd_ok [of "gets _"] gets_run andthen_ok newId [symmetric])
  show ?thesis
  proof (cases "isUnregisteredStreamSkipped s key")
    case None
    then show ?thesis using run assms(2) l(2)
      by (intro exI [of _ ?s1]) (simp add: bnd_ok gets_run ret_run symbol_part_def type_part_def)
  next
    case (Some b)
    obtain t where t: "set_stream_filter (ucast newId) (flag b) ?s1 = (Inr (), ?s1\<lparr>isStreamSkipped := t\<rparr>)"
      using set [of ?s1 "flag b"] by auto
    let ?s2 = "?s1\<lparr>isStreamSkipped := t, isUnregisteredStreamSkipped := (isUnregisteredStreamSkipped s)(key := None)\<rparr>"
    have "registerNewStream newId key s = (Inr (), ?s2)" using run t Some by (simp add: bnd_ok gets_run andthen_ok modify_run)
    then show ?thesis using assms(2) l(2) by (intro exI [of _ ?s2]) (simp add: symbol_part_def type_part_def)
  qed
qed

lemma stream_record:
  assumes fo: "follows f g v c" and at: "cur_at c (record_bytes v (NewStream bs) @ rest)" and valid: "record_valid parse v (NewStream bs)"
  shows "\<exists>c'. readNextRecord parse c = (Inr True, c') \<and> follows f g (announce parse (NewStream bs) v) c' \<and> cur_at c' rest \<and>
    isWithinMessageBlock c' = isWithinMessageBlock c \<and> session c' = session c"
proof -
  let ?n = "anStreams v" and ?s = "shadow_of c"
  let ?d = "of_nat ?n :: 8 word"
  have n: "?n < 0xFF" using valid by simp
  have d: "?d \<noteq> 0xFF" "(ucast ?d :: 32 word) = of_nat ?n"
    using n by (auto simp: word_unat_eq_iff unat_of_nat take_bit_nat_eq_self unat_ucast_up)
  have len: "case Some bs of None \<Rightarrow> True | Some bs \<Rightarrow> length bs < 0xFFFF" using valid by simp
  obtain r1 where r1: "readNextRecord parse c = record_branch parse STREAM_BLOCK_ID (c\<lparr>creader := r1, isIdle := False\<rparr>)"
      "cur_at (c\<lparr>creader := r1, isIdle := False\<rparr>) ([?d] @ utf8_bytes (Some bs) @ rest)"
    using record_start [of c STREAM_BLOCK_ID "?d # utf8_bytes (Some bs) @ rest" parse] at by auto
  let ?c1 = "c\<lparr>creader := r1, isIdle := False\<rparr>"
  obtain r2 where r2: "on_reader getByte ?c1 = (Inr ?d, ?c1\<lparr>creader := r2\<rparr>)" "cur_at (?c1\<lparr>creader := r2\<rparr>) (utf8_bytes (Some bs) @ rest)"
    using cur_at_reads [OF rec_src.reads_getByte r1(2)] by blast
  obtain r3 where r3: "on_reader getUTF8_inl (?c1\<lparr>creader := r2\<rparr>) = (Inr (Some bs), ?c1\<lparr>creader := r3\<rparr>)" "cur_at (?c1\<lparr>creader := r3\<rparr>) rest"
    using cur_at_reads [OF rec_src.reads_getUTF8 [OF len] r2(2)] by auto
  let ?c3 = "?c1\<lparr>creader := r3\<rparr>"
  have fo3: "follows f g v ?c3" by (rule follows_core [OF _ _ fo]) (use fo in \<open>simp_all add: follows_def\<close>)
  have s3: "shadow_of ?c3 = ?s" by (simp add: shadow_of_def)
  have ok: "symbols_ok ?s" "types_ok ?s" and k: "knows c v" and cok: "cursor_ok c" using fo by (simp_all add: follows_def filters_ok_def)
  have "subscription_ok ?s" using cok by (simp add: cursor_ok_def shadow_of_def two_states)
  moreover have "streamIndex (subTables ?s) = Map.empty" "lutSize (streamKeys (subTables ?s)) = ?n" using k by (simp_all add: unfold_knows)
  ultimately obtain s where reg: "registerNewStream (ucast ?d) (bytes_string bs) ?s = (Inr (), s)" "symbol_part s = symbol_part ?s"
      "type_part s = type_part ?s" "typeList (subTables s) = typeList (subTables ?s)" "streamIndex (subTables s) = Map.empty"
      "lutSize (streamKeys (subTables s)) = Suc ?n"
    using registerNewStream_run [of ?s "ucast ?d" "bytes_string bs"] n d(2) by auto
  have kept: "kept_part s = kept_part ?s" using keepsD [OF keeps_kept(3) [of "kept_part ?s" "ucast ?d" "bytes_string bs"], of ?s] reg(1) by simp
  have fl: "filters_ok s" "symbol_skipped s = f" "type_skipped s = g"
    using parts_decide(1) [OF reg(2)] parts_decide(2) [OF reg(3)] ok fo by (simp_all add: filters_ok_def follows_def)
  obtain c' where c': "andthen synchronizeCheck (on_main (registerNewStream (ucast ?d) (bytes_string bs))) ?c3 = (Inr (), c')" "cursor_ok c'"
      "shadow_of c' = s" "session c' = session ?c3" "\<not> isResetInProgress (shadow_of c')" "isSystemMessage c' = isSystemMessage ?c3"
      "cUseEntityId32 c'" "readerValid c' = readerValid ?c3" "creader c' = creader ?c3" "isWithinMessageBlock c' = isWithinMessageBlock ?c3"
    using announced_change [OF fo3 sub_safe_register(2), of "ucast ?d" "bytes_string bs" "()" s] fl kept reg(1) s3 by auto
  have run: "readNextRecord parse c = (Inr True, c')"
    using r1(1) r2(1) r3(1) c'(1) d(1) by (simp add: record_branch_def layout_defs readStreamKey_def bnd_ok andthen_ok ret_run)
  have "knows c' (announce parse (NewStream bs) v)"
    using k reg(2-6) c'(3,6) by (simp add: unfold_knows symbol_part_def type_part_def)
  then have "follows f g (announce parse (NewStream bs) v) c'" using c' fl by (simp add: follows_def)
  moreover have "cur_at c' rest" using r3(2) cur_congs(1) [of c' ?c3] c'(8,9) by simp
  moreover have "session ?c3 = session c" by (simp add: session_def shadow_of_def)
  ultimately show ?thesis using run c'(4,10) by (intro exI [of _ c']) simp
qed

lemma ping_record:
  assumes "follows f g v c" "cur_at c (record_bytes v Ping @ rest)"
  shows "\<exists>c'. readNextRecord parse c = (Inr True, c') \<and> follows f g v c' \<and> cur_at c' rest \<and>
    isWithinMessageBlock c' = isWithinMessageBlock c \<and> session c' = session c"
proof -
  obtain r1 where r1: "readNextRecord parse c = record_branch parse PING_BLOCK_ID (c\<lparr>creader := r1, isIdle := False\<rparr>)"
      "cur_at (c\<lparr>creader := r1, isIdle := False\<rparr>) rest"
    using record_start [of c PING_BLOCK_ID rest parse] assms(2) by auto
  let ?c = "c\<lparr>creader := r1, isIdle := True\<rparr>"
  have "readNextRecord parse c = (Inr True, ?c)" using r1(1) by (simp add: record_branch_def layout_defs andthen_ok modify_run ret_run)
  moreover have "follows f g v ?c" by (rule follows_core [OF _ _ assms(1)]) (use assms(1) in \<open>simp_all add: follows_def\<close>)
  moreover have "session ?c = session c" by (simp add: session_def shadow_of_def)
  moreover have "cur_at ?c rest" using r1(2) by (simp add: cur_at_def)
  ultimately show ?thesis by (intro exI [of _ ?c]) simp
qed

lemma block_record:
  assumes "follows f g v c" "cur_at c (record_bytes v (Messages ms) @ rest)"
  shows "\<exists>c'. readNextRecord parse c = (Inr True, c') \<and> follows f g v c' \<and> cur_at c' (block_bytes ms @ rest) \<and>
    isWithinMessageBlock c' \<and> session c' = session c"
proof -
  obtain r1 where r1: "readNextRecord parse c = record_branch parse MESSAGE_BLOCK_ID (c\<lparr>creader := r1, isIdle := False\<rparr>)"
      "cur_at (c\<lparr>creader := r1, isIdle := False\<rparr>) (block_bytes ms @ rest)"
    using record_start [of c MESSAGE_BLOCK_ID "block_bytes ms @ rest" parse] assms(2) by auto
  let ?c = "c\<lparr>creader := r1, isIdle := False, isWithinMessageBlock := True\<rparr>"
  have "readNextRecord parse c = (Inr True, ?c)" using r1(1) by (simp add: record_branch_def layout_defs andthen_ok modify_run ret_run)
  moreover have "follows f g v ?c" by (rule follows_core [OF _ _ assms(1)]) (use assms(1) in \<open>simp_all add: follows_def\<close>)
  moreover have "session ?c = session c" by (simp add: session_def shadow_of_def)
  moreover have "cur_at ?c (block_bytes ms @ rest)" using r1(2) by (simp add: cur_at_def)
  ultimately show ?thesis by (intro exI [of _ ?c]) simp
qed

text \<open>Every record but a block.\<close>

lemma announcement:
  assumes "follows f g v c" "cur_at c (record_bytes v x @ rest)" "record_valid parse v x" "\<forall>ms. x \<noteq> Messages ms"
  shows "\<exists>c'. readNextRecord parse c = (Inr True, c') \<and> follows f g (announce parse x v) c' \<and> cur_at c' rest \<and>
    isWithinMessageBlock c' = isWithinMessageBlock c \<and> session c' = session c"
  using assms symbol_record [of f g v c _ rest parse] type_record [of f g v c _ rest parse] stream_record [of f g v c _ rest parse]
    ping_record [of f g v c rest parse] by (cases x) auto

lemma terminator_record:
  assumes "follows f g v c" "cur_at c (TERMINATOR_BLOCK_ID # rest)" "\<not> isExecutingSubscriptions (shadow_of c)"
  shows "\<exists>c'. readNextRecord parse c = (Inr False, c') \<and> cstate c' = CURSOR_END"
proof -
  obtain r1 where r1: "readNextRecord parse c = record_branch parse TERMINATOR_BLOCK_ID (c\<lparr>creader := r1, isIdle := False\<rparr>)"
    using record_start [OF assms(2), of parse] by blast
  let ?c1 = "c\<lparr>creader := r1, isIdle := False\<rparr>"
  have "cursor_ok ?c1" using assms(1) by (simp add: follows_def)
  then obtain c2 where c2: "synchronizeCheck ?c1 = (Inr (), c2)" "shadow_of c2 = shadow_of ?c1" "mainState c2 = shadowState c2"
    using synchronizeCheck_run by blast
  have "\<not> isExecutingSubscriptions (main_of c2)" using c2(2,3) assms(3) by (simp add: main_is_shadow shadow_of_def)
  then have "readNextRecord parse c = (Inr False, c2\<lparr>cstate := CURSOR_END\<rparr>)"
    using r1 c2(1) by (simp add: record_branch_def layout_defs read_terminator_def bnd_ok gets_run andthen_ok setCursorState_def modify_run ret_run)
  then show ?thesis by simp
qed

end
