(* ===== verification/CursorTheorems.thy ===== *)
theory CursorTheorems
  imports CursorRecords PartialMessages
begin

text \<open>
  The calls of \<^verbatim>\<open>next\<close> deliver the messages that the subscription accepts, each once and in order.
\<close>

section \<open>Positions between calls\<close>

text \<open>What the server sends from here on, up to the terminator.\<close>

definition stream_of :: "(byte list \<Rightarrow> (string \<times> string) option) \<Rightarrow> announced \<Rightarrow> server_record list \<Rightarrow> byte list \<Rightarrow> byte list" where
  "stream_of parse v xs rest = records_bytes parse v xs @ TERMINATOR_BLOCK_ID # rest"

text \<open>The cursor is between two records, or in a message with any part of its body still unread, and the
  messages \<open>ds\<close> are still to come.\<close>

definition stands :: "(byte list \<Rightarrow> (string \<times> string) option) \<Rightarrow> (string \<Rightarrow> bool) \<Rightarrow> (string \<Rightarrow> bool) \<Rightarrow> cursor_message list \<Rightarrow> cursor \<Rightarrow> bool" where
  "stands parse f g ds c \<longleftrightarrow> cstate c \<noteq> CURSOR_END \<and> \<not> isExecutingSubscriptions (shadow_of c) \<and>
     (\<exists>v xs rest. follows f g v c \<and> records_valid parse v xs \<and>
        (if isWithinMessageBlock c
         then \<exists>body ms. list_all (message_valid v) ms \<and> cur_in c body (block_bytes ms @ stream_of parse v xs rest) \<and>
           ds = filter (accepts f g v) ms @ delivered_messages parse f g v xs
         else cur_at c (stream_of parse v xs rest) \<and> ds = delivered_messages parse f g v xs))"

lemma stands_inside:
  assumes "follows f g v c" "records_valid parse v xs" "list_all (message_valid v) ms"
    and "cur_in c body (block_bytes ms @ stream_of parse v xs rest)" "isWithinMessageBlock c"
    and "cstate c \<noteq> CURSOR_END" "\<not> isExecutingSubscriptions (shadow_of c)"
  shows "stands parse f g (filter (accepts f g v) ms @ delivered_messages parse f g v xs) c"
  unfolding stands_def
proof (intro conjI exI [of _ v] exI [of _ xs] exI [of _ rest])
  show "if isWithinMessageBlock c
      then \<exists>body ms'. list_all (message_valid v) ms' \<and> cur_in c body (block_bytes ms' @ stream_of parse v xs rest) \<and>
        filter (accepts f g v) ms @ delivered_messages parse f g v xs = filter (accepts f g v) ms' @ delivered_messages parse f g v xs
      else cur_at c (stream_of parse v xs rest) \<and>
        filter (accepts f g v) ms @ delivered_messages parse f g v xs = delivered_messages parse f g v xs"
    using assms(3-5) by auto
qed (use assms in simp_all)

lemma stream_Cons: "stream_of parse v (x # xs) rest = record_bytes v x @ stream_of parse (announce parse x v) xs rest"
  by (simp add: stream_of_def)

lemma length_records: "length xs \<le> length (records_bytes parse v xs)"
proof (induction xs arbitrary: v)
  case (Cons x xs)
  have "1 \<le> length (record_bytes v x)" by (cases x) simp_all
  then show ?case using Cons [of "announce parse x v"] by simp
qed simp

lemma delivered_dropWhile:
  "dropWhile (\<lambda>m. \<not> P m) ms = [] \<Longrightarrow> filter P ms = []" "dropWhile (\<lambda>m. \<not> P m) ms = m # ms' \<Longrightarrow> filter P ms = m # filter P ms'"
  by (induction ms) (auto split: if_splits)

lemma list_all_dropWhile: "list_all Q ms \<Longrightarrow> dropWhile P ms = m # ms' \<Longrightarrow> Q m \<and> list_all Q ms'"
  by (induction ms) (auto split: if_splits)

section \<open>The loops\<close>

text \<open>What the reading operations return: the first of the messages, or the end.\<close>

definition returns_first ::
    "(byte list \<Rightarrow> (string \<times> string) option) \<Rightarrow> (string \<Rightarrow> bool) \<Rightarrow> (string \<Rightarrow> bool) \<Rightarrow> cursor_message list \<Rightarrow> (cursor, bool) op \<Rightarrow> cursor \<Rightarrow> bool" where
  "returns_first parse f g ds m c \<longleftrightarrow>
     (case ds of
        [] \<Rightarrow> \<exists>c'. m c = (Inr False, c') \<and> cstate c' = CURSOR_END \<and> msgCursorState (header c') = CURSOR_END
      | d # ds' \<Rightarrow> \<exists>c'. m c = (Inr True, c') \<and> header_is d (header c') \<and> readerValid c' \<and> pend_msg (creader c') = cmBody d \<and>
          isWithinMessageBlock c' \<and> stands parse f g ds' c')"

lemma returns_first_cong: "m c = m' c' \<Longrightarrow> returns_first parse f g ds m c = returns_first parse f g ds m' c'"
  by (cases ds) (simp_all add: returns_first_def)

lemma returns_firstI: "returns_first parse f g ds m' c' \<Longrightarrow> m c = m' c' \<Longrightarrow> returns_first parse f g ds m c"
  using returns_first_cong by blast

lemma returns_first_at_end: "m c = at_end c' \<Longrightarrow> returns_first parse f g [] m c"
  by (simp add: returns_first_def at_end_def bnd_def andthen_def modify_def ret_def)

lemma bnd_false: "m c = (Inr False, c') \<Longrightarrow> bnd m k c = k False c'"
  by (simp add: bnd_def)

text \<open>The rest of a block and then the records behind it.\<close>

lemma block_then:
  assumes fo: "follows f g v c" and at: "cur_at c (block_bytes ms @ stream_of parse v xs rest)" and inside: "isWithinMessageBlock c"
    and valid: "list_all (message_valid v) ms" "records_valid parse v xs" and idle: "\<not> isExecutingSubscriptions (shadow_of c)"
    and after: "\<And>c'. follows f g v c' \<Longrightarrow> cur_at c' (stream_of parse v xs rest) \<Longrightarrow> \<not> isWithinMessageBlock c' \<Longrightarrow>
      \<not> isExecutingSubscriptions (shadow_of c') \<Longrightarrow> returns_first parse f g (delivered_messages parse f g v xs) m c'"
  shows "returns_first parse f g (filter (accepts f g v) ms @ delivered_messages parse f g v xs)
    (bnd readNextMessageInBlock (\<lambda>found. if found then ret True else m)) c"
proof (cases "dropWhile (\<lambda>m. \<not> accepts f g v m) ms")
  case Nil
  obtain c' where c': "core c' = core c" "cursor_ok c'" "readNextMessageInBlock c = (Inr False, c')" "cur_at c' (stream_of parse v xs rest)"
      "\<not> isWithinMessageBlock c'"
    using readNextMessageInBlock_run [OF fo at valid(1)] Nil by auto
  have "returns_first parse f g (delivered_messages parse f g v xs) m c'"
    using after [OF follows_core [OF c'(1,2) fo] c'(4,5)] c'(1) idle by (simp add: core_def Let_def)
  moreover have "bnd readNextMessageInBlock (\<lambda>found. if found then ret True else m) c = m c'" by (simp add: bnd_false [of readNextMessageInBlock, OF c'(3)])
  ultimately show ?thesis using delivered_dropWhile(1) [OF Nil] returns_first_cong by (metis append_Nil)
next
  case (Cons d ms')
  obtain c' where c': "core c' = core c" "cursor_ok c'" "readNextMessageInBlock c = (Inr True, c')"
      "cur_in c' (cmBody d) (block_bytes ms' @ stream_of parse v xs rest)" "header_is d (header c')" "cstate c' = READING"
      "isWithinMessageBlock c' = isWithinMessageBlock c"
    using readNextMessageInBlock_run [OF fo at valid(1)] Cons by auto
  have "stands parse f g (filter (accepts f g v) ms' @ delivered_messages parse f g v xs) c'"
    by (rule stands_inside [OF follows_core [OF c'(1,2) fo] valid(2) _ c'(4)])
      (use c' inside list_all_dropWhile [OF valid(1) Cons] idle in \<open>simp_all add: core_def Let_def\<close>)
  then show ?thesis using c' inside delivered_dropWhile(2) [OF Cons]
    by (auto simp: returns_first_def bnd_ok ret_run cur_in_def)
qed

lemma record_loop_first:
  assumes "follows f g v c" "cur_at c (stream_of parse v xs rest)" "records_valid parse v xs" "\<not> isWithinMessageBlock c"
    "\<not> isExecutingSubscriptions (shadow_of c)" "length xs < k"
  shows "returns_first parse f g (delivered_messages parse f g v xs) (record_loop parse k) c"
  using assms
proof (induction xs arbitrary: v c k)
  case Nil
  then obtain k' where k: "k = Suc k'" by (cases k) auto
  obtain c' where c': "readNextRecord parse c = (Inr False, c')"
    using terminator_record [OF Nil.prems(1) _ Nil.prems(5), of rest parse] Nil.prems(2) by (auto simp: stream_of_def)
  have "record_loop parse k c = at_end c'" unfolding k by (simp add: bnd_false [of "readNextRecord parse", OF c'])
  then show ?case by (simp add: returns_first_at_end)
next
  case (Cons x xs)
  then obtain k' where k: "k = Suc k'" "length xs < k'" by (cases k) auto
  have valid: "record_valid parse v x" "records_valid parse (announce parse x v) xs" using Cons.prems(3) by simp_all
  have at: "cur_at c (record_bytes v x @ stream_of parse (announce parse x v) xs rest)" using Cons.prems(2) by (simp add: stream_Cons)
  show ?case
  proof (cases "\<exists>ms. x = Messages ms")
    case False
    then obtain c' where c': "readNextRecord parse c = (Inr True, c')" "follows f g (announce parse x v) c'"
        "cur_at c' (stream_of parse (announce parse x v) xs rest)" "isWithinMessageBlock c' = isWithinMessageBlock c" "session c' = session c"
      using announcement [OF Cons.prems(1) at valid(1)] by blast
    have d: "delivered_messages parse f g v (x # xs) = delivered_messages parse f g (announce parse x v) xs"
      using False by (cases x) simp_all
    have "returns_first parse f g (delivered_messages parse f g (announce parse x v) xs) (record_loop parse k') c'"
      by (rule Cons.IH [OF c'(2,3) valid(2) _ _ k(2)]) (use c'(4,5) Cons.prems(4,5) in \<open>simp_all add: session_def\<close>)
    moreover have "record_loop parse k c = record_loop parse k' c'"
      using c'(1,4) Cons.prems(4) k(1) by (simp add: bnd_ok gets_run)
    ultimately show ?thesis using d returns_first_cong by metis
  next
    case True
    then obtain ms where x: "x = Messages ms" by blast
    obtain c' where c': "readNextRecord parse c = (Inr True, c')" "follows f g v c'"
        "cur_at c' (block_bytes ms @ stream_of parse v xs rest)" "isWithinMessageBlock c'" "session c' = session c"
      using block_record [OF Cons.prems(1), of ms _ parse] at x by auto
    have "returns_first parse f g (filter (accepts f g v) ms @ delivered_messages parse f g v xs)
        (bnd readNextMessageInBlock (\<lambda>found. if found then ret True else record_loop parse k')) c'"
      by (rule block_then [OF c'(2,3,4)])
        (use valid x c'(5) Cons.prems(5) k(2) in \<open>auto simp: session_def intro: Cons.IH\<close>)
    moreover have "record_loop parse k c = bnd readNextMessageInBlock (\<lambda>found. if found then ret True else record_loop parse k') c'"
      using c'(1,4) k(1) by (simp add: bnd_ok gets_run)
    ultimately show ?thesis using x returns_first_cong by (metis (no_types, lifting) announce.simps(5) delivered_messages.simps(2) server_record.case(5))
  qed
qed

lemma record_loop_fuel:
  assumes "follows f g v c" "cur_at c (stream_of parse v xs rest)" "records_valid parse v xs" "\<not> isWithinMessageBlock c"
    "\<not> isExecutingSubscriptions (shadow_of c)"
  shows "returns_first parse f g (delivered_messages parse f g v xs) (\<lambda>c. record_loop parse (read_fuel c) c) c"
proof -
  have "length xs < read_fuel c" using length_records [of xs parse v] cur_at_fuel [OF assms(2)] by (simp add: stream_of_def)
  from record_loop_first [OF assms this] show ?thesis by (simp add: returns_first_def)
qed

lemma readNextMessage_first:
  assumes "stands parse f g ds c"
  shows "returns_first parse f g ds (readNextMessage parse) c"
proof -
  obtain v xs rest where s: "follows f g v c" "records_valid parse v xs" "\<not> isExecutingSubscriptions (shadow_of c)"
      "if isWithinMessageBlock c
       then \<exists>body ms. list_all (message_valid v) ms \<and> cur_in c body (block_bytes ms @ stream_of parse v xs rest) \<and>
         ds = filter (accepts f g v) ms @ delivered_messages parse f g v xs
       else cur_at c (stream_of parse v xs rest) \<and> ds = delivered_messages parse f g v xs"
    using assms unfolding stands_def by blast
  show ?thesis
  proof (cases "isWithinMessageBlock c")
    case False
    have p: "cur_at c (stream_of parse v xs rest)" "ds = delivered_messages parse f g v xs" using s(4) False by simp_all
    have "returns_first parse f g ds (\<lambda>c. record_loop parse (read_fuel c) c) c"
      unfolding p(2) by (rule record_loop_fuel [OF s(1) p(1) s(2) False s(3)])
    moreover have "readNextMessage parse c = record_loop parse (read_fuel c) c" using False by (simp add: readNextMessage_def bnd_ok gets_run)
    ultimately show ?thesis by (rule returns_firstI)
  next
    case True
    then obtain body ms where b: "list_all (message_valid v) ms" "cur_in c body (block_bytes ms @ stream_of parse v xs rest)"
        "ds = filter (accepts f g v) ms @ delivered_messages parse f g v xs" using s(4) by auto
    obtain r where r: "nextMessage (creader c) = (Inr (), r)" "at_record r" "pend_msg r = block_bytes ms @ stream_of parse v xs rest"
      using leave_message b(2) unfolding cur_in_def by blast
    let ?c = "c\<lparr>creader := r\<rparr>"
    have c1: "on_reader nextMessage c = (Inr (), ?c)" "cur_at ?c (block_bytes ms @ stream_of parse v xs rest)"
      using r b(2) by (simp_all add: on_reader_def cur_at_def cur_in_def)
    have "follows f g v ?c" by (rule follows_core [OF _ _ s(1)]) (use s(1) in \<open>simp_all add: follows_def\<close>)
    then have "returns_first parse f g ds
        (bnd readNextMessageInBlock (\<lambda>found. if found then ret True else (\<lambda>c. record_loop parse (read_fuel c) c))) ?c"
      unfolding b(3) using block_then [of f g v ?c ms parse xs rest "\<lambda>c. record_loop parse (read_fuel c) c"] c1(2) b(1) s(2,3) True record_loop_fuel
      by (simp add: shadow_of_def)
    moreover have "readNextMessage parse c =
        bnd readNextMessageInBlock (\<lambda>found. if found then ret True else (\<lambda>c. record_loop parse (read_fuel c) c)) ?c"
      using c1(1) True by (simp add: readNextMessage_def bnd_def [of "gets _"] gets_run andthen_ok [of "on_reader nextMessage"])
    ultimately show ?thesis by (rule returns_firstI)
  qed
qed

section \<open>The calls\<close>

lemma stands_running: "stands parse f g ds c \<Longrightarrow> cstate c \<noteq> CURSOR_END"
  by (simp add: stands_def)

lemma stands_congs:
  assumes "core c' = core c" "cursor_ok c' = cursor_ok c" "cstate c' = cstate c" "isWithinMessageBlock c' = isWithinMessageBlock c"
    and "readerValid c' = readerValid c" "creader c' = creader c"
  shows "stands parse f g ds c' = stands parse f g ds c"
proof -
  have "isExecutingSubscriptions (shadow_of c') = isExecutingSubscriptions (shadow_of c)" using assms(1) by (simp add: core_def Let_def)
  moreover have "follows f g v c' = follows f g v c" for v
    using follows_core [OF assms(1)] follows_core [OF assms(1) [symmetric]] assms(2) by (auto simp: follows_def)
  ultimately show ?thesis using assms cur_congs [of c' c] by (simp add: stands_def)
qed

lemma in_next_stands: "stands parse f g ds (c\<lparr>isInNext := b\<rparr>) = stands parse f g ds c"
  by (rule stands_congs) (simp_all add: core_def shadow_of_def cursor_ok_def)

lemma cursor_next_first:
  assumes "stands parse f g ds c"
  shows "returns_first parse f g ds (cursor_next parse False avail) c"
proof -
  let ?c = "c\<lparr>isInNext := True\<rparr>"
  have s: "stands parse f g ds ?c" using assms by (simp add: in_next_stands)
  have b: "next_body parse False avail ?c = readNextMessage parse ?c"
    using stands_running [OF s] by (simp add: next_body_def bnd_def gets_def ret_def)
  note r = readNextMessage_first [OF s]
  show ?thesis
  proof (cases ds)
    case Nil
    then show ?thesis using r b by (auto simp: returns_first_def cursor_next_def)
  next
    case (Cons d ds')
    then obtain c' where c': "readNextMessage parse ?c = (Inr True, c')" "header_is d (header c')" "readerValid c'"
        "pend_msg (creader c') = cmBody d" "isWithinMessageBlock c'" "stands parse f g ds' c'" using r by (auto simp: returns_first_def)
    then show ?thesis using b Cons by (simp add: returns_first_def cursor_next_def in_next_stands)
  qed
qed

section \<open>A client\<close>

text \<open>After a call that returns true the client reads some bytes of the body and leaves the rest.\<close>

primrec client_reads :: "nat \<Rightarrow> (cursor, unit) op" where
  "client_reads 0 = ret ()"
| "client_reads (Suc n) = bnd (on_reader getByte) (\<lambda>_. client_reads n)"

text \<open>The client calls once for each entry of \<open>wants\<close>, the number of bytes of the body it is interested in, and
  stops when a call returns false; the result is what it sees of the messages.\<close>

fun receive_all ::
    "(byte list \<Rightarrow> (string \<times> string) option) \<Rightarrow> nat list \<Rightarrow> cursor \<Rightarrow> exn + (message_header \<times> byte list) list \<times> bool" where
  "receive_all parse [] c = Inr ([], isAtEnd c)"
| "receive_all parse (want # wants) c =
     (case cursor_next parse False 0 c of
        (Inl e, c') \<Rightarrow> Inl e
      | (Inr False, c') \<Rightarrow> Inr ([], isAtEnd c')
      | (Inr True, c') \<Rightarrow>
         (case client_reads (min want (length (pend_msg (creader c')))) c' of
            (Inl e, c'') \<Rightarrow> Inl e
          | (Inr _, c'') \<Rightarrow> map_sum id (\<lambda>(ms, e). ((header c', pend_msg (creader c')) # ms, e)) (receive_all parse wants c'')))"

lemma client_reads_stands:
  "stands parse f g ds c \<Longrightarrow> isWithinMessageBlock c \<Longrightarrow> n \<le> length (pend_msg (creader c)) \<Longrightarrow>
   \<exists>c'. client_reads n c = (Inr (), c') \<and> stands parse f g ds c'"
proof (induction n arbitrary: c)
  case (Suc n)
  then obtain v xs rest body ms where s: "cstate c \<noteq> CURSOR_END" "\<not> isExecutingSubscriptions (shadow_of c)"
      "follows f g v c" "records_valid parse v xs" "list_all (message_valid v) ms"
      "cur_in c body (block_bytes ms @ stream_of parse v xs rest)" "ds = filter (accepts f g v) ms @ delivered_messages parse f g v xs"
    unfolding stands_def by auto
  obtain b body' where b: "body = [b] @ body'" using Suc.prems(3) s(6) by (cases body) (auto simp: cur_in_def)
  obtain r where r: "on_reader getByte c = (Inr b, c\<lparr>creader := r\<rparr>)"
      "cur_in (c\<lparr>creader := r\<rparr>) body' (block_bytes ms @ stream_of parse v xs rest)"
    using cur_in_reads [OF body_src.reads_getByte] s(6) unfolding b by blast
  let ?c = "c\<lparr>creader := r\<rparr>"
  have "follows f g v ?c" by (rule follows_core [OF _ _ s(3)]) (use s(3) in \<open>simp_all add: follows_def\<close>)
  then have "stands parse f g ds ?c"
    unfolding s(7) by (rule stands_inside [OF _ s(4,5) r(2)]) (use s Suc.prems(2) in \<open>simp_all add: shadow_of_def\<close>)
  moreover have "n \<le> length (pend_msg (creader ?c))" using Suc.prems(3) s(6) r(2) b by (simp add: cur_in_def)
  ultimately show ?case using Suc.IH [of ?c] Suc.prems(2) r(1) by (simp add: bnd_ok)
qed (simp add: ret_run)

lemma receive_all_stands:
  "stands parse f g ds c \<Longrightarrow> length ds < length wants \<Longrightarrow>
   \<exists>hs. receive_all parse wants c = Inr (hs, True) \<and> list_all2 (\<lambda>m (h, body). header_is m h \<and> body = cmBody m) ds hs"
proof (induction wants arbitrary: ds c)
  case (Cons want wants)
  note r = cursor_next_first [OF Cons.prems(1), of 0]
  show ?case
  proof (cases ds)
    case Nil
    then show ?thesis using r by (auto simp: returns_first_def isAtEnd_def)
  next
    case (Cons d ds')
    then obtain c' where c': "cursor_next parse False 0 c = (Inr True, c')" "header_is d (header c')" "readerValid c'"
        "pend_msg (creader c') = cmBody d" "isWithinMessageBlock c'" "stands parse f g ds' c'" using r by (auto simp: returns_first_def)
    obtain c'' where c'': "client_reads (min want (length (pend_msg (creader c')))) c' = (Inr (), c'')" "stands parse f g ds' c''"
      using client_reads_stands [OF c'(6,5), of "min want (length (pend_msg (creader c')))"] by auto
    obtain hs where "receive_all parse wants c'' = Inr (hs, True)"
        "list_all2 (\<lambda>m (h, body). header_is m h \<and> body = cmBody m) ds' hs"
      using Cons.IH [OF c''(2)] Cons.prems(2) Cons by auto
    then show ?thesis using c' c''(1) Cons by simp
  qed
qed simp

text \<open>C3: A client that calls \<^verbatim>\<open>next\<close> on a stream of announcements, pings and message blocks, and reads as much or as
  little of each body as it wants, gets exactly the messages that the subscription accepts by the names of symbol and
  type (and the system messages), in the order sent, each with its own time, symbol, type, stream and body, and then the end;
  names are resolved by what was announced before, wherever blocks and announcements lie in the stream.\<close>

theorem cursor_delivers_subscription:
  assumes "follows f g v c" "\<not> isExecutingSubscriptions (shadow_of c)" "cstate c \<noteq> CURSOR_END" "\<not> isWithinMessageBlock c"
    and "records_valid parse v xs" "cur_at c (records_bytes parse v xs @ TERMINATOR_BLOCK_ID # rest)"
    and "length (delivered_messages parse f g v xs) < length wants"
  shows "\<exists>hs. receive_all parse wants c = Inr (hs, True) \<and>
    list_all2 (\<lambda>m (h, body). header_is m h \<and> body = cmBody m) (delivered_messages parse f g v xs) hs"
proof -
  have "stands parse f g (delivered_messages parse f g v xs) c"
    unfolding stands_def using assms(1-6) by (auto simp: stream_of_def)
  from receive_all_stands [OF this assms(7)] show ?thesis .
qed

text \<open>A new cursor that skips nothing, with a part of memory as its stream.\<close>

definition cursor_over :: "byte list \<Rightarrow> cursor" where
  "cursor_over bs = (sample_cursor [])\<lparr>creader := (reader_of bs)\<lparr>contentEnd := no_content_end\<rparr>, cstate := STARTED\<rparr>"

lemma reader_of_at_record:
  assumes "length bs \<le> 2 ^ 19"
  shows "at_record ((reader_of bs)\<lparr>contentEnd := no_content_end\<rparr>)" "pend_msg ((reader_of bs)\<lparr>contentEnd := no_content_end\<rparr>) = bs"
proof -
  let ?r = "(reader_of bs)\<lparr>contentEnd := no_content_end\<rparr>"
  have i: "msg_ok (reader_of bs)" "pend_msg (reader_of bs) = bs" using reader_of_inside [OF assms] by (simp_all add: inside_def)
  have sl: "stream_left ?r = bs" using assms
    by (simp add: stream_left_def view_def reader_of_def reader_over_def load_store_same closed_tcp_def tcp_avail_def)
  have "msg_ok ?r" using i(1) assms by (auto simp: msg_ok_def buffer_ok_def reader_of_def reader_over_def no_content_end_def READ_BUFFER_SIZE_def)
  moreover have "length bs \<le> content_left ?r" using assms
    by (simp add: content_left_def reader_of_def reader_over_def no_content_end_def READ_BUFFER_SIZE_def)
  moreover have "rdepth ?r = 0" "bufEnd ?r = 2 ^ 20" by (simp_all add: reader_of_def reader_over_def)
  ultimately show "at_record ?r" using assms sl by (simp add: at_record_def sized_def)
  then show "pend_msg ?r = bs" using sl at_record_pend by simp
qed

lemma cursor_over_state:
  "core (cursor_over bs) = core (sample_cursor [])" "shadow_of (cursor_over bs) = shadow_of (sample_cursor [])"
  "cursor_ok (cursor_over bs) = cursor_ok (sample_cursor [])"
  by (simp_all add: cursor_over_def core_def shadow_of_def cursor_ok_def)

lemma sample_cursor_state:
  "shadow_of (sample_cursor answers) = clearMessageFilters False new_subscription"
  "isSystemMessage (sample_cursor answers) = replicate 0x100 False"
  "readerValid (sample_cursor answers)" "\<not> isWithinMessageBlock (sample_cursor answers)" "cUseEntityId32 (sample_cursor answers)"
  by (simp_all add: sample_cursor_def on_main_def modify_def shadow_of_def main_of_def new_cursor_def)

lemma sample_cursor_follows:
  "follows (\<lambda>_. False) (\<lambda>_. False) \<lparr>anSymbols = [], anTypes = [], anStreams = 0\<rparr> (sample_cursor [])"
proof -
  let ?s = "clearMessageFilters False new_subscription"
  have t: "subTables ?s = new_symbol_translator" "isUnregisteredSymbolSkipped ?s = Map.empty" "lutDefault (isSymbolSkipped ?s) = 0"
      "isUnregisteredMessageTypeSkipped ?s = Map.empty" "lutDefault (isMessageDescriptorSkipped ?s) = 0" "\<not> isResetInProgress ?s"
    by (simp_all add: clearMessageFilters_def flag_def new_subscription_def lut_clear_def lut_setDefaultValue_def)
  have n: "s2i (instruments new_symbol_translator) = Map.empty" "biSize (instruments new_symbol_translator) = 0"
      "messageDescriptors new_symbol_translator = []" "typeList new_symbol_translator = []" "lutSize (streamKeys new_symbol_translator) = 0"
      "streamIndex new_symbol_translator = Map.empty" "findMsgDescByType new_symbol_translator m = EMPTY_MSG_TYPE_ID" for m
    by (simp_all add: new_symbol_translator_def new_bilut_def new_lut_def findMsgDescByType_def)
  have "symbol_skipped ?s m = False" "type_skipped ?s m = False" for m by (simp_all add: symbol_skipped_def type_skipped_def t n)
  then show ?thesis using sample_cursor_ok(1,2) [of "[]"]
    by (auto simp: follows_def sample_cursor_state knows_def t n)
qed

lemma cursor_over_at:
  assumes "length bs \<le> 2 ^ 19"
  shows "cur_at (cursor_over bs) bs"
  using reader_of_at_record [OF assms] sample_cursor_state by (simp add: cursor_over_def cur_at_def)

definition sample_records :: "server_record list" where
  "sample_records = [NewSymbol [65], NewType [84], NewStream [83], Ping, Messages [\<lparr>cmTime = 7, cmEntity = 0, cmType = 0, cmStream = 0, cmBody = [1, 2, 3]\<rparr>]]"

theorem cursor_delivers_subscription_witness:
  "let parse = (\<lambda>_. Some (''T'', ''G'')); v = \<lparr>anSymbols = [], anTypes = [], anStreams = 0\<rparr>;
       bs = records_bytes parse v sample_records @ [TERMINATOR_BLOCK_ID] in
   \<exists>h. receive_all parse [1, 9] (cursor_over bs) = Inr ([(h, [1, 2, 3])], True) \<and> msgTimestamp h = 7"
proof -
  let ?parse = "\<lambda>_ :: byte list. Some (''T'', ''G'')" and ?v = "\<lparr>anSymbols = [], anTypes = [], anStreams = 0\<rparr>"
  let ?m = "\<lparr>cmTime = 7, cmEntity = 0, cmType = 0, cmStream = 0, cmBody = [1, 2, 3]\<rparr>"
  let ?bs = "records_bytes ?parse ?v sample_records @ [TERMINATOR_BLOCK_ID]"
  have l: "length (message_content ?m) = 15" by (simp add: message_content_def entity_bytes_def)
  have d: "delivered_messages ?parse (\<lambda>_. False) (\<lambda>_. False) ?v sample_records = [?m]"
    by (simp add: sample_records_def accepts_def)
  have valid: "records_valid ?parse ?v sample_records"
    using l by (simp add: sample_records_def message_valid_def stream_of_byte_def layout_defs)
  have "length ?bs \<le> 2 ^ 19"
    using l by (simp add: sample_records_def block_bytes_def message_bytes_def entity_bytes_def utf8_bytes_def)
  note at = cursor_over_at [OF this]
  have fo: "follows (\<lambda>_. False) (\<lambda>_. False) ?v (cursor_over ?bs)"
    by (rule follows_core [OF cursor_over_state(1) _ sample_cursor_follows]) (simp add: cursor_over_state(3) sample_cursor_ok)
  have e: "\<not> isExecutingSubscriptions (shadow_of (cursor_over ?bs))" "cstate (cursor_over ?bs) \<noteq> CURSOR_END" "\<not> isWithinMessageBlock (cursor_over ?bs)"
    unfolding cursor_over_state(2) sample_cursor_state(1)
    by (simp_all add: cursor_over_def sample_cursor_state isExecutingSubscriptions_def clearMessageFilters_def new_subscription_def)
  obtain hs where "receive_all ?parse [1, 9] (cursor_over ?bs) = Inr (hs, True)"
      "list_all2 (\<lambda>m (h, body). header_is m h \<and> body = cmBody m) [?m] hs"
    using cursor_delivers_subscription [OF fo e valid at, of "[1, 9]"] unfolding d by auto
  then show ?thesis by (auto simp: list_all2_Cons1 header_is_def Let_def)
qed

end
