(* ===== verification/CText.thy ===== *)
theory CText
  imports Prelude
begin

text \<open>
  Text as the code handles it: byte strings with the C library's searching, the terminating zero of
  \<^verbatim>\<open>c_str\<close>, and the parsing and printing of unsigned numbers (\<^verbatim>\<open>strtoull\<close>, \<^verbatim>\<open>%llu\<close>, \<^verbatim>\<open>%x\<close>) with which the
  HTTP client (\<^verbatim>\<open>tickdb/http/tickdb_http.cpp\<close>) and the URI parser (\<^verbatim>\<open>tickdb/http/uri.cpp\<close>) work.
\<close>

abbreviation CR :: "8 word" where "CR \<equiv> 13"
abbreviation LF :: "8 word" where "LF \<equiv> 10"
abbreviation CRLF :: "byte list" where "CRLF \<equiv> [CR, LF]"

section \<open>Searching\<close>

text \<open>The characters that a C function sees.\<close>

definition c_text :: "byte list \<Rightarrow> byte list" where
  "c_text s = takeWhile (\<lambda>b. b \<noteq> 0) s"

definition starts :: "'a list \<Rightarrow> 'a list \<Rightarrow> bool" where
  "starts p s \<longleftrightarrow> take (length p) s = p"

lemma c_text_append: "0 \<notin> set a \<Longrightarrow> c_text (a @ b) = a @ c_text b"
  by (induction a) (auto simp: c_text_def)

lemma c_text_Cons: "b \<noteq> 0 \<Longrightarrow> c_text (b # s) = b # c_text s"
  by (simp add: c_text_def)

text \<open>The first occurrence of a string.\<close>

fun find_sub :: "'a list \<Rightarrow> 'a list \<Rightarrow> nat option" where
  "find_sub p [] = (if p = [] then Some 0 else None)"
| "find_sub p (x # xs) = (if starts p (x # xs) then Some 0 else map_option Suc (find_sub p xs))"

lemma starts_append [simp]: "starts p (p @ s)"
  by (simp add: starts_def)

lemma starts_Nil [simp]: "starts [] s" "starts (x # p) [] = False"
  by (simp_all add: starts_def)

lemma starts_Cons [simp]: "starts (x # p) (y # s) = (x = y \<and> starts p s)"
  by (auto simp: starts_def)

lemma starts_length: "starts p s \<Longrightarrow> length p \<le> length s"
  by (metis starts_def length_take min.absorb_iff1 nat_le_linear min.absorb_iff2)

lemma find_sub_bound: "find_sub p s = Some i \<Longrightarrow> i + length p \<le> length s"
  by (induction s arbitrary: i) (auto split: if_splits dest: starts_length)

lemma find_sub_starts: "starts p s \<Longrightarrow> find_sub p s = Some 0"
  by (cases s) (auto simp: starts_def)

lemma find_sub_here: "p \<noteq> [] \<Longrightarrow> hd p \<notin> set xs \<Longrightarrow> find_sub p (xs @ p @ ys) = Some (length xs)"
proof (induction xs)
  case Nil
  then show ?case using find_sub_starts [of p "p @ ys"] by simp
next
  case (Cons x xs)
  then have "\<not> starts p (x # xs @ p @ ys)" by (cases p) auto
  then show ?case using Cons by simp
qed

text \<open>A pattern without the character that ends a line is found within a line.\<close>

lemma starts_line: "x \<notin> set p \<Longrightarrow> starts p (l @ x # s) = starts p l"
proof (induction p arbitrary: l)
  case (Cons y p)
  then show ?case by (cases l) auto
qed simp

lemma find_sub_line:
  "x \<notin> set p \<Longrightarrow> p \<noteq> [] \<Longrightarrow> find_sub p l = None \<Longrightarrow>
   find_sub p (l @ x # s) = map_option (\<lambda>i. Suc (length l + i)) (find_sub p s)"
proof (induction l)
  case Nil
  then have "\<not> starts p (x # s)" by (cases p) auto
  then show ?case by (cases "find_sub p s") auto
next
  case (Cons y l)
  then have "\<not> starts p (y # l @ x # s)" using starts_line [of x p "y # l" s] by (auto split: if_splits)
  then show ?case using Cons by (auto simp: option.map_comp o_def split: if_splits)
qed

section \<open>Numbers\<close>

definition is_space :: "byte \<Rightarrow> bool" where
  "is_space b \<longleftrightarrow> b = 32 \<or> 9 \<le> b \<and> b \<le> 13"

definition digit_value :: "byte \<Rightarrow> nat" where
  "digit_value b =
     (if 48 \<le> b \<and> b \<le> 57 then unat b - 48
      else if 97 \<le> b \<and> b \<le> 122 then unat b - 87
      else if 65 \<le> b \<and> b \<le> 90 then unat b - 55 else 36)"

definition number :: "nat \<Rightarrow> byte list \<Rightarrow> nat" where
  "number base ds = foldl (\<lambda>v b. v * base + digit_value b) 0 ds"

text \<open>The value and the number of characters used. The prefix \<^verbatim>\<open>0x\<close> that base 16 allows is left out: the one
  caller with that base passes digits only.\<close>

definition strtoull :: "nat \<Rightarrow> byte list \<Rightarrow> 64 word \<times> nat" where
  "strtoull base s =
     (let ws = length (takeWhile is_space s);
          s1 = drop ws s;
          neg = (s1 \<noteq> [] \<and> hd s1 = 45);
          sg = (if s1 \<noteq> [] \<and> hd s1 \<in> {43, 45} then 1 else 0);
          ds = takeWhile (\<lambda>b. digit_value b < base) (drop sg s1);
          n = number base ds
      in if ds = [] then (0, 0)
         else (if 2 ^ 64 \<le> n then - 1 else if neg then - of_nat n else of_nat n, ws + sg + length ds))"

definition digit_char :: "nat \<Rightarrow> byte" where
  "digit_char n = (if n < 10 then of_nat (48 + n) else of_nat (87 + n))"

text \<open>\<^verbatim>\<open>%llu\<close> and \<^verbatim>\<open>%x\<close>.\<close>

function digits :: "nat \<Rightarrow> nat \<Rightarrow> byte list" where
  "digits base n = (if n < base \<or> base < 2 then [digit_char n] else digits base (n div base) @ [digit_char (n mod base)])"
  by pat_completeness auto
termination
  by (relation "measure snd") auto

declare digits.simps [simp del]

lemma digit_char_value: "n < 36 \<Longrightarrow> digit_value (digit_char n) = n"
proof -
  assume n: "n < 36"
  have w: "of_nat k \<le> (of_nat j :: byte) \<longleftrightarrow> k \<le> j" if "k < 256" "j < 256" for k j
    using that by (simp add: word_le_nat_alt unat_of_nat take_bit_nat_eq_self)
  have u: "unat (of_nat k :: byte) = k" if "k < 256" for k
    using that by (simp add: unat_of_nat take_bit_nat_eq_self)
  show ?thesis
  proof (cases "n < 10")
    case True
    then show ?thesis using n w [of 48 "48 + n"] w [of "48 + n" 57] u [of "48 + n"] by (simp add: digit_value_def digit_char_def)
  next
    case False
    then show ?thesis using n w [of 48 "87 + n"] w [of "87 + n" 57] w [of 97 "87 + n"] w [of "87 + n" 122] u [of "87 + n"]
      by (simp add: digit_value_def digit_char_def)
  qed
qed

lemma number_snoc: "number base (ds @ [d]) = number base ds * base + digit_value d"
  by (simp add: number_def)

lemma number_digits: "2 \<le> base \<Longrightarrow> base \<le> 36 \<Longrightarrow> number base (digits base n) = n"
proof (induction base n rule: digits.induct)
  case (1 base n)
  show ?case
  proof (cases "n < base")
    case True
    then show ?thesis using 1 by (simp add: digits.simps [of base n] number_def digit_char_value)
  next
    case False
    have "n mod base < 36" using 1 mod_less_divisor [of base n] by linarith
    then show ?thesis using 1 False by (subst digits.simps) (simp add: number_snoc digit_char_value)
  qed
qed

lemma digits_are_digits: "2 \<le> base \<Longrightarrow> base \<le> 36 \<Longrightarrow> d \<in> set (digits base n) \<Longrightarrow> digit_value d < base"
proof (induction base n rule: digits.induct)
  case (1 base n)
  have m: "n mod base < base" using 1 by simp
  then have "n mod base < 36" using 1 by linarith
  then have "digit_value (digit_char (n mod base)) < base" using m by (simp only: digit_char_value)
  moreover have "n < base \<Longrightarrow> digit_value (digit_char n) < base" using 1 digit_char_value [of n] by simp
  ultimately show ?case using 1 by (subst (asm) digits.simps) (auto split: if_splits)
qed

lemma digits_ne [simp]: "digits base n \<noteq> []"
  by (subst digits.simps) simp

lemma digit_not_special: "digit_value b < base \<Longrightarrow> base \<le> 36 \<Longrightarrow> \<not> is_space b \<and> b \<noteq> 43 \<and> b \<noteq> 45 \<and> b \<noteq> CR \<and> b \<noteq> LF \<and> b \<noteq> 0"
  by (auto simp: digit_value_def is_space_def word_le_nat_alt split: if_splits)

text \<open>A printed number is read back, with spaces in front and anything but a digit behind it.\<close>

lemma strtoull_digits:
  assumes "2 \<le> base" "base \<le> 36" "n < 2 ^ 64" "\<forall>b \<in> set ws. is_space b" "rest = [] \<or> \<not> digit_value (hd rest) < base"
  shows "strtoull base (ws @ digits base n @ rest) = (of_nat n, length ws + length (digits base n))"
proof -
  let ?d = "digits base n"
  have all: "digit_value d < base \<and> \<not> is_space d \<and> d \<noteq> 43 \<and> d \<noteq> 45" if "d \<in> set ?d" for d
    using digits_are_digits [OF assms(1,2) that] digit_not_special [of d base] assms(2) by simp
  obtain d ds where d: "?d = d # ds" by (cases ?d) auto
  have h: "\<not> is_space d \<and> d \<noteq> 43 \<and> d \<noteq> 45" using all d by auto
  have w: "takeWhile is_space (ws @ ?d @ rest) = ws" using assms(4) d h by (simp add: takeWhile_append)
  have "takeWhile (\<lambda>b. digit_value b < base) (?d @ rest) = ?d"
    using all assms(5) by (cases rest) (simp_all add: takeWhile_append)
  then show ?thesis
    using h number_digits [OF assms(1,2), of n] assms(3) unfolding strtoull_def w by (simp add: Let_def d)
qed

end
