(* ===== verification/Http.thy ===== *)
theory Http
  imports CText CursorReader
begin

text \<open>
  The HTTP client of the database (\<^verbatim>\<open>tickdb/http/tickdb_http.cpp\<close>): the text of a request, and reading a
  response: the header byte by byte, its code, the length of the body, and the body in the three framings. A
  \<^verbatim>\<open>std::string\<close> is a list of bytes. Loops that end only when the connection does have as fuel one more
  than the bytes that can still arrive.
\<close>

section \<open>Requests\<close>

datatype content_type = TypeNone | TypeXml | TypeBinary
datatype content_length = LengthNone | LengthFixed | LengthChunked

text \<open>The types and lengths that are completed from each other.\<close>

definition request_content :: "byte list option \<Rightarrow> content_type \<Rightarrow> content_length \<Rightarrow> content_type \<times> content_length" where
  "request_content body ct cl =
     (case body of
        None \<Rightarrow> (TypeNone, LengthNone)
      | Some _ \<Rightarrow>
          let ct' = (if ct = TypeNone then (if cl \<noteq> LengthChunked then TypeXml else TypeBinary) else ct)
          in (ct', if cl = LengthNone then (if ct' = TypeBinary then LengthChunked else LengthFixed) else cl))"

fun content_type_text :: "content_type \<Rightarrow> string" where
  "content_type_text TypeNone = ''''"
| "content_type_text TypeXml = ''text/xml''"
| "content_type_text TypeBinary = ''application/x-www-form-urlencoded''"

text \<open>The first part is printed into a buffer of 0x3000 bytes. \<open>auth\<close> is the encoded text of the credentials,
  empty if there are none.\<close>

definition request_header :: "byte list \<Rightarrow> byte list \<Rightarrow> byte list \<Rightarrow> byte list option \<Rightarrow> content_type \<Rightarrow> content_length \<Rightarrow> byte list \<Rightarrow> exn + byte list" where
  "request_header request path host body ct cl auth =
     (let (ct', cl') = request_content body ct cl in
      if 0x3000 - 0x200 < length host then Inl (RuntimeError ''sendRequest() : Host name length is too long'')
      else Inr (take (0x3000 - 1) (request @ string_bytes '' '' @ path @ string_bytes '' HTTP/1.1'' @
          CRLF @ string_bytes ''Host: '' @ c_text host @
          CRLF @ string_bytes ''Connection: close'' @
          (if ct' \<noteq> TypeNone then CRLF @ string_bytes ''Content-Type: '' else []) @ string_bytes (content_type_text ct')) @
        (case cl' of
           LengthFixed \<Rightarrow> CRLF @ string_bytes ''Content-Length: '' @ digits 10 (length (case body of Some b \<Rightarrow> b | None \<Rightarrow> []))
         | LengthNone \<Rightarrow> CRLF
         | LengthChunked \<Rightarrow> CRLF @ CRLF @ string_bytes ''Transfer-Encoding: chunked'') @ CRLF @
        (if auth \<noteq> [] then string_bytes ''Authorization: Basic '' @ auth @ CRLF else []) @
        CRLF))"

definition request_bytes :: "byte list \<Rightarrow> byte list \<Rightarrow> byte list \<Rightarrow> byte list option \<Rightarrow> content_type \<Rightarrow> content_length \<Rightarrow> byte list \<Rightarrow> exn + byte list" where
  "request_bytes request path host body ct cl auth =
     map_sum id (\<lambda>h. h @ (case body of Some b \<Rightarrow> b | None \<Rightarrow> [])) (request_header request path host body ct cl auth)"

definition post_path :: "content_type \<Rightarrow> exn + byte list" where
  "post_path ct =
     (case ct of TypeNone \<Rightarrow> Inr (string_bytes ''/tb/bin'') | TypeXml \<Rightarrow> Inr (string_bytes ''/tb/xml'')
      | TypeBinary \<Rightarrow> Inl (Undefined ''tbPostRequestPath[2]''))"

section \<open>The header of a response\<close>

record response_header =
  headerText :: "byte list"
  httpCode :: "32 word"
  stringEnd :: nat

definition responseStartOffset :: nat where [layout_defs]: "responseStartOffset = 9"
definition responseStringStartOffset :: nat where [layout_defs]: "responseStringStartOffset = 13"

text \<open>\<open>matched\<close> is the number of characters of the empty line that were seen; a mismatch starts again behind the
  character that did not match.\<close>

fun read_header_loop :: "nat \<Rightarrow> nat \<Rightarrow> byte list \<Rightarrow> (reader, byte list) op" where
  "read_header_loop 0 matched acc = throw (Undefined ''fuel'')"
| "read_header_loop (Suc k) matched acc =
     (if 4 \<le> matched then ret acc
      else bnd getByte (\<lambda>c.
        read_header_loop k (if (CRLF @ CRLF) ! matched \<noteq> c then 0 else Suc matched) (acc @ [c])))"

definition http_fuel :: "reader \<Rightarrow> nat" where
  "http_fuel r = length (stream_left r) + 2"

definition responseText :: "response_header \<Rightarrow> byte list" where
  "responseText h = drop responseStartOffset (take (max (stringEnd h) responseStartOffset) (headerText h))"

text \<open>It reports an error for a text of more than 0x380 bytes only.\<close>

definition parseException :: "response_header \<Rightarrow> (exn + 32 word) \<times> response_header" where
  "parseException h =
     (if 0x380 < length (headerText h)
      then (Inl (RuntimeError ''HTTP::ResponseHeader::parse(): Unexpected HTTP header returned''), h\<lparr>headerText := take 0x380 (headerText h)\<rparr>)
      else (Inr 0, h))"

definition limitLengthTo :: "nat \<Rightarrow> response_header \<Rightarrow> response_header" where
  "limitLengthTo limit h = (if limit < stringEnd h then h\<lparr>stringEnd := limit\<rparr> else h)"

definition parse_header :: "response_header \<Rightarrow> (exn + 32 word) \<times> response_header" where
  "parse_header h =
     (let text = headerText h in
      if length text < responseStringStartOffset then (Inl (Undefined ''c_str() + 13''), h)
      else case find_sub CRLF (c_text (drop responseStringStartOffset text)) of
        None \<Rightarrow> parseException h
      | Some eol \<Rightarrow>
          let h1 = h\<lparr>stringEnd := responseStringStartOffset + eol\<rparr> in
          if \<not> starts (string_bytes ''HTTP/1.1 '') text then parseException h1
          else
            let code = ucast (fst (strtoull 10 (c_text (drop 9 text)))) :: 32 word;
                h2 = h1\<lparr>httpCode := code\<rparr> in
            if code < 100 \<or> 600 \<le> code
            then (Inl (RuntimeError ''HTTP::parseResponseHeader(): Unknown HTTP response code''), limitLengthTo 0x400 h2)
            else (Inr code, h2))"

definition readResponseHeader :: "(reader, 32 word \<times> response_header) op" where
  "readResponseHeader =
     bnd (\<lambda>r. read_header_loop (http_fuel r) 0 [] r) (\<lambda>text.
     case parse_header \<lparr>headerText = text, httpCode = 0, stringEnd = 0\<rparr> of
       (Inl e, h) \<Rightarrow> throw e
     | (Inr code, h) \<Rightarrow> ret (code, h))"

text \<open>The signed result: -1 for the chunked encoding, 0 if nothing is said about the length.\<close>

definition parseContentLength :: "byte list \<Rightarrow> 64 word" where
  "parseContentLength text =
     (case find_sub (string_bytes ''Content-Length:'') text of
        None \<Rightarrow> (if find_sub (string_bytes ''Encoding: chunked'') text = None then 0 else - 1)
      | Some ofs \<Rightarrow> fst (strtoull 10 (c_text (drop (ofs + 15) text))))"

section \<open>The body of a response\<close>

primrec get_chars :: "nat \<Rightarrow> (reader, byte list) op" where
  "get_chars 0 = ret []"
| "get_chars (Suc n) = bnd getByte (\<lambda>c. bnd (get_chars n) (\<lambda>cs. ret (c # cs)))"

text \<open>Until the server disconnects.\<close>

fun read_until_close :: "nat \<Rightarrow> byte list \<Rightarrow> (reader, byte list) op" where
  "read_until_close 0 acc = throw (Undefined ''fuel'')"
| "read_until_close (Suc k) acc =
     (\<lambda>r. case getByte r of
        (Inl (Disconnected e), r') \<Rightarrow> (Inr acc, r')
      | (Inl e, r') \<Rightarrow> (Inl e, r')
      | (Inr c, r') \<Rightarrow> read_until_close k (acc @ [c]) r')"

definition is_hex :: "byte \<Rightarrow> bool" where
  "is_hex ch \<longleftrightarrow> ch - 48 < 10 \<or> ch - 97 < 6 \<or> ch - 65 < 6"

fun skip_extension :: "nat \<Rightarrow> (reader, unit) op" where
  "skip_extension 0 = throw (Undefined ''fuel'')"
| "skip_extension (Suc k) = bnd getByte (\<lambda>c. if c \<noteq> CR then skip_extension k else ret ())"

text \<open>None: the size ends with an unexpected character.\<close>

fun read_chunk_size :: "nat \<Rightarrow> byte list \<Rightarrow> (reader, byte list option) op" where
  "read_chunk_size 0 acc = throw (Undefined ''fuel'')"
| "read_chunk_size (Suc k) acc =
     bnd getByte (\<lambda>ch.
     if \<not> is_hex ch
     then (if ch = 59 then andthen (skip_extension k) (ret (Some acc))
           else if ch \<noteq> CR then ret None else ret (Some acc))
     else read_chunk_size k (acc @ [ch]))"

text \<open>The size is converted to a signed number of the pointer's width; a negative one shortens the body.\<close>

fun read_chunks :: "nat \<Rightarrow> byte list \<Rightarrow> (reader, byte list \<times> bool) op" where
  "read_chunks 0 body = throw (Undefined ''fuel'')"
| "read_chunks (Suc k) body =
     bnd (\<lambda>r. read_chunk_size (http_fuel r) [] r) (\<lambda>s.
     case s of
       None \<Rightarrow> ret (body, False)
     | Some sizeText \<Rightarrow>
         if sizeText = [] then ret (body, False)
         else let chunkSize = fst (strtoull 16 sizeText); newSize = of_nat (length body) + chunkSize in
           if chunkSize = 0 then ret (body, True)
           else andthen (skip 1)
             (if 2 ^ 63 \<le> newSize then throw (LogicError ''basic_string::resize'')
              else bnd (get_chars (if sint chunkSize < 0 then 0 else unat chunkSize)) (\<lambda>cs.
                andthen (skip 2) (read_chunks k (take (unat newSize) (body @ cs))))))"

definition readResponseBody :: "64 word \<Rightarrow> (reader, byte list \<times> bool) op" where
  "readResponseBody contentLength =
     (if 0 < sint contentLength then bnd (get_chars (unat contentLength)) (\<lambda>b. ret (b, True))
      else if contentLength = 0 then bnd (\<lambda>r. read_until_close (http_fuel r) [] r) (\<lambda>b. ret (b, True))
      else (\<lambda>r. read_chunks (http_fuel r) [] r))"

text \<open>The message in the page that Tomcat sends with an error. Positions are offsets in the text.\<close>

definition find_from :: "byte list \<Rightarrow> byte list \<Rightarrow> nat \<Rightarrow> nat option" where
  "find_from p s i = map_option ((+) i) (find_sub p (drop i s))"

function tomcat_loop :: "byte list \<Rightarrow> nat \<Rightarrow> byte list option" where
  "tomcat_loop s start =
     (case find_from (string_bytes ''</u>'') s start of
        None \<Rightarrow> None
      | Some e \<Rightarrow>
          (case find_from (string_bytes ''<u>'') s start of
             Some b \<Rightarrow> if b < e \<and> 4 < e - b then Some (take (e - (b + 3)) (drop (b + 3) s)) else tomcat_loop s (e + 3)
           | None \<Rightarrow> tomcat_loop s (e + 3)))"
  by pat_completeness auto
termination
proof (relation "measure (\<lambda>(s, start). length s - start)")
  have b: "length s - (e + 3) < length s - start" if f: "find_from (string_bytes ''</u>'') s start = Some e" for s start e
  proof -
    obtain i where i: "find_sub (string_bytes ''</u>'') (drop start s) = Some i" "e = start + i"
      using f by (auto simp: find_from_def)
    then have "i + 4 \<le> length s - start" using find_sub_bound [OF i(1)] by (simp add: string_bytes_def)
    then show ?thesis using i(2) by simp
  qed
  show "((s, e + 3), (s, start)) \<in> measure (\<lambda>(s, start). length s - start)"
    if "find_from (string_bytes ''</u>'') s start = Some e" for s start e x using b [OF that] by simp
  show "((s, e + 3), (s, start)) \<in> measure (\<lambda>(s, start). length s - start)"
    if "find_from (string_bytes ''</u>'') s start = Some e" for s start e using b [OF that] by simp
qed simp

declare tomcat_loop.simps [simp del]

definition tryExtractTomcatResponseMessage :: "byte list \<Rightarrow> byte list \<times> bool" where
  "tryExtractTomcatResponseMessage body =
     (case find_sub (string_bytes ''Status report</p><p><b>message</b>'') (c_text body) of
        None \<Rightarrow> (body, False)
      | Some start \<Rightarrow> (case tomcat_loop (c_text body) start of None \<Rightarrow> (body, False) | Some m \<Rightarrow> (m, True)))"

section \<open>A whole response\<close>

definition HttpSuccess :: "int \<Rightarrow> bool" where
  "HttpSuccess x \<longleftrightarrow> x div 100 = 2"

text \<open>The part of \<^verbatim>\<open>executeRequest\<close> behind the request: the code, 0 if the body could not be read, and the body.\<close>

definition receive_response :: "(reader, int \<times> byte list) op" where
  "receive_response =
     bnd readResponseHeader (\<lambda>(code, h).
     let contentLength = parseContentLength (headerText h) in
     bnd (readResponseBody contentLength) (\<lambda>(body, success).
     if \<not> HttpSuccess (uint code)
     then ret (uint code,
       if success \<and> body \<noteq> [] then fst (tryExtractTomcatResponseMessage body) else responseText h)
     else ret (if success then uint code else 0, body)))"

end
