(* ===== verification/HttpReader.thy ===== *)
theory HttpReader
  imports Http
begin

text \<open>
  Characters from a reader: the contract by which the response parser reads, that the reader of a request
  (a buffer of any size over a socket) keeps it, and that the end of the connection is reported as such.
\<close>

section \<open>The contract\<close>

locale char_stream =
  fixes inv :: "reader \<Rightarrow> bool"
    and pend :: "reader \<Rightarrow> byte list"
  assumes next_char: "inv r \<Longrightarrow> pend r = b # rest \<Longrightarrow> \<exists>r'. getByte r = (Inr b, r') \<and> pend r' = rest \<and> inv r'"
    and pend_stream: "inv r \<Longrightarrow> pend r = stream_left r"

text \<open>A stream that can skip, and one that ends with the connection.\<close>

locale char_source = char_stream +
  assumes skip_chars: "inv r \<Longrightarrow> n \<le> length (pend r) \<Longrightarrow> \<exists>r'. skip n r = (Inr (), r') \<and> pend r' = drop n (pend r) \<and> inv r'"

locale closing_source = char_stream +
  assumes at_close: "inv r \<Longrightarrow> pend r = [] \<Longrightarrow> \<exists>e r'. getByte r = (Inl (Disconnected e), r')"

section \<open>Orderly closed sockets\<close>

fun closes :: "recv_event list \<Rightarrow> bool" where
  "closes [] = True"
| "closes (Received [] # evs) = True"
| "closes (Received (b # bs) # evs) = closes evs"
| "closes (PeerClosed # evs) = True"
| "closes (_ # evs) = False"

lemma closes_Received: "bs \<noteq> [] \<Longrightarrow> closes (Received bs # evs) = closes evs"
  by (cases bs) simp_all

lemma recv_loop_closes: "recv_loop mn mx c acc evs = (Inr x, evs') \<Longrightarrow> closes evs \<Longrightarrow> closes evs'"
proof (induction mn mx c acc evs rule: recv_loop.induct)
  case (2 mn mx c acc ev evs)
  show ?case
  proof (cases ev)
    case (Received bs)
    then show ?thesis using 2 by (auto simp: Let_def closes_Received split: if_splits)
  qed (use 2 in \<open>auto split: if_splits\<close>)
qed (auto split: if_splits)

lemma closed_read:
  "closes evs \<Longrightarrow> delivered evs = [] \<Longrightarrow> 0 < mx \<Longrightarrow> \<exists>e evs'. recv_loop 1 mx 0 [] evs = (Inl (Disconnected e), evs')"
  by (cases evs rule: delivered.cases) auto

definition source_closes :: "input_stream \<Rightarrow> bool" where
  "source_closes s = (case s of TcpStream t \<Rightarrow> closes (incoming t) | Preloader b src \<Rightarrow> False)"

lemma stream_read_closes: "stream_read mn mx s = (Inr x, s') \<Longrightarrow> source_closes s \<Longrightarrow> source_closes s'"
  by (cases s) (auto simp: source_closes_def tcp_read_def split: prod.splits sum.splits if_splits dest: recv_loop_closes)

lemma getFromStream_closes: "getFromStream p n r = (Inr q, r') \<Longrightarrow> source_closes (source r) \<Longrightarrow> source_closes (source r')"
  by (auto simp: getFromStream_def Let_def split: prod.splits sum.splits if_splits dest: stream_read_closes)

section \<open>The reader of a response\<close>

definition http_ok :: "reader \<Rightarrow> bool" where
  "http_ok r \<longleftrightarrow> rclass r = MsgReader \<and> buffer_ok (rdataPtr r) r \<and> rdataEnd r = streamDataEnd r \<and>
     dataEnd0 r = streamDataEnd r \<and> bufStart r < bufEnd r \<and> length (stream_left r) < content_left r"

lemma getByte_at: "bytes 1 r = (Inr p, r') \<Longrightarrow> load_bytes (rmem r') p 1 = [b] \<Longrightarrow> getByte r = (Inr b, r')"
  by (simp add: getByte_def loadBE_next_def bnd_ok loadBE_be_word be_word_def)

lemma getByte_fails: "bytes 1 r = (Inl e, r') \<Longrightarrow> getByte r = (Inl e, r')"
  by (simp add: getByte_def loadBE_next_def bnd_err)

lemma http_next:
  assumes ok: "http_ok r" and first: "stream_left r = b # rest"
  shows "\<exists>r'. getByte r = (Inr b, r') \<and> stream_left r' = rest \<and> http_ok r' \<and> (source_closes (source r) \<longrightarrow> source_closes (source r'))"
proof (cases "rdataPtr r < streamDataEnd r")
  case True
  let ?r = "r\<lparr>rdataPtr := rdataPtr r + 1\<rparr>"
  have "bytes 1 r = (Inr (rdataPtr r), ?r)" using ok True by (simp add: bytes_run http_ok_def)
  moreover have "load_bytes (rmem ?r) (rdataPtr r) 1 = [b]" using load_view [of "rdataPtr r" 1 r] first True by (simp add: stream_left_def)
  moreover have s: "stream_left ?r = rest" using view_advance [of "rdataPtr r" 1 r] first True unfolding stream_left_upd by (simp add: stream_left_def)
  moreover have "http_ok ?r" using ok s first True by (auto simp: http_ok_def buffer_ok_def content_left_def)
  ultimately show ?thesis using getByte_at [of r "rdataPtr r" ?r b] by (intro exI [of _ ?r]) simp
next
  case False
  let ?p = "rdataPtr r"
  let ?r1 = "r\<lparr>rdataPtr := ?p + 1\<rparr>"
  have p: "?p = streamDataEnd r" using ok False by (auto simp: http_ok_def buffer_ok_def)
  have v: "view ?p ?r1 = b # rest" "buffer_ok ?p ?r1" "1 \<le> bufEnd ?r1 - bufStart ?r1" "?p + 1 \<le> contentEnd r" "rclass r = MsgReader"
    using ok first by (auto simp: http_ok_def stream_left_def view_def buffer_ok_def content_left_def)
  have v6: "length rest + 1 < content_left r" using ok first by (simp add: http_ok_def)
  from get_inl_spec [OF v(2,3)] v(1) obtain q r' where q: "get_inl ?p 1 ?r1 = (Inr q, r')" "q + 1 \<le> streamDataEnd r'" "buffer_ok q r'"
      "view q r' = b # rest" "rdataEnd r' = streamDataEnd r'" "buffer_frame (?r1\<lparr>rdataEnd := rdataEnd r'\<rparr>) r'" by auto
  let ?c = "contentEnd r + q - ?p"
  let ?r = "r'\<lparr>contentEnd := ?c, dataEnd0 := streamDataEnd r', rdataEnd := min ?c (streamDataEnd r'), rdataPtr := q + 1\<rparr>"
  have f: "contentEnd r' = contentEnd r" "rclass r' = MsgReader" "bufStart r' = bufStart r" "bufEnd r' = bufEnd r"
    using q(6) v(5) by (auto simp: buffer_frame_def)
  have "vget ?p 1 ?r1 = (Inr q, r'\<lparr>contentEnd := ?c, dataEnd0 := streamDataEnd r', rdataEnd := min ?c (streamDataEnd r')\<rparr>)"
    using q(1,5) v(4,5) f by (simp add: vget_msg DataReaderMsg_get_def bnd_def andthen_def)
  then have run: "bytes 1 r = (Inr q, ?r)" using ok p by (simp add: bytes_run http_ok_def)
  have "load_bytes (rmem ?r) q 1 = [b]" using load_view [OF q(2)] q(4) by simp
  moreover have "stream_left ?r = view (q + 1) r'" by (simp add: stream_left_def view_def)
  then have s: "stream_left ?r = rest" using view_advance [OF q(2)] q(4) by simp
  moreover have "length (view q r') = streamDataEnd r' - q + length (stream_avail (source r'))" using length_view q(2) by simp
  then have "streamDataEnd r' \<le> ?c" using q(2,4) v(4) v6 by (simp add: content_left_def)
  then have "http_ok ?r" using q f v(3,4) v6 s by (auto simp: http_ok_def buffer_ok_def content_left_def)
  moreover obtain r2 where "getFromStream ?p 1 ?r1 = (Inr q, r2)" "r' = r2\<lparr>rdataEnd := streamDataEnd r2\<rparr>"
    using q(1) by (auto simp: get_inl_def bnd_def andthen_def split: prod.splits sum.splits)
  then have "source_closes (source r) \<longrightarrow> source_closes (source ?r)" using getFromStream_closes by fastforce
  ultimately show ?thesis using getByte_at [OF run] by (intro exI [of _ ?r]) simp
qed

lemma http_skip:
  assumes ok: "http_ok r" and n: "n \<le> length (stream_left r)"
  shows "\<exists>r'. skip n r = (Inr (), r') \<and> stream_left r' = drop n (stream_left r) \<and> http_ok r'"
proof (cases "rdataPtr r + n \<le> streamDataEnd r")
  case True
  let ?r = "r\<lparr>rdataPtr := rdataPtr r + n\<rparr>"
  have "skip n r = (Inr (), ?r)" using ok True by (simp add: skip_run http_ok_def)
  moreover have s: "stream_left ?r = drop n (stream_left r)" using view_advance [OF True] unfolding stream_left_upd by (simp add: stream_left_def)
  moreover have "http_ok ?r" using ok s n True by (auto simp: http_ok_def buffer_ok_def content_left_def)
  ultimately show ?thesis by blast
next
  case False
  let ?p = "rdataPtr r" and ?r1 = "r\<lparr>rdataPtr := rdataPtr r + n\<rparr>"
  have v: "view ?p ?r1 = stream_left r" "buffer_ok ?p ?r1" "bufStart ?r1 < bufEnd ?r1" "rclass ?r1 = MsgReader"
      "?p + n \<le> contentEnd r" "length (stream_left r) < content_left r"
    using ok n by (auto simp: http_ok_def stream_left_def view_def buffer_ok_def content_left_def)
  from skip_inl_spec [OF v(2,3), of n] n v(1) obtain r' where q: "skip_inl ?p n ?r1 = (Inr (), r')" "buffer_ok (rdataPtr r') r'"
      "view (rdataPtr r') r' = drop n (stream_left r)" "rdataEnd r' = streamDataEnd r'"
      "buffer_frame (?r1\<lparr>rdataEnd := rdataEnd r'\<rparr>) r'" by auto
  let ?c = "rdataPtr r' + (content_left r - n)"
  let ?r = "r'\<lparr>contentEnd := ?c, dataEnd0 := streamDataEnd r', rdataEnd := min ?c (streamDataEnd r')\<rparr>"
  have "skip n r = (Inr (), ?r)"
    using False ok q(1,4) v(4,5) by (simp add: skip_run http_ok_def vskip_msg DataReaderMsg_skip_def bnd_def andthen_def content_left_def Let_def)
  moreover have s: "stream_left ?r = drop n (stream_left r)" using q(3) by (simp add: stream_left_def view_def)
  moreover have "streamDataEnd r' \<le> ?c"
    using length_view [of "rdataPtr r'" r'] q(2,3) v(6) n by (auto simp: buffer_ok_def)
  then have "http_ok ?r" using q s ok v(6) n by (auto simp: http_ok_def buffer_ok_def buffer_frame_def content_left_def)
  ultimately show ?thesis by blast
qed

lemma http_at_close:
  assumes ok: "http_ok r" and "source_closes (source r)" "stream_left r = []"
  shows "\<exists>e r'. getByte r = (Inl (Disconnected e), r')"
proof -
  let ?p = "rdataPtr r" and ?r1 = "r\<lparr>rdataPtr := rdataPtr r + 1\<rparr>"
  have b: "bufStart r \<le> ?p" "?p \<le> streamDataEnd r" "streamDataEnd r \<le> bufEnd r" "stream_ok (source r)" "bufStart r < bufEnd r"
    using ok by (auto simp: http_ok_def buffer_ok_def)
  obtain t where t: "source r = TcpStream t" "closes (incoming t)" using assms(2) by (auto simp: source_closes_def split: input_stream.splits)
  have p: "?p = streamDataEnd r" "delivered (incoming t) = []" "\<not> inputClosed t"
    using assms(3) b(2,4) t(1) by (auto simp: stream_left_def view_def load_bytes_def tcp_avail_def tcp_ok_def)
  obtain e evs where e: "recv_loop 1 (bufEnd r - bufStart r) 0 [] (incoming t) = (Inl (Disconnected e), evs)"
    using closed_read [OF t(2) p(2), of "bufEnd r - bufStart r"] b(5) by auto
  then obtain r2 where r2: "getFromStream ?p 1 ?r1 = (Inl (Disconnected e), r2)"
    using t(1) p(1,3) by (auto simp: getFromStream_def Let_def tcp_read_def)
  have "?p + 1 \<le> contentEnd r" "rclass r = MsgReader" "rdataEnd r = streamDataEnd r" using ok by (auto simp: http_ok_def content_left_def)
  then have "vget ?p 1 ?r1 = (Inl (Disconnected e), r2)" using r2 by (simp add: vget_msg DataReaderMsg_get_def bnd_def get_inl_def)
  then have "bytes 1 r = (Inl (Disconnected e), r2)" using p(1) \<open>rdataEnd r = streamDataEnd r\<close> by (simp add: bytes_run)
  then show ?thesis using getByte_fails by blast
qed

section \<open>Instances\<close>

interpretation http_src: char_source http_ok stream_left
  by unfold_locales (use http_next in blast, simp, use http_skip in blast)

interpretation http_closing: closing_source "\<lambda>r. http_ok r \<and> source_closes (source r)" stream_left
proof unfold_locales
  fix r b rest assume "http_ok r \<and> source_closes (source r)" "stream_left r = b # rest"
  then show "\<exists>r'. getByte r = (Inr b, r') \<and> stream_left r' = rest \<and> http_ok r' \<and> source_closes (source r')"
    using http_next [of r b rest] by auto
qed (use http_at_close in auto)

interpretation record_src: char_source at_record pend_msg
proof unfold_locales
  fix r b rest assume "at_record r" "pend_msg r = b # rest"
  then show "\<exists>r'. getByte r = (Inr b, r') \<and> pend_msg r' = rest \<and> at_record r'"
    using readsD [OF rec_src.reads_getByte, of r b rest] by simp
qed (use rec_src.skip_enough at_record_pend in auto)

end
