(* ===== verification/HttpTheorems.thy ===== *)
theory HttpTheorems
  imports HttpReader
begin

text \<open>
  Responses: a server's encoding of a response in each of the three framings, and the theorem that the client
  gets back its code and body.
\<close>

section \<open>What the server sends\<close>

datatype body_framing = FixedLength | UntilClose | Chunks "(byte list option \<times> byte list) list"

record http_response =
  rsCode :: nat
  rsReason :: "byte list"
  rsBefore :: "byte list list"
  rsFraming :: body_framing
  rsAfter :: "byte list list"
  rsBody :: "byte list"

definition status_line :: "http_response \<Rightarrow> byte list" where
  "status_line m = string_bytes ''HTTP/1.1 '' @ digits 10 (rsCode m) @ [32] @ rsReason m"

definition framing_lines :: "http_response \<Rightarrow> byte list list" where
  "framing_lines m =
     (case rsFraming m of
        FixedLength \<Rightarrow> [string_bytes ''Content-Length:'' @ [32] @ digits 10 (length (rsBody m))]
      | UntilClose \<Rightarrow> []
      | Chunks cs \<Rightarrow> [string_bytes ''Transfer-Encoding: chunked''])"

definition header_bytes_of :: "byte list list \<Rightarrow> byte list" where
  "header_bytes_of ls = concat (map (\<lambda>l. l @ CRLF) ls) @ CRLF"

definition response_lines :: "http_response \<Rightarrow> byte list list" where
  "response_lines m = status_line m # rsBefore m @ framing_lines m @ rsAfter m"

definition chunk_bytes :: "byte list option \<times> byte list \<Rightarrow> byte list" where
  "chunk_bytes c = digits 16 (length (snd c)) @ (case fst c of None \<Rightarrow> [] | Some x \<Rightarrow> 59 # x) @ CRLF @ snd c @ CRLF"

text \<open>The client reads the last chunk up to the first character of its line end.\<close>

definition body_bytes :: "http_response \<Rightarrow> byte list" where
  "body_bytes m =
     (case rsFraming m of Chunks cs \<Rightarrow> concat (map chunk_bytes cs) @ digits 16 0 @ [CR] | _ \<Rightarrow> rsBody m)"

definition response_bytes :: "http_response \<Rightarrow> byte list" where
  "response_bytes m = header_bytes_of (response_lines m) @ body_bytes m"

text \<open>A line of the header is not empty, has no control characters that end it, and does not mention the
  fields that say how the body is framed.\<close>

definition mentions :: "string \<Rightarrow> byte list \<Rightarrow> bool" where
  "mentions p l \<longleftrightarrow> find_sub (string_bytes p) l \<noteq> None"

definition line_ok :: "byte list \<Rightarrow> bool" where
  "line_ok l \<longleftrightarrow> l \<noteq> [] \<and> CR \<notin> set l \<and> LF \<notin> set l \<and> 0 \<notin> set l"

definition chunk_ok :: "byte list option \<times> byte list \<Rightarrow> bool" where
  "chunk_ok c \<longleftrightarrow> snd c \<noteq> [] \<and> (case fst c of None \<Rightarrow> True | Some x \<Rightarrow> CR \<notin> set x)"

definition response_valid :: "http_response \<Rightarrow> bool" where
  "response_valid m \<longleftrightarrow> 100 \<le> rsCode m \<and> rsCode m < 600 \<and> list_all line_ok (response_lines m) \<and>
     length (rsBody m) < 2 ^ 63 \<and>
     (case rsFraming m of
        FixedLength \<Rightarrow> list_all (\<lambda>l. \<not> mentions ''Content-Length:'' l) (status_line m # rsBefore m)
      | UntilClose \<Rightarrow> list_all (\<lambda>l. \<not> mentions ''Content-Length:'' l \<and> \<not> mentions ''Encoding: chunked'' l) (response_lines m)
      | Chunks cs \<Rightarrow> list_all (\<lambda>l. \<not> mentions ''Content-Length:'' l) (response_lines m) \<and>
          list_all chunk_ok cs \<and>
          rsBody m = concat (map snd cs))"

text \<open>Without a length, or with the length 0, the client reads until the server closes the connection.\<close>

definition needs_close :: "http_response \<Rightarrow> bool" where
  "needs_close m \<longleftrightarrow> rsFraming m = UntilClose \<or> rsFraming m = FixedLength \<and> rsBody m = []"

definition reported :: "http_response \<Rightarrow> byte list" where
  "reported m =
     (if HttpSuccess (int (rsCode m)) then rsBody m
      else if rsBody m = [] then digits 10 (rsCode m) @ [32] @ rsReason m
      else fst (tryExtractTomcatResponseMessage (rsBody m)))"

section \<open>Numbers and digits\<close>

lemma nonneg_sint:
  assumes "unat (w :: 64 word) < 2 ^ 63"
  shows "sint w = int (unat w)"
proof -
  have u: "uint w = int (unat w)" by simp
  have "uint w < 2 ^ 63" unfolding u using assms by (metis of_nat_less_iff of_nat_numeral of_nat_power)
  then have "signed_take_bit 63 (uint w) = uint w" by (intro signed_take_bit_int_eq_self) (auto intro: order_trans [of _ 0])
  then show ?thesis unfolding u [symmetric] by (simp add: sint_uint)
qed

lemma byte_range: "b - c < k \<longleftrightarrow> c \<le> b \<and> unat b < unat c + unat k" if "unat c + unat k < 256" for b c k :: byte
  using that unsigned_less [of b, where ?'a = nat] unsigned_less [of c, where ?'a = nat]
  by (auto simp: word_less_nat_alt word_le_nat_alt unat_sub_if_size word_size)

lemma is_hex_digit: "digit_value b < 16 \<longleftrightarrow> is_hex b"
  by (auto simp: is_hex_def digit_value_def byte_range word_le_nat_alt)

section \<open>The header\<close>

primrec header_ends :: "nat \<Rightarrow> byte list \<Rightarrow> bool" where
  "header_ends m [] \<longleftrightarrow> 4 \<le> m"
| "header_ends m (c # cs) \<longleftrightarrow> m < 4 \<and> header_ends (if (CRLF @ CRLF) ! m \<noteq> c then 0 else Suc m) cs"

lemma header_ends_word: "CR \<notin> set l \<Longrightarrow> l \<noteq> [] \<Longrightarrow> LF \<notin> set l \<Longrightarrow> m = 0 \<or> m = 2 \<Longrightarrow> header_ends m (l @ s) = header_ends 0 s"
proof (induction l arbitrary: m)
  case (Cons c l)
  then have "header_ends m ((c # l) @ s) = header_ends 0 (l @ s)" by auto
  then show ?case using Cons by (cases "l = []") auto
qed simp

lemma header_ends_line: "line_ok l \<Longrightarrow> m = 0 \<or> m = 2 \<Longrightarrow> header_ends m (l @ CRLF @ s) = header_ends 2 s"
  by (auto simp: header_ends_word line_ok_def numeral_2_eq_2)

lemma header_ends_lines: "list_all line_ok ls \<Longrightarrow> ls \<noteq> [] \<Longrightarrow> m = 0 \<or> m = 2 \<Longrightarrow> header_ends m (header_bytes_of ls)"
proof (induction ls arbitrary: m)
  case (Cons l ls)
  have "header_ends m (header_bytes_of (l # ls)) = header_ends 2 (header_bytes_of ls)"
    using Cons.prems header_ends_line [of l m "header_bytes_of ls"] by (simp add: header_bytes_of_def)
  then show ?case using Cons by (cases "ls = []") (simp_all add: header_bytes_of_def)
qed simp

context char_stream begin

lemma reads_char: "reads inv pend getByte [b] b"
  using next_char by (auto simp: reads_def)

lemma reads_char_bnd: "reads inv pend (f b) cs y \<Longrightarrow> reads inv pend (bnd getByte f) (b # cs) y"
  by (rule reads_bnd_Cons [OF reads_char])

lemma reads_header_loop: "header_ends m cs \<Longrightarrow> length cs < k \<Longrightarrow> reads inv pend (read_header_loop k m acc) cs (acc @ cs)"
proof (induction cs arbitrary: k m acc)
  case Nil
  then obtain j where "k = Suc j" by (cases k) auto
  then show ?case using Nil by (auto simp: reads_def)
next
  case (Cons c cs)
  then obtain j where k: "k = Suc j" by (cases k) auto
  have "reads inv pend (read_header_loop j (if (CRLF @ CRLF) ! m \<noteq> c then 0 else Suc m) (acc @ [c])) cs ((acc @ [c]) @ cs)"
    using Cons k by (intro Cons.IH) simp_all
  then have "reads inv pend (bnd getByte (\<lambda>c. read_header_loop j (if (CRLF @ CRLF) ! m \<noteq> c then 0 else Suc m) (acc @ [c]))) (c # cs) ((acc @ [c]) @ cs)"
    by (rule reads_char_bnd)
  then show ?case using Cons k by simp
qed

lemma reads_get_chars: "reads inv pend (get_chars (length cs)) cs cs"
proof (induction cs)
  case (Cons c cs)
  have "reads inv pend (bnd (get_chars (length cs)) (\<lambda>cs. ret (c # cs))) cs (c # cs)" by (rule reads_bnd_ret [OF Cons])
  then show ?case by (auto intro: reads_char_bnd)
qed (auto simp: reads_def)

lemma reads_skip_extension: "CR \<notin> set x \<Longrightarrow> length x < k \<Longrightarrow> reads inv pend (skip_extension k) (x @ [CR]) ()"
proof (induction x arbitrary: k)
  case Nil
  then obtain j where "k = Suc j" by (cases k) auto
  then show ?case by (auto intro: reads_char_bnd)
next
  case (Cons c x)
  then obtain j where k: "k = Suc j" by (cases k) auto
  have "reads inv pend (skip_extension j) (x @ [CR]) ()" using Cons k by simp
  then show ?case using Cons k by (auto intro: reads_char_bnd)
qed

text \<open>The size of a chunk, with or without an extension.\<close>

lemma reads_chunk_size:
  assumes "\<forall>b \<in> set ds. is_hex b" "length ds + length tail < k" "case ext of None \<Rightarrow> tail = [CR] | Some x \<Rightarrow> CR \<notin> set x \<and> tail = 59 # x @ [CR]"
  shows "reads inv pend (read_chunk_size k acc) (ds @ tail) (Some (acc @ ds))"
  using assms
proof (induction ds arbitrary: k acc)
  case Nil
  then obtain j where k: "k = Suc j" by (cases k) auto
  have n: "\<not> is_hex CR" "\<not> is_hex 59" by (simp_all add: is_hex_def)
  show ?case
  proof (cases ext)
    case None
    have "reads inv pend (read_chunk_size (Suc j) acc) [CR] (Some acc)"
      unfolding read_chunk_size.simps by (rule reads_char_bnd) (use n in \<open>auto simp: reads_def\<close>)
    then show ?thesis using Nil None k by simp
  next
    case (Some x)
    then have "reads inv pend (skip_extension j) (x @ [CR]) ()" using Nil k by (intro reads_skip_extension) simp_all
    then have "reads inv pend (bnd (skip_extension j) (\<lambda>_. ret (Some acc))) (x @ [CR]) (Some acc)"
      using reads_bnd_ret [of inv pend "skip_extension j" "x @ [CR]" "()" "\<lambda>_. Some acc"] by simp
    then show ?thesis using Nil n k Some by (auto intro!: reads_char_bnd simp: andthen_def)
  qed
next
  case (Cons d ds)
  then obtain j where k: "k = Suc j" by (cases k) auto
  have "reads inv pend (read_chunk_size j (acc @ [d])) (ds @ tail) (Some ((acc @ [d]) @ ds))"
    using Cons.prems k by (intro Cons.IH) simp_all
  then show ?case using Cons.prems k by (auto intro!: reads_char_bnd)
qed

text \<open>The header of a response.\<close>

lemma reads_whole_header:
  assumes "inv r" "pend r = header_bytes_of ls @ rest" "list_all line_ok ls" "ls \<noteq> []"
  shows "\<exists>r'. read_header_loop (http_fuel r) 0 [] r = (Inr (header_bytes_of ls), r') \<and> pend r' = rest \<and> inv r'"
proof -
  have "length (header_bytes_of ls) < http_fuel r" using assms(2) pend_stream [OF assms(1)] by (simp add: http_fuel_def)
  from readsD [OF reads_header_loop [OF header_ends_lines [OF assms(3,4)] this, of 0 "[]"] assms(1,2)] show ?thesis by simp
qed

end

context char_source begin

lemma reads_skip: "reads inv pend (skip (length cs)) cs ()"
  unfolding reads_def using skip_chars by (metis append_eq_conv_conj length_append le_add1)

text \<open>One chunk after the other.\<close>

lemma chunk_size_read:
  assumes "inv r" "pend r = chunk_bytes c @ rest" "chunk_ok c"
  shows "\<exists>r'. read_chunk_size (http_fuel r) [] r = (Inr (Some (digits 16 (length (snd c)))), r') \<and> pend r' = [LF] @ snd c @ CRLF @ rest \<and> inv r'"
proof -
  let ?d = "digits 16 (length (snd c))"
  let ?tail = "(case fst c of None \<Rightarrow> [] | Some x \<Rightarrow> 59 # x) @ [CR]"
  have p: "pend r = (?d @ ?tail) @ [LF] @ snd c @ CRLF @ rest" using assms(2) by (simp add: chunk_bytes_def)
  have "\<forall>b \<in> set ?d. is_hex b" using digits_are_digits [of 16] is_hex_digit by auto
  moreover have "length ?d + length ?tail < http_fuel r" using p pend_stream [OF assms(1)] by (simp add: http_fuel_def)
  moreover have "case fst c of None \<Rightarrow> ?tail = [CR] | Some x \<Rightarrow> CR \<notin> set x \<and> ?tail = 59 # x @ [CR]"
    using assms(3) by (simp add: chunk_ok_def split: option.splits)
  ultimately show ?thesis using readsD [OF reads_chunk_size [where ext = "fst c" and acc = "[]"] assms(1) p] by simp
qed

lemma parsed_size: "n < 2 ^ 64 \<Longrightarrow> fst (strtoull 16 (digits 16 n)) = of_nat n"
  using strtoull_digits [of 16 n "[]" "[]"] by simp

lemma read_chunks_run:
  assumes "inv r" "pend r = concat (map chunk_bytes cs) @ digits 16 0 @ CR # rest" "list_all chunk_ok cs"
    and "length body + length (concat (map snd cs)) < 2 ^ 63" "length cs < k"
  shows "\<exists>r'. read_chunks k body r = (Inr (body @ concat (map snd cs), True), r')"
  using assms
proof (induction cs arbitrary: r body k)
  case Nil
  then obtain j where k: "k = Suc j" by (cases k) auto
  have d: "digits 16 0 = [48]" by (subst digits.simps) (simp add: digit_char_def)
  have h: "\<forall>b \<in> set [48 :: byte]. is_hex b" by (simp add: is_hex_def)
  have "length [48 :: byte] + length [CR] < http_fuel r" using Nil.prems(1,2) pend_stream [OF Nil.prems(1)] d by (simp add: http_fuel_def)
  then obtain r' where "read_chunk_size (http_fuel r) [] r = (Inr (Some [48]), r')"
    using readsD [OF reads_chunk_size [OF h, where tail = "[CR]" and k = "http_fuel r" and ext = None and acc = "[]"] Nil.prems(1), of rest] Nil.prems(2) d by auto
  moreover have "fst (strtoull 16 [48]) = 0" using parsed_size [of 0] d by simp
  ultimately show ?case using k by (simp add: bnd_def Let_def)
next
  case (Cons c cs)
  then obtain j where k: "k = Suc j" by (cases k) auto
  let ?n = "length (snd c)" and ?rest = "concat (map chunk_bytes cs) @ digits 16 0 @ CR # rest"
  have ok: "chunk_ok c" "list_all chunk_ok cs" using Cons.prems(3) by simp_all
  have n: "0 < ?n" "length body + ?n < 2 ^ 63" using ok(1) Cons.prems(4) by (simp_all add: chunk_ok_def)
  have p: "pend r = chunk_bytes c @ ?rest" using Cons.prems(2) by simp
  obtain r1 where r1: "read_chunk_size (http_fuel r) [] r = (Inr (Some (digits 16 ?n)), r1)" "pend r1 = [LF] @ snd c @ CRLF @ ?rest" "inv r1"
    using chunk_size_read [OF Cons.prems(1) p ok(1)] by blast
  obtain r2 where r2: "skip 1 r1 = (Inr (), r2)" "pend r2 = snd c @ CRLF @ ?rest" "inv r2"
    using readsD [OF reads_skip [of "[LF]"] r1(3,2)] by auto
  obtain r3 where r3: "get_chars ?n r2 = (Inr (snd c), r3)" "pend r3 = CRLF @ ?rest" "inv r3"
    using readsD [OF reads_get_chars r2(3,2)] by auto
  obtain r4 where r4: "skip 2 r3 = (Inr (), r4)" "pend r4 = ?rest" "inv r4"
    using readsD [OF reads_skip [of CRLF] r3(3,2)] by (auto simp: numeral_2_eq_2)
  obtain r5 where r5: "read_chunks j (body @ snd c) r4 = (Inr ((body @ snd c) @ concat (map snd cs), True), r5)"
    using Cons.IH [OF r4(3,2) ok(2), of "body @ snd c" j] Cons.prems(4,5) k by auto
  let ?s = "of_nat ?n :: 64 word"
  have u: "unat ?s = ?n" "unat (of_nat (length body) + ?s) = length body + ?n"
    using n(2) by (simp_all add: unat_of_nat take_bit_nat_eq_self flip: of_nat_add)
  have w: "fst (strtoull 16 (digits 16 ?n)) = ?s" using parsed_size [of ?n] n(2) by simp
  have c1: "?s \<noteq> 0" using u(1) n(1) by auto
  have c2: "\<not> 9223372036854775808 \<le> of_nat (length body) + ?s" using u(2) n(2) by (simp add: word_le_nat_alt)
  have c3: "\<not> sint ?s < 0" using nonneg_sint [of ?s] u(1) n(2) by simp
  show ?case unfolding k read_chunks.simps
    by (simp add: bnd_ok [of "\<lambda>r. read_chunk_size (http_fuel r) [] r", OF r1(1)] w c1 c2 c3 u Let_def andthen_ok [of "skip (Suc 0)", OF r2(1) [unfolded One_nat_def]] andthen_ok [of "skip 2", OF r4(1)] bnd_ok [of "get_chars (length (snd c))", OF r3(1)] r5)
qed

end

section \<open>The code and the length\<close>

lemma three_digits: "100 \<le> n \<Longrightarrow> n < 1000 \<Longrightarrow> length (digits 10 n) = 3"
  by (subst digits.simps, subst digits.simps, subst digits.simps) auto

lemma digits_no_zero: "2 \<le> base \<Longrightarrow> base \<le> 36 \<Longrightarrow> 0 \<notin> set (digits base n)"
  using digits_are_digits [of base 0 n] by (auto simp: digit_value_def)

lemma header_bytes_Cons: "header_bytes_of (l # ls) = l @ CRLF @ header_bytes_of ls"
  by (simp add: header_bytes_of_def)

lemma parse_header_run:
  assumes code: "100 \<le> code" "code < 600" and reason: "CR \<notin> set reason" "0 \<notin> set reason"
    and tdef: "text = (string_bytes ''HTTP/1.1 '' @ digits 10 code @ [32] @ reason) @ CRLF @ rest"
  shows "\<exists>h. parse_header \<lparr>headerText = text, httpCode = 0, stringEnd = 0\<rparr> = (Inr (of_nat code), h) \<and> headerText h = text \<and>
    responseText h = digits 10 code @ [32] @ reason"
proof -
  let ?p = "string_bytes ''HTTP/1.1 ''" and ?d = "digits 10 code"
  have lp: "length ?p = 9" "length ?d = 3" using three_digits [of code] code by (simp_all add: string_bytes_def)
  have d13: "drop 13 text = reason @ CRLF @ rest" and d9: "drop 9 text = ?d @ 32 # reason @ CRLF @ rest"
    unfolding tdef by (simp_all add: lp)
  have eol: "find_sub CRLF (c_text (drop 13 text)) = Some (length reason)"
    unfolding d13 c_text_append [OF reason(2)] using find_sub_here [of CRLF reason "c_text rest"] reason(1)
    by (simp add: c_text_Cons)
  have c9: "c_text (drop 9 text) = ?d @ 32 # c_text (reason @ CRLF @ rest)"
    unfolding d9 using c_text_append [OF digits_no_zero [of 10 code]] by (simp add: c_text_Cons)
  have "strtoull 10 (c_text (drop 9 text)) = (of_nat code, length ?d)"
    unfolding c9 using strtoull_digits [of 10 code "[]" "32 # c_text (reason @ CRLF @ rest)"] code by (simp add: digit_value_def)
  then have n: "ucast (fst (strtoull 10 (c_text (drop 9 text)))) = (of_nat code :: 32 word)"
    using code by (simp add: word_unat_eq_iff unsigned_ucast_eq unat_of_nat take_bit_nat_eq_self)
  have k: "(of_nat code :: 32 word) \<ge> 100 \<and> (of_nat code :: 32 word) < 600"
    using code by (simp add: word_le_nat_alt word_less_nat_alt unat_of_nat take_bit_nat_eq_self)
  have st: "starts ?p text" unfolding tdef by simp
  have len: "\<not> length text < 13" unfolding tdef using lp by simp
  have tx: "take (13 + length reason) text = ?p @ ?d @ 32 # reason" unfolding tdef using lp by simp
  show ?thesis
    unfolding parse_header_def Let_def
    using eol n k st len tx lp by (simp add: layout_defs responseText_def not_less not_le)
qed

text \<open>The fields of the header, line by line.\<close>

lemma find_in_header:
  assumes "CR \<notin> set p" "LF \<notin> set p" "p \<noteq> []" "find_sub p l = None"
  shows "find_sub p (header_bytes_of (l # ls)) = map_option (\<lambda>i. length l + 2 + i) (find_sub p (header_bytes_of ls))"
proof -
  have "\<not> starts p (LF # s)" for s using assms by (cases p) auto
  then show ?thesis using find_sub_line [OF assms(1,3,4)] by (simp add: header_bytes_Cons option.map_comp o_def)
qed

lemma find_behind_lines:
  "CR \<notin> set p \<Longrightarrow> LF \<notin> set p \<Longrightarrow> p \<noteq> [] \<Longrightarrow> list_all (\<lambda>l. find_sub p l = None) pre \<Longrightarrow>
   find_sub p (header_bytes_of (pre @ ls)) = map_option ((+) (length (concat (map (\<lambda>l. l @ CRLF) pre)))) (find_sub p (header_bytes_of ls))"
  by (cases "find_sub p (header_bytes_of ls)"; induction pre) (simp_all add: find_in_header)

lemma find_sub_exists: "find_sub p (xs @ p @ ys) \<noteq> None"
proof (induction xs)
  case Nil
  then show ?case using find_sub_starts [of p "p @ ys"] by simp
qed auto

lemma find_nothing: "CR \<notin> set p \<Longrightarrow> LF \<notin> set p \<Longrightarrow> p \<noteq> [] \<Longrightarrow> list_all (\<lambda>l. find_sub p l = None) ls \<Longrightarrow> find_sub p (header_bytes_of ls) = None"
  using find_behind_lines [of p ls "[]"] by (cases p) (auto simp: header_bytes_of_def)

lemma fields_are_text: "CR \<notin> set (string_bytes ''Content-Length:'')" "LF \<notin> set (string_bytes ''Content-Length:'')"
  "string_bytes ''Content-Length:'' \<noteq> []" "length (string_bytes ''Content-Length:'') = 15"
  "CR \<notin> set (string_bytes ''Encoding: chunked'')" "LF \<notin> set (string_bytes ''Encoding: chunked'')" "string_bytes ''Encoding: chunked'' \<noteq> []"
  by (simp_all add: string_bytes_def)

lemma length_of_fixed:
  assumes "list_all (\<lambda>l. \<not> mentions ''Content-Length:'' l) pre" "n < 2 ^ 64"
  shows "parseContentLength (header_bytes_of (pre @ (string_bytes ''Content-Length:'' @ [32] @ digits 10 n) # ls)) = of_nat n"
proof -
  let ?p = "string_bytes ''Content-Length:''" and ?pre = "concat (map (\<lambda>l. l @ CRLF) pre)"
  let ?text = "header_bytes_of (pre @ (?p @ [32] @ digits 10 n) # ls)"
  have t: "?text = ?pre @ ?p @ ([32] @ digits 10 n @ CRLF @ header_bytes_of ls)" by (simp add: header_bytes_of_def)
  have "find_sub ?p (header_bytes_of ((?p @ [32] @ digits 10 n) # ls)) = Some 0"
    unfolding header_bytes_Cons append_assoc by (rule find_sub_starts) simp
  then have f: "find_sub ?p ?text = Some (length ?pre)"
    using find_behind_lines [OF fields_are_text(1-3), of pre] assms(1) by (simp add: mentions_def)
  have "drop (length ?pre + 15) ?text = [32] @ digits 10 n @ CRLF @ header_bytes_of ls" unfolding t using fields_are_text(4) by simp
  moreover have "c_text ([32] @ digits 10 n @ CRLF @ header_bytes_of ls) = [32] @ digits 10 n @ CR # LF # c_text (header_bytes_of ls)"
    using c_text_append [OF digits_no_zero [of 10 n]] by (simp add: c_text_Cons)
  moreover have "strtoull 10 ([32] @ digits 10 n @ CR # LF # c_text (header_bytes_of ls)) = (of_nat n, 1 + length (digits 10 n))"
    using strtoull_digits [of 10 n "[32]" "CR # LF # c_text (header_bytes_of ls)"] assms(2) by (simp add: is_space_def digit_value_def)
  ultimately show ?thesis using f by (simp add: parseContentLength_def)
qed

section \<open>The response\<close>

context closing_source begin

lemma read_until_close_run:
  "inv r \<Longrightarrow> pend r = cs \<Longrightarrow> length cs < k \<Longrightarrow> \<exists>r'. read_until_close k acc r = (Inr (acc @ cs), r')"
proof (induction cs arbitrary: r k acc)
  case Nil
  then obtain j where "k = Suc j" by (cases k) auto
  then show ?case using at_close [of r] Nil by auto
next
  case (Cons b cs)
  then obtain j where k: "k = Suc j" by (cases k) auto
  obtain r' where r': "getByte r = (Inr b, r')" "pend r' = cs" "inv r'" using next_char [OF Cons.prems(1,2)] by blast
  show ?case using Cons.IH [OF r'(3,2), of j "acc @ [b]"] r'(1) k Cons.prems(3) by auto
qed

end

lemma content_length_of:
  assumes "response_valid m"
  shows "parseContentLength (header_bytes_of (response_lines m)) =
    (case rsFraming m of FixedLength \<Rightarrow> of_nat (length (rsBody m)) | UntilClose \<Rightarrow> 0 | Chunks cs \<Rightarrow> - 1)"
proof (cases "rsFraming m")
  case FixedLength
  then show ?thesis using assms length_of_fixed [of "status_line m # rsBefore m" "length (rsBody m)" "rsAfter m"]
    by (simp add: response_valid_def response_lines_def framing_lines_def)
next
  case UntilClose
  then have "find_sub (string_bytes ''Content-Length:'') (header_bytes_of (response_lines m)) = None"
      "find_sub (string_bytes ''Encoding: chunked'') (header_bytes_of (response_lines m)) = None"
    using assms find_nothing [OF fields_are_text(1-3)] find_nothing [OF fields_are_text(5-7)]
    by (auto simp: response_valid_def mentions_def list_all_iff)
  then show ?thesis using UntilClose by (simp add: parseContentLength_def)
next
  case (Chunks cs)
  then have n: "find_sub (string_bytes ''Content-Length:'') (header_bytes_of (response_lines m)) = None"
    using assms find_nothing [OF fields_are_text(1-3)] by (auto simp: response_valid_def mentions_def list_all_iff)
  have "string_bytes ''Transfer-Encoding: chunked'' = string_bytes ''Transfer-'' @ string_bytes ''Encoding: chunked''" by (simp add: string_bytes_def)
  then have "\<exists>xs ys. header_bytes_of (response_lines m) = xs @ string_bytes ''Encoding: chunked'' @ ys"
    using Chunks by (simp add: header_bytes_of_def response_lines_def framing_lines_def) (metis append.assoc append_Cons)
  then have "find_sub (string_bytes ''Encoding: chunked'') (header_bytes_of (response_lines m)) \<noteq> None"
    using find_sub_exists by metis
  then show ?thesis using n Chunks by (auto simp: parseContentLength_def)
qed

lemma header_run:
  assumes "http_ok r" "stream_left r = header_bytes_of ls @ rest" "list_all line_ok ls" "ls \<noteq> []"
  shows "\<exists>r'. read_header_loop (http_fuel r) 0 [] r = (Inr (header_bytes_of ls), r') \<and> stream_left r' = rest \<and> http_ok r' \<and>
    (source_closes (source r) \<longrightarrow> source_closes (source r'))"
proof (cases "source_closes (source r)")
  case True
  then show ?thesis using http_closing.reads_whole_header [of r ls rest] assms by auto
next
  case False
  then show ?thesis using http_src.reads_whole_header [of r ls rest] assms by auto
qed

lemma body_run:
  assumes ok: "http_ok r" and s: "stream_left r = body_bytes m @ rest" and valid: "response_valid m"
    and close: "needs_close m \<longrightarrow> source_closes (source r) \<and> rest = []"
  shows "\<exists>r'. readResponseBody (parseContentLength (header_bytes_of (response_lines m))) r = (Inr (rsBody m, True), r')"
proof -
  let ?n = "of_nat (length (rsBody m)) :: 64 word"
  have l: "length (rsBody m) < 2 ^ 63" using valid by (simp add: response_valid_def)
  then have u: "unat ?n = length (rsBody m)" by (simp add: unat_of_nat take_bit_nat_eq_self)
  then have sn: "sint ?n = int (length (rsBody m))" using nonneg_sint [of ?n] l by simp
  have until: "\<exists>r'. readResponseBody 0 r = (Inr (rsBody m, True), r')" if nc: "needs_close m"
  proof -
    have "stream_left r = rsBody m" using s close nc by (auto simp: needs_close_def body_bytes_def)
    then obtain r' where "read_until_close (http_fuel r) [] r = (Inr (rsBody m), r')"
      using http_closing.read_until_close_run [of r "rsBody m" "http_fuel r" "[]"] ok close nc
      by (auto simp: http_fuel_def simp del: read_until_close.simps)
    then show ?thesis by (simp add: readResponseBody_def bnd_def del: read_until_close.simps)
  qed
  show ?thesis
  proof (cases "rsFraming m")
    case FixedLength
    show ?thesis
    proof (cases "rsBody m = []")
      case True
      then show ?thesis using until content_length_of [OF valid] FixedLength by (simp add: needs_close_def)
    next
      case False
      obtain r' where "get_chars (length (rsBody m)) r = (Inr (rsBody m), r')"
        using readsD [OF http_src.reads_get_chars ok, of "rsBody m" rest] s FixedLength by (auto simp: body_bytes_def)
      then show ?thesis using content_length_of [OF valid] FixedLength sn u False by (simp add: readResponseBody_def bnd_def)
    qed
  next
    case UntilClose
    then show ?thesis using until content_length_of [OF valid] by (simp add: needs_close_def)
  next
    case (Chunks cs)
    have "length cs \<le> length (concat (map chunk_bytes cs))"
    proof (induction cs)
      case (Cons c cs)
      have "1 \<le> length (chunk_bytes c)" by (simp add: chunk_bytes_def)
      then show ?case using Cons by simp
    qed simp
    then have "length cs < http_fuel r" using s Chunks by (simp add: http_fuel_def body_bytes_def)
    then obtain r' where "read_chunks (http_fuel r) [] r = (Inr (rsBody m, True), r')"
      using http_src.read_chunks_run [OF ok, of cs rest "[]" "http_fuel r"] s Chunks valid
      by (auto simp: body_bytes_def response_valid_def chunk_ok_def)
    then show ?thesis using content_length_of [OF valid] Chunks by (simp add: readResponseBody_def)
  qed
qed

text \<open>C5: Whatever the framing of the body (a length, chunks of any sizes with or without extensions, or the end of
  the connection), whatever other lines the header has, and however the network splits the bytes, the client gets
  the code of the response and its body, or for an error the message extracted from the body or the reason.\<close>

theorem response_is_received:
  assumes "http_ok r" "stream_left r = response_bytes m @ rest" "response_valid m"
    and "needs_close m \<longrightarrow> source_closes (source r) \<and> rest = []"
  shows "\<exists>r'. receive_response r = (Inr (int (rsCode m), reported m), r')"
proof -
  have lines: "list_all line_ok (response_lines m)" "response_lines m \<noteq> []" and code: "100 \<le> rsCode m" "rsCode m < 600"
    using assms(3) by (simp_all add: response_valid_def response_lines_def)
  have ok: "CR \<notin> set (rsReason m)" "0 \<notin> set (rsReason m)"
    using lines(1) by (auto simp: response_lines_def line_ok_def status_line_def)
  let ?text = "header_bytes_of (response_lines m)"
  obtain r1 where r1: "read_header_loop (http_fuel r) 0 [] r = (Inr ?text, r1)" "stream_left r1 = body_bytes m @ rest" "http_ok r1"
      "source_closes (source r) \<longrightarrow> source_closes (source r1)"
    using header_run [OF assms(1) _ lines] assms(2) by (auto simp: response_bytes_def)
  have "?text = (string_bytes ''HTTP/1.1 '' @ digits 10 (rsCode m) @ [32] @ rsReason m) @ CRLF @
      header_bytes_of (rsBefore m @ framing_lines m @ rsAfter m)"
    by (simp add: response_lines_def header_bytes_Cons status_line_def)
  from parse_header_run [OF code ok this] obtain h where
    h: "parse_header \<lparr>headerText = ?text, httpCode = 0, stringEnd = 0\<rparr> = (Inr (of_nat (rsCode m)), h)" "headerText h = ?text"
      "responseText h = digits 10 (rsCode m) @ [32] @ rsReason m" by blast
  have hdr: "readResponseHeader r = (Inr (of_nat (rsCode m), h), r1)"
    using r1(1) h(1) by (simp add: readResponseHeader_def bnd_def)
  obtain r2 where body: "readResponseBody (parseContentLength ?text) r1 = (Inr (rsBody m, True), r2)"
    using body_run [OF r1(3,2) assms(3)] r1(4) assms(4) by blast
  have c: "uint (of_nat (rsCode m) :: 32 word) = int (rsCode m)" using code by (simp add: unsigned_of_nat take_bit_nat_eq_self)
  show ?thesis
    unfolding receive_response_def using hdr h(2,3) body c
    by (simp add: bnd_ok [of readResponseHeader, OF hdr] bnd_ok [of "readResponseBody _", OF body] reported_def Let_def)
qed

text \<open>The reader of a request on a socket, and a response in two chunks.\<close>

definition response_reader :: "recv_event list \<Rightarrow> reader" where
  "response_reader evs = new_reader MsgReader 0x100 0x2000 0 (TcpStream (closed_tcp\<lparr>incoming := evs\<rparr>)) (\<lambda>_. 0)"

definition sample_response :: http_response where
  "sample_response = \<lparr>rsCode = 200, rsReason = string_bytes ''OK'', rsBefore = [string_bytes ''Server: TB''],
     rsFraming = Chunks [(None, [1, 2, 3]), (Some [65], [4])], rsAfter = [], rsBody = [1, 2, 3, 4]\<rparr>"

lemma response_reader_ok:
  assumes "bs \<noteq> []" "length bs < 2 ^ 62"
  shows "http_ok (response_reader [Received bs])" "stream_left (response_reader [Received bs]) = bs"
proof -
  have s: "stream_left (response_reader [Received bs]) = bs"
    using assms(1) by (simp add: response_reader_def new_reader_def stream_left_def view_def load_bytes_def closed_tcp_def tcp_avail_def delivered_Received)
  then show "stream_left (response_reader [Received bs]) = bs" .
  show "http_ok (response_reader [Received bs])"
    using assms s unfolding http_ok_def s
    by (simp add: response_reader_def new_reader_def buffer_ok_def closed_tcp_def tcp_ok_def content_left_def no_content_end_def READ_BUFFER_SIZE_def)
qed

theorem response_is_received_witness:
  "\<exists>r'. receive_response (response_reader [Received (response_bytes sample_response)]) = (Inr (200, [1, 2, 3, 4]), r')"
proof -
  have d: "digits 10 200 = [50, 48, 48]" "digits 16 (Suc (Suc (Suc 0))) = [51]" "digits 16 (Suc 0) = [49]" "digits 16 0 = [48]"
    by (simp_all add: digits.simps digit_char_def)
  have "response_valid sample_response"
    by (simp add: response_valid_def sample_response_def response_lines_def framing_lines_def status_line_def line_ok_def d string_bytes_def
        mentions_def chunk_ok_def)
  moreover have "reported sample_response = [1, 2, 3, 4]" "rsCode sample_response = 200" "\<not> needs_close sample_response"
    by (simp_all add: reported_def sample_response_def HttpSuccess_def needs_close_def)
  moreover have "response_bytes sample_response \<noteq> []" by (simp add: response_bytes_def response_lines_def header_bytes_of_def)
  moreover have "length (response_bytes sample_response) < 2 ^ 62"
    by (simp add: response_bytes_def response_lines_def header_bytes_of_def body_bytes_def chunk_bytes_def sample_response_def
        framing_lines_def status_line_def string_bytes_def d)
  ultimately show ?thesis
    using response_is_received [of "response_reader [Received (response_bytes sample_response)]" sample_response "[]"]
      response_reader_ok [of "response_bytes sample_response"] by simp
qed

end
