(* ===== verification/Uri.thy ===== *)
theory Uri
  imports CText Platform
begin

text \<open>
  Connection parameters: the URI parser (\<^verbatim>\<open>tickdb/http/uri.cpp\<close>), the base 64 encoder
  (\<^verbatim>\<open>util/base64.h\<close>) and how the database takes over both (\<^verbatim>\<open>setUri\<close>, \<^verbatim>\<open>setAuth\<close> in
  \<^verbatim>\<open>tickdb/http/tickdb_http.cpp\<close>).
\<close>

section \<open>URIs\<close>

record uri =
  fullText :: "byte list"
  queryString :: "byte list"
  path :: "byte list"
  protocol :: "byte list"
  host :: "byte list"
  portString :: "byte list"
  port :: "32 word"

text \<open>The position of the first occurrence of a character in a range, or its end.\<close>

definition find_char :: "nat \<Rightarrow> nat \<Rightarrow> byte \<Rightarrow> byte list \<Rightarrow> nat" where
  "find_char i j c s = i + length (takeWhile (\<lambda>b. b \<noteq> c) (take (j - i) (drop i s)))"

definition part :: "nat \<Rightarrow> nat \<Rightarrow> byte list \<Rightarrow> byte list" where
  "part i j s = take (j - i) (drop i s)"

definition protocol_end :: "nat \<Rightarrow> byte list \<Rightarrow> nat option" where
  "protocol_end queryStart s =
     (let colon = find_char 0 queryStart 58 s; prot = c_text (drop colon s) in
      if colon \<noteq> queryStart \<and> 3 < length prot \<and> take 3 prot = [58, 47, 47] then Some colon else None)"

text \<open>The object is filled in even when the result is false; an empty text leaves it alone.\<close>

definition parse_uri :: "byte list \<Rightarrow> uri \<Rightarrow> bool \<times> uri" where
  "parse_uri s u =
     (if s = [] then (False, u)
      else let
        uriEnd = length s;
        queryStart = find_char 0 uriEnd 63 s;
        protocolEnd = protocol_end queryStart s;
        hostStart = (case protocolEnd of Some colon \<Rightarrow> colon + 3 | None \<Rightarrow> 0);
        pathStart = find_char hostStart queryStart 47 s;
        hostEnd = find_char hostStart pathStart 58 s;
        portText = (if hostEnd \<noteq> pathStart then part (hostEnd + 1) pathStart s else []);
        (port_ull, used) = (if portText \<noteq> [] then strtoull 10 (c_text portText) else (0, 0));
        u1 = \<lparr>fullText = s, queryString = (if queryStart \<noteq> uriEnd then drop queryStart s else []),
          path = (if pathStart \<noteq> uriEnd then part pathStart queryStart s else []),
          protocol = (case protocolEnd of Some colon \<Rightarrow> take colon s | None \<Rightarrow> []), host = part hostStart hostEnd s,
          portString = portText, port = 0\<rparr>
      in if portText \<noteq> [] \<and> used \<noteq> length portText then (False, u1)
         else let p = ucast (port_ull AND 0xFFFF) in (ucast p = port_ull, u1\<lparr>port := p\<rparr>))"

definition DEFAULT_PORT :: "32 word" where [layout_defs]: "DEFAULT_PORT = 8011"

definition setUri :: "byte list \<Rightarrow> uri \<Rightarrow> bool \<times> uri" where
  "setUri s u =
     (case parse_uri s u of
        (False, u1) \<Rightarrow> (False, u1)
      | (True, u1) \<Rightarrow>
          if (protocol u1 \<noteq> [100, 120, 116, 105, 99, 107] \<and> protocol u1 \<noteq> []) \<or> queryString u1 \<noteq> [] \<or> path u1 \<noteq> []
          then (False, u1)
          else (True, if port u1 = 0 then u1\<lparr>port := DEFAULT_PORT\<rparr> else u1))"

section \<open>Base 64\<close>

definition base64char :: "nat \<Rightarrow> byte" where
  "base64char n =
     (if n < 26 then of_nat (65 + n) else if n < 52 then of_nat (71 + n) else if n < 62 then of_nat (n - 4)
      else if n = 62 then 43 else 47)"

text \<open>One turn of the loop: up to three bytes as a number, shifted to whole groups of six bits, written from
  the last position to the first.\<close>

fun base64_digits :: "nat \<Rightarrow> nat \<Rightarrow> byte list" where
  "base64_digits 0 x = [base64char (x mod 64)]"
| "base64_digits (Suc m) x = base64_digits m (x div 64) @ [base64char (x mod 64)]"

definition base64_group :: "byte list \<Rightarrow> byte list" where
  "base64_group g =
     (let m = length g; x = foldl (\<lambda>x b. x * 256 + unat b) 0 g * 4 ^ (3 - m) in
      base64_digits m x @ replicate (3 - m) 61)"

function base64_encode :: "byte list \<Rightarrow> byte list" where
  "base64_encode s = (if s = [] then [] else base64_group (take 3 s) @ base64_encode (drop 3 s))"
  by pat_completeness auto
termination
  by (relation "measure length") auto

declare base64_encode.simps [simp del]

section \<open>Printing and parsing\<close>

definition port_text :: "nat \<Rightarrow> byte list" where
  "port_text n = (if n = 0 then [] else digits 10 n)"

definition print_uri :: "byte list \<Rightarrow> byte list \<Rightarrow> nat \<Rightarrow> byte list \<Rightarrow> byte list \<Rightarrow> byte list" where
  "print_uri proto hst prt pth query =
     (if proto = [] then [] else proto @ [58, 47, 47]) @ hst @ (if prt = 0 then [] else 58 # digits 10 prt) @ pth @ query"

definition uri_parts_ok :: "byte list \<Rightarrow> byte list \<Rightarrow> nat \<Rightarrow> byte list \<Rightarrow> byte list \<Rightarrow> bool" where
  "uri_parts_ok proto hst prt pth query \<longleftrightarrow>
     58 \<notin> set proto \<and> 63 \<notin> set proto \<and> hst \<noteq> [] \<and> 58 \<notin> set hst \<and> 63 \<notin> set hst \<and> 47 \<notin> set hst \<and> 0 \<notin> set hst \<and>
     prt < 2 ^ 16 \<and> 58 \<notin> set pth \<and> 63 \<notin> set pth \<and> (pth = [] \<or> hd pth = 47) \<and> (query = [] \<or> hd query = 63)"

lemma find_char_split:
  assumes "s = a @ b @ c" "i = length a" "x \<notin> set b" "i + length b \<le> j" "j = i + length b \<or> c \<noteq> [] \<and> hd c = x"
  shows "find_char i j x s = i + length b"
proof -
  have d: "drop i s = b @ c" using assms(1,2) by simp
  show ?thesis
  proof (cases "j = i + length b")
    case True
    then have t: "take (j - i) (drop i s) = b" using d by simp
    have "takeWhile (\<lambda>y. y \<noteq> x) b = b" using assms(3) by (auto simp: takeWhile_eq_all_conv)
    then show ?thesis by (simp only: find_char_def t)
  next
    case False
    then obtain c' where c': "c = x # c'" using assms(5) by (cases c) auto
    obtain k where k: "j - i = length b + Suc k" using False assms(4) using less_imp_Suc_add [of "i + length b" j] by force
    then have "take (j - i) (drop i s) = b @ x # take k c'" using d c' by simp
    moreover have "takeWhile (\<lambda>y. y \<noteq> x) (b @ x # r) = b" for r using assms(3) by (induction b) auto
    ultimately show ?thesis by (simp add: find_char_def)
  qed
qed

lemma mask16: "(0xFFFF :: 64 word) = mask 16"
  by (simp add: mask_eq_exp_minus_1)

lemma digits_plain: "d \<in> set (digits 10 n) \<Longrightarrow> d \<noteq> 47 \<and> d \<noteq> 58 \<and> d \<noteq> 63 \<and> d \<noteq> 0"
  using digits_are_digits [of 10 d n] by (auto simp: digit_value_def)

lemma part_middle: "i = length a \<Longrightarrow> j = length a + length b \<Longrightarrow> part i j (a @ b @ c) = b"
  by (simp add: part_def)

lemma find_parts:
  assumes s: "s = P @ hst @ po @ pth @ query" and proto: "P = (if proto = [] then [] else proto @ [58, 47, 47])"
    and po: "po = (if prt = 0 then [] else 58 # digits 10 prt)" and ok: "uri_parts_ok proto hst prt pth query"
  shows "find_char 0 (length s) 63 s = length (P @ hst @ po @ pth)"
    "find_char (length P) (length (P @ hst @ po @ pth)) 47 s = length (P @ hst @ po)"
    "find_char (length P) (length (P @ hst @ po)) 58 s = length (P @ hst)"
    "part (length P) (length (P @ hst)) s = hst"
    "part (length (P @ hst @ po)) (length (P @ hst @ po @ pth)) s = pth"
    "prt \<noteq> 0 \<Longrightarrow> part (length (P @ hst) + 1) (length (P @ hst @ po)) s = digits 10 prt"
proof -
  note ok = ok [unfolded uri_parts_ok_def]
  have plain: "47 \<notin> set po" "63 \<notin> set po" unfolding po using digits_plain [of _ prt] by auto
  have "63 \<notin> set P" unfolding proto using ok by simp
  then show "find_char 0 (length s) 63 s = length (P @ hst @ po @ pth)"
    using find_char_split [of s "[]" "P @ hst @ po @ pth" query 0 63 "length s"] ok plain s by (cases query) auto
  show "find_char (length P) (length (P @ hst @ po @ pth)) 47 s = length (P @ hst @ po)"
    using find_char_split [of s P "hst @ po" "pth @ query" "length P" 47 "length (P @ hst @ po @ pth)"] ok plain s by (cases pth) auto
  have "po = [] \<or> hd (po @ pth @ query) = 58" unfolding po by simp
  then show "find_char (length P) (length (P @ hst @ po)) 58 s = length (P @ hst)"
    using find_char_split [of s P hst "po @ pth @ query" "length P" 58 "length (P @ hst @ po)"] ok s by (cases po) auto
  show "part (length P) (length (P @ hst)) s = hst" using part_middle [of _ P _ hst "po @ pth @ query"] s by simp
  show "part (length (P @ hst @ po)) (length (P @ hst @ po @ pth)) s = pth"
    using part_middle [of _ "P @ hst @ po" _ pth query] s by (simp add: add.assoc)
  show "part (length (P @ hst) + 1) (length (P @ hst @ po)) s = digits 10 prt" if "prt \<noteq> 0"
    using that part_middle [of _ "P @ hst @ [58]" _ "digits 10 prt" "pth @ query"] s po by (simp add: add.assoc)
qed

text \<open>The test for a protocol finds exactly the one that was printed.\<close>

lemma find_protocol:
  assumes s: "s = P @ hst @ po @ pth @ query" and proto: "P = (if proto = [] then [] else proto @ [58, 47, 47])"
    and po: "po = (if prt = 0 then [] else 58 # digits 10 prt)" and ok: "uri_parts_ok proto hst prt pth query"
  shows "protocol_end (length (P @ hst @ po @ pth)) s = (if proto = [] then None else Some (length proto))"
proof -
  define colon where c: "colon = find_char 0 (length (P @ hst @ po @ pth)) 58 s"
  define prot where prot: "prot = c_text (drop colon s)"
  note ok = ok [unfolded uri_parts_ok_def]
  have cp: "colon = length proto" if "proto \<noteq> []"
    unfolding c using find_char_split [of s "[]" proto "[58, 47, 47] @ hst @ po @ pth @ query" 0 58 "length (P @ hst @ po @ pth)"] ok s proto that
    by simp
  have "(colon \<noteq> length (P @ hst @ po @ pth) \<and> 3 < length prot \<and> take 3 prot = [58, 47, 47]) = (proto \<noteq> [])"
  proof (cases "proto = []")
    case False
    then have "prot = [58, 47, 47] @ hst @ c_text (po @ pth @ query)"
      unfolding prot cp [OF False] s proto using False ok c_text_append [of "[58, 47, 47] @ hst" "po @ pth @ query"] by simp
    then show ?thesis using cp [OF False] False ok proto by simp
  next
    case True
    show ?thesis
    proof (cases "prt = 0")
      case p: True
      have "colon = length (P @ hst @ po @ pth)"
        unfolding c using find_char_split [of s "[]" "hst @ pth" query 0 58 "length (hst @ pth)"] ok True p s po proto by simp
      then show ?thesis using True by simp
    next
      case p: False
      have ch: "colon = length hst"
        unfolding c using find_char_split [of s "[]" hst "po @ pth @ query" 0 58 "length (P @ hst @ po @ pth)"] ok True p s po proto by simp
      obtain d ds where d: "digits 10 prt = d # ds" by (cases "digits 10 prt") auto
      then have dp: "d \<noteq> 0" "d \<noteq> 47" using digits_plain [of d prt] by simp_all
      have "drop colon s = 58 # d # ds @ pth @ query" using ch True p s po proto d by simp
      then have "prot = 58 # d # c_text (ds @ pth @ query)" unfolding prot using dp by (simp add: c_text_def)
      then have "take 3 prot \<noteq> [58, 47, 47]" using dp by (auto simp: numeral_3_eq_3)
      then show ?thesis using True by simp
    qed
  qed
  then show ?thesis unfolding protocol_end_def Let_def c [symmetric] prot [symmetric] using cp by auto
qed

text \<open>C34: A URI printed from a protocol, a host, a port, a path and a query, each of them but the host possibly missing,
  is parsed into these parts.\<close>

theorem uri_roundtrip:
  assumes "uri_parts_ok proto hst prt pth query"
  shows "parse_uri (print_uri proto hst prt pth query) u =
    (True, \<lparr>fullText = print_uri proto hst prt pth query, queryString = query, path = pth, protocol = proto, host = hst,
       portString = port_text prt, port = of_nat prt\<rparr>)"
proof -
  define P where "P = (if proto = [] then [] else proto @ [58, 47, 47 :: byte])"
  define po where "po = (if prt = 0 then [] else 58 # digits 10 prt)"
  define s where "s = P @ hst @ po @ pth @ query"
  have pr: "print_uri proto hst prt pth query = s" by (simp add: print_uri_def s_def P_def po_def)
  note f = find_parts [OF s_def P_def po_def assms] and g = find_protocol [OF s_def P_def po_def assms]
  note ok = assms [unfolded uri_parts_ok_def]
  have "c_text (digits 10 prt) = digits 10 prt" using digits_plain [of _ prt] by (auto simp: c_text_def takeWhile_eq_all_conv)
  then have num: "strtoull 10 (c_text (digits 10 prt)) = (of_nat prt, length (digits 10 prt))"
    using strtoull_digits [of 10 prt "[]" "[]"] ok by simp
  have word: "(of_nat prt :: 64 word) AND 0xFFFF = of_nat prt" "ucast (of_nat prt :: 64 word) = (of_nat prt :: 32 word)"
      "ucast (of_nat prt :: 32 word) = (of_nat prt :: 64 word)"
    unfolding mask16 take_bit_eq_mask [symmetric]
    using ok by (simp_all add: word_unat_eq_iff unat_take_bit unsigned_ucast_eq unat_of_nat take_bit_nat_eq_self)
  have hs: "(case protocol_end (length (P @ hst @ po @ pth)) s of Some colon \<Rightarrow> colon + 3 | None \<Rightarrow> 0) = length P"
    and pt: "(case protocol_end (length (P @ hst @ po @ pth)) s of Some colon \<Rightarrow> take colon s | None \<Rightarrow> []) = proto"
    unfolding g by (simp_all add: s_def P_def)
  have po_text: "(if length (P @ hst) \<noteq> length (P @ hst @ po) then part (length (P @ hst) + 1) (length (P @ hst @ po)) s else []) = port_text prt"
    using f(6) by (auto simp: po_def port_text_def)
  have ends: "(if length (P @ hst @ po @ pth) \<noteq> length s then drop (length (P @ hst @ po @ pth)) s else []) = query"
      "(if length (P @ hst @ po) \<noteq> length s then pth else []) = pth"
    by (auto simp: s_def)
  have "s \<noteq> []" using ok by (simp add: s_def)
  then show ?thesis
    unfolding pr parse_uri_def Let_def f(1) hs pt f(2,3,4,5) po_text ends
    using num word by (simp add: port_text_def)
qed

theorem uri_roundtrip_witness:
  "\<forall>u. let s = print_uri [100, 120] [104, 111] 8011 [47, 112] [] in fst (parse_uri s u) \<and> port (snd (parse_uri s u)) = 8011"
proof
  fix u
  show "let s = print_uri [100, 120] [104, 111] 8011 [47, 112] [] in fst (parse_uri s u) \<and> port (snd (parse_uri s u)) = 8011"
    using uri_roundtrip [of "[100, 120]" "[104, 111]" 8011 "[47, 112]" "[]" u] by (simp add: uri_parts_ok_def Let_def)
qed

section \<open>Decoding base 64\<close>

definition base64_value :: "byte \<Rightarrow> nat" where
  "base64_value c =
     (if 65 \<le> c \<and> c \<le> 90 then unat c - 65 else if 97 \<le> c \<and> c \<le> 122 then unat c - 71
      else if 48 \<le> c \<and> c \<le> 57 then unat c + 4 else if c = 43 then 62 else 63)"

fun base64_decode :: "byte list \<Rightarrow> byte list" where
  "base64_decode (a # b # c # d # rest) =
     (let p = base64_value a * 64 + base64_value b; q = p * 64 + base64_value c; x = q * 64 + base64_value d in
      (if c = 61 then [of_nat (p div 16)]
       else if d = 61 then [of_nat (q div 4 div 256), of_nat (q div 4 mod 256)]
       else [of_nat (x div 65536), of_nat (x div 256 mod 256), of_nat (x mod 256)]) @ base64_decode rest)"
| "base64_decode _ = []"

lemma base64_table: "list_all (\<lambda>n. base64_value (base64char n) = n \<and> base64char n \<noteq> 61) [0..<64]"
  by code_simp

lemma base64_mod: "base64_value (base64char (n mod 64)) = n mod 64" "base64char (n mod 64) \<noteq> 61"
  using base64_table by (simp_all add: list_all_iff)

text \<open>Two, three and four digits of a number.\<close>

lemma horner64:
  fixes x :: nat
  shows "x < 64 ^ 2 \<Longrightarrow> x div 64 mod 64 * 64 + x mod 64 = x"
    "x < 64 ^ 3 \<Longrightarrow> (x div 64 div 64 mod 64 * 64 + x div 64 mod 64) * 64 + x mod 64 = x"
    "x < 64 ^ 4 \<Longrightarrow> ((x div 64 div 64 div 64 mod 64 * 64 + x div 64 div 64 mod 64) * 64 + x div 64 mod 64) * 64 + x mod 64 = x"
proof -
  have step: "y div 64 * 64 + y mod 64 = y" for y :: nat by simp
  show "x div 64 mod 64 * 64 + x mod 64 = x" if "x < 64 ^ 2"
    using that step [of x] by (simp add: mod_less div_less_dividend less_mult_imp_div_less)
  show "(x div 64 div 64 mod 64 * 64 + x div 64 mod 64) * 64 + x mod 64 = x" if "x < 64 ^ 3"
  proof -
    have "x div 64 div 64 < 64" using that by (simp add: less_mult_imp_div_less)
    then show ?thesis using step [of "x div 64"] step [of x] by simp
  qed
  show "((x div 64 div 64 div 64 mod 64 * 64 + x div 64 div 64 mod 64) * 64 + x div 64 mod 64) * 64 + x mod 64 = x" if "x < 64 ^ 4"
  proof -
    have "x div 64 div 64 div 64 < 64" using that by (simp add: less_mult_imp_div_less)
    then show ?thesis using step [of "x div 64 div 64"] step [of "x div 64"] step [of x] by simp
  qed
qed

lemma decode_digits:
  "x < 64 ^ 2 \<Longrightarrow> base64_decode (base64_digits 1 x @ [61, 61] @ rest) = of_nat (x div 16) # base64_decode rest"
  "x < 64 ^ 3 \<Longrightarrow> base64_decode (base64_digits 2 x @ [61] @ rest) = [of_nat (x div 4 div 256), of_nat (x div 4 mod 256)] @ base64_decode rest"
  "x < 64 ^ 4 \<Longrightarrow> base64_decode (base64_digits 3 x @ rest) =
     [of_nat (x div 65536), of_nat (x div 256 mod 256), of_nat (x mod 256)] @ base64_decode rest"
  using horner64 [of x] base64_mod
  by (simp_all only: One_nat_def numeral_2_eq_2 numeral_3_eq_3 base64_digits.simps append.simps append_assoc base64_decode.simps Let_def if_True if_False simp_thms)

lemma bytes_of_three:
  fixes A B C :: nat
  assumes "B < 256" "C < 256"
  shows "((A * 256 + B) * 256 + C) div 65536 = A" "((A * 256 + B) * 256 + C) div 256 mod 256 = B" "((A * 256 + B) * 256 + C) mod 256 = C"
proof -
  have e: "(x * 256 + C) div 256 = x" "(x * 256 + C) mod 256 = C" for x using assms(2) by simp_all
  have f: "(A * 256 + B) div 256 = A" "(A * 256 + B) mod 256 = B" using assms(1) by simp_all
  have "((A * 256 + B) * 256 + C) div (256 * 256) = A" unfolding div_mult2_eq e f ..
  then show "((A * 256 + B) * 256 + C) div 65536 = A" by simp
  show "((A * 256 + B) * 256 + C) div 256 mod 256 = B" unfolding e f ..
  show "((A * 256 + B) * 256 + C) mod 256 = C" unfolding e ..
qed

lemma base64_decode_group:
  assumes "length g \<le> 3" "g \<noteq> []"
  shows "base64_decode (base64_group g @ rest) = g @ base64_decode rest"
proof -
  have l: "unat c < 256" for c :: byte using unsigned_less [of c, where ?'a = nat] by simp
  consider a where "g = [a]" | a b where "g = [a, b]" | a b c where "g = [a, b, c]"
    using assms by (cases g; cases "tl g"; cases "tl (tl g)") auto
  then show ?thesis
  proof cases
    case (1 a)
    have x: "unat a * 16 < 64 ^ 2" using l [of a] by simp
    have "base64_group g @ rest = base64_digits 1 (unat a * 16) @ [61, 61] @ rest"
      by (simp add: 1 base64_group_def Let_def numeral_2_eq_2 del: base64_digits.simps)
    then show ?thesis using decode_digits(1) [OF x, of rest] 1 by simp
  next
    case (2 a b)
    have x: "(unat a * 256 + unat b) * 4 < 64 ^ 3" using l [of a] l [of b] by simp
    have "base64_group g @ rest = base64_digits 2 ((unat a * 256 + unat b) * 4) @ [61] @ rest"
      by (simp add: 2 base64_group_def Let_def numeral_2_eq_2 del: base64_digits.simps)
    then show ?thesis using decode_digits(2) [OF x, of rest] 2 l [of b] by simp
  next
    case (3 a b c)
    have x: "(unat a * 256 + unat b) * 256 + unat c < 64 ^ 4" using l [of a] l [of b] l [of c] by simp
    have d: "((unat a * 256 + unat b) * 256 + unat c) div 65536 = unat a"
        "((unat a * 256 + unat b) * 256 + unat c) div 256 mod 256 = unat b" "((unat a * 256 + unat b) * 256 + unat c) mod 256 = unat c"
      using bytes_of_three [OF l [of b] l [of c], of "unat a"] by simp_all
    have "base64_group g @ rest = base64_digits 3 ((unat a * 256 + unat b) * 256 + unat c) @ rest"
      by (simp add: 3 base64_group_def Let_def numeral_3_eq_3 del: base64_digits.simps)
    then show ?thesis using decode_digits(3) [OF x, of rest] 3 d by simp
  qed
qed

lemma base64_roundtrip: "base64_decode (base64_encode s) = s"
proof (induction s rule: base64_encode.induct)
  case (1 s)
  show ?case
  proof (cases "s = []")
    case False
    then show ?thesis using 1 base64_decode_group [of "take 3 s" "base64_encode (drop 3 s)"] by (subst base64_encode.simps) simp
  qed (simp add: base64_encode.simps)
qed

section \<open>Credentials\<close>

text \<open>The three strings are kept scrambled. The arguments are C strings; \<^verbatim>\<open>None\<close> is the null pointer, of which
  the length is asked before the test for it.\<close>

record credentials =
  basicAuth :: "byte list"
  username :: "byte list"
  encodedPass :: "byte list"

definition setAuth :: "byte list option \<Rightarrow> byte list option \<Rightarrow> (credentials, bool) op" where
  "setAuth user pass =
     (case (user, pass) of
        (Some u, Some p) \<Rightarrow>
          let u' = c_text u; p' = c_text p in
          if length u' + length p' + 1 \<le> 1 then ret False
          else andthen (modify (\<lambda>c. c\<lparr>
              basicAuth := scramble (base64_encode (u' @ [58] @ p')),
              username := scramble u',
              encodedPass := scramble (base64_encode p')\<rparr>)) (ret True)
      | _ \<Rightarrow> throw (Undefined ''strlen(NULL)''))"

text \<open>What \<^verbatim>\<open>sendRequest\<close> puts behind the name of the authorization scheme.\<close>

definition authorization :: "credentials \<Rightarrow> byte list" where
  "authorization c = (if basicAuth c = [] then [] else scramble (basicAuth c))"

lemma base64_encode_Nil: "base64_encode s = [] \<longleftrightarrow> s = []"
  using base64_roundtrip [of s] by (metis base64_decode.simps(2) base64_encode.simps)

lemma length_scramble: "length (scramble s) = length s"
  by (simp add: scramble_def)

lemma c_text_id: "0 \<notin> set s \<Longrightarrow> c_text s = s"
  using c_text_append [of s "[]"] by (simp add: c_text_def)

text \<open>C35: Credentials that were set are what the authorization of every later request says: decoding it gives the
  user name, a colon and the password. The kept user name and password are recovered by unscrambling and
  decoding. Nothing is changed, and false is returned, exactly if both are empty.\<close>

theorem authorization_says_credentials:
  assumes "0 \<notin> set u" "0 \<notin> set p"
  shows "\<exists>c'. setAuth (Some u) (Some p) c = (Inr (u @ p \<noteq> []), c') \<and>
    (if u @ p = [] then c' = c
     else base64_decode (authorization c') = u @ [58] @ p \<and> scramble (username c') = u \<and>
       base64_decode (scramble (encodedPass c')) = p)"
proof (cases "u @ p = []")
  case False
  let ?b = "base64_encode (u @ [58] @ p)"
  have "scramble ?b \<noteq> []" using length_scramble [of ?b] base64_encode_Nil [of "u @ [58] @ p"] by auto
  then show ?thesis
    using False assms by (auto simp: setAuth_def c_text_id run_simps authorization_def scramble_involution base64_roundtrip)
qed (simp add: setAuth_def c_text_def)

theorem authorization_says_credentials_witness:
  "\<forall>c. \<exists>c'. setAuth (Some [104, 105]) (Some [112]) c = (Inr True, c') \<and> base64_decode (authorization c') = [104, 105, 58, 112]"
  using authorization_says_credentials [of "[104, 105]" "[112]"] by fastforce

end
