(* ===== verification/Xml.thy ===== *)
theory Xml
  imports Http LoaderLifecycle
begin

text \<open>
  XML as the client writes and reads it (\<^verbatim>\<open>tickdb/http/xml/xml_request.h\<close>, \<^verbatim>\<open>xml_request.cpp\<close>): the output stream with
  its escaping, the access to a parsed document, the conversions of texts to values, and the execution of a
  request. The documents are those of the vendored tinyxml2; its accessors are modelled, its parser is a parameter
  of the definitions that use it, and so is the exchange of a request for a response.
\<close>

section \<open>Documents\<close>

text \<open>An element has a name, attributes and child nodes; comments, declarations and unknown markup are \<open>OtherNode\<close>.\<close>

datatype xml_node =
    Element "byte list" "(byte list \<times> byte list) list" "xml_node list"
  | CharData "byte list"
  | OtherNode

text \<open>A pointer to an element is the list of that node and its later siblings; the null pointer is the empty list.\<close>

type_synonym element = "xml_node list"

fun is_element :: "xml_node \<Rightarrow> bool" where
  "is_element (Element n as cs) = True"
| "is_element _ = False"

fun has_name :: "byte list \<Rightarrow> xml_node \<Rightarrow> bool" where
  "has_name name (Element n as cs) = (n = name)"
| "has_name name _ = False"

fun child_nodes :: "element \<Rightarrow> xml_node list" where
  "child_nodes (Element n as cs # _) = cs"
| "child_nodes _ = []"

definition FirstChildElement :: "string \<Rightarrow> element \<Rightarrow> element" where
  "FirstChildElement name e = dropWhile (\<lambda>n. \<not> has_name (string_bytes name) n) (child_nodes e)"

definition NextSiblingElement :: "element \<Rightarrow> element" where
  "NextSiblingElement e = dropWhile (\<lambda>n. \<not> is_element n) (tl e)"

definition NextSiblingElement_named :: "string \<Rightarrow> element \<Rightarrow> element" where
  "NextSiblingElement_named name e = dropWhile (\<lambda>n. \<not> has_name (string_bytes name) n) (tl e)"

definition GetText :: "element \<Rightarrow> byte list option" where
  "GetText e = (case child_nodes e of CharData t # _ \<Rightarrow> Some t | _ \<Rightarrow> None)"

fun Attribute :: "string \<Rightarrow> element \<Rightarrow> byte list option" where
  "Attribute name (Element n as cs # _) = map_of as (string_bytes name)"
| "Attribute name _ = None"

definition RootElement :: "xml_node list \<Rightarrow> element" where
  "RootElement doc = dropWhile (\<lambda>n. \<not> is_element n) doc"

text \<open>The elements that the macro \<^verbatim>\<open>FOR_XML_ELEMENTS\<close> visits: the first child of the name and every later sibling,
  whatever its name.\<close>

function elements_from :: "element \<Rightarrow> element list" where
  "elements_from e = (if e = [] then [] else e # elements_from (NextSiblingElement e))"
  by pat_completeness auto
termination
proof (relation "measure length")
  show "(NextSiblingElement e, e) \<in> measure length" if "e \<noteq> []" for e
    using that length_dropWhile_le [of "\<lambda>n. \<not> is_element n" "tl e"] by (cases e) (simp_all add: NextSiblingElement_def)
qed simp

declare elements_from.simps [simp del]

definition for_elements :: "string \<Rightarrow> element \<Rightarrow> element list" where
  "for_elements name e = elements_from (FirstChildElement name e)"

section \<open>Writing\<close>

definition escape_char :: "byte \<Rightarrow> byte list" where
  "escape_char c =
     (if c = 38 then string_bytes ''&amp;'' else if c = 34 then string_bytes ''&quot;''
      else if c = 39 then string_bytes ''&apos;'' else if c = 60 then string_bytes ''&lt;''
      else if c = 62 then string_bytes ''&gt;'' else [c])"

definition addChars :: "byte list \<Rightarrow> byte list" where
  "addChars s = concat (map escape_char s)"

definition openTag :: "string \<Rightarrow> byte list" where
  "openTag name = [60] @ string_bytes name @ [62]"

definition closeTag :: "string \<Rightarrow> byte list" where
  "closeTag name = [60, 47] @ string_bytes name @ [62]"

definition newline :: "byte list" where
  "newline = escape_char LF"

text \<open>An element with the given content, and one with the text of a value.\<close>

definition add_content :: "string \<Rightarrow> byte list \<Rightarrow> byte list" where
  "add_content name content = openTag name @ content @ closeTag name"

definition add_string :: "string \<Rightarrow> byte list \<Rightarrow> byte list" where
  "add_string name s = add_content name (addChars s)"

definition bool_text :: "bool \<Rightarrow> byte list" where
  "bool_text b = (if b then string_bytes ''true'' else string_bytes ''false'')"

definition int_text :: "int \<Rightarrow> byte list" where
  "int_text i = (if i < 0 then 45 # digits 10 (nat (- i)) else digits 10 (nat i))"

definition add_bool :: "string \<Rightarrow> bool \<Rightarrow> byte list" where
  "add_bool name b = add_content name (bool_text b)"

definition add_int :: "string \<Rightarrow> int \<Rightarrow> byte list" where
  "add_int name i = add_content name (int_text i)"

text \<open>A value that is not set is written as an empty element.\<close>

definition add_nullable :: "string \<Rightarrow> byte list option \<Rightarrow> byte list" where
  "add_nullable name v = add_content name (case v of None \<Rightarrow> [] | Some s \<Rightarrow> addChars s)"

definition addItems :: "('a \<Rightarrow> byte list) \<Rightarrow> 'a list \<Rightarrow> byte list" where
  "addItems f xs = concat (map (\<lambda>x. add_content ''item'' (f x) @ newline) xs)"

text \<open>A null array is not written at all.\<close>

definition addItemArray :: "('a \<Rightarrow> byte list) \<Rightarrow> string \<Rightarrow> 'a list option \<Rightarrow> byte list" where
  "addItemArray f name content =
     (case content of None \<Rightarrow> [] | Some xs \<Rightarrow> add_content name (addItems f xs) @ newline)"

text \<open>The pairs in the order in which the table is traversed.\<close>

definition addItemMap :: "string \<Rightarrow> string \<Rightarrow> string \<Rightarrow> (byte list \<times> byte list) list option \<Rightarrow> byte list" where
  "addItemMap name keyName valueName values =
     (case values of
        None \<Rightarrow> []
      | Some kvs \<Rightarrow> add_content name (addItems (\<lambda>(k, v). add_string keyName k @ add_string valueName v) kvs))"

definition PROTOCOL_VERSION_TEXT :: "byte list" where
  "PROTOCOL_VERSION_TEXT = int_text (sint PROTOCOL_VERSION)"

definition makeRequestHeader :: "string \<Rightarrow> bool \<Rightarrow> byte list" where
  "makeRequestHeader req closed =
     string_bytes ''<?xml version=\"1.0\" encoding=\"UTF-8\" standalone=\"yes\"?>'' @ CRLF @ [60] @ string_bytes req @
     string_bytes '' version=\"'' @ PROTOCOL_VERSION_TEXT @ [34] @
     string_bytes '' xmlns=\"http://xml.deltixlab.com/internal/quantserver/3.0\"'' @
     (if closed then string_bytes ''/>'' else string_bytes ''>'') @ CRLF"

text \<open>A complete request: a request without content has only the header.\<close>

definition getRequest :: "string \<Rightarrow> bool \<Rightarrow> byte list \<Rightarrow> byte list" where
  "getRequest name noContent content =
     makeRequestHeader name noContent @ content @ (if noContent then [] else closeTag name)"

section \<open>Reading\<close>

definition getText :: "element \<Rightarrow> string \<Rightarrow> byte list option" where
  "getText e childName =
     (if e = [] then None
      else case FirstChildElement childName e of [] \<Rightarrow> None | c # cs \<Rightarrow> GetText (c # cs))"

definition nameEquals :: "element \<Rightarrow> string \<Rightarrow> bool" where
  "nameEquals e name = (case e of [] \<Rightarrow> False | n # _ \<Rightarrow> has_name (string_bytes name) n)"

text \<open>\<^verbatim>\<open>strtoll\<close> with base 10: the value and the number of characters used.\<close>

definition strtoll :: "byte list \<Rightarrow> int \<times> nat" where
  "strtoll s =
     (let ws = length (takeWhile is_space s);
          s1 = drop ws s;
          neg = (s1 \<noteq> [] \<and> hd s1 = 45);
          sg = (if s1 \<noteq> [] \<and> hd s1 \<in> {43, 45} then 1 else 0);
          ds = takeWhile (\<lambda>b. digit_value b < 10) (drop sg s1);
          n = int (number 10 ds)
      in if ds = [] then (0, 0)
         else (max (- (2 ^ 63)) (min (2 ^ 63 - 1) (if neg then - n else n)), ws + sg + length ds))"

text \<open>The conversions; None: the text is no number at all. The 32-bit ones cut off the value of the 64-bit function.\<close>

definition parse_int64 :: "byte list \<Rightarrow> 64 word option" where
  "parse_int64 s = (case strtoll s of (v, used) \<Rightarrow> if used = 0 then None else Some (of_int v))"

definition parse_int32 :: "byte list \<Rightarrow> 32 word option" where
  "parse_int32 s = (case strtoll s of (v, used) \<Rightarrow> if used = 0 then None else Some (of_int v))"

definition parse_uint64 :: "byte list \<Rightarrow> 64 word option" where
  "parse_uint64 s = (case strtoull 10 s of (v, used) \<Rightarrow> if used = 0 then None else Some v)"

definition parse_uint32 :: "byte list \<Rightarrow> 32 word option" where
  "parse_uint32 s = (case strtoull 10 s of (v, used) \<Rightarrow> if used = 0 then None else Some (ucast v))"

definition to_lower :: "byte \<Rightarrow> byte" where
  "to_lower b = (if 65 \<le> b \<and> b \<le> 90 then b + 32 else b)"

definition equal_ignoring_case :: "byte list \<Rightarrow> string \<Rightarrow> bool" where
  "equal_ignoring_case s t \<longleftrightarrow> map to_lower s = map to_lower (string_bytes t)"

definition parse_bool :: "byte list \<Rightarrow> bool option" where
  "parse_bool s =
     (if equal_ignoring_case s ''true'' then Some True
      else if equal_ignoring_case s ''false'' then Some False else None)"

text \<open>The index of a name in the table of an enumeration; 255 if it is not there.\<close>

fun fromString_from :: "nat \<Rightarrow> string list \<Rightarrow> byte list \<Rightarrow> 8 word" where
  "fromString_from i [] s = NOT 0"
| "fromString_from i (name # names) s = (if string_bytes name = s then of_nat i else fromString_from (Suc i) names s)"

definition fromString :: "string list \<Rightarrow> byte list \<Rightarrow> 8 word" where
  "fromString names s = fromString_from 0 names s"

definition toString :: "string list \<Rightarrow> 8 word \<Rightarrow> byte list option" where
  "toString names x = (if unat x < length names then Some (string_bytes (names ! unat x)) else None)"

fun unescape :: "byte list \<Rightarrow> byte list" where
  "unescape [] = []"
| "unescape (c # r) =
     (if c = 0 then []
      else if c = 38 then
        (if starts (string_bytes ''amp;'') r then 38 # unescape (drop 4 r)
         else if starts (string_bytes ''quot;'') r then 34 # unescape (drop 5 r)
         else if starts (string_bytes ''apos;'') r then 39 # unescape (drop 5 r)
         else if starts (string_bytes ''lt;'') r then 60 # unescape (drop 3 r)
         else if starts (string_bytes ''gt;'') r then 62 # unescape (drop 3 r)
         else 38 # unescape r)
      else c # unescape r)"

section \<open>Execution\<close>

text \<open>What the exchange gives: an exception, or the code and the body. The result is the flag and the response.\<close>

definition executeRequest :: "bool \<Rightarrow> bool \<Rightarrow> exn + int \<times> byte list \<Rightarrow> exn + int \<times> byte list" where
  "executeRequest allowUnopenedDb dbOpen exchange = (if \<not> allowUnopenedDb \<and> \<not> dbOpen then Inr (0, []) else exchange)"

definition executeWithTextResponse :: "bool \<Rightarrow> exn + int \<times> byte list \<Rightarrow> exn + bool \<times> byte list" where
  "executeWithTextResponse noException result =
     (case result of
        Inl e \<Rightarrow> Inl e
      | Inr (code, response) \<Rightarrow>
          if \<not> HttpSuccess code
          then (if noException then Inr (False, unescape response) else Inl (ServerError ''Unable to execute XML HTTP request''))
          else Inr (True, response))"

text \<open>A response given beforehand needs no exchange.\<close>

definition XmlInput_parse :: "(byte list \<Rightarrow> xml_node list option) \<Rightarrow> byte list \<Rightarrow> exn + element option" where
  "XmlInput_parse xml_parse response =
     (case xml_parse response of
        None \<Rightarrow> Inl (RuntimeError ''responseParseError'')
      | Some doc \<Rightarrow> Inr (Some (RootElement doc)))"

definition executeAndParseResponse :: "(byte list \<Rightarrow> xml_node list option) \<Rightarrow> bool \<Rightarrow> exn + int \<times> byte list \<Rightarrow> exn + element option" where
  "executeAndParseResponse xml_parse noException result =
     (case executeWithTextResponse noException result of
        Inl e \<Rightarrow> Inl e
      | Inr (False, _) \<Rightarrow> Inr None
      | Inr (True, response) \<Rightarrow> XmlInput_parse xml_parse response)"

end
