(* ===== verification/XmlRequests.thy ===== *)
theory XmlRequests
  imports Xml
begin

text \<open>
  The XML requests of the client (\<^verbatim>\<open>tickdb/http/xml\<close>): the options of streams and cursors as XML, and the text of
  every request. A 64-bit number is written as the stream operator of the C++ library writes it.
\<close>

section \<open>Options\<close>

record buffer_options =
  initialBufferSize :: "32 word"
  maxBufferSize :: "32 word"
  maxBufferTimeDepth :: "64 word"
  lossless :: bool

record stream_options =
  soName :: "byte list option"
  soDescription :: "byte list option"
  soOwner :: "byte list option"
  soLocation :: "byte list option"
  soBufferOptions :: buffer_options
  soScope :: "8 word"
  soDistributionFactor :: "32 word"
  soDistributionRuleName :: "byte list option"
  soDuplicatesAllowed :: bool
  soHighAvailability :: bool
  soUnique :: bool
  soPolymorphic :: bool
  soPeriodicity :: "byte list"
  soMetadata :: "byte list option"

definition default_buffer_options :: buffer_options where
  "default_buffer_options = \<lparr>initialBufferSize = 0x2000, maxBufferSize = 0x10000, maxBufferTimeDepth = 2 ^ 63 - 1, lossless = False\<rparr>"

definition default_stream_options :: stream_options where
  "default_stream_options = \<lparr>soName = None, soDescription = None, soOwner = None, soLocation = None,
     soBufferOptions = default_buffer_options, soScope = 0, soDistributionFactor = 0, soDistributionRuleName = None,
     soDuplicatesAllowed = True, soHighAvailability = False, soUnique = False, soPolymorphic = False,
     soPeriodicity = string_bytes ''IRREGULAR'', soMetadata = None\<rparr>"

text \<open>The comparison leaves out the periodicity.\<close>

definition stream_options_equal :: "stream_options \<Rightarrow> stream_options \<Rightarrow> bool" where
  "stream_options_equal o1 o2 \<longleftrightarrow> soName o1 = soName o2 \<and> soDescription o1 = soDescription o2 \<and> soOwner o1 = soOwner o2 \<and>
     soScope o1 = soScope o2 \<and> soDistributionFactor o1 = soDistributionFactor o2 \<and>
     soDistributionRuleName o1 = soDistributionRuleName o2 \<and> soLocation o1 = soLocation o2 \<and>
     soDuplicatesAllowed o1 = soDuplicatesAllowed o2 \<and> soHighAvailability o1 = soHighAvailability o2 \<and>
     soUnique o1 = soUnique o2 \<and> soPolymorphic o1 = soPolymorphic o2 \<and> soMetadata o1 = soMetadata o2 \<and>
     soBufferOptions o1 = soBufferOptions o2"

definition infoStreamScope :: "string list" where
  "infoStreamScope = [''DURABLE'', ''EXTERNAL_FILE'', ''TRANSIENT'', ''RUNTIME'']"

text \<open>The name of an enumeration value that has none is the null pointer, from which no string can be built.\<close>

definition enum_text :: "string list \<Rightarrow> 8 word \<Rightarrow> exn + byte list" where
  "enum_text names x = (case toString names x of None \<Rightarrow> Inl (Undefined ''string(NULL)'') | Some s \<Rightarrow> Inr s)"

definition add_if_set :: "string \<Rightarrow> byte list option \<Rightarrow> byte list" where
  "add_if_set name v = (case v of None \<Rightarrow> [] | Some s \<Rightarrow> add_string name s @ newline)"

definition buffer_options_xml :: "buffer_options \<Rightarrow> byte list" where
  "buffer_options_xml v = newline @
     add_int ''initialBufferSize'' (uint (initialBufferSize v)) @ newline @
     add_int ''maxBufferSize'' (uint (maxBufferSize v)) @ newline @
     add_int ''maxBufferTimeDepth'' (uint (maxBufferTimeDepth v)) @ newline @
     add_bool ''lossless'' (lossless v) @ newline"

definition stream_options_xml :: "stream_options \<Rightarrow> exn + byte list" where
  "stream_options_xml v =
     map_sum id (\<lambda>sc. newline @
       add_if_set ''name'' (soName v) @ add_if_set ''description'' (soDescription v) @ add_if_set ''location'' (soLocation v) @
       add_int ''distributionFactor'' (sint (soDistributionFactor v)) @ newline @
       add_content ''bufferOptions'' (buffer_options_xml (soBufferOptions v)) @ newline @
       add_bool ''unique'' (soUnique v) @ newline @
       add_bool ''duplicatesAllowed'' (soDuplicatesAllowed v) @ newline @
       add_content ''scope'' sc @ newline @
       add_string ''periodicity'' (soPeriodicity v) @ newline @
       add_if_set ''owner'' (soOwner v) @
       add_bool ''polymorphic'' (soPolymorphic v) @ newline @
       add_nullable ''metadata'' (soMetadata v) @ newline)
     (enum_text infoStreamScope (soScope v))"

record query_parameter =
  qpName :: "byte list"
  qpType :: "byte list"
  qpValue :: "byte list option"

record selection_options =
  selFrom :: "64 word"
  selTo :: "64 word"
  useCompression :: bool
  live :: bool
  selReverse :: bool
  isBigEndian :: bool
  allowLateOutOfOrder :: bool
  realTimeNotification :: bool
  selMinLatency :: bool
  selSpaces :: "byte list list option"
  typeTransmissionMode :: "8 word"
  selQql :: "byte list option"
  qqlParameters :: "query_parameter list"

definition infoTypeTransmission :: "string list" where
  "infoTypeTransmission = [''GUID'', ''NAME'', ''DEFINITION'']"

definition query_parameter_xml :: "query_parameter \<Rightarrow> byte list" where
  "query_parameter_xml v = add_string ''name'' (qpName v) @ newline @ add_string ''type'' (qpType v) @ newline @
     add_if_set ''value'' (qpValue v)"

definition selection_options_xml :: "selection_options \<Rightarrow> exn + byte list" where
  "selection_options_xml v =
     map_sum id (\<lambda>tt.
       add_int ''from'' (sint (selFrom v)) @ newline @
       add_int ''to'' (sint (selTo v)) @ newline @
       add_content ''typeTransmission'' tt @ newline @
       add_bool ''useCompression'' (useCompression v) @ newline @
       add_bool ''reverse'' (selReverse v) @ newline @
       add_bool ''isBigEndian'' (isBigEndian v) @ newline @
       add_bool ''live'' (live v) @ newline @
       add_bool ''minLatency'' (selMinLatency v) @ newline @
       add_bool ''allowLateOutOfOrder'' (allowLateOutOfOrder v) @ newline @
       add_bool ''realTimeNotification'' (realTimeNotification v) @ newline @
       (case selQql v of
          None \<Rightarrow> []
        | Some q \<Rightarrow> add_nullable ''qql'' (Some q) @ newline @
            (if qqlParameters v \<noteq> [] then addItemArray query_parameter_xml ''parameters'' (Some (qqlParameters v)) @ newline else [])))
     (enum_text infoTypeTransmission (typeTransmissionMode v))"

section \<open>Requests of the database\<close>

definition ListStreamsRequest :: "byte list" where
  "ListStreamsRequest = getRequest ''listStreams'' True []"

definition LoadStreamsRequest :: "byte list" where
  "LoadStreamsRequest = getRequest ''loadStreams'' True []"

definition FormatDbRequest :: "byte list" where
  "FormatDbRequest = getRequest ''format'' True []"

definition GetServerTimeRequest :: "byte list" where
  "GetServerTimeRequest = getRequest ''getServerTime'' True []"

definition ValidateQqlRequest :: "byte list \<Rightarrow> byte list" where
  "ValidateQqlRequest qql = getRequest ''validateQQL'' False (add_string ''qql'' qql)"

definition CreateStreamRequest :: "byte list \<Rightarrow> stream_options \<Rightarrow> exn + byte list" where
  "CreateStreamRequest key so =
     map_sum id (\<lambda>x. getRequest ''createStreamRequest'' False (add_string ''key'' key @ newline @ add_content ''options'' x))
       (stream_options_xml so)"

definition CreateFileStreamRequest :: "byte list \<Rightarrow> byte list \<Rightarrow> byte list" where
  "CreateFileStreamRequest key dataFile =
     getRequest ''createFileStreamRequest'' False (add_string ''key'' key @ newline @ add_string ''dataFile'' dataFile)"

section \<open>Requests for a stream\<close>

datatype lock_type = NO_LOCK | READ_LOCK | WRITE_LOCK

text \<open>What a request says of its stream: its lock, the token of the lock and its key.\<close>

record stream_ref =
  refLock :: lock_type
  refToken :: "byte list"
  refKey :: "byte list"

definition StreamRequest :: "stream_ref \<Rightarrow> string \<Rightarrow> byte list \<Rightarrow> byte list" where
  "StreamRequest s requestName content =
     getRequest requestName False
       ((if refLock s \<noteq> NO_LOCK then add_string ''token'' (refToken s) else []) @ add_string ''stream'' (refKey s) @ content)"

definition add_each :: "string \<Rightarrow> byte list list option \<Rightarrow> byte list" where
  "add_each name xs = (case xs of None \<Rightarrow> [] | Some xs \<Rightarrow> concat (map (add_string name) xs))"

definition ClearStreamRequest :: "stream_ref \<Rightarrow> byte list list option \<Rightarrow> byte list" where
  "ClearStreamRequest s identities = StreamRequest s ''clearStream'' (add_each ''identities'' identities)"

definition DeleteStreamRequest :: "stream_ref \<Rightarrow> byte list" where
  "DeleteStreamRequest s = StreamRequest s ''deleteStream'' []"

definition PurgeStreamRequest :: "stream_ref \<Rightarrow> 64 word \<Rightarrow> byte list" where
  "PurgeStreamRequest s time = StreamRequest s ''purgeStream'' (add_int ''time'' (sint time))"

definition TruncateStreamRequest :: "stream_ref \<Rightarrow> 64 word \<Rightarrow> byte list list option \<Rightarrow> byte list" where
  "TruncateStreamRequest s time identities =
     StreamRequest s ''truncateStream'' (add_int ''time'' (sint time) @ newline @ add_each ''identities'' identities)"

definition RenameStreamRequest :: "stream_ref \<Rightarrow> byte list \<Rightarrow> byte list" where
  "RenameStreamRequest s newKey = StreamRequest s ''renameStream'' (add_string ''key'' newKey)"

definition AbortBGProcessRequest :: "stream_ref \<Rightarrow> byte list" where
  "AbortBGProcessRequest s = StreamRequest s ''abortBgProcess'' []"

definition SetSchemaRequest :: "stream_ref \<Rightarrow> bool \<Rightarrow> byte list option \<Rightarrow> byte list" where
  "SetSchemaRequest s isPolymorphic schema =
     StreamRequest s ''setSchema''
       (add_bool ''polymorphic'' isPolymorphic @ add_string ''type'' (string_bytes ''XML'') @ newline @ add_nullable ''schema'' schema)"

record schema_change_task =
  sctPolymorphic :: bool
  sctBackground :: bool
  sctSchema :: "byte list option"
  sctDefaults :: "(byte list \<times> byte list) list option"
  sctMappings :: "(byte list \<times> byte list) list option"

definition ChangeSchemaRequest :: "stream_ref \<Rightarrow> schema_change_task \<Rightarrow> byte list" where
  "ChangeSchemaRequest s task =
     StreamRequest s ''changeSchema''
       (add_bool ''polymorphic'' (sctPolymorphic task) @ add_bool ''background'' (sctBackground task) @ newline @
        add_nullable ''schema'' (sctSchema task) @ newline @
        addItemMap ''defaults'' ''name'' ''value'' (sctDefaults task) @ newline @
        addItemMap ''mappings'' ''name'' ''value'' (sctMappings task))"

definition GetBgProcessRequest :: "stream_ref \<Rightarrow> byte list" where
  "GetBgProcessRequest s = StreamRequest s ''getBgProcess'' []"

definition DeleteSpacesRequest :: "stream_ref \<Rightarrow> byte list list \<Rightarrow> byte list" where
  "DeleteSpacesRequest s spaces = StreamRequest s ''deleteSpaces'' (add_each ''spaces'' (Some spaces))"

definition RenameSpaceRequest :: "stream_ref \<Rightarrow> byte list \<Rightarrow> byte list \<Rightarrow> byte list" where
  "RenameSpaceRequest s newName oldName =
     StreamRequest s ''renameSpace'' (add_string ''newName'' newName @ add_string ''oldName'' oldName)"

definition DescribeStreamRequest :: "stream_ref \<Rightarrow> byte list" where
  "DescribeStreamRequest s = StreamRequest s ''describeStream'' []"

definition ListEntitiesRequest :: "stream_ref \<Rightarrow> byte list" where
  "ListEntitiesRequest s = StreamRequest s ''listEntities'' []"

definition ListSpacesRequest :: "stream_ref \<Rightarrow> byte list" where
  "ListSpacesRequest s = StreamRequest s ''listSpaces'' []"

definition PeriodicityRequest :: "stream_ref \<Rightarrow> byte list" where
  "PeriodicityRequest s = StreamRequest s ''getPeriodicity'' []"

definition SchemaRequest :: "stream_ref \<Rightarrow> byte list" where
  "SchemaRequest s = StreamRequest s ''getSchema'' []"

definition TimerangeRequest :: "stream_ref \<Rightarrow> byte list list option \<Rightarrow> byte list" where
  "TimerangeRequest s entities = StreamRequest s ''getTimeRange'' (add_each ''identities'' entities)"

definition SpaceTimerangeRequest :: "stream_ref \<Rightarrow> byte list \<Rightarrow> byte list" where
  "SpaceTimerangeRequest s space = StreamRequest s ''getSpaceTimeRange'' (add_string ''space'' space)"

definition LockStreamRequest :: "stream_ref \<Rightarrow> byte list \<Rightarrow> bool \<Rightarrow> 64 word \<Rightarrow> byte list" where
  "LockStreamRequest s sid wr timeout =
     StreamRequest s ''lockStream'' (add_bool ''write'' wr @ add_int ''timeout'' (sint timeout) @ add_string ''sid'' sid)"

definition UnlockStreamRequest :: "stream_ref \<Rightarrow> byte list \<Rightarrow> bool \<Rightarrow> byte list" where
  "UnlockStreamRequest s ident wr =
     StreamRequest s ''unlockStream'' (add_bool ''write'' wr @ add_string ''id'' ident)"

section \<open>Requests for a cursor\<close>

definition CursorRequest :: "string \<Rightarrow> 64 word \<Rightarrow> 64 word \<Rightarrow> byte list \<Rightarrow> byte list" where
  "CursorRequest requestName ident time content =
     getRequest requestName False (add_int ''id'' (sint ident) @ add_int ''time'' (sint time) @ content)"

definition CloseRequest :: "64 word \<Rightarrow> 64 word \<Rightarrow> byte list" where
  "CloseRequest ident time = CursorRequest ''closeRequest'' ident time []"

definition ResetRequest :: "64 word \<Rightarrow> 64 word \<Rightarrow> byte list" where
  "ResetRequest ident time = CursorRequest ''resetRequest'' ident time []"

fun action_text :: "subscr_action \<Rightarrow> string" where
  "action_text SET = ''SET''"
| "action_text ADD = ''ADD''"
| "action_text REMOVE = ''REMOVE''"

definition ModifySubscriptionRequest :: "string \<Rightarrow> 64 word \<Rightarrow> 64 word \<Rightarrow> subscr_action \<Rightarrow> byte list \<Rightarrow> byte list" where
  "ModifySubscriptionRequest requestName ident time changeMode content =
     CursorRequest requestName ident time (add_string ''mode'' (string_bytes (action_text changeMode)) @ content)"

definition ModifyEntitiesRequest :: "64 word \<Rightarrow> 64 word \<Rightarrow> subscr_action \<Rightarrow> byte list list option \<Rightarrow> byte list" where
  "ModifyEntitiesRequest ident time changeMode entities =
     ModifySubscriptionRequest ''changeEntities'' ident time changeMode (add_each ''identities'' entities)"

definition ModifyTypesRequest :: "64 word \<Rightarrow> 64 word \<Rightarrow> subscr_action \<Rightarrow> byte list list option \<Rightarrow> byte list" where
  "ModifyTypesRequest ident time changeMode types =
     ModifySubscriptionRequest ''changeTypes'' ident time changeMode (addItemArray addChars ''types'' types)"

definition ModifyStreamsRequest :: "64 word \<Rightarrow> 64 word \<Rightarrow> subscr_action \<Rightarrow> byte list list option \<Rightarrow> byte list" where
  "ModifyStreamsRequest ident time changeMode streams =
     ModifySubscriptionRequest ''changeStreams'' ident time changeMode (addItemArray addChars ''streams'' streams)"

text \<open>The request that opens a cursor; the spaces are sent to servers that know them.\<close>

definition SELECT_SPACE_SUPPORT_VERSION :: int where [layout_defs]: "SELECT_SPACE_SUPPORT_VERSION = 32"

definition select_request :: "int \<Rightarrow> selection_options \<Rightarrow> byte list list \<Rightarrow> byte list list option \<Rightarrow> byte list list option \<Rightarrow> exn + byte list" where
  "select_request version opts streams symbols types =
     (let selectTagName = (if selQql opts \<noteq> None then ''selectQQL'' else ''select'') in
      map_sum id (\<lambda>o_xml. makeRequestHeader selectTagName False @
          addItemArray addChars ''streams'' (Some streams) @ addItemArray addChars ''symbols'' symbols @
          addItemArray addChars ''types'' types @ o_xml @
          (if SELECT_SPACE_SUPPORT_VERSION \<le> version \<and> selSpaces opts \<noteq> None
           then addItemArray addChars ''spaces'' (selSpaces opts) else []) @
          closeTag selectTagName @ newline)
        (selection_options_xml opts))"

end
