(* ===== verification/XmlResponses.thy ===== *)
theory XmlResponses
  imports XmlRequests
begin

text \<open>
  The responses to the XML requests (\<^verbatim>\<open>tickdb/http/xml\<close>): what the client takes from a parsed document. Every function
  gets the root element, or None if the request failed without an exception. Building a string from a null
  pointer is undefined.
\<close>

section \<open>Options\<close>

text \<open>The macro \<^verbatim>\<open>GET\<close>: a field that is missing keeps its value, one that cannot be parsed ends the method.\<close>

definition get_field :: "(byte list \<Rightarrow> 'a option) \<Rightarrow> string \<Rightarrow> ('a \<Rightarrow> 's \<Rightarrow> 's) \<Rightarrow> element \<Rightarrow> 's \<Rightarrow> 's option" where
  "get_field p name upd root s =
     (case getText root name of
        None \<Rightarrow> Some s
      | Some t \<Rightarrow> (case p t of None \<Rightarrow> None | Some v \<Rightarrow> Some (upd v s)))"

fun run_fields :: "('s \<Rightarrow> 's option) list \<Rightarrow> 's \<Rightarrow> 's option" where
  "run_fields [] s = Some s"
| "run_fields (f # fs) s = Option.bind (f s) (run_fields fs)"

definition buffer_options_fromXML :: "element \<Rightarrow> buffer_options \<Rightarrow> buffer_options option" where
  "buffer_options_fromXML root = run_fields
     [get_field parse_uint32 ''initialBufferSize'' (\<lambda>v b. b\<lparr>initialBufferSize := v\<rparr>) root,
      get_field parse_uint32 ''maxBufferSize'' (\<lambda>v b. b\<lparr>maxBufferSize := v\<rparr>) root,
      get_field parse_uint64 ''maxBufferTimeDepth'' (\<lambda>v b. b\<lparr>maxBufferTimeDepth := v\<rparr>) root,
      get_field parse_bool ''lossless'' (\<lambda>v b. b\<lparr>lossless := v\<rparr>) root]"

definition get_buffer_options :: "element \<Rightarrow> stream_options \<Rightarrow> stream_options option" where
  "get_buffer_options root so =
     (let e = FirstChildElement ''bufferOptions'' root in
      if e \<noteq> [] then map_option (\<lambda>b. so\<lparr>soBufferOptions := b\<rparr>) (buffer_options_fromXML e default_buffer_options)
      else Some (so\<lparr>soBufferOptions := default_buffer_options\<rparr>))"

definition stream_options_fromXML :: "element \<Rightarrow> stream_options \<Rightarrow> stream_options option" where
  "stream_options_fromXML root = run_fields
     [get_field Some ''name'' (\<lambda>v so. so\<lparr>soName := Some v\<rparr>) root,
      get_field Some ''description'' (\<lambda>v so. so\<lparr>soDescription := Some v\<rparr>) root,
      get_field Some ''owner'' (\<lambda>v so. so\<lparr>soOwner := Some v\<rparr>) root,
      get_field Some ''location'' (\<lambda>v so. so\<lparr>soLocation := Some v\<rparr>) root,
      get_field Some ''metadata'' (\<lambda>v so. so\<lparr>soMetadata := Some v\<rparr>) root,
      get_field parse_int32 ''distributionFactor'' (\<lambda>v so. so\<lparr>soDistributionFactor := v\<rparr>) root,
      get_field parse_bool ''unique'' (\<lambda>v so. so\<lparr>soUnique := v\<rparr>) root,
      get_field parse_bool ''duplicatesAllowed'' (\<lambda>v so. so\<lparr>soDuplicatesAllowed := v\<rparr>) root,
      get_field (\<lambda>t. Some (fromString infoStreamScope t)) ''scope'' (\<lambda>v so. so\<lparr>soScope := v\<rparr>) root,
      get_field Some ''periodicity'' (\<lambda>v so. so\<lparr>soPeriodicity := v\<rparr>) root,
      get_field parse_bool ''highAvailability'' (\<lambda>v so. so\<lparr>soHighAvailability := v\<rparr>) root,
      get_field parse_bool ''polymorphic'' (\<lambda>v so. so\<lparr>soPolymorphic := v\<rparr>) root,
      get_buffer_options root]"

section \<open>Responses of the database\<close>

text \<open>The keys and options of the streams. The options are collected first; the keys must be as many.\<close>

fun load_options :: "element list \<Rightarrow> stream_options list option" where
  "load_options [] = Some []"
| "load_options (e # es) =
     (case stream_options_fromXML e default_stream_options of
        None \<Rightarrow> None
      | Some so \<Rightarrow> map_option ((#) so) (load_options es))"

fun load_keys :: "element list \<Rightarrow> stream_options list \<Rightarrow> (byte list \<times> stream_options) list option" where
  "load_keys [] [] = Some []"
| "load_keys (e # es) (so # sos) =
     (case GetText e of None \<Rightarrow> None | Some key \<Rightarrow> map_option ((#) (key, so)) (load_keys es sos))"
| "load_keys _ _ = None"

definition getStreams :: "element option \<Rightarrow> (byte list \<times> stream_options) list option" where
  "getStreams response =
     (case response of
        None \<Rightarrow> None
      | Some root \<Rightarrow>
          if \<not> nameEquals root ''loadStreamsResponse'' then None
          else let streamsElement = FirstChildElement ''streams'' root; optionsElement = FirstChildElement ''options'' root in
            if streamsElement = [] \<or> optionsElement = [] then None
            else Option.bind (load_options (for_elements ''item'' optionsElement)) (load_keys (for_elements ''item'' streamsElement)))"

text \<open>A text as a string.\<close>

definition text_string :: "element \<Rightarrow> exn + byte list" where
  "text_string e = (case GetText e of None \<Rightarrow> Inl (Undefined ''string(NULL)'') | Some t \<Rightarrow> Inr t)"

fun collect :: "('a \<Rightarrow> exn + 'b) \<Rightarrow> 'a list \<Rightarrow> exn + 'b list" where
  "collect f [] = Inr []"
| "collect f (x # xs) = (case f x of Inl e \<Rightarrow> Inl e | Inr y \<Rightarrow> map_sum id ((#) y) (collect f xs))"

definition getStreamKeys :: "element option \<Rightarrow> exn + byte list list" where
  "getStreamKeys response =
     (case response of
        None \<Rightarrow> Inr []
      | Some root \<Rightarrow>
          if \<not> nameEquals root ''listStreamsResponse'' then Inr []
          else let levelElement = FirstChildElement ''streams'' root in
            if levelElement = [] then Inr [] else collect text_string (for_elements ''item'' levelElement))"

definition server_time :: "element option \<Rightarrow> 64 word" where
  "server_time response =
     (case response of
        None \<Rightarrow> TIMESTAMP_NULL
      | Some root \<Rightarrow>
          if \<not> nameEquals root ''getServerTimeResponse'' then TIMESTAMP_NULL
          else (case getText root ''time'' of None \<Rightarrow> TIMESTAMP_NULL | Some t \<Rightarrow> of_int (fst (strtoll t))))"

section \<open>Responses for a stream\<close>

fun list_entities :: "element list \<Rightarrow> byte list list \<times> bool" where
  "list_entities [] = ([], True)"
| "list_entities (e # es) =
     (case GetText e of None \<Rightarrow> ([], False) | Some t \<Rightarrow> (case list_entities es of (ts, ok) \<Rightarrow> (t # ts, ok)))"

definition listEntities :: "element option \<Rightarrow> byte list list \<times> bool" where
  "listEntities response =
     (case response of
        None \<Rightarrow> ([], False)
      | Some root \<Rightarrow>
          if \<not> nameEquals root ''listEntitiesResponse'' then ([], False)
          else let levelElement = FirstChildElement ''identities'' root in
            if levelElement = [] then ([], False) else list_entities (for_elements ''item'' levelElement))"

definition listSpaces :: "element option \<Rightarrow> byte list list \<times> bool" where
  "listSpaces response =
     (case response of
        None \<Rightarrow> ([], False)
      | Some root \<Rightarrow>
          if \<not> nameEquals root ''listSpacesResponse'' then ([], False)
          else let spacesElement = FirstChildElement ''spaces'' root in
            if spacesElement = [] then ([], False)
            else (map (\<lambda>e. case GetText e of None \<Rightarrow> [] | Some t \<Rightarrow> t) (for_elements ''item'' spacesElement), True))"

definition describe :: "element option \<Rightarrow> exn + byte list option" where
  "describe response =
     (case response of
        None \<Rightarrow> Inr None
      | Some root \<Rightarrow>
          if \<not> nameEquals root ''describeStreamResponse'' then Inr None
          else let spacesElement = FirstChildElement ''ddl'' root in
            if spacesElement = [] then Inr None else map_sum id Some (text_string spacesElement))"

text \<open>The token of the lock, if the request succeeded; the flag \<open>wr\<close> of the object is overwritten.\<close>

definition lock_response :: "element option \<Rightarrow> byte list option" where
  "lock_response response =
     (case response of
        None \<Rightarrow> None
      | Some root \<Rightarrow>
          if \<not> nameEquals root ''lockStreamsResponse'' then None
          else (case getText root ''id'' of
              None \<Rightarrow> None
            | Some s \<Rightarrow> (case getText root ''write'' of
                  None \<Rightarrow> None
                | Some t \<Rightarrow> (case parse_bool t of None \<Rightarrow> None | Some _ \<Rightarrow> Some s))))"

definition timerange :: "element option \<Rightarrow> (64 word \<times> 64 word) option" where
  "timerange response =
     (case response of
        None \<Rightarrow> None
      | Some root \<Rightarrow>
          if \<not> nameEquals root ''getTimeRangeResponse'' then None
          else let levelElement = FirstChildElement ''timeRange'' root in
            if levelElement = [] then Some (2 ^ 63 - 1, 2 ^ 63)
            else (case (getText levelElement ''from'', getText levelElement ''to'') of
                (Some f, Some t) \<Rightarrow> Some (of_int (fst (strtoll f)), of_int (fst (strtoll t)))
              | _ \<Rightarrow> None))"

text \<open>The units of an interval and the character of each; 255 is the unknown unit.\<close>

definition infoTimeUnit :: "string list" where
  "infoTimeUnit = [''X-MILLISECOND'', ''S-SECOND'', ''I-MINUTE'', ''H-HOUR'', ''D-DAY'', ''W-WEEK'', ''M-MONTH'', ''Q-QUARTER'', ''Y-YEAR'']"

fun fromChar_from :: "nat \<Rightarrow> string list \<Rightarrow> byte \<Rightarrow> 8 word" where
  "fromChar_from i [] c = NOT 0"
| "fromChar_from i (name # names) c = (if of_char (hd name) = c then of_nat i else fromChar_from (Suc i) names c)"

definition fromChar :: "string list \<Rightarrow> byte \<Rightarrow> 8 word" where
  "fromChar names c = (if c AND NOT 0x3F = 0x40 then fromChar_from 0 names c else NOT 0)"

definition getPeriodicity :: "element option \<Rightarrow> (64 word \<times> 8 word) option" where
  "getPeriodicity response =
     (case response of
        None \<Rightarrow> None
      | Some root \<Rightarrow>
          if \<not> nameEquals root ''getPeriodicityResponse'' then None
          else (case getText root ''periodicity'' of
              None \<Rightarrow> None
            | Some data \<Rightarrow>
                if strhasprefix (Some data) (Some (string_bytes ''IRREGULAR'')) then Some (0, NOT 0)
                else (case strtoll data of (numUnits, used) \<Rightarrow>
                  let unitType = fromChar infoTimeUnit (case drop used data of [] \<Rightarrow> 0 | c # _ \<Rightarrow> c) in
                  if used = 0 \<or> unitType = NOT 0 then None else Some (of_int numUnits, unitType))))"

section \<open>Responses for a cursor\<close>

definition cursor_response :: "element option \<Rightarrow> 64 word" where
  "cursor_response response =
     (case response of
        None \<Rightarrow> - 1
      | Some root \<Rightarrow>
          if \<not> nameEquals root ''cursorResponse'' then - 1
          else (case getText root ''serial'' of None \<Rightarrow> - 1 | Some t \<Rightarrow> of_int (fst (strtoll t))))"

end
