(* ===== verification/XmlTheorems.thy ===== *)
theory XmlTheorems
  imports XmlResponses
begin

text \<open>
  What the requests say: a reference reader of XML documents, independent of the code, and the theorem that every
  request is read as the document of its arguments, whatever characters they contain.
\<close>

section \<open>A reader of documents\<close>

text \<open>The five entities of XML.\<close>

function decode :: "byte list \<Rightarrow> byte list" where
  "decode s =
     (case s of
        [] \<Rightarrow> []
      | c # r \<Rightarrow>
          if c \<noteq> 38 then c # decode r
          else let name = takeWhile (\<lambda>b. b \<noteq> 59) r; rest = drop (Suc (length name)) r in
            (case map_of [(string_bytes ''amp'', 38), (string_bytes ''quot'', 34), (string_bytes ''apos'', 39),
                (string_bytes ''lt'', 60), (string_bytes ''gt'', 62)] name of
               None \<Rightarrow> c # decode r
             | Some x \<Rightarrow> x # decode rest))"
  by pat_completeness auto
termination
  by (relation "measure length") auto

declare decode.simps [simp del]

text \<open>The attributes of a tag: names, each with a quoted value.\<close>

function read_attributes :: "byte list \<Rightarrow> (byte list \<times> byte list) list" where
  "read_attributes s =
     (let w = dropWhile is_space s; k = takeWhile (\<lambda>b. b \<noteq> 61) w; r = drop 2 (dropWhile (\<lambda>b. b \<noteq> 61) w);
          v = takeWhile (\<lambda>b. b \<noteq> 34) r in
      if r = [] then [] else (k, decode v) # read_attributes (drop 1 (dropWhile (\<lambda>b. b \<noteq> 34) r)))"
  by pat_completeness auto
termination
proof (relation "measure length")
  have "length (drop 1 (dropWhile (\<lambda>b. b \<noteq> 34) r)) < length s"
    if "r = drop 2 (dropWhile (\<lambda>b. b \<noteq> 61) w)" "w = dropWhile is_space s" "r \<noteq> []" for r w s :: "byte list"
  proof -
    have "length (dropWhile (\<lambda>b. b \<noteq> 34) r) \<le> length r" "length (dropWhile (\<lambda>b. b \<noteq> 61) w) \<le> length w" "length w \<le> length s"
      using that(2) by (auto intro: length_dropWhile_le)
    moreover have "length r = length (dropWhile (\<lambda>b. b \<noteq> 61) w) - 2" "0 < length r" using that by simp_all
    ultimately show ?thesis by simp
  qed
  then show "(drop 1 (dropWhile (\<lambda>b. b \<noteq> 34) xb), s) \<in> measure length"
    if "x = dropWhile is_space s" "xb = drop 2 (dropWhile (\<lambda>b. b \<noteq> 61) x)" "\<not> xb = []" for s x xb
    using that by auto
qed simp

declare read_attributes.simps [simp del]

definition read_tag :: "byte list \<Rightarrow> byte list \<times> (byte list \<times> byte list) list" where
  "read_tag t = (let name = takeWhile (\<lambda>b. b \<noteq> 32) t in (name, read_attributes (drop (length name) t)))"

lemma behind_tag:
  assumes "dropWhile is_space s = c # w"
  shows "length (dropWhile P w) < length s" "length (dropWhile P w) - Suc 0 < length s"
proof -
  have "length (c # w) \<le> length s" using assms length_dropWhile_le [of is_space s] by simp
  then show "length (dropWhile P w) < length s" "length (dropWhile P w) - Suc 0 < length s"
    using length_dropWhile_le [of P w] by simp_all
qed

text \<open>The siblings read so far and the enclosing elements, each innermost first. Text of white space only is dropped.\<close>

type_synonym open_elements = "(byte list \<times> (byte list \<times> byte list) list \<times> xml_node list) list"

function read_nodes :: "byte list \<Rightarrow> xml_node list \<Rightarrow> open_elements \<Rightarrow> xml_node list option" where
  "read_nodes s cur st =
     (case dropWhile is_space s of
        [] \<Rightarrow> (if st = [] then Some (rev cur) else None)
      | c # w \<Rightarrow>
          if c \<noteq> 60 then read_nodes (dropWhile (\<lambda>b. b \<noteq> 60) w) (CharData (decode (takeWhile (\<lambda>b. b \<noteq> 60) s)) # cur) st
          else let t = takeWhile (\<lambda>b. b \<noteq> 62) w; rest = drop 1 (dropWhile (\<lambda>b. b \<noteq> 62) w) in
            if t = [] then None
            else if hd t = 63 then read_nodes rest cur st
            else if hd t = 47 then
              (case st of
                 [] \<Rightarrow> None
               | (n, as, siblings) # st' \<Rightarrow>
                   if n = tl t then read_nodes rest (Element n as (rev cur) # siblings) st' else None)
            else if last t = 47 then (case read_tag (butlast t) of (n, as) \<Rightarrow> read_nodes rest (Element n as [] # cur) st)
            else (case read_tag t of (n, as) \<Rightarrow> read_nodes rest [] ((n, as, cur) # st)))"
  by pat_completeness auto
termination
  by (relation "measure (\<lambda>(s, cur, st). length s)") (auto dest: behind_tag)

declare read_nodes.simps [simp del]

definition read_document :: "byte list \<Rightarrow> xml_node list option" where
  "read_document s = read_nodes s [] []"

section \<open>Reading what was written\<close>

lemma decode_Nil [simp]: "decode [] = []"
  by (simp add: decode.simps)

lemma decode_escape: "decode (escape_char c @ s) = c # decode s"
  by (subst decode.simps) (auto simp: escape_char_def string_bytes_def Let_def split: list.splits)

lemma decode_addChars: "decode (addChars t) = t"
  by (induction t) (simp_all add: addChars_def decode_escape)

lemma escape_char_shape: "60 \<notin> set (escape_char c)" "62 \<notin> set (escape_char c)" "0 \<in> set (escape_char c) \<Longrightarrow> c = 0"
  by (auto simp: escape_char_def string_bytes_def split: if_splits)

lemma escape_char_head: "\<exists>x xs. escape_char c = x # xs \<and> is_space x = is_space c \<and> (is_space c \<longrightarrow> xs = [] \<and> x = c)"
  by (auto simp: escape_char_def string_bytes_def is_space_def)

lemma addChars_no_tag: "60 \<notin> set (addChars t)"
  using escape_char_shape(1) by (auto simp: addChars_def)

lemma addChars_Cons: "addChars (c # t) = escape_char c @ addChars t"
  by (simp add: addChars_def)

text \<open>Text of white space only disappears.\<close>

definition text_nodes :: "byte list \<Rightarrow> xml_node list" where
  "text_nodes t = (if list_all is_space t then [] else [CharData t])"

lemma skip_blank: "list_all is_space t \<Longrightarrow> dropWhile is_space (addChars t @ s) = dropWhile is_space s"
proof (induction t)
  case (Cons c t)
  then have "escape_char c = [c]" using escape_char_head [of c] by auto
  then show ?case using Cons by (simp add: addChars_Cons)
qed (simp add: addChars_def)

lemma text_starts:
  assumes "\<not> list_all is_space t"
  shows "\<exists>x xs. dropWhile is_space (addChars t @ 60 # s) = x # xs @ 60 # s \<and> x \<noteq> 60 \<and> 60 \<notin> set xs"
  using assms
proof (induction t)
  case (Cons c t)
  obtain x xs where x: "escape_char c = x # xs" "is_space x = is_space c" "is_space c \<Longrightarrow> xs = []"
    using escape_char_head [of c] by auto
  show ?case
  proof (cases "is_space c")
    case True
    then show ?thesis using Cons x by (simp add: addChars_Cons)
  next
    case False
    then have "dropWhile is_space (addChars (c # t) @ 60 # s) = x # (xs @ addChars t) @ 60 # s" using x by (simp add: addChars_Cons)
    moreover have "x \<noteq> 60 \<and> 60 \<notin> set (xs @ addChars t)" using escape_char_shape(1) [of c] addChars_no_tag [of t] x(1) by auto
    ultimately show ?thesis by blast
  qed
qed simp

lemma dropWhile_to: "x \<notin> set xs \<Longrightarrow> dropWhile (\<lambda>b. b \<noteq> x) (xs @ x # s) = x # s" "x \<notin> set xs \<Longrightarrow> takeWhile (\<lambda>b. b \<noteq> x) (xs @ x # s) = xs"
  by (induction xs) auto

lemma read_text: "read_nodes (addChars t @ 60 # s) cur st = read_nodes (60 # s) (rev (text_nodes t) @ cur) st"
proof (cases "list_all is_space t")
  case True
  then have "dropWhile is_space (addChars t @ 60 # s) = dropWhile is_space (60 # s)" by (rule skip_blank)
  then show ?thesis using True by (simp add: read_nodes.simps [of "addChars t @ 60 # s"] read_nodes.simps [of "60 # s"] text_nodes_def is_space_def)
next
  case False
  obtain x xs where x: "dropWhile is_space (addChars t @ 60 # s) = x # xs @ 60 # s" "x \<noteq> 60" "60 \<notin> set xs"
    using text_starts [OF False, of s] by blast
  have "read_nodes (addChars t @ 60 # s) cur st =
      read_nodes (dropWhile (\<lambda>b. b \<noteq> 60) (xs @ 60 # s)) (CharData (decode (takeWhile (\<lambda>b. b \<noteq> 60) (addChars t @ 60 # s))) # cur) st"
    using x(1,2) by (subst read_nodes.simps) simp
  then show ?thesis using False x(3) dropWhile_to [of 60 xs s] dropWhile_to(2) [OF addChars_no_tag, of t s]
    by (simp add: text_nodes_def decode_addChars)
qed

text \<open>Names of tags.\<close>

definition tag_name :: "string \<Rightarrow> bool" where
  "tag_name n \<longleftrightarrow> n \<noteq> [] \<and> list_all (\<lambda>b. b \<notin> {32, 47, 62, 63}) (string_bytes n)"

lemma tag_name_bytes:
  assumes "tag_name n"
  shows "string_bytes n \<noteq> []" "62 \<notin> set (string_bytes n)" "32 \<notin> set (string_bytes n)" "hd (string_bytes n) \<noteq> 63"
    "hd (string_bytes n) \<noteq> 47" "last (string_bytes n) \<noteq> 47"
proof -
  show ne: "string_bytes n \<noteq> []" using assms by (simp add: tag_name_def string_bytes_def)
  have all: "x \<notin> {32, 47, 62, 63}" if "x \<in> set (string_bytes n)" for x using assms that by (simp add: tag_name_def list_all_iff)
  then show "62 \<notin> set (string_bytes n)" "32 \<notin> set (string_bytes n)" by auto
  show "hd (string_bytes n) \<noteq> 63" "hd (string_bytes n) \<noteq> 47" "last (string_bytes n) \<noteq> 47"
    using all [OF hd_in_set [OF ne]] all [OF last_in_set [OF ne]] by auto
qed

lemma read_attributes_Nil [simp]: "read_attributes [] = []"
  by (simp add: read_attributes.simps)

lemma read_open: "tag_name n \<Longrightarrow> read_nodes (openTag n @ s) cur st = read_nodes s [] ((string_bytes n, [], cur) # st)"
proof -
  assume n: "tag_name n"
  note t = tag_name_bytes [OF n]
  have "takeWhile (\<lambda>b. b \<noteq> 32) (string_bytes n) = string_bytes n" using t(3) by (auto simp: takeWhile_eq_all_conv)
  then have "read_tag (string_bytes n) = (string_bytes n, [])" unfolding read_tag_def Let_def by (simp only: drop_all order_refl read_attributes_Nil)
  then show ?thesis
    using t dropWhile_to [of 62 "string_bytes n" s] by (subst read_nodes.simps) (simp add: openTag_def is_space_def Let_def)
qed

lemma read_close:
  "tag_name n \<Longrightarrow> read_nodes (closeTag n @ s) cur ((string_bytes n, as, siblings) # st) = read_nodes s (Element (string_bytes n) as (rev cur) # siblings) st"
  using tag_name_bytes [of n] dropWhile_to [of 62 "47 # string_bytes n" s]
  by (subst read_nodes.simps) (simp add: closeTag_def is_space_def Let_def)

text \<open>Output that is followed by markup and read as nodes.\<close>

definition markup :: "byte list \<Rightarrow> bool" where
  "markup s \<longleftrightarrow> (\<exists>w. dropWhile is_space s = 60 # w)"

definition spells :: "byte list \<Rightarrow> xml_node list \<Rightarrow> bool" where
  "spells bs ns \<longleftrightarrow>
     (\<forall>s. markup s \<longrightarrow> markup (bs @ s) \<and> (\<forall>cur st. read_nodes (bs @ s) cur st = read_nodes s (rev ns @ cur) st))"

named_theorems spelling \<open>how the output of the request writers is read\<close>

lemma spells_Nil [spelling]: "spells [] []"
  by (simp add: spells_def)

lemma spells_append [spelling]: "spells as xs \<Longrightarrow> spells bs ys \<Longrightarrow> spells (as @ bs) (xs @ ys)"
  by (simp add: spells_def)

lemma spells_newline: "spells newline []"
proof -
  have n: "newline = [LF]" by (simp add: newline_def escape_char_def)
  have d: "dropWhile is_space (newline @ s) = dropWhile is_space s" for s by (simp add: n is_space_def)
  show ?thesis unfolding spells_def
  proof (intro allI impI conjI)
    fix s cur st assume "markup s"
    then obtain w where w: "dropWhile is_space s = 60 # w" by (auto simp: markup_def)
    show "markup (newline @ s)" using w d [of s] by (simp add: markup_def)
    show "read_nodes (newline @ s) cur st = read_nodes s (rev [] @ cur) st"
      by (subst (1 2) read_nodes.simps) (simp only: d w list.case simp_thms if_False rev.simps append.simps)
  qed
qed

lemma markup_tag: "markup (openTag n @ s)" "markup (closeTag n @ s)"
  by (simp_all add: markup_def openTag_def closeTag_def is_space_def)

lemma spells_content [spelling]:
  assumes "tag_name n" "spells bs ns"
  shows "spells (add_content n bs) [Element (string_bytes n) [] ns]"
  unfolding spells_def
proof (intro allI impI conjI)
  fix s cur st
  have "read_nodes (bs @ closeTag n @ s) [] ((string_bytes n, [], cur) # st) = read_nodes (closeTag n @ s) (rev ns @ []) ((string_bytes n, [], cur) # st)"
    using assms(2) markup_tag(2) [of n s] by (simp add: spells_def)
  then show "read_nodes (add_content n bs @ s) cur st = read_nodes s (rev [Element (string_bytes n) [] ns] @ cur) st"
    using read_open [OF assms(1)] read_close [OF assms(1)] by (simp add: add_content_def)
  show "markup (add_content n bs @ s)" using markup_tag(1) by (simp add: add_content_def)
qed

lemma spells_string:
  assumes "tag_name n"
  shows "spells (add_string n t) [Element (string_bytes n) [] (text_nodes t)]"
  unfolding spells_def
proof (intro allI impI conjI)
  fix s cur st
  have c: "closeTag n @ s = 60 # tl (closeTag n @ s)" by (simp add: closeTag_def)
  have "read_nodes (addChars t @ closeTag n @ s) [] ((string_bytes n, [], cur) # st) = read_nodes (closeTag n @ s) (rev (text_nodes t) @ []) ((string_bytes n, [], cur) # st)"
    using read_text [of t "tl (closeTag n @ s)"] c by simp
  then show "read_nodes (add_string n t @ s) cur st = read_nodes s (rev [Element (string_bytes n) [] (text_nodes t)] @ cur) st"
    using read_open [OF assms] read_close [OF assms] by (simp add: add_string_def add_content_def text_nodes_def)
  show "markup (add_string n t @ s)" using markup_tag(1) by (simp add: add_string_def add_content_def)
qed

section \<open>Values and lists\<close>

definition text_element :: "string \<Rightarrow> byte list \<Rightarrow> xml_node" where
  "text_element n t = Element (string_bytes n) [] (text_nodes t)"

lemma addChars_plain: "{34, 38, 39, 60, 62} \<inter> set b = {} \<Longrightarrow> addChars b = b"
  by (induction b) (simp_all add: addChars_def escape_char_def)

lemma plain_digits: "{34, 38, 39, 60, 62} \<inter> set (digits 10 n) = {}"
proof -
  have "\<not> digit_value b < 10" if "b \<in> {34, 38, 39, 60, 62}" for b using that by (auto simp: digit_value_def)
  then show ?thesis using digits_are_digits [of 10 _ n] by auto
qed

lemma addChars_values: "addChars (int_text i) = int_text i" "addChars (bool_text b) = bool_text b" "addChars [] = []"
proof -
  have "{34, 38, 39, 60, 62} \<inter> set (int_text i) = {}" using plain_digits by (auto simp: int_text_def)
  then show "addChars (int_text i) = int_text i" by (rule addChars_plain)
  show "addChars (bool_text b) = bool_text b" by (rule addChars_plain) (simp add: bool_text_def string_bytes_def)
qed (simp add: addChars_def)

lemma spells_text [spelling]: "tag_name n \<Longrightarrow> spells (add_string n t) [text_element n t]"
  by (simp add: text_element_def spells_string)

lemma spells_values [spelling]:
  "tag_name n \<Longrightarrow> spells (add_int n i) [text_element n (int_text i)]"
  "tag_name n \<Longrightarrow> spells (add_bool n b) [text_element n (bool_text b)]"
  "tag_name n \<Longrightarrow> spells (add_nullable n v) [text_element n (case v of None \<Rightarrow> [] | Some s \<Rightarrow> s)]"
  using spells_text [of n "int_text i"] spells_text [of n "bool_text b"] spells_text [of n "case v of None \<Rightarrow> [] | Some s \<Rightarrow> s"]
  by (simp_all add: add_string_def add_int_def add_bool_def add_nullable_def addChars_values split: option.splits)

lemma spells_concat: "(\<And>x. x \<in> set xs \<Longrightarrow> spells (f x) (g x)) \<Longrightarrow> spells (concat (map f xs)) (concat (map g xs))"
  by (induction xs) (auto intro: spelling)

lemma spells_then_newline: "spells bs ns \<Longrightarrow> spells (bs @ newline) ns"
  using spells_append [OF _ spells_newline, of bs ns] by simp

lemma spells_newline_then: "spells bs ns \<Longrightarrow> spells (newline @ bs) ns"
  using spells_append [OF spells_newline, of bs ns] by simp

lemma item_name: "tag_name ''item''"
  by (simp add: tag_name_def string_bytes_def)

lemma spells_items:
  assumes "\<And>x. x \<in> set xs \<Longrightarrow> spells (f x) (g x)"
  shows "spells (addItems f xs) (map (\<lambda>x. Element (string_bytes ''item'') [] (g x)) xs)"
proof -
  have "spells (addItems f xs) (concat (map (\<lambda>x. [Element (string_bytes ''item'') [] (g x)]) xs))"
    unfolding addItems_def by (rule spells_concat, rule spells_then_newline, rule spells_content [OF item_name]) (rule assms)
  then show ?thesis by (simp add: concat_map_singleton)
qed

lemma spells_each:
  assumes "tag_name n"
  shows "spells (add_each n xs) (map (text_element n) (case xs of None \<Rightarrow> [] | Some xs \<Rightarrow> xs))"
proof (cases xs)
  case (Some ys)
  have "spells (concat (map (add_string n) ys)) (concat (map (\<lambda>x. [text_element n x]) ys))"
    by (rule spells_concat) (rule spells_text [OF assms])
  then show ?thesis using Some by (simp add: add_each_def concat_map_singleton)
qed (simp add: add_each_def spells_Nil)

text \<open>A null array says nothing, every other one has an element with its items.\<close>

definition array_nodes :: "string \<Rightarrow> byte list list option \<Rightarrow> xml_node list" where
  "array_nodes n xs = (case xs of None \<Rightarrow> [] | Some xs \<Rightarrow> [Element (string_bytes n) [] (map (text_element ''item'') xs)])"

lemma spells_array:
  assumes "tag_name n"
  shows "spells (addItemArray addChars n xs) (array_nodes n xs)"
proof (cases xs)
  case (Some ys)
  have "addItems addChars ys = concat (map (\<lambda>x. add_string ''item'' x @ newline) ys)" by (simp add: addItems_def add_string_def)
  moreover have "spells (concat (map (\<lambda>x. add_string ''item'' x @ newline) ys)) (concat (map (\<lambda>x. [text_element ''item'' x]) ys))"
    by (rule spells_concat) (rule spells_then_newline, rule spells_text [OF item_name])
  ultimately have "spells (addItems addChars ys) (map (text_element ''item'') ys)" by (simp add: concat_map_singleton)
  then have "spells (add_content n (addItems addChars ys)) [Element (string_bytes n) [] (map (text_element ''item'') ys)]"
    by (rule spells_content [OF assms])
  then show ?thesis using Some by (simp add: addItemArray_def array_nodes_def spells_then_newline)
qed (simp add: addItemArray_def array_nodes_def spells_Nil)

definition map_nodes :: "string \<Rightarrow> string \<Rightarrow> string \<Rightarrow> (byte list \<times> byte list) list option \<Rightarrow> xml_node list" where
  "map_nodes n kn vn kvs =
     (case kvs of
        None \<Rightarrow> []
      | Some kvs \<Rightarrow> [Element (string_bytes n) []
          (map (\<lambda>(k, v). Element (string_bytes ''item'') [] [text_element kn k, text_element vn v]) kvs)])"

lemma spells_map:
  assumes "tag_name n" "tag_name kn" "tag_name vn"
  shows "spells (addItemMap n kn vn kvs) (map_nodes n kn vn kvs)"
proof (cases kvs)
  case (Some ys)
  have kv: "spells (case y of (k, v) \<Rightarrow> add_string kn k @ add_string vn v) (case y of (k, v) \<Rightarrow> [text_element kn k, text_element vn v])" for y
    using spells_append [OF spells_text [OF assms(2)] spells_text [OF assms(3)]] by (cases y) simp
  have "spells (addItems (\<lambda>(k, v). add_string kn k @ add_string vn v) ys)
      (map (\<lambda>y. Element (string_bytes ''item'') [] (case y of (k, v) \<Rightarrow> [text_element kn k, text_element vn v])) ys)"
    by (rule spells_items) (rule kv)
  then show ?thesis using Some spells_content [OF assms(1)] by (simp add: addItemMap_def map_nodes_def case_prod_unfold)
qed (simp add: addItemMap_def map_nodes_def spells_Nil)

section \<open>The header\<close>

definition standard_attributes :: "(byte list \<times> byte list) list" where
  "standard_attributes = [(string_bytes ''version'', string_bytes ''32''),
     (string_bytes ''xmlns'', string_bytes ''http://xml.deltixlab.com/internal/quantserver/3.0'')]"

definition attribute_text :: "byte list" where
  "attribute_text = string_bytes '' version=\"'' @ PROTOCOL_VERSION_TEXT @ [34] @
     string_bytes '' xmlns=\"http://xml.deltixlab.com/internal/quantserver/3.0\"''"

definition declaration_text :: "byte list" where
  "declaration_text = string_bytes ''?xml version=\"1.0\" encoding=\"UTF-8\" standalone=\"yes\"?''"

lemma attributes_read: "read_attributes attribute_text = standard_attributes"
  by code_simp

lemma attribute_shape: "62 \<notin> set attribute_text" "62 \<notin> set declaration_text" "hd attribute_text = 32" "attribute_text \<noteq> []" "last attribute_text = 34"
    "declaration_text \<noteq> []" "hd declaration_text = 63"
  by code_simp+

lemma header_text: "makeRequestHeader n c = (60 # declaration_text @ [62]) @ CRLF @ (60 # string_bytes n @ attribute_text @ (if c then [47] else []) @ [62]) @ CRLF"
  by (simp add: makeRequestHeader_def attribute_text_def declaration_text_def string_bytes_def)

lemma read_blank: "read_nodes (CR # LF # 60 # w) cur st = read_nodes (60 # w) cur st"
  by (simp add: read_nodes.simps [of "CR # w'" for w'] read_nodes.simps [of "60 # w"] is_space_def)

lemma read_tag_text:
  assumes "60 # t @ 62 # s = 60 # u" "62 \<notin> set t" "t \<noteq> []"
  shows "takeWhile (\<lambda>b. b \<noteq> 62) u = t" "dropWhile (\<lambda>b. b \<noteq> 62) u = 62 # s"
  using assms dropWhile_to [of 62 t s] by auto

lemma read_root_tag: "tag_name n \<Longrightarrow> read_tag (string_bytes n @ attribute_text) = (string_bytes n, standard_attributes)"
proof -
  assume n: "tag_name n"
  define a where "a = tl attribute_text"
  have a: "attribute_text = 32 # a" unfolding a_def using list.collapse [OF attribute_shape(4)] attribute_shape(3) by metis
  have "takeWhile (\<lambda>b. b \<noteq> 32) (string_bytes n @ attribute_text) = string_bytes n"
    unfolding a by (rule dropWhile_to(2) [OF tag_name_bytes(3) [OF n]])
  then show ?thesis by (simp add: read_tag_def Let_def attributes_read)
qed

lemma read_declaration: "read_nodes (60 # declaration_text @ 62 # s) cur st = read_nodes s cur st"
  using dropWhile_to [OF attribute_shape(2), of s] attribute_shape(6,7)
  by (subst read_nodes.simps) (simp add: is_space_def Let_def)

lemma read_header:
  assumes "tag_name n" "markup s"
  shows "read_nodes (makeRequestHeader n False @ s) [] [] = read_nodes s [] [(string_bytes n, standard_attributes, [])]"
proof -
  obtain w where w: "dropWhile is_space s = 60 # w" using assms(2) by (auto simp: markup_def)
  let ?t = "string_bytes n @ attribute_text"
  note b = tag_name_bytes [OF assms(1)]
  have t: "62 \<notin> set ?t" "?t \<noteq> []" "hd ?t \<noteq> 63" "hd ?t \<noteq> 47" "last ?t \<noteq> 47" using b attribute_shape by auto
  have "read_nodes (60 # ?t @ 62 # CRLF @ s) [] [] = read_nodes (CRLF @ s) [] [(string_bytes n, standard_attributes, [])]"
    using dropWhile_to [OF t(1), of "CRLF @ s"] t(2-) b(1) read_root_tag [OF assms(1)]
    by (subst read_nodes.simps) (simp add: is_space_def Let_def)
  moreover have "read_nodes (CRLF @ s) [] [(string_bytes n, standard_attributes, [])] = read_nodes s [] [(string_bytes n, standard_attributes, [])]"
    using w by (subst (1 2) read_nodes.simps) (simp add: is_space_def)
  ultimately show ?thesis by (simp add: header_text read_declaration read_blank)
qed

text \<open>The two forms of a request.\<close>

lemma request_without_content:
  assumes "tag_name n"
  shows "read_document (getRequest n True []) = Some [Element (string_bytes n) standard_attributes []]"
proof -
  let ?t = "string_bytes n @ attribute_text"
  note b = tag_name_bytes [OF assms]
  have t: "62 \<notin> set (?t @ [47])" "hd (?t @ [47]) \<noteq> 63" "hd (?t @ [47]) \<noteq> 47" using b attribute_shape by auto
  have "read_nodes (60 # (?t @ [47]) @ 62 # CRLF) [] [] = read_nodes CRLF [Element (string_bytes n) standard_attributes []] []"
    using dropWhile_to [OF t(1), of CRLF] t read_root_tag [OF assms] b(1)
    by (subst read_nodes.simps) (simp add: is_space_def Let_def butlast_append)
  moreover have "read_nodes CRLF cur [] = Some (rev cur)" for cur by (subst read_nodes.simps) (simp add: is_space_def)
  ultimately show ?thesis by (simp add: read_document_def getRequest_def header_text read_declaration read_blank)
qed

lemma request_with_content:
  assumes "tag_name n" "spells content ns"
  shows "read_document (getRequest n False content) = Some [Element (string_bytes n) standard_attributes ns]"
proof -
  have m: "markup (closeTag n)" using markup_tag(2) [of n "[]"] by simp
  then have c: "markup (content @ closeTag n)"
    "read_nodes (content @ closeTag n) [] st = read_nodes (closeTag n) (rev ns) st" for st
    using assms(2) by (auto simp: spells_def)
  have "read_nodes (closeTag n) (rev ns) [(string_bytes n, standard_attributes, [])] = read_nodes [] [Element (string_bytes n) standard_attributes ns] []"
    using read_close [OF assms(1), of "[]" "rev ns"] by simp
  then show ?thesis using read_header [OF assms(1) c(1)] c(2)
    by (simp add: read_document_def getRequest_def read_nodes.simps [of "[]"])
qed

section \<open>The content of the requests\<close>

lemma tag_names [spelling]:
  "tag_name ''name''" "tag_name ''description''" "tag_name ''location''" "tag_name ''distributionFactor''"
  "tag_name ''bufferOptions''" "tag_name ''unique''" "tag_name ''duplicatesAllowed''" "tag_name ''scope''"
  "tag_name ''periodicity''" "tag_name ''owner''" "tag_name ''polymorphic''" "tag_name ''metadata''"
  "tag_name ''initialBufferSize''" "tag_name ''maxBufferSize''" "tag_name ''maxBufferTimeDepth''"
  "tag_name ''lossless''" "tag_name ''from''" "tag_name ''to''" "tag_name ''typeTransmission''"
  "tag_name ''useCompression''" "tag_name ''reverse''" "tag_name ''isBigEndian''" "tag_name ''live''"
  "tag_name ''minLatency''" "tag_name ''allowLateOutOfOrder''" "tag_name ''realTimeNotification''" "tag_name ''qql''"
  "tag_name ''parameters''" "tag_name ''type''" "tag_name ''value''" "tag_name ''key''" "tag_name ''options''"
  "tag_name ''dataFile''" "tag_name ''token''" "tag_name ''stream''" "tag_name ''identities''" "tag_name ''time''"
  "tag_name ''schema''" "tag_name ''background''" "tag_name ''defaults''" "tag_name ''mappings''"
  "tag_name ''spaces''" "tag_name ''newName''" "tag_name ''oldName''" "tag_name ''space''" "tag_name ''write''"
  "tag_name ''timeout''" "tag_name ''sid''" "tag_name ''id''" "tag_name ''mode''" "tag_name ''types''"
  "tag_name ''streams''" "tag_name ''symbols''" "tag_name ''item''" "tag_name ''listStreams''"
  "tag_name ''loadStreams''" "tag_name ''format''" "tag_name ''getServerTime''" "tag_name ''validateQQL''"
  "tag_name ''createStreamRequest''" "tag_name ''createFileStreamRequest''" "tag_name ''clearStream''"
  "tag_name ''deleteStream''" "tag_name ''purgeStream''" "tag_name ''truncateStream''" "tag_name ''renameStream''"
  "tag_name ''abortBgProcess''" "tag_name ''setSchema''" "tag_name ''changeSchema''" "tag_name ''getBgProcess''"
  "tag_name ''deleteSpaces''" "tag_name ''renameSpace''" "tag_name ''describeStream''" "tag_name ''listEntities''"
  "tag_name ''listSpaces''" "tag_name ''getPeriodicity''" "tag_name ''getSchema''" "tag_name ''getTimeRange''"
  "tag_name ''getSpaceTimeRange''" "tag_name ''lockStream''" "tag_name ''unlockStream''" "tag_name ''closeRequest''"
  "tag_name ''resetRequest''" "tag_name ''changeEntities''" "tag_name ''changeTypes''" "tag_name ''changeStreams''"
  "tag_name ''select''" "tag_name ''selectQQL''"
  by (simp_all add: tag_name_def string_bytes_def)

lemmas [spelling] = spells_newline spells_each spells_array spells_map

lemma spells_eq: "spells bs ms \<Longrightarrow> ms = ns \<Longrightarrow> spells bs ns"
  by simp

lemma spells_if [spelling]: "spells a ns \<Longrightarrow> spells (if c then a else []) (if c then ns else [])"
  by (simp add: spells_Nil)

definition set_nodes :: "string \<Rightarrow> byte list option \<Rightarrow> xml_node list" where
  "set_nodes n v = (case v of None \<Rightarrow> [] | Some s \<Rightarrow> [text_element n s])"

lemma spells_if_set [spelling]: "tag_name n \<Longrightarrow> spells (add_if_set n v) (set_nodes n v)"
  by (cases v) (auto simp: add_if_set_def set_nodes_def intro: spells_Nil spells_then_newline spells_text)

definition buffer_nodes :: "buffer_options \<Rightarrow> xml_node list" where
  "buffer_nodes b = [text_element ''initialBufferSize'' (int_text (uint (initialBufferSize b))),
     text_element ''maxBufferSize'' (int_text (uint (maxBufferSize b))),
     text_element ''maxBufferTimeDepth'' (int_text (uint (maxBufferTimeDepth b))),
     text_element ''lossless'' (bool_text (lossless b))]"

definition scope_text :: "8 word \<Rightarrow> byte list" where
  "scope_text s = string_bytes (infoStreamScope ! unat s)"

definition options_nodes :: "stream_options \<Rightarrow> xml_node list" where
  "options_nodes so =
     set_nodes ''name'' (soName so) @ set_nodes ''description'' (soDescription so) @ set_nodes ''location'' (soLocation so) @
     [text_element ''distributionFactor'' (int_text (sint (soDistributionFactor so))),
      Element (string_bytes ''bufferOptions'') [] (buffer_nodes (soBufferOptions so)),
      text_element ''unique'' (bool_text (soUnique so)),
      text_element ''duplicatesAllowed'' (bool_text (soDuplicatesAllowed so)),
      text_element ''scope'' (scope_text (soScope so)),
      text_element ''periodicity'' (soPeriodicity so)] @
     set_nodes ''owner'' (soOwner so) @
     [text_element ''polymorphic'' (bool_text (soPolymorphic so)),
      text_element ''metadata'' (case soMetadata so of None \<Rightarrow> [] | Some s \<Rightarrow> s)]"

lemma spells_buffer_options: "spells (buffer_options_xml b) (buffer_nodes b)"
  unfolding buffer_options_xml_def buffer_nodes_def by (rule spells_eq, (rule spelling)+) simp

lemma spells_plain: "tag_name n \<Longrightarrow> addChars b = b \<Longrightarrow> spells (add_content n b) [text_element n b]"
  using spells_text [of n b] by (simp add: add_string_def)

lemma scope_cases: "unat (s :: 8 word) < 4 \<Longrightarrow> s = 0 \<or> s = 1 \<or> s = 2 \<or> s = 3"
  by (simp add: word_unat_eq_iff) arith

lemma spells_stream_options:
  assumes "unat (soScope so) < 4"
  shows "\<exists>x. stream_options_xml so = Inr x \<and> spells x (options_nodes so)"
proof -
  let ?sc = "scope_text (soScope so)"
  have e: "enum_text infoStreamScope (soScope so) = Inr ?sc" using assms by (simp add: enum_text_def toString_def scope_text_def infoStreamScope_def)
  have "addChars ?sc = ?sc"
    using scope_cases [OF assms] by (elim disjE) (simp_all add: scope_text_def infoStreamScope_def string_bytes_def addChars_def escape_char_def)
  note sc = spells_plain [OF tag_names(8) this]
  show ?thesis unfolding stream_options_xml_def e options_nodes_def map_sum.simps id_apply
    by (rule exI, rule conjI, rule refl, rule spells_eq, (rule sc spells_buffer_options spelling)+) simp
qed

definition parameter_nodes :: "query_parameter \<Rightarrow> xml_node list" where
  "parameter_nodes q = [text_element ''name'' (qpName q), text_element ''type'' (qpType q)] @ set_nodes ''value'' (qpValue q)"

definition qql_nodes :: "selection_options \<Rightarrow> xml_node list" where
  "qql_nodes v =
     (case selQql v of
        None \<Rightarrow> []
      | Some q \<Rightarrow> text_element ''qql'' q #
          (if qqlParameters v \<noteq> []
           then [Element (string_bytes ''parameters'') []
             (map (\<lambda>p. Element (string_bytes ''item'') [] (parameter_nodes p)) (qqlParameters v))]
           else []))"

definition selection_nodes :: "selection_options \<Rightarrow> xml_node list" where
  "selection_nodes v =
     [text_element ''from'' (int_text (sint (selFrom v))), text_element ''to'' (int_text (sint (selTo v))),
      text_element ''typeTransmission'' (string_bytes (infoTypeTransmission ! unat (typeTransmissionMode v))),
      text_element ''useCompression'' (bool_text (useCompression v)), text_element ''reverse'' (bool_text (selReverse v)),
      text_element ''isBigEndian'' (bool_text (isBigEndian v)), text_element ''live'' (bool_text (live v)),
      text_element ''minLatency'' (bool_text (selMinLatency v)),
      text_element ''allowLateOutOfOrder'' (bool_text (allowLateOutOfOrder v)),
      text_element ''realTimeNotification'' (bool_text (realTimeNotification v))] @ qql_nodes v"

lemma spells_parameter: "spells (query_parameter_xml q) (parameter_nodes q)"
  unfolding query_parameter_xml_def parameter_nodes_def by (rule spells_eq, (rule spelling)+) simp

lemma spells_parameters:
  "spells (addItemArray query_parameter_xml ''parameters'' (Some qs))
     [Element (string_bytes ''parameters'') [] (map (\<lambda>p. Element (string_bytes ''item'') [] (parameter_nodes p)) qs)]"
proof -
  have "tag_name ''parameters''" by (rule spelling)
  then show ?thesis
    by (simp add: addItemArray_def spells_then_newline spells_content [OF _ spells_items [OF spells_parameter]])
qed

lemma spells_qql:
  "spells (case selQql v of
      None \<Rightarrow> []
    | Some q \<Rightarrow> add_nullable ''qql'' (Some q) @ newline @
        (if qqlParameters v \<noteq> [] then addItemArray query_parameter_xml ''parameters'' (Some (qqlParameters v)) @ newline else []))
     (qql_nodes v)"
proof (cases "selQql v")
  case (Some q)
  have "spells (add_nullable ''qql'' (Some q) @ newline @
      (if qqlParameters v \<noteq> [] then addItemArray query_parameter_xml ''parameters'' (Some (qqlParameters v)) @ newline else [])) (qql_nodes v)"
    by (rule spells_eq, (rule spells_parameters spelling)+) (simp add: qql_nodes_def Some)
  then show ?thesis by (simp only: Some option.case)
qed (simp add: qql_nodes_def spells_Nil)

lemma spells_selection_options:
  assumes "unat (typeTransmissionMode v) < 3"
  shows "\<exists>x. selection_options_xml v = Inr x \<and> spells x (selection_nodes v)"
proof -
  let ?tt = "string_bytes (infoTypeTransmission ! unat (typeTransmissionMode v))"
  have e: "enum_text infoTypeTransmission (typeTransmissionMode v) = Inr ?tt"
    using assms by (simp add: enum_text_def toString_def infoTypeTransmission_def)
  have "unat (typeTransmissionMode v) = 0 \<or> unat (typeTransmissionMode v) = 1 \<or> unat (typeTransmissionMode v) = 2" using assms by arith
  then have "addChars ?tt = ?tt"
    by (elim disjE) (simp_all add: infoTypeTransmission_def string_bytes_def addChars_def escape_char_def)
  note tt = spells_plain [of "''typeTransmission''", OF _ this]
  show ?thesis unfolding selection_options_xml_def e selection_nodes_def map_sum.simps id_apply
    by (rule exI, rule conjI, rule refl, rule spells_eq, (rule tt spells_qql spelling)+) simp
qed

section \<open>All requests\<close>

datatype client_request =
    RListStreams | RLoadStreams | RFormat | RServerTime
  | RValidate "byte list" | RCreate "byte list" stream_options | RCreateFile "byte list" "byte list"
  | RClear stream_ref "byte list list option" | RDelete stream_ref | RPurge stream_ref "64 word"
  | RTruncate stream_ref "64 word" "byte list list option" | RRename stream_ref "byte list" | RAbort stream_ref
  | RSetSchema stream_ref bool "byte list option" | RChangeSchema stream_ref schema_change_task | RProcessInfo stream_ref
  | RDeleteSpaces stream_ref "byte list list" | RRenameSpace stream_ref "byte list" "byte list" | RDescribe stream_ref
  | REntities stream_ref | RSpaces stream_ref | RPeriodicity stream_ref | RSchema stream_ref
  | RTimeRange stream_ref "byte list list option" | RSpaceTimeRange stream_ref "byte list"
  | RLock stream_ref "byte list" bool "64 word" | RUnlock stream_ref "byte list" bool
  | RClose "64 word" "64 word" | RReset "64 word" "64 word"
  | RChangeEntities "64 word" "64 word" subscr_action "byte list list option"
  | RChangeTypes "64 word" "64 word" subscr_action "byte list list option"
  | RChangeStreams "64 word" "64 word" subscr_action "byte list list option"
  | RSelect int selection_options "byte list list" "byte list list option" "byte list list option"

fun request_text :: "client_request \<Rightarrow> exn + byte list" where
  "request_text RListStreams = Inr ListStreamsRequest"
| "request_text RLoadStreams = Inr LoadStreamsRequest"
| "request_text RFormat = Inr FormatDbRequest"
| "request_text RServerTime = Inr GetServerTimeRequest"
| "request_text (RValidate q) = Inr (ValidateQqlRequest q)"
| "request_text (RCreate k so) = CreateStreamRequest k so"
| "request_text (RCreateFile k f) = Inr (CreateFileStreamRequest k f)"
| "request_text (RClear s is) = Inr (ClearStreamRequest s is)"
| "request_text (RDelete s) = Inr (DeleteStreamRequest s)"
| "request_text (RPurge s t) = Inr (PurgeStreamRequest s t)"
| "request_text (RTruncate s t is) = Inr (TruncateStreamRequest s t is)"
| "request_text (RRename s k) = Inr (RenameStreamRequest s k)"
| "request_text (RAbort s) = Inr (AbortBGProcessRequest s)"
| "request_text (RSetSchema s p x) = Inr (SetSchemaRequest s p x)"
| "request_text (RChangeSchema s t) = Inr (ChangeSchemaRequest s t)"
| "request_text (RProcessInfo s) = Inr (GetBgProcessRequest s)"
| "request_text (RDeleteSpaces s xs) = Inr (DeleteSpacesRequest s xs)"
| "request_text (RRenameSpace s n o1) = Inr (RenameSpaceRequest s n o1)"
| "request_text (RDescribe s) = Inr (DescribeStreamRequest s)"
| "request_text (REntities s) = Inr (ListEntitiesRequest s)"
| "request_text (RSpaces s) = Inr (ListSpacesRequest s)"
| "request_text (RPeriodicity s) = Inr (PeriodicityRequest s)"
| "request_text (RSchema s) = Inr (SchemaRequest s)"
| "request_text (RTimeRange s es) = Inr (TimerangeRequest s es)"
| "request_text (RSpaceTimeRange s sp) = Inr (SpaceTimerangeRequest s sp)"
| "request_text (RLock s sid w t) = Inr (LockStreamRequest s sid w t)"
| "request_text (RUnlock s i w) = Inr (UnlockStreamRequest s i w)"
| "request_text (RClose i t) = Inr (CloseRequest i t)"
| "request_text (RReset i t) = Inr (ResetRequest i t)"
| "request_text (RChangeEntities i t a xs) = Inr (ModifyEntitiesRequest i t a xs)"
| "request_text (RChangeTypes i t a xs) = Inr (ModifyTypesRequest i t a xs)"
| "request_text (RChangeStreams i t a xs) = Inr (ModifyStreamsRequest i t a xs)"
| "request_text (RSelect v opts ss ys ts) = select_request v opts ss ys ts"

text \<open>The name and the children of the document that a request should be.\<close>

definition stream_nodes :: "stream_ref \<Rightarrow> xml_node list" where
  "stream_nodes s = (if refLock s \<noteq> NO_LOCK then [text_element ''token'' (refToken s)] else []) @ [text_element ''stream'' (refKey s)]"

definition each_nodes :: "string \<Rightarrow> byte list list option \<Rightarrow> xml_node list" where
  "each_nodes n xs = map (text_element n) (case xs of None \<Rightarrow> [] | Some xs \<Rightarrow> xs)"

definition cursor_nodes :: "64 word \<Rightarrow> 64 word \<Rightarrow> xml_node list" where
  "cursor_nodes i t = [text_element ''id'' (int_text (sint i)), text_element ''time'' (int_text (sint t))]"

definition mode_node :: "subscr_action \<Rightarrow> xml_node" where
  "mode_node a = text_element ''mode'' (string_bytes (action_text a))"

abbreviation nullable_text :: "byte list option \<Rightarrow> byte list" where
  "nullable_text v \<equiv> (case v of None \<Rightarrow> [] | Some s \<Rightarrow> s)"

fun request_document :: "client_request \<Rightarrow> string \<times> xml_node list" where
  "request_document RListStreams = (''listStreams'', [])"
| "request_document RLoadStreams = (''loadStreams'', [])"
| "request_document RFormat = (''format'', [])"
| "request_document RServerTime = (''getServerTime'', [])"
| "request_document (RValidate q) = (''validateQQL'', [text_element ''qql'' q])"
| "request_document (RCreate k so) =
     (''createStreamRequest'', [text_element ''key'' k, Element (string_bytes ''options'') [] (options_nodes so)])"
| "request_document (RCreateFile k f) = (''createFileStreamRequest'', [text_element ''key'' k, text_element ''dataFile'' f])"
| "request_document (RClear s is) = (''clearStream'', stream_nodes s @ each_nodes ''identities'' is)"
| "request_document (RDelete s) = (''deleteStream'', stream_nodes s)"
| "request_document (RPurge s t) = (''purgeStream'', stream_nodes s @ [text_element ''time'' (int_text (sint t))])"
| "request_document (RTruncate s t is) =
     (''truncateStream'', stream_nodes s @ text_element ''time'' (int_text (sint t)) # each_nodes ''identities'' is)"
| "request_document (RRename s k) = (''renameStream'', stream_nodes s @ [text_element ''key'' k])"
| "request_document (RAbort s) = (''abortBgProcess'', stream_nodes s)"
| "request_document (RSetSchema s p x) =
     (''setSchema'', stream_nodes s @ [text_element ''polymorphic'' (bool_text p), text_element ''type'' (string_bytes ''XML''),
        text_element ''schema'' (nullable_text x)])"
| "request_document (RChangeSchema s t) =
     (''changeSchema'', stream_nodes s @ [text_element ''polymorphic'' (bool_text (sctPolymorphic t)),
        text_element ''background'' (bool_text (sctBackground t)), text_element ''schema'' (nullable_text (sctSchema t))] @
        map_nodes ''defaults'' ''name'' ''value'' (sctDefaults t) @ map_nodes ''mappings'' ''name'' ''value'' (sctMappings t))"
| "request_document (RProcessInfo s) = (''getBgProcess'', stream_nodes s)"
| "request_document (RDeleteSpaces s xs) = (''deleteSpaces'', stream_nodes s @ each_nodes ''spaces'' (Some xs))"
| "request_document (RRenameSpace s n o1) =
     (''renameSpace'', stream_nodes s @ [text_element ''newName'' n, text_element ''oldName'' o1])"
| "request_document (RDescribe s) = (''describeStream'', stream_nodes s)"
| "request_document (REntities s) = (''listEntities'', stream_nodes s)"
| "request_document (RSpaces s) = (''listSpaces'', stream_nodes s)"
| "request_document (RPeriodicity s) = (''getPeriodicity'', stream_nodes s)"
| "request_document (RSchema s) = (''getSchema'', stream_nodes s)"
| "request_document (RTimeRange s es) = (''getTimeRange'', stream_nodes s @ each_nodes ''identities'' es)"
| "request_document (RSpaceTimeRange s sp) = (''getSpaceTimeRange'', stream_nodes s @ [text_element ''space'' sp])"
| "request_document (RLock s sid w t) =
     (''lockStream'', stream_nodes s @ [text_element ''write'' (bool_text w), text_element ''timeout'' (int_text (sint t)),
        text_element ''sid'' sid])"
| "request_document (RUnlock s i w) =
     (''unlockStream'', stream_nodes s @ [text_element ''write'' (bool_text w), text_element ''id'' i])"
| "request_document (RClose i t) = (''closeRequest'', cursor_nodes i t)"
| "request_document (RReset i t) = (''resetRequest'', cursor_nodes i t)"
| "request_document (RChangeEntities i t a xs) = (''changeEntities'', cursor_nodes i t @ mode_node a # each_nodes ''identities'' xs)"
| "request_document (RChangeTypes i t a xs) = (''changeTypes'', cursor_nodes i t @ mode_node a # array_nodes ''types'' xs)"
| "request_document (RChangeStreams i t a xs) = (''changeStreams'', cursor_nodes i t @ mode_node a # array_nodes ''streams'' xs)"
| "request_document (RSelect v opts ss ys ts) =
     (if selQql opts \<noteq> None then ''selectQQL'' else ''select'',
      array_nodes ''streams'' (Some ss) @ array_nodes ''symbols'' ys @ array_nodes ''types'' ts @ selection_nodes opts @
      (if SELECT_SPACE_SUPPORT_VERSION \<le> v \<and> selSpaces opts \<noteq> None then array_nodes ''spaces'' (selSpaces opts) else []))"

text \<open>Enumeration values have a name.\<close>

fun request_ok :: "client_request \<Rightarrow> bool" where
  "request_ok (RCreate k so) = (unat (soScope so) < 4)"
| "request_ok (RSelect v opts ss ys ts) = (unat (typeTransmissionMode opts) < 3)"
| "request_ok _ = True"

definition read_as :: "string \<Rightarrow> xml_node list \<Rightarrow> byte list \<Rightarrow> bool" where
  "read_as n ns bs \<longleftrightarrow> read_document bs = Some [Element (string_bytes n) standard_attributes ns]"

lemma read_as_request: "tag_name n \<Longrightarrow> spells content ns \<Longrightarrow> read_as n ns (getRequest n False content)"
  by (simp add: read_as_def request_with_content)

lemma read_as_header: "tag_name n \<Longrightarrow> read_as n [] (getRequest n True [])"
  by (simp add: read_as_def request_without_content)

lemma read_as_stream:
  assumes "tag_name n" "spells content ns"
  shows "read_as n (stream_nodes s @ ns) (StreamRequest s n content)"
  unfolding StreamRequest_def
  by (rule read_as_request [OF assms(1)], rule spells_eq, (rule assms spelling)+) (simp add: stream_nodes_def)

lemma read_as_cursor:
  assumes "tag_name n" "spells content ns"
  shows "read_as n (cursor_nodes i t @ ns) (CursorRequest n i t content)"
  unfolding CursorRequest_def
  by (rule read_as_request [OF assms(1)], rule spells_eq, (rule assms spelling)+) (simp add: cursor_nodes_def)

lemma read_as_subscription:
  assumes "tag_name n" "spells content ns"
  shows "read_as n (cursor_nodes i t @ mode_node a # ns) (ModifySubscriptionRequest n i t a content)"
  unfolding ModifySubscriptionRequest_def
  by (rule read_as_cursor [OF assms(1)], rule spells_eq, (rule assms spelling)+) (simp add: mode_node_def)

lemma read_as_select:
  assumes "unat (typeTransmissionMode opts) < 3"
  shows "\<exists>bs. select_request v opts ss ys ts = Inr bs \<and> (case request_document (RSelect v opts ss ys ts) of (n, ns) \<Rightarrow> read_as n ns bs)"
proof -
  obtain x where x: "selection_options_xml opts = Inr x" "spells x (selection_nodes opts)" using spells_selection_options [OF assms] by blast
  define n where "n = (if selQql opts \<noteq> None then ''selectQQL'' else ''select'')"
  define content where "content = addItemArray addChars ''streams'' (Some ss) @ addItemArray addChars ''symbols'' ys @ addItemArray addChars ''types'' ts @ x @
      (if SELECT_SPACE_SUPPORT_VERSION \<le> v \<and> selSpaces opts \<noteq> None then addItemArray addChars ''spaces'' (selSpaces opts) else [])"
  define ns where "ns = snd (request_document (RSelect v opts ss ys ts))"
  have nm: "tag_name n" by (simp add: n_def tag_names)
  have sp: "spells content ns" unfolding content_def ns_def
    by (rule spells_eq, (rule x(2) spelling)+) simp
  have m: "markup (closeTag n @ newline)" by (rule markup_tag)
  then have c: "markup (content @ closeTag n @ newline)"
    "read_nodes (content @ closeTag n @ newline) [] st = read_nodes (closeTag n @ newline) (rev ns) st" for st
    using sp by (auto simp: spells_def)
  have nl: "newline = [LF]" by (simp add: newline_def escape_char_def)
  have "read_nodes newline cur [] = Some (rev cur)" for cur
    by (subst read_nodes.simps) (simp add: nl is_space_def)
  then have "read_nodes (closeTag n @ newline) (rev ns) [(string_bytes n, standard_attributes, [])] = Some [Element (string_bytes n) standard_attributes ns]"
    using read_close [OF nm, of newline "rev ns" standard_attributes "[]" "[]"] by simp
  then have "read_as n ns (makeRequestHeader n False @ content @ closeTag n @ newline)"
    using read_header [OF nm c(1)] c(2) by (simp add: read_as_def read_document_def)
  moreover have "select_request v opts ss ys ts = Inr (makeRequestHeader n False @ content @ closeTag n @ newline)"
    by (simp add: select_request_def x(1) n_def content_def Let_def)
  ultimately show ?thesis by (simp add: n_def ns_def)
qed

lemmas request_defs = ListStreamsRequest_def LoadStreamsRequest_def FormatDbRequest_def GetServerTimeRequest_def
  ValidateQqlRequest_def CreateFileStreamRequest_def ClearStreamRequest_def DeleteStreamRequest_def PurgeStreamRequest_def
  TruncateStreamRequest_def RenameStreamRequest_def AbortBGProcessRequest_def SetSchemaRequest_def ChangeSchemaRequest_def
  GetBgProcessRequest_def DeleteSpacesRequest_def RenameSpaceRequest_def DescribeStreamRequest_def ListEntitiesRequest_def
  ListSpacesRequest_def PeriodicityRequest_def SchemaRequest_def TimerangeRequest_def SpaceTimerangeRequest_def
  LockStreamRequest_def UnlockStreamRequest_def CloseRequest_def ResetRequest_def ModifyEntitiesRequest_def
  ModifyTypesRequest_def ModifyStreamsRequest_def

lemma read_as_eq: "read_as n ms bs \<Longrightarrow> ms = ns \<Longrightarrow> read_as n ns bs"
  by simp

lemma read_as_create:
  assumes "unat (soScope so) < 4"
  shows "\<exists>bs. CreateStreamRequest k so = Inr bs \<and>
    read_as ''createStreamRequest'' [text_element ''key'' k, Element (string_bytes ''options'') [] (options_nodes so)] bs"
proof -
  obtain x where x: "stream_options_xml so = Inr x" "spells x (options_nodes so)" using spells_stream_options [OF assms] by blast
  show ?thesis unfolding CreateStreamRequest_def x(1) map_sum.simps id_apply
    by (rule exI, rule conjI, rule refl, rule read_as_eq, (rule read_as_request x(2) spelling)+) simp
qed

lemma request_exists: "(\<exists>bs. Inr b = Inr bs \<and> P bs) = P b"
  by simp

lemmas request_readings = read_as_subscription read_as_cursor read_as_stream read_as_header read_as_request



section \<open>The code's own decoding\<close>

lemma starts_bytes: "starts (string_bytes p) (string_bytes p @ s)"
  by simp

text \<open>Escaped text is decoded by \<^verbatim>\<open>unescape\<close>, up to the first zero, where the C string of the code ends.\<close>

lemma unescape_char: "c \<noteq> 0 \<Longrightarrow> unescape (escape_char c @ s) = c # unescape s"
  by (simp add: escape_char_def string_bytes_def)

lemma unescape_addChars: "unescape (addChars t) = c_text t"
proof (induction t)
  case (Cons c t)
  then show ?case
    by (cases "c = 0") (simp_all add: addChars_Cons unescape_char c_text_Cons, simp add: c_text_def escape_char_def)
qed (simp add: addChars_def c_text_def)

end
