(* ===== verification/OptionsTheorems.thy ===== *)
theory OptionsTheorems
  imports XmlTheorems
begin

text \<open>
  The options of a stream survive the trip to the server and back: what \<^verbatim>\<open>fromXML\<close> makes of the element that the
  request to create the stream has written.
\<close>

section \<open>Texts of values\<close>

lemma of_char_eq: "(of_char c :: byte) = of_char d \<longleftrightarrow> c = d"
proof -
  have "unat (of_char c :: byte) = of_char c" for c :: char
  proof -
    have "(of_nat (of_char c) :: byte) = of_char c" by (rule of_nat_of_char)
    moreover have "(of_char c :: nat) < 2 ^ 8" using nat_of_char_less_256 [of c] by simp
    moreover have "unat (of_nat n :: byte) = n" if "n < 256" for n using that by (simp add: unat_of_nat take_bit_nat_eq_self)
    ultimately show ?thesis by (metis nat_of_char_less_256)
  qed
  then show ?thesis by (metis of_char_eq_iff)
qed

lemma string_bytes_eq: "string_bytes s = string_bytes t \<longleftrightarrow> s = t"
  unfolding string_bytes_def by (rule inj_map_eq_map) (simp add: inj_on_def of_char_eq)

lemma strtoll_int_text:
  assumes "- (2 ^ 63) \<le> i" "i < 2 ^ 63"
  shows "strtoll (int_text i) = (i, length (int_text i))"
proof -
  let ?d = "digits 10 (nat (if i < 0 then - i else i))"
  have all: "digit_value d < 10 \<and> \<not> is_space d \<and> d \<noteq> 43 \<and> d \<noteq> 45" if "d \<in> set ?d" for d
    using digits_are_digits [of 10 d] digit_not_special [of d 10] that by simp
  obtain d ds where d: "?d = d # ds" by (cases ?d) auto
  have h: "\<not> is_space d \<and> d \<noteq> 43 \<and> d \<noteq> 45" using all d by auto
  have t: "takeWhile (\<lambda>b. digit_value b < 10) ?d = ?d" using all by (simp only: takeWhile_eq_all_conv) blast
  have n: "number 10 ?d = nat (if i < 0 then - i else i)" by (rule number_digits) simp_all
  have b: "- 9223372036854775808 \<le> i" "i \<le> 9223372036854775807" using assms by simp_all
  show ?thesis
  proof (cases "i < 0")
    case True
    then have x: "int_text i = 45 # ?d" by (simp add: int_text_def)
    have t': "takeWhile (\<lambda>b. digit_value b < 10) (d # ds) = d # ds" using t d by simp
    have n': "int (number 10 (d # ds)) = - i" using n d True by simp
    have w: "takeWhile is_space (45 # d # ds) = []" by (simp add: is_space_def)
    show ?thesis unfolding strtoll_def x d w using b by (simp add: t' n' Let_def del: takeWhile.simps)
  next
    case False
    then have x: "int_text i = ?d" by (simp add: int_text_def)
    have t': "takeWhile (\<lambda>b. digit_value b < 10) (d # ds) = d # ds" using t d by simp
    have n': "int (number 10 (d # ds)) = i" using n d False by simp
    have w: "takeWhile is_space (d # ds) = []" using h by simp
    show ?thesis unfolding strtoll_def x d w using h b by (simp add: t' n' Let_def del: takeWhile.simps)
  qed
qed

lemma int_text_shape: "int_text i \<noteq> []" "\<not> list_all is_space (int_text i)" "\<not> list_all is_space (bool_text b)"
proof -
  show "int_text i \<noteq> []" by (simp add: int_text_def)
  have "\<not> is_space x" if "x \<in> set (digits 10 n)" for x n
    using digits_are_digits [of 10 x n] digit_not_special [of x 10] that by simp
  then have "\<not> list_all is_space (digits 10 n)" for n
    using hd_in_set [OF digits_ne [of 10 n]] by (auto simp: list_all_iff)
  then show "\<not> list_all is_space (int_text i)" by (simp add: int_text_def is_space_def)
  show "\<not> list_all is_space (bool_text b)" by (simp add: bool_text_def string_bytes_def is_space_def)
qed

lemma sint_range: "- (2 ^ 63) \<le> sint (w :: 32 word)" "sint w < 2 ^ 63"
  using sint_greater_eq [of w] sint_less [of w] by simp_all

lemma parse_int32_text: "parse_int32 (int_text (sint w)) = Some w"
  using int_text_shape(1) [of "sint w"] by (simp add: parse_int32_def strtoll_int_text [OF sint_range] of_int_sint)

lemma strtoull_uint:
  assumes "n < 2 ^ 64"
  shows "strtoull 10 (int_text (int n)) = (of_nat n, length (int_text (int n)))"
  using strtoull_digits [of 10 n "[]" "[]"] assms by (simp add: int_text_def)

lemma parse_uint32_text: "parse_uint32 (int_text (uint w)) = Some w"
proof -
  have u: "uint w = int (unat w)" by simp
  have "unat w < 2 ^ 32" using unsigned_less [of w, where ?'a = nat] by simp
  then have "unat w < 2 ^ 64" by simp
  have c: "ucast (of_nat (unat w) :: 64 word) = w"
    unfolding unsigned_of_nat using \<open>unat w < 2 ^ 64\<close> by (simp add: take_bit_nat_eq_self)
  then show ?thesis unfolding u parse_uint32_def strtoull_uint [OF \<open>unat w < 2 ^ 64\<close>]
    using int_text_shape(1) by simp
qed

lemma parse_uint64_text: "parse_uint64 (int_text (uint w)) = Some w"
proof -
  have u: "uint w = int (unat w)" by simp
  have "unat w < 2 ^ 64" using unsigned_less [of w, where ?'a = nat] by simp
  then show ?thesis unfolding u parse_uint64_def strtoull_uint [OF \<open>unat w < 2 ^ 64\<close>]
    using int_text_shape(1) by simp
qed

lemma parse_bool_text: "parse_bool (bool_text b) = Some b"
  by (cases b) (simp_all add: parse_bool_def bool_text_def equal_ignoring_case_def string_bytes_def to_lower_def)

lemma fromString_scope: "unat s < 4 \<Longrightarrow> fromString infoStreamScope (scope_text s) = s"
  by (drule scope_cases, elim disjE) (simp_all add: fromString_def infoStreamScope_def scope_text_def string_bytes_eq)

section \<open>Looking up fields\<close>

text \<open>The text of the first child of a name, among the children of an element.\<close>

definition text_of :: "string \<Rightarrow> xml_node list \<Rightarrow> byte list option" where
  "text_of name ns = (case dropWhile (\<lambda>n. \<not> has_name (string_bytes name) n) ns of [] \<Rightarrow> None | c # cs \<Rightarrow> GetText (c # cs))"

definition visible :: "byte list \<Rightarrow> byte list option" where
  "visible t = (if list_all is_space t then None else Some t)"

lemma getText_children: "getText (Element x as ns # sibs) name = text_of name ns"
  by (simp add: getText_def text_of_def FirstChildElement_def)

lemma text_of_simps:
  "text_of name [] = None"
  "text_of name (text_element m t # ns) = (if m = name then visible t else text_of name ns)"
  "m \<noteq> name \<Longrightarrow> text_of name (Element (string_bytes m) as cs # ns) = text_of name ns"
  "text_of name (set_nodes m v @ ns) = (if m = name \<and> v \<noteq> None then Option.bind v visible else text_of name ns)"
proof -
  show e: "text_of name (text_element m t # ns) = (if m = name then visible t else text_of name ns)" for t ns
    by (simp add: text_of_def text_element_def string_bytes_eq GetText_def text_nodes_def visible_def)
  show "text_of name (set_nodes m v @ ns) = (if m = name \<and> v \<noteq> None then Option.bind v visible else text_of name ns)"
    by (cases v) (simp_all add: set_nodes_def e)
qed (simp_all add: text_of_def string_bytes_eq)

definition restored :: "stream_options \<Rightarrow> stream_options" where
  "restored so = so\<lparr>soName := Option.bind (soName so) visible, soDescription := Option.bind (soDescription so) visible,
     soOwner := Option.bind (soOwner so) visible, soLocation := Option.bind (soLocation so) visible,
     soMetadata := Option.bind (soMetadata so) visible, soDistributionRuleName := None, soHighAvailability := False,
     soPeriodicity := (case visible (soPeriodicity so) of None \<Rightarrow> string_bytes ''IRREGULAR'' | Some p \<Rightarrow> p)\<rparr>"

lemma visible_values: "visible (int_text i) = Some (int_text i)" "visible (bool_text b) = Some (bool_text b)"
  using int_text_shape by (simp_all add: visible_def)

lemma visible_Nil: "visible [] = None"
  by (simp add: visible_def)

lemma visible_scope: "unat s < 4 \<Longrightarrow> visible (scope_text s) = Some (scope_text s)"
  by (drule scope_cases, elim disjE) (simp_all add: visible_def scope_text_def infoStreamScope_def string_bytes_def is_space_def)

lemma buffer_options_restored:
  "buffer_options_fromXML (Element x as (buffer_nodes b) # sibs) b0 = Some b"
  by (simp add: buffer_options_fromXML_def get_field_def getText_children buffer_nodes_def text_of_simps visible_values
      parse_uint32_text parse_uint64_text parse_bool_text)

lemma buffer_element:
  "FirstChildElement ''bufferOptions'' (Element x as (options_nodes so) # sibs) =
     Element (string_bytes ''bufferOptions'') [] (buffer_nodes (soBufferOptions so)) #
       tl (FirstChildElement ''bufferOptions'' (Element x as (options_nodes so) # sibs))"
  by (simp add: FirstChildElement_def options_nodes_def set_nodes_def text_element_def string_bytes_eq split: option.splits)

text \<open>The fields of the options element, one by one.\<close>

lemma options_texts:
  "text_of ''name'' (options_nodes so) = Option.bind (soName so) visible"
  "text_of ''description'' (options_nodes so) = Option.bind (soDescription so) visible"
  "text_of ''owner'' (options_nodes so) = Option.bind (soOwner so) visible"
  "text_of ''location'' (options_nodes so) = Option.bind (soLocation so) visible"
  "text_of ''metadata'' (options_nodes so) = Option.bind (soMetadata so) visible"
  "text_of ''distributionFactor'' (options_nodes so) = Some (int_text (sint (soDistributionFactor so)))"
  "text_of ''unique'' (options_nodes so) = Some (bool_text (soUnique so))"
  "text_of ''duplicatesAllowed'' (options_nodes so) = Some (bool_text (soDuplicatesAllowed so))"
  "text_of ''scope'' (options_nodes so) = visible (scope_text (soScope so))"
  "text_of ''periodicity'' (options_nodes so) = visible (soPeriodicity so)"
  "text_of ''highAvailability'' (options_nodes so) = None"
  "text_of ''polymorphic'' (options_nodes so) = Some (bool_text (soPolymorphic so))"
  by (auto simp: options_nodes_def text_of_simps visible_values visible_Nil split: option.splits)

lemma options_restored:
  assumes "unat (soScope so) < 4"
  shows "stream_options_fromXML (Element x as (options_nodes so) # sibs) default_stream_options = Some (restored so)"
proof -
  let ?e = "Element x as (options_nodes so) # sibs"
  have b: "get_buffer_options ?e o1 = Some (o1\<lparr>soBufferOptions := soBufferOptions so\<rparr>)" for o1
    using buffer_element [of x as so sibs] buffer_options_restored unfolding get_buffer_options_def Let_def by (metis list.distinct(1) option.simps(9))
  show ?thesis unfolding stream_options_fromXML_def run_fields.simps get_field_def getText_children options_texts b visible_scope [OF assms]
    by (auto simp: parse_int32_text parse_bool_text fromString_scope [OF assms] restored_def default_stream_options_def split: option.splits)
qed

section \<open>Creating and loading a stream\<close>

text \<open>The element of the options in a request, and the response to \<^verbatim>\<open>loadStreams\<close> of a server that sends such elements.\<close>

definition options_element :: "element \<Rightarrow> xml_node" where
  "options_element root = Element (string_bytes ''item'') [] (child_nodes (FirstChildElement ''options'' root))"

definition loaded_document :: "(byte list \<times> element) list \<Rightarrow> xml_node list" where
  "loaded_document ss = [Element (string_bytes ''loadStreamsResponse'') []
     [Element (string_bytes ''streams'') [] (map (\<lambda>s. text_element ''item'' (fst s)) ss),
      Element (string_bytes ''options'') [] (map (\<lambda>s. options_element (snd s)) ss)]]"

lemma elements_from_Nil [simp]: "elements_from [] = []"
  by (simp add: elements_from.simps)

lemma elements_from_Cons:
  assumes "list_all is_element es"
  shows "elements_from (e # es) = (e # es) # elements_from es"
proof -
  have "NextSiblingElement (e # es) = es" using assms by (cases es) (simp_all add: NextSiblingElement_def)
  then show ?thesis by (simp add: elements_from.simps [of "e # es"])
qed

lemma for_items: "list_all (has_name (string_bytes ''item'')) es \<Longrightarrow> for_elements ''item'' (Element x as es # sibs) = elements_from es"
  by (cases es) (simp_all add: for_elements_def FirstChildElement_def)

text \<open>A created stream: its key, its options and the document of the request.\<close>

definition created :: "byte list \<times> stream_options \<Rightarrow> element" where
  "created s = [Element (string_bytes ''createStreamRequest'') standard_attributes
     [text_element ''key'' (fst s), Element (string_bytes ''options'') [] (options_nodes (snd s))]]"

lemma created_options: "options_element (created s) = Element (string_bytes ''item'') [] (options_nodes (snd s))"
  by (simp add: options_element_def created_def FirstChildElement_def text_element_def string_bytes_eq)

lemma load_options_restored:
  "\<forall>s \<in> set ss. unat (soScope (snd s)) < 4 \<Longrightarrow>
   load_options (elements_from (map (\<lambda>s. options_element (created s)) ss)) = Some (map (\<lambda>s. restored (snd s)) ss)"
proof (induction ss)
  case (Cons s ss)
  have "list_all is_element (map (\<lambda>s. options_element (created s)) ss)" by (simp add: list_all_iff created_options)
  then show ?case using Cons options_restored by (simp add: elements_from_Cons created_options)
qed simp

lemma load_keys_restored:
  "\<forall>s \<in> set ss. \<not> list_all is_space (fst s) \<Longrightarrow>
   load_keys (elements_from (map (\<lambda>s. text_element ''item'' (fst s)) ss)) (map f ss) = Some (map (\<lambda>s. (fst s, f s)) ss)"
proof (induction ss)
  case (Cons s ss)
  have "list_all is_element (map (\<lambda>s. text_element ''item'' (fst s)) ss)" by (simp add: list_all_iff text_element_def)
  then show ?case using Cons by (simp add: elements_from_Cons text_element_def GetText_def text_nodes_def)
qed simp



end
