(* ===== verification/StreamCache.thy ===== *)
theory StreamCache
  imports XmlResponses "HOL-Library.AList"
begin

text \<open>
  The streams of a database: the stream objects with their options and their lock (\<^verbatim>\<open>tickdb/tickstream_impl.cpp\<close>),
  the cache that finds them by key (\<^verbatim>\<open>tickdb/tickstream_cache.cpp\<close>), and the operations of the database that
  create and dispose of them (\<^verbatim>\<open>tickdb/http/tickdb_http.cpp\<close>, \<^verbatim>\<open>tickdb_stream_requests.cpp\<close>). Objects live on
  a heap: a pointer is a number, given out in the order of allocation, and using a deleted object is undefined. The
  cache's hash table is an association list in the order of its traversal; the theorems do not depend on the order.
  The methods of the class that takes the lock are those of the class that does not, since the operations
  modelled here are atomic.
\<close>

section \<open>State\<close>

record stream_object =
  streamKey :: "byte list"
  streamOptions :: stream_options
  updateCount :: "64 word"
  streamUpdatedCallback :: bool
  dbLockType :: lock_type
  dbLockCount :: "64 word"
  dbLockToken :: "byte list"

record stream_entry =
  entryStream :: nat
  entryDeleted :: bool

text \<open>The notifications of the client; a null callback gets none.\<close>

datatype db_event = StreamUpdated nat | StreamRemoved nat | DatabaseDisconnected

text \<open>What the server answers to the coming requests is given by the environment; without an answer the
  connection fails.\<close>

record database =
  objects :: "nat \<rightharpoonup> stream_object"
  nextObject :: nat
  cacheData :: "(byte list \<times> stream_entry) list"
  streamDeletedCallback :: bool
  disconnectedCallback :: bool
  dbEvents :: "db_event list"
  dbIsOpen :: bool
  readOnlyMode :: bool
  sessionId :: "byte list"
  dbRequests :: "byte list list"
  dbAnswers :: "(exn + int \<times> byte list) list"

definition deref :: "nat \<Rightarrow> (database, stream_object) op" where
  "deref p = (\<lambda>d. case objects d p of None \<Rightarrow> (Inl (Undefined ''use after free''), d) | Some s \<Rightarrow> (Inr s, d))"

definition change_object :: "nat \<Rightarrow> (stream_object \<Rightarrow> stream_object) \<Rightarrow> (database, unit) op" where
  "change_object p f = bnd (deref p) (\<lambda>s. modify (\<lambda>d. d\<lparr>objects := (objects d)(p \<mapsto> f s)\<rparr>))"

definition dispatch :: "(database \<Rightarrow> bool) \<Rightarrow> db_event \<Rightarrow> (database, unit) op" where
  "dispatch callback e = modify (\<lambda>d. if callback d then d\<lparr>dbEvents := dbEvents d @ [e]\<rparr> else d)"

section \<open>The cache\<close>

definition cache_size :: "database \<Rightarrow> nat" where
  "cache_size d = length (cacheData d)"

definition getEntry :: "byte list \<Rightarrow> database \<Rightarrow> stream_entry option" where
  "getEntry key d = map_of (cacheData d) key"

definition cache_get :: "byte list \<Rightarrow> database \<Rightarrow> nat option" where
  "cache_get key d = map_option entryStream (map_of (cacheData d) key)"

definition allKeys :: "database \<Rightarrow> byte list list" where
  "allKeys d = map fst (cacheData d)"

definition allStreams :: "database \<Rightarrow> nat list" where
  "allStreams d = map (\<lambda>(k, e). entryStream e) (cacheData d)"

definition set_entry :: "byte list \<Rightarrow> stream_entry \<Rightarrow> (database, unit) op" where
  "set_entry key e = modify (\<lambda>d. d\<lparr>cacheData := AList.update key e (cacheData d)\<rparr>)"

definition erase :: "byte list \<Rightarrow> (database, unit) op" where
  "erase key = modify (\<lambda>d. d\<lparr>cacheData := AList.delete key (cacheData d)\<rparr>)"

definition cache_add :: "nat option \<Rightarrow> (database, unit) op" where
  "cache_add stream =
     (case stream of
        None \<Rightarrow> throw (RuntimeError ''.add(): ERR: Attempting to add NULL stream'')
      | Some p \<Rightarrow>
          bnd (deref p) (\<lambda>s.
          bnd (gets (cache_get (streamKey s))) (\<lambda>found.
          if found \<noteq> None then throw (RuntimeError ''.add(): ERR: Stream already present in the list'')
          else set_entry (streamKey s) \<lparr>entryStream = p, entryDeleted = False\<rparr>)))"

definition cache_remove :: "byte list \<Rightarrow> (database, nat) op" where
  "cache_remove key =
     bnd (gets (cache_get key)) (\<lambda>found.
     case found of
       None \<Rightarrow> throw (RuntimeError ''.remove(): ERR: Stream not found'')
     | Some p \<Rightarrow> andthen (erase key) (ret p))"

definition tryRemove :: "byte list \<Rightarrow> (database, nat option) op" where
  "tryRemove key =
     bnd (gets (cache_get key)) (\<lambda>found. andthen (whenM (found \<noteq> None) (erase key)) (ret found))"

definition set_deleted :: "byte list \<Rightarrow> bool \<Rightarrow> (database, unit) op" where
  "set_deleted key b =
     modify (\<lambda>d. d\<lparr>cacheData := map (\<lambda>(k, e). (k, if k = key then e\<lparr>entryDeleted := b\<rparr> else e)) (cacheData d)\<rparr>)"

definition markAllForRemoval :: "bool \<Rightarrow> (database, unit) op" where
  "markAllForRemoval b = modify (\<lambda>d. d\<lparr>cacheData := map (\<lambda>(k, e). (k, e\<lparr>entryDeleted := b\<rparr>)) (cacheData d)\<rparr>)"

definition markForRemoval :: "byte list \<Rightarrow> (database, unit) op" where
  "markForRemoval key = bnd (gets (getEntry key)) (\<lambda>entry. whenM (entry \<noteq> None) (set_deleted key True))"

text \<open>The number of streams that are still marked, or the largest number if a key is not there.\<close>

fun unmarkForRemoval :: "byte list list \<Rightarrow> (database, 64 word) op" where
  "unmarkForRemoval [] = gets (\<lambda>d. of_nat (length (filter (\<lambda>(k, e). entryDeleted e) (cacheData d))))"
| "unmarkForRemoval (s # ss) =
     bnd (gets (getEntry s)) (\<lambda>found.
     if found \<noteq> None then andthen (set_deleted s False) (unmarkForRemoval ss) else ret (- 1))"

definition matchKeys :: "byte list list \<Rightarrow> (database, bool) op" where
  "matchKeys keys = andthen (markAllForRemoval True) (bnd (unmarkForRemoval keys) (\<lambda>n. ret (n = 0)))"

definition removeMarked :: "(database, 32 word) op" where
  "removeMarked =
     bnd (gets (\<lambda>d. map fst (filter (\<lambda>(k, e). entryDeleted e) (cacheData d)))) (\<lambda>keys.
     andthen (mapM (\<lambda>k. bnd (cache_remove k) (\<lambda>_. ret ())) keys) (ret (of_nat (length keys))))"

section \<open>Stream objects\<close>

text \<open>The constructor; \<open>new\<close> succeeds.\<close>

definition allocateStream :: "byte list \<Rightarrow> stream_options \<Rightarrow> (database, nat) op" where
  "allocateStream key options =
     (\<lambda>d. (Inr (nextObject d), d\<lparr>nextObject := Suc (nextObject d),
        objects := (objects d)(nextObject d \<mapsto> \<lparr>streamKey = key, streamOptions = options, updateCount = 1,
          streamUpdatedCallback = False, dbLockType = NO_LOCK, dbLockCount = 0, dbLockToken = []\<rparr>)\<rparr>))"

definition disposeStream :: "nat option \<Rightarrow> (database, unit) op" where
  "disposeStream stream =
     (case stream of
        None \<Rightarrow> ret ()
      | Some p \<Rightarrow> andthen (change_object p (\<lambda>s. s\<lparr>streamKey := streamKey s @ string_bytes ''[DEAD]''\<rparr>))
          (modify (\<lambda>d. d\<lparr>objects := (objects d)(p := None)\<rparr>)))"

definition addStream :: "nat \<Rightarrow> (database, nat) op" where
  "addStream stream = andthen (cache_add (Some stream)) (ret stream)"

definition updateOptions :: "nat \<Rightarrow> stream_options \<Rightarrow> (database, bool) op" where
  "updateOptions p options =
     bnd (deref p) (\<lambda>s.
     if stream_options_equal (streamOptions s) options then ret False
     else andthen (seqs [change_object p (\<lambda>s. s\<lparr>streamOptions := options, updateCount := updateCount s + 1\<rparr>),
                dispatch (\<lambda>_. streamUpdatedCallback s) (StreamUpdated p)])
          (ret True))"

text \<open>The schema alone; the method is not called.\<close>

definition updateLocalSchema :: "nat \<Rightarrow> stream_options \<Rightarrow> (database, bool) op" where
  "updateLocalSchema p options =
     bnd (deref p) (\<lambda>s.
     if soMetadata options = soMetadata (streamOptions s) \<and> soPolymorphic (streamOptions s) = soPolymorphic options then ret False
     else andthen (change_object p (\<lambda>s. s\<lparr>streamOptions := (streamOptions s)\<lparr>soMetadata := soMetadata options,
         soPolymorphic := soPolymorphic options\<rparr>\<rparr>)) (ret True))"

text \<open>The cache is made to hold exactly the given streams.\<close>

fun synchronize_loop :: "(byte list \<times> stream_options) list \<Rightarrow> 32 word \<Rightarrow> (database, 32 word) op" where
  "synchronize_loop [] nChanged = ret nChanged"
| "synchronize_loop ((key, options) # ss) nChanged =
     bnd (gets (cache_get key)) (\<lambda>found.
     case found of
       Some p \<Rightarrow>
         bnd (updateOptions p options) (\<lambda>_. andthen (set_deleted key False) (synchronize_loop ss nChanged))
     | None \<Rightarrow>
         bnd (allocateStream key options) (\<lambda>p.
         andthen (set_entry key \<lparr>entryStream = p, entryDeleted = False\<rparr>) (synchronize_loop ss (nChanged + 1))))"

definition synchronize :: "(byte list \<times> stream_options) list \<Rightarrow> (database, 32 word) op" where
  "synchronize newStreams =
     andthen (markAllForRemoval True)
     (bnd (synchronize_loop newStreams 0) (\<lambda>nChanged. bnd removeMarked (\<lambda>n. ret (nChanged + n))))"

text \<open>The definition of a stream that the server has sent: a stream not yet in the cache is created.\<close>

definition learn_stream :: "byte list \<times> stream_options \<Rightarrow> (database, unit) op" where
  "learn_stream i =
     bnd (gets (cache_get (fst i))) (\<lambda>s.
     case s of
       None \<Rightarrow> bnd (allocateStream (fst i) (snd i)) (\<lambda>p. bnd (addStream p) (\<lambda>_. ret ()))
     | Some p \<Rightarrow> bnd (updateOptions p (snd i)) (\<lambda>_. ret ()))"

section \<open>Requests for a stream\<close>

definition check_open :: "(database, unit) op" where
  "check_open = bnd (gets dbIsOpen) (\<lambda>b. guard b (RuntimeError ''TickDb is not open!''))"

definition check_open_writeaccess :: "(database, unit) op" where
  "check_open_writeaccess =
     andthen check_open (bnd (gets readOnlyMode) (\<lambda>r. guard (\<not> r) (RuntimeError ''TickDb is opened in readonly mode'')))"

definition exchange :: "byte list \<Rightarrow> (database, int \<times> byte list) op" where
  "exchange req =
     (\<lambda>d. if \<not> dbIsOpen d then (executeRequest False False (Inr (0, [])), d)
       else case dbAnswers d of
         [] \<Rightarrow> (Inl (Disconnected ''Input Stream disconnected by server''), d\<lparr>dbRequests := dbRequests d @ [req]\<rparr>)
       | a # as \<Rightarrow> (executeRequest False True a, d\<lparr>dbRequests := dbRequests d @ [req], dbAnswers := as\<rparr>))"

definition execute :: "byte list \<Rightarrow> (database, bool) op" where
  "execute req = (\<lambda>d. case exchange req d of (r, d') \<Rightarrow> (map_sum id fst (executeWithTextResponse False r), d'))"

definition execute_parsed :: "(byte list \<Rightarrow> xml_node list option) \<Rightarrow> byte list \<Rightarrow> (database, element option) op" where
  "execute_parsed xml_parse req = (\<lambda>d. case exchange req d of (r, d') \<Rightarrow> (executeAndParseResponse xml_parse False r, d'))"

definition ref_of :: "stream_object \<Rightarrow> stream_ref" where
  "ref_of s = \<lparr>refLock = dbLockType s, refToken = dbLockToken s, refKey = streamKey s\<rparr>"

text \<open>The requests without a parsed response; the ones that change data need write access.\<close>

definition simple_request :: "(stream_ref \<Rightarrow> byte list) \<Rightarrow> nat \<Rightarrow> (database, bool) op" where
  "simple_request req p = bnd (deref p) (\<lambda>s. execute (req (ref_of s)))"

definition stream_clear :: "nat \<Rightarrow> byte list list option \<Rightarrow> (database, bool) op" where
  "stream_clear p entities = andthen check_open_writeaccess (simple_request (\<lambda>s. ClearStreamRequest s entities) p)"

definition stream_truncate :: "nat \<Rightarrow> 64 word \<Rightarrow> byte list list option \<Rightarrow> (database, bool) op" where
  "stream_truncate p time entities = andthen check_open_writeaccess (simple_request (\<lambda>s. TruncateStreamRequest s time entities) p)"

definition stream_purge :: "nat \<Rightarrow> 64 word \<Rightarrow> (database, bool) op" where
  "stream_purge p time = andthen check_open_writeaccess (simple_request (\<lambda>s. PurgeStreamRequest s time) p)"

definition stream_abortBackgroundProcess :: "nat \<Rightarrow> (database, bool) op" where
  "stream_abortBackgroundProcess p = andthen check_open_writeaccess (simple_request AbortBGProcessRequest p)"

definition stream_renameSpace :: "nat \<Rightarrow> byte list \<Rightarrow> byte list \<Rightarrow> (database, bool) op" where
  "stream_renameSpace p newName oldName = simple_request (\<lambda>s. RenameSpaceRequest s newName oldName) p"

definition stream_deleteSpaces :: "nat \<Rightarrow> byte list list \<Rightarrow> (database, bool) op" where
  "stream_deleteSpaces p spaces = simple_request (\<lambda>s. DeleteSpacesRequest s spaces) p"

definition stream_lockStream :: "(byte list \<Rightarrow> xml_node list option) \<Rightarrow> nat \<Rightarrow> bool \<Rightarrow> 64 word \<Rightarrow> (database, byte list option) op" where
  "stream_lockStream xml_parse p wr timeoutMs =
     andthen check_open (bnd (deref p) (\<lambda>s. bnd (gets sessionId) (\<lambda>sid.
     bnd (execute_parsed xml_parse (LockStreamRequest (ref_of s) sid wr timeoutMs)) (\<lambda>r. ret (lock_response r)))))"

definition stream_unlockStream :: "nat \<Rightarrow> bool \<Rightarrow> byte list \<Rightarrow> (database, bool) op" where
  "stream_unlockStream p wr token = andthen check_open (simple_request (\<lambda>s. UnlockStreamRequest s token wr) p)"

section \<open>Locks\<close>

definition lock :: "(byte list \<Rightarrow> xml_node list option) \<Rightarrow> nat \<Rightarrow> lock_type \<Rightarrow> 64 word \<Rightarrow> (database, lock_type) op" where
  "lock xml_parse p lt timeoutMs =
     bnd (deref p) (\<lambda>s.
     if NO_LOCK = lt then throw (RuntimeError ''.lock(): ERROR: should be called with lockType != NO_LOCK!'')
     else if NO_LOCK \<noteq> dbLockType s then
       (if dbLockType s \<noteq> lt then throw (RuntimeError ''.lock(): Trying to lock with a different type'')
        else andthen (change_object p (\<lambda>s. s\<lparr>dbLockCount := dbLockCount s + 1\<rparr>)) (ret (dbLockType s)))
     else bnd (stream_lockStream xml_parse p (WRITE_LOCK = lt) timeoutMs) (\<lambda>token.
       case token of
         None \<Rightarrow> ret (dbLockType s)
       | Some t \<Rightarrow> andthen (change_object p (\<lambda>s. s\<lparr>dbLockToken := t, dbLockCount := 1, dbLockType := lt\<rparr>)) (ret lt)))"

definition unlock :: "nat \<Rightarrow> (database, lock_type) op" where
  "unlock p =
     bnd (deref p) (\<lambda>s.
     if NO_LOCK = dbLockType s then ret NO_LOCK
     else if dbLockCount s = 0 then throw (Undefined ''assert(0 != count)'')
     else let count = dbLockCount s - 1 in
       if count = 0
       then bnd (stream_unlockStream p (WRITE_LOCK = dbLockType s) (dbLockToken s)) (\<lambda>ok.
         if ok then andthen (change_object p (\<lambda>s. s\<lparr>dbLockType := NO_LOCK, dbLockToken := [], dbLockCount := count\<rparr>)) (ret NO_LOCK)
         else ret (dbLockType s))
       else andthen (change_object p (\<lambda>s. s\<lparr>dbLockCount := count\<rparr>)) (ret (dbLockType s)))"

text \<open>The loop ends with the lock; the fuel is one more than the number of its holders.\<close>

fun unlock_loop :: "nat \<Rightarrow> nat \<Rightarrow> (database, unit) op" where
  "unlock_loop 0 p = throw (Undefined ''fuel'')"
| "unlock_loop (Suc k) p = bnd (unlock p) (\<lambda>t. if NO_LOCK \<noteq> t then unlock_loop k p else ret ())"

definition unlock_fuel :: "nat \<Rightarrow> database \<Rightarrow> nat" where
  "unlock_fuel p d = (case objects d p of None \<Rightarrow> 1 | Some s \<Rightarrow> Suc (unat (dbLockCount s)))"

definition unlockAndDisposeStream :: "stream_entry \<Rightarrow> (database, unit) op" where
  "unlockAndDisposeStream e =
     (let p = entryStream e in
      andthen (\<lambda>d. case unlock_loop (unlock_fuel p d) p d of
          (Inl (Undefined m), d') \<Rightarrow> (Inl (Undefined m), d')
        | (_, d') \<Rightarrow> (Inr (), d'))
      (disposeStream (Some p)))"

definition cache_clear :: "(database, unit) op" where
  "cache_clear =
     bnd (gets cacheData) (\<lambda>es.
     andthen (mapM (\<lambda>(k, e). unlockAndDisposeStream e) es) (modify (\<lambda>d. d\<lparr>cacheData := []\<rparr>)))"

section \<open>Streams that go and come\<close>

definition onStreamDeleted :: "byte list \<Rightarrow> (database, unit) op" where
  "onStreamDeleted key =
     bnd (tryRemove key) (\<lambda>removed.
     bnd (gets streamDeletedCallback) (\<lambda>callback.
     case removed of
       Some p \<Rightarrow> whenM callback (seqs [dispatch streamDeletedCallback (StreamRemoved p), disposeStream removed])
     | None \<Rightarrow> ret ()))"

definition stream_delete :: "nat \<Rightarrow> (database, bool) op" where
  "stream_delete p =
     andthen check_open_writeaccess
     (bnd (simple_request DeleteStreamRequest p) (\<lambda>ok.
     if ok then bnd (deref p) (\<lambda>s. andthen (onStreamDeleted (streamKey s)) (ret True)) else ret False))"

end
