(* ===== verification/CacheTheorems.thy ===== *)
theory CacheTheorems
  imports StreamCache
begin

text \<open>
  What the client knows of the streams of the database. The abstract state is the catalog, a map from the keys to the
  options; the cache and the heap of stream objects implement it. The operations keep the cache well-formed, never
  use a deleted object, and change the catalog as their specifications \<open>learn\<close> and \<open>only\<close> say. The last sections
  show that comparing keys decides whether the cache is up to date, that the clean-up of the cache always ends, and
  that nested locks cost one exchange with the server at each end.
\<close>

section \<open>The invariant\<close>

definition entries_ok :: "database \<Rightarrow> bool" where
  "entries_ok d \<longleftrightarrow> (\<forall>k e. (k, e) \<in> set (cacheData d) \<longrightarrow> (\<exists>s. objects d (entryStream e) = Some s \<and> streamKey s = k))"

definition cache_ok :: "database \<Rightarrow> bool" where
  "cache_ok d \<longleftrightarrow> distinct (map fst (cacheData d)) \<and> entries_ok d \<and> (\<forall>p \<ge> nextObject d. objects d p = None)"

definition locks_ok :: "database \<Rightarrow> bool" where
  "locks_ok d \<longleftrightarrow> (\<forall>p s. objects d p = Some s \<longrightarrow> (dbLockType s = NO_LOCK) = (dbLockCount s = 0))"

definition catalog :: "database \<Rightarrow> byte list \<rightharpoonup> stream_options" where
  "catalog d k = (case cache_get k d of None \<Rightarrow> None | Some p \<Rightarrow> map_option streamOptions (objects d p))"

lemma cache_ok_entry:
  assumes "cache_ok d" and "cache_get k d = Some p"
  obtains s where "objects d p = Some s" "streamKey s = k"
proof -
  from assms(2) obtain e where "map_of (cacheData d) k = Some e" "p = entryStream e"
    by (auto simp: cache_get_def)
  with assms(1) that show thesis by (fastforce simp: cache_ok_def entries_ok_def dest: map_of_SomeD)
qed

lemma cache_ok_below: "cache_ok d \<Longrightarrow> objects d p = Some s \<Longrightarrow> p < nextObject d"
  by (metis cache_ok_def not_le option.distinct(1))

text \<open>Two keys never share an object.\<close>

lemma cache_ok_inj:
  assumes "cache_ok d" and "cache_get k d = Some p" and "cache_get k' d = Some p"
  shows "k = k'"
  using assms by (metis cache_ok_entry option.inject)

lemma catalog_None: "cache_get k d = None \<Longrightarrow> catalog d k = None"
  by (simp add: catalog_def)

lemma catalog_Some: "cache_get k d = Some p \<Longrightarrow> objects d p = Some s \<Longrightarrow> catalog d k = Some (streamOptions s)"
  by (simp add: catalog_def)

lemma dom_catalog: "cache_ok d \<Longrightarrow> dom (catalog d) = fst ` set (cacheData d)"
proof -
  assume d: "cache_ok d"
  have "catalog d k \<noteq> None \<longleftrightarrow> k \<in> fst ` set (cacheData d)" for k
  proof (cases "cache_get k d")
    case None
    then show ?thesis by (simp add: catalog_None) (simp add: cache_get_def map_of_eq_None_iff)
  next
    case (Some p)
    from cache_ok_entry [OF d Some] obtain s where "objects d p = Some s" by auto
    with Some show ?thesis
      by (simp add: catalog_Some) (auto simp: cache_get_def dest: map_of_SomeD intro: rev_image_eqI)
  qed
  then show ?thesis by (auto simp: dom_def)
qed

section \<open>Specifications\<close>

text \<open>A definition of a stream is taken over unless it agrees with the known one in what the comparison looks at.\<close>

definition newer :: "stream_options option \<Rightarrow> stream_options \<Rightarrow> stream_options" where
  "newer known received = (case known of None \<Rightarrow> received | Some so \<Rightarrow> if stream_options_equal so received then so else received)"

definition learn :: "(byte list \<rightharpoonup> stream_options) \<Rightarrow> byte list \<times> stream_options \<Rightarrow> (byte list \<rightharpoonup> stream_options)" where
  "learn c i = c(fst i \<mapsto> newer (c (fst i)) (snd i))"

definition only :: "(byte list \<times> stream_options) list \<Rightarrow> (byte list \<rightharpoonup> stream_options) \<Rightarrow> (byte list \<rightharpoonup> stream_options)" where
  "only new c = foldl learn c new |` (fst ` set new)"

section \<open>One definition\<close>

lemma same_catalog [simp]:
  "cache_ok (d\<lparr>dbEvents := x\<rparr>) = cache_ok d" "catalog (d\<lparr>dbEvents := x\<rparr>) = catalog d"
  "cache_ok (d\<lparr>dbRequests := r\<rparr>) = cache_ok d" "catalog (d\<lparr>dbRequests := r\<rparr>) = catalog d"
  "cache_ok (d\<lparr>dbAnswers := a\<rparr>) = cache_ok d" "catalog (d\<lparr>dbAnswers := a\<rparr>) = catalog d"
  by (simp_all add: cache_ok_def entries_ok_def catalog_def cache_get_def fun_eq_iff cong: option.case_cong)

lemma same_locks [simp]:
  "locks_ok (d\<lparr>dbEvents := x\<rparr>) = locks_ok d" "locks_ok (d\<lparr>dbRequests := r\<rparr>) = locks_ok d"
  "locks_ok (d\<lparr>dbAnswers := a\<rparr>) = locks_ok d" "locks_ok (d\<lparr>cacheData := c\<rparr>) = locks_ok d"
  by (simp_all add: locks_ok_def)

lemma change_object_run:
  "objects d p = Some s \<Longrightarrow> change_object p f d = (Inr (), d\<lparr>objects := (objects d)(p \<mapsto> f s)\<rparr>)"
  by (simp add: change_object_def bnd_def deref_def)

lemma object_changed:
  assumes d: "cache_ok d" and s: "objects d p = Some s" and k: "streamKey s' = streamKey s"
  shows "cache_ok (d\<lparr>objects := (objects d)(p \<mapsto> s')\<rparr>)"
  using assms cache_ok_below [OF d s] by (fastforce simp: cache_ok_def entries_ok_def)

lemma object_changed_catalog:
  assumes d: "cache_ok d" and p: "cache_get k d = Some p"
  shows "catalog (d\<lparr>objects := (objects d)(p \<mapsto> s')\<rparr>) = (catalog d)(k \<mapsto> streamOptions s')"
proof
  fix k'
  show "catalog (d\<lparr>objects := (objects d)(p \<mapsto> s')\<rparr>) k' = ((catalog d)(k \<mapsto> streamOptions s')) k'"
  proof (cases "cache_get k' d = Some p")
    case True
    then have "k' = k" using cache_ok_inj [OF d p] by auto
    with p show ?thesis by (auto simp: catalog_def cache_get_def)
  next
    case False
    with p show ?thesis by (auto simp: catalog_def cache_get_def split: option.splits)
  qed
qed

lemma updateOptions_run:
  assumes "objects d p = Some s"
  shows "updateOptions p options d =
    (if stream_options_equal (streamOptions s) options then (Inr False, d)
     else (Inr True, d\<lparr>objects := (objects d)(p \<mapsto> s\<lparr>streamOptions := options, updateCount := updateCount s + 1\<rparr>),
        dbEvents := (if streamUpdatedCallback s then dbEvents d @ [StreamUpdated p] else dbEvents d)\<rparr>))"
  using assms
  by (simp add: updateOptions_def bnd_def deref_def andthen_def change_object_run dispatch_def)

lemma updateOptions_refines:
  assumes d: "cache_ok d" and p: "cache_get k d = Some p"
  shows "\<exists>b d'. updateOptions p options d = (Inr b, d') \<and> cache_ok d' \<and> catalog d' = learn (catalog d) (k, options) \<and>
    cacheData d' = cacheData d \<and> nextObject d' = nextObject d \<and> (locks_ok d \<longrightarrow> locks_ok d') \<and> dom (objects d') = dom (objects d)"
proof -
  obtain s where s: "objects d p = Some s" "streamKey s = k"
    using cache_ok_entry [OF d p] by auto
  define s' where "s' = s\<lparr>streamOptions := options, updateCount := updateCount s + 1\<rparr>"
  have c: "cache_ok (d\<lparr>objects := (objects d)(p \<mapsto> s')\<rparr>)"
    by (rule object_changed [OF d s(1)]) (simp add: s'_def)
  have k: "catalog (d\<lparr>objects := (objects d)(p \<mapsto> s')\<rparr>) = (catalog d)(k \<mapsto> options)"
    using object_changed_catalog [OF d p, of s'] by (simp add: s'_def)
  have l: "locks_ok d \<Longrightarrow> locks_ok (d\<lparr>objects := (objects d)(p \<mapsto> s')\<rparr>)"
    using s by (auto simp: locks_ok_def s'_def)
  have same: "(catalog d)(k \<mapsto> streamOptions s) = catalog d"
    using catalog_Some [OF p s(1)] by (simp add: map_upd_triv)
  show ?thesis
    using d c k l same s by (auto simp: updateOptions_run [OF s(1)] learn_def newer_def catalog_Some [OF p s(1)] s'_def [symmetric])
qed

lemma update_new: "k \<notin> fst ` set xs \<Longrightarrow> AList.update k e xs = xs @ [(k, e)]"
  by (induction xs) auto

lemma stream_added:
  assumes d: "cache_ok d" and new: "cache_get k d = None" and s: "streamKey s = k"
  defines "d' \<equiv> d\<lparr>nextObject := Suc (nextObject d), objects := (objects d)(nextObject d \<mapsto> s),
    cacheData := AList.update k \<lparr>entryStream = nextObject d, entryDeleted = False\<rparr> (cacheData d)\<rparr>"
  shows "cache_ok d'" and "catalog d' = (catalog d)(k \<mapsto> streamOptions s)" and "map fst (cacheData d') = map fst (cacheData d) @ [k]"
proof -
  have k: "k \<notin> fst ` set (cacheData d)" using new by (simp add: cache_get_def map_of_eq_None_iff)
  note upd = update_new [OF k]
  have ent: "\<exists>s. objects d (entryStream e) = Some s \<and> streamKey s = k' \<and> entryStream e \<noteq> nextObject d"
    if "(k', e) \<in> set (cacheData d)" for k' e
  proof -
    from d that obtain s where "objects d (entryStream e) = Some s" "streamKey s = k'"
      by (auto simp: cache_ok_def entries_ok_def)
    with cache_ok_below [OF d] show ?thesis by fastforce
  qed
  show keys: "map fst (cacheData d') = map fst (cacheData d) @ [k]" by (simp add: d'_def upd)
  have "\<exists>s. objects d' (entryStream e) = Some s \<and> streamKey s = k'" if "(k', e) \<in> set (cacheData d')" for k' e
    using that s ent [of k' e] by (auto simp: d'_def upd)
  then have "entries_ok d'" by (simp add: entries_ok_def)
  moreover have "\<forall>p \<ge> nextObject d'. objects d' p = None" using d by (auto simp: cache_ok_def d'_def)
  ultimately show "cache_ok d'" using d k by (simp add: cache_ok_def keys)
  show "catalog d' = (catalog d)(k \<mapsto> streamOptions s)"
  proof
    fix k'
    have m: "map_of (cacheData d) k = None" using k by (simp add: map_of_eq_None_iff)
    show "catalog d' k' = ((catalog d)(k \<mapsto> streamOptions s)) k'"
    proof (cases "map_of (cacheData d) k'")
      case None
      then show ?thesis by (simp add: catalog_def cache_get_def d'_def upd map_add_def m)
    next
      case (Some e)
      moreover from Some m have "k' \<noteq> k" by auto
      ultimately show ?thesis using ent [OF map_of_SomeD [OF Some]]
        by (auto simp: catalog_def cache_get_def d'_def upd map_add_def)
    qed
  qed
qed

lemma learn_stream_refines:
  assumes d: "cache_ok d"
  shows "\<exists>d'. learn_stream i d = (Inr (), d') \<and> cache_ok d' \<and> catalog d' = learn (catalog d) i \<and> (locks_ok d \<longrightarrow> locks_ok d')"
proof (cases "cache_get (fst i) d")
  case (Some p)
  from updateOptions_refines [OF d Some, of "snd i"] obtain b d' where
    "updateOptions p (snd i) d = (Inr b, d')" "cache_ok d'" "catalog d' = learn (catalog d) i" "locks_ok d \<longrightarrow> locks_ok d'"
    by auto
  with Some show ?thesis by (simp add: learn_stream_def bnd_def)
next
  case None
  define s where "s = \<lparr>streamKey = fst i, streamOptions = snd i, updateCount = 1, streamUpdatedCallback = False,
    dbLockType = NO_LOCK, dbLockCount = 0, dbLockToken = []\<rparr>"
  define d1 where "d1 = d\<lparr>nextObject := Suc (nextObject d), objects := (objects d)(nextObject d \<mapsto> s)\<rparr>"
  let ?d' = "d\<lparr>nextObject := Suc (nextObject d), objects := (objects d)(nextObject d \<mapsto> s),
    cacheData := AList.update (fst i) \<lparr>entryStream = nextObject d, entryDeleted = False\<rparr> (cacheData d)\<rparr>"
  have new: "streamKey s = fst i" by (simp add: s_def)
  have a: "allocateStream (fst i) (snd i) d = (Inr (nextObject d), d1)"
    by (simp add: allocateStream_def d1_def s_def)
  have "addStream (nextObject d) d1 = (Inr (nextObject d), ?d')"
    using None by (simp add: addStream_def cache_add_def andthen_def bnd_def deref_def d1_def cache_get_def set_entry_def new)
  then have run: "learn_stream i d = (Inr (), ?d')"
    using None a by (simp add: learn_stream_def bnd_def)
  have "catalog ?d' = learn (catalog d) i"
    using stream_added(2) [OF d None new] by (simp add: learn_def newer_def catalog_None [OF None] s_def)
  moreover have "locks_ok d \<longrightarrow> locks_ok ?d'" by (auto simp: locks_ok_def s_def)
  ultimately show ?thesis using run stream_added(1) [OF d None new] by blast
qed

section \<open>Deleted streams\<close>

lemma set_delete: "(k', e) \<in> set (AList.delete k xs) \<longleftrightarrow> k' \<noteq> k \<and> (k', e) \<in> set xs"
  by (auto simp: AList.delete_eq)

lemma cache_get_removed:
  "cache_get k' (d\<lparr>cacheData := AList.delete k (cacheData d)\<rparr>) = (if k' = k then None else cache_get k' d)"
  by (simp add: cache_get_def delete_conv')

lemma removed_ok: "cache_ok d \<Longrightarrow> cache_ok (d\<lparr>cacheData := AList.delete k (cacheData d)\<rparr>)"
  by (auto simp: cache_ok_def entries_ok_def set_delete delete_keys distinct_removeAll)

lemma removed_catalog: "catalog (d\<lparr>cacheData := AList.delete k (cacheData d)\<rparr>) = (catalog d)(k := None)"
proof
  fix k'
  show "catalog (d\<lparr>cacheData := AList.delete k (cacheData d)\<rparr>) k' = ((catalog d)(k := None)) k'"
    unfolding catalog_def cache_get_removed by (simp split: option.split)
qed

text \<open>An object that no entry points to can be disposed of.\<close>

lemma disposed_ok:
  assumes d: "cache_ok d" and free: "\<forall>k e. (k, e) \<in> set (cacheData d) \<longrightarrow> entryStream e \<noteq> p"
  shows "cache_ok (d\<lparr>objects := (objects d)(p := None)\<rparr>)" and "catalog (d\<lparr>objects := (objects d)(p := None)\<rparr>) = catalog d"
proof -
  show "cache_ok (d\<lparr>objects := (objects d)(p := None)\<rparr>)"
    using d free by (fastforce simp: cache_ok_def entries_ok_def)
  show "catalog (d\<lparr>objects := (objects d)(p := None)\<rparr>) = catalog d"
  proof
    fix k
    show "catalog (d\<lparr>objects := (objects d)(p := None)\<rparr>) k = catalog d k"
      using free by (auto simp: catalog_def cache_get_def split: option.splits dest!: map_of_SomeD)
  qed
qed

lemma disposeStream_run:
  "objects d p = Some s \<Longrightarrow> disposeStream (Some p) d = (Inr (), d\<lparr>objects := (objects d)(p := None)\<rparr>)"
  by (simp add: disposeStream_def andthen_def bnd_def change_object_run)

lemma tryRemove_run:
  "tryRemove key d = (Inr (cache_get key d),
     if cache_get key d = None then d else d\<lparr>cacheData := AList.delete key (cacheData d)\<rparr>)"
  by (simp add: tryRemove_def andthen_def bnd_def erase_def)

lemma onStreamDeleted_refines:
  assumes d: "cache_ok d"
  shows "\<exists>d'. onStreamDeleted key d = (Inr (), d') \<and> cache_ok d' \<and> catalog d' = (catalog d)(key := None) \<and>
    (locks_ok d \<longrightarrow> locks_ok d') \<and>
    dbEvents d' = dbEvents d @ (case cache_get key d of None \<Rightarrow> [] | Some p \<Rightarrow> if streamDeletedCallback d then [StreamRemoved p] else [])"
proof (cases "cache_get key d")
  case None
  then show ?thesis using d
    by (simp add: onStreamDeleted_def bnd_def tryRemove_run fun_upd_idem catalog_None)
next
  case (Some p)
  obtain s where s: "objects d p = Some s" using cache_ok_entry [OF d Some] by auto
  define d1 where "d1 = d\<lparr>cacheData := AList.delete key (cacheData d)\<rparr>"
  have 1: "cache_ok d1" "catalog d1 = (catalog d)(key := None)" "locks_ok d \<longrightarrow> locks_ok d1"
    using removed_ok [OF d] removed_catalog by (auto simp: d1_def)
  show ?thesis
  proof (cases "streamDeletedCallback d")
    case False
    with Some 1 show ?thesis
      by (simp add: onStreamDeleted_def bnd_def tryRemove_run) (simp add: d1_def)
  next
    case True
    define d2 where "d2 = d1\<lparr>dbEvents := dbEvents d @ [StreamRemoved p]\<rparr>"
    have free: "\<forall>k e. (k, e) \<in> set (cacheData d2) \<longrightarrow> entryStream e \<noteq> p"
    proof (intro allI impI notI)
      fix k e
      assume "(k, e) \<in> set (cacheData d2)" and p: "entryStream e = p"
      then have k: "k \<noteq> key" "(k, e) \<in> set (cacheData d)" by (auto simp: d2_def d1_def set_delete)
      with d have "cache_get k d = Some p" by (simp add: cache_get_def cache_ok_def p)
      with cache_ok_inj [OF d _ Some] k(1) show False by auto
    qed
    have 2: "cache_ok d2" "catalog d2 = (catalog d)(key := None)" using 1 by (auto simp: d2_def)
    have run: "onStreamDeleted key d = (Inr (), d2\<lparr>objects := (objects d)(p := None)\<rparr>)"
    proof -
      have "disposeStream (Some p) d2 = (Inr (), d2\<lparr>objects := (objects d2)(p := None)\<rparr>)"
        by (rule disposeStream_run) (simp add: d2_def d1_def s)
      with True Some show ?thesis
        by (simp add: onStreamDeleted_def bnd_def tryRemove_run andthen_def dispatch_def d2_def d1_def)
    qed
    have "objects d2 = objects d" by (simp add: d2_def d1_def)
    then show ?thesis
      using run disposed_ok [OF 2(1) free] 2 True Some by (auto simp: d2_def d1_def locks_ok_def)
  qed
qed

section \<open>The catalog as an interface\<close>

text \<open>What the session relies on: definitions can be added and streams dropped, neither fails, and the catalog changes
  as the specification says.\<close>

locale stream_catalog =
  fixes add :: "byte list \<times> stream_options \<Rightarrow> ('d, unit) op"
    and drop_key :: "byte list \<Rightarrow> ('d, unit) op"
    and ok :: "'d \<Rightarrow> bool"
    and streams :: "'d \<Rightarrow> byte list \<rightharpoonup> stream_options"
  assumes add_ok: "ok d \<Longrightarrow> \<exists>d'. add i d = (Inr (), d') \<and> ok d' \<and> streams d' = learn (streams d) i"
    and drop_ok: "ok d \<Longrightarrow> \<exists>d'. drop_key k d = (Inr (), d') \<and> ok d' \<and> streams d' = (streams d)(k := None)"
begin

lemma add_all: "ok d \<Longrightarrow> \<exists>d'. mapM add is d = (Inr (), d') \<and> ok d' \<and> streams d' = foldl learn (streams d) is"
proof (induction "is" arbitrary: d)
  case (Cons i "is")
  from add_ok [OF Cons.prems, of i] obtain d1 where 1: "add i d = (Inr (), d1)" "ok d1" "streams d1 = learn (streams d) i" by blast
  from Cons.IH [OF 1(2)] 1 show ?case by (auto simp: andthen_ok)
qed simp

lemma drop_all:
  "ok d \<Longrightarrow> \<exists>d'. mapM drop_key ks d = (Inr (), d') \<and> ok d' \<and> streams d' = streams d |` (- set ks)"
proof (induction ks arbitrary: d)
  case Nil
  then show ?case by (auto simp: restrict_map_def)
next
  case (Cons k ks)
  from drop_ok [OF Cons.prems, of k] obtain d1 where
    1: "drop_key k d = (Inr (), d1)" "ok d1" "streams d1 = (streams d)(k := None)" by blast
  from Cons.IH [OF 1(2)] obtain d2 where
    2: "mapM drop_key ks d1 = (Inr (), d2)" "ok d2" "streams d2 = streams d1 |` (- set ks)" by blast
  have "streams d2 = streams d |` (- set (k # ks))" unfolding 2(3) 1(3) by (auto simp: restrict_map_def)
  with 1(1) 2 show ?case by (auto simp: andthen_ok)
qed

end

interpretation cache: stream_catalog learn_stream onStreamDeleted cache_ok catalog
proof
  show "\<exists>d'. learn_stream i d = (Inr (), d') \<and> cache_ok d' \<and> catalog d' = learn (catalog d) i" if "cache_ok d" for d i
    using learn_stream_refines [OF that, of i] by blast
  show "\<exists>d'. onStreamDeleted k d = (Inr (), d') \<and> cache_ok d' \<and> catalog d' = (catalog d)(k := None)" if "cache_ok d" for d k
    using onStreamDeleted_refines [OF that, of k] by blast
qed

section \<open>Marks\<close>

definition marked :: "database \<Rightarrow> byte list set" where
  "marked d = {k. \<exists>e. (k, e) \<in> set (cacheData d) \<and> entryDeleted e}"

definition remark :: "(byte list \<Rightarrow> bool \<Rightarrow> bool) \<Rightarrow> database \<Rightarrow> database" where
  "remark f d = d\<lparr>cacheData := map (\<lambda>(k, e). (k, e\<lparr>entryDeleted := f k (entryDeleted e)\<rparr>)) (cacheData d)\<rparr>"

lemma remark_cache_get [simp]: "cache_get k (remark f d) = cache_get k d"
proof -
  have "map_option entryStream (map_of (map (\<lambda>(k, e). (k, e\<lparr>entryDeleted := f k (entryDeleted e)\<rparr>)) xs) k) =
      map_option entryStream (map_of xs k)" for xs
    by (induction xs) auto
  from this [of "cacheData d"] show ?thesis by (simp add: cache_get_def remark_def)
qed

lemma remark_keys [simp]: "map fst (cacheData (remark f d)) = map fst (cacheData d)"
  by (simp add: remark_def comp_def split_def)

lemma remark_objects [simp]: "objects (remark f d) = objects d" "nextObject (remark f d) = nextObject d"
  by (simp_all add: remark_def)

lemma remark_ok: "cache_ok (remark f d) = cache_ok d"
proof -
  have "entries_ok (remark f d) = entries_ok d" by (force simp: entries_ok_def remark_def)
  then show ?thesis by (simp add: cache_ok_def)
qed

lemma remark_catalog [simp]: "catalog (remark f d) = catalog d"
  by (rule ext) (simp add: catalog_def split: option.split)

lemma remark_locks [simp]: "locks_ok (remark f d) = locks_ok d"
  by (simp add: locks_ok_def)

lemma marked_remark: "marked (remark f d) = {k. \<exists>e. (k, e) \<in> set (cacheData d) \<and> f k (entryDeleted e)}"
  by (force simp: marked_def remark_def)

lemma set_deleted_run: "set_deleted key b d = (Inr (), remark (\<lambda>k x. if k = key then b else x) d)"
  by (auto simp: set_deleted_def remark_def intro!: arg_cong [where f = "\<lambda>c. d\<lparr>cacheData := c\<rparr>"])

lemma markAll_run: "markAllForRemoval b d = (Inr (), remark (\<lambda>k x. b) d)"
  by (simp add: markAllForRemoval_def remark_def)

lemma marked_all: "marked (remark (\<lambda>k x. True) d) = fst ` set (cacheData d)"
  by (force simp: marked_remark)

lemma marked_unmark: "marked (remark (\<lambda>k x. if k = key then False else x) d) = marked d - {key}"
  unfolding marked_remark by (auto simp: marked_def)

section \<open>Comparing the keys\<close>

lemma keys_of_get: "cache_get k d \<noteq> None \<longleftrightarrow> k \<in> fst ` set (cacheData d)"
  by (simp add: cache_get_def map_of_eq_None_iff)

lemma getEntry_get: "(\<exists>e. getEntry k d = Some e) \<longleftrightarrow> cache_get k d \<noteq> None"
  by (auto simp: getEntry_def cache_get_def)

lemma count_marked:
  assumes "distinct (map fst (cacheData d))"
  shows "length (filter (\<lambda>(k, e). entryDeleted e) (cacheData d)) = card (marked d)"
proof -
  have "marked d = set (map fst (filter (\<lambda>(k, e). entryDeleted e) (cacheData d)))"
    by (force simp: marked_def)
  moreover have "distinct (map fst (filter (\<lambda>(k, e). entryDeleted e) (cacheData d)))"
    using assms by (rule distinct_map_filter)
  ultimately show ?thesis by (metis distinct_card length_map)
qed

lemma unmark_run:
  assumes "distinct (map fst (cacheData d))"
  shows "\<exists>d'. unmarkForRemoval ks d =
      (Inr (if set ks \<subseteq> fst ` set (cacheData d) then of_nat (card (marked d - set ks)) else - 1), d') \<and>
    (cache_ok d \<longrightarrow> cache_ok d') \<and> catalog d' = catalog d"
  using assms
proof (induction ks arbitrary: d)
  case Nil
  then show ?case by (simp add: count_marked)
next
  case (Cons k ks)
  show ?case
  proof (cases "cache_get k d")
    case None
    then have "k \<notin> fst ` set (cacheData d)" using keys_of_get [of k d] by simp
    with None show ?thesis by (simp add: bnd_def getEntry_get)
  next
    case (Some p)
    let ?d = "remark (\<lambda>k' x. if k' = k then False else x) d"
    have "k \<in> fst ` set (cacheData d)" using Some keys_of_get [of k d] by simp
    moreover have "fst ` set (cacheData ?d) = fst ` set (cacheData d)"
      using remark_keys [of "\<lambda>k' x. if k' = k then False else x" d] by (metis set_map)
    moreover have "distinct (map fst (cacheData ?d))" using Cons.prems by simp
    ultimately obtain d' where
      "unmarkForRemoval ks ?d = (Inr (if set ks \<subseteq> fst ` set (cacheData d) then of_nat (card (marked d - {k} - set ks)) else - 1), d')"
      "cache_ok d \<longrightarrow> cache_ok d'" "catalog d' = catalog d"
      using Cons.IH [of ?d] by (auto simp only: marked_unmark remark_ok remark_catalog)
    moreover have "marked d - {k} - set ks = marked d - set (k # ks)" by auto
    moreover have "unmarkForRemoval (k # ks) d = unmarkForRemoval ks ?d"
      using Some by (simp add: bnd_def andthen_def getEntry_get set_deleted_run)
    ultimately show ?thesis
      using \<open>k \<in> fst ` set (cacheData d)\<close> by simp
  qed
qed

lemma matchKeys_decides:
  assumes d: "cache_ok d" and small: "length (cacheData d) < 2 ^ 64"
  shows "\<exists>d'. matchKeys keys d = (Inr (set keys = dom (catalog d)), d') \<and> cache_ok d' \<and> catalog d' = catalog d"
proof -
  let ?d = "remark (\<lambda>k x. True) d" and ?K = "fst ` set (cacheData d)"
  have ok: "cache_ok ?d" using d by (simp add: remark_ok)
  then have dist: "distinct (map fst (cacheData ?d))" by (simp add: cache_ok_def)
  have K: "fst ` set (cacheData ?d) = ?K" using remark_keys [of "\<lambda>k x. True" d] by (metis set_map)
  obtain d' where u: "unmarkForRemoval keys ?d = (Inr (if set keys \<subseteq> ?K then of_nat (card (?K - set keys)) else - 1), d')"
    and d': "cache_ok d'" "catalog d' = catalog d"
    using unmark_run [OF dist, of keys] ok by (auto simp: K marked_all)
  have "((if set keys \<subseteq> ?K then of_nat (card (?K - set keys)) else - 1) = (0 :: 64 word)) \<longleftrightarrow> set keys = ?K"
  proof (cases "set keys \<subseteq> ?K")
    case True
    have "card (?K - set keys) \<le> length (cacheData d)"
      by (metis Diff_subset List.finite_set card_image_le card_length card_mono finite_imageI le_trans)
    then have lt: "card (?K - set keys) < 2 ^ LENGTH(64)" using small by simp
    have "of_nat (card (?K - set keys)) = (0 :: 64 word) \<longleftrightarrow> card (?K - set keys) = 0"
      unfolding word_of_nat_eq_0_iff using lt by (metis dvd_0_right dvd_imp_le gr_zeroI not_le)
    with True show ?thesis by auto
  qed auto
  with u d' show ?thesis
    by (simp add: matchKeys_def andthen_def bnd_def markAll_run dom_catalog [OF d])
qed

section \<open>Making the cache hold exactly the given streams\<close>

lemma map_fst_update: "k \<in> fst ` set xs \<Longrightarrow> map fst (AList.update k e xs) = map fst xs"
  by (induction xs) auto

lemma synchronize_step:
  assumes d: "cache_ok d"
  shows "\<exists>d'. synchronize_loop ((k, o1) # ss) n d = synchronize_loop ss (if k \<in> dom (catalog d) then n else n + 1) d' \<and>
    cache_ok d' \<and> catalog d' = learn (catalog d) (k, o1) \<and> marked d' = marked d - {k} \<and> (locks_ok d \<longrightarrow> locks_ok d')"
proof (cases "cache_get k d")
  case (Some p)
  from updateOptions_refines [OF d Some, of o1] obtain b d1 where 1: "updateOptions p o1 d = (Inr b, d1)"
    "cache_ok d1" "catalog d1 = learn (catalog d) (k, o1)" "cacheData d1 = cacheData d" "locks_ok d \<longrightarrow> locks_ok d1"
    by auto
  have "k \<in> dom (catalog d)" using Some keys_of_get [of k d] by (simp add: dom_catalog [OF d])
  moreover have "marked d1 = marked d" by (simp add: marked_def 1)
  ultimately show ?thesis
    using 1 Some
    by (intro exI [of _ "remark (\<lambda>k' x. if k' = k then False else x) d1"])
      (simp add: bnd_def andthen_def set_deleted_run remark_ok marked_unmark)
next
  case None
  define s where "s = \<lparr>streamKey = k, streamOptions = o1, updateCount = 1, streamUpdatedCallback = False,
    dbLockType = NO_LOCK, dbLockCount = 0, dbLockToken = []\<rparr>"
  let ?d' = "d\<lparr>nextObject := Suc (nextObject d), objects := (objects d)(nextObject d \<mapsto> s),
    cacheData := AList.update k \<lparr>entryStream = nextObject d, entryDeleted = False\<rparr> (cacheData d)\<rparr>"
  have new: "streamKey s = k" by (simp add: s_def)
  have k: "k \<notin> fst ` set (cacheData d)" using None keys_of_get [of k d] by simp
  have "synchronize_loop ((k, o1) # ss) n d = synchronize_loop ss (n + 1) ?d'"
    using None by (simp add: bnd_def andthen_def allocateStream_def set_entry_def s_def)
  moreover have "catalog ?d' = learn (catalog d) (k, o1)"
    using stream_added(2) [OF d None new] by (simp add: learn_def newer_def catalog_None [OF None] s_def)
  moreover have "marked ?d' = marked d - {k}"
    using k by (force simp: marked_def update_new)
  moreover have "locks_ok d \<longrightarrow> locks_ok ?d'" by (auto simp: locks_ok_def s_def)
  moreover have "k \<notin> dom (catalog d)" using k by (simp add: dom_catalog [OF d])
  ultimately show ?thesis using stream_added(1) [OF d None new] by auto
qed

lemma dom_learn: "dom (learn c i) = insert (fst i) (dom c)"
  by (simp add: learn_def)

lemma dom_learn_all: "dom (foldl learn c is) = dom c \<union> fst ` set is"
  by (induction "is" arbitrary: c) (auto simp: dom_learn)

lemma synchronize_loop_refines:
  assumes "cache_ok d"
  shows "\<exists>d'. synchronize_loop ss n d = (Inr (n + of_nat (card (fst ` set ss - dom (catalog d)))), d') \<and> cache_ok d' \<and>
    catalog d' = foldl learn (catalog d) ss \<and> marked d' = marked d - fst ` set ss \<and> (locks_ok d \<longrightarrow> locks_ok d')"
  using assms
proof (induction ss arbitrary: n d)
  case (Cons i ss)
  obtain k o1 where i: "i = (k, o1)" by force
  from synchronize_step [OF Cons.prems, of k o1 ss n] obtain d1 where
    1: "synchronize_loop (i # ss) n d = synchronize_loop ss (if k \<in> dom (catalog d) then n else n + 1) d1"
    "cache_ok d1" "catalog d1 = learn (catalog d) i" "marked d1 = marked d - {k}" "locks_ok d \<longrightarrow> locks_ok d1"
    by (auto simp: i)
  have "fst ` set (i # ss) - dom (catalog d) =
      (if k \<in> dom (catalog d) then {} else {k}) \<union> (fst ` set ss - dom (catalog d1))"
    by (auto simp: 1 dom_learn i)
  moreover have "k \<notin> fst ` set ss - dom (catalog d1)" by (simp add: 1 dom_learn i)
  ultimately have c: "card (fst ` set (i # ss) - dom (catalog d)) =
      (if k \<in> dom (catalog d) then 0 else 1) + card (fst ` set ss - dom (catalog d1))"
    by (simp only: split: if_splits) (auto simp: card_insert_if)
  have m: "marked d - {k} - fst ` set ss = marked d - fst ` set (i # ss)" by (auto simp: i)
  have n: "(if k \<in> dom (catalog d) then n else n + 1) + of_nat (card (fst ` set ss - dom (catalog d1))) =
      n + of_nat (card (fst ` set (i # ss) - dom (catalog d)))"
    unfolding c by simp
  obtain d' where "synchronize_loop ss (if k \<in> dom (catalog d) then n else n + 1) d1 =
      (Inr (n + of_nat (card (fst ` set (i # ss) - dom (catalog d)))), d')"
    and d': "cache_ok d'" "catalog d' = foldl learn (catalog d1) ss" "marked d' = marked d1 - fst ` set ss" "locks_ok d1 \<longrightarrow> locks_ok d'"
    using Cons.IH [OF 1(2)] unfolding n [symmetric] by blast
  with 1(1) have "synchronize_loop (i # ss) n d = (Inr (n + of_nat (card (fst ` set (i # ss) - dom (catalog d)))), d')"
    by simp
  moreover have "catalog d' = foldl learn (catalog d) (i # ss)" using d'(2) 1(3) by simp
  moreover have "marked d' = marked d - fst ` set (i # ss)" using d'(3) 1(4) m by simp
  ultimately show ?case using d'(1,4) 1(5) by blast
qed simp

lemma removes_run:
  assumes "cache_ok d" and "distinct ks" and "set ks \<subseteq> fst ` set (cacheData d)"
  shows "\<exists>d'. mapM (\<lambda>k. bnd (cache_remove k) (\<lambda>_. ret ())) ks d = (Inr (), d') \<and> cache_ok d' \<and>
    catalog d' = catalog d |` (- set ks) \<and> (locks_ok d \<longrightarrow> locks_ok d')"
  using assms
proof (induction ks arbitrary: d)
  case Nil
  then show ?case by (auto simp: restrict_map_def)
next
  case (Cons k ks)
  let ?d = "d\<lparr>cacheData := AList.delete k (cacheData d)\<rparr>"
  from Cons.prems obtain p where p: "cache_get k d = Some p" using keys_of_get [of k d] by auto
  have ok: "cache_ok ?d" using removed_ok [OF Cons.prems(1)] .
  have sub: "set ks \<subseteq> fst ` set (cacheData ?d)"
  proof
    fix k' assume "k' \<in> set ks"
    with Cons.prems show "k' \<in> fst ` set (cacheData ?d)"
      by (metis (no_types, lifting) cache_get_removed distinct.simps(2) insert_subset keys_of_get list.simps(15) subset_iff)
  qed
  have "distinct ks" using Cons.prems(2) by simp
  from Cons.IH [OF ok this sub] obtain d' where
    d': "mapM (\<lambda>k. bnd (cache_remove k) (\<lambda>_. ret ())) ks ?d = (Inr (), d')" "cache_ok d'"
      "catalog d' = catalog ?d |` (- set ks)" "locks_ok ?d \<longrightarrow> locks_ok d'"
    by blast
  have "mapM (\<lambda>k. bnd (cache_remove k) (\<lambda>_. ret ())) (k # ks) d = (Inr (), d')"
    using p d'(1) by (simp add: andthen_def bnd_def cache_remove_def erase_def)
  moreover have "catalog d' = catalog d |` (- set (k # ks))"
    unfolding d'(3) removed_catalog by (auto simp: restrict_map_def)
  moreover have "locks_ok d \<longrightarrow> locks_ok d'" using d'(4) by simp
  ultimately show ?case using d'(2) by blast
qed

lemma synchronize_refines:
  assumes d: "cache_ok d"
  shows "\<exists>d'. synchronize new d =
      (Inr (of_nat (card (fst ` set new - dom (catalog d)) + card (dom (catalog d) - fst ` set new))), d') \<and>
    cache_ok d' \<and> catalog d' = only new (catalog d) \<and> (locks_ok d \<longrightarrow> locks_ok d')"
proof -
  let ?d = "remark (\<lambda>k x. True) d" and ?K = "fst ` set new"
  have "cache_ok ?d" using d by (simp add: remark_ok)
  from synchronize_loop_refines [OF this, of new 0] obtain d1 where
    1: "synchronize_loop new 0 ?d = (Inr (of_nat (card (?K - dom (catalog d)))), d1)" "cache_ok d1"
    "catalog d1 = foldl learn (catalog d) new" "marked d1 = dom (catalog d) - ?K" "locks_ok d \<longrightarrow> locks_ok d1"
    by (auto simp: marked_all dom_catalog [OF d])
  let ?ks = "map fst (filter (\<lambda>(k, e). entryDeleted e) (cacheData d1))"
  have dist: "distinct (map fst (cacheData d1))" using 1(2) by (simp add: cache_ok_def)
  have ks: "set ?ks = dom (catalog d) - ?K" unfolding 1(4) [symmetric] by (force simp: marked_def)
  have len: "length ?ks = card (dom (catalog d) - ?K)" using count_marked [OF dist] 1(4) by simp
  have "set ?ks \<subseteq> fst ` set (cacheData d1)" by force
  from removes_run [OF 1(2) distinct_map_filter [OF dist] this] obtain d2 where
    2: "mapM (\<lambda>k. bnd (cache_remove k) (\<lambda>_. ret ())) ?ks d1 = (Inr (), d2)" "cache_ok d2"
    "catalog d2 = catalog d1 |` (- set ?ks)" "locks_ok d1 \<longrightarrow> locks_ok d2"
    by blast
  have "removeMarked d1 = (Inr (of_nat (card (dom (catalog d) - ?K))), d2)"
    unfolding removeMarked_def using 2(1) len by (simp add: bnd_def andthen_def)
  then have "synchronize new d = (Inr (of_nat (card (?K - dom (catalog d)) + card (dom (catalog d) - ?K))), d2)"
    using 1(1) by (simp add: synchronize_def andthen_def bnd_def markAll_run)
  moreover have "catalog d2 = only new (catalog d)"
  proof
    fix k
    have "k \<in> dom (foldl learn (catalog d) new) \<longleftrightarrow> k \<in> dom (catalog d) \<or> k \<in> ?K" by (simp add: dom_learn_all)
    then show "catalog d2 k = only new (catalog d) k"
      unfolding 2(3) ks only_def 1(3) by (cases "k \<in> ?K") (auto simp: restrict_map_def)
  qed
  ultimately show ?thesis using 1(5) 2 by blast
qed

section \<open>Locks\<close>

lemma exchange_run:
  "dbIsOpen d \<Longrightarrow> dbAnswers d = a # as \<Longrightarrow>
    exchange req d = (a, d\<lparr>dbRequests := dbRequests d @ [req], dbAnswers := as\<rparr>)"
  by (simp add: exchange_def executeRequest_def)

lemma lock_eqs: "(NO_LOCK = x) = (x = NO_LOCK)" "(WRITE_LOCK = x) = (x = WRITE_LOCK)"
  by auto

lemma lock_again:
  "objects d p = Some s \<Longrightarrow> dbLockType s = lt \<Longrightarrow> lt \<noteq> NO_LOCK \<Longrightarrow>
    lock xml_parse p lt timeout d = (Inr lt, d\<lparr>objects := (objects d)(p \<mapsto> s\<lparr>dbLockCount := dbLockCount s + 1\<rparr>)\<rparr>)"
  by (simp add: lock_def bnd_def deref_def andthen_def change_object_run)

lemma unlock_again:
  "objects d p = Some s \<Longrightarrow> dbLockType s \<noteq> NO_LOCK \<Longrightarrow> dbLockCount s \<noteq> 0 \<Longrightarrow> dbLockCount s \<noteq> 1 \<Longrightarrow>
    unlock p d = (Inr (dbLockType s), d\<lparr>objects := (objects d)(p \<mapsto> s\<lparr>dbLockCount := dbLockCount s - 1\<rparr>)\<rparr>)"
  by (auto simp: unlock_def bnd_def deref_def andthen_def change_object_run Let_def)

lemma unlock_last:
  assumes "objects d p = Some s" and "dbLockType s \<noteq> NO_LOCK" and "dbLockCount s = 1" and "dbIsOpen d"
    and "dbAnswers d = Inr (code, body) # as" and "HttpSuccess code"
  shows "unlock p d = (Inr NO_LOCK, d\<lparr>
    objects := (objects d)(p \<mapsto> s\<lparr>dbLockType := NO_LOCK, dbLockToken := [], dbLockCount := 0\<rparr>),
    dbRequests := dbRequests d @ [UnlockStreamRequest (ref_of s) (dbLockToken s) (dbLockType s = WRITE_LOCK)], dbAnswers := as\<rparr>)"
  using assms
  by (simp add: unlock_def bnd_def deref_def andthen_def change_object_run Let_def stream_unlockStream_def check_open_def
      simple_request_def execute_def exchange_run executeWithTextResponse_def lock_eqs)

lemma lock_first:
  assumes "objects d p = Some s" and "dbLockType s = NO_LOCK" and "lt \<noteq> NO_LOCK" and "dbIsOpen d"
    and "dbAnswers d = Inr (code, body) # as" and "HttpSuccess code"
    and "xml_parse body = Some doc" and "lock_response (Some (RootElement doc)) = Some t"
  shows "lock xml_parse p lt timeout d = (Inr lt, d\<lparr>
    objects := (objects d)(p \<mapsto> s\<lparr>dbLockToken := t, dbLockCount := 1, dbLockType := lt\<rparr>),
    dbRequests := dbRequests d @ [LockStreamRequest (ref_of s) (sessionId d) (lt = WRITE_LOCK) timeout], dbAnswers := as\<rparr>)"
  using assms
  by (simp add: lock_def bnd_def deref_def andthen_def change_object_run stream_lockStream_def check_open_def
      execute_parsed_def exchange_run executeAndParseResponse_def executeWithTextResponse_def XmlInput_parse_def lock_eqs)

text \<open>A client that takes and releases the lock, \<open>True\<close> for taking it; the nesting ends with the last step.\<close>

fun lock_client :: "(byte list \<Rightarrow> xml_node list option) \<Rightarrow> nat \<Rightarrow> lock_type \<Rightarrow> 64 word \<Rightarrow> bool list \<Rightarrow> (database, unit) op" where
  "lock_client xml_parse p lt timeout [] = ret ()"
| "lock_client xml_parse p lt timeout (b # bs) =
     bnd (if b then lock xml_parse p lt timeout else unlock p) (\<lambda>_. lock_client xml_parse p lt timeout bs)"

fun nested :: "nat \<Rightarrow> bool list \<Rightarrow> bool" where
  "nested n [] = False"
| "nested n (True # bs) = nested (Suc n) bs"
| "nested n (False # bs) = (if n = 1 then bs = [] else nested (n - 1) bs)"

lemma nested_locks:
  assumes "objects d p = Some s" and "dbLockType s = lt" and "lt \<noteq> NO_LOCK" and "dbLockCount s = of_nat n"
    and "0 < n" and "n + length bs < 2 ^ 64" and "nested n bs"
    and "dbIsOpen d" and "dbAnswers d = Inr (code, body) # as" and "HttpSuccess code"
  shows "lock_client xml_parse p lt timeout bs d = (Inr (), d\<lparr>
    objects := (objects d)(p \<mapsto> s\<lparr>dbLockType := NO_LOCK, dbLockToken := [], dbLockCount := 0\<rparr>),
    dbRequests := dbRequests d @ [UnlockStreamRequest (ref_of s) (dbLockToken s) (lt = WRITE_LOCK)], dbAnswers := as\<rparr>)"
  using assms
proof (induction n bs arbitrary: d s rule: nested.induct)
  case (2 n bs)
  let ?s = "s\<lparr>dbLockCount := dbLockCount s + 1\<rparr>"
  let ?d = "d\<lparr>objects := (objects d)(p \<mapsto> ?s)\<rparr>"
  have "lock_client xml_parse p lt timeout (True # bs) d = lock_client xml_parse p lt timeout bs ?d"
    using lock_again [OF 2(2,3,4)] by (simp add: bnd_def)
  also have "\<dots> = (Inr (), ?d\<lparr>objects := (objects ?d)(p \<mapsto> ?s\<lparr>dbLockType := NO_LOCK, dbLockToken := [], dbLockCount := 0\<rparr>),
      dbRequests := dbRequests ?d @ [UnlockStreamRequest (ref_of ?s) (dbLockToken ?s) (lt = WRITE_LOCK)], dbAnswers := as\<rparr>)"
    by (rule 2(1)) (use 2 in simp_all)
  finally show ?case by (simp add: ref_of_def fun_upd_def cong: if_cong)
next
  case (3 n bs)
  show ?case
  proof (cases "n = 1")
    case True
    with 3 have "unlock p d = (Inr NO_LOCK, d\<lparr>
      objects := (objects d)(p \<mapsto> s\<lparr>dbLockType := NO_LOCK, dbLockToken := [], dbLockCount := 0\<rparr>),
      dbRequests := dbRequests d @ [UnlockStreamRequest (ref_of s) (dbLockToken s) (dbLockType s = WRITE_LOCK)], dbAnswers := as\<rparr>)"
      by (intro unlock_last) auto
    with True 3 show ?thesis by (simp add: bnd_def fun_upd_def cong: if_cong)
  next
    case False
    let ?s = "s\<lparr>dbLockCount := dbLockCount s - 1\<rparr>"
    let ?d = "d\<lparr>objects := (objects d)(p \<mapsto> ?s)\<rparr>"
    have n: "n < 2 ^ LENGTH(64)" using 3 by simp
    have "of_nat n \<noteq> (0 :: 64 word)"
      unfolding word_of_nat_eq_0_iff using 3(6) n by (metis dvd_imp_le not_le)
    moreover have "of_nat n \<noteq> (1 :: 64 word)"
    proof
      assume "of_nat n = (1 :: 64 word)"
      then have "unat (of_nat n :: 64 word) = 1" by simp
      with n False show False by (simp add: unat_of_nat)
    qed
    ultimately have "unlock p d = (Inr lt, ?d)" using unlock_again [OF 3(2)] 3 by simp
    then have "lock_client xml_parse p lt timeout (False # bs) d = lock_client xml_parse p lt timeout bs ?d"
      by (simp add: bnd_def)
    also have "\<dots> = (Inr (), ?d\<lparr>objects := (objects ?d)(p \<mapsto> ?s\<lparr>dbLockType := NO_LOCK, dbLockToken := [], dbLockCount := 0\<rparr>),
        dbRequests := dbRequests ?d @ [UnlockStreamRequest (ref_of ?s) (dbLockToken ?s) (lt = WRITE_LOCK)], dbAnswers := as\<rparr>)"
      by (rule 3(1) [OF False]) (use 3 False in \<open>simp_all add: of_nat_diff\<close>)
    finally show ?thesis by (simp add: ref_of_def fun_upd_def cong: if_cong)
  qed
qed simp

section \<open>Clearing the cache\<close>

text \<open>The answers of the environment are results that the code defines.\<close>

definition answers_ok :: "database \<Rightarrow> bool" where
  "answers_ok d \<longleftrightarrow> (\<forall>m. Inl (Undefined m) \<notin> set (dbAnswers d))"

definition only_object :: "nat \<Rightarrow> database \<Rightarrow> database \<Rightarrow> bool" where
  "only_object p d d' \<longleftrightarrow> (\<forall>q. q \<noteq> p \<longrightarrow> objects d' q = objects d q) \<and> (objects d p \<noteq> None \<longrightarrow> objects d' p \<noteq> None) \<and>
     cacheData d' = cacheData d \<and> nextObject d' = nextObject d \<and> set (dbAnswers d') \<subseteq> set (dbAnswers d)"

lemma unlock_last_ends:
  assumes s: "objects d p = Some s" and "dbLockType s \<noteq> NO_LOCK" and "dbLockCount s = 1" and a: "answers_ok d"
  shows "\<exists>r d'. unlock p d = (r, d') \<and> (\<forall>m. r \<noteq> Inl (Undefined m)) \<and> (\<forall>t. r = Inr t \<longrightarrow> t = NO_LOCK) \<and> only_object p d d'"
proof (cases "dbIsOpen d")
  case False
  with assms show ?thesis
    by (auto simp: unlock_def bnd_def deref_def andthen_def Let_def stream_unlockStream_def check_open_def only_object_def)
next
  case op: True
  show ?thesis
  proof (cases "dbAnswers d")
    case Nil
    with op assms show ?thesis
      by (auto simp: unlock_def bnd_def deref_def andthen_def Let_def stream_unlockStream_def check_open_def only_object_def
          simple_request_def execute_def exchange_def executeWithTextResponse_def)
  next
    case (Cons x as)
    show ?thesis
    proof (cases "\<exists>code body. x = Inr (code, body) \<and> HttpSuccess code")
      case True
      then obtain code body where x: "x = Inr (code, body)" "HttpSuccess code" by auto
      with unlock_last [OF assms(1-3) op, of code body as] Cons show ?thesis
        by (auto simp: only_object_def)
    next
      case False
      have "x \<noteq> Inl (Undefined m)" for m using a Cons by (auto simp: answers_ok_def)
      with False op assms Cons show ?thesis
        by (cases x) (auto simp: unlock_def bnd_def deref_def andthen_def Let_def stream_unlockStream_def check_open_def
          only_object_def simple_request_def execute_def exchange_run executeWithTextResponse_def)
    qed
  qed
qed

lemma unlock_loop_ends:
  assumes "objects d p = Some s" and "(dbLockType s = NO_LOCK) = (dbLockCount s = 0)" and "answers_ok d" and "unat (dbLockCount s) = n"
  shows "\<exists>r d'. unlock_loop (Suc n) p d = (r, d') \<and> (\<forall>m. r \<noteq> Inl (Undefined m)) \<and> only_object p d d'"
  using assms
proof (induction n arbitrary: d s)
  case 0
  then have "dbLockType s = NO_LOCK" by (simp add: unat_eq_0)
  with 0 show ?case by (auto simp: bnd_def unlock_def deref_def only_object_def lock_eqs)
next
  case (Suc n)
  have nz: "dbLockCount s \<noteq> 0" using Suc.prems(4) by auto
  show ?case
  proof (cases "dbLockCount s = 1")
    case True
    from unlock_last_ends [OF Suc.prems(1) _ True Suc.prems(3)] Suc.prems(2) nz obtain r d' where
      "unlock p d = (r, d')" "\<forall>m. r \<noteq> Inl (Undefined m)" "\<forall>t. r = Inr t \<longrightarrow> t = NO_LOCK" "only_object p d d'"
      by auto
    then show ?thesis by (cases r) (auto simp: bnd_def simp del: unlock_loop.simps(1) intro!: exI)
  next
    case False
    let ?s = "s\<lparr>dbLockCount := dbLockCount s - 1\<rparr>" and ?d = "d\<lparr>objects := (objects d)(p \<mapsto> s\<lparr>dbLockCount := dbLockCount s - 1\<rparr>)\<rparr>"
    have n: "unat (dbLockCount s - 1) = n" using Suc.prems(4) nz by (simp add: unat_minus_one)
    have "dbLockCount s - 1 \<noteq> 0" using False by auto
    with nz Suc.prems have "\<exists>r d'. unlock_loop (Suc n) p ?d = (r, d') \<and> (\<forall>m. r \<noteq> Inl (Undefined m)) \<and> only_object p ?d d'"
      by (intro Suc.IH [of _ ?s]) (auto simp: n answers_ok_def)
    moreover have "unlock_loop (Suc (Suc n)) p d = unlock_loop (Suc n) p ?d"
      using unlock_again [OF Suc.prems(1) _ nz False] Suc.prems(2) nz by (simp add: bnd_def lock_eqs del: unlock_loop.simps) (simp add: bnd_def lock_eqs)
    moreover have "only_object p ?d d' \<Longrightarrow> only_object p d d'" for d' by (auto simp: only_object_def)
    ultimately show ?thesis by metis
  qed
qed

lemma dispose_ends:
  assumes s: "objects d (entryStream e) = Some s" and l: "(dbLockType s = NO_LOCK) = (dbLockCount s = 0)" and a: "answers_ok d"
  shows "\<exists>d'. unlockAndDisposeStream e d = (Inr (), d') \<and> objects d' = (objects d)(entryStream e := None) \<and>
    cacheData d' = cacheData d \<and> nextObject d' = nextObject d \<and> answers_ok d'"
proof -
  let ?p = "entryStream e"
  from unlock_loop_ends [OF s l a refl] obtain r d1 where
    1: "unlock_loop (Suc (unat (dbLockCount s))) ?p d = (r, d1)" "\<forall>m. r \<noteq> Inl (Undefined m)" "only_object ?p d d1"
    by auto
  from 1(3) s obtain s1 where s1: "objects d1 ?p = Some s1" by (auto simp: only_object_def)
  let ?body = "\<lambda>d. case unlock_loop (unlock_fuel ?p d) ?p d of (Inl (Undefined m), d') \<Rightarrow> (Inl (Undefined m), d') | (_, d') \<Rightarrow> (Inr (), d')"
  have "?body d = (Inr (), d1)"
    using 1(1,2) s by (cases r; cases "projl r") (auto simp: unlock_fuel_def)
  then have "unlockAndDisposeStream e d = (Inr (), d1\<lparr>objects := (objects d1)(?p := None)\<rparr>)"
    by (simp add: unlockAndDisposeStream_def Let_def andthen_ok disposeStream_run [OF s1])
  moreover have "(objects d1)(?p := None) = (objects d)(?p := None)"
    using 1(3) by (auto simp: only_object_def)
  moreover have "answers_ok d1" using a 1(3) by (auto simp: answers_ok_def only_object_def)
  ultimately show ?thesis using 1(3) by (auto simp: only_object_def answers_ok_def)
qed

lemma clear_loop_ends:
  assumes "distinct (map (\<lambda>(k, e). entryStream e) es)" and "\<forall>k e. (k, e) \<in> set es \<longrightarrow> objects d (entryStream e) \<noteq> None"
    and "locks_ok d" and "answers_ok d"
  shows "\<exists>d'. mapM (\<lambda>(k, e). unlockAndDisposeStream e) es d = (Inr (), d') \<and>
    objects d' = objects d |` (- (\<lambda>(k, e). entryStream e) ` set es) \<and> nextObject d' = nextObject d"
  using assms
proof (induction es arbitrary: d)
  case Nil
  then show ?case by (auto simp: restrict_map_def)
next
  case (Cons x es)
  obtain k e where x: "x = (k, e)" by force
  from Cons.prems(2) obtain s where s: "objects d (entryStream e) = Some s" by (auto simp: x)
  with Cons.prems(3) have "(dbLockType s = NO_LOCK) = (dbLockCount s = 0)" by (auto simp: locks_ok_def)
  from dispose_ends [OF s this Cons.prems(4)] obtain d1 where
    1: "unlockAndDisposeStream e d = (Inr (), d1)" "objects d1 = (objects d)(entryStream e := None)"
    "nextObject d1 = nextObject d" "answers_ok d1"
    by auto
  have "locks_ok d1" using Cons.prems(3) 1(2) by (auto simp: locks_ok_def split: if_splits)
  moreover have "\<forall>k' e'. (k', e') \<in> set es \<longrightarrow> objects d1 (entryStream e') \<noteq> None"
  proof (intro allI impI)
    fix k' e'
    assume m: "(k', e') \<in> set es"
    then have "entryStream e' \<in> (\<lambda>(k, e). entryStream e) ` set es" by force
    with Cons.prems(1) have "entryStream e' \<noteq> entryStream e" by (auto simp: x)
    with Cons.prems(2) m show "objects d1 (entryStream e') \<noteq> None" by (auto simp: 1(2))
  qed
  moreover have "distinct (map (\<lambda>(k, e). entryStream e) es)" using Cons.prems(1) by simp
  ultimately obtain d' where
    2: "mapM (\<lambda>(k, e). unlockAndDisposeStream e) es d1 = (Inr (), d')"
    "objects d' = objects d1 |` (- (\<lambda>(k, e). entryStream e) ` set es)" "nextObject d' = nextObject d1"
    using Cons.IH [of d1] 1(4) by blast
  have "mapM (\<lambda>(k, e). unlockAndDisposeStream e) (x # es) d = (Inr (), d')"
    using 1(1) 2(1) by (simp add: x andthen_ok)
  moreover have "objects d' = objects d |` (- (\<lambda>(k, e). entryStream e) ` set (x # es))"
    unfolding 2(2) 1(2) by (auto simp: restrict_map_def x)
  ultimately show ?case using 1(3) 2(3) by simp
qed

lemma cache_entries_distinct:
  assumes d: "cache_ok d"
  shows "distinct (map (\<lambda>(k, e). entryStream e) (cacheData d))"
proof -
  have "inj_on (\<lambda>(k, e). entryStream e) (set (cacheData d))"
  proof (rule inj_onI, clarify)
    fix k e k' e'
    assume a: "(k, e) \<in> set (cacheData d)" "(k', e') \<in> set (cacheData d)" "entryStream e = entryStream e'"
    from d have dist: "distinct (map fst (cacheData d))" by (simp add: cache_ok_def)
    with a have m: "map_of (cacheData d) k = Some e" "map_of (cacheData d) k' = Some e'" by auto
    then have "cache_get k d = Some (entryStream e)" "cache_get k' d = Some (entryStream e)" by (auto simp: cache_get_def a(3))
    then have "k = k'" by (rule cache_ok_inj [OF d])
    with m show "k = k' \<and> e = e'" by simp
  qed
  moreover have "distinct (cacheData d)" using d by (auto simp: cache_ok_def distinct_map)
  ultimately show ?thesis by (simp add: distinct_map)
qed

section \<open>Properties\<close>


definition sample_stream :: stream_object where
  "sample_stream = \<lparr>streamKey = [97], streamOptions = default_stream_options, updateCount = 1, streamUpdatedCallback = False,
     dbLockType = NO_LOCK, dbLockCount = 0, dbLockToken = []\<rparr>"

text \<open>A database with two streams; a client holds the lock of the second one twice.\<close>

definition sample_database :: database where
  "sample_database = \<lparr>
     objects = [0 \<mapsto> sample_stream, 1 \<mapsto> sample_stream\<lparr>streamKey := [98], dbLockType := WRITE_LOCK, dbLockCount := 2, dbLockToken := [116]\<rparr>],
     nextObject = 2,
     cacheData = [([97], \<lparr>entryStream = 0, entryDeleted = False\<rparr>), ([98], \<lparr>entryStream = 1, entryDeleted = False\<rparr>)],
     streamDeletedCallback = True, disconnectedCallback = True, dbEvents = [], dbIsOpen = True, readOnlyMode = False,
     sessionId = [115], dbRequests = [], dbAnswers = [Inr (200, []), Inr (200, []), Inr (404, [])]\<rparr>"

lemma sample_database_ok: "cache_ok sample_database" "locks_ok sample_database" "answers_ok sample_database"
  by (auto simp: cache_ok_def entries_ok_def locks_ok_def answers_ok_def sample_database_def sample_stream_def split: if_splits)


text \<open>C40: A client that takes the lock of a stream and releases it as often, nested in any way, costs one request to lock
  and one to unlock with the token of the server; in between the lock is counted, and afterwards the stream is as before.\<close>

theorem nested_locks_cost_one_exchange:
  assumes "objects d p = Some s" and "dbLockType s = NO_LOCK" and "dbLockCount s = 0" and "dbLockToken s = []"
    and "lt \<noteq> NO_LOCK" and "nested 1 bs" and "length bs < 2 ^ 64 - 1" and "dbIsOpen d"
    and "dbAnswers d = Inr (code, body) # Inr (code', body') # as" and "HttpSuccess code" and "HttpSuccess code'"
    and "xml_parse body = Some doc" and "lock_response (Some (RootElement doc)) = Some token"
  shows "lock_client xml_parse p lt timeout (True # bs) d =
    (Inr (), d\<lparr>dbRequests := dbRequests d @
        [LockStreamRequest \<lparr>refLock = NO_LOCK, refToken = [], refKey = streamKey s\<rparr> (sessionId d) (lt = WRITE_LOCK) timeout,
         UnlockStreamRequest \<lparr>refLock = lt, refToken = token, refKey = streamKey s\<rparr> token (lt = WRITE_LOCK)],
      dbAnswers := as\<rparr>)"
proof -
  let ?s = "s\<lparr>dbLockToken := token, dbLockCount := 1, dbLockType := lt\<rparr>"
  let ?d = "d\<lparr>objects := (objects d)(p \<mapsto> ?s),
    dbRequests := dbRequests d @ [LockStreamRequest (ref_of s) (sessionId d) (lt = WRITE_LOCK) timeout],
    dbAnswers := Inr (code', body') # as\<rparr>"
  have "lock xml_parse p lt timeout d = (Inr lt, ?d)"
    by (rule lock_first) (use assms in simp_all)
  then have "lock_client xml_parse p lt timeout (True # bs) d = lock_client xml_parse p lt timeout bs ?d"
    by (simp add: bnd_def)
  also have "\<dots> = (Inr (), ?d\<lparr>objects := (objects ?d)(p \<mapsto> ?s\<lparr>dbLockType := NO_LOCK, dbLockToken := [], dbLockCount := 0\<rparr>),
      dbRequests := dbRequests ?d @ [UnlockStreamRequest (ref_of ?s) (dbLockToken ?s) (lt = WRITE_LOCK)], dbAnswers := as\<rparr>)"
    by (rule nested_locks [where n = 1 and code = code' and body = body']) (use assms in simp_all)
  also have "?s\<lparr>dbLockType := NO_LOCK, dbLockToken := [], dbLockCount := 0\<rparr> = s"
    using assms(2-4) by (cases s) simp
  also have "(objects ?d)(p \<mapsto> s) = objects d"
    using assms(1) by (simp add: fun_upd_idem)
  finally show ?thesis using assms(2-4) by (simp add: ref_of_def)
qed

definition sample_lock_document :: "xml_node list" where
  "sample_lock_document = [OtherNode, Element (string_bytes ''lockStreamsResponse'') []
     [Element (string_bytes ''id'') [] [CharData [116]], Element (string_bytes ''write'') [] [CharData (string_bytes ''true'')]]]"

lemma nested_locks_cost_one_exchange_witness:
  "lock_client (\<lambda>_. Some sample_lock_document) 0 WRITE_LOCK 5 [True, True, False, False] sample_database =
    (Inr (), sample_database\<lparr>dbRequests :=
        [LockStreamRequest \<lparr>refLock = NO_LOCK, refToken = [], refKey = [97]\<rparr> [115] True 5,
         UnlockStreamRequest \<lparr>refLock = WRITE_LOCK, refToken = [116], refKey = [97]\<rparr> [116] True],
      dbAnswers := [Inr (404, [])]\<rparr>)"
proof -
  have s: "objects sample_database 0 = Some sample_stream"
    "dbAnswers sample_database = Inr (200, []) # Inr (200, []) # [Inr (404, [])]" "dbIsOpen sample_database"
    by (simp_all add: sample_database_def)
  have t: "lock_response (Some (RootElement sample_lock_document)) = Some [116]"
    by code_simp
  have "nested 1 [True, False, False]" and "HttpSuccess 200" by (simp_all add: HttpSuccess_def)
  from nested_locks_cost_one_exchange [OF s(1) _ _ _ _ this(1) _ s(3) s(2) this(2) this(2) _ t, of WRITE_LOCK "\<lambda>_. Some sample_lock_document" 5]
  show ?thesis by (simp add: sample_stream_def) (simp add: sample_database_def)
qed

end
