(* ===== verification/SessionHandler.thy ===== *)
theory SessionHandler
  imports StreamCache LoaderResponses
begin

text \<open>
  The session of a database (\<^verbatim>\<open>tickdb/session_handler.cpp\<close>): the connection over which the server tells the client
  what happens to the streams, the thread that reads it, and the requests that are sent over it. The thread takes
  turns; what the network delivers before a turn is given by the environment. The sections that take a lock are
  atomic, so the turns of the thread and the calls of the client interleave as whole operations. A set that is
  shared between threads is a list without duplicates in the order of its traversal.
\<close>

section \<open>State\<close>

text \<open>The memory of the output buffer: not allocated, allocated, or freed while the pointer stays.\<close>

datatype allocation = NotAllocated | Allocated | Freed

record session =
  sessionDb :: database
  sessionStream :: "tcp_state option"
  sessionSends :: "nat option list"
  sessionWriter :: writer
  sessionBuffer :: allocation
  nStreamDefRequestsSent :: "64 word"
  nPropertyRequestsSent :: "64 word"
  nStreamDefRequestsReceived :: "64 word"
  nPropertyRequestsReceived :: "64 word"
  neededStreamDefs :: "byte list list"
  knownStreamDefs :: "byte list list"
  sessionError :: string
  sessionVersion :: int
  sessionRunning :: bool
  sessionStopped :: bool
  sessionShouldStop :: bool
  sessionInterrupted :: bool
  sessionThread :: bool

datatype session_result = NO_DATA | OK | FINISHED

definition on_db :: "(database, 'a) op \<Rightarrow> (session, 'a) op" where
  "on_db m = (\<lambda>s. case m (sessionDb s) of (x, d) \<Rightarrow> (x, s\<lparr>sessionDb := d\<rparr>))"

text \<open>Writing needs the memory of the buffer.\<close>

definition on_session_writer :: "(writer, 'a) op \<Rightarrow> (session, 'a) op" where
  "on_session_writer m =
     (\<lambda>s. if sessionBuffer s \<noteq> Allocated then (Inl (Undefined ''no output buffer''), s)
          else case m (sessionWriter s) of (x, w) \<Rightarrow> (x, s\<lparr>sessionWriter := w\<rparr>))"

section \<open>Shared sets\<close>

definition set_add :: "'a \<Rightarrow> 'a list \<Rightarrow> 'a list" where
  "set_add v data = (if v \<in> set data then data else data @ [v])"

definition set_remove :: "'a \<Rightarrow> 'a list \<Rightarrow> 'a list" where
  "set_remove v data = remove1 v data"

definition set_find :: "'a \<Rightarrow> 'a list \<Rightarrow> 'a option" where
  "set_find v data = (if v \<in> set data then Some v else None)"

text \<open>An iterator owns a copy and gives out its elements one by one.\<close>

fun iter_next :: "'a list \<Rightarrow> ('a \<times> 'a list) option" where
  "iter_next [] = None"
| "iter_next (x # data) = Some (x, set_remove x (x # data))"

section \<open>Reading\<close>

definition session_read_bytes :: "nat \<Rightarrow> (session, byte list) op" where
  "session_read_bytes n =
     (\<lambda>s. case sessionStream s of
        None \<Rightarrow> (Inl (Undefined ''null stream''), s)
      | Some t \<Rightarrow> (case tcp_read n n t of
            (Inl e, t') \<Rightarrow> (Inl e, s\<lparr>sessionStream := Some t'\<rparr>)
          | (Inr (k, bs), t') \<Rightarrow>
              (if length bs < n then Inl (Undefined ''uninitialised buffer'') else Inr bs, s\<lparr>sessionStream := Some t'\<rparr>)))"

definition session_read :: "nat \<Rightarrow> (session, 'w::len word) op" where
  "session_read n = bnd (session_read_bytes n) (\<lambda>bs. ret (be_word bs))"

definition session_readUTF8_into :: "(session, byte list option) op" where
  "session_readUTF8_into =
     bnd (session_read 2) (\<lambda>len :: 16 word.
     if 0xFFFF \<noteq> len
     then (if 0 < len then bnd (session_read_bytes (unat len)) (\<lambda>bs. ret (Some bs)) else ret (Some []))
     else ret None)"

text \<open>The string after the call; a null string leaves it empty.\<close>

definition session_readUTF8 :: "(session, byte list) op" where
  "session_readUTF8 = bnd session_readUTF8_into (\<lambda>s. ret (case s of None \<Rightarrow> [] | Some bs \<Rightarrow> bs))"

definition readPropertyId :: "(session, 8 word) op" where
  "readPropertyId = session_read 1"

section \<open>Writing\<close>

text \<open>Without an answer of the environment, a \<^verbatim>\<open>send\<close> takes everything.\<close>

definition session_send :: "byte list \<Rightarrow> (session, unit) op" where
  "session_send bs =
     (\<lambda>s. case sessionStream s of
        None \<Rightarrow> (Inr (), s)
      | Some t \<Rightarrow>
          (case tcp_write (case sessionSends s of [] \<Rightarrow> Some (length bs) | r # rs \<Rightarrow> r) bs t of
             (Inl e, t') \<Rightarrow> (Inl e, s\<lparr>sessionStream := Some t', sessionSends := tl (sessionSends s)\<rparr>)
           | (Inr _, t') \<Rightarrow> (Inr (), s\<lparr>sessionStream := Some t', sessionSends := tl (sessionSends s)\<rparr>)))"

definition session_unsent :: "session \<Rightarrow> byte list" where
  "session_unsent s = load_bytes (wmem (sessionWriter s)) (bufferStart (sessionWriter s)) (dataSize (sessionWriter s))"

definition session_flushOutput :: "(session, unit) op" where
  "session_flushOutput =
     bnd (gets (\<lambda>s. dataSize (sessionWriter s) \<noteq> 0)) (\<lambda>b.
     whenM b (seqs [bnd (gets session_unsent) session_send, on_session_writer resetPointer]))"

section \<open>Requests\<close>

definition REQ_GET_STREAMS :: "32 word" where [layout_defs]: "REQ_GET_STREAMS = 1"
definition REQ_GET_STREAM_PROPERTY :: "32 word" where [layout_defs]: "REQ_GET_STREAM_PROPERTY = 2"
definition REQ_CLOSE_SESSION :: "32 word" where [layout_defs]: "REQ_CLOSE_SESSION = 3"

definition write_key :: "byte list \<Rightarrow> (session, unit) op" where
  "write_key key = seqs
     [bnd (gets (\<lambda>s. remaining (sessionWriter s) \<le> length key + 4)) (\<lambda>full. whenM full session_flushOutput),
      on_session_writer (writeUTF8_bytes key)]"

definition requestGetStreams :: "byte list list \<Rightarrow> (session, 64 word) op" where
  "requestGetStreams keys =
     andthen (seqs
       [on_session_writer (writeUInt32 REQ_GET_STREAMS),
        modify (\<lambda>s. s\<lparr>nStreamDefRequestsSent := nStreamDefRequestsSent s + 1\<rparr>),
        bnd (gets nStreamDefRequestsSent) (\<lambda>n. on_session_writer (writeUInt64 n)),
        on_session_writer (writeUInt32 (of_nat (length keys))),
        mapM write_key keys,
        session_flushOutput])
     (gets nStreamDefRequestsSent)"

definition requestGetStream :: "byte list \<Rightarrow> (session, 64 word) op" where
  "requestGetStream key = requestGetStreams [key]"

definition requestGetProperty :: "byte list \<Rightarrow> 8 word \<Rightarrow> (session, 64 word) op" where
  "requestGetProperty key ident =
     andthen (seqs
       [on_session_writer (writeUInt32 REQ_GET_STREAM_PROPERTY),
        modify (\<lambda>s. s\<lparr>nPropertyRequestsSent := nPropertyRequestsSent s + 1\<rparr>),
        bnd (gets nPropertyRequestsSent) (\<lambda>n. on_session_writer (writeUInt64 n)),
        on_session_writer (writeUTF8_bytes key),
        on_session_writer (writeByte ident),
        session_flushOutput])
     (gets nPropertyRequestsSent)"

definition requestClose :: "(session, unit) op" where
  "requestClose = seqs [on_session_writer (writeUInt32 REQ_CLOSE_SESSION), session_flushOutput]"

text \<open>The key of the dummy request ends with two random numbers in hexadecimal.\<close>

definition requestGetDummyStream :: "byte list \<Rightarrow> (session, 64 word) op" where
  "requestGetDummyStream suffix = requestGetStreams [string_bytes ''_dummy_fxrsttydvs_'' @ suffix]"

section \<open>Closing\<close>

definition session_closeConnection :: "(session, unit) op" where
  "session_closeConnection = modify (\<lambda>s. s\<lparr>sessionStream := None\<rparr>)"

text \<open>The pointer to the buffer is not reset when the buffer is freed.\<close>

definition session_cleanup :: "(session, unit) op" where
  "session_cleanup = seqs
     [session_closeConnection,
      bnd (gets sessionBuffer) (\<lambda>b. case b of
         NotAllocated \<Rightarrow> ret ()
       | Allocated \<Rightarrow> modify (\<lambda>s. s\<lparr>sessionBuffer := Freed\<rparr>)
       | Freed \<Rightarrow> throw (Undefined ''double free'')),
      modify (\<lambda>s. s\<lparr>neededStreamDefs := [], knownStreamDefs := []\<rparr>)]"

definition session_close :: "(session, unit) op" where
  "session_close = session_cleanup"

section \<open>Messages of the server\<close>

definition receive_STREAM_DELETED :: "(session, session_result) op" where
  "receive_STREAM_DELETED = bnd session_readUTF8 (\<lambda>key. andthen (on_db (onStreamDeleted key)) (ret OK))"

definition need :: "byte list \<Rightarrow> (session, unit) op" where
  "need key = modify (\<lambda>s. s\<lparr>neededStreamDefs := set_add key (neededStreamDefs s)\<rparr>)"

definition receive_STREAM_CREATED :: "(session, session_result) op" where
  "receive_STREAM_CREATED = bnd session_readUTF8 (\<lambda>key. andthen (need key) (ret OK))"

definition receive_STREAM_RENAMED :: "(session, session_result) op" where
  "receive_STREAM_RENAMED =
     bnd session_readUTF8 (\<lambda>oldKey. bnd session_readUTF8 (\<lambda>newKey.
     andthen (on_db (onStreamDeleted oldKey)) (andthen (need newKey) (ret OK))))"

text \<open>The text of the definitions: parsed, and checked for the expected document.\<close>

definition parse_definitions :: "(byte list \<Rightarrow> xml_node list option) \<Rightarrow> byte list \<Rightarrow> (session, (byte list \<times> stream_options) list) op" where
  "parse_definitions xml_parse xml =
     (case XmlInput_parse xml_parse xml of
        Inl e \<Rightarrow> throw e
      | Inr root \<Rightarrow> (case getStreams root of
            None \<Rightarrow> throw (RuntimeError ''receive_STREAMS_DEFINITION(): ERR: unable to parse XML'')
          | Some newStreams \<Rightarrow> ret newStreams))"

definition definitions_body :: "(byte list \<Rightarrow> xml_node list option) \<Rightarrow> (session, unit) op" where
  "definitions_body xml_parse =
     bnd (session_read 8) (\<lambda>requestId :: 64 word.
     bnd (session_read 4) (\<lambda>n :: 32 word. let sz = scast n :: 64 word in
     if sz = 0 then ret ()
     else if 2 ^ 31 - 1 < sz then throw (RuntimeError ''receive_STREAMS_DEFINITION(): ERR: XML size is too big'')
     else bnd (session_read_bytes (unat sz)) (\<lambda>xml.
       bnd (parse_definitions xml_parse xml) (\<lambda>newStreams.
       andthen (mapM (\<lambda>i. on_db (learn_stream i)) newStreams)
       (mapM (\<lambda>i. modify (\<lambda>s. s\<lparr>knownStreamDefs := set_add (fst i) (knownStreamDefs s)\<rparr>)) newStreams)))))"

text \<open>The response is counted in any case, also when its definitions could not be read.\<close>

definition receive_STREAMS_DEFINITION :: "(byte list \<Rightarrow> xml_node list option) \<Rightarrow> (session, session_result) op" where
  "receive_STREAMS_DEFINITION xml_parse =
     (\<lambda>s. case definitions_body xml_parse s of
        (Inl (Undefined m), s') \<Rightarrow> (Inl (Undefined m), s')
      | (r, s') \<Rightarrow> (map_sum id (\<lambda>_. OK) r, s'\<lparr>nStreamDefRequestsReceived := nStreamDefRequestsReceived s' + 1\<rparr>))"

definition receive_STREAM_PROPERTY_CHANGED :: "(session, session_result) op" where
  "receive_STREAM_PROPERTY_CHANGED =
     bnd session_readUTF8 (\<lambda>key. bnd readPropertyId (\<lambda>p. bnd (requestGetStream key) (\<lambda>_. ret OK)))"

definition KEY_PROPERTY :: "8 word" where [layout_defs]: "KEY_PROPERTY = 1"
definition NAME_PROPERTY :: "8 word" where [layout_defs]: "NAME_PROPERTY = 2"
definition DESCRIPTION_PROPERTY :: "8 word" where [layout_defs]: "DESCRIPTION_PROPERTY = 3"
definition PERIODICITY_PROPERTY :: "8 word" where [layout_defs]: "PERIODICITY_PROPERTY = 4"
definition SCHEMA_PROPERTY :: "8 word" where [layout_defs]: "SCHEMA_PROPERTY = 6"
definition OWNER_PROPERTY :: "8 word" where [layout_defs]: "OWNER_PROPERTY = 22"

text \<open>The value is read into a copy of the options, which is dropped.\<close>

definition property_body :: "(session, unit) op" where
  "property_body =
     bnd (session_read 8) (\<lambda>requestId :: 64 word. bnd session_readUTF8 (\<lambda>key. bnd readPropertyId (\<lambda>p.
     if p \<in> {NAME_PROPERTY, DESCRIPTION_PROPERTY, PERIODICITY_PROPERTY, KEY_PROPERTY, OWNER_PROPERTY}
     then bnd session_readUTF8 (\<lambda>_. ret ())
     else if p = SCHEMA_PROPERTY
     then bnd (session_read 1) (\<lambda>_ :: 8 word. bnd session_readUTF8 (\<lambda>_. ret ()))
     else ret ())))"

definition receive_STREAM_PROPERTY :: "(session, session_result) op" where
  "receive_STREAM_PROPERTY =
     (\<lambda>s. case property_body s of
        (Inl (Undefined m), s') \<Rightarrow> (Inl (Undefined m), s')
      | (r, s') \<Rightarrow> (Inr OK, s'\<lparr>nPropertyRequestsReceived := nPropertyRequestsReceived s' + 1\<rparr>))"

definition receive_SESSION_CLOSED :: "(session, session_result) op" where
  "receive_SESSION_CLOSED = ret FINISHED"

definition receive_STREAMS_CHANGED :: "(session, session_result) op" where
  "receive_STREAMS_CHANGED = bnd (requestGetStreams []) (\<lambda>_. ret OK)"

section \<open>The thread\<close>

definition STREAM_PROPERTY_CHANGED :: "32 word" where [layout_defs]: "STREAM_PROPERTY_CHANGED = 11"
definition STREAM_DELETED :: "32 word" where [layout_defs]: "STREAM_DELETED = 12"
definition STREAM_CREATED :: "32 word" where [layout_defs]: "STREAM_CREATED = 13"
definition STREAM_RENAMED :: "32 word" where [layout_defs]: "STREAM_RENAMED = 14"
definition STREAMS_DEFINITION :: "32 word" where [layout_defs]: "STREAMS_DEFINITION = 15"
definition STREAM_PROPERTY :: "32 word" where [layout_defs]: "STREAM_PROPERTY = 16"
definition SESSION_CLOSED :: "32 word" where [layout_defs]: "SESSION_CLOSED = 17"
definition SESSION_STARTED :: "32 word" where [layout_defs]: "SESSION_STARTED = 18"
definition STREAMS_CHANGED :: "32 word" where [layout_defs]: "STREAMS_CHANGED = 19"

definition set_session_error :: "string \<Rightarrow> (session, unit) op" where
  "set_session_error m = modify (\<lambda>s. s\<lparr>sessionError := m\<rparr>)"

definition session_command :: "(byte list \<Rightarrow> xml_node list option) \<Rightarrow> 32 word \<Rightarrow> (session, session_result) op" where
  "session_command xml_parse command =
     (if command = STREAM_PROPERTY_CHANGED then receive_STREAM_PROPERTY_CHANGED
      else if command = STREAM_DELETED then receive_STREAM_DELETED
      else if command = STREAM_CREATED then receive_STREAM_CREATED
      else if command = STREAM_RENAMED then receive_STREAM_RENAMED
      else if command = STREAMS_DEFINITION then receive_STREAMS_DEFINITION xml_parse
      else if command = STREAM_PROPERTY then receive_STREAM_PROPERTY
      else if command = SESSION_CLOSED then receive_SESSION_CLOSED
      else if command = STREAMS_CHANGED then receive_STREAMS_CHANGED
      else andthen (seqs [set_session_error ''Unexpected token received from the server'', session_cleanup]) (ret FINISHED))"

text \<open>The first read takes what there is of the four bytes of a command, the second one the rest.\<close>

definition input_body :: "(byte list \<Rightarrow> xml_node list option) \<Rightarrow> (session, session_result) op" where
  "input_body xml_parse =
     (\<lambda>s. case sessionStream s of
        None \<Rightarrow> (Inl (Undefined ''null stream''), s)
      | Some t \<Rightarrow> (case tcp_tryRead 4 t of
            (Inl e, t') \<Rightarrow> (Inl e, s\<lparr>sessionStream := Some t'\<rparr>)
          | (Inr (n, bs), t') \<Rightarrow>
              (if n = 0 then (Inr NO_DATA, s\<lparr>sessionStream := Some t'\<rparr>)
               else if length bs < n then (Inl (Undefined ''uninitialised buffer''), s\<lparr>sessionStream := Some t'\<rparr>)
               else bnd (if n < 4 then session_read_bytes (4 - n) else ret []) (\<lambda>cs. session_command xml_parse (be_word (bs @ cs)))
                      (s\<lparr>sessionStream := Some t'\<rparr>))))"

text \<open>An exception of the connection ends the session, and so does one that is not a runtime error;
  a runtime error is ignored.\<close>

definition runtime_error :: "exn \<Rightarrow> bool" where
  "runtime_error e = (case e of LogicError _ \<Rightarrow> False | InvalidArgument _ \<Rightarrow> False | OutOfRange _ \<Rightarrow> False | _ \<Rightarrow> True)"

definition on_input_exception :: "exn \<Rightarrow> (session, session_result) op" where
  "on_input_exception e =
     (case e of
        Undefined m \<Rightarrow> throw (Undefined m)
      | Disconnected m \<Rightarrow> andthen (seqs [set_session_error ''disconnected by server'', session_closeConnection]) (ret FINISHED)
      | IOError m \<Rightarrow> andthen (seqs [set_session_error (''IOStream exception: '' @ m), session_closeConnection]) (ret FINISHED)
      | _ \<Rightarrow> if runtime_error e then ret OK else andthen (set_session_error ''std::exception: '') (ret FINISHED))"

definition processInput :: "(byte list \<Rightarrow> xml_node list option) \<Rightarrow> (session, session_result) op" where
  "processInput xml_parse =
     (\<lambda>s. if sessionInterrupted s \<or> sessionStream s = None then (Inr FINISHED, s)
          else case input_body xml_parse s of
            (Inl e, s') \<Rightarrow> on_input_exception e s'
          | r \<Rightarrow> r)"

text \<open>The definitions that are needed are requested at the end of a turn. The loop drains the copy of the set.\<close>

fun drain :: "'a list \<Rightarrow> 'a list \<Rightarrow> 'a list \<times> 'a list" where
  "drain [] needed = ([], needed)"
| "drain (key # iter) needed = (case drain iter (set_remove key needed) of (keys, rest) \<Rightarrow> (key # keys, rest))"

definition request_needed :: "(session, unit) op" where
  "request_needed =
     bnd (gets neededStreamDefs) (\<lambda>needed.
     whenM (needed \<noteq> []) (case drain needed needed of (keys, rest) \<Rightarrow>
       andthen (modify (\<lambda>s. s\<lparr>neededStreamDefs := rest\<rparr>)) (bnd (requestGetStreams keys) (\<lambda>_. ret ()))))"

text \<open>One turn; the result says whether the loop goes on.\<close>

definition session_turn :: "(byte list \<Rightarrow> xml_node list option) \<Rightarrow> (session, bool) op" where
  "session_turn xml_parse =
     bnd (processInput xml_parse) (\<lambda>result.
     if result = FINISHED then ret False else andthen request_needed (ret True))"

definition session_arrive :: "recv_event list \<Rightarrow> (session, unit) op" where
  "session_arrive evs =
     modify (\<lambda>s. s\<lparr>sessionStream := map_option (\<lambda>t. t\<lparr>incoming := incoming t @ evs\<rparr>) (sessionStream s)\<rparr>)"

text \<open>The loop over the given turns; the result says whether it has ended.\<close>

fun threadProcImpl :: "(byte list \<Rightarrow> xml_node list option) \<Rightarrow> recv_event list list \<Rightarrow> (session, bool) op" where
  "threadProcImpl xml_parse [] = ret False"
| "threadProcImpl xml_parse (evs # turns) =
     bnd (gets sessionShouldStop) (\<lambda>stop.
     if stop then andthen session_close (ret True)
     else andthen (session_arrive evs)
       (bnd (session_turn xml_parse) (\<lambda>go.
        if go then threadProcImpl xml_parse turns else andthen session_close (ret True))))"

definition stopped :: "(session, unit) op" where
  "stopped = seqs
     [modify (\<lambda>s. s\<lparr>sessionThread := False, sessionStopped := True, sessionRunning := False\<rparr>),
      bnd (gets sessionShouldStop) (\<lambda>stop. whenM (\<not> stop) (on_db (dispatch disconnectedCallback DatabaseDisconnected)))]"

text \<open>An exception of the loop is logged, and closing is skipped.\<close>

definition threadProc :: "(byte list \<Rightarrow> xml_node list option) \<Rightarrow> recv_event list list \<Rightarrow> (session, unit) op" where
  "threadProc xml_parse turns =
     andthen (modify (\<lambda>s. s\<lparr>sessionRunning := True\<rparr>))
     (\<lambda>s. case threadProcImpl xml_parse turns s of
        (Inl (Undefined m), s') \<Rightarrow> (Inl (Undefined m), s')
      | (Inr False, s') \<Rightarrow> (Inr (), s')
      | (_, s') \<Rightarrow> stopped s')"

section \<open>Opening\<close>

definition REQ_CREATE_SESSION :: "8 word" where [layout_defs]: "REQ_CREATE_SESSION = 3"
definition BASIC_WRITER_BUFFER_SIZE :: nat where [layout_defs]: "BASIC_WRITER_BUFFER_SIZE = 0x11000"

text \<open>What \<^verbatim>\<open>start\<close> gets from elsewhere: the memory, the connection, the credentials and the random suffix.\<close>

record session_request =
  srAlloc :: nat
  srConnection :: "exn + tcp_state"
  srUsername :: "byte list"
  srEncodedPass :: "byte list"
  srSuffix :: "byte list"

definition session_credentials :: "session_request \<Rightarrow> (writer, unit) op" where
  "session_credentials r =
     (let data = scramble (srUsername r)
      in if data = [] then writeByte 0
         else seqs [writeByte 1, writeUTF8_bytes data, writeUTF8_bytes (scramble (srEncodedPass r))])"

definition start_connection :: "session_request \<Rightarrow> (session, unit) op" where
  "start_connection r =
     (case srConnection r of
        Inl e \<Rightarrow> throw e
      | Inr t \<Rightarrow> seqs
          [modify (\<lambda>s. s\<lparr>sessionStream := Some t\<rparr>), on_session_writer resetPointer,
           on_session_writer (writeByte PROTOCOL_INIT), on_session_writer (writeInt16 PROTOCOL_VERSION), session_flushOutput])"

definition start_login :: "session_request \<Rightarrow> (session, unit) op" where
  "start_login r =
     bnd (session_read 2) (\<lambda>v :: 16 word.
     seqs
       [modify (\<lambda>s. s\<lparr>sessionVersion := sint v\<rparr>),
        guard (MIN_SERVER_VERSION \<le> sint v) (RuntimeError ''open(): Incompatible HTTP-TB protocol version''),
        on_session_writer (session_credentials r), session_flushOutput,
        bnd (session_read 4) (\<lambda>handshake :: 32 word.
          whenM (RESP_ERROR = handshake) (andthen session_closeConnection
            (throw (ServerError ''open(): Handshake failed: Wrong username or password''))))])"

definition start_session :: "session_request \<Rightarrow> (session, unit) op" where
  "start_session r = seqs
     [on_session_writer (writeByte REQ_CREATE_SESSION), on_session_writer (writeByte 0), on_session_writer (writeByte 1),
      session_flushOutput,
      bnd (requestGetDummyStream (srSuffix r)) (\<lambda>_. ret ()),
      bnd (session_read 4) (\<lambda>token :: 32 word.
        guard (SESSION_STARTED = token) (RuntimeError ''open(): ERR: SESSION_STARTED marker is expected!'')),
      bnd session_readUTF8_into (\<lambda>ident. seqs
        [on_db (modify (\<lambda>d. d\<lparr>sessionId := case ident of None \<Rightarrow> [] | Some bs \<Rightarrow> bs\<rparr>)),
         guard (ident \<noteq> None \<and> ident \<noteq> Some []) (RuntimeError ''open(): ERR: Session Id string is expected!'')]),
      modify (\<lambda>s. s\<lparr>sessionThread := True, sessionRunning := True\<rparr>)]"

definition start_body :: "session_request \<Rightarrow> (session, unit) op" where
  "start_body r = seqs
     [guard (srAlloc r \<noteq> 0) (RuntimeError ''std::bad_alloc''),
      modify (\<lambda>s. s\<lparr>sessionBuffer := Allocated\<rparr>),
      on_session_writer (setBuffer (srAlloc r) (pointer_align_up (srAlloc r) 0x1000)
        (pointer_align_up (srAlloc r) 0x1000 + BASIC_WRITER_BUFFER_SIZE)),
      start_connection r, start_login r, start_session r]"

text \<open>Whatever is thrown, the session is cleaned up before it is passed on.\<close>

definition session_start :: "session_request \<Rightarrow> (session, unit) op" where
  "session_start r =
     (\<lambda>s. case start_body r s of
        (Inl (Undefined m), s') \<Rightarrow> (Inl (Undefined m), s')
      | (Inl e, s') \<Rightarrow> andthen session_cleanup (throw e) s'
      | x \<Rightarrow> x)"

section \<open>Synchronous requests\<close>

definition propertyRequestCompleted :: "64 word \<Rightarrow> session \<Rightarrow> bool" where
  "propertyRequestCompleted requestId s \<longleftrightarrow> 0 \<le> sint (nPropertyRequestsReceived s - requestId)"

definition streamDefRequestCompleted :: "64 word \<Rightarrow> session \<Rightarrow> bool" where
  "streamDefRequestCompleted requestId s \<longleftrightarrow> 0 \<le> sint (nStreamDefRequestsReceived s - requestId)"

definition isWorking :: "session \<Rightarrow> bool" where
  "isWorking s \<longleftrightarrow> sessionRunning s \<and> \<not> (sessionShouldStop s \<or> sessionInterrupted s)"

definition session_getStreams :: "byte list list \<Rightarrow> (session, unit) op" where
  "session_getStreams keys = bnd (gets isWorking) (\<lambda>w. whenM w (bnd (requestGetStreams keys) (\<lambda>_. ret ())))"

text \<open>The client waits while the thread takes its turns; None says that it waits still when the turns are over.\<close>

fun wait_definitions :: "(byte list \<Rightarrow> xml_node list option) \<Rightarrow> 64 word \<Rightarrow> recv_event list list \<Rightarrow> (session, unit option) op" where
  "wait_definitions xml_parse requestId [] =
     bnd (gets (streamDefRequestCompleted requestId)) (\<lambda>b. ret (if b then Some () else None))"
| "wait_definitions xml_parse requestId (evs # turns) =
     bnd (gets (streamDefRequestCompleted requestId)) (\<lambda>b.
     if b then ret (Some ())
     else andthen (bnd (gets sessionRunning) (\<lambda>r. whenM r (threadProc xml_parse [evs]))) (wait_definitions xml_parse requestId turns))"

definition forget_known :: "byte list list \<Rightarrow> session \<Rightarrow> session" where
  "forget_known keys s =
     s\<lparr>knownStreamDefs := (if keys = [] then [] else fold set_remove keys (knownStreamDefs s))\<rparr>"

definition getStreamsSynchronous :: "(byte list \<Rightarrow> xml_node list option) \<Rightarrow> byte list list \<Rightarrow> recv_event list list \<Rightarrow> (session, unit option) op" where
  "getStreamsSynchronous xml_parse keys turns =
     bnd (gets isWorking) (\<lambda>w.
     if w then andthen (modify (forget_known keys))
       (bnd (requestGetStreams keys) (\<lambda>requestId. wait_definitions xml_parse requestId turns))
     else ret (Some ()))"

definition getStreamSynchronous :: "(byte list \<Rightarrow> xml_node list option) \<Rightarrow> byte list \<Rightarrow> recv_event list list \<Rightarrow> (session, unit option) op" where
  "getStreamSynchronous xml_parse key turns = getStreamsSynchronous xml_parse [key] turns"

definition getProperty :: "byte list \<Rightarrow> 8 word \<Rightarrow> (session, 64 word) op" where
  "getProperty key ident = bnd (gets isWorking) (\<lambda>w. if w then requestGetProperty key ident else ret (- 1))"

fun wait_property :: "(byte list \<Rightarrow> xml_node list option) \<Rightarrow> 64 word \<Rightarrow> recv_event list list \<Rightarrow> (session, unit option) op" where
  "wait_property xml_parse requestId [] =
     bnd (gets (propertyRequestCompleted requestId)) (\<lambda>b. ret (if b then Some () else None))"
| "wait_property xml_parse requestId (evs # turns) =
     bnd (gets (propertyRequestCompleted requestId)) (\<lambda>b.
     if b then ret (Some ())
     else andthen (bnd (gets sessionRunning) (\<lambda>r. whenM r (threadProc xml_parse [evs]))) (wait_property xml_parse requestId turns))"

definition getPropertySynchronous :: "(byte list \<Rightarrow> xml_node list option) \<Rightarrow> byte list \<Rightarrow> 8 word \<Rightarrow> recv_event list list \<Rightarrow> (session, unit option) op" where
  "getPropertySynchronous xml_parse key ident turns =
     bnd (gets isWorking) (\<lambda>w.
     if w then bnd (requestGetProperty key ident) (\<lambda>requestId. wait_property xml_parse requestId turns)
     else ret (Some ()))"

text \<open>The other calls of the client. \<^verbatim>\<open>stop\<close> lets the thread take one more turn, in which it sees the flag.\<close>

definition session_stop :: "(byte list \<Rightarrow> xml_node list option) \<Rightarrow> (session, unit) op" where
  "session_stop xml_parse =
     andthen (modify (\<lambda>s. s\<lparr>sessionShouldStop := True\<rparr>))
     (bnd (gets sessionRunning) (\<lambda>r. whenM r (threadProc xml_parse [[]])))"

definition session_breakConnection :: "(session, unit) op" where
  "session_breakConnection = modify (\<lambda>s. s\<lparr>sessionStream := map_option (\<lambda>t. snd (tcp_close t)) (sessionStream s)\<rparr>)"

text \<open>The connection is probed with a request; the thread takes its turns while the client sleeps five times.\<close>

fun probe :: "(byte list \<Rightarrow> xml_node list option) \<Rightarrow> 64 word \<Rightarrow> recv_event list list \<Rightarrow> (session, bool) op" where
  "probe xml_parse before [] = gets (\<lambda>s. sessionStream s \<noteq> None)"
| "probe xml_parse before (evs # turns) =
     andthen (bnd (gets sessionRunning) (\<lambda>r. whenM r (threadProc xml_parse [evs])))
     (bnd (gets (\<lambda>s. nStreamDefRequestsReceived s \<noteq> before)) (\<lambda>b.
      if b then ret True else probe xml_parse before turns))"

definition verifyConnection :: "(byte list \<Rightarrow> xml_node list option) \<Rightarrow> byte list \<Rightarrow> recv_event list list \<Rightarrow> (session, bool) op" where
  "verifyConnection xml_parse suffix turns =
     bnd (gets (\<lambda>s. sessionStream s = None)) (\<lambda>gone.
     if gone then ret False
     else bnd (gets nStreamDefRequestsReceived) (\<lambda>before.
       bnd (requestGetDummyStream suffix) (\<lambda>_. probe xml_parse before (take 5 turns))))"

end
