(* ===== verification/SessionTheorems.thy ===== *)
theory SessionTheorems
  imports SessionHandler CacheTheorems MessageCodec
begin

text \<open>
  The session between the server and the catalog of streams. The first sections say what a request puts on the
  wire and what a read takes from it; then a reference encoding of the server's messages and the theorem that the
  session's thread decodes it, keeps the catalog of the client up to date and asks for what it does not know, however
  the network splits the bytes. The last section has the errors of the session.
\<close>

section \<open>What is written\<close>

definition writer_ok :: "writer \<Rightarrow> bool" where
  "writer_ok w \<longleftrightarrow> bufferStart w \<le> dataPtr w \<and> dataPtr w \<le> dataEnd w \<and> dataEnd w = bufferStart w + BASIC_WRITER_BUFFER_SIZE"

text \<open>The socket takes every byte, and the output is open.\<close>

definition connected :: "session \<Rightarrow> bool" where
  "connected s \<longleftrightarrow> sessionBuffer s = Allocated \<and> writer_ok (sessionWriter s) \<and> sessionSends s = [] \<and>
     (\<exists>t. sessionStream s = Some t \<and> \<not> outputClosed t)"

text \<open>The bytes on the wire and those waiting in the buffer.\<close>

definition wire_out :: "session \<Rightarrow> byte list" where
  "wire_out s = (case sessionStream s of None \<Rightarrow> [] | Some t \<Rightarrow> sent t) @ written (sessionWriter s)"

definition only_sent :: "tcp_state \<Rightarrow> tcp_state \<Rightarrow> bool" where
  "only_sent t t' \<longleftrightarrow> (\<exists>x n. t' = t\<lparr>sent := x, tcpBytesWritten := n\<rparr>)"

definition says :: "session \<Rightarrow> byte list \<Rightarrow> session \<Rightarrow> bool" where
  "says s bs s' \<longleftrightarrow> connected s \<and> connected s' \<and> wire_out s' = wire_out s @ bs \<and>
     (\<exists>t t' w'. sessionStream s = Some t \<and> only_sent t t' \<and> s' = s\<lparr>sessionStream := Some t', sessionWriter := w'\<rparr>)"

lemma only_sent_refl [simp]: "only_sent t t"
  unfolding only_sent_def by (cases t) (metis tcp_state.update_convs(3,4) tcp_state.surjective)

lemma only_sent_trans: "only_sent t t1 \<Longrightarrow> only_sent t1 t2 \<Longrightarrow> only_sent t t2"
  unfolding only_sent_def by (elim exE, intro exI) simp

lemma says_refl: "connected s \<Longrightarrow> says s [] s"
  unfolding says_def connected_def by (cases s) (auto intro!: exI [of _ "sessionWriter s"])

lemma says_trans: "says s bs s1 \<Longrightarrow> says s1 cs s2 \<Longrightarrow> says s (bs @ cs) s2"
  unfolding says_def using only_sent_trans by fastforce

lemma says_write:
  assumes c: "connected s" and m: "emits m bs x" and fits: "dataPtr (sessionWriter s) + length bs \<le> dataEnd (sessionWriter s)"
  shows "\<exists>s'. on_session_writer m s = (Inr x, s') \<and> says s bs s' \<and> sessionStream s' = sessionStream s \<and>
    dataPtr (sessionWriter s') = dataPtr (sessionWriter s) + length bs \<and> dataEnd (sessionWriter s') = dataEnd (sessionWriter s)"
proof -
  let ?w = "sessionWriter s"
  have w: "bufferStart ?w \<le> dataPtr ?w" "dataPtr ?w \<le> dataEnd ?w" "dataEnd ?w = bufferStart ?w + BASIC_WRITER_BUFFER_SIZE"
    using c by (auto simp: connected_def writer_ok_def)
  from emitsD(1) [OF m w(2) fits] obtain w' where w': "m ?w = (Inr x, w')" "grows ?w bs w'" by blast
  note g = growsD [OF w'(2)] and f = same_frameD [OF growsD(1) [OF w'(2)]]
  have 1: "on_session_writer m s = (Inr x, s\<lparr>sessionWriter := w'\<rparr>)"
    using c w'(1) by (simp add: on_session_writer_def connected_def)
  have "writer_ok w'" using w f g fits by (auto simp: writer_ok_def)
  then have "connected (s\<lparr>sessionWriter := w'\<rparr>)" using c by (simp add: connected_def)
  moreover have "wire_out (s\<lparr>sessionWriter := w'\<rparr>) = wire_out s @ bs"
    using grows_written [OF w'(2) w(1)] by (simp add: wire_out_def)
  moreover obtain t where t: "sessionStream s = Some t" using c by (auto simp: connected_def)
  moreover have "s\<lparr>sessionWriter := w'\<rparr> = s\<lparr>sessionStream := Some t, sessionWriter := w'\<rparr>" using t by (cases s) simp
  ultimately have "says s bs (s\<lparr>sessionWriter := w'\<rparr>)" using c only_sent_refl unfolding says_def by blast
  with 1 f g show ?thesis by auto
qed

lemma written_reset [simp]: "dataPtr w = bufferStart w \<Longrightarrow> written w = []"
  by (simp add: written_def)

lemma says_flush:
  assumes c: "connected s"
  shows "\<exists>s'. session_flushOutput s = (Inr (), s') \<and> says s [] s' \<and> dataPtr (sessionWriter s') = bufferStart (sessionWriter s')"
proof (cases "dataSize (sessionWriter s) = 0")
  case True
  then have "dataPtr (sessionWriter s) = bufferStart (sessionWriter s)"
    using c by (simp add: connected_def writer_ok_def dataSize_def)
  with True says_refl [OF c] show ?thesis by (simp add: session_flushOutput_def bnd_def)
next
  case False
  from c obtain t where t: "sessionStream s = Some t" "\<not> outputClosed t" by (auto simp: connected_def)
  let ?w = "sessionWriter s"
  have u: "session_unsent s = written ?w" by (simp add: session_unsent_def written_def dataSize_def)
  let ?t' = "t\<lparr>sent := sent t @ written ?w, tcpBytesWritten := tcpBytesWritten t + length (written ?w)\<rparr>"
  let ?s' = "s\<lparr>sessionStream := Some ?t', sessionWriter := ?w\<lparr>dataPtr := bufferStart ?w\<rparr>\<rparr>"
  have "session_flushOutput s = (Inr (), ?s')"
    using c t False
    by (simp add: session_flushOutput_def bnd_def andthen_def session_send_def u tcp_write_def connected_def
        on_session_writer_def resetPointer_def)
  moreover have "connected ?s'" using c t by (simp add: connected_def writer_ok_def)
  moreover have "wire_out ?s' = wire_out s" using t by (simp add: wire_out_def)
  moreover have "only_sent t ?t'" by (auto simp: only_sent_def)
  ultimately show ?thesis using c t(1) unfolding says_def by fastforce
qed

section \<open>Requests\<close>

lemma says_chain:
  assumes "says s bs s1" and "\<exists>s2. m s1 = (Inr (), s2) \<and> says s1 cs s2 \<and> P s2"
  shows "\<exists>s2. m s1 = (Inr (), s2) \<and> says s (bs @ cs) s2 \<and> P s2"
  using assms says_trans by blast

lemma connected_said: "says s bs s' \<Longrightarrow> connected s'"
  by (simp add: says_def)

lemma emits_string:
  "length key < 0xFFFF \<Longrightarrow> emits (writeUTF8_bytes key) (sized_string key) ()"
  using emits_utf8 [of "Some key"] by (simp add: writeUTF8_opt_def utf8_bytes_def sized_string_def)

lemma sized_string_length [simp]: "length (sized_string key) = length key + 2"
  by (simp add: sized_string_def)

lemma says_key:
  assumes c: "connected s" and k: "length key < 0xFFFF"
  shows "\<exists>s'. write_key key s = (Inr (), s') \<and> says s (sized_string key) s'"
proof -
  define s0 where "s0 = (if remaining (sessionWriter s) \<le> length key + 4 then snd (session_flushOutput s) else s)"
  have 0: "bnd (gets (\<lambda>s. remaining (sessionWriter s) \<le> length key + 4)) (\<lambda>full. whenM full session_flushOutput) s = (Inr (), s0)"
    and says0: "says s [] s0" and room: "dataPtr (sessionWriter s0) + length (sized_string key) \<le> dataEnd (sessionWriter s0)"
  proof -
    from says_flush [OF c] obtain s' where f: "session_flushOutput s = (Inr (), s')" "says s [] s'"
      "dataPtr (sessionWriter s') = bufferStart (sessionWriter s')" by blast
    have "connected s'" using f(2) by (simp add: says_def)
    then have "dataEnd (sessionWriter s') = bufferStart (sessionWriter s') + 0x11000"
      by (simp add: connected_def writer_ok_def BASIC_WRITER_BUFFER_SIZE_def)
    with f k c says_refl [OF c]
    show "bnd (gets (\<lambda>s. remaining (sessionWriter s) \<le> length key + 4)) (\<lambda>full. whenM full session_flushOutput) s = (Inr (), s0)"
      and "says s [] s0" and "dataPtr (sessionWriter s0) + length (sized_string key) \<le> dataEnd (sessionWriter s0)"
      by (auto simp: s0_def bnd_def remaining_def)
  qed
  from says_write [OF connected_said [OF says0] emits_string [OF k] room] obtain s' where
    1: "on_session_writer (writeUTF8_bytes key) s0 = (Inr (), s')" "says s0 (sized_string key) s'" by blast
  have "write_key key s = on_session_writer (writeUTF8_bytes key) s0"
    unfolding write_key_def seqs.simps by (rule andthen_ok) (rule 0)
  with 1(1) have "write_key key s = (Inr (), s')" by simp
  with says_trans [OF says0 1(2)] show ?thesis by auto
qed

lemma says_keys:
  assumes "connected s" and "list_all short_string keys"
  shows "\<exists>s'. mapM write_key keys s = (Inr (), s') \<and> says s (concat (map sized_string keys)) s'"
  using assms
proof (induction keys arbitrary: s)
  case Nil
  then show ?case using says_refl by simp
next
  case (Cons key keys)
  then have "length key < 0xFFFF" by (simp add: short_string_def)
  from says_key [OF Cons.prems(1) this] obtain s1 where 1: "write_key key s = (Inr (), s1)" "says s (sized_string key) s1" by blast
  from Cons.IH [OF connected_said [OF 1(2)]] Cons.prems(2) obtain s2 where
    2: "mapM write_key keys s1 = (Inr (), s2)" "says s1 (concat (map sized_string keys)) s2" by auto
  with 1 says_trans [OF 1(2) 2(2)] show ?case by (auto simp: andthen_ok)
qed

text \<open>Nothing waits in the buffer.\<close>

definition idle :: "session \<Rightarrow> bool" where
  "idle s \<longleftrightarrow> connected s \<and> dataPtr (sessionWriter s) = bufferStart (sessionWriter s)"

definition request_header :: "64 word \<Rightarrow> nat \<Rightarrow> byte list" where
  "request_header n k = be_bytes 4 REQ_GET_STREAMS @ be_bytes 8 n @ be_bytes 4 (of_nat k :: 32 word)"

definition request_bytes :: "64 word \<Rightarrow> byte list list \<Rightarrow> byte list" where
  "request_bytes n keys = request_header n (length keys) @ concat (map sized_string keys)"

text \<open>The head of a request fits into the buffer behind what is there when there is not much.\<close>

definition header_ops :: "nat \<Rightarrow> (session, unit) op" where
  "header_ops k = seqs
     [on_session_writer (writeUInt32 REQ_GET_STREAMS),
      modify (\<lambda>s. s\<lparr>nStreamDefRequestsSent := nStreamDefRequestsSent s + 1\<rparr>),
      bnd (gets nStreamDefRequestsSent) (\<lambda>n. on_session_writer (writeUInt64 n)),
      on_session_writer (writeUInt32 (of_nat k))]"

lemma connected_count [simp]: "connected (s\<lparr>nStreamDefRequestsSent := n\<rparr>) = connected s" "wire_out (s\<lparr>nStreamDefRequestsSent := n\<rparr>) = wire_out s"
  by (simp_all add: connected_def wire_out_def)

lemma says_header:
  assumes c: "connected s" and room: "dataPtr (sessionWriter s) + 16 \<le> dataEnd (sessionWriter s)"
  defines "n \<equiv> nStreamDefRequestsSent s + 1"
  shows "\<exists>s'. header_ops k s = (Inr (), s') \<and> says (s\<lparr>nStreamDefRequestsSent := n\<rparr>) (request_header n k) s' \<and>
    dataPtr (sessionWriter s') = dataPtr (sessionWriter s) + 16 \<and> dataEnd (sessionWriter s') = dataEnd (sessionWriter s)"
proof -
  have e: "emits (writeUInt32 v) (be_bytes 4 v) ()" "emits (writeUInt64 u) (be_bytes 8 u) ()" for v u
    by (simp_all add: writeUInt32_def writeUInt64_def emits_putUInt32 emits_putUInt64)
  from says_write [OF c e(1)] room obtain s1 where
    1: "on_session_writer (writeUInt32 REQ_GET_STREAMS) s = (Inr (), s1)" "says s (be_bytes 4 REQ_GET_STREAMS) s1"
      "dataPtr (sessionWriter s1) = dataPtr (sessionWriter s) + 4" "dataEnd (sessionWriter s1) = dataEnd (sessionWriter s)"
    by fastforce
  let ?s1 = "s1\<lparr>nStreamDefRequestsSent := n\<rparr>"
  have n1: "nStreamDefRequestsSent s1 + 1 = n" using 1(2) by (auto simp: says_def n_def)
  have s1: "says (s\<lparr>nStreamDefRequestsSent := n\<rparr>) (be_bytes 4 REQ_GET_STREAMS) ?s1"
  proof -
    from 1(2) obtain t t' w' where "sessionStream s = Some t" "only_sent t t'" "s1 = s\<lparr>sessionStream := Some t', sessionWriter := w'\<rparr>"
      by (auto simp: says_def)
    then have "\<exists>t t' w'. sessionStream (s\<lparr>nStreamDefRequestsSent := n\<rparr>) = Some t \<and> only_sent t t' \<and>
        ?s1 = s\<lparr>nStreamDefRequestsSent := n, sessionStream := Some t', sessionWriter := w'\<rparr>"
      by (intro exI [of _ t] exI [of _ t'] exI [of _ w']) simp
    with 1(2) show ?thesis by (simp add: says_def)
  qed
  from says_write [OF connected_said [OF s1] e(2) [of n]] room 1(3,4) obtain s2 where
    2: "on_session_writer (writeUInt64 n) ?s1 = (Inr (), s2)" "says ?s1 (be_bytes 8 n) s2"
      "dataPtr (sessionWriter s2) = dataPtr (sessionWriter s) + 12" "dataEnd (sessionWriter s2) = dataEnd (sessionWriter s)"
    by fastforce
  from says_write [OF connected_said [OF 2(2)] e(1) [of "of_nat k"]] room 2(3,4) obtain s3 where
    3: "on_session_writer (writeUInt32 (of_nat k)) s2 = (Inr (), s3)" "says s2 (be_bytes 4 (of_nat k :: 32 word)) s3"
      "dataPtr (sessionWriter s3) = dataPtr (sessionWriter s) + 16" "dataEnd (sessionWriter s3) = dataEnd (sessionWriter s)"
    by fastforce
  have "header_ops k s = (Inr (), s3)"
    using 1(1) 2(1) 3(1) n1 by (simp add: header_ops_def andthen_def bnd_def)
  moreover from says_trans [OF says_trans [OF s1 2(2)] 3(2)]
  have "says (s\<lparr>nStreamDefRequestsSent := n\<rparr>) (request_header n k) s3" by (simp add: request_header_def)
  ultimately show ?thesis using 3(3,4) by blast
qed

text \<open>A request goes out as one piece and leaves the buffer empty.\<close>

lemma request_goes_out:
  assumes c: "connected s" and room: "dataPtr (sessionWriter s) + 16 \<le> dataEnd (sessionWriter s)" and k: "list_all short_string keys"
  defines "n \<equiv> nStreamDefRequestsSent s + 1"
  shows "\<exists>s'. requestGetStreams keys s = (Inr n, s') \<and> says (s\<lparr>nStreamDefRequestsSent := n\<rparr>) (request_bytes n keys) s' \<and> idle s'"
proof -
  from says_header [OF c room, of "length keys"] obtain s1 where
    1: "header_ops (length keys) s = (Inr (), s1)" "says (s\<lparr>nStreamDefRequestsSent := n\<rparr>) (request_header n (length keys)) s1"
    unfolding n_def by blast
  from says_keys [OF connected_said [OF 1(2)] k] obtain s2 where
    2: "mapM write_key keys s1 = (Inr (), s2)" "says s1 (concat (map sized_string keys)) s2" by blast
  from says_flush [OF connected_said [OF 2(2)]] obtain s3 where
    3: "session_flushOutput s2 = (Inr (), s3)" "says s2 [] s3" "dataPtr (sessionWriter s3) = bufferStart (sessionWriter s3)" by blast
  from says_trans [OF says_trans [OF 1(2) 2(2)] 3(2)]
  have s: "says (s\<lparr>nStreamDefRequestsSent := n\<rparr>) (request_bytes n keys) s3" by (simp add: request_bytes_def)
  have "requestGetStreams keys = andthen (andthen (header_ops (length keys)) (andthen (mapM write_key keys) session_flushOutput)) (gets nStreamDefRequestsSent)"
    by (rule ext) (simp add: requestGetStreams_def header_ops_def andthen_def bnd_assoc)
  then have "requestGetStreams keys s = gets nStreamDefRequestsSent s3"
    using 1(1) 2(1) 3(1) by (simp add: andthen_def bnd_def)
  moreover have "nStreamDefRequestsSent s3 = n" using s by (auto simp: says_def)
  ultimately show ?thesis using s 3(3) connected_said [OF 3(2)] by (auto simp: idle_def)
qed

text \<open>Between idle states, what is said is what the socket has sent.\<close>

lemma idle_says:
  assumes "idle s" and "says s bs s'" and "idle s'"
  obtains t t' w' where "sessionStream s = Some t" "only_sent t t'" "sent t' = sent t @ bs"
    "s' = s\<lparr>sessionStream := Some t', sessionWriter := w'\<rparr>"
  using assms by (fastforce simp: says_def idle_def wire_out_def)

section \<open>What is read\<close>

definition only_read :: "tcp_state \<Rightarrow> tcp_state \<Rightarrow> bool" where
  "only_read t t' \<longleftrightarrow> sent t' = sent t \<and> outputClosed t' = outputClosed t"

definition hears :: "(session, 'a) op \<Rightarrow> byte list \<Rightarrow> 'a \<Rightarrow> bool" where
  "hears m bs x \<longleftrightarrow>
     (\<forall>s t rest. sessionStream s = Some t \<and> feeds t (bs @ rest) \<longrightarrow>
        (\<exists>t'. m s = (Inr x, s\<lparr>sessionStream := Some t'\<rparr>) \<and> feeds t' rest \<and> only_read t t'))"

lemma hearsD:
  assumes "hears m bs x" "sessionStream s = Some t" "feeds t (bs @ rest)"
  obtains t' where "m s = (Inr x, s\<lparr>sessionStream := Some t'\<rparr>)" "feeds t' rest" "only_read t t'"
  using assms unfolding hears_def by blast

lemma hears_ret: "hears (ret x) [] x"
  unfolding hears_def
proof (intro allI impI, elim conjE)
  fix s :: session and t rest
  assume "sessionStream s = Some t" "feeds t ([] @ rest)"
  then show "\<exists>t'. ret x s = (Inr x, s\<lparr>sessionStream := Some t'\<rparr>) \<and> feeds t' rest \<and> only_read t t'"
    by (intro exI [of _ t]) (cases s, simp add: only_read_def)
qed

lemma hears_bnd:
  assumes "hears m bs x" and "hears (f x) cs y"
  shows "hears (bnd m f) (bs @ cs) y"
  unfolding hears_def
proof (intro allI impI, elim conjE)
  fix s :: session and t rest
  assume s: "sessionStream s = Some t" "feeds t ((bs @ cs) @ rest)"
  from hearsD [OF assms(1) s(1), of "cs @ rest"] s(2) obtain t1 where
    1: "m s = (Inr x, s\<lparr>sessionStream := Some t1\<rparr>)" "feeds t1 (cs @ rest)" "only_read t t1" by auto
  from hearsD [OF assms(2) _ 1(2), of "s\<lparr>sessionStream := Some t1\<rparr>"] obtain t2 where
    2: "f x (s\<lparr>sessionStream := Some t1\<rparr>) = (Inr y, s\<lparr>sessionStream := Some t2\<rparr>)" "feeds t2 rest" "only_read t1 t2"
    by auto
  show "\<exists>t'. bnd m f s = (Inr y, s\<lparr>sessionStream := Some t'\<rparr>) \<and> feeds t' rest \<and> only_read t t'"
    using 1 2 by (auto simp: bnd_def only_read_def)
qed

lemma hears_last: "hears m bs x \<Longrightarrow> hears (bnd m (\<lambda>x. ret (f x))) bs (f x)"
  using hears_bnd [of m bs x "\<lambda>x. ret (f x)" "[]" "f x", OF _ hears_ret] by simp

lemma tcp_read_only:
  "tcp_read n k t = (r, t') \<Longrightarrow> only_read t t'"
  by (auto simp: tcp_read_def only_read_def split: if_splits prod.splits sum.splits)

lemma hears_bytes: "hears (session_read_bytes (length bs)) bs bs"
  unfolding hears_def
proof (intro allI impI, elim conjE)
  fix s :: session and t rest
  assume s: "sessionStream s = Some t" "feeds t (bs @ rest)"
  from tcp_read_feeds [OF s(2)] obtain t' where
    "tcp_read (length bs) (length bs) t = (Inr (length bs, bs), t')" "feeds t' rest" by blast
  with s(1) show "\<exists>t'. session_read_bytes (length bs) s = (Inr bs, s\<lparr>sessionStream := Some t'\<rparr>) \<and> feeds t' rest \<and> only_read t t'"
    by (auto simp: session_read_bytes_def dest: tcp_read_only)
qed

lemma hears_word:
  assumes "n = wbytes v" and "8 dvd LENGTH('w)"
  shows "hears (session_read n) (be_bytes n v) (v :: 'w::len word)"
  using hears_last [OF hears_bytes [of "be_bytes n v"], of "be_word :: byte list \<Rightarrow> 'w word"] assms
  by (simp add: session_read_def be_word_be_bytes)

lemma hears_utf8:
  assumes "short_string key"
  shows "hears session_readUTF8 (sized_string key) key"
proof -
  let ?n = "of_nat (length key) :: 16 word"
  have lt: "length key < 0xFFFF" using assms by (simp add: short_string_def)
  then have u: "unat ?n = length key" by (simp add: unat_of_nat)
  then have n: "?n \<noteq> 0xFFFF" "0 < ?n \<longleftrightarrow> key \<noteq> []"
    using lt by (auto simp: word_gt_0 unat_eq_zero)
  define after where "after = (\<lambda>len :: 16 word. if 0xFFFF \<noteq> len
      then (if 0 < len then bnd (session_read_bytes (unat len)) (\<lambda>bs. ret (Some bs)) else ret (Some [])) else ret None)"
  have "hears (after ?n) key (Some key)"
    using u n hears_last [OF hears_bytes [of key], of Some] hears_ret [of "Some []"] by (cases "key = []") (auto simp: after_def)
  from hears_bnd [of "session_read 2" _ _ after, OF hears_word this] have "hears session_readUTF8_into (sized_string key) (Some key)"
    by (simp add: session_readUTF8_into_def sized_string_def after_def)
  from hears_last [OF this, of "\<lambda>s. case s of None \<Rightarrow> [] | Some bs \<Rightarrow> bs"] show ?thesis
    by (simp add: session_readUTF8_def)
qed

lemma hears_property: "hears readPropertyId [p] p"
  using hears_word [of 1 p] by (simp add: readPropertyId_def be_bytes_1)

section \<open>The messages of the server\<close>

datatype session_message =
    DeletedMessage "byte list"
  | CreatedMessage "byte list"
  | RenamedMessage "byte list" "byte list"
  | PropertyChangedMessage "byte list" "8 word"
  | DefinitionsMessage "64 word" "byte list"
  | PropertyMessage "64 word" "byte list" "8 word" "byte list"
  | StreamsChangedMessage

definition text_properties :: "8 word set" where
  "text_properties = {NAME_PROPERTY, DESCRIPTION_PROPERTY, PERIODICITY_PROPERTY, KEY_PROPERTY, OWNER_PROPERTY}"

fun session_message_bytes :: "session_message \<Rightarrow> byte list" where
  "session_message_bytes (DeletedMessage key) = be_bytes 4 STREAM_DELETED @ sized_string key"
| "session_message_bytes (CreatedMessage key) = be_bytes 4 STREAM_CREATED @ sized_string key"
| "session_message_bytes (RenamedMessage oldKey newKey) = be_bytes 4 STREAM_RENAMED @ sized_string oldKey @ sized_string newKey"
| "session_message_bytes (PropertyChangedMessage key p) = be_bytes 4 STREAM_PROPERTY_CHANGED @ sized_string key @ [p]"
| "session_message_bytes (DefinitionsMessage n xml) =
     be_bytes 4 STREAMS_DEFINITION @ be_bytes 8 n @ be_bytes 4 (of_nat (length xml) :: 32 word) @ xml"
| "session_message_bytes (PropertyMessage n key p v) =
     be_bytes 4 STREAM_PROPERTY @ be_bytes 8 n @ sized_string key @ [p] @ (if p \<in> text_properties then sized_string v else [])"
| "session_message_bytes StreamsChangedMessage = be_bytes 4 STREAMS_CHANGED"

fun message_sendable :: "session_message \<Rightarrow> bool" where
  "message_sendable (DeletedMessage key) = short_string key"
| "message_sendable (CreatedMessage key) = short_string key"
| "message_sendable (RenamedMessage oldKey newKey) = (short_string oldKey \<and> short_string newKey)"
| "message_sendable (PropertyChangedMessage key p) = short_string key"
| "message_sendable (DefinitionsMessage n xml) = (int (length xml) < 2 ^ 31)"
| "message_sendable (PropertyMessage n key p v) = (short_string key \<and> short_string v \<and> p \<noteq> SCHEMA_PROPERTY)"
| "message_sendable StreamsChangedMessage = True"

text \<open>The definitions in a response; one that cannot be read has none.\<close>

definition definitions_of :: "(byte list \<Rightarrow> xml_node list option) \<Rightarrow> byte list \<Rightarrow> (byte list \<times> stream_options) list" where
  "definitions_of xml_parse xml =
     (if xml = [] then []
      else case xml_parse xml of
        None \<Rightarrow> []
      | Some doc \<Rightarrow> (case getStreams (Some (RootElement doc)) of None \<Rightarrow> [] | Some new \<Rightarrow> new))"

text \<open>What a message does to the catalog, which streams the client then asks for, and whether it answers a request.\<close>

fun follow :: "(byte list \<Rightarrow> xml_node list option) \<Rightarrow> (byte list \<rightharpoonup> stream_options) \<Rightarrow> session_message \<Rightarrow> (byte list \<rightharpoonup> stream_options)" where
  "follow xml_parse c (DeletedMessage key) = c(key := None)"
| "follow xml_parse c (RenamedMessage oldKey newKey) = c(oldKey := None)"
| "follow xml_parse c (DefinitionsMessage n xml) = foldl learn c (definitions_of xml_parse xml)"
| "follow xml_parse c m = c"

fun asks :: "session_message \<Rightarrow> byte list list option" where
  "asks (CreatedMessage key) = Some [key]"
| "asks (RenamedMessage oldKey newKey) = Some [newKey]"
| "asks (PropertyChangedMessage key p) = Some [key]"
| "asks StreamsChangedMessage = Some []"
| "asks m = None"

fun is_definitions :: "session_message \<Rightarrow> bool" where
  "is_definitions (DefinitionsMessage n xml) = True"
| "is_definitions m = False"

text \<open>The requests of the client, numbered one after another.\<close>

fun requests_for :: "64 word \<Rightarrow> session_message list \<Rightarrow> byte list" where
  "requests_for n [] = []"
| "requests_for n (m # ms) =
     (case asks m of None \<Rightarrow> requests_for n ms | Some keys \<Rightarrow> request_bytes (n + 1) keys @ requests_for (n + 1) ms)"

section \<open>The session, seen from outside\<close>

record session_view =
  toRead :: "byte list"
  knownStreams :: "byte list \<rightharpoonup> stream_options"
  wire :: "byte list"
  sentCount :: "64 word"
  receivedCount :: "64 word"
  neededKeys :: "byte list list"

definition views :: "session \<Rightarrow> session_view \<Rightarrow> bool" where
  "views s v \<longleftrightarrow> idle s \<and> cache_ok (sessionDb s) \<and> sessionRunning s \<and> \<not> sessionInterrupted s \<and> \<not> sessionShouldStop s \<and>
     (\<exists>t. sessionStream s = Some t \<and> feeds t (toRead v) \<and> sent t = wire v) \<and>
     catalog (sessionDb s) = knownStreams v \<and> nStreamDefRequestsSent s = sentCount v \<and>
     nStreamDefRequestsReceived s = receivedCount v \<and> neededStreamDefs s = neededKeys v"

lemma view_read:
  assumes v: "views s v" and m: "hears m bs x" and r: "toRead v = bs @ rest"
  shows "\<exists>s'. m s = (Inr x, s') \<and> views s' (v\<lparr>toRead := rest\<rparr>)"
proof -
  from v obtain t where t: "sessionStream s = Some t" "feeds t (bs @ rest)" "sent t = wire v"
    by (auto simp: views_def r)
  from hearsD [OF m t(1,2)] obtain t' where
    t': "m s = (Inr x, s\<lparr>sessionStream := Some t'\<rparr>)" "feeds t' rest" "only_read t t'" by blast
  have "views (s\<lparr>sessionStream := Some t'\<rparr>) (v\<lparr>toRead := rest\<rparr>)"
    using v t t' by (auto simp: views_def idle_def connected_def only_read_def)
  with t'(1) show ?thesis by blast
qed

lemma view_request:
  assumes v: "views s v" and k: "list_all short_string keys"
  shows "\<exists>s'. requestGetStreams keys s = (Inr (sentCount v + 1), s') \<and>
    views s' (v\<lparr>sentCount := sentCount v + 1, wire := wire v @ request_bytes (sentCount v + 1) keys\<rparr>)"
proof -
  let ?n = "nStreamDefRequestsSent s + 1"
  from v have i: "idle s" and c: "connected s" by (auto simp: views_def idle_def)
  then have "dataPtr (sessionWriter s) + 16 \<le> dataEnd (sessionWriter s)"
    by (simp add: idle_def connected_def writer_ok_def BASIC_WRITER_BUFFER_SIZE_def)
  from request_goes_out [OF c this k] obtain s' where
    1: "requestGetStreams keys s = (Inr ?n, s')" "says (s\<lparr>nStreamDefRequestsSent := ?n\<rparr>) (request_bytes ?n keys) s'" "idle s'" by blast
  have "idle (s\<lparr>nStreamDefRequestsSent := ?n\<rparr>)" using i by (simp add: idle_def)
  from idle_says [OF this 1(2,3)] obtain t t' w' where
    t: "sessionStream s = Some t" "only_sent t t'" "sent t' = sent t @ request_bytes ?n keys"
    "s' = s\<lparr>nStreamDefRequestsSent := ?n, sessionStream := Some t', sessionWriter := w'\<rparr>" by auto
  have "feeds t' b = feeds t b" for b using t(2) by (auto simp: only_sent_def feeds_def)
  with v t 1(3) have "views s' (v\<lparr>sentCount := sentCount v + 1, wire := wire v @ request_bytes (sentCount v + 1) keys\<rparr>)"
    by (auto simp: views_def)
  moreover have "?n = sentCount v + 1" using v by (simp add: views_def)
  ultimately show ?thesis using 1(1) by auto
qed

lemma view_deleted:
  assumes v: "views s v"
  shows "\<exists>s'. on_db (onStreamDeleted key) s = (Inr (), s') \<and> views s' (v\<lparr>knownStreams := (knownStreams v)(key := None)\<rparr>)"
proof -
  have "cache_ok (sessionDb s)" using v by (simp add: views_def)
  from cache.drop_ok [OF this, of key] obtain d' where
    "onStreamDeleted key (sessionDb s) = (Inr (), d')" "cache_ok d'" "catalog d' = (catalog (sessionDb s))(key := None)" by blast
  with v show ?thesis by (auto simp: on_db_def views_def idle_def connected_def)
qed

lemma view_learned:
  assumes v: "views s v"
  shows "\<exists>s'. mapM (\<lambda>i. on_db (learn_stream i)) new s = (Inr (), s') \<and> views s' (v\<lparr>knownStreams := foldl learn (knownStreams v) new\<rparr>)"
proof -
  have on: "mapM (\<lambda>i. on_db (learn_stream i)) new s = on_db (mapM learn_stream new) s" for s
    by (induction new arbitrary: s) (auto simp: on_db_def andthen_def bnd_def split: prod.splits sum.splits)
  have "cache_ok (sessionDb s)" using v by (simp add: views_def)
  from cache.add_all [OF this, of new] obtain d' where
    d': "mapM learn_stream new (sessionDb s) = (Inr (), d')" "cache_ok d'" "catalog d' = foldl learn (catalog (sessionDb s)) new" by blast
  have "mapM (\<lambda>i. on_db (learn_stream i)) new s = (Inr (), s\<lparr>sessionDb := d'\<rparr>)"
    unfolding on by (simp add: on_db_def d'(1))
  moreover have "views (s\<lparr>sessionDb := d'\<rparr>) (v\<lparr>knownStreams := foldl learn (knownStreams v) new\<rparr>)"
    using v d' by (auto simp: views_def idle_def connected_def)
  ultimately show ?thesis by blast
qed

lemma view_need: "views s v \<Longrightarrow> \<exists>s'. need key s = (Inr (), s') \<and> views s' (v\<lparr>neededKeys := set_add key (neededKeys v)\<rparr>)"
  by (auto simp: need_def views_def idle_def connected_def)

lemma view_known:
  "views s v \<Longrightarrow> \<exists>s'. mapM (\<lambda>i. modify (\<lambda>s. s\<lparr>knownStreamDefs := set_add (fst i) (knownStreamDefs s)\<rparr>)) new s = (Inr (), s') \<and> views s' v"
proof (induction new arbitrary: s)
  case (Cons i new)
  have "views (s\<lparr>knownStreamDefs := set_add (fst i) (knownStreamDefs s)\<rparr>) v"
    using Cons.prems by (auto simp: views_def idle_def connected_def)
  from Cons.IH [OF this] show ?case by (simp add: andthen_def bnd_def)
qed simp

lemma view_count:
  "views s v \<Longrightarrow> views (s\<lparr>nStreamDefRequestsReceived := nStreamDefRequestsReceived s + 1\<rparr>) (v\<lparr>receivedCount := receivedCount v + 1\<rparr>)"
  "views s v \<Longrightarrow> views (s\<lparr>nPropertyRequestsReceived := n\<rparr>) v"
  by (auto simp: views_def idle_def connected_def)

section \<open>Commands\<close>

text \<open>The command that a turn reads, however its four bytes are split.\<close>

lemma view_command:
  assumes v: "views s v" and r: "toRead v = be_bytes 4 (c :: 32 word) @ rest"
  shows "\<exists>s'. input_body xml_parse s = session_command xml_parse c s' \<and> views s' (v\<lparr>toRead := rest\<rparr>)"
proof -
  from v obtain t where t: "sessionStream s = Some t" "feeds t (be_bytes 4 c @ rest)" "sent t = wire v"
    by (auto simp: views_def r)
  have ok: "tcp_ok t" "tcp_avail t = be_bytes 4 c @ rest"
    using t(2) chunks_no_shutdown by (auto simp: feeds_def tcp_ok_def tcp_avail_def)
  have len: "length (be_bytes 4 c) = 4" by simp
  from tcp_read_enough [OF ok(1), of 1 4] ok(2) len obtain k t1 where
    k: "tcp_read 1 4 t = (Inr (k, take k (be_bytes 4 c @ rest)), t1)" "1 \<le> k" "k \<le> 4"
      "tcp_avail t1 = drop k (be_bytes 4 c @ rest)" "tcp_ok t1" by auto
  let ?bs = "take k (be_bytes 4 c)" and ?cs = "drop k (be_bytes 4 c)"
  have bs: "take k (be_bytes 4 c @ rest) = ?bs" "length ?bs = k" "drop k (be_bytes 4 c @ rest) = ?cs @ rest"
    using k(3) len by simp_all
  have "list_all data_event (incoming t1)"
    using k(1) t(2) recv_loop_chunks by (auto simp: tcp_read_def feeds_def split: if_splits prod.splits sum.splits)
  then have f1: "feeds t1 (?cs @ rest)" using k(3,4,5) by (simp add: feeds_def tcp_ok_def tcp_avail_def)
  have "incoming t \<noteq> []"
  proof
    assume "incoming t = []"
    then have "be_bytes 4 c @ rest = []" using t(2) by (simp add: feeds_def)
    with len show False by simp
  qed
  then have got: "tcp_tryRead 4 t = (Inr (k, ?bs), t1)"
    using k(1,3) t(2) by (simp add: tcp_tryRead_def feeds_def)
  let ?s1 = "s\<lparr>sessionStream := Some t1\<rparr>"
  have v1: "views ?s1 (v\<lparr>toRead := ?cs @ rest\<rparr>)"
    using v t f1 tcp_read_only [OF k(1)] by (auto simp: views_def idle_def connected_def only_read_def)
  have h: "hears (if k < 4 then session_read_bytes (4 - k) else ret []) ?cs ?cs"
    using hears_bytes [of ?cs] hears_ret [of "[] :: byte list"] k(3) len by auto
  from view_read [OF v1 h, of rest] obtain s2 where
    2: "(if k < 4 then session_read_bytes (4 - k) else ret []) ?s1 = (Inr ?cs, s2)" "views s2 (v\<lparr>toRead := rest\<rparr>)" by auto
  have "?bs @ ?cs = be_bytes 4 c" by simp
  then have w: "be_word (?bs @ ?cs) = c" by (simp only: be_word_be_bytes) simp
  have "input_body xml_parse s = bnd (if k < 4 then session_read_bytes (4 - k) else ret []) (\<lambda>cs. session_command xml_parse (be_word (?bs @ cs))) ?s1"
    using t(1) got k(2) bs(2) by (simp add: input_body_def)
  also have "\<dots> = session_command xml_parse c s2" unfolding bnd_def 2(1) by (simp only: prod.case sum.case w)
  finally show ?thesis using 2(2) by blast
qed

lemma bnd_views:
  assumes "\<exists>s1. m s = (Inr x, s1) \<and> views s1 v1" and "\<And>s1. views s1 v1 \<Longrightarrow> \<exists>s2. f x s1 = (Inr y, s2) \<and> views s2 v2"
  shows "\<exists>s2. bnd m f s = (Inr y, s2) \<and> views s2 v2"
  using assms by (force simp: bnd_def)

lemma andthen_views:
  assumes "\<exists>s1. m s = (Inr x, s1) \<and> views s1 v1" and "\<And>s1. views s1 v1 \<Longrightarrow> \<exists>s2. n s1 = (Inr y, s2) \<and> views s2 v2"
  shows "\<exists>s2. andthen m n s = (Inr y, s2) \<and> views s2 v2"
  unfolding andthen_def by (rule bnd_views, rule assms(1), erule assms(2))

lemma ret_views: "views s v \<Longrightarrow> \<exists>s'. ret x s = (Inr x, s') \<and> views s' v"
  by simp

text \<open>The result of the turn's input when a message was processed, as a change of the view.\<close>

definition processes :: "(byte list \<Rightarrow> xml_node list option) \<Rightarrow> session_message \<Rightarrow> (session_view \<Rightarrow> session_view) \<Rightarrow> bool" where
  "processes xml_parse m g \<longleftrightarrow>
     (\<forall>s v rest. views s v \<and> toRead v = session_message_bytes m @ rest \<longrightarrow>
        (\<exists>s'. processInput xml_parse s = (Inr OK, s') \<and> views s' (g (v\<lparr>toRead := rest\<rparr>))))"

lemma processesI:
  assumes bytes: "session_message_bytes m = be_bytes 4 (c :: 32 word) @ payload"
    and step: "\<And>s v rest. views s v \<Longrightarrow> toRead v = payload @ rest \<Longrightarrow>
      \<exists>r s'. session_command xml_parse c s = (r, s') \<and> (r = Inr OK \<or> (\<exists>e. r = Inl (RuntimeError e))) \<and> views s' (g (v\<lparr>toRead := rest\<rparr>))"
  shows "processes xml_parse m g"
  unfolding processes_def
proof (intro allI impI, elim conjE)
  fix s v rest
  assume v: "views s v" and r: "toRead v = session_message_bytes m @ rest"
  then have "toRead v = be_bytes 4 c @ (payload @ rest)" by (simp add: bytes)
  from view_command [OF v this, of xml_parse] obtain s1 where
    1: "input_body xml_parse s = session_command xml_parse c s1" "views s1 (v\<lparr>toRead := payload @ rest\<rparr>)" by blast
  from step [OF 1(2), of rest] obtain r s' where
    2: "session_command xml_parse c s1 = (r, s')" "r = Inr OK \<or> (\<exists>e. r = Inl (RuntimeError e))" "views s' (g (v\<lparr>toRead := rest\<rparr>))"
    by auto
  have "\<not> sessionInterrupted s" "sessionStream s \<noteq> None" using v by (auto simp: views_def)
  with 1(1) 2 show "\<exists>s'. processInput xml_parse s = (Inr OK, s') \<and> views s' (g (v\<lparr>toRead := rest\<rparr>))"
    by (auto simp: processInput_def on_input_exception_def runtime_error_def)
qed

lemmas commands = STREAM_PROPERTY_CHANGED_def STREAM_DELETED_def STREAM_CREATED_def STREAM_RENAMED_def
  STREAMS_DEFINITION_def STREAM_PROPERTY_def SESSION_CLOSED_def STREAMS_CHANGED_def

lemma processes_ok:
  assumes "session_message_bytes m = be_bytes 4 (c :: 32 word) @ payload"
    and "session_command xml_parse c = op1"
    and "\<And>s v rest. views s v \<Longrightarrow> toRead v = payload @ rest \<Longrightarrow> \<exists>s'. op1 s = (Inr OK, s') \<and> views s' (g (v\<lparr>toRead := rest\<rparr>))"
  shows "processes xml_parse m g"
  by (rule processesI [OF assms(1)]) (use assms(2,3) in metis)

lemma bnd_reads:
  assumes "views s v" and "hears m bs x" and "toRead v = bs @ rest"
    and "\<And>s1. views s1 (v\<lparr>toRead := rest\<rparr>) \<Longrightarrow> \<exists>s2. f x s1 = (Inr y, s2) \<and> views s2 v2"
  shows "\<exists>s2. bnd m f s = (Inr y, s2) \<and> views s2 v2"
  by (rule bnd_views, rule view_read [OF assms(1,2,3)], erule assms(4))

lemma processes_deleted:
  assumes "short_string key"
  shows "processes xml_parse (DeletedMessage key) (\<lambda>v. v\<lparr>knownStreams := (knownStreams v)(key := None)\<rparr>)"
proof (rule processes_ok)
  show "session_command xml_parse STREAM_DELETED = receive_STREAM_DELETED" by (rule ext) (simp add: session_command_def commands)
  fix s v rest
  assume v: "views s v" "toRead v = sized_string key @ rest"
  let ?v = "v\<lparr>toRead := rest\<rparr>"
  show "\<exists>s'. receive_STREAM_DELETED s = (Inr OK, s') \<and> views s' (?v\<lparr>knownStreams := (knownStreams ?v)(key := None)\<rparr>)"
    unfolding receive_STREAM_DELETED_def
    by (rule bnd_reads [OF v(1) hears_utf8 [OF assms] v(2)], rule andthen_views, erule view_deleted, erule ret_views)
qed simp

lemma processes_created:
  assumes "short_string key"
  shows "processes xml_parse (CreatedMessage key) (\<lambda>v. v\<lparr>neededKeys := set_add key (neededKeys v)\<rparr>)"
proof (rule processes_ok)
  show "session_command xml_parse STREAM_CREATED = receive_STREAM_CREATED" by (rule ext) (simp add: session_command_def commands)
  fix s v rest
  assume v: "views s v" "toRead v = sized_string key @ rest"
  let ?v = "v\<lparr>toRead := rest\<rparr>"
  show "\<exists>s'. receive_STREAM_CREATED s = (Inr OK, s') \<and> views s' (?v\<lparr>neededKeys := set_add key (neededKeys ?v)\<rparr>)"
    unfolding receive_STREAM_CREATED_def
    by (rule bnd_reads [OF v(1) hears_utf8 [OF assms] v(2)], rule andthen_views, erule view_need, erule ret_views)
qed simp

lemma processes_renamed:
  assumes "short_string k1" "short_string k2"
  shows "processes xml_parse (RenamedMessage k1 k2)
    (\<lambda>v. v\<lparr>knownStreams := (knownStreams v)(k1 := None), neededKeys := set_add k2 (neededKeys v)\<rparr>)"
proof (rule processes_ok)
  show "session_command xml_parse STREAM_RENAMED = receive_STREAM_RENAMED" by (rule ext) (simp add: session_command_def commands)
  fix s v rest
  assume v: "views s v" "toRead v = (sized_string k1 @ sized_string k2) @ rest"
  let ?v = "v\<lparr>toRead := rest\<rparr>" and ?v1 = "v\<lparr>toRead := sized_string k2 @ rest\<rparr>"
  let ?v2 = "?v1\<lparr>toRead := rest\<rparr>\<lparr>knownStreams := (knownStreams v)(k1 := None)\<rparr>"
  have 2: "\<exists>s'. andthen (on_db (onStreamDeleted k1)) (andthen (need k2) (ret OK)) s2 = (Inr OK, s') \<and>
      views s' (?v2\<lparr>neededKeys := set_add k2 (neededKeys v)\<rparr>)" if "views s2 (?v1\<lparr>toRead := rest\<rparr>)" for s2
    by (rule andthen_views [where ?v1.0 = ?v2], use view_deleted [OF that, of k1] in simp, rule andthen_views, erule view_need, simp)
  have "\<exists>s'. receive_STREAM_RENAMED s = (Inr OK, s') \<and> views s' (?v2\<lparr>neededKeys := set_add k2 (neededKeys v)\<rparr>)"
    unfolding receive_STREAM_RENAMED_def
    by (rule bnd_reads [OF v(1) hears_utf8 [OF assms(1)], of "sized_string k2 @ rest"], simp add: v(2),
        rule bnd_reads [OF _ hears_utf8 [OF assms(2)], of _ _ rest], assumption, simp, erule 2)
  then show "\<exists>s'. receive_STREAM_RENAMED s = (Inr OK, s') \<and>
      views s' (?v\<lparr>knownStreams := (knownStreams ?v)(k1 := None), neededKeys := set_add k2 (neededKeys ?v)\<rparr>)"
    by simp
qed simp

definition asked :: "byte list list \<Rightarrow> session_view \<Rightarrow> session_view" where
  "asked keys v = v\<lparr>sentCount := sentCount v + 1, wire := wire v @ request_bytes (sentCount v + 1) keys\<rparr>"

lemma view_asked:
  "views s v \<Longrightarrow> list_all short_string keys \<Longrightarrow> \<exists>s'. bnd (requestGetStreams keys) (\<lambda>_. ret x) s = (Inr x, s') \<and> views s' (asked keys v)"
  by (rule bnd_views, rule view_request, assumption+, simp add: asked_def)

lemma processes_property_changed:
  assumes "short_string key"
  shows "processes xml_parse (PropertyChangedMessage key p) (asked [key])"
proof (rule processes_ok)
  show "session_command xml_parse STREAM_PROPERTY_CHANGED = receive_STREAM_PROPERTY_CHANGED"
    by (rule ext) (simp add: session_command_def commands)
  fix s v rest
  assume v: "views s v" "toRead v = (sized_string key @ [p]) @ rest"
  let ?v1 = "v\<lparr>toRead := [p] @ rest\<rparr>"
  have "\<exists>s'. receive_STREAM_PROPERTY_CHANGED s = (Inr OK, s') \<and> views s' (asked [key] (?v1\<lparr>toRead := rest\<rparr>))"
    unfolding receive_STREAM_PROPERTY_CHANGED_def requestGetStream_def
    by (rule bnd_reads [OF v(1) hears_utf8 [OF assms], of "[p] @ rest"], simp add: v(2),
        rule bnd_reads [OF _ hears_property [of p], of _ _ rest], assumption, simp, erule view_asked, simp add: assms)
  then show "\<exists>s'. receive_STREAM_PROPERTY_CHANGED s = (Inr OK, s') \<and> views s' (asked [key] (v\<lparr>toRead := rest\<rparr>))" by simp
qed simp

lemma processes_changed: "processes xml_parse StreamsChangedMessage (asked [])"
proof (rule processes_ok)
  show "session_command xml_parse STREAMS_CHANGED = receive_STREAMS_CHANGED"
    by (rule ext) (simp add: session_command_def commands)
  fix s v rest
  assume v: "views s v" "toRead v = [] @ rest"
  then have "views s (v\<lparr>toRead := rest\<rparr>)" by (cases v) simp
  then show "\<exists>s'. receive_STREAMS_CHANGED s = (Inr OK, s') \<and> views s' (asked [] (v\<lparr>toRead := rest\<rparr>))"
    unfolding receive_STREAMS_CHANGED_def by (rule view_asked) simp
qed simp

lemma hears_if: "hears m bs x \<Longrightarrow> hears n cs x \<Longrightarrow> hears (if b then m else n) (if b then bs else cs) x"
  by simp

lemma processes_property:
  assumes "short_string key" "short_string x" "p \<noteq> SCHEMA_PROPERTY"
  shows "processes xml_parse (PropertyMessage n key p x) (\<lambda>v. v)"
proof (rule processes_ok)
  show "session_command xml_parse STREAM_PROPERTY = receive_STREAM_PROPERTY"
    by (rule ext) (simp add: session_command_def commands)
  fix s v rest
  let ?x = "if p \<in> text_properties then sized_string x else []"
  assume v: "views s v" "toRead v = (be_bytes 8 n @ sized_string key @ [p] @ ?x) @ rest"
  let ?v = "v\<lparr>toRead := rest\<rparr>"
  have string: "hears (bnd session_readUTF8 (\<lambda>_. ret ())) (sized_string x) ()"
    using hears_last [OF hears_utf8 [OF assms(2)], of "\<lambda>_. ()"] by simp
  have h: "hears property_body (be_bytes 8 n @ sized_string key @ [p] @ ?x) ()"
    unfolding property_body_def
  proof (rule hears_bnd [OF hears_word hears_bnd [OF hears_utf8 [OF assms(1)] hears_bnd [OF hears_property]]])
    show "hears (if p \<in> {NAME_PROPERTY, DESCRIPTION_PROPERTY, PERIODICITY_PROPERTY, KEY_PROPERTY, OWNER_PROPERTY}
       then bnd session_readUTF8 (\<lambda>_. ret ())
       else if p = SCHEMA_PROPERTY then bnd (session_read 1) (\<lambda>_ :: 8 word. bnd session_readUTF8 (\<lambda>_. ret ())) else ret ()) ?x ()"
      unfolding text_properties_def by (rule hears_if, rule string) (use hears_ret [of "()"] assms(3) in simp)
  qed simp_all
  from view_read [OF v(1) h v(2)] obtain s1 where "property_body s = (Inr (), s1)" "views s1 ?v" by blast
  with view_count(2) [of s1 ?v] show "\<exists>s'. receive_STREAM_PROPERTY s = (Inr OK, s') \<and> views s' ?v"
    by (simp add: receive_STREAM_PROPERTY_def)
qed simp

lemma small_size:
  assumes "int (length xml) < 2 ^ 31"
  shows "(scast (of_nat (length xml) :: 32 word) :: 64 word) = of_nat (length xml)"
    and "unat (of_nat (length xml) :: 64 word) = length xml"
proof -
  have "sint (of_nat (length xml) :: 32 word) = int (length xml)"
    using assms by (simp add: signed_of_nat signed_take_bit_int_eq_self)
  moreover have "(scast (of_nat (length xml) :: 32 word) :: 64 word) = of_int (sint (of_nat (length xml) :: 32 word))"
    by (rule of_int_sint [symmetric])
  ultimately show "(scast (of_nat (length xml) :: 32 word) :: 64 word) = of_nat (length xml)" by (simp only: of_int_of_nat_eq)
  show "unat (of_nat (length xml) :: 64 word) = length xml" using assms by (simp add: unat_of_nat)
qed

lemma parse_definitions_run:
  assumes "xml \<noteq> []"
  obtains (unreadable) e where "parse_definitions xml_parse xml s = (Inl (RuntimeError e), s)" "definitions_of xml_parse xml = []"
    | (readable) "parse_definitions xml_parse xml s = (Inr (definitions_of xml_parse xml), s)"
proof (cases "xml_parse xml")
  case None
  with assms unreadable show thesis by (simp add: parse_definitions_def definitions_of_def XmlInput_parse_def)
next
  case (Some doc)
  with assms that show thesis
    by (cases "getStreams (Some (RootElement doc))") (simp_all add: parse_definitions_def definitions_of_def XmlInput_parse_def)
qed

lemma processes_definitions:
  assumes "int (length xml) < 2 ^ 31"
  shows "processes xml_parse (DefinitionsMessage n xml)
    (\<lambda>v. v\<lparr>knownStreams := foldl learn (knownStreams v) (definitions_of xml_parse xml), receivedCount := receivedCount v + 1\<rparr>)"
proof (rule processesI)
  let ?n = "of_nat (length xml) :: 32 word"
  show "session_message_bytes (DefinitionsMessage n xml) = be_bytes 4 STREAMS_DEFINITION @ (be_bytes 8 n @ be_bytes 4 ?n @ xml)" by simp
  fix s v rest
  assume v: "views s v" "toRead v = (be_bytes 8 n @ be_bytes 4 ?n @ xml) @ rest"
  let ?v = "v\<lparr>toRead := rest\<rparr>" and ?new = "definitions_of xml_parse xml"
  let ?v' = "?v\<lparr>knownStreams := foldl learn (knownStreams v) ?new\<rparr>"
  note size = small_size [OF assms]
  have body: "\<exists>r s'. definitions_body xml_parse s = (r, s') \<and> (r = Inr () \<or> (\<exists>e. r = Inl (RuntimeError e))) \<and> views s' ?v'"
  proof -
    define after where "after = (\<lambda>n :: 32 word. let sz = scast n :: 64 word in
     if sz = 0 then ret ()
     else if 2 ^ 31 - 1 < sz then throw (RuntimeError ''receive_STREAMS_DEFINITION(): ERR: XML size is too big'')
     else bnd (session_read_bytes (unat sz)) (\<lambda>xml.
       bnd (parse_definitions xml_parse xml) (\<lambda>newStreams.
       andthen (mapM (\<lambda>i. on_db (learn_stream i)) newStreams)
       (mapM (\<lambda>i. modify (\<lambda>s. s\<lparr>knownStreamDefs := set_add (fst i) (knownStreamDefs s)\<rparr>)) newStreams))))"
    have "hears (bnd (session_read 8) (\<lambda>i :: 64 word. session_read 4)) (be_bytes 8 n @ be_bytes 4 ?n) ?n"
      by (rule hears_bnd [OF hears_word hears_word]) simp_all
    from view_read [OF v(1) this, of "xml @ rest"] v(2) obtain s1 where
      1: "bnd (session_read 8) (\<lambda>i :: 64 word. session_read 4) s = (Inr ?n, s1)" "views s1 (v\<lparr>toRead := xml @ rest\<rparr>)" by auto
    have "definitions_body xml_parse = bnd (bnd (session_read 8) (\<lambda>i :: 64 word. session_read 4)) after"
      by (simp add: definitions_body_def after_def bnd_assoc)
    then have run: "definitions_body xml_parse s = after ?n s1" using 1(1) by (simp add: bnd_def)
    show ?thesis
    proof (cases "xml = []")
      case True
      with 1(2) run show ?thesis by (simp add: after_def definitions_of_def)
    next
      case False
      have lim: "(of_nat (length xml) :: 64 word) \<noteq> 0" "\<not> 2 ^ 31 - 1 < (of_nat (length xml) :: 64 word)"
        using False assms size(2) by (auto simp: unat_eq_zero [symmetric] word_less_nat_alt)
      from view_read [OF 1(2) hears_bytes [of xml], of rest] obtain s2 where
        2: "session_read_bytes (length xml) s1 = (Inr xml, s2)" "views s2 ?v" by auto
      have run2: "definitions_body xml_parse s = bnd (parse_definitions xml_parse xml) (\<lambda>newStreams.
         andthen (mapM (\<lambda>i. on_db (learn_stream i)) newStreams)
         (mapM (\<lambda>i. modify (\<lambda>s. s\<lparr>knownStreamDefs := set_add (fst i) (knownStreamDefs s)\<rparr>)) newStreams)) s2"
        using lim 2(1) unfolding run after_def size(1) Let_def by (simp add: size(2) bnd_ok)
      show ?thesis
      proof (cases rule: parse_definitions_run [OF False, of xml_parse s2, case_names unreadable readable])
        case unreadable
        with 2(2) show ?thesis unfolding run2 by (simp add: bnd_err)
      next
        case p: readable
        from view_learned [OF 2(2), of ?new] obtain s3 where
          3: "mapM (\<lambda>i. on_db (learn_stream i)) ?new s2 = (Inr (), s3)" "views s3 ?v'" by auto
        from view_known [OF 3(2), of ?new] obtain s4 where
          4: "mapM (\<lambda>i. modify (\<lambda>s. s\<lparr>knownStreamDefs := set_add (fst i) (knownStreamDefs s)\<rparr>)) ?new s3 = (Inr (), s4)" "views s4 ?v'" by blast
        have "definitions_body xml_parse s = (Inr (), s4)"
          unfolding run2 bnd_def andthen_def p prod.case sum.case 3(1) 4(1) ..
        with 4(2) show ?thesis by blast
      qed
    qed
  qed
  then obtain r s' where r: "definitions_body xml_parse s = (r, s')" "r = Inr () \<or> (\<exists>e. r = Inl (RuntimeError e))" "views s' ?v'" by blast
  have "views (s'\<lparr>nStreamDefRequestsReceived := nStreamDefRequestsReceived s' + 1\<rparr>) (?v'\<lparr>receivedCount := receivedCount ?v' + 1\<rparr>)"
    by (rule view_count(1) [OF r(3)])
  then show "\<exists>r s'. session_command xml_parse STREAMS_DEFINITION s = (r, s') \<and> (r = Inr OK \<or> (\<exists>e. r = Inl (RuntimeError e))) \<and>
      views s' (?v\<lparr>knownStreams := foldl learn (knownStreams ?v) ?new, receivedCount := receivedCount ?v + 1\<rparr>)"
    using r(1,2) by (auto simp: session_command_def commands receive_STREAMS_DEFINITION_def)
qed

section \<open>Turns\<close>

fun input_effect :: "(byte list \<Rightarrow> xml_node list option) \<Rightarrow> session_message \<Rightarrow> session_view \<Rightarrow> session_view" where
  "input_effect xml_parse (DeletedMessage key) = (\<lambda>v. v\<lparr>knownStreams := (knownStreams v)(key := None)\<rparr>)"
| "input_effect xml_parse (CreatedMessage key) = (\<lambda>v. v\<lparr>neededKeys := set_add key (neededKeys v)\<rparr>)"
| "input_effect xml_parse (RenamedMessage k1 k2) = (\<lambda>v. v\<lparr>knownStreams := (knownStreams v)(k1 := None), neededKeys := set_add k2 (neededKeys v)\<rparr>)"
| "input_effect xml_parse (PropertyChangedMessage key p) = asked [key]"
| "input_effect xml_parse (DefinitionsMessage n xml) = (\<lambda>v. v\<lparr>knownStreams := foldl learn (knownStreams v) (definitions_of xml_parse xml), receivedCount := receivedCount v + 1\<rparr>)"
| "input_effect xml_parse (PropertyMessage n key p x) = (\<lambda>v. v)"
| "input_effect xml_parse StreamsChangedMessage = asked []"

lemma processes_message: "message_sendable m \<Longrightarrow> processes xml_parse m (input_effect xml_parse m)"
  by (cases m) (simp_all add: processes_deleted processes_created processes_renamed processes_property_changed
      processes_definitions processes_property processes_changed)

text \<open>A turn leaves no key to be requested.\<close>

definition turn_effect :: "(byte list \<Rightarrow> xml_node list option) \<Rightarrow> session_message \<Rightarrow> session_view \<Rightarrow> session_view" where
  "turn_effect xml_parse m v =
     (let v1 = v\<lparr>knownStreams := follow xml_parse (knownStreams v) m, receivedCount := receivedCount v + of_bool (is_definitions m)\<rparr>
      in case asks m of None \<Rightarrow> v1 | Some keys \<Rightarrow> asked keys v1)"

lemma view_requests_needed:
  assumes v: "views s v" and k: "neededKeys v = [] \<or> (\<exists>key. neededKeys v = [key] \<and> short_string key)"
  shows "\<exists>s'. request_needed s = (Inr (), s') \<and>
    views s' (if neededKeys v = [] then v else asked (neededKeys v) (v\<lparr>neededKeys := []\<rparr>))"
  using k
proof
  assume "neededKeys v = []"
  with v show ?thesis by (simp add: request_needed_def bnd_def) (simp add: views_def)
next
  assume "\<exists>key. neededKeys v = [key] \<and> short_string key"
  then obtain key where key: "neededKeys v = [key]" "short_string key" by blast
  let ?s = "s\<lparr>neededStreamDefs := []\<rparr>"
  have "views ?s (v\<lparr>neededKeys := []\<rparr>)" using v by (auto simp: views_def idle_def connected_def)
  from view_asked [OF this, of "[key]" "()"] key(2) obtain s' where
    "bnd (requestGetStreams [key]) (\<lambda>_. ret ()) ?s = (Inr (), s')" "views s' (asked [key] (v\<lparr>neededKeys := []\<rparr>))" by auto
  moreover have "neededStreamDefs s = [key]" using v key by (simp add: views_def)
  ultimately show ?thesis using key(1)
    by (simp add: request_needed_def bnd_def andthen_def set_remove_def)
qed

lemma view_turn:
  assumes v: "views s v" and r: "toRead v = session_message_bytes m @ rest" and n: "neededKeys v = []" and ok: "message_sendable m"
  shows "\<exists>s'. session_turn xml_parse s = (Inr True, s') \<and> views s' (turn_effect xml_parse m (v\<lparr>toRead := rest\<rparr>)) \<and> neededKeys (turn_effect xml_parse m (v\<lparr>toRead := rest\<rparr>)) = []"
proof -
  from processes_message [OF ok, of xml_parse] v r obtain s1 where
    1: "processInput xml_parse s = (Inr OK, s1)" "views s1 (input_effect xml_parse m (v\<lparr>toRead := rest\<rparr>))"
    unfolding processes_def by blast
  let ?v = "v\<lparr>toRead := rest\<rparr>" and ?v1 = "input_effect xml_parse m (v\<lparr>toRead := rest\<rparr>)"
  have "neededKeys ?v1 = [] \<or> (\<exists>key. neededKeys ?v1 = [key] \<and> short_string key)"
    using n ok by (cases m) (simp_all add: set_add_def asked_def)
  from view_requests_needed [OF 1(2) this] obtain s2 where
    2: "request_needed s1 = (Inr (), s2)" "views s2 (if neededKeys ?v1 = [] then ?v1 else asked (neededKeys ?v1) (?v1\<lparr>neededKeys := []\<rparr>))"
    by blast
  have "(if neededKeys ?v1 = [] then ?v1 else asked (neededKeys ?v1) (?v1\<lparr>neededKeys := []\<rparr>)) = turn_effect xml_parse m ?v"
    using n by (cases m; cases v) (simp_all add: set_add_def asked_def turn_effect_def)
  moreover have "session_turn xml_parse s = (Inr True, s2)" using 1(1) 2(1) by (simp add: session_turn_def bnd_def andthen_def)
  moreover have "neededKeys (turn_effect xml_parse m ?v) = []"
    using n by (simp add: turn_effect_def asked_def Let_def split: option.splits)
  ultimately show ?thesis using 2(2) by auto
qed

fun run_effect :: "(byte list \<Rightarrow> xml_node list option) \<Rightarrow> session_message list \<Rightarrow> session_view \<Rightarrow> session_view" where
  "run_effect xml_parse [] v = v"
| "run_effect xml_parse (m # ms) v = run_effect xml_parse ms (turn_effect xml_parse m v)"

lemma turn_effect_fields:
  "toRead (turn_effect xml_parse m v) = toRead v"
  "knownStreams (turn_effect xml_parse m v) = follow xml_parse (knownStreams v) m"
  "receivedCount (turn_effect xml_parse m v) = receivedCount v + of_bool (is_definitions m)"
  "wire (turn_effect xml_parse m v) @ requests_for (sentCount (turn_effect xml_parse m v)) ms = wire v @ requests_for (sentCount v) (m # ms)"
  by (simp_all add: turn_effect_def asked_def Let_def split: option.splits)

lemma turn_effect_unread: "turn_effect xml_parse m (v\<lparr>toRead := b\<rparr>) = (turn_effect xml_parse m v)\<lparr>toRead := b\<rparr>"
  by (cases v) (simp add: turn_effect_def asked_def Let_def split: option.splits)

lemma run_effect_fields:
  "toRead (run_effect xml_parse ms v) = toRead v"
  "knownStreams (run_effect xml_parse ms v) = foldl (follow xml_parse) (knownStreams v) ms"
  "receivedCount (run_effect xml_parse ms v) = receivedCount v + of_nat (length (filter is_definitions ms))"
  "wire (run_effect xml_parse ms v) = wire v @ requests_for (sentCount v) ms"
proof -
  show "toRead (run_effect xml_parse ms v) = toRead v"
    "knownStreams (run_effect xml_parse ms v) = foldl (follow xml_parse) (knownStreams v) ms"
    by (induction ms arbitrary: v) (simp_all add: turn_effect_fields)
  show "receivedCount (run_effect xml_parse ms v) = receivedCount v + of_nat (length (filter is_definitions ms))"
    by (induction ms arbitrary: v) (simp_all add: turn_effect_fields)
  show "wire (run_effect xml_parse ms v) = wire v @ requests_for (sentCount v) ms"
    by (induction ms arbitrary: v) (simp_all only: run_effect.simps requests_for.simps(1) append_Nil2 turn_effect_fields)
qed

lemma view_run:
  assumes "views s v" and "toRead v = concat (map session_message_bytes ms) @ rest" and "neededKeys v = []" and "list_all message_sendable ms"
  shows "\<exists>s'. threadProcImpl xml_parse (replicate (length ms) []) s = (Inr False, s') \<and> views s' (run_effect xml_parse ms (v\<lparr>toRead := rest\<rparr>))"
  using assms
proof (induction ms arbitrary: s v)
  case Nil
  then show ?case by (cases v) simp
next
  case (Cons m ms)
  let ?rest = "concat (map session_message_bytes ms) @ rest"
  have "session_arrive [] s = (Inr (), s)"
    by (cases "sessionStream s"; cases s) (simp_all add: session_arrive_def)
  moreover have "\<not> sessionShouldStop s" using Cons.prems(1) by (simp add: views_def)
  moreover from view_turn [OF Cons.prems(1), of m ?rest xml_parse] Cons.prems obtain s1 where
    1: "session_turn xml_parse s = (Inr True, s1)" "views s1 (turn_effect xml_parse m (v\<lparr>toRead := ?rest\<rparr>))"
      "neededKeys (turn_effect xml_parse m (v\<lparr>toRead := ?rest\<rparr>)) = []" by auto
  ultimately have "threadProcImpl xml_parse (replicate (length (m # ms)) []) s = threadProcImpl xml_parse (replicate (length ms) []) s1"
    by (simp add: bnd_def andthen_def)
  moreover have "toRead (turn_effect xml_parse m (v\<lparr>toRead := ?rest\<rparr>)) = ?rest" by (simp add: turn_effect_fields)
  ultimately show ?case
    using Cons.IH [OF 1(2) _ 1(3)] Cons.prems(4) by (simp add: turn_effect_unread)
qed

lemma run_effect_needed: "neededKeys v = [] \<Longrightarrow> neededKeys (run_effect xml_parse ms v) = []"
  by (induction ms arbitrary: v) (simp_all add: turn_effect_def asked_def Let_def split: option.splits)

section \<open>Waiting for definitions\<close>

lemma session_arrive_nothing: "session_arrive [] s = (Inr (), s)"
  by (cases "sessionStream s"; cases s) (simp_all add: session_arrive_def)

lemma thread_turn:
  assumes v: "views s v" and r: "toRead v = session_message_bytes m @ rest" and n: "neededKeys v = []" and ok: "message_sendable m"
  shows "\<exists>s'. threadProc xml_parse [[]] s = (Inr (), s') \<and> views s' (turn_effect xml_parse m (v\<lparr>toRead := rest\<rparr>))"
proof -
  from view_turn [OF v r n ok, of xml_parse] obtain s' where
    1: "session_turn xml_parse s = (Inr True, s')" "views s' (turn_effect xml_parse m (v\<lparr>toRead := rest\<rparr>))" by blast
  have "s\<lparr>sessionRunning := True\<rparr> = s" "\<not> sessionShouldStop s" using v by (simp_all add: views_def)
  then have "threadProc xml_parse [[]] s = (Inr (), s')"
    using 1(1) by (simp add: threadProc_def andthen_def bnd_def session_arrive_nothing)
  with 1(2) show ?thesis by blast
qed

lemma not_completed: "receivedCount v + 1 = requestId \<Longrightarrow> views s v \<Longrightarrow> \<not> streamDefRequestCompleted requestId s"
  by (auto simp: streamDefRequestCompleted_def views_def)

lemma wait_turn:
  assumes "views s v" and "toRead v = session_message_bytes m @ rest" and "neededKeys v = []" and "message_sendable m"
    and "receivedCount v + 1 = requestId"
  shows "\<exists>s'. wait_definitions xml_parse requestId ([] # turns) s = wait_definitions xml_parse requestId turns s' \<and>
    views s' (turn_effect xml_parse m (v\<lparr>toRead := rest\<rparr>))"
proof -
  from thread_turn [OF assms(1-4), of xml_parse] obtain s' where
    1: "threadProc xml_parse [[]] s = (Inr (), s')" "views s' (turn_effect xml_parse m (v\<lparr>toRead := rest\<rparr>))" by blast
  have "sessionRunning s" using assms(1) by (simp add: views_def)
  with 1 not_completed [OF assms(5,1)] show ?thesis by (auto simp: bnd_def andthen_def)
qed

lemma wait_answered:
  assumes "views s v" and "toRead v = concat (map session_message_bytes (ms @ [DefinitionsMessage n xml])) @ rest"
    and "neededKeys v = []" and "list_all message_sendable (ms @ [DefinitionsMessage n xml])"
    and "list_all (\<lambda>m. \<not> is_definitions m) ms" and "receivedCount v + 1 = requestId"
  shows "\<exists>s'. wait_definitions xml_parse requestId (replicate (Suc (length ms)) [] @ turns) s = (Inr (Some ()), s') \<and>
    views s' (run_effect xml_parse (ms @ [DefinitionsMessage n xml]) (v\<lparr>toRead := rest\<rparr>))"
  using assms
proof (induction ms arbitrary: s v)
  case Nil
  let ?m = "DefinitionsMessage n xml"
  from wait_turn [OF Nil(1) _ Nil(3) _ Nil(6), of ?m rest xml_parse turns] Nil(2,4) obtain s' where
    1: "wait_definitions xml_parse requestId ([] # turns) s = wait_definitions xml_parse requestId turns s'"
      "views s' (turn_effect xml_parse ?m (v\<lparr>toRead := rest\<rparr>))" by auto
  have "streamDefRequestCompleted requestId s'"
    using 1(2) Nil(6) by (simp add: streamDefRequestCompleted_def views_def turn_effect_fields)
  then have "wait_definitions xml_parse requestId turns s' = (Inr (Some ()), s')"
    by (cases turns) (simp_all add: bnd_def)
  with 1 show ?case by simp
next
  case (Cons m ms)
  let ?rest = "concat (map session_message_bytes (ms @ [DefinitionsMessage n xml])) @ rest"
  let ?v = "turn_effect xml_parse m (v\<lparr>toRead := ?rest\<rparr>)"
  from wait_turn [OF Cons.prems(1) _ Cons.prems(3) _ Cons.prems(6), of m ?rest xml_parse "replicate (Suc (length ms)) [] @ turns"]
    Cons.prems(2,4) obtain s1 where
    1: "wait_definitions xml_parse requestId ([] # replicate (Suc (length ms)) [] @ turns) s =
        wait_definitions xml_parse requestId (replicate (Suc (length ms)) [] @ turns) s1" "views s1 ?v" by auto
  have "neededKeys ?v = []" using Cons.prems(3) by (simp add: turn_effect_def asked_def Let_def split: option.splits)
  moreover have "receivedCount ?v + 1 = requestId" using Cons.prems(5,6) by (simp add: turn_effect_fields)
  ultimately have "\<exists>s'. wait_definitions xml_parse requestId (replicate (Suc (length ms)) [] @ turns) s1 = (Inr (Some ()), s') \<and>
      views s' (run_effect xml_parse (ms @ [DefinitionsMessage n xml]) (?v\<lparr>toRead := rest\<rparr>))"
    using Cons.prems(4,5) by (intro Cons.IH [OF 1(2)]) (simp_all add: turn_effect_fields)
  with 1(1) show ?case by (simp add: turn_effect_unread)
qed

section \<open>Properties\<close>

text \<open>The thread is running, nothing waits in the buffer, and no stream definition is still to be requested.\<close>

definition session_ready :: "session \<Rightarrow> bool" where
  "session_ready s \<longleftrightarrow> idle s \<and> cache_ok (sessionDb s) \<and> sessionRunning s \<and> \<not> sessionInterrupted s \<and> \<not> sessionShouldStop s \<and>
     neededStreamDefs s = []"

definition view_of :: "session \<Rightarrow> tcp_state \<Rightarrow> byte list \<Rightarrow> session_view" where
  "view_of s t bs = \<lparr>toRead = bs, knownStreams = catalog (sessionDb s), wire = sent t, sentCount = nStreamDefRequestsSent s,
     receivedCount = nStreamDefRequestsReceived s, neededKeys = neededStreamDefs s\<rparr>"

lemma ready_views:
  "session_ready s \<Longrightarrow> sessionStream s = Some t \<Longrightarrow> feeds t bs \<Longrightarrow> views s (view_of s t bs)"
  by (simp add: session_ready_def views_def view_of_def)

text \<open>C7: However the network splits the messages of the server, the thread of the session keeps the catalog of the client
  up to date: it forgets the streams that are deleted or renamed, takes over the definitions it can read, asks for every
  stream that is new or changed with correctly numbered requests, and counts the answers.\<close>

theorem session_follows_server:
  assumes "session_ready s" and "sessionStream s = Some t" and "feeds t (concat (map session_message_bytes ms))"
    and "list_all message_sendable ms"
  shows "\<exists>s' t'. threadProcImpl xml_parse (replicate (length ms) []) s = (Inr False, s') \<and> session_ready s' \<and>
    sessionStream s' = Some t' \<and> feeds t' [] \<and>
    catalog (sessionDb s') = foldl (follow xml_parse) (catalog (sessionDb s)) ms \<and>
    sent t' = sent t @ requests_for (nStreamDefRequestsSent s) ms \<and>
    nStreamDefRequestsReceived s' = nStreamDefRequestsReceived s + of_nat (length (filter is_definitions ms))"
proof -
  let ?v = "view_of s t (concat (map session_message_bytes ms) @ [])"
  have "views s ?v" using ready_views assms(1-3) by simp
  from view_run [OF this _ _ assms(4), of "[]" xml_parse] assms(1) obtain s' where
    s': "threadProcImpl xml_parse (replicate (length ms) []) s = (Inr False, s')"
      "views s' (run_effect xml_parse ms (?v\<lparr>toRead := []\<rparr>))"
    by (auto simp: view_of_def session_ready_def)
  have "neededKeys (run_effect xml_parse ms (?v\<lparr>toRead := []\<rparr>)) = []"
    by (rule run_effect_needed) (use assms(1) in \<open>simp add: view_of_def session_ready_def\<close>)
  with s' show ?thesis
    by (auto simp: views_def session_ready_def run_effect_fields view_of_def)
qed

definition sample_tcp :: "recv_event list \<Rightarrow> tcp_state" where
  "sample_tcp evs = \<lparr>incoming = evs, tcpBytesRead = 0, tcpBytesWritten = 0, sent = [], isClosed = False, inputClosed = False,
     outputClosed = False\<rparr>"

definition sample_session :: "recv_event list \<Rightarrow> session" where
  "sample_session evs = \<lparr>sessionDb = sample_database, sessionStream = Some (sample_tcp evs), sessionSends = [],
     sessionWriter = \<lparr>wmem = (\<lambda>_. 0), bufferAllocPtr = 8, bufferStart = 0x1000, dataPtr = 0x1000, dataEnd = 0x12000,
       dataEndNotNull = 0, headerSize = 0, depth = 0, containerHeader = [], containerIsArray = [], containerContentsExtraSize = [],
       expansionPoints = []\<rparr>,
     sessionBuffer = Allocated, nStreamDefRequestsSent = 1, nPropertyRequestsSent = 0, nStreamDefRequestsReceived = 0,
     nPropertyRequestsReceived = 0, neededStreamDefs = [], knownStreamDefs = [], sessionError = [], sessionVersion = 32,
     sessionRunning = True, sessionStopped = False, sessionShouldStop = False, sessionInterrupted = False, sessionThread = True\<rparr>"

lemma sample_session_ready: "session_ready (sample_session evs)" "sessionStream (sample_session evs) = Some (sample_tcp evs)"
  by (simp_all add: session_ready_def idle_def connected_def writer_ok_def BASIC_WRITER_BUFFER_SIZE_def sample_session_def sample_tcp_def
      sample_database_ok)

definition sample_messages :: "session_message list" where
  "sample_messages = [DeletedMessage [97], CreatedMessage [99], DefinitionsMessage 1 []]"

definition sample_chunks :: "recv_event list" where
  "sample_chunks = [Received [0, 0], Received [0, 12, 0], Received [1, 97, 0, 0, 0, 13, 0, 1], Received [99, 0, 0, 0],
     Received [15, 0, 0, 0, 0, 0, 0, 0, 1, 0, 0, 0, 0]]"

lemma sample_chunks_feed: "feeds (sample_tcp sample_chunks) (concat (map session_message_bytes sample_messages))"
  by code_simp

lemma sample_catalog: "catalog sample_database [97] = Some default_stream_options"
  by code_simp

lemma session_follows_server_witness:
  "\<exists>s' t'. threadProcImpl (\<lambda>_. None) [[], [], []] (sample_session sample_chunks) = (Inr False, s') \<and>
    sessionStream s' = Some t' \<and> catalog (sessionDb s') = (catalog sample_database)([97] := None) \<and>
    sent t' = [0, 0, 0, 1, 0, 0, 0, 0, 0, 0, 0, 2, 0, 0, 0, 1, 0, 1, 99] \<and> nStreamDefRequestsReceived s' = 1"
proof -
  have "list_all message_sendable sample_messages" by code_simp
  moreover have "request_bytes 2 [[99]] = [0, 0, 0, 1, 0, 0, 0, 0, 0, 0, 0, 2, 0, 0, 0, 1, 0, 1, 99]" by code_simp
  ultimately show ?thesis
    using session_follows_server [OF sample_session_ready sample_chunks_feed, of "\<lambda>_. None"]
    by (auto simp: sample_messages_def definitions_of_def) (auto simp: sample_session_def sample_tcp_def)
qed

text \<open>C37: After a command that the client does not know, the output buffer is freed twice: the pointer to it is not
  reset when the connection is given up, and the end of the thread frees it again.\<close>

theorem unexpected_token_frees_twice:
  assumes "session_ready s" and "sessionStream s = Some t" and "feeds t (be_bytes 4 (c :: 32 word) @ rest)"
    and "c \<notin> {STREAM_PROPERTY_CHANGED, STREAM_DELETED, STREAM_CREATED, STREAM_RENAMED, STREAMS_DEFINITION, STREAM_PROPERTY,
      SESSION_CLOSED, STREAMS_CHANGED}"
  shows "\<exists>s'. threadProcImpl xml_parse ([] # turns) s = (Inl (Undefined ''double free''), s')"
proof -
  from view_command [OF ready_views [OF assms(1-3)], of c rest xml_parse] obtain s1 where
    1: "input_body xml_parse s = session_command xml_parse c s1" "views s1 ((view_of s t (be_bytes 4 c @ rest))\<lparr>toRead := rest\<rparr>)"
    by (auto simp: view_of_def)
  have "sessionBuffer s1 = Allocated" using 1(2) by (simp add: views_def idle_def connected_def)
  then obtain s2 where 2: "session_command xml_parse c s1 = (Inr FINISHED, s2)" "sessionBuffer s2 = Freed"
    using assms(4) by (auto simp: session_command_def andthen_def bnd_def set_session_error_def session_cleanup_def session_closeConnection_def)
  have "session_arrive [] s = (Inr (), s)"
    by (cases "sessionStream s"; cases s) (simp_all add: session_arrive_def)
  with assms(1,2) 1(1) 2 show ?thesis
    by (simp add: session_ready_def bnd_def andthen_def session_turn_def processInput_def session_close_def session_cleanup_def
        session_closeConnection_def)
qed

text \<open>C38: A request with a key that is too long fails, but its beginning stays in the buffer: the next request is sent
  behind it, so the server reads the next request as part of the failed one.\<close>

theorem failed_request_corrupts_next:
  assumes "idle s" and "0xFFFF \<le> length key" and "list_all short_string keys" and "sessionStream s = Some t"
  defines "n \<equiv> nStreamDefRequestsSent s"
  shows "\<exists>e s1 s2 t2. requestGetStreams [key] s = (Inl (RuntimeError e), s1) \<and> requestGetStreams keys s1 = (Inr (n + 2), s2) \<and>
    sessionStream s2 = Some t2 \<and> sent t2 = sent t @ request_header (n + 1) 1 @ request_bytes (n + 2) keys"
proof -
  have c: "connected s" and start: "dataPtr (sessionWriter s) = bufferStart (sessionWriter s)" using assms(1) by (simp_all add: idle_def)
  then have room: "dataPtr (sessionWriter s) + 16 \<le> dataEnd (sessionWriter s)"
    by (simp add: connected_def writer_ok_def BASIC_WRITER_BUFFER_SIZE_def)
  from says_header [OF c room, of 1] obtain s1 where
    1: "header_ops 1 s = (Inr (), s1)" "says (s\<lparr>nStreamDefRequestsSent := n + 1\<rparr>) (request_header (n + 1) 1) s1"
      "dataPtr (sessionWriter s1) = dataPtr (sessionWriter s) + 16" "dataEnd (sessionWriter s1) = dataEnd (sessionWriter s)"
    unfolding n_def by blast
  define s2 where "s2 = (if remaining (sessionWriter s1) \<le> length key + 4 then snd (session_flushOutput s1) else s1)"
  from says_flush [OF connected_said [OF 1(2)]] obtain s' where
    f: "session_flushOutput s1 = (Inr (), s')" "says s1 [] s'" "dataPtr (sessionWriter s') = bufferStart (sessionWriter s')" by blast
  have 2: "bnd (gets (\<lambda>s. remaining (sessionWriter s) \<le> length key + 4)) (\<lambda>full. whenM full session_flushOutput) s1 = (Inr (), s2)"
    "says s1 [] s2"
    using f says_refl [OF connected_said [OF 1(2)]] by (auto simp: s2_def bnd_def)
  obtain e where k: "on_session_writer (writeUTF8_bytes key) s2 = (Inl (RuntimeError e), s2)"
    using assms(2) connected_said [OF 2(2)]
    by (auto simp: on_session_writer_def writeUTF8_bytes_def andthen_def bnd_def connected_def)
  have "write_key key s1 = on_session_writer (writeUTF8_bytes key) s2"
    unfolding write_key_def seqs.simps by (rule andthen_ok) (rule 2(1))
  moreover have "requestGetStreams [key] = andthen (andthen (header_ops 1) (andthen (mapM write_key [key]) session_flushOutput)) (gets nStreamDefRequestsSent)"
    by (rule ext) (simp add: requestGetStreams_def header_ops_def andthen_def bnd_assoc)
  ultimately have fails: "requestGetStreams [key] s = (Inl (RuntimeError e), s2)"
    using 1(1) k by (simp add: andthen_def bnd_def)
  have "dataPtr (sessionWriter s2) + 16 \<le> dataEnd (sessionWriter s2)"
  proof (cases "s2 = s1")
    case True
    with 1(3,4) start c show ?thesis by (simp add: connected_def writer_ok_def BASIC_WRITER_BUFFER_SIZE_def)
  next
    case False
    then have "s2 = s'" using f(1) by (auto simp: s2_def split: if_splits)
    with f(3) connected_said [OF f(2)] show ?thesis by (simp add: connected_def writer_ok_def BASIC_WRITER_BUFFER_SIZE_def)
  qed
  from request_goes_out [OF connected_said [OF 2(2)] this assms(3)] obtain s3 where
    3: "requestGetStreams keys s2 = (Inr (nStreamDefRequestsSent s2 + 1), s3)" "idle s3"
      "says (s2\<lparr>nStreamDefRequestsSent := nStreamDefRequestsSent s2 + 1\<rparr>) (request_bytes (nStreamDefRequestsSent s2 + 1) keys) s3" by blast
  have n2: "nStreamDefRequestsSent s2 + 1 = n + 2" using 1(2) 2(2) by (auto simp: says_def)
  have out: "wire_out s3 = wire_out s @ request_header (n + 1) 1 @ request_bytes (n + 2) keys"
    using 1(2) 2(2) 3(3) unfolding n2 by (simp add: says_def)
  from 3(2) obtain t3 where t3: "sessionStream s3 = Some t3" by (auto simp: idle_def connected_def)
  with out 3(2) start assms(4) have "sent t3 = sent t @ request_header (n + 1) 1 @ request_bytes (n + 2) keys"
    by (simp add: wire_out_def idle_def)
  with fails 3(1) t3 show ?thesis unfolding n2 by blast
qed

lemma unexpected_token_frees_twice_witness:
  "\<exists>s'. threadProcImpl (\<lambda>_. None) [[]] (sample_session [Received [0, 0, 0, 42]]) = (Inl (Undefined ''double free''), s')"
proof -
  have "feeds (sample_tcp [Received [0, 0, 0, 42]]) (be_bytes 4 (42 :: 32 word) @ [])" by code_simp
  from unexpected_token_frees_twice [OF sample_session_ready this, of "\<lambda>_. None" "[]"] show ?thesis
    by (simp add: commands)
qed

lemma failed_request_corrupts_next_witness:
  "\<exists>e s1 s2 t2. requestGetStreams [replicate 70000 98] (sample_session []) = (Inl (RuntimeError e), s1) \<and>
    requestGetStreams [[99]] s1 = (Inr 3, s2) \<and> sessionStream s2 = Some t2 \<and>
    sent t2 = [0, 0, 0, 1, 0, 0, 0, 0, 0, 0, 0, 2, 0, 0, 0, 1, 0, 0, 0, 1, 0, 0, 0, 0, 0, 0, 0, 3, 0, 0, 0, 1, 0, 1, 99]"
proof -
  have b: "request_header 2 1 @ request_bytes 3 [[99]] =
      [0, 0, 0, 1, 0, 0, 0, 0, 0, 0, 0, 2, 0, 0, 0, 1, 0, 0, 0, 1, 0, 0, 0, 0, 0, 0, 0, 3, 0, 0, 0, 1, 0, 1, 99]" by code_simp
  have "idle (sample_session [])" using sample_session_ready(1) by (simp add: session_ready_def)
  from failed_request_corrupts_next [OF this, of "replicate 70000 98" "[[99]]", OF _ _ sample_session_ready(2)] b show ?thesis
    by (simp add: short_string_def) (simp add: sample_session_def sample_tcp_def)
qed

text \<open>C10: A synchronous request for definitions returns as soon as the server has answered it, whatever else the server
  sends before, and then the catalog has what the answer says.\<close>

theorem synchronous_request_returns:
  assumes "session_ready s" and "sessionStream s = Some t"
    and "feeds t (concat (map session_message_bytes (ms @ [DefinitionsMessage n xml])))"
    and "list_all message_sendable (ms @ [DefinitionsMessage n xml])" and "list_all (\<lambda>m. \<not> is_definitions m) ms"
    and "list_all short_string keys" and "nStreamDefRequestsReceived s = nStreamDefRequestsSent s"
  shows "\<exists>s'. getStreamsSynchronous xml_parse keys (replicate (Suc (length ms)) [] @ turns) s = (Inr (Some ()), s') \<and>
    catalog (sessionDb s') =
      foldl learn (foldl (follow xml_parse) (catalog (sessionDb s)) ms) (definitions_of xml_parse xml)"
proof -
  let ?b = "concat (map session_message_bytes (ms @ [DefinitionsMessage n xml]))"
  let ?v = "view_of s t ?b"
  have "views (forget_known keys s) ?v"
    using ready_views [OF assms(1-3)] by (auto simp: forget_known_def views_def idle_def connected_def)
  from view_request [OF this assms(6)] obtain s1 where
    1: "requestGetStreams keys (forget_known keys s) = (Inr (sentCount ?v + 1), s1)" "views s1 (asked keys ?v)"
    by (auto simp: asked_def)
  have "\<exists>s'. wait_definitions xml_parse (sentCount ?v + 1) (replicate (Suc (length ms)) [] @ turns) s1 = (Inr (Some ()), s') \<and>
    views s' (run_effect xml_parse (ms @ [DefinitionsMessage n xml]) ((asked keys ?v)\<lparr>toRead := []\<rparr>))"
    by (rule wait_answered [OF 1(2) _ _ assms(4,5)])
      (use assms(1,7) in \<open>simp_all add: asked_def view_of_def session_ready_def\<close>)
  then obtain s' where
    2: "wait_definitions xml_parse (sentCount ?v + 1) (replicate (Suc (length ms)) [] @ turns) s1 = (Inr (Some ()), s')"
      "views s' (run_effect xml_parse (ms @ [DefinitionsMessage n xml]) ((asked keys ?v)\<lparr>toRead := []\<rparr>))" by blast
  have "isWorking s" using assms(1) by (simp add: isWorking_def session_ready_def)
  then have "getStreamsSynchronous xml_parse keys (replicate (Suc (length ms)) [] @ turns) s = (Inr (Some ()), s')"
    using 1(1) 2(1) by (simp add: getStreamsSynchronous_def bnd_def andthen_def del: wait_definitions.simps replicate.simps)
  moreover have "catalog (sessionDb s') = knownStreams (run_effect xml_parse (ms @ [DefinitionsMessage n xml]) ((asked keys ?v)\<lparr>toRead := []\<rparr>))"
    using 2(2) by (simp add: views_def)
  ultimately show ?thesis by (simp add: run_effect_fields asked_def view_of_def)
qed

lemma synchronous_request_returns_witness:
  "\<exists>s'. getStreamsSynchronous (\<lambda>_. None) [[97], [98]] [[], [], [], []] ((sample_session sample_chunks)\<lparr>nStreamDefRequestsReceived := 1\<rparr>) =
      (Inr (Some ()), s') \<and> catalog (sessionDb s') = (catalog sample_database)([97] := None)"
proof -
  let ?s = "(sample_session sample_chunks)\<lparr>nStreamDefRequestsReceived := 1\<rparr>"
  let ?ms = "[DeletedMessage [97], CreatedMessage [99]]"
  have s: "session_ready ?s" "sessionStream ?s = Some (sample_tcp sample_chunks)"
    "feeds (sample_tcp sample_chunks) (concat (map session_message_bytes (?ms @ [DefinitionsMessage 1 []])))"
    using sample_session_ready [of sample_chunks] sample_chunks_feed
    by (simp_all add: session_ready_def idle_def connected_def sample_messages_def)
  have "list_all message_sendable (?ms @ [DefinitionsMessage 1 []])" "list_all short_string [[97], [98]]" by code_simp+
  from synchronous_request_returns [OF s this(1) _ this(2), of "\<lambda>_. None" "[[]]"] show ?thesis
    by (simp add: sample_session_def definitions_of_def)
qed

lemma wait_stopped:
  "\<not> sessionRunning s \<Longrightarrow> \<not> streamDefRequestCompleted requestId s \<Longrightarrow> wait_definitions xml_parse requestId turns s = (Inr None, s)"
  by (induction turns) (simp_all add: bnd_def andthen_def)

lemma thread_disconnected:
  assumes "sessionStream s = Some t" and "incoming t = [PeerClosed]" and "\<not> inputClosed t" and "sessionBuffer s = Allocated"
    and "\<not> sessionShouldStop s" and "\<not> sessionInterrupted s"
  shows "\<exists>s'. threadProc xml_parse [evs] s = (Inr (), s') \<and> \<not> sessionRunning s' \<and>
    nStreamDefRequestsReceived s' = nStreamDefRequestsReceived s"
  using assms
  by (simp add: threadProc_def andthen_def bnd_def session_arrive_def session_turn_def processInput_def input_body_def
      tcp_tryRead_def tcp_read_def on_input_exception_def set_session_error_def session_closeConnection_def
      session_close_def session_cleanup_def stopped_def on_db_def dispatch_def)

text \<open>C36: A client that waits for definitions when the server closes the connection waits for ever: the thread ends
  without counting an answer, and the wait looks at nothing else.\<close>

theorem synchronous_request_hangs:
  assumes "session_ready s" and "sessionStream s = Some t" and "incoming t = [PeerClosed]" and "\<not> inputClosed t"
    and "list_all short_string keys" and "nStreamDefRequestsReceived s = nStreamDefRequestsSent s"
  shows "\<exists>s'. getStreamsSynchronous xml_parse keys turns s = (Inr None, s')"
proof -
  have c: "connected (forget_known keys s)"
    using assms(1) by (simp add: session_ready_def idle_def connected_def forget_known_def)
  have "dataPtr (sessionWriter (forget_known keys s)) + 16 \<le> dataEnd (sessionWriter (forget_known keys s))"
    using assms(1) by (simp add: session_ready_def idle_def connected_def writer_ok_def BASIC_WRITER_BUFFER_SIZE_def forget_known_def)
  from request_goes_out [OF c this assms(5)] obtain s1 where
    1: "requestGetStreams keys (forget_known keys s) = (Inr (nStreamDefRequestsSent s + 1), s1)" "idle s1"
      "says (forget_known keys s\<lparr>nStreamDefRequestsSent := nStreamDefRequestsSent s + 1\<rparr>) (request_bytes (nStreamDefRequestsSent s + 1) keys) s1"
    by (auto simp: forget_known_def)
  from 1(3) obtain t1 w1 where t1: "only_sent t t1"
    "s1 = forget_known keys s\<lparr>nStreamDefRequestsSent := nStreamDefRequestsSent s + 1, sessionStream := Some t1, sessionWriter := w1\<rparr>"
    using assms(2) by (auto simp: says_def forget_known_def)
  have open1: "sessionStream s1 = Some t1" "incoming t1 = [PeerClosed]" "\<not> inputClosed t1" "sessionBuffer s1 = Allocated"
    "\<not> sessionShouldStop s1" "\<not> sessionInterrupted s1" "sessionRunning s1" "nStreamDefRequestsReceived s1 = nStreamDefRequestsReceived s"
    using t1 assms(1,3,4) by (auto simp: only_sent_def session_ready_def idle_def connected_def forget_known_def)
  have waiting: "\<not> streamDefRequestCompleted (nStreamDefRequestsSent s + 1) s'"
    if "nStreamDefRequestsReceived s' = nStreamDefRequestsReceived s" for s'
    using that assms(6) by (simp add: streamDefRequestCompleted_def)
  have "isWorking s" using assms(1) by (simp add: isWorking_def session_ready_def)
  then have run: "getStreamsSynchronous xml_parse keys turns s = wait_definitions xml_parse (nStreamDefRequestsSent s + 1) turns s1"
    using 1(1) by (simp add: getStreamsSynchronous_def bnd_def andthen_def)
  show ?thesis
  proof (cases turns)
    case Nil
    with run waiting [OF open1(8)] show ?thesis by (simp add: bnd_def)
  next
    case (Cons evs rest)
    from thread_disconnected [OF open1(1-6), of xml_parse evs] obtain s2 where
      2: "threadProc xml_parse [evs] s1 = (Inr (), s2)" "\<not> sessionRunning s2" "nStreamDefRequestsReceived s2 = nStreamDefRequestsReceived s1"
      by blast
    have "wait_definitions xml_parse (nStreamDefRequestsSent s + 1) (evs # rest) s1 = wait_definitions xml_parse (nStreamDefRequestsSent s + 1) rest s2"
      using 2(1) open1(7) waiting [OF open1(8)] by (simp add: bnd_def andthen_def)
    also have "\<dots> = (Inr None, s2)" using 2(2,3) open1(8) waiting by (intro wait_stopped) auto
    finally show ?thesis using run Cons by simp
  qed
qed

lemma synchronous_request_hangs_witness:
  "\<exists>s'. getStreamsSynchronous (\<lambda>_. None) [] (replicate 1000 []) ((sample_session [PeerClosed])\<lparr>nStreamDefRequestsReceived := 1\<rparr>) = (Inr None, s')"
proof -
  let ?s = "(sample_session [PeerClosed])\<lparr>nStreamDefRequestsReceived := 1\<rparr>"
  have "session_ready ?s" "sessionStream ?s = Some (sample_tcp [PeerClosed])"
    using sample_session_ready [of "[PeerClosed]"] by (simp_all add: session_ready_def idle_def connected_def)
  from synchronous_request_hangs [OF this, of "[]" "\<lambda>_. None" "replicate 1000 []"] show ?thesis
    by (simp add: sample_tcp_def sample_session_def)
qed

end
