(* ===== verification/Spec2Isabelle.thy ===== *)
theory Spec2Isabelle
  imports FieldTheorems SymbolTables LoaderResponses LoaderConnection CursorTheorems HttpTheorems Uri OptionsTheorems CacheTheorems SessionTheorems
begin

text \<open>
  The C++ client of the TimeBase server (\<^verbatim>\<open>src/src/dxapi/native\<close> and
  \<^verbatim>\<open>src/include/native/dxapi\<close>). A program that uses it opens a database, over whose HTTP port it sends XML requests;
  a \<^emph>\<open>session\<close> tells it which streams exist; a \<^emph>\<open>loader\<close> sends messages into a stream and a \<^emph>\<open>cursor\<close> receives them.
  Messages are byte strings that a writer encodes and a reader decodes. The development models these parts from the
  bytes up, and states for each what it promises to the part above it.

  \<^bold>\<open>How the code is modelled.\<close> A method that may throw is a function from the state of its object to an exception or a
  value, and a new state (\<open>op\<close> in Prelude); an assertion or an access that C++ leaves undefined is the exception
  \<open>Undefined\<close>, which no handler catches, so a theorem that a method returns also says that it does nothing undefined.
  Memory is a function from addresses to bytes, pointers are natural numbers, integers are words of their width. The
  world is given as data: a socket is a list of receive events and a list of what \<^verbatim>\<open>send\<close> takes, the answers of the
  server to requests are a list in the database, and a thread is driven by a list of turns with what the network
  delivers before each. A section under a lock is one step. The XML parser (tinyxml2) is a parameter.

  \<^bold>\<open>The theories, from the bottom up.\<close>

  \<^item> Prelude, Platform, Protocol: operations with state and exceptions, memory, byte orders; \<^verbatim>\<open>dxplatform.h\<close>,
    \<^verbatim>\<open>platform/platform.h\<close>, \<^verbatim>\<open>platform.cpp\<close>, \<^verbatim>\<open>tickdb/common.h\<close>; the constants of \<^verbatim>\<open>dxconstants.h\<close> and
    \<^verbatim>\<open>tickdb/protocol.h\<close>. The table-driven CRC-32 is the bitwise one.
  \<^item> Streams: \<^verbatim>\<open>io/streams.cpp\<close>, \<^verbatim>\<open>io/tcp.cpp\<close>. The locale \<open>input_stream_spec\<close> is the contract of a blocking read (at
    least so many bytes, at most so many, the next of the stream, or an exception); the socket satisfies it, and so does
    a chain of preloaders over it, however the network splits the data.
  \<^item> DataWriter, FieldWriter, WriterContainers: \<^verbatim>\<open>data_writer.h\<close>, \<^verbatim>\<open>data_writer.cpp\<close>: the buffer, the fields, and arrays
    and objects whose length fields are expanded in place when the message ends. The writer stays in its buffer, and
    the expansion computes the reference encoding.
  \<^item> DataReader, FieldReader, StringReader, ReaderContainers: \<^verbatim>\<open>data_reader.h\<close>, \<^verbatim>\<open>data_reader.cpp\<close>,
    \<^verbatim>\<open>http/data_reader_http.cpp\<close>. The locale \<open>byte_source\<close> says what the decoders need of a reader: there are bytes
    pending, and a request takes them from the front or throws. The buffered reader, a reader in a message and a reader
    in a container are sources, so each decoder is proved once.
  \<^item> Codec, FieldCodec, TimeCodec, Alphanumerics, MessageCodec: encodings against decoders, field by field and for
    messages of nested values. MessageTheorems, PartialMessages, NestedContainers, FieldTheorems: the theorems, with the
    exact domain of each round trip and what happens outside it.
  \<^item> LookupTables, SymbolTables: \<^verbatim>\<open>util/dynamic_lut.h\<close>, \<^verbatim>\<open>util/bidirectional_lut.h\<close>,
    \<^verbatim>\<open>tickdb/symbol_translator.cpp\<close>: ids of instruments and message types, the lists of descriptors of a name.
  \<^item> Loader, LoaderIO, LoaderLifecycle: \<^verbatim>\<open>http/tickloader_http.cpp\<close> and \<^verbatim>\<open>loader_manager.cpp\<close>. LoaderSpec is its
    contract, a log of instruments and messages with its bytes; LoaderRefinement is the simulation, over the locale
    \<open>simulation\<close>; LoaderTheorems, LoaderConnection, LoaderResponses: what is on the wire after any operations of the
    client, what a receiver reads from it, how a loader is finished, and the responses of the server.
  \<^item> CursorState, Cursor, CursorControl: \<^verbatim>\<open>http/tickcursor_http.cpp\<close> and \<^verbatim>\<open>tickcursor_subscriptions.cpp\<close>. CursorInvariant
    is the well-formedness that every operation keeps; CursorFilters says what the filters mean (the locale
    \<open>name_filter\<close>, interpreted for symbols and for types), CursorSubscriptions how requests change the subscription;
    CursorReader, CursorRecords, CursorDelivery and CursorTheorems: \<^verbatim>\<open>next\<close> delivers the messages that the subscription
    accepts, in order.
  \<^item> CText, Http, HttpReader, HttpTheorems, Uri: \<^verbatim>\<open>http/tickdb_http.cpp\<close> (requests and responses in their three
    framings), \<^verbatim>\<open>http/uri.cpp\<close>, \<^verbatim>\<open>util/base64.h\<close>. The locales \<open>char_source\<close> and \<open>closing_source\<close> say how the response is
    read.
  \<^item> Xml, XmlRequests, XmlResponses: \<^verbatim>\<open>http/xml\<close>. XmlTheorems has a reference reader of documents, independent of the
    code, by which every request is the document of its arguments; OptionsTheorems follows the options of a stream to
    the server and back.
  \<^item> StreamCache, CacheTheorems: \<^verbatim>\<open>tickstream_impl.cpp\<close>, \<^verbatim>\<open>tickstream_cache.cpp\<close>, \<^verbatim>\<open>http/tickdb_stream_requests.cpp\<close>.
    The cache and the heap of stream objects implement a catalog, a map from keys to options (the locale
    \<open>stream_catalog\<close>); locks of a stream nest. \<^verbatim>\<open>synchronize\<close>, \<^verbatim>\<open>matchKeys\<close> and the marks are modelled and specified, but
    the program does not call them while the session is enabled (\<^verbatim>\<open>USE_SH\<close>).
  \<^item> SessionHandler, SessionTheorems: \<^verbatim>\<open>tickdb/session_handler.cpp\<close>. The thread of the session follows the messages of the
    server: the catalog of the client changes as the messages say, what is new is asked for; and the errors of the
    session.

  \<^bold>\<open>Errors.\<close> Where the code does not do what it means to, the theorem says what it does: small intervals in minutes,
  arrays of 128 bytes and more in other arrays, partial sends and overflows of the loader, names that are
  subscribed again, and in the session the buffer that is freed twice, the request that fails half-way and the wait that
  never ends. Lemmas that are not in the list of properties say the same of compressed times and alphanumerics.

  \<^bold>\<open>Bounds and fuel.\<close> Loops of the code are recursions on data or have a measure. Fuel is used where a loop ends only
  because of what it reads: in the reader of a response, the bytes still to come and one or two more, since every round
  takes a byte or ends; in the loop that unlocks a stream, the holders of the lock and one more. The theorems say that
  these end with a result, so the fuel is enough. A thread of the session or of the loaders takes as many turns as the
  environment has; a wait that is still on when the turns are over returns \<open>None\<close>.

  \<^bold>\<open>Not modelled.\<close> Floating point arithmetic of decimals; the chunked reader of a cursor whose response is chunked (the
  chunks of other responses are modelled); statistics, logging, the locks themselves and the operating system's
  sockets and threads; class descriptors, background processes and the state of a query, which are copied from a
  response; the janitor, tests, tools and vendored code.
\<close>

end
